(* ===== verification/Alcy_Prelude.thy ===== *)
theory Alcy_Prelude
  imports Main "HOL-Library.Word"
begin

text \<open>
  Shared vocabulary of the development.  It names the machine types the compiler's C++ sources
  use (\<^verbatim>\<open>u8\<close>, \<^verbatim>\<open>u32\<close>, \<^verbatim>\<open>u64\<close> of \<^verbatim>\<open>fpag/base/numeric.h\<close>), the source text as a list of
  bytes, the error-or-value type that stands for \<^verbatim>\<open>base::Result\<close>, and the lemmas on masks,
  lists and options that the component theories share.
\<close>

unbundle bit_operations_syntax

type_synonym u8 = "8 word"
type_synonym u16 = "16 word"
type_synonym u32 = "32 word"
type_synonym u64 = "64 word"

text \<open>Source text: one \<^typ>\<open>char\<close> per byte of the file, as a \<^verbatim>\<open>std::string_view\<close> sees it.\<close>

type_synonym bytes = "char list"

text \<open>\<^verbatim>\<open>base::Result<T, E>\<close>: \<^term>\<open>Inl\<close> carries the error, \<^term>\<open>Inr\<close> the value.\<close>

type_synonym ('e, 'a) result = "'e + 'a"

subsection \<open>Collections of rewrite rules\<close>

named_theorems probe_simps \<open>equations of the probing loops of the open-addressed tables\<close>
named_theorems byte_simps \<open>facts on byte classes\<close>
named_theorems lex_simps \<open>frame facts of the lexer's operations\<close>

subsection \<open>Masks over a power of two\<close>

text \<open>
  The tables of the sources have a power of two of slots and step their index with
  \<^verbatim>\<open>(i + 1) & (slots - 1)\<close>.
\<close>

lemma nat_and_mask [simp]: "(i :: nat) AND (2 ^ b - 1) = i mod 2 ^ b"
  by (metis mask_eq_exp_minus_1 take_bit_eq_mask take_bit_eq_mod)

lemma nat_and_mask_Suc [simp]: "(i :: nat) AND (2 ^ b - Suc 0) = i mod 2 ^ b"
  using nat_and_mask [of i b] by simp

subsection \<open>Lists\<close>

lemma nth_list_update_cases:
  "i < length xs \<Longrightarrow> (xs[i := v]) ! j = (if i = j then v else xs ! j)"
  by simp

lemma length_filter_update:
  assumes "i < length xs"
  shows "length (filter P (xs[i := v])) + (if P (xs ! i) then 1 else 0)
       = length (filter P xs) + (if P v then 1 else 0)"
  using assms
proof (induction xs arbitrary: i)
  case Nil
  then show ?case by simp
next
  case (Cons x xs)
  then show ?case by (cases i) auto
qed

lemma filter_length_less_ex:
  "length (filter P xs) < length xs \<Longrightarrow> \<exists>i < length xs. \<not> P (xs ! i)"
  by (metis filter_True in_set_conv_nth less_irrefl)

end
