(* ===== verification/Linear_Probing.thy ===== *)
theory Linear_Probing
  imports Alcy_Prelude
begin

text \<open>
  Open addressing with linear probing, over an abstract occupancy: \<open>occ i\<close> is the key stored
  at slot \<open>i\<close>, or \<^term>\<open>None\<close> for a free slot.  Two tables of the sources are built this way,
  the lexer's keyword table and \<^verbatim>\<open>base::FlatHashMap\<close>; their loops are shown equal to
  \<open>scan_from\<close> in their own theories, and everything about reachability of keys is proved here
  once, in the locale \<open>probing\<close>.
\<close>

subsection \<open>The probe\<close>

text \<open>
  \<open>scan_from fuel occ n k i\<close> walks the slots cyclically from \<open>i\<close> and returns the first one
  that is free or holds \<open>k\<close>; \<^term>\<open>None\<close> says that \<open>fuel\<close> slots were looked at and none fits.
\<close>

fun scan_from :: "nat \<Rightarrow> (nat \<Rightarrow> 'k option) \<Rightarrow> nat \<Rightarrow> 'k \<Rightarrow> nat \<Rightarrow> nat option" where
  "scan_from 0 occ n k i = None"
| "scan_from (Suc fuel) occ n k i =
     (if occ i = None \<or> occ i = Some k then Some i
      else scan_from fuel occ n k ((i + 1) mod n))"

lemma scan_from_Some_iff:
  assumes "i < n"
  shows "scan_from fuel occ n k i = Some j \<longleftrightarrow>
    (\<exists>d < fuel. j = (i + d) mod n \<and> (occ j = None \<or> occ j = Some k)
       \<and> (\<forall>e < d. occ ((i + e) mod n) \<noteq> None \<and> occ ((i + e) mod n) \<noteq> Some k))"
  using assms
proof (induction fuel arbitrary: i)
  case 0
  then show ?case by simp
next
  case (Suc fuel)
  show ?case
  proof (cases "occ i = None \<or> occ i = Some k")
    case True
    show ?thesis
    proof
      assume "scan_from (Suc fuel) occ n k i = Some j"
      with True have "j = i" by auto
      with True Suc.prems show "\<exists>d < Suc fuel. j = (i + d) mod n \<and> (occ j = None \<or> occ j = Some k)
          \<and> (\<forall>e < d. occ ((i + e) mod n) \<noteq> None \<and> occ ((i + e) mod n) \<noteq> Some k)"
        by (intro exI [of _ 0]) auto
    next
      assume "\<exists>d < Suc fuel. j = (i + d) mod n \<and> (occ j = None \<or> occ j = Some k)
          \<and> (\<forall>e < d. occ ((i + e) mod n) \<noteq> None \<and> occ ((i + e) mod n) \<noteq> Some k)"
      then obtain d where d: "j = (i + d) mod n"
        "\<forall>e < d. occ ((i + e) mod n) \<noteq> None \<and> occ ((i + e) mod n) \<noteq> Some k" by blast
      have "d = 0"
      proof (rule ccontr)
        assume "d \<noteq> 0"
        with d(2) have "occ ((i + 0) mod n) \<noteq> None \<and> occ ((i + 0) mod n) \<noteq> Some k" by blast
        with True Suc.prems show False by auto
      qed
      with d True Suc.prems show "scan_from (Suc fuel) occ n k i = Some j" by auto
    qed
  next
    case False
    have step: "((i + 1) mod n + d) mod n = (i + Suc d) mod n" for d
      by (simp add: mod_add_left_eq)
    from Suc.prems have "(i + 1) mod n < n" by simp
    from Suc.IH [OF this] False have "scan_from (Suc fuel) occ n k i = Some j \<longleftrightarrow>
      (\<exists>d < fuel. j = (i + Suc d) mod n \<and> (occ j = None \<or> occ j = Some k)
       \<and> (\<forall>e < d. occ ((i + Suc e) mod n) \<noteq> None \<and> occ ((i + Suc e) mod n) \<noteq> Some k))"
      unfolding step by auto
    also have "\<dots> \<longleftrightarrow> (\<exists>d < Suc fuel. j = (i + d) mod n \<and> (occ j = None \<or> occ j = Some k)
       \<and> (\<forall>e < d. occ ((i + e) mod n) \<noteq> None \<and> occ ((i + e) mod n) \<noteq> Some k))"
      (is "?L \<longleftrightarrow> ?R")
    proof
      assume ?L
      then obtain d where "d < fuel" "j = (i + Suc d) mod n" "occ j = None \<or> occ j = Some k"
        "\<forall>e < d. occ ((i + Suc e) mod n) \<noteq> None \<and> occ ((i + Suc e) mod n) \<noteq> Some k" by blast
      with False Suc.prems show ?R
        by (intro exI [of _ "Suc d"]) (auto simp: less_Suc_eq_0_disj simp del: add_Suc_right)
    next
      assume ?R
      then obtain d where d: "d < Suc fuel" "j = (i + d) mod n" "occ j = None \<or> occ j = Some k"
        "\<forall>e < d. occ ((i + e) mod n) \<noteq> None \<and> occ ((i + e) mod n) \<noteq> Some k" by blast
      with False Suc.prems obtain d' where "d = Suc d'" by (cases d) auto
      with d show ?L by (intro exI [of _ d']) auto
    qed
    finally show ?thesis .
  qed
qed

text \<open>A fitting slot anywhere makes \<open>n\<close> looks enough: the walk visits every slot once.\<close>

lemma cyclic_reach: "i < n \<Longrightarrow> j < n \<Longrightarrow> \<exists>d < n. j = (i + d) mod (n :: nat)"
  by (intro exI [of _ "(j + n - i) mod n"]) (auto simp: mod_add_right_eq)

lemma cyclic_inj_le:
  assumes "(h + d) mod n = (h + e) mod (n :: nat)" "d \<le> e" "e < n"
  shows "d = e"
proof -
  from assms have "n dvd (h + e) - (h + d)"
    by (intro mod_eq_dvd_iff_nat [THEN iffD1]) auto
  with assms(2,3) show ?thesis by (auto dest: dvd_imp_le)
qed

lemma cyclic_inj:
  "(h + d) mod n = (h + e) mod (n :: nat) \<Longrightarrow> d < n \<Longrightarrow> e < n \<Longrightarrow> d = e"
  by (metis cyclic_inj_le nle_le)

lemma scan_from_returns:
  assumes "i < n" and "j < n" and "occ j = None \<or> occ j = Some k"
  shows "\<exists>j'. scan_from n occ n k i = Some j'"
proof -
  let ?fits = "\<lambda>d. occ ((i + d) mod n) = None \<or> occ ((i + d) mod n) = Some k"
  obtain d where d: "d < n" "?fits d" using cyclic_reach [OF assms(1,2)] assms(3) by auto
  define m where "m = (LEAST d. ?fits d)"
  have m: "?fits m" unfolding m_def by (rule LeastI) (rule d(2))
  have le: "m \<le> d" unfolding m_def by (rule Least_le) (rule d(2))
  have below: "\<not> ?fits e" if "e < m" for e using that not_less_Least unfolding m_def by blast
  from m le d(1) below have "scan_from n occ n k i = Some ((i + m) mod n)"
    unfolding scan_from_Some_iff [OF assms(1)] by (intro exI [of _ m]) auto
  then show ?thesis by blast
qed

subsection \<open>Reachability of stored keys\<close>

text \<open>Every stored key is found by walking from its home slot over used slots only, and no key is
  stored twice.\<close>

definition reachable_keys :: "nat \<Rightarrow> ('k \<Rightarrow> nat) \<Rightarrow> (nat \<Rightarrow> 'k option) \<Rightarrow> bool" where
  "reachable_keys n hm occ \<longleftrightarrow>
     (\<forall>j < n. \<forall>k. occ j = Some k \<longrightarrow>
        (\<exists>d < n. j = (hm k + d) mod n \<and> (\<forall>e < d. occ ((hm k + e) mod n) \<noteq> None)))"

definition distinct_keys :: "nat \<Rightarrow> (nat \<Rightarrow> 'k option) \<Rightarrow> bool" where
  "distinct_keys n occ \<longleftrightarrow>
     (\<forall>i < n. \<forall>j < n. \<forall>k. occ i = Some k \<longrightarrow> occ j = Some k \<longrightarrow> i = j)"

locale probing =
  fixes n :: nat and hm :: "'k \<Rightarrow> nat"
  assumes slots: "0 < n" and home_in: "hm k < n"
begin

text \<open>A stored key is found: the probe stops at its slot.\<close>

lemma scan_hit:
  assumes "reachable_keys n hm occ" "distinct_keys n occ" "j < n" "occ j = Some k"
  shows "scan_from n occ n k (hm k) = Some j"
proof -
  from assms(1,3,4) obtain d where d: "d < n" "j = (hm k + d) mod n"
    "\<forall>e < d. occ ((hm k + e) mod n) \<noteq> None" unfolding reachable_keys_def by blast
  have "occ ((hm k + e) mod n) \<noteq> Some k" if e: "e < d" for e
  proof
    assume "occ ((hm k + e) mod n) = Some k"
    moreover have "(hm k + e) mod n < n" using slots by simp
    ultimately have "(hm k + e) mod n = j"
      using assms(2,3,4) unfolding distinct_keys_def by blast
    then have "(hm k + e) mod n = (hm k + d) mod n" using d(2) by simp
    with e d(1) show False
      by (metis cyclic_inj less_irrefl less_trans)
  qed
  with d assms(4) show ?thesis
    unfolding scan_from_Some_iff [OF home_in] by (intro exI [of _ d]) simp
qed

text \<open>A key that is not stored ends at a free slot, when there is one.\<close>

lemma scan_miss:
  assumes "\<forall>j < n. occ j \<noteq> Some k" "j < n" "occ j = None"
  shows "\<exists>j' < n. scan_from n occ n k (hm k) = Some j' \<and> occ j' = None"
proof -
  have "occ j = None \<or> occ j = Some k" using assms(3) by simp
  from scan_from_returns [where i = "hm k" and n = n and occ = occ and k = k,
      OF home_in assms(2) this]
  obtain j' where j': "scan_from n occ n k (hm k) = Some j'" ..
  then have "j' < n \<and> (occ j' = None \<or> occ j' = Some k)"
    unfolding scan_from_Some_iff [OF home_in] using slots by auto
  with assms(1) j' show ?thesis by blast
qed

text \<open>Filling the free slot the probe ended at keeps every key reachable and none doubled.\<close>

lemma insert_reachable:
  assumes inv: "reachable_keys n hm occ"
    and scan: "scan_from n occ n k (hm k) = Some j" and free: "occ j = None"
  shows "reachable_keys n hm (occ(j := Some k))"
  unfolding reachable_keys_def
proof (intro allI impI)
  fix i k' assume i: "i < n" and occ': "(occ(j := Some k)) i = Some k'"
  show "\<exists>d < n. i = (hm k' + d) mod n
          \<and> (\<forall>e < d. (occ(j := Some k)) ((hm k' + e) mod n) \<noteq> None)"
  proof (cases "i = j")
    case True
    with occ' have k': "k' = k" by simp
    from scan obtain d where "d < n" "j = (hm k + d) mod n"
      "\<forall>e < d. occ ((hm k + e) mod n) \<noteq> None"
      unfolding scan_from_Some_iff [OF home_in] by blast
    with True k' show ?thesis by (intro exI [of _ d]) auto
  next
    case False
    with occ' have "occ i = Some k'" by simp
    with i inv obtain d where "d < n" "i = (hm k' + d) mod n"
      "\<forall>e < d. occ ((hm k' + e) mod n) \<noteq> None" unfolding reachable_keys_def by blast
    then show ?thesis by (intro exI [of _ d]) auto
  qed
qed

lemma insert_distinct:
  assumes "distinct_keys n occ" "\<forall>i < n. occ i \<noteq> Some k"
  shows "distinct_keys n (occ(j := Some k))"
  using assms unfolding distinct_keys_def by auto

end

end
