(* ===== verification/Map_Interface.thy ===== *)
theory Map_Interface
  imports Alcy_Prelude
begin

text \<open>
  The contract a client of an associative table of the sources relies on: lookups and updates that
  return (the outer \<^term>\<open>None\<close> of an operation stands for a loop that never ends) and that behave as the
  finite map \<open>alpha\<close> reads off the table.
\<close>

fun record_all :: "('m \<Rightarrow> 'k \<Rightarrow> 'v \<Rightarrow> 'm option) \<Rightarrow> ('k \<times> 'v) list \<Rightarrow> 'm \<Rightarrow> 'm option" where
  "record_all update [] m = Some m"
| "record_all update ((k, v) # kvs) m =
     (case update m k v of None \<Rightarrow> None | Some m' \<Rightarrow> record_all update kvs m')"

locale key_map =
  fixes empty :: 'm
    and lookup :: "'m \<Rightarrow> 'k \<Rightarrow> 'v option option"
    and update :: "'m \<Rightarrow> 'k \<Rightarrow> 'v \<Rightarrow> 'm option"
    and alpha :: "'m \<Rightarrow> 'k \<rightharpoonup> 'v"
    and invar :: "'m \<Rightarrow> bool"
  assumes invar_empty: "invar empty"
    and alpha_empty: "alpha empty = Map.empty"
    and lookup_ok: "invar m \<Longrightarrow> lookup m k = Some (alpha m k)"
    and update_ok: "invar m \<Longrightarrow>
      \<exists>m'. update m k v = Some m' \<and> invar m' \<and> alpha m' = (alpha m)(k \<mapsto> v)"
begin

lemma record_all_ok:
  "invar m \<Longrightarrow> \<exists>m'. record_all update kvs m = Some m' \<and> invar m'
     \<and> alpha m' = alpha m ++ map_of (rev kvs)"
proof (induction kvs arbitrary: m)
  case Nil
  then show ?case by simp
next
  case (Cons kv kvs)
  obtain k v where kv: "kv = (k, v)" by fastforce
  from update_ok [OF Cons.prems, of k v] obtain m1
    where m1: "update m k v = Some m1" "invar m1" "alpha m1 = (alpha m)(k \<mapsto> v)" by blast
  from Cons.IH [OF m1(2)] obtain m2 where "record_all update kvs m1 = Some m2" "invar m2"
    "alpha m2 = alpha m1 ++ map_of (rev kvs)" by blast
  with m1 kv show ?case by (simp add: map_add_upd_left)
qed

lemma history:
  "\<exists>m. record_all update kvs empty = Some m \<and> invar m
     \<and> (\<forall>k. lookup m k = Some (map_of (rev kvs) k))"
  using record_all_ok [OF invar_empty, of kvs] by (auto simp: alpha_empty lookup_ok)

end

end
