(* ===== verification/Flat_Hash_Map.thy ===== *)
theory Flat_Hash_Map
  imports Linear_Probing Map_Interface
begin

text \<open>
  \<^verbatim>\<open>base::FlatHashMap\<close> of \<^verbatim>\<open>src/src/base/flat_hash_map.h\<close>: an open-addressed table from a packed
  64-bit key to a value, which doubles when it is three quarters full.  The probing loops have no
  exit but a fitting slot, so the model runs them with the number of slots as fuel: the table does
  not change while a loop runs, so a walk that has seen every slot without stopping never stops,
  and \<^term>\<open>None\<close> stands for that.  The theorems show that a well-formed table always returns.
\<close>

subsection \<open>State and operations\<close>

record 'v slot =
  slot_key :: u64
  slot_value :: 'v
  slot_used :: bool

record 'v flat_hash_map =
  fm_slots :: "'v slot list"
  fm_size :: nat

definition MIN_SLOTS :: nat where
  "MIN_SLOTS = 8"

text \<open>\<open>dflt\<close> is the value-initialised \<^verbatim>\<open>Value{}\<close> an unused slot holds.\<close>

definition empty_slot :: "'v \<Rightarrow> 'v slot" where
  "empty_slot dflt = \<lparr>slot_key = 0, slot_value = dflt, slot_used = False\<rparr>"

definition empty_map :: "'v flat_hash_map" where
  "empty_map = \<lparr>fm_slots = [], fm_size = 0\<rparr>"

definition home :: "u64 \<Rightarrow> nat" where
  "home key = unat (drop_bit 32 (key * 0x9E3779B97F4A7C15))"

fun find_from :: "nat \<Rightarrow> 'v slot list \<Rightarrow> u64 \<Rightarrow> nat \<Rightarrow> 'v option option" where
  "find_from 0 slots key i = None"
| "find_from (Suc fuel) slots key i =
     (let slot = slots ! i in
      if \<not> slot_used slot then Some None
      else if slot_key slot = key then Some (Some (slot_value slot))
      else find_from fuel slots key ((i + 1) AND (length slots - 1)))"

definition find :: "'v flat_hash_map \<Rightarrow> u64 \<Rightarrow> 'v option option" where
  "find m key =
     (if fm_slots m = [] then Some None
      else find_from (length (fm_slots m)) (fm_slots m) key
             (home key AND (length (fm_slots m) - 1)))"

fun probe_from :: "nat \<Rightarrow> 'v slot list \<Rightarrow> u64 \<Rightarrow> nat \<Rightarrow> nat option" where
  "probe_from 0 slots key i = None"
| "probe_from (Suc fuel) slots key i =
     (if slot_used (slots ! i) \<and> slot_key (slots ! i) \<noteq> key
      then probe_from fuel slots key ((i + 1) AND (length slots - 1))
      else Some i)"

definition probe :: "'v slot list \<Rightarrow> u64 \<Rightarrow> nat option" where
  "probe slots key = probe_from (length slots) slots key (home key AND (length slots - 1))"

definition fill :: "'v slot list \<Rightarrow> nat \<Rightarrow> u64 \<Rightarrow> 'v \<Rightarrow> 'v slot list" where
  "fill slots i key v = slots[i := \<lparr>slot_key = key, slot_value = v, slot_used = True\<rparr>]"

fun move_all :: "'v slot list \<Rightarrow> 'v slot list \<Rightarrow> 'v slot list option" where
  "move_all [] slots = Some slots"
| "move_all (s # old) slots =
     (if \<not> slot_used s then move_all old slots
      else case probe slots (slot_key s) of
             None \<Rightarrow> None
           | Some i \<Rightarrow> move_all old (fill slots i (slot_key s) (slot_value s)))"

definition grow :: "'v \<Rightarrow> 'v flat_hash_map \<Rightarrow> nat \<Rightarrow> 'v flat_hash_map option" where
  "grow dflt m n =
     (case move_all (fm_slots m) (replicate n (empty_slot dflt)) of
        None \<Rightarrow> None
      | Some slots \<Rightarrow> Some (m\<lparr>fm_slots := slots\<rparr>))"

definition place_new :: "'v flat_hash_map \<Rightarrow> nat \<Rightarrow> u64 \<Rightarrow> 'v \<Rightarrow> 'v flat_hash_map" where
  "place_new m i key v = m\<lparr>fm_slots := fill (fm_slots m) i key v, fm_size := fm_size m + 1\<rparr>"

definition set_in :: "'v \<Rightarrow> 'v flat_hash_map \<Rightarrow> u64 \<Rightarrow> 'v \<Rightarrow> 'v flat_hash_map option" where
  "set_in dflt m key v =
     (case probe (fm_slots m) key of
        None \<Rightarrow> None
      | Some i \<Rightarrow>
          if slot_used (fm_slots m ! i)
          then Some (m\<lparr>fm_slots := (fm_slots m)[i := (fm_slots m ! i)\<lparr>slot_value := v\<rparr>]\<rparr>)
          else if (fm_size m + 1) * 4 > length (fm_slots m) * 3
          then (case grow dflt m (length (fm_slots m) * 2) of
                  None \<Rightarrow> None
                | Some m' \<Rightarrow> (case probe (fm_slots m') key of
                                None \<Rightarrow> None
                              | Some j \<Rightarrow> Some (place_new m' j key v)))
          else Some (place_new m i key v))"

definition set_key :: "'v \<Rightarrow> 'v flat_hash_map \<Rightarrow> u64 \<Rightarrow> 'v \<Rightarrow> 'v flat_hash_map option" where
  "set_key dflt m key v =
     (if fm_slots m = []
      then (case grow dflt m MIN_SLOTS of None \<Rightarrow> None | Some m' \<Rightarrow> set_in dflt m' key v)
      else set_in dflt m key v)"

definition is_empty_map :: "'v flat_hash_map \<Rightarrow> bool" where
  "is_empty_map m \<longleftrightarrow> fm_size m = 0"

subsection \<open>Abstraction and invariant\<close>

definition occ :: "'v slot list \<Rightarrow> nat \<Rightarrow> u64 option" where
  "occ sl i = (if slot_used (sl ! i) then Some (slot_key (sl ! i)) else None)"

definition used_count :: "'v slot list \<Rightarrow> nat" where
  "used_count sl = length (filter slot_used sl)"

definition entries :: "'v slot list \<Rightarrow> u64 \<rightharpoonup> 'v" where
  "entries sl = map_of (map (\<lambda>s. (slot_key s, slot_value s)) (filter slot_used sl))"

definition abs_map :: "'v flat_hash_map \<Rightarrow> u64 \<rightharpoonup> 'v" where
  "abs_map m = entries (fm_slots m)"

definition table_ok :: "nat \<Rightarrow> 'v slot list \<Rightarrow> bool" where
  "table_ok b sl \<longleftrightarrow> length sl = 2 ^ b \<and> reachable_keys (2 ^ b) (\<lambda>k. home k mod 2 ^ b) (occ sl)
     \<and> distinct_keys (2 ^ b) (occ sl)"

definition map_inv :: "'v flat_hash_map \<Rightarrow> bool" where
  "map_inv m \<longleftrightarrow> fm_size m = used_count (fm_slots m)
     \<and> (fm_slots m = [] \<or> (\<exists>b \<ge> 3. table_ok b (fm_slots m) \<and> fm_size m * 4 \<le> 2 ^ b * 3))"

interpretation flat: probing "2 ^ b" "\<lambda>k. home k mod 2 ^ b" for b
  by unfold_locales auto

subsection \<open>The loops are probes\<close>

lemma probe_from_scan [probe_simps]:
  "length sl = 2 ^ b \<Longrightarrow> probe_from fuel sl key i = scan_from fuel (occ sl) (2 ^ b) key i"
  by (induction fuel arbitrary: i) (auto simp: occ_def)

lemma probe_scan [probe_simps]:
  "length sl = 2 ^ b \<Longrightarrow> probe sl key = scan_from (2 ^ b) (occ sl) (2 ^ b) key (home key mod 2 ^ b)"
  by (simp add: probe_def probe_from_scan)

lemma find_from_scan:
  "length sl = 2 ^ b \<Longrightarrow> find_from fuel sl key i =
     map_option (\<lambda>j. if slot_used (sl ! j) then Some (slot_value (sl ! j)) else None)
       (scan_from fuel (occ sl) (2 ^ b) key i)"
  by (induction fuel arbitrary: i) (auto simp: occ_def Let_def)

lemma find_scan:
  "table_ok b (fm_slots m) \<Longrightarrow> find m key =
     map_option (\<lambda>j. if slot_used (fm_slots m ! j) then Some (slot_value (fm_slots m ! j)) else None)
       (probe (fm_slots m) key)"
  by (auto simp: find_def table_ok_def find_from_scan probe_scan)

lemma entries_Some_iff:
  assumes "distinct_keys (length sl) (occ sl)"
  shows "entries sl k = Some v \<longleftrightarrow>
    (\<exists>i < length sl. slot_used (sl ! i) \<and> slot_key (sl ! i) = k \<and> slot_value (sl ! i) = v)"
    (is "_ \<longleftrightarrow> ?R v")
proof -
  have out: "?R w" if "entries sl k = Some w" for w
    using map_of_SomeD [OF that [unfolded entries_def]] by (auto simp: in_set_conv_nth)
  show ?thesis
  proof
    assume "?R v"
    then obtain i where i: "i < length sl" "slot_used (sl ! i)" "slot_key (sl ! i) = k"
      "slot_value (sl ! i) = v" by blast
    then have "entries sl k \<noteq> None"
      by (auto simp: entries_def map_of_eq_None_iff image_iff in_set_conv_nth)
    then obtain w where w: "entries sl k = Some w" by blast
    from out [OF w] obtain j where "j < length sl" "slot_used (sl ! j)" "slot_key (sl ! j) = k"
      "slot_value (sl ! j) = w" by blast
    moreover from this i assms have "j = i" by (auto simp: distinct_keys_def occ_def)
    ultimately show "entries sl k = Some v" using i w by simp
  qed (rule out)
qed

lemma entries_None_iff:
  "entries sl k = None \<longleftrightarrow> (\<forall>i < length sl. occ sl i \<noteq> Some k)"
  by (force simp: entries_def map_of_eq_None_iff occ_def in_set_conv_nth)

lemma free_slot: "used_count sl < length sl \<Longrightarrow> \<exists>j < length sl. occ sl j = None"
  unfolding used_count_def by (drule filter_length_less_ex) (auto simp: occ_def)

text \<open>A probe of a table with a free slot returns: at the key's slot when the key is stored, at a
  free slot otherwise.\<close>

lemma probe_returns:
  assumes ok: "table_ok b sl" and free: "used_count sl < length sl"
  shows "\<exists>i < length sl. probe sl key = Some i \<and>
    (case entries sl key of None \<Rightarrow> \<not> slot_used (sl ! i)
     | Some v \<Rightarrow> slot_used (sl ! i) \<and> slot_key (sl ! i) = key \<and> slot_value (sl ! i) = v)"
proof (cases "entries sl key")
  case None
  have n: "length sl = 2 ^ b" using ok by (simp add: table_ok_def)
  obtain j where "j < length sl" "occ sl j = None" using free_slot [OF free] by blast
  with None flat.scan_miss [where b = b and occ = "occ sl" and k = key and j = j] n
  obtain i where "i < length sl" "probe sl key = Some i" "occ sl i = None"
    by (auto simp: entries_None_iff probe_scan)
  with None show ?thesis by (auto simp: occ_def split: if_splits)
next
  case (Some v)
  have n: "length sl = 2 ^ b" and d: "distinct_keys (length sl) (occ sl)"
    and r: "reachable_keys (2 ^ b) (\<lambda>k. home k mod 2 ^ b) (occ sl)"
    using ok by (simp_all add: table_ok_def)
  from Some entries_Some_iff [OF d] obtain i where i: "i < length sl" "slot_used (sl ! i)"
    "slot_key (sl ! i) = key" "slot_value (sl ! i) = v" by blast
  then have "occ sl i = Some key" by (simp add: occ_def)
  with r d i(1) n have "probe sl key = Some i"
    by (simp add: probe_scan flat.scan_hit)
  with i Some show ?thesis by auto
qed

subsection \<open>Filling a free slot\<close>

lemma occ_fill: "i < length sl \<Longrightarrow> occ (fill sl i k v) = (occ sl)(i := Some k)"
  by (auto simp: occ_def fill_def fun_eq_iff)

lemma length_fill [simp]: "length (fill sl i k v) = length sl"
  by (simp add: fill_def)

lemma used_count_fill:
  "i < length sl \<Longrightarrow> \<not> slot_used (sl ! i) \<Longrightarrow> used_count (fill sl i k v) = used_count sl + 1"
  using length_filter_update [of i sl slot_used] by (auto simp: used_count_def fill_def)

lemma fill_new:
  assumes ok: "table_ok b sl" and pr: "probe sl k = Some i" and i: "i < length sl"
    and free: "\<not> slot_used (sl ! i)" and new: "entries sl k = None"
  shows "table_ok b (fill sl i k v)" and "entries (fill sl i k v) = (entries sl)(k \<mapsto> v)"
proof -
  have n: "length sl = 2 ^ b" using ok by (simp add: table_ok_def)
  have free': "occ sl i = None" using free by (simp add: occ_def)
  have new': "\<forall>j < 2 ^ b. occ sl j \<noteq> Some k" using new n by (simp add: entries_None_iff)
  show ok': "table_ok b (fill sl i k v)"
    using ok pr free' new' n i
    by (simp add: table_ok_def occ_fill probe_scan flat.insert_reachable flat.insert_distinct)
  have dist: "distinct_keys (length sl) (occ sl)"
    "distinct_keys (length (fill sl i k v)) (occ (fill sl i k v))"
    using ok ok' by (simp_all add: table_ok_def)
  show "entries (fill sl i k v) = (entries sl)(k \<mapsto> v)"
  proof
    fix k'
    have "entries (fill sl i k v) k' = Some w \<longleftrightarrow> ((entries sl)(k \<mapsto> v)) k' = Some w" for w
    proof (cases "k' = k")
      case True
      with new' n i show ?thesis unfolding entries_Some_iff [OF dist(2)]
        by (auto simp: fill_def nth_list_update occ_def split: if_splits)
    next
      case False
      with i free have "slot_used (fill sl i k v ! j) \<and> slot_key (fill sl i k v ! j) = k'
          \<and> slot_value (fill sl i k v ! j) = w \<longleftrightarrow>
        slot_used (sl ! j) \<and> slot_key (sl ! j) = k' \<and> slot_value (sl ! j) = w" for j
        by (auto simp: fill_def nth_list_update)
      with False show ?thesis
        by (simp add: entries_Some_iff [OF dist(1)] entries_Some_iff [OF dist(2)])
    qed
    then show "entries (fill sl i k v) k' = ((entries sl)(k \<mapsto> v)) k'"
      by (metis option.exhaust)
  qed
qed

subsection \<open>Growing\<close>

lemma distinct_keys_tail:
  assumes "distinct_keys (length (x # xs)) (occ (x # xs))"
  shows "distinct_keys (length xs) (occ xs)"
  unfolding distinct_keys_def
proof (intro allI impI)
  fix i j k assume "i < length xs" "j < length xs" "occ xs i = Some k" "occ xs j = Some k"
  with assms [unfolded distinct_keys_def, rule_format, of "Suc i" "Suc j" k] show "i = j"
    by (auto simp: occ_def split: if_splits)
qed

lemma distinct_keys_list:
  "distinct_keys (length sl) (occ sl) \<Longrightarrow> distinct (map slot_key (filter slot_used sl))"
proof (induction sl)
  case Nil
  then show ?case by simp
next
  case (Cons s sl)
  have "slot_key s \<noteq> slot_key (sl ! j)" if "slot_used s" "j < length sl" "slot_used (sl ! j)" for j
    using Cons.prems [unfolded distinct_keys_def, rule_format, of 0 "Suc j" "slot_key s"] that
    by (auto simp: occ_def)
  with Cons.IH [OF distinct_keys_tail [OF Cons.prems]] show ?case
    by (auto simp: in_set_conv_nth)
qed

lemma move_all_ok:
  assumes "table_ok b sl" "used_count sl + used_count old < 2 ^ b"
    "distinct (map slot_key (filter slot_used old))"
    "\<forall>s \<in> set old. slot_used s \<longrightarrow> entries sl (slot_key s) = None"
  shows "\<exists>sl'. move_all old sl = Some sl' \<and> table_ok b sl'
           \<and> used_count sl' = used_count sl + used_count old
           \<and> entries sl' = entries sl ++ entries old"
  using assms
proof (induction old arbitrary: sl)
  case Nil
  then show ?case by (simp add: used_count_def entries_def)
next
  case (Cons s old)
  show ?case
  proof (cases "slot_used s")
    case False
    with Cons show ?thesis by (simp add: used_count_def entries_def)
  next
    case True
    let ?k = "slot_key s" and ?v = "slot_value s"
    have n: "length sl = 2 ^ b" using Cons.prems(1) by (simp add: table_ok_def)
    have new: "entries sl ?k = None" using Cons.prems(4) True by simp
    have "used_count sl < length sl" using Cons.prems(2) n by simp
    from probe_returns [OF Cons.prems(1) this, of ?k] new
    obtain i where i: "i < length sl" "probe sl ?k = Some i" "\<not> slot_used (sl ! i)" by auto
    let ?sl = "fill sl i ?k ?v"
    note filled = fill_new [OF Cons.prems(1) i(2,1,3) new]
    have cnt: "used_count ?sl = used_count sl + 1" using i by (simp add: used_count_fill)
    have fresh: "\<forall>x \<in> set old. slot_used x \<longrightarrow> slot_key x \<noteq> ?k"
      using Cons.prems(3) True by (force simp: image_iff)
    have "\<exists>sl'. move_all old ?sl = Some sl' \<and> table_ok b sl'
           \<and> used_count sl' = used_count ?sl + used_count old
           \<and> entries sl' = entries ?sl ++ entries old"
    proof (rule Cons.IH)
      show "table_ok b ?sl" by (rule filled)
      show "used_count ?sl + used_count old < 2 ^ b"
        using Cons.prems(2) cnt True by (simp add: used_count_def)
      show "distinct (map slot_key (filter slot_used old))" using Cons.prems(3) True by simp
      show "\<forall>s \<in> set old. slot_used s \<longrightarrow> entries ?sl (slot_key s) = None"
        using Cons.prems(4) fresh filled(2) by auto
    qed
    then obtain sl' where sl': "move_all old ?sl = Some sl'" "table_ok b sl'"
      "used_count sl' = used_count ?sl + used_count old" "entries sl' = entries ?sl ++ entries old"
      by blast
    have "entries old ?k = None" using fresh by (auto simp: entries_def map_of_eq_None_iff)
    then have upd: "(entries sl)(?k \<mapsto> ?v) ++ entries old = entries sl ++ (entries old)(?k \<mapsto> ?v)"
      by (auto simp: map_add_def fun_eq_iff split: option.splits)
    have "entries (s # old) = (entries old)(?k \<mapsto> ?v)" using True by (simp add: entries_def)
    then have "entries sl' = entries sl ++ entries (s # old)"
      by (simp only: sl'(4) filled(2) upd)
    moreover have "used_count (s # old) = used_count old + 1"
      using True by (simp add: used_count_def)
    ultimately show ?thesis using True i(2) cnt sl'(1-3) by simp
  qed
qed

lemma empty_table:
  "table_ok b (replicate (2 ^ b) (empty_slot d))" "used_count (replicate n (empty_slot d)) = 0"
  "entries (replicate n (empty_slot d)) = Map.empty"
  by (simp_all add: table_ok_def reachable_keys_def distinct_keys_def occ_def empty_slot_def
      used_count_def entries_def)

lemma grow_ok:
  assumes "used_count (fm_slots m) < 2 ^ b" "distinct_keys (length (fm_slots m)) (occ (fm_slots m))"
  shows "\<exists>m'. grow d m (2 ^ b) = Some m' \<and> table_ok b (fm_slots m') \<and> fm_size m' = fm_size m
           \<and> used_count (fm_slots m') = used_count (fm_slots m) \<and> abs_map m' = abs_map m"
proof -
  from move_all_ok [of b "replicate (2 ^ b) (empty_slot d)" "fm_slots m"] assms
  obtain sl where "move_all (fm_slots m) (replicate (2 ^ b) (empty_slot d)) = Some sl"
    "table_ok b sl" "used_count sl = used_count (fm_slots m)" "entries sl = entries (fm_slots m)"
    by (auto simp: empty_table distinct_keys_list)
  then show ?thesis by (simp add: grow_def abs_map_def)
qed

subsection \<open>Lookups and updates\<close>

lemma map_inv_room:
  assumes "map_inv m" "fm_slots m \<noteq> []"
  shows "\<exists>b \<ge> 3. table_ok b (fm_slots m) \<and> used_count (fm_slots m) < length (fm_slots m)
           \<and> fm_size m * 4 \<le> 2 ^ b * 3"
proof -
  from assms obtain b where b: "b \<ge> 3" "table_ok b (fm_slots m)" "fm_size m * 4 \<le> 2 ^ b * 3"
    "fm_size m = used_count (fm_slots m)" unfolding map_inv_def by blast
  have "fm_size m < 2 ^ b" using b(3) by (cases "fm_size m = 0") auto
  with b show ?thesis by (auto simp: table_ok_def)
qed

lemma find_ok: "map_inv m \<Longrightarrow> find m key = Some (abs_map m key)"
proof (cases "fm_slots m = []")
  case True
  then show ?thesis by (simp add: find_def abs_map_def entries_def)
next
  case False
  assume "map_inv m"
  from map_inv_room [OF this False] obtain b
    where "table_ok b (fm_slots m)" "used_count (fm_slots m) < length (fm_slots m)" by blast
  from probe_returns [OF this, of key] find_scan [OF this(1), of key] show ?thesis
    by (auto simp: abs_map_def split: option.splits)
qed

text \<open>Overwriting the value of a stored key keeps the occupancy.\<close>

lemma overwrite_ok:
  assumes ok: "table_ok b sl" and i: "i < length sl" "slot_used (sl ! i)"
  shows "table_ok b (sl[i := (sl ! i)\<lparr>slot_value := v\<rparr>])"
    and "used_count (sl[i := (sl ! i)\<lparr>slot_value := v\<rparr>]) = used_count sl"
    and "entries (sl[i := (sl ! i)\<lparr>slot_value := v\<rparr>]) = (entries sl)(slot_key (sl ! i) \<mapsto> v)"
proof -
  let ?sl = "sl[i := (sl ! i)\<lparr>slot_value := v\<rparr>]"
  have occ: "occ ?sl = occ sl" using i by (auto simp: occ_def fun_eq_iff nth_list_update)
  show ok': "table_ok b ?sl" using ok by (simp add: table_ok_def occ)
  show "used_count ?sl = used_count sl"
    using length_filter_update [of i sl slot_used "(sl ! i)\<lparr>slot_value := v\<rparr>"] i
    by (simp add: used_count_def)
  have dist: "distinct_keys (length sl) (occ sl)" "distinct_keys (length ?sl) (occ ?sl)"
    using ok ok' by (simp_all add: table_ok_def)
  show "entries ?sl = (entries sl)(slot_key (sl ! i) \<mapsto> v)"
  proof
    fix k
    have "entries ?sl k = Some w \<longleftrightarrow> ((entries sl)(slot_key (sl ! i) \<mapsto> v)) k = Some w" for w
    proof (cases "k = slot_key (sl ! i)")
      case True
      with i dist(1) show ?thesis unfolding entries_Some_iff [OF dist(2)]
        by (auto simp: nth_list_update occ_def distinct_keys_def split: if_splits)
    next
      case False
      then have "slot_used (?sl ! j) \<and> slot_key (?sl ! j) = k \<and> slot_value (?sl ! j) = w \<longleftrightarrow>
        slot_used (sl ! j) \<and> slot_key (sl ! j) = k \<and> slot_value (sl ! j) = w" for j
        using i by (auto simp: nth_list_update)
      with False show ?thesis
        by (simp add: entries_Some_iff [OF dist(1)] entries_Some_iff [OF dist(2)])
    qed
    then show "entries ?sl k = ((entries sl)(slot_key (sl ! i) \<mapsto> v)) k"
      by (metis option.exhaust)
  qed
qed

lemma place_new_ok:
  assumes "table_ok b (fm_slots m)" "b \<ge> 3" "fm_size m = used_count (fm_slots m)"
    "(fm_size m + 1) * 4 \<le> 2 ^ b * 3" "entries (fm_slots m) k = None"
  shows "\<exists>i. probe (fm_slots m) k = Some i \<and> map_inv (place_new m i k v)
           \<and> abs_map (place_new m i k v) = (abs_map m)(k \<mapsto> v)"
proof -
  have n: "length (fm_slots m) = 2 ^ b" using assms(1) by (simp add: table_ok_def)
  have "used_count (fm_slots m) < length (fm_slots m)" using assms(3,4) n by simp
  from probe_returns [OF assms(1) this, of k] assms(5) obtain i where i: "i < length (fm_slots m)"
    "probe (fm_slots m) k = Some i" "\<not> slot_used (fm_slots m ! i)" by auto
  note filled = fill_new [OF assms(1) i(2,1,3) assms(5), of v]
  have "map_inv (place_new m i k v)" unfolding map_inv_def
    using filled(1) i assms(2,3,4) by (auto simp: place_new_def used_count_fill)
  with i filled(2) show ?thesis by (auto simp: place_new_def abs_map_def)
qed

lemma grow_then_place:
  assumes ok: "table_ok b (fm_slots m)" "b \<ge> 3" "fm_size m = used_count (fm_slots m)"
    and room: "fm_size m * 4 \<le> 2 ^ b * 3" and new: "entries (fm_slots m) k = None"
  shows "\<exists>m' j. grow d m (2 * 2 ^ b) = Some m' \<and> probe (fm_slots m') k = Some j
           \<and> map_inv (place_new m' j k v) \<and> abs_map (place_new m' j k v) = (abs_map m)(k \<mapsto> v)"
proof -
  have pow: "4 \<le> (2 :: nat) ^ b" using power_increasing [of 2 b "2 :: nat"] ok(2) by simp
  have "used_count (fm_slots m) < 2 ^ Suc b" using room ok(3) pow by simp
  moreover have "distinct_keys (length (fm_slots m)) (occ (fm_slots m))"
    using ok(1) by (simp add: table_ok_def)
  ultimately obtain m' where m': "grow d m (2 ^ Suc b) = Some m'"
    "table_ok (Suc b) (fm_slots m')" "fm_size m' = fm_size m"
    "used_count (fm_slots m') = used_count (fm_slots m)" "abs_map m' = abs_map m"
    using grow_ok [of m "Suc b" d] by blast
  have "(fm_size m' + 1) * 4 \<le> 2 ^ Suc b * 3" using room m'(3) pow by simp
  moreover have "entries (fm_slots m') k = None" using new m'(5) by (simp add: abs_map_def)
  moreover have "3 \<le> Suc b" "fm_size m' = used_count (fm_slots m')" using ok m'(3,4) by simp_all
  ultimately obtain j where "probe (fm_slots m') k = Some j" "map_inv (place_new m' j k v)"
    "abs_map (place_new m' j k v) = (abs_map m')(k \<mapsto> v)"
    using place_new_ok [OF m'(2)] by blast
  with m'(1,5) show ?thesis by auto
qed

lemma set_in_ok:
  assumes inv: "map_inv m" "fm_slots m \<noteq> []"
  shows "\<exists>m'. set_in d m k v = Some m' \<and> map_inv m' \<and> abs_map m' = (abs_map m)(k \<mapsto> v)"
proof -
  from map_inv_room [OF inv] obtain b where b: "b \<ge> 3" "table_ok b (fm_slots m)"
    "used_count (fm_slots m) < length (fm_slots m)" "fm_size m * 4 \<le> 2 ^ b * 3" by blast
  have sz: "fm_size m = used_count (fm_slots m)" using inv by (simp add: map_inv_def)
  have n: "length (fm_slots m) = 2 ^ b" using b(2) by (simp add: table_ok_def)
  from probe_returns [OF b(2,3), of k] obtain i where i: "i < length (fm_slots m)"
    "probe (fm_slots m) k = Some i" "case entries (fm_slots m) k of
       None \<Rightarrow> \<not> slot_used (fm_slots m ! i)
     | Some v \<Rightarrow> slot_used (fm_slots m ! i) \<and> slot_key (fm_slots m ! i) = k
         \<and> slot_value (fm_slots m ! i) = v" by blast
  show ?thesis
  proof (cases "entries (fm_slots m) k")
    case (Some w)
    with i have "slot_used (fm_slots m ! i)" "slot_key (fm_slots m ! i) = k" by auto
    with overwrite_ok [OF b(2) i(1), of v] i(2) b sz show ?thesis
      by (auto simp: set_in_def map_inv_def abs_map_def)
  next
    case None
    with i have free: "\<not> slot_used (fm_slots m ! i)" by simp
    show ?thesis
    proof (cases "(fm_size m + 1) * 4 > 2 ^ b * 3")
      case False
      with place_new_ok [OF b(2,1) sz _ None, of v] i(2) free n show ?thesis
        by (auto simp: set_in_def)
    next
      case True
      with grow_then_place [OF b(2,1) sz b(4) None, of d v] free i(2) n show ?thesis
        by (auto simp: set_in_def mult.commute)
    qed
  qed
qed

lemma set_key_ok:
  assumes inv: "map_inv m"
  shows "\<exists>m'. set_key d m k v = Some m' \<and> map_inv m' \<and> abs_map m' = (abs_map m)(k \<mapsto> v)"
proof (cases "fm_slots m = []")
  case False
  then show ?thesis using set_in_ok [OF inv] by (simp add: set_key_def)
next
  case True
  have "\<exists>m'. grow d m (2 ^ 3) = Some m' \<and> table_ok 3 (fm_slots m') \<and> fm_size m' = fm_size m
           \<and> used_count (fm_slots m') = used_count (fm_slots m) \<and> abs_map m' = abs_map m"
    by (rule grow_ok) (simp_all add: True used_count_def distinct_keys_def)
  then obtain m' where m': "grow d m 8 = Some m'" "table_ok 3 (fm_slots m')"
    "fm_size m' = fm_size m" "used_count (fm_slots m') = used_count (fm_slots m)"
    "abs_map m' = abs_map m" by auto
  have "fm_size m = 0" using inv True by (simp add: map_inv_def used_count_def)
  with m' inv have "map_inv m'" "fm_slots m' \<noteq> []" by (auto simp: map_inv_def table_ok_def)
  from set_in_ok [OF this] m' True show ?thesis by (simp add: set_key_def MIN_SLOTS_def)
qed

lemma empty_map_ok: "map_inv empty_map" "abs_map empty_map = Map.empty"
  by (simp_all add: map_inv_def empty_map_def used_count_def abs_map_def entries_def)

interpretation flat_map: key_map empty_map find "set_key d" abs_map map_inv for d
  by unfold_locales (simp_all add: empty_map_ok set_key_ok find_ok)

subsection \<open>Properties\<close>

text \<open>
  C10.  Whatever is recorded in a fresh \<^verbatim>\<open>FlatHashMap\<close>, in whatever order and with whatever
  collisions and rehashes, every \<^verbatim>\<open>set\<close> returns, and a later \<^verbatim>\<open>find\<close> of any key returns the
  value last set for that key, or no value for a key never set.
\<close>

theorem flat_hash_map_history:
  "\<exists>m. record_all (set_key d) kvs empty_map = Some m \<and> map_inv m
     \<and> (\<forall>k. find m k = Some (map_of (rev kvs) k))"
  by (rule flat_map.history)

end
