(* ===== verification/Lexer_Token.thy ===== *)
theory Lexer_Token
  imports Alcy_Prelude
begin

text \<open>
  The vocabulary of the lexer: token kinds and tokens (\<^verbatim>\<open>src/src/lexer/token.h\<close>), the spans they carry
  (\<^verbatim>\<open>src/src/diag/span.h\<close>), the lexer's diagnostics (\<^verbatim>\<open>src/src/lexer/diag_code.h\<close>), and the byte
  classes of \<^verbatim>\<open>src/src/lexer/lexer.cc\<close>.
\<close>

subsection \<open>Tokens\<close>

text \<open>
  \<^verbatim>\<open>TokenKind\<close> has 113 enumerators, in the groups its comments name; the model has one datatype per
  group and their sum, and an abbreviation \<open>Tk<name>\<close> for every enumerator.
\<close>

datatype decl_kind =
    KFn | KIntrinsic | KStruct | KEnum | KImpl | KStatic | KPub | KConst | KMut | KUse

datatype flow_kind =
    KIf | KElse | KLoop | KWhile | KBreak | KContinue | KRet | KMatch

datatype path_kind =
    KPackage | KSelf | KSelfType | KAs

datatype prim_kind =
    KI8 | KI16 | KI32 | KI64 | KI128 | KIsize | KU8 | KU16 | KU32 | KU64 | KU128 | KUsize
  | KF32 | KF64 | KBool | KStr

datatype reserved_kind =
    KAsync | KAwait | KUnion | KRegister | KComp | KSpec | KExtern | KUnsafe | KFor | KIn
  | KWhere | KDyn

datatype literal_kind =
    KInteger | KFloat | KString | KChar | KTrue | KFalse

datatype arith_kind =
    KPlus | KMinus | KStar | KSlash | KPercent | KStarStar | KAmp | KPipe | KCaret | KTilde
  | KLessLess | KGreaterGreater

datatype assign_kind =
    KPlusEq | KMinusEq | KStarEq | KSlashEq | KPercentEq | KStarStarEq | KAmpEq | KPipeEq
  | KCaretEq | KLessLessEq | KGreaterGreaterEq | KColonEq | KEq

datatype rel_kind =
    KEqEq | KBang | KAmpAmp | KPipePipe | KBangEq | KGreater | KLess | KGreaterEq | KLessEq

datatype punct_kind =
    KArrow | KFatArrow | KColon | KColonColon | KComma | KDot | KDotDot | KDotDotEq
  | KDotDotLess

datatype delim_kind =
    KLParen | KRParen | KLBrace | KRBrace | KLBracket | KRBracket | KQuestion | KSemicolon
  | KHash | KUnderscore

datatype special_kind =
    KIdent | KDocComment | KError | KEof

datatype token_kind =
    TDecl decl_kind
  | TFlow flow_kind
  | TPath path_kind
  | TPrim prim_kind
  | TReserved reserved_kind
  | TLiteral literal_kind
  | TArith arith_kind
  | TAssign assign_kind
  | TRel rel_kind
  | TPunct punct_kind
  | TDelim delim_kind
  | TSpecial special_kind

abbreviation "TkFn \<equiv> TDecl KFn"
abbreviation "TkIntrinsic \<equiv> TDecl KIntrinsic"
abbreviation "TkStruct \<equiv> TDecl KStruct"
abbreviation "TkEnum \<equiv> TDecl KEnum"
abbreviation "TkImpl \<equiv> TDecl KImpl"
abbreviation "TkStatic \<equiv> TDecl KStatic"
abbreviation "TkPub \<equiv> TDecl KPub"
abbreviation "TkConst \<equiv> TDecl KConst"
abbreviation "TkMut \<equiv> TDecl KMut"
abbreviation "TkUse \<equiv> TDecl KUse"
abbreviation "TkIf \<equiv> TFlow KIf"
abbreviation "TkElse \<equiv> TFlow KElse"
abbreviation "TkLoop \<equiv> TFlow KLoop"
abbreviation "TkWhile \<equiv> TFlow KWhile"
abbreviation "TkBreak \<equiv> TFlow KBreak"
abbreviation "TkContinue \<equiv> TFlow KContinue"
abbreviation "TkRet \<equiv> TFlow KRet"
abbreviation "TkMatch \<equiv> TFlow KMatch"
abbreviation "TkPackage \<equiv> TPath KPackage"
abbreviation "TkSelf \<equiv> TPath KSelf"
abbreviation "TkSelfType \<equiv> TPath KSelfType"
abbreviation "TkAs \<equiv> TPath KAs"
abbreviation "TkI8 \<equiv> TPrim KI8"
abbreviation "TkI16 \<equiv> TPrim KI16"
abbreviation "TkI32 \<equiv> TPrim KI32"
abbreviation "TkI64 \<equiv> TPrim KI64"
abbreviation "TkI128 \<equiv> TPrim KI128"
abbreviation "TkIsize \<equiv> TPrim KIsize"
abbreviation "TkU8 \<equiv> TPrim KU8"
abbreviation "TkU16 \<equiv> TPrim KU16"
abbreviation "TkU32 \<equiv> TPrim KU32"
abbreviation "TkU64 \<equiv> TPrim KU64"
abbreviation "TkU128 \<equiv> TPrim KU128"
abbreviation "TkUsize \<equiv> TPrim KUsize"
abbreviation "TkF32 \<equiv> TPrim KF32"
abbreviation "TkF64 \<equiv> TPrim KF64"
abbreviation "TkBool \<equiv> TPrim KBool"
abbreviation "TkStr \<equiv> TPrim KStr"
abbreviation "TkAsync \<equiv> TReserved KAsync"
abbreviation "TkAwait \<equiv> TReserved KAwait"
abbreviation "TkUnion \<equiv> TReserved KUnion"
abbreviation "TkRegister \<equiv> TReserved KRegister"
abbreviation "TkComp \<equiv> TReserved KComp"
abbreviation "TkSpec \<equiv> TReserved KSpec"
abbreviation "TkExtern \<equiv> TReserved KExtern"
abbreviation "TkUnsafe \<equiv> TReserved KUnsafe"
abbreviation "TkFor \<equiv> TReserved KFor"
abbreviation "TkIn \<equiv> TReserved KIn"
abbreviation "TkWhere \<equiv> TReserved KWhere"
abbreviation "TkDyn \<equiv> TReserved KDyn"
abbreviation "TkInteger \<equiv> TLiteral KInteger"
abbreviation "TkFloat \<equiv> TLiteral KFloat"
abbreviation "TkString \<equiv> TLiteral KString"
abbreviation "TkChar \<equiv> TLiteral KChar"
abbreviation "TkTrue \<equiv> TLiteral KTrue"
abbreviation "TkFalse \<equiv> TLiteral KFalse"
abbreviation "TkPlus \<equiv> TArith KPlus"
abbreviation "TkMinus \<equiv> TArith KMinus"
abbreviation "TkStar \<equiv> TArith KStar"
abbreviation "TkSlash \<equiv> TArith KSlash"
abbreviation "TkPercent \<equiv> TArith KPercent"
abbreviation "TkStarStar \<equiv> TArith KStarStar"
abbreviation "TkAmp \<equiv> TArith KAmp"
abbreviation "TkPipe \<equiv> TArith KPipe"
abbreviation "TkCaret \<equiv> TArith KCaret"
abbreviation "TkTilde \<equiv> TArith KTilde"
abbreviation "TkLessLess \<equiv> TArith KLessLess"
abbreviation "TkGreaterGreater \<equiv> TArith KGreaterGreater"
abbreviation "TkPlusEq \<equiv> TAssign KPlusEq"
abbreviation "TkMinusEq \<equiv> TAssign KMinusEq"
abbreviation "TkStarEq \<equiv> TAssign KStarEq"
abbreviation "TkSlashEq \<equiv> TAssign KSlashEq"
abbreviation "TkPercentEq \<equiv> TAssign KPercentEq"
abbreviation "TkStarStarEq \<equiv> TAssign KStarStarEq"
abbreviation "TkAmpEq \<equiv> TAssign KAmpEq"
abbreviation "TkPipeEq \<equiv> TAssign KPipeEq"
abbreviation "TkCaretEq \<equiv> TAssign KCaretEq"
abbreviation "TkLessLessEq \<equiv> TAssign KLessLessEq"
abbreviation "TkGreaterGreaterEq \<equiv> TAssign KGreaterGreaterEq"
abbreviation "TkColonEq \<equiv> TAssign KColonEq"
abbreviation "TkEq \<equiv> TAssign KEq"
abbreviation "TkEqEq \<equiv> TRel KEqEq"
abbreviation "TkBang \<equiv> TRel KBang"
abbreviation "TkAmpAmp \<equiv> TRel KAmpAmp"
abbreviation "TkPipePipe \<equiv> TRel KPipePipe"
abbreviation "TkBangEq \<equiv> TRel KBangEq"
abbreviation "TkGreater \<equiv> TRel KGreater"
abbreviation "TkLess \<equiv> TRel KLess"
abbreviation "TkGreaterEq \<equiv> TRel KGreaterEq"
abbreviation "TkLessEq \<equiv> TRel KLessEq"
abbreviation "TkArrow \<equiv> TPunct KArrow"
abbreviation "TkFatArrow \<equiv> TPunct KFatArrow"
abbreviation "TkColon \<equiv> TPunct KColon"
abbreviation "TkColonColon \<equiv> TPunct KColonColon"
abbreviation "TkComma \<equiv> TPunct KComma"
abbreviation "TkDot \<equiv> TPunct KDot"
abbreviation "TkDotDot \<equiv> TPunct KDotDot"
abbreviation "TkDotDotEq \<equiv> TPunct KDotDotEq"
abbreviation "TkDotDotLess \<equiv> TPunct KDotDotLess"
abbreviation "TkLParen \<equiv> TDelim KLParen"
abbreviation "TkRParen \<equiv> TDelim KRParen"
abbreviation "TkLBrace \<equiv> TDelim KLBrace"
abbreviation "TkRBrace \<equiv> TDelim KRBrace"
abbreviation "TkLBracket \<equiv> TDelim KLBracket"
abbreviation "TkRBracket \<equiv> TDelim KRBracket"
abbreviation "TkQuestion \<equiv> TDelim KQuestion"
abbreviation "TkSemicolon \<equiv> TDelim KSemicolon"
abbreviation "TkHash \<equiv> TDelim KHash"
abbreviation "TkUnderscore \<equiv> TDelim KUnderscore"
abbreviation "TkIdent \<equiv> TSpecial KIdent"
abbreviation "TkDocComment \<equiv> TSpecial KDocComment"
abbreviation "TkError \<equiv> TSpecial KError"
abbreviation "TkEof \<equiv> TSpecial KEof"

text \<open>\<^verbatim>\<open>diag::Span\<close>: the \<^verbatim>\<open>u32\<close> fields are kept as naturals, reduced modulo \<open>2 ^ 32\<close> where the code
  narrows to them.\<close>

record span =
  span_file :: nat
  span_offset :: nat
  span_length :: nat

record token =
  tok_kind :: token_kind
  tok_span :: span

datatype diag_code =
    InvalidChar | UnterminatedString | UnterminatedChar | InvalidNumber
  | UnterminatedBlockComment | InvalidEscape

text \<open>The catalog keys the lexer reports with (\<^verbatim>\<open>i18n::Key\<close>).\<close>

datatype lexer_key =
    LexerEmptyCharacter | LexerInvalidCharacter | LexerInvalidEscapeInCharacter
  | LexerInvalidEscapeInString | LexerInvalidNumber | LexerUnicodeEscapeNotScalar
  | LexerUnterminatedBlockComment | LexerUnterminatedCharacter | LexerUnterminatedString

subsection \<open>Byte classes\<close>

definition between :: "char \<Rightarrow> char \<Rightarrow> char \<Rightarrow> bool" where
  "between lo c hi \<longleftrightarrow> (of_char lo :: nat) \<le> of_char c \<and> (of_char c :: nat) \<le> of_char hi"

definition is_alpha :: "char \<Rightarrow> bool" where
  "is_alpha c \<longleftrightarrow> between CHR ''a'' c CHR ''z'' \<or> between CHR ''A'' c CHR ''Z''"

definition is_digit :: "char \<Rightarrow> bool" where
  "is_digit c \<longleftrightarrow> between CHR ''0'' c CHR ''9''"

text \<open>The 256-entry table the identifier loop reads, filled range by range.\<close>

definition ALNUM_OR_UNDERSCORE :: "bool list" where
  "ALNUM_OR_UNDERSCORE =
     (let t0 = replicate 256 False;
          t1 = fold (\<lambda>c t. t[c := True]) [48..<58] t0;
          t2 = fold (\<lambda>c t. t[c := True]) [97..<123] t1;
          t3 = fold (\<lambda>c t. t[c := True]) [65..<91] t2
      in t3[95 := True])"

definition is_alnum_or_underscore :: "char \<Rightarrow> bool" where
  "is_alnum_or_underscore c = ALNUM_OR_UNDERSCORE ! of_char c"

definition is_hex_digit :: "char \<Rightarrow> bool" where
  "is_hex_digit c \<longleftrightarrow> is_digit c \<or> between CHR ''a'' c CHR ''f'' \<or> between CHR ''A'' c CHR ''F''"

definition hex_digit_value :: "char \<Rightarrow> nat" where
  "hex_digit_value c =
     (if is_digit c then of_char c - of_char CHR ''0''
      else if between CHR ''a'' c CHR ''f'' then of_char c - of_char CHR ''a'' + 10
      else of_char c - of_char CHR ''A'' + 10)"

definition is_valid_escape :: "char \<Rightarrow> bool" where
  "is_valid_escape c \<longleftrightarrow>
     c \<in> {CHR ''n'', CHR ''t'', CHR ''r'', CHR 0x5C, CHR 0x22, CHR 0x27, CHR ''0''}"

lemma length_fold_update [simp]: "length (fold (\<lambda>c t. t[c := v]) cs t) = length t"
  by (induction cs arbitrary: t) auto

lemma nth_fold_update:
  "i < length t \<Longrightarrow> fold (\<lambda>c t. t[c := v]) cs t ! i = (if i \<in> set cs then v else t ! i)"
  by (induction cs arbitrary: t) (auto simp: nth_list_update)

text \<open>The table answers what the four range comparisons it replaces would.\<close>

lemma is_alnum_or_underscore_iff [byte_simps]:
  "is_alnum_or_underscore c \<longleftrightarrow> is_alpha c \<or> is_digit c \<or> c = CHR ''_''"
proof -
  have us: "(of_char c :: nat) = 95 \<longleftrightarrow> c = CHR ''_''"
    using of_char_eq_iff [of c "CHR ''_''", where 'a = nat] by simp
  have "ALNUM_OR_UNDERSCORE ! i \<longleftrightarrow> i = 95 \<or> 65 \<le> i \<and> i < 91 \<or> 97 \<le> i \<and> i < 123 \<or> 48 \<le> i \<and> i < 58"
    if "i < 256" for i
    using that unfolding ALNUM_OR_UNDERSCORE_def Let_def
    by (simp add: nth_list_update nth_fold_update del: upt_rec_numeral)
  from this [of "of_char c"] us show ?thesis unfolding is_alnum_or_underscore_def
    by (auto simp: is_alpha_def is_digit_def between_def)
qed

lemma not_alpha_digit [byte_simps]: "is_digit c \<Longrightarrow> \<not> is_alpha c"
  by (auto simp: is_digit_def is_alpha_def between_def)

lemma class_not_NUL [byte_simps]:
  "is_alpha c \<Longrightarrow> c \<noteq> CHR 0x00" "is_digit c \<Longrightarrow> c \<noteq> CHR 0x00"
  "is_hex_digit c \<Longrightarrow> c \<noteq> CHR 0x00" "is_alnum_or_underscore c \<Longrightarrow> c \<noteq> CHR 0x00"
  by (auto simp: is_alnum_or_underscore_iff is_hex_digit_def is_digit_def is_alpha_def between_def)

end
