(* ===== verification/Lexer_Keywords.thy ===== *)
theory Lexer_Keywords
  imports Lexer_Token Linear_Probing
begin

text \<open>
  The keyword table of \<^verbatim>\<open>src/src/lexer/lexer.cc\<close>: the list of spellings, the 64-bit key a spelling's
  first eight bytes pack into, the 128-slot open-addressed table built from the list, and the
  lookup every identifier goes through.
\<close>

subsection \<open>Definitions\<close>

type_synonym keyword = "string \<times> token_kind"

definition KEYWORDS :: "keyword list" where
  "KEYWORDS =
     [(''Self'', TkSelfType), (''as'', TkAs), (''async'', TkAsync), (''await'', TkAwait),
      (''bool'', TkBool), (''break'', TkBreak), (''comp'', TkComp), (''const'', TkConst),
      (''continue'', TkContinue), (''dyn'', TkDyn), (''else'', TkElse), (''enum'', TkEnum),
      (''extern'', TkExtern), (''f32'', TkF32), (''f64'', TkF64), (''false'', TkFalse),
      (''fn'', TkFn), (''for'', TkFor), (''i128'', TkI128), (''i16'', TkI16),
      (''i32'', TkI32), (''i64'', TkI64), (''i8'', TkI8), (''if'', TkIf),
      (''impl'', TkImpl), (''in'', TkIn), (''intrinsic'', TkIntrinsic), (''isize'', TkIsize),
      (''loop'', TkLoop), (''match'', TkMatch), (''mut'', TkMut), (''package'', TkPackage),
      (''pub'', TkPub), (''register'', TkRegister), (''ret'', TkRet), (''self'', TkSelf),
      (''spec'', TkSpec), (''static'', TkStatic), (''str'', TkStr), (''struct'', TkStruct),
      (''true'', TkTrue), (''u128'', TkU128), (''u16'', TkU16), (''u32'', TkU32),
      (''u64'', TkU64), (''u8'', TkU8), (''union'', TkUnion), (''unsafe'', TkUnsafe),
      (''use'', TkUse), (''usize'', TkUsize), (''where'', TkWhere), (''while'', TkWhile)]"

definition KEYWORD_MIN_LENGTH :: nat where
  "KEYWORD_MIN_LENGTH =
     fold (\<lambda>kw shortest. min shortest (length (fst kw))) KEYWORDS (length (fst (hd KEYWORDS)))"

definition KEYWORD_MAX_LENGTH :: nat where
  "KEYWORD_MAX_LENGTH =
     fold (\<lambda>kw longest. max longest (length (fst kw))) KEYWORDS (length (fst (hd KEYWORDS)))"

definition SPELLING_KEY_BYTES :: nat where
  "SPELLING_KEY_BYTES = 8"

definition byte_of :: "char \<Rightarrow> u8" where
  "byte_of c = of_char c"

text \<open>The loop \<^verbatim>\<open>for (i = 0; i < packed; ++i) key |= u64(word[i]) << (8 * i)\<close>.\<close>

fun packed_spelling_key :: "bytes \<Rightarrow> nat \<Rightarrow> u64" where
  "packed_spelling_key word 0 = 0"
| "packed_spelling_key word (Suc i) =
     packed_spelling_key word i OR push_bit (8 * i) (ucast (byte_of (word ! i)))"

fun swap_key_loop :: "u64 \<Rightarrow> nat \<Rightarrow> u64" where
  "swap_key_loop key 0 = 0"
| "swap_key_loop key (Suc i) = swap_key_loop key i OR
     push_bit (8 * (SPELLING_KEY_BYTES - 1 - i)) (drop_bit (8 * i) key AND 0xFF)"

definition swap_key_bytes :: "u64 \<Rightarrow> u64" where
  "swap_key_bytes key = swap_key_loop key SPELLING_KEY_BYTES"

text \<open>The eight-byte load of \<^verbatim>\<open>std::memcpy\<close> into a \<^verbatim>\<open>u64\<close>: the first byte is the low one on a
  little-endian host and the high one on a big-endian host.\<close>

definition load_key :: "bool \<Rightarrow> bytes \<Rightarrow> u64" where
  "load_key big_endian word =
     (if big_endian then packed_spelling_key (rev (take 8 word)) 8
      else packed_spelling_key word 8)"

definition spelling_key :: "bool \<Rightarrow> bytes \<Rightarrow> nat \<Rightarrow> nat \<Rightarrow> u64" where
  "spelling_key big_endian word len available =
     (let packed = min len SPELLING_KEY_BYTES in
      if available < SPELLING_KEY_BYTES then packed_spelling_key word packed
      else
        let key0 = load_key big_endian word;
            key = (if big_endian then swap_key_bytes key0 else key0)
        in if packed < SPELLING_KEY_BYTES then key AND (push_bit (8 * packed) 1 - 1) else key)"

record keyword_slot =
  ks_key :: u64
  ks_kind :: token_kind
  ks_length :: nat

definition free_keyword_slot :: keyword_slot where
  "free_keyword_slot = \<lparr>ks_key = 0, ks_kind = TkIdent, ks_length = 0\<rparr>"

definition KEYWORD_KEY_BITS :: nat where
  "KEYWORD_KEY_BITS = 7"

definition KEYWORD_SLOTS :: nat where
  "KEYWORD_SLOTS = 2 ^ KEYWORD_KEY_BITS"

definition keyword_home :: "u64 \<Rightarrow> nat" where
  "keyword_home key = unat (drop_bit (64 - KEYWORD_KEY_BITS) (key * 0x9E3779B97F4A7C15))"

definition keyword_key :: "string \<Rightarrow> u64" where
  "keyword_key s = packed_spelling_key s (min (length s) SPELLING_KEY_BYTES)"

definition slot_of_keyword :: "keyword \<Rightarrow> keyword_slot" where
  "slot_of_keyword kw = \<lparr>ks_key = keyword_key (fst kw), ks_kind = snd kw,
     ks_length = length (fst kw) mod 2 ^ 8\<rparr>"

text \<open>The inner loop of \<^verbatim>\<open>keyword_table\<close>: step to the first free slot.  Fuel as for the tables of
  \<^verbatim>\<open>base\<close>: \<^term>\<open>None\<close> is a walk that never ends.\<close>

fun first_free :: "nat \<Rightarrow> keyword_slot list \<Rightarrow> nat \<Rightarrow> nat option" where
  "first_free 0 table i = None"
| "first_free (Suc fuel) table i =
     (if ks_key (table ! i) \<noteq> 0 then first_free fuel table ((i + 1) AND (KEYWORD_SLOTS - 1))
      else Some i)"

fun keyword_table_from :: "keyword list \<Rightarrow> keyword_slot list \<Rightarrow> keyword_slot list option" where
  "keyword_table_from [] table = Some table"
| "keyword_table_from (kw # kws) table =
     (let slot = slot_of_keyword kw in
      case first_free KEYWORD_SLOTS table (keyword_home (ks_key slot)) of
        None \<Rightarrow> None
      | Some i \<Rightarrow> keyword_table_from kws (table[i := slot]))"

definition keyword_table :: "keyword_slot list option" where
  "keyword_table = keyword_table_from KEYWORDS (replicate KEYWORD_SLOTS free_keyword_slot)"

definition KEYWORD_TABLE :: "keyword_slot list" where
  "KEYWORD_TABLE = (case keyword_table of None \<Rightarrow> [] | Some t \<Rightarrow> t)"

fun keyword_keys_distinct :: "keyword list \<Rightarrow> bool" where
  "keyword_keys_distinct [] = True"
| "keyword_keys_distinct (kw # kws) =
     ((\<forall>kw' \<in> set kws. \<not> (length (fst kw) = length (fst kw')
        \<and> keyword_key (fst kw) = packed_spelling_key (fst kw') (min (length (fst kw)) SPELLING_KEY_BYTES)))
      \<and> keyword_keys_distinct kws)"

fun lookup_from :: "nat \<Rightarrow> nat \<Rightarrow> u64 \<Rightarrow> nat \<Rightarrow> token_kind option" where
  "lookup_from 0 len key i = None"
| "lookup_from (Suc fuel) len key i =
     (let slot = KEYWORD_TABLE ! i in
      if ks_key slot = 0 then Some TkIdent
      else if ks_key slot = key \<and> ks_length slot = len then Some (ks_kind slot)
      else lookup_from fuel len key ((i + 1) AND (KEYWORD_SLOTS - 1)))"

definition lookup_keyword :: "nat \<Rightarrow> u64 \<Rightarrow> token_kind option" where
  "lookup_keyword len key =
     (if len < KEYWORD_MIN_LENGTH \<or> len > KEYWORD_MAX_LENGTH then Some TkIdent
      else lookup_from KEYWORD_SLOTS len key (keyword_home key))"

subsection \<open>Packed keys\<close>

lemma unat_byte_of [simp]: "unat (byte_of c) = of_char c"
proof -
  have "byte_of c = word_of_nat (of_char c)" by (simp add: byte_of_def of_nat_of_char)
  then show ?thesis by (simp add: unat_of_nat)
qed

lemma byte_of_inj [simp]: "byte_of c = byte_of d \<longleftrightarrow> c = d"
  by (metis of_char_eq_iff unat_byte_of)

lemma bit_byte_of: "bit (byte_of c) j \<Longrightarrow> j < 8"
  using bit_imp_le_length by fastforce

lemma bit_packed_key:
  "n \<le> 8 \<Longrightarrow> bit (packed_spelling_key w n) j \<longleftrightarrow> j < 8 * n \<and> bit (byte_of (w ! (j div 8))) (j mod 8)"
proof (induction n)
  case 0
  then show ?case by simp
next
  case (Suc n)
  have hi: "j div 8 = n \<and> j mod 8 = j - 8 * n" if "8 * n \<le> j" "j < 8 * n + 8"
  proof -
    from that obtain k where "j = 8 * n + k" "k < 8" using le_Suc_ex by fastforce
    then show ?thesis by simp
  qed
  have "bit (packed_spelling_key w (Suc n)) j \<longleftrightarrow> bit (packed_spelling_key w n) j \<or>
      8 * n \<le> j \<and> j < 64 \<and> bit (byte_of (w ! n)) (j - 8 * n)"
    by (auto simp: bit_or_iff bit_push_bit_iff bit_unsigned_iff)
  also have "\<dots> \<longleftrightarrow> j < 8 * n \<and> bit (byte_of (w ! (j div 8))) (j mod 8) \<or>
      8 * n \<le> j \<and> j < 8 * n + 8 \<and> bit (byte_of (w ! n)) (j - 8 * n)"
    using Suc bit_byte_of [of "w ! n" "j - 8 * n"] by auto
  also have "\<dots> \<longleftrightarrow> j < 8 * Suc n \<and> bit (byte_of (w ! (j div 8))) (j mod 8)"
    using hi by (cases "8 * n \<le> j") auto
  finally show ?case .
qed

lemma packed_key_eqI:
  "n \<le> 8 \<Longrightarrow> (\<And>i. i < n \<Longrightarrow> v ! i = w ! i) \<Longrightarrow> packed_spelling_key v n = packed_spelling_key w n"
  by (induction n) auto

text \<open>Equal keys of the same number of packed bytes come from the same bytes.\<close>

lemma packed_key_inj:
  assumes "n \<le> 8" "packed_spelling_key v n = packed_spelling_key w n" "i < n"
  shows "v ! i = w ! i"
proof -
  have "bit (byte_of (v ! i)) k = bit (byte_of (w ! i)) k" if "k < 8" for k
    using bit_packed_key [OF assms(1), of v "8 * i + k"] bit_packed_key [OF assms(1), of w "8 * i + k"]
      assms(2,3) that by simp
  then have "byte_of (v ! i) = byte_of (w ! i)" by (intro bit_word_eqI) simp
  then show ?thesis by simp
qed

lemma packed_key_nonzero:
  assumes "n \<le> 8" "i < n" "w ! i \<noteq> CHR 0x00"
  shows "packed_spelling_key w n \<noteq> 0"
proof
  assume zero: "packed_spelling_key w n = 0"
  have "\<not> bit (byte_of (w ! i)) k" if "k < 8" for k
    using bit_packed_key [OF assms(1), of w "8 * i + k"] zero assms(2) that by simp
  then have "byte_of (w ! i) = byte_of (CHR 0x00)"
    by (intro bit_word_eqI) (simp add: byte_of_def)
  with assms(3) show False by simp
qed

subsection \<open>The key a word is looked up with\<close>

lemma bit_swap_loop:
  "n \<le> 8 \<Longrightarrow> bit (swap_key_loop key n) j \<longleftrightarrow> 64 - 8 * n \<le> j \<and> j < 64 \<and> bit key (8 * (7 - j div 8) + j mod 8)"
proof (induction n)
  case 0
  then show ?case by simp
next
  case (Suc n)
  let ?s = "8 * (7 - n)"
  have byte: "x AND 0xFF = take_bit 8 x" for x :: u64
    by (simp add: take_bit_eq_mask mask_eq_exp_minus_1)
  have "bit (swap_key_loop key (Suc n)) j \<longleftrightarrow> bit (swap_key_loop key n) j \<or>
      ?s \<le> j \<and> j < 64 \<and> bit key (8 * n + (j - ?s)) \<and> j - ?s < 8"
    by (auto simp: bit_or_iff bit_and_iff bit_push_bit_iff bit_drop_bit_eq byte bit_take_bit_iff
        SPELLING_KEY_BYTES_def)
  also have "\<dots> \<longleftrightarrow> 64 - 8 * Suc n \<le> j \<and> j < 64 \<and> bit key (8 * (7 - j div 8) + j mod 8)"
  proof (cases "?s \<le> j \<and> j < ?s + 8")
    case True
    then obtain k where "j = 8 * (7 - n) + k" "k < 8" using le_Suc_ex by fastforce
    then have "j div 8 = 7 - n" "j mod 8 = j - ?s" by simp_all
    moreover have "8 * (7 - n) = 56 - 8 * n" by simp
    ultimately show ?thesis using True Suc by auto
  next
    case False
    with Suc show ?thesis by auto
  qed
  finally show ?case .
qed

lemma load_then_swap:
  assumes "8 \<le> length w"
  shows "swap_key_bytes (load_key True w) = packed_spelling_key w 8"
proof (rule bit_word_eqI)
  fix j assume "j < LENGTH(64)"
  then have j: "j < 64" by simp
  let ?k = "8 * (7 - j div 8) + j mod 8"
  have k: "?k div 8 = 7 - j div 8" "?k mod 8 = j mod 8" by simp_all
  have "j mod 8 < 8" by simp
  then have "?k < 64" by linarith
  have "rev (take 8 w) ! (7 - j div 8) = w ! (j div 8)"
    using assms j by (simp add: rev_nth)
  then show "bit (swap_key_bytes (load_key True w)) j = bit (packed_spelling_key w 8) j"
    using j k \<open>?k < 64\<close> by (simp add: swap_key_bytes_def SPELLING_KEY_BYTES_def bit_swap_loop load_key_def
        bit_packed_key)
qed

lemma mask_packed_key:
  "n < 8 \<Longrightarrow> packed_spelling_key w 8 AND mask (8 * n) = packed_spelling_key w n"
  by (rule bit_word_eqI) (auto simp: bit_and_iff bit_mask_iff bit_packed_key)

lemma low_bytes_mask: "push_bit (8 * n) (1 :: u64) - 1 = mask (8 * n)"
  by (simp add: mask_eq_exp_minus_1 push_bit_eq_mult)

lemma spelling_key_packed:
  assumes "len \<le> length w"
  shows "spelling_key big w len (length w) = packed_spelling_key w (min len 8)"
proof (cases "length w < 8")
  case True
  with assms show ?thesis by (simp add: spelling_key_def SPELLING_KEY_BYTES_def)
next
  case False
  then have "(if big then swap_key_bytes (load_key big w) else load_key big w)
      = packed_spelling_key w 8"
    using load_then_swap [of w] by (auto simp: load_key_def)
  with False show ?thesis
    unfolding spelling_key_def SPELLING_KEY_BYTES_def Let_def low_bytes_mask
    by (auto simp: mask_packed_key min_def)
qed

lemma spelling_key_word:
  "spelling_key big (w @ rest) (length w) (length (w @ rest)) = keyword_key w"
  unfolding keyword_key_def SPELLING_KEY_BYTES_def
  by (subst spelling_key_packed) (auto intro!: packed_key_eqI simp: nth_append)

subsection \<open>The table holds exactly the keywords\<close>

definition occ_kw :: "keyword_slot list \<Rightarrow> nat \<Rightarrow> (u64 \<times> nat) option" where
  "occ_kw t i = (if ks_key (t ! i) = 0 then None else Some (ks_key (t ! i), ks_length (t ! i)))"

definition kw_home :: "u64 \<times> nat \<Rightarrow> nat" where
  "kw_home k = keyword_home (fst k)"

definition holds :: "keyword_slot list \<Rightarrow> u64 \<times> nat \<Rightarrow> token_kind \<Rightarrow> bool" where
  "holds t k v \<longleftrightarrow> (\<exists>j < 128. occ_kw t j = Some k \<and> ks_kind (t ! j) = v)"

definition kw_entry :: "keyword \<Rightarrow> (u64 \<times> nat) \<times> token_kind" where
  "kw_entry kw = ((keyword_key (fst kw), length (fst kw) mod 2 ^ 8), snd kw)"

lemmas slots_eqs = KEYWORD_SLOTS_def KEYWORD_KEY_BITS_def

lemma keyword_slots [simp]: "KEYWORD_SLOTS = 2 ^ 7"
  by (simp add: slots_eqs)

lemma keyword_home_less: "keyword_home key < 128"
proof -
  have "unat (drop_bit 57 (x :: u64)) < 2 ^ 7" for x
  proof -
    have "unat x < 2 ^ 64" using unsigned_less [of x] by simp
    then have "unat x div 2 ^ 57 < 2 ^ 7" by (simp add: less_mult_imp_div_less)
    then show ?thesis by (metis drop_bit_eq_div unat_drop_bit_eq)
  qed
  then show ?thesis by (simp add: keyword_home_def KEYWORD_KEY_BITS_def)
qed

interpretation kw: probing 128 kw_home
  by unfold_locales (simp_all add: kw_home_def keyword_home_less)

definition kw_table_ok :: "keyword_slot list \<Rightarrow> bool" where
  "kw_table_ok t \<longleftrightarrow> length t = 128 \<and> reachable_keys 128 kw_home (occ_kw t)
     \<and> distinct_keys 128 (occ_kw t)"

definition used_slots :: "keyword_slot list \<Rightarrow> nat" where
  "used_slots t = length (filter (\<lambda>s. ks_key s \<noteq> 0) t)"

lemma mask_step [simp]: "i AND 127 = i mod (128 :: nat)"
  using nat_and_mask [of i 7] by simp

lemma first_free_scan [probe_simps]:
  "\<forall>j < 128. occ_kw t j \<noteq> Some k \<Longrightarrow> i < 128 \<Longrightarrow>
     first_free fuel t i = scan_from fuel (occ_kw t) 128 k i"
proof (induction fuel arbitrary: i)
  case (Suc fuel)
  have "(i + 1) mod 128 < 128" by simp
  from Suc.IH [OF Suc.prems(1) this] Suc.prems show ?case
    by (auto simp: occ_kw_def)
qed simp

lemma insert_keyword:
  assumes ok: "kw_table_ok t" and room: "used_slots t < 128"
    and new: "\<forall>v. \<not> holds t (fst (kw_entry kw)) v" and nz: "keyword_key (fst kw) \<noteq> 0"
  shows "\<exists>i < 128. first_free 128 t (keyword_home (keyword_key (fst kw))) = Some i
    \<and> kw_table_ok (t[i := slot_of_keyword kw]) \<and> used_slots (t[i := slot_of_keyword kw]) = used_slots t + 1
    \<and> (\<forall>k v. holds (t[i := slot_of_keyword kw]) k v \<longleftrightarrow> holds t k v \<or> (k, v) = kw_entry kw)"
proof -
  let ?k = "fst (kw_entry kw)"
  have n: "length t = 128" using ok by (simp add: kw_table_ok_def)
  have home: "kw_home ?k = keyword_home (keyword_key (fst kw))" by (simp add: kw_home_def kw_entry_def)
  have absent: "\<forall>j < 128. occ_kw t j \<noteq> Some ?k" using new by (auto simp: holds_def)
  obtain j where "j < 128" "occ_kw t j = None"
    using filter_length_less_ex [of "\<lambda>s. ks_key s \<noteq> 0" t] room n
    by (auto simp: used_slots_def occ_kw_def)
  from kw.scan_miss [OF absent this] obtain i where i: "i < 128"
    "scan_from 128 (occ_kw t) 128 ?k (kw_home ?k) = Some i" "occ_kw t i = None" by blast
  let ?t = "t[i := slot_of_keyword kw]"
  have occ: "occ_kw ?t = (occ_kw t)(i := Some ?k)"
    using i(1) n nz by (auto simp: occ_kw_def fun_eq_iff nth_list_update slot_of_keyword_def kw_entry_def)
  have "kw_table_ok ?t"
    using ok kw.insert_reachable [OF _ i(2,3)] kw.insert_distinct [OF _ absent]
    by (simp add: kw_table_ok_def occ)
  moreover have "used_slots ?t = used_slots t + 1"
    using length_filter_update [of i t "\<lambda>s. ks_key s \<noteq> 0" "slot_of_keyword kw"] i n nz
    by (simp add: used_slots_def occ_kw_def slot_of_keyword_def split: if_splits)
  moreover have "holds ?t k v \<longleftrightarrow> holds t k v \<or> (k, v) = kw_entry kw" for k v
  proof -
    have kind: "ks_kind (?t ! j) = (if j = i then snd kw else ks_kind (t ! j))" for j
      using i(1) n by (simp add: nth_list_update slot_of_keyword_def)
    have "holds ?t k v \<longleftrightarrow> (\<exists>j < 128. j \<noteq> i \<and> occ_kw t j = Some k \<and> ks_kind (t ! j) = v)
        \<or> ?k = k \<and> snd kw = v"
      unfolding holds_def occ kind using i(1) by auto
    then show ?thesis using i(3) by (auto simp: holds_def kw_entry_def)
  qed
  ultimately show ?thesis
    using i(1,2) first_free_scan [OF absent, of "kw_home ?k" 128] home keyword_home_less by auto
qed

lemma keyword_table_from_ok:
  assumes "kw_table_ok t" "used_slots t + length kws < 128"
    "distinct (map (fst \<circ> kw_entry) kws)"
    "\<forall>kw \<in> set kws. keyword_key (fst kw) \<noteq> 0 \<and> (\<forall>v. \<not> holds t (fst (kw_entry kw)) v)"
  shows "\<exists>t'. keyword_table_from kws t = Some t' \<and> kw_table_ok t' \<and> used_slots t' < 128
    \<and> (\<forall>k v. holds t' k v \<longleftrightarrow> holds t k v \<or> (k, v) \<in> kw_entry ` set kws)"
  using assms
proof (induction kws arbitrary: t)
  case Nil
  then show ?case by simp
next
  case (Cons kw kws)
  from insert_keyword [OF Cons.prems(1), of kw] Cons.prems obtain i where i: "i < 128"
    "first_free 128 t (keyword_home (keyword_key (fst kw))) = Some i"
    "kw_table_ok (t[i := slot_of_keyword kw])" "used_slots (t[i := slot_of_keyword kw]) = used_slots t + 1"
    "\<And>k v. holds (t[i := slot_of_keyword kw]) k v \<longleftrightarrow> holds t k v \<or> (k, v) = kw_entry kw" by auto
  have "\<exists>t'. keyword_table_from kws (t[i := slot_of_keyword kw]) = Some t' \<and> kw_table_ok t'
    \<and> used_slots t' < 128 \<and> (\<forall>k v. holds t' k v \<longleftrightarrow>
       holds (t[i := slot_of_keyword kw]) k v \<or> (k, v) \<in> kw_entry ` set kws)"
  proof (rule Cons.IH [OF i(3)])
    show "used_slots (t[i := slot_of_keyword kw]) + length kws < 128" using Cons.prems(2) i(4) by simp
    show "distinct (map (fst \<circ> kw_entry) kws)" using Cons.prems(3) by (simp add: comp_def)
    have "fst (kw_entry kw') \<noteq> fst (kw_entry kw)" if "kw' \<in> set kws" for kw'
      using Cons.prems(3) that by (force simp: image_iff)
    then show "\<forall>kw' \<in> set kws. keyword_key (fst kw') \<noteq> 0
        \<and> (\<forall>v. \<not> holds (t[i := slot_of_keyword kw]) (fst (kw_entry kw')) v)"
      using Cons.prems(4) i(5) by (metis fst_conv insert_iff list.set(2))
  qed
  with i(2,5) show ?case by (auto simp: slot_of_keyword_def Let_def)
qed

subsection \<open>The list of spellings\<close>

lemma keywords_distinct: "distinct (map fst KEYWORDS)"
  by (simp add: KEYWORDS_def)

lemma keyword_shapes:
  "\<forall>w \<in> set (map fst KEYWORDS). 2 \<le> length w \<and> length w \<le> 9 \<and> w ! 0 \<noteq> CHR 0x00
     \<and> (length w = 9 \<longrightarrow> w = ''intrinsic'')"
  by (simp add: KEYWORDS_def)

lemma keyword_lengths: "KEYWORD_MIN_LENGTH = 2" "KEYWORD_MAX_LENGTH = 9"
  by (simp_all add: KEYWORD_MIN_LENGTH_def KEYWORD_MAX_LENGTH_def KEYWORDS_def)

text \<open>Two words of the same length with the same key agree on the bytes that were packed.\<close>

lemma keyword_key_inj:
  "length v = length w \<Longrightarrow> keyword_key v = keyword_key w \<Longrightarrow> take 8 v = take 8 w"
  unfolding keyword_key_def SPELLING_KEY_BYTES_def
  by (rule nth_equalityI) (auto intro!: packed_key_inj [of "min (length w) 8"])

lemma keyword_key_inj_short:
  "length v = length w \<Longrightarrow> length w \<le> 8 \<Longrightarrow> keyword_key v = keyword_key w \<Longrightarrow> v = w"
  using keyword_key_inj [of v w] by simp

lemma keyword_key_eqI: "length v = length w \<Longrightarrow> take 8 v = take 8 w \<Longrightarrow> keyword_key v = keyword_key w"
  unfolding keyword_key_def SPELLING_KEY_BYTES_def
  by (simp, rule packed_key_eqI) (simp_all, metis nth_take)

lemma keyword_keys_inj:
  assumes "v \<in> set (map fst KEYWORDS)" "w \<in> set (map fst KEYWORDS)"
    "length v = length w" "keyword_key v = keyword_key w"
  shows "v = w"
proof (cases "length w = 9")
  case True
  with assms keyword_shapes show ?thesis by metis
next
  case False
  with assms(2) keyword_shapes have "length w \<le> 8" by fastforce
  with assms(3,4) show ?thesis by (intro keyword_key_inj_short)
qed

lemma kw_entries_distinct: "distinct (map (fst \<circ> kw_entry) KEYWORDS)"
proof -
  have "inj_on (\<lambda>w. (keyword_key w, length w mod 2 ^ 8)) (set (map fst KEYWORDS))"
  proof (rule inj_onI)
    fix v w assume vw: "v \<in> set (map fst KEYWORDS)" "w \<in> set (map fst KEYWORDS)"
      "(keyword_key v, length v mod 2 ^ 8) = (keyword_key w, length w mod 2 ^ 8)"
    have "length u < 2 ^ 8" if "u \<in> set (map fst KEYWORDS)" for u
      using keyword_shapes that by fastforce
    with vw have "length v = length w" by (metis mod_less prod.inject)
    with vw show "v = w" by (intro keyword_keys_inj) simp_all
  qed
  then have "distinct (map (\<lambda>w. (keyword_key w, length w mod 2 ^ 8)) (map fst KEYWORDS))"
    using keywords_distinct by (simp only: distinct_map)
  then show ?thesis by (simp add: comp_def kw_entry_def)
qed

lemma keyword_key_nonzero:
  assumes "w \<noteq> []" "w ! 0 \<noteq> CHR 0x00"
  shows "keyword_key w \<noteq> 0"
  unfolding keyword_key_def SPELLING_KEY_BYTES_def
  by (rule packed_key_nonzero [where i = 0]) (use assms in auto)

lemma keyword_table_ok:
  "\<exists>t. keyword_table = Some t \<and> kw_table_ok t \<and> used_slots t < 128
     \<and> (\<forall>k v. holds t k v \<longleftrightarrow> (k, v) \<in> kw_entry ` set KEYWORDS)"
proof -
  let ?t = "replicate 128 free_keyword_slot"
  have empty: "occ_kw ?t i = None" if "i < 128" for i
    using that by (simp add: occ_kw_def free_keyword_slot_def)
  have "kw_table_ok ?t" "used_slots ?t = 0" "\<And>k v. \<not> holds ?t k v"
    using empty by (auto simp: kw_table_ok_def reachable_keys_def distinct_keys_def used_slots_def
        free_keyword_slot_def holds_def)
  moreover have "length KEYWORDS = 52" by (simp add: KEYWORDS_def)
  moreover have "keyword_key (fst kw) \<noteq> 0" if "kw \<in> set KEYWORDS" for kw
    using keyword_shapes that by (intro keyword_key_nonzero) fastforce+
  ultimately show ?thesis
    using keyword_table_from_ok [of ?t KEYWORDS] kw_entries_distinct by (auto simp: keyword_table_def)
qed

lemma KEYWORD_TABLE_ok:
  "kw_table_ok KEYWORD_TABLE" "used_slots KEYWORD_TABLE < 128"
  "holds KEYWORD_TABLE k v \<longleftrightarrow> (k, v) \<in> kw_entry ` set KEYWORDS"
proof -
  obtain t where t: "keyword_table = Some t" "kw_table_ok t" "used_slots t < 128"
    "\<forall>k v. holds t k v \<longleftrightarrow> (k, v) \<in> kw_entry ` set KEYWORDS"
    using keyword_table_ok by blast
  from t(1) have "KEYWORD_TABLE = t" unfolding KEYWORD_TABLE_def t(1) by simp
  with t show "kw_table_ok KEYWORD_TABLE" "used_slots KEYWORD_TABLE < 128"
    "holds KEYWORD_TABLE k v \<longleftrightarrow> (k, v) \<in> kw_entry ` set KEYWORDS" by blast+
qed

subsection \<open>Lookup\<close>

lemma lookup_from_scan [probe_simps]:
  "i < 128 \<Longrightarrow> lookup_from fuel len key i =
     map_option (\<lambda>j. if occ_kw KEYWORD_TABLE j = None then TkIdent else ks_kind (KEYWORD_TABLE ! j))
       (scan_from fuel (occ_kw KEYWORD_TABLE) 128 (key, len) i)"
proof (induction fuel arbitrary: i)
  case (Suc fuel)
  have "(i + 1) mod 128 < 128" by simp
  from Suc.IH [OF this] Suc.prems show ?case by (simp add: occ_kw_def Let_def)
qed simp

lemma lookup_found:
  assumes "((key, len), kind) \<in> kw_entry ` set KEYWORDS"
  shows "lookup_from 128 len key (keyword_home key) = Some kind"
proof -
  from assms obtain j where j: "j < 128" "occ_kw KEYWORD_TABLE j = Some (key, len)"
    "ks_kind (KEYWORD_TABLE ! j) = kind"
    using KEYWORD_TABLE_ok(3) [of "(key, len)" kind] by (auto simp: holds_def)
  with kw.scan_hit [where occ = "occ_kw KEYWORD_TABLE" and j = j and k = "(key, len)"]
    KEYWORD_TABLE_ok(1) show ?thesis
    by (simp add: lookup_from_scan keyword_home_less kw_table_ok_def kw_home_def)
qed

lemma lookup_absent:
  assumes "\<forall>kind. ((key, len), kind) \<notin> kw_entry ` set KEYWORDS"
  shows "lookup_from 128 len key (keyword_home key) = Some TkIdent"
proof -
  have absent: "\<forall>j < 128. occ_kw KEYWORD_TABLE j \<noteq> Some (key, len)"
    using assms KEYWORD_TABLE_ok(3) unfolding holds_def by blast
  have "length KEYWORD_TABLE = 128" using KEYWORD_TABLE_ok(1) by (simp add: kw_table_ok_def)
  then obtain j where "j < 128" "occ_kw KEYWORD_TABLE j = None"
    using filter_length_less_ex [of "\<lambda>s. ks_key s \<noteq> 0" KEYWORD_TABLE] KEYWORD_TABLE_ok(2)
    by (auto simp: used_slots_def occ_kw_def)
  from kw.scan_miss [OF absent this] show ?thesis
    by (auto simp: lookup_from_scan keyword_home_less kw_home_def)
qed

lemma kw_entry_of_word:
  assumes "w \<noteq> []" "length w \<le> 9"
  shows "((keyword_key w, length w), kind) \<in> kw_entry ` set KEYWORDS \<longleftrightarrow>
    (\<exists>v. (v, kind) \<in> set KEYWORDS \<and> length v = length w \<and> take 8 v = take 8 w)"
proof -
  have small: "length v mod 2 ^ 8 = length v" if "(v, kind) \<in> set KEYWORDS" for v
    using keyword_shapes that by fastforce
  have "((keyword_key w, length w), kind) \<in> kw_entry ` set KEYWORDS \<longleftrightarrow>
      (\<exists>v. (v, kind) \<in> set KEYWORDS \<and> keyword_key v = keyword_key w \<and> length v mod 2 ^ 8 = length w)"
    by (force simp: kw_entry_def image_iff)
  also have "\<dots> \<longleftrightarrow> (\<exists>v. (v, kind) \<in> set KEYWORDS \<and> length v = length w \<and> take 8 v = take 8 w)"
    using small keyword_key_inj keyword_key_eqI by metis
  finally show ?thesis .
qed

text \<open>What the lookup answers for a word, in terms of the words of the list.\<close>

definition keyword_of_word :: "string \<Rightarrow> token_kind" where
  "keyword_of_word w =
     (if length w \<le> 8 then (case map_of KEYWORDS w of None \<Rightarrow> TkIdent | Some kind \<Rightarrow> kind)
      else if length w = 9 \<and> take 8 w = ''intrinsi'' then TkIntrinsic
      else TkIdent)"

lemma keyword_of_entry:
  assumes "(v, kind) \<in> set KEYWORDS" "length v = length w" "take 8 v = take 8 w"
  shows "keyword_of_word w = kind"
proof -
  have shape: "2 \<le> length v \<and> length v \<le> 9 \<and> (length v = 9 \<longrightarrow> v = ''intrinsic'')"
    using keyword_shapes assms(1) by force
  have in_map: "map_of KEYWORDS v = Some kind"
    using assms(1) keywords_distinct by (simp add: map_of_is_SomeI)
  show ?thesis
  proof (cases "length w \<le> 8")
    case True
    with assms(2,3) have "v = w" by simp
    with True in_map show ?thesis by (simp add: keyword_of_word_def)
  next
    case False
    with shape assms(2) have v: "v = ''intrinsic''" by auto
    have "map_of KEYWORDS ''intrinsic'' = Some TkIntrinsic" by (simp add: KEYWORDS_def)
    with v in_map have "kind = TkIntrinsic" by simp
    with v assms(2,3) show ?thesis by (simp add: keyword_of_word_def)
  qed
qed

lemma keyword_of_no_entry:
  assumes "\<forall>kind v. \<not> ((v, kind) \<in> set KEYWORDS \<and> length v = length w \<and> take 8 v = take 8 w)"
  shows "keyword_of_word w = TkIdent"
proof -
  have "map_of KEYWORDS w = None" using assms map_of_SomeD not_None_eq by metis
  moreover have "(''intrinsic'', TkIntrinsic) \<in> set KEYWORDS" by (simp add: KEYWORDS_def)
  with assms have "\<not> (length ''intrinsic'' = length w \<and> take 8 ''intrinsic'' = take 8 w)" by blast
  then have "\<not> (length w = 9 \<and> take 8 w = ''intrinsi'')" by auto
  ultimately show ?thesis by (auto simp: keyword_of_word_def)
qed

lemma lookup_keyword_word:
  assumes "w \<noteq> []"
  shows "lookup_keyword (length w) (keyword_key w) = Some (keyword_of_word w)"
proof (cases "2 \<le> length w \<and> length w \<le> 9")
  case True
  then have eq: "lookup_keyword (length w) (keyword_key w)
      = lookup_from 128 (length w) (keyword_key w) (keyword_home (keyword_key w))"
    by (simp add: lookup_keyword_def keyword_lengths)
  note entry = kw_entry_of_word [OF assms conjunct2 [OF True]]
  show ?thesis
  proof (cases "\<exists>kind v. (v, kind) \<in> set KEYWORDS \<and> length v = length w \<and> take 8 v = take 8 w")
    case True
    then obtain kind v where v: "(v, kind) \<in> set KEYWORDS" "length v = length w" "take 8 v = take 8 w"
      by blast
    then have "((keyword_key w, length w), kind) \<in> kw_entry ` set KEYWORDS"
      using entry [of kind] by blast
    with lookup_found keyword_of_entry [OF v] eq show ?thesis by simp
  next
    case False
    with entry lookup_absent keyword_of_no_entry eq show ?thesis by simp
  qed
next
  case False
  with keyword_shapes have "keyword_of_word w = TkIdent"
    by (intro keyword_of_no_entry) fastforce
  with False show ?thesis by (auto simp: lookup_keyword_def keyword_lengths)
qed

text \<open>The whole path of a word: its key is the same however the host loads it and however many bytes
  of the file follow it, and the lookup returns.\<close>

lemma classify_word:
  assumes "w \<noteq> []"
  shows "lookup_keyword (length w) (spelling_key big (w @ rest) (length w) (length (w @ rest)))
       = Some (keyword_of_word w)"
  unfolding spelling_key_word by (rule lookup_keyword_word [OF assms])

lemma keyword_of_word_spec:
  assumes "length w \<noteq> 9"
  shows "keyword_of_word w = (case map_of KEYWORDS w of None \<Rightarrow> TkIdent | Some kind \<Rightarrow> kind)"
proof (cases "length w \<le> 8")
  case False
  with assms have "w \<notin> set (map fst KEYWORDS)" using keyword_shapes by fastforce
  then have "map_of KEYWORDS w = None" by (simp add: map_of_eq_None_iff)
  with False assms show ?thesis by (auto simp: keyword_of_word_def)
qed (simp add: keyword_of_word_def)

subsection \<open>Properties\<close>

text \<open>
  C9.  The keyword lookup is exact for every word whose length is not nine bytes: on either byte
  order, and wherever in the file the word stands, the packed-key walk over the 128-slot table
  ends and answers the kind the \<^verbatim>\<open>KEYWORDS\<close> list gives the spelling, and \<^verbatim>\<open>Ident\<close> for a spelling
  that is not in the list.
\<close>

theorem keyword_lookup_exact:
  assumes "w \<noteq> []" and "length w \<noteq> 9"
  shows "lookup_keyword (length w) (spelling_key big (w @ rest) (length w) (length (w @ rest)))
       = Some (case map_of KEYWORDS w of None \<Rightarrow> TkIdent | Some kind \<Rightarrow> kind)"
  using classify_word [OF assms(1)] keyword_of_word_spec [OF assms(2)] by simp

theorem keyword_lookup_exact_witness:
  "lookup_keyword 5 (spelling_key False ''while x'' 5 7) = Some TkWhile
   \<and> lookup_keyword 10 (spelling_key True ''intrinsics()'' 10 12) = Some TkIdent"
proof -
  have "map_of KEYWORDS ''while'' = Some TkWhile" "map_of KEYWORDS ''intrinsics'' = None"
    by (simp_all add: KEYWORDS_def)
  with keyword_lookup_exact [of "''while''" False "'' x''"]
    keyword_lookup_exact [of "''intrinsics''" True "''()''"] show ?thesis
    by (simp add: eval_nat_numeral)
qed

text \<open>
  C37.  Nine-byte words are settled by their first eight bytes: every identifier \<^verbatim>\<open>intrinsi?\<close>
  lexes as the keyword \<^verbatim>\<open>intrinsic\<close>, whatever its last byte is, although only the spelling
  \<^verbatim>\<open>intrinsic\<close> is in the list.
\<close>

theorem nine_byte_words_collide:
  "lookup_keyword 9 (spelling_key big (''intrinsi'' @ [c] @ rest) 9 (9 + length rest)) = Some TkIntrinsic
   \<and> (map_of KEYWORDS (''intrinsi'' @ [c]) = None \<longleftrightarrow> c \<noteq> CHR ''c'')"
proof
  show "lookup_keyword 9 (spelling_key big (''intrinsi'' @ [c] @ rest) 9 (9 + length rest)) = Some TkIntrinsic"
    using classify_word [of "''intrinsi'' @ [c]" big rest]
    by (simp add: keyword_of_word_def eval_nat_numeral)
  show "map_of KEYWORDS (''intrinsi'' @ [c]) = None \<longleftrightarrow> c \<noteq> CHR ''c''"
    by (simp add: KEYWORDS_def)
qed

end
