(* ===== verification/Lexer_Scan.thy ===== *)
theory Lexer_Scan
  imports Lexer_Keywords
begin

text \<open>
  The scanning half of \<^verbatim>\<open>class Lexer\<close> of \<^verbatim>\<open>src/src/lexer/lexer.{h,cc}\<close>: the cursor, trivia with nested
  comments and newline-driven semicolons, identifiers, numbers and literals.  The object's fields,
  the output vector and what was reported to the diagnostic bag are the fields of one record that
  every member function returns updated.  Theory \<open>Lexer\<close> adds the symbols, the driver loop and the
  properties of the whole tokenizer.
\<close>

subsection \<open>State and cursor\<close>

record lexer =
  lx_bytes :: bytes
  lx_file :: nat
  lx_big_endian :: bool
  lx_diags :: "(lexer_key \<times> diag_code \<times> span) list"
  lx_pos :: nat
  lx_last :: token_kind
  lx_out :: "token list"

definition new_lexer :: "bool \<Rightarrow> bytes \<Rightarrow> nat \<Rightarrow> lexer" where
  "new_lexer big bs file = \<lparr>lx_bytes = bs, lx_file = file, lx_big_endian = big, lx_diags = [],
     lx_pos = 0, lx_last = TkEof, lx_out = []\<rparr>"

definition span_at :: "lexer \<Rightarrow> nat \<Rightarrow> nat \<Rightarrow> span" where
  "span_at lx start len =
     \<lparr>span_file = lx_file lx, span_offset = start mod 2 ^ 32, span_length = len mod 2 ^ 32\<rparr>"

definition peek :: "lexer \<Rightarrow> nat \<Rightarrow> char" where
  "peek lx ahead =
     (if lx_pos lx + ahead \<ge> length (lx_bytes lx) then CHR 0x00
      else lx_bytes lx ! (lx_pos lx + ahead))"

definition advance :: "nat \<Rightarrow> lexer \<Rightarrow> lexer" where
  "advance n lx = lx\<lparr>lx_pos := lx_pos lx + n\<rparr>"

definition at_end :: "lexer \<Rightarrow> bool" where
  "at_end lx \<longleftrightarrow> lx_pos lx \<ge> length (lx_bytes lx)"

definition push_token :: "token_kind \<Rightarrow> span \<Rightarrow> lexer \<Rightarrow> lexer" where
  "push_token kind sp lx = lx\<lparr>lx_out := lx_out lx @ [\<lparr>tok_kind = kind, tok_span = sp\<rparr>]\<rparr>"

definition report :: "lexer_key \<Rightarrow> diag_code \<Rightarrow> span \<Rightarrow> lexer \<Rightarrow> lexer" where
  "report key code sp lx = lx\<lparr>lx_diags := lx_diags lx @ [(key, code, sp)]\<rparr>"

definition emit_error :: "lexer_key \<Rightarrow> nat \<Rightarrow> nat \<Rightarrow> diag_code \<Rightarrow> lexer \<Rightarrow> lexer" where
  "emit_error key start len code lx =
     push_token TkError (span_at lx start len) (report key code (span_at lx start len) lx)"

text \<open>Emits a token and records its kind as the last significant one.\<close>

definition accept :: "token_kind \<Rightarrow> nat \<Rightarrow> nat \<Rightarrow> lexer \<Rightarrow> lexer" where
  "accept kind start len lx = push_token kind (span_at lx start len) (lx\<lparr>lx_last := kind\<rparr>)"

text \<open>The loop \<^verbatim>\<open>while (!at_end() && p(peek())) { advance(); }\<close>.\<close>

function advance_while :: "(char \<Rightarrow> bool) \<Rightarrow> lexer \<Rightarrow> lexer" where
  "advance_while p lx =
     (if \<not> at_end lx \<and> p (peek lx 0) then advance_while p (advance 1 lx) else lx)"
  by pat_completeness auto
termination
  by (relation "measure (\<lambda>(p, lx). length (lx_bytes lx) - lx_pos lx)")
    (auto simp: at_end_def advance_def)

declare advance_while.simps [simp del]

subsection \<open>Newlines and semicolons\<close>

definition inserts_semi :: "token_kind \<Rightarrow> bool" where
  "inserts_semi kind \<longleftrightarrow> kind \<in>
     {TkIdent, TkUnderscore, TkInteger, TkFloat, TkString, TkChar, TkTrue, TkFalse,
      TkRParen, TkRBracket, TkRBrace, TkBreak, TkContinue, TkRet,
      TkQuestion, TkDotDot, TkDotDotEq, TkDotDotLess, TkSelf, TkSelfType,
      TkI8, TkI16, TkI32, TkI64, TkI128, TkIsize, TkU8, TkU16, TkU32, TkU64, TkU128, TkUsize,
      TkF32, TkF64, TkBool, TkStr}"

definition suppress_semi :: "token_kind \<Rightarrow> bool" where
  "suppress_semi kind \<longleftrightarrow> kind \<in> {TkElse, TkComma, TkRParen, TkRBracket, TkRBrace, TkDot, TkEof}"

text \<open>\<^verbatim>\<open>peek_next_kind\<close> walks with an index of its own; \<open>byte_at\<close> is its bounds-checked read.\<close>

definition byte_at :: "bytes \<Rightarrow> nat \<Rightarrow> char" where
  "byte_at bs i = (if i < length bs then bs ! i else CHR 0x00)"

function skip_index :: "(char \<Rightarrow> bool) \<Rightarrow> bytes \<Rightarrow> nat \<Rightarrow> nat" where
  "skip_index p bs i = (if i < length bs \<and> p (bs ! i) then skip_index p bs (i + 1) else i)"
  by pat_completeness auto
termination by (relation "measure (\<lambda>(p, bs, i). length bs - i)") auto

declare skip_index.simps [simp del]

function comment_index :: "bytes \<Rightarrow> nat \<Rightarrow> nat \<Rightarrow> nat \<times> nat" where
  "comment_index bs i depth =
     (if i < length bs \<and> depth > 0 then
        if bs ! i = CHR ''/'' \<and> i + 1 < length bs \<and> bs ! (i + 1) = CHR ''*''
        then comment_index bs (i + 2) (depth + 1)
        else if bs ! i = CHR ''*'' \<and> i + 1 < length bs \<and> bs ! (i + 1) = CHR ''/''
        then comment_index bs (i + 2) (depth - 1)
        else comment_index bs (i + 1) depth
      else (i, depth))"
  by pat_completeness auto
termination by (relation "measure (\<lambda>(bs, i, depth). length bs - i)") auto

declare comment_index.simps [simp del]

definition is_space :: "char \<Rightarrow> bool" where
  "is_space c \<longleftrightarrow> c = CHR '' '' \<or> c = CHR 0x09 \<or> c = CHR 0x0D"

definition is_newline :: "char \<Rightarrow> bool" where
  "is_newline c \<longleftrightarrow> c = CHR 0x0A"

text \<open>One turn of the loop that steps over blanks and comments: where it stands afterwards, and
  whether it goes on, stops, or met a comment that is never closed.\<close>

datatype gap = Again nat | Stop nat | Unclosed

definition gap_step :: "bytes \<Rightarrow> nat \<Rightarrow> gap" where
  "gap_step bs i0 =
     (let i = skip_index (\<lambda>c. is_space c \<or> is_newline c) bs i0 in
      if byte_at bs i = CHR ''/'' \<and> byte_at bs (i + 1) = CHR ''/''
      then Again (skip_index (\<lambda>c. \<not> is_newline c) bs (i + 2))
      else if byte_at bs i = CHR ''/'' \<and> byte_at bs (i + 1) = CHR ''*''
      then (case comment_index bs (i + 2) 1 of
              (j, depth) \<Rightarrow> if depth > 0 then Unclosed else Again j)
      else Stop i)"

lemma skip_index_ge: "i \<le> skip_index p bs i"
  by (induction p bs i rule: skip_index.induct) (subst skip_index.simps, auto)

lemma comment_index_ge: "i \<le> fst (comment_index bs i depth)"
  by (induction bs i depth rule: comment_index.induct) (subst comment_index.simps, auto)

lemma byte_at_nonzero: "byte_at bs i \<noteq> CHR 0x00 \<Longrightarrow> i < length bs"
  by (auto simp: byte_at_def split: if_splits)

lemma gap_step_Again: "gap_step bs i = Again j \<Longrightarrow> i < length bs \<and> i < j"
proof -
  let ?k = "skip_index (\<lambda>c. is_space c \<or> is_newline c) bs i"
  assume "gap_step bs i = Again j"
  then have "byte_at bs ?k = CHR ''/''" "?k + 2 \<le> j"
    using skip_index_ge [of "?k + 2"] comment_index_ge [of "?k + 2" bs 1]
    by (auto simp: gap_step_def Let_def split: if_splits prod.splits)
  moreover have "i \<le> ?k" by (rule skip_index_ge)
  ultimately show ?thesis using byte_at_nonzero [of bs ?k] by auto
qed

function next_kind_at :: "bytes \<Rightarrow> nat \<Rightarrow> token_kind" where
  "next_kind_at bs i0 =
     (case gap_step bs i0 of
        Again i \<Rightarrow> next_kind_at bs i
      | Unclosed \<Rightarrow> TkError
      | Stop i \<Rightarrow>
          if i \<ge> length bs then TkEof
          else if is_alpha (bs ! i) \<or> bs ! i = CHR ''_''
          then (if take (skip_index is_alnum_or_underscore bs (i + 1) - i) (drop i bs) = ''else''
                then TkElse else TkIdent)
          else if bs ! i = CHR '','' then TkComma
          else if bs ! i = CHR '')'' then TkRParen
          else if bs ! i = CHR '']'' then TkRBracket
          else if bs ! i = CHR ''}'' then TkRBrace
          else if bs ! i = CHR ''.'' then TkDot
          else TkIdent)"
  by pat_completeness auto
termination
  by (relation "measure (\<lambda>(bs, i). length bs - i)")
    (auto dest: gap_step_Again intro: diff_less_mono2)

declare next_kind_at.simps [simp del]

definition peek_next_kind :: "lexer \<Rightarrow> token_kind" where
  "peek_next_kind lx = next_kind_at (lx_bytes lx) (lx_pos lx)"

subsection \<open>Trivia\<close>

function block_comment_loop :: "nat \<Rightarrow> lexer \<Rightarrow> nat \<times> lexer" where
  "block_comment_loop depth lx =
     (if \<not> at_end lx \<and> depth > 0 then
        if peek lx 0 = CHR ''/'' \<and> peek lx 1 = CHR ''*''
        then block_comment_loop (depth + 1) (advance 2 lx)
        else if peek lx 0 = CHR ''*'' \<and> peek lx 1 = CHR ''/''
        then block_comment_loop (depth - 1) (advance 2 lx)
        else block_comment_loop depth (advance 1 lx)
      else (depth, lx))"
  by pat_completeness auto
termination
  by (relation "measure (\<lambda>(depth, lx). length (lx_bytes lx) - lx_pos lx)")
    (auto simp: at_end_def advance_def)

declare block_comment_loop.simps [simp del]

definition lex_newline :: "lexer \<Rightarrow> lexer" where
  "lex_newline lx =
     (let newline = lx_pos lx; lx1 = advance 1 lx in
      if inserts_semi (lx_last lx1) \<and> \<not> suppress_semi (peek_next_kind lx1)
      then accept TkSemicolon newline 1 lx1 else lx1)"

definition lex_line_comment :: "lexer \<Rightarrow> lexer" where
  "lex_line_comment lx =
     (if peek lx 2 = CHR ''/'' \<and> peek lx 3 \<noteq> CHR ''/''
      then let start = lx_pos lx; lx1 = advance_while (\<lambda>c. \<not> is_newline c) (advance 3 lx)
           in push_token TkDocComment (span_at lx1 start (lx_pos lx1 - start)) lx1
      else advance_while (\<lambda>c. \<not> is_newline c) lx)"

definition lex_block_comment :: "lexer \<Rightarrow> lexer" where
  "lex_block_comment lx =
     (let start = lx_pos lx in
      case block_comment_loop 1 (advance 2 lx) of
        (depth, lx1) \<Rightarrow>
          if depth > 0
          then emit_error LexerUnterminatedBlockComment start (lx_pos lx1 - start)
                 UnterminatedBlockComment lx1
          else lx1)"

text \<open>One turn of \<^verbatim>\<open>skip_trivia\<close>'s loop; \<^term>\<open>None\<close> is its \<^verbatim>\<open>break\<close>.\<close>

definition trivia_step :: "lexer \<Rightarrow> lexer option" where
  "trivia_step lx =
     (let c = peek lx 0 in
      if is_space c then Some (advance 1 lx)
      else if is_newline c then Some (lex_newline lx)
      else if c = CHR ''/'' \<and> peek lx 1 = CHR ''/'' then Some (lex_line_comment lx)
      else if c = CHR ''/'' \<and> peek lx 1 = CHR ''*'' then Some (lex_block_comment lx)
      else None)"

subsection \<open>Frames: what the operations leave alone\<close>

text \<open>\<open>keeps\<close>: the input is unchanged and the cursor only moves forward.\<close>

definition keeps :: "lexer \<Rightarrow> lexer \<Rightarrow> bool" where
  "keeps lx lx' \<longleftrightarrow> lx_bytes lx' = lx_bytes lx \<and> lx_file lx' = lx_file lx
     \<and> lx_big_endian lx' = lx_big_endian lx \<and> lx_pos lx \<le> lx_pos lx'"

lemma keeps_refl [simp]: "keeps lx lx"
  by (simp add: keeps_def)

lemma keeps_trans: "keeps a b \<Longrightarrow> keeps b c \<Longrightarrow> keeps a c"
  by (simp add: keeps_def)

lemma keeps_advance [lex_simps]: "keeps lx (advance n lx)"
  by (simp add: keeps_def advance_def)

lemma keeps_after_advance: "keeps (advance n lx) lx' \<Longrightarrow> keeps lx lx'"
  using keeps_trans [OF keeps_advance] .

lemma keeps_push [lex_simps]: "keeps lx (push_token k sp lx)"
  by (simp add: keeps_def push_token_def)

lemma keeps_emit_error [lex_simps]: "keeps lx (emit_error key st n code lx)"
  by (simp add: keeps_def emit_error_def push_token_def report_def)

lemma keeps_accept [lex_simps]: "keeps lx (accept k st n lx)"
  by (simp add: keeps_def accept_def push_token_def)

lemma keeps_advance_while [lex_simps]: "keeps lx (advance_while p lx)"
proof (induction p lx rule: advance_while.induct)
  case (1 p lx)
  then show ?case
    by (subst advance_while.simps) (auto dest: keeps_after_advance)
qed

lemma keeps_block_comment [lex_simps]: "keeps lx (snd (block_comment_loop depth lx))"
proof (induction depth lx rule: block_comment_loop.induct)
  case (1 depth lx)
  then show ?case
    by (subst block_comment_loop.simps) (auto dest: keeps_after_advance)
qed

lemma pos_advance [simp]: "lx_pos (advance n lx) = lx_pos lx + n"
  by (simp add: advance_def)

lemma pos_emit_error [simp]: "lx_pos (emit_error key st n code lx) = lx_pos lx"
  by (simp add: emit_error_def push_token_def report_def)

lemma pos_push [simp]: "lx_pos (push_token k sp lx) = lx_pos lx"
  by (simp add: push_token_def)

lemma pos_accept [simp]: "lx_pos (accept k st n lx) = lx_pos lx"
  by (simp add: accept_def)

lemma bytes_advance [simp]: "lx_bytes (advance n lx) = lx_bytes lx"
  by (simp add: advance_def)

lemma keeps_pos: "keeps lx lx' \<Longrightarrow> lx_pos lx \<le> lx_pos lx'"
  by (simp add: keeps_def)

lemma peek_inside: "peek lx k \<noteq> CHR 0x00 \<Longrightarrow> lx_pos lx + k < length (lx_bytes lx)"
  by (auto simp: peek_def split: if_splits)

text \<open>A turn of the trivia loop keeps the input and moves the cursor, so the loop ends.\<close>

lemma trivia_step_moves:
  assumes "trivia_step lx = Some lx'" "\<not> at_end lx"
  shows "keeps lx lx' \<and> lx_pos lx < lx_pos lx'"
proof -
  let ?adv = "\<lambda>n. advance n lx"
  have k: "keeps (?adv n) lx' \<Longrightarrow> 0 < n \<Longrightarrow> ?thesis" for n
    using keeps_after_advance [of n lx lx'] keeps_pos [of "?adv n" lx'] by auto
  consider "lx' = ?adv 1" | "lx' = lex_newline lx"
    | "lx' = lex_line_comment lx" "peek lx 0 = CHR ''/''" | "lx' = lex_block_comment lx"
    using assms(1) by (auto simp: trivia_step_def Let_def split: if_splits)
  then show ?thesis
  proof cases
    case 1
    then show ?thesis using k [of 1] by simp
  next
    case 2
    then show ?thesis using k [of 1] by (auto simp: lex_newline_def Let_def keeps_accept)
  next
    case 3
    have "keeps (?adv 3) (push_token d sp (advance_while p (?adv 3)))" for d sp p
      by (rule keeps_trans [OF keeps_advance_while keeps_push])
    moreover have "advance_while (\<lambda>c. \<not> is_newline c) lx = advance_while (\<lambda>c. \<not> is_newline c) (?adv 1)"
      using 3(2) assms(2) by (subst advance_while.simps) (simp add: is_newline_def)
    ultimately show ?thesis using 3(1) k [of 3] k [of 1] keeps_advance_while [of "?adv 1"]
      by (auto simp: lex_line_comment_def Let_def split: if_splits)
  next
    case 4
    have "keeps (?adv 2) lx'" using 4 keeps_block_comment [of "?adv 2" 1] keeps_trans [OF _ keeps_emit_error]
      by (auto simp: lex_block_comment_def Let_def split: prod.splits if_splits)
    then show ?thesis using k [of 2] by simp
  qed
qed

function skip_trivia :: "lexer \<Rightarrow> lexer" where
  "skip_trivia lx =
     (if at_end lx then lx
      else case trivia_step lx of None \<Rightarrow> lx | Some lx' \<Rightarrow> skip_trivia lx')"
  by pat_completeness auto
termination
proof (relation "measure (\<lambda>lx. length (lx_bytes lx) - lx_pos lx)")
  fix lx lx' assume "\<not> at_end lx" "trivia_step lx = Some lx'"
  from trivia_step_moves [OF this(2,1)] this(1)
  show "(lx', lx) \<in> measure (\<lambda>lx. length (lx_bytes lx) - lx_pos lx)"
    by (auto simp: keeps_def at_end_def)
qed simp

declare skip_trivia.simps [simp del]

subsection \<open>Identifiers and numbers\<close>

text \<open>The table walk of \<^verbatim>\<open>lookup_keyword\<close> always returns (\<open>lookup_keyword_word\<close>), so the case of a
  walk that never ends is not reached.\<close>

definition word_kind :: "bool \<Rightarrow> bytes \<Rightarrow> nat \<Rightarrow> nat \<Rightarrow> token_kind" where
  "word_kind big bs start len =
     (if len = 1 \<and> bs ! start = CHR ''_'' then TkUnderscore
      else case lookup_keyword len (spelling_key big (drop start bs) len (length bs - start)) of
             None \<Rightarrow> TkIdent | Some kind \<Rightarrow> kind)"

definition lex_identifier :: "lexer \<Rightarrow> lexer" where
  "lex_identifier lx =
     (let start = lx_pos lx;
          lx1 = lx\<lparr>lx_pos := skip_index is_alnum_or_underscore (lx_bytes lx) start\<rparr>;
          len = lx_pos lx1 - start
      in accept (word_kind (lx_big_endian lx) (lx_bytes lx) start len) start len lx1)"

definition in_base :: "char \<Rightarrow> char \<Rightarrow> bool" where
  "in_base base d =
     (if d = CHR ''_'' then True
      else if base = CHR ''b'' \<or> base = CHR ''B'' then d = CHR ''0'' \<or> d = CHR ''1''
      else if base = CHR ''o'' \<or> base = CHR ''O'' then between CHR ''0'' d CHR ''7''
      else is_hex_digit d)"

function base_digits :: "char \<Rightarrow> nat \<Rightarrow> bool \<Rightarrow> lexer \<Rightarrow> nat \<times> bool \<times> lexer" where
  "base_digits base digit_count trailing_underscore lx =
     (if \<not> at_end lx \<and> in_base base (peek lx 0)
      then base_digits base (if peek lx 0 \<noteq> CHR ''_'' then digit_count + 1 else digit_count)
             (peek lx 0 = CHR ''_'') (advance 1 lx)
      else (digit_count, trailing_underscore, lx))"
  by pat_completeness auto
termination
  by (relation "measure (\<lambda>(base, c, u, lx). length (lx_bytes lx) - lx_pos lx)")
    (auto simp: at_end_def)

declare base_digits.simps [simp del]

definition number_error :: "nat \<Rightarrow> lexer \<Rightarrow> lexer" where
  "number_error start lx =
     emit_error LexerInvalidNumber start (lx_pos lx - start) InvalidNumber lx"

definition digit_or_underscore :: "char \<Rightarrow> bool" where
  "digit_or_underscore c \<longleftrightarrow> is_digit c \<or> c = CHR ''_''"

text \<open>The literal after a base prefix: \<^term>\<open>Inl\<close> is an early return with an error token, \<^term>\<open>Inr\<close>
  goes on to the suffix.\<close>

definition lex_based :: "nat \<Rightarrow> char \<Rightarrow> lexer \<Rightarrow> lexer + lexer" where
  "lex_based start base lx =
     (case base_digits base 0 False lx of
        (digit_count, trailing_underscore, lx1) \<Rightarrow>
          if digit_count = 0 then Inl (number_error start (advance_while is_alnum_or_underscore lx1))
          else if trailing_underscore \<and> \<not> is_alpha (peek lx1 0) then Inl (number_error start lx1)
          else if is_digit (peek lx1 0)
          then Inl (number_error start (advance_while is_alnum_or_underscore lx1))
          else Inr (advance_while is_alnum_or_underscore lx1))"

definition lex_fraction :: "lexer \<Rightarrow> bool \<times> lexer" where
  "lex_fraction lx =
     (if peek lx 0 = CHR ''.'' \<and> peek lx 1 \<noteq> CHR ''.''
      then let ident_after = (is_alpha (peek lx 1) \<or> peek lx 1 = CHR ''_'');
               f32 = (peek lx 1 = CHR ''f'' \<and> peek lx 2 = CHR ''3'' \<and> peek lx 3 = CHR ''2'');
               f64 = (peek lx 1 = CHR ''f'' \<and> peek lx 2 = CHR ''6'' \<and> peek lx 3 = CHR ''4'');
               suffix_after = ((f32 \<or> f64) \<and> \<not> is_alnum_or_underscore (peek lx 4))
           in if is_digit (peek lx 1) \<or> suffix_after \<or> \<not> ident_after
              then (True, advance_while digit_or_underscore (advance 1 lx))
              else (False, lx)
      else (False, lx))"

definition lex_exponent :: "lexer \<Rightarrow> bool \<times> lexer" where
  "lex_exponent lx =
     (if (peek lx 0 = CHR ''e'' \<or> peek lx 0 = CHR ''E'')
         \<and> (is_digit (peek lx 1)
            \<or> (peek lx 1 = CHR ''+'' \<or> peek lx 1 = CHR ''-'') \<and> is_digit (peek lx 2))
      then let lx1 = advance 1 lx;
               lx2 = (if peek lx1 0 = CHR ''+'' \<or> peek lx1 0 = CHR ''-'' then advance 1 lx1 else lx1)
           in (True, advance_while digit_or_underscore lx2)
      else (False, lx))"

definition lex_decimal :: "nat \<Rightarrow> lexer \<Rightarrow> lexer + bool \<times> lexer" where
  "lex_decimal start lx =
     (case lex_fraction (advance_while digit_or_underscore lx) of
        (frac, lx1) \<Rightarrow>
          (case lex_exponent lx1 of
             (expo, lx2) \<Rightarrow>
               if lx_bytes lx2 ! (lx_pos lx2 - 1) = CHR ''_'' \<and> \<not> is_alpha (peek lx2 0)
               then Inl (number_error start lx2)
               else Inr (frac \<or> expo, lx2)))"

definition lex_suffix :: "lexer \<Rightarrow> lexer" where
  "lex_suffix lx =
     (if \<not> at_end lx \<and> (is_alpha (peek lx 0) \<or> peek lx 0 = CHR ''_'')
      then advance_while is_alnum_or_underscore (advance 1 lx) else lx)"

definition finish_number :: "nat \<Rightarrow> bool \<Rightarrow> lexer \<Rightarrow> lexer" where
  "finish_number start is_float lx =
     (let lx1 = lex_suffix lx
      in accept (if is_float then TkFloat else TkInteger) start (lx_pos lx1 - start) lx1)"

definition lex_number :: "lexer \<Rightarrow> lexer" where
  "lex_number lx =
     (let start = lx_pos lx in
      if peek lx 0 = CHR ''0'' \<and> peek lx 1 \<in> {CHR ''b'', CHR ''B'', CHR ''o'', CHR ''O'', CHR ''x'', CHR ''X''}
      then (case lex_based start (peek lx 1) (advance 2 lx) of
              Inl lx1 \<Rightarrow> lx1 | Inr lx1 \<Rightarrow> finish_number start False lx1)
      else (case lex_decimal start lx of
              Inl lx1 \<Rightarrow> lx1 | Inr (is_float, lx1) \<Rightarrow> finish_number start is_float lx1))"

subsection \<open>String and character literals\<close>

text \<open>The digits of \<^verbatim>\<open>\u{...}\<close>: the accumulated value stops growing once it cannot be a scalar.\<close>

function hex_run :: "bytes \<Rightarrow> nat \<Rightarrow> nat \<Rightarrow> nat \<times> nat" where
  "hex_run bs i code =
     (if i < length bs \<and> is_hex_digit (bs ! i)
      then hex_run bs (i + 1) (if code \<le> 0x10FFFF then code * 16 + hex_digit_value (bs ! i) else code)
      else (i, code))"
  by pat_completeness auto
termination by (relation "measure (\<lambda>(bs, i, code). length bs - i)") auto

declare hex_run.simps [simp del]

text \<open>A well-formed \<^verbatim>\<open>\u{HEX}\<close> at \<open>pos\<close>: the index of its closing brace and its value.\<close>

definition unicode_escape :: "bytes \<Rightarrow> nat \<Rightarrow> (nat \<times> nat) option" where
  "unicode_escape bs pos =
     (if pos + 2 < length bs \<and> bs ! (pos + 2) = CHR ''{''
      then (case hex_run bs (pos + 3) 0 of
              (i, code) \<Rightarrow>
                if i \<noteq> pos + 3 \<and> i < length bs \<and> bs ! i = CHR ''}'' then Some (i, code) else None)
      else None)"

definition not_scalar :: "nat \<Rightarrow> bool" where
  "not_scalar code \<longleftrightarrow> code > 0x10FFFF \<or> (code \<ge> 0xD800 \<and> code \<le> 0xDFFF)"

text \<open>One turn of the loop over a literal's bytes: the closing quote, a line end, or one more
  character, with whether its escape was bad.\<close>

datatype lit_step = Closed lexer | Broken | Goes bool lexer

definition string_step :: "lexer \<Rightarrow> lit_step" where
  "string_step lx =
     (let c = peek lx 0 in
      if c = CHR 0x22 then Closed (advance 1 lx)
      else if is_newline c then Broken
      else if c = CHR 0x5C then
        if is_newline (peek lx 1) then Broken
        else if peek lx 1 = CHR ''u'' then
          (case unicode_escape (lx_bytes lx) (lx_pos lx) of
             Some (i, code) \<Rightarrow>
               Goes False
                 ((if not_scalar code
                   then report LexerUnicodeEscapeNotScalar InvalidEscape
                          (span_at lx (lx_pos lx) (i + 1 - lx_pos lx)) lx
                   else lx)\<lparr>lx_pos := i + 1\<rparr>)
           | None \<Rightarrow> Goes True (advance 2 lx))
        else Goes (\<not> is_valid_escape (peek lx 1)) (advance 2 lx)
      else Goes False (advance 1 lx))"

definition char_step :: "lexer \<Rightarrow> lit_step" where
  "char_step lx =
     (let c = peek lx 0 in
      if c = CHR 0x27 then Closed (advance 1 lx)
      else if is_newline c then Broken
      else if c = CHR 0x5C then
        if is_newline (peek lx 1) then Broken
        else if peek lx 1 = CHR ''u'' then
          (case unicode_escape (lx_bytes lx) (lx_pos lx) of
             Some (i, code) \<Rightarrow> Goes False (lx\<lparr>lx_pos := i + 1\<rparr>)
           | None \<Rightarrow> Goes True (advance 2 lx))
        else Goes (\<not> is_valid_escape (peek lx 1)) (advance 2 lx)
      else Goes False (advance 1 lx))"

subsection \<open>Output of an operation\<close>

text \<open>The cursor stays inside the input, but for one place: a backslash as the very last byte of
  an unterminated literal is stepped over as a pair.\<close>

definition within :: "lexer \<Rightarrow> bool" where
  "within lx \<longleftrightarrow> lx_pos lx \<le> length (lx_bytes lx)
     \<or> lx_pos lx = length (lx_bytes lx) + 1 \<and> lx_bytes lx \<noteq> [] \<and> last (lx_bytes lx) = CHR 0x5C"

text \<open>Spans are 32-bit: the input is short enough for every offset to fit.\<close>

definition fits :: "bytes \<Rightarrow> bool" where
  "fits bs \<longleftrightarrow> length bs + 1 < 2 ^ 32"

text \<open>The tokens lie one after the other between two offsets.\<close>

fun chain :: "nat \<Rightarrow> token list \<Rightarrow> nat \<Rightarrow> bool" where
  "chain lo [] hi \<longleftrightarrow> lo \<le> hi"
| "chain lo (t # ts) hi \<longleftrightarrow> lo \<le> span_offset (tok_span t)
     \<and> chain (span_offset (tok_span t) + span_length (tok_span t)) ts hi"

definition error_spans :: "token list \<Rightarrow> span list" where
  "error_spans ts = map tok_span (filter (\<lambda>t. tok_kind t = TkError) ts)"

definition reported_spans :: "(lexer_key \<times> diag_code \<times> span) list \<Rightarrow> span list" where
  "reported_spans ds = map (snd \<circ> snd) (filter (\<lambda>d. fst d \<noteq> LexerUnicodeEscapeNotScalar) ds)"

text \<open>\<open>scans\<close>: the cursor moved, no token was emitted, and nothing but escape values reported.\<close>

definition scans :: "lexer \<Rightarrow> lexer \<Rightarrow> bool" where
  "scans lx lx' \<longleftrightarrow> keeps lx lx' \<and> (within lx \<longrightarrow> within lx') \<and> lx_out lx' = lx_out lx
     \<and> (\<exists>ds. lx_diags lx' = lx_diags lx @ ds \<and> reported_spans ds = [])"

text \<open>\<open>emits\<close>: tokens were appended, in order and inside the bytes passed over, and every error token
  among them was reported with its span.\<close>

definition emits :: "lexer \<Rightarrow> lexer \<Rightarrow> bool" where
  "emits lx lx' \<longleftrightarrow> keeps lx lx' \<and> (within lx \<longrightarrow> within lx')
     \<and> (\<exists>ts ds. lx_out lx' = lx_out lx @ ts \<and> lx_diags lx' = lx_diags lx @ ds
          \<and> error_spans ts = reported_spans ds
          \<and> (\<forall>t \<in> set ts. span_file (tok_span t) = lx_file lx)
          \<and> (within lx \<and> fits (lx_bytes lx) \<longrightarrow> chain (lx_pos lx) ts (lx_pos lx')))"

lemma chain_append: "chain a ts b \<Longrightarrow> chain b us c \<Longrightarrow> chain a (ts @ us) c"
proof (induction ts arbitrary: a)
  case Nil
  then show ?case by (cases us) auto
qed auto

lemma spans_append [simp]:
  "error_spans (ts @ us) = error_spans ts @ error_spans us"
  "reported_spans (ds @ es) = reported_spans ds @ reported_spans es"
  by (simp_all add: error_spans_def reported_spans_def)

lemma emits_trans:
  assumes ab: "emits a b" and bc: "emits b c"
  shows "emits a c"
proof -
  from ab obtain ts ds where 1: "lx_out b = lx_out a @ ts" "lx_diags b = lx_diags a @ ds"
    "error_spans ts = reported_spans ds" "\<forall>t \<in> set ts. span_file (tok_span t) = lx_file a"
    "within a \<and> fits (lx_bytes a) \<longrightarrow> chain (lx_pos a) ts (lx_pos b)"
    unfolding emits_def by blast
  from bc obtain us es where 2: "lx_out c = lx_out b @ us" "lx_diags c = lx_diags b @ es"
    "error_spans us = reported_spans es" "\<forall>t \<in> set us. span_file (tok_span t) = lx_file b"
    "within b \<and> fits (lx_bytes b) \<longrightarrow> chain (lx_pos b) us (lx_pos c)"
    unfolding emits_def by blast
  have fr: "keeps a b" "keeps b c" "within a \<longrightarrow> within b" "within b \<longrightarrow> within c"
    using ab bc unfolding emits_def by blast+
  then have "lx_bytes b = lx_bytes a" "lx_file b = lx_file a" by (simp_all add: keeps_def)
  with 1 2 fr show ?thesis unfolding emits_def
    by (intro conjI exI [of _ "ts @ us"] exI [of _ "ds @ es"])
      (auto intro: keeps_trans chain_append)
qed

lemma scans_emits: "scans lx lx' \<Longrightarrow> emits lx lx'"
  unfolding scans_def emits_def by (auto simp: error_spans_def keeps_def)

lemma scans_refl [simp]: "scans lx lx"
  by (simp add: scans_def reported_spans_def)

lemma emits_refl [simp]: "emits lx lx"
  by (simp add: scans_emits)

lemma scans_trans:
  assumes "scans a b" "scans b c"
  shows "scans a c"
proof -
  from assms obtain ds es where "lx_diags b = lx_diags a @ ds" "reported_spans ds = []"
    "lx_diags c = lx_diags b @ es" "reported_spans es = []" unfolding scans_def by blast
  then have "lx_diags c = lx_diags a @ (ds @ es)" "reported_spans (ds @ es) = []" by simp_all
  then show ?thesis using assms keeps_trans unfolding scans_def by metis
qed

lemma scans_keeps: "scans a b \<Longrightarrow> keeps a b"
  by (simp add: scans_def)

lemma emits_keeps: "emits a b \<Longrightarrow> keeps a b"
  by (simp add: emits_def)

lemma scans_move:
  "lx_pos lx \<le> p \<Longrightarrow> p \<le> length (lx_bytes lx) \<Longrightarrow> scans lx (lx\<lparr>lx_pos := p\<rparr>)"
  by (simp add: scans_def keeps_def within_def reported_spans_def)

lemma scans_advance: "lx_pos lx + n \<le> length (lx_bytes lx) \<Longrightarrow> scans lx (advance n lx)"
  by (simp add: advance_def scans_move)

lemma scans_advance_peek: "peek lx k \<noteq> CHR 0x00 \<Longrightarrow> n \<le> k + 1 \<Longrightarrow> scans lx (advance n lx)"
  using peek_inside by (intro scans_advance) fastforce

lemma scans_advance_while [lex_simps]: "scans lx (advance_while p lx)"
proof (induction p lx rule: advance_while.induct)
  case (1 p lx)
  have "\<not> at_end lx \<Longrightarrow> scans lx (advance 1 lx)" by (rule scans_advance) (simp add: at_end_def)
  with 1 show ?case by (subst advance_while.simps) (auto intro: scans_trans)
qed

lemma block_comment_scans [lex_simps]: "scans lx (snd (block_comment_loop depth lx))"
proof (induction depth lx rule: block_comment_loop.induct)
  case (1 depth lx)
  have one: "\<not> at_end lx \<Longrightarrow> scans lx (advance 1 lx)"
    by (rule scans_advance) (simp add: at_end_def)
  have two: "peek lx 1 = CHR ''*'' \<or> peek lx 1 = CHR ''/'' \<Longrightarrow> scans lx (advance 2 lx)"
    by (rule scans_advance_peek [of _ 1]) auto
  from 1 one two show ?case by (subst block_comment_loop.simps) (auto intro: scans_trans)
qed

lemma span_at_small:
  "within lx \<Longrightarrow> fits (lx_bytes lx) \<Longrightarrow> start + len \<le> lx_pos lx \<Longrightarrow>
     span_offset (span_at lx start len) = start \<and> span_length (span_at lx start len) = len"
  by (auto simp: span_at_def within_def fits_def)

text \<open>Emitting one token for bytes already scanned over.\<close>

lemma emits_token:
  assumes "scans lx lx1" "lx_pos lx \<le> start" "start + len \<le> lx_pos lx1" "kind \<noteq> TkError"
  shows "emits lx (push_token kind (span_at lx1 start len) lx1)"
proof -
  let ?t = "\<lparr>tok_kind = kind, tok_span = span_at lx1 start len\<rparr>"
  from assms(1) obtain ds where ds: "lx_diags lx1 = lx_diags lx @ ds" "reported_spans ds = []"
    "lx_out lx1 = lx_out lx" "keeps lx lx1" "within lx \<longrightarrow> within lx1" unfolding scans_def by blast
  then have "lx_bytes lx1 = lx_bytes lx" "lx_file lx1 = lx_file lx" by (simp_all add: keeps_def)
  with ds assms(2-4) span_at_small [of lx1 start len] show ?thesis unfolding emits_def
    by (intro conjI exI [of _ "[?t]"] exI [of _ ds])
      (auto simp: push_token_def keeps_def within_def error_spans_def span_at_def)
qed

lemma emits_accept:
  assumes "scans lx lx1" "lx_pos lx \<le> start" "start + len \<le> lx_pos lx1" "kind \<noteq> TkError"
  shows "emits lx (accept kind start len lx1)"
proof -
  have "scans lx (lx1\<lparr>lx_last := kind\<rparr>)"
    using assms(1) by (auto simp: scans_def keeps_def within_def)
  from emits_token [OF this, of start len kind] assms(2-4) show ?thesis
    by (simp add: accept_def span_at_def)
qed

lemma emits_error:
  assumes "scans lx lx1" "lx_pos lx \<le> start" "start + len \<le> lx_pos lx1"
    "key \<noteq> LexerUnicodeEscapeNotScalar"
  shows "emits lx (emit_error key start len code lx1)"
proof -
  let ?sp = "span_at lx1 start len"
  let ?t = "\<lparr>tok_kind = TkError, tok_span = ?sp\<rparr>"
  from assms(1) obtain ds where ds: "lx_diags lx1 = lx_diags lx @ ds" "reported_spans ds = []"
    "lx_out lx1 = lx_out lx" "keeps lx lx1" "within lx \<longrightarrow> within lx1" unfolding scans_def by blast
  then have "lx_bytes lx1 = lx_bytes lx" "lx_file lx1 = lx_file lx" by (simp_all add: keeps_def)
  with ds assms(2-4) span_at_small [of lx1 start len] show ?thesis unfolding emits_def
    by (intro conjI exI [of _ "[?t]"] exI [of _ "ds @ [(key, code, ?sp)]"])
      (auto simp: emit_error_def push_token_def report_def keeps_def within_def error_spans_def
        reported_spans_def span_at_def)
qed

subsection \<open>The literal loops\<close>

lemma backslash_pair:
  assumes "peek lx 0 = CHR 0x5C"
  shows "scans lx (advance 2 lx)"
proof (cases "lx_pos lx + 2 \<le> length (lx_bytes lx)")
  case True
  then show ?thesis by (rule scans_advance)
next
  case False
  have p: "lx_pos lx < length (lx_bytes lx)" using assms peek_inside [of lx 0] by simp
  with False have "lx_pos lx = length (lx_bytes lx) - 1" by simp
  moreover have "lx_bytes lx \<noteq> []" using p by auto
  ultimately have "last (lx_bytes lx) = CHR 0x5C"
    using p assms by (simp add: peek_def last_conv_nth split: if_splits)
  with p False show ?thesis
    by (auto simp: scans_def keeps_def within_def advance_def reported_spans_def)
qed

lemma hex_run_ge: "i \<le> fst (hex_run bs i code)"
  by (induction bs i code rule: hex_run.induct) (subst hex_run.simps, auto)

lemma unicode_escape_bounds:
  "unicode_escape bs pos = Some (i, code) \<Longrightarrow> pos + 3 < i \<and> i < length bs"
  using hex_run_ge [of "pos + 3" bs 0] by (auto simp: unicode_escape_def split: if_splits prod.splits)

lemma scans_unicode_report:
  "scans lx lx' \<Longrightarrow> scans lx (report LexerUnicodeEscapeNotScalar code sp lx')"
  unfolding scans_def by (auto simp: report_def keeps_def within_def reported_spans_def)

lemma string_step_scans:
  assumes "\<not> at_end lx"
  shows "string_step lx = Goes b lx' \<Longrightarrow> scans lx lx' \<and> lx_pos lx < lx_pos lx'"
    and "string_step lx = Closed lx' \<Longrightarrow> scans lx lx' \<and> lx_pos lx < lx_pos lx'"
proof -
  have one: "scans lx (advance 1 lx)" using assms by (intro scans_advance) (simp add: at_end_def)
  have esc: "scans lx ((if not_scalar code then report LexerUnicodeEscapeNotScalar InvalidEscape sp lx
      else lx)\<lparr>lx_pos := i + 1\<rparr>)" if "unicode_escape (lx_bytes lx) (lx_pos lx) = Some (i, code)" for i code sp
  proof -
    have "scans lx (lx\<lparr>lx_pos := i + 1\<rparr>)"
      using unicode_escape_bounds [OF that] by (intro scans_move) auto
    moreover have "(report k c sp lx)\<lparr>lx_pos := p\<rparr> = report k c sp (lx\<lparr>lx_pos := p\<rparr>)" for k c p
      by (cases lx) (simp add: report_def)
    ultimately show ?thesis by (simp add: scans_unicode_report)
  qed
  assume "string_step lx = Goes b lx'"
  then show "scans lx lx' \<and> lx_pos lx < lx_pos lx'"
    using one backslash_pair [of lx] esc unicode_escape_bounds [of "lx_bytes lx" "lx_pos lx"]
    by (auto simp: string_step_def Let_def report_def split: if_splits option.splits)
next
  have one: "scans lx (advance 1 lx)" using assms by (intro scans_advance) (simp add: at_end_def)
  assume "string_step lx = Closed lx'"
  with one show "scans lx lx' \<and> lx_pos lx < lx_pos lx'"
    by (auto simp: string_step_def Let_def split: if_splits option.splits)
qed

lemma char_step_scans:
  assumes "\<not> at_end lx"
  shows "char_step lx = Goes b lx' \<Longrightarrow> scans lx lx' \<and> lx_pos lx < lx_pos lx'"
    and "char_step lx = Closed lx' \<Longrightarrow> scans lx lx' \<and> lx_pos lx < lx_pos lx'"
proof -
  have one: "scans lx (advance 1 lx)" using assms by (intro scans_advance) (simp add: at_end_def)
  have esc: "scans lx (lx\<lparr>lx_pos := i + 1\<rparr>)"
    if "unicode_escape (lx_bytes lx) (lx_pos lx) = Some (i, code)" for i code
    using unicode_escape_bounds [OF that] by (intro scans_move) auto
  assume "char_step lx = Goes b lx'"
  then show "scans lx lx' \<and> lx_pos lx < lx_pos lx'"
    using one backslash_pair [of lx] esc unicode_escape_bounds [of "lx_bytes lx" "lx_pos lx"]
    by (auto simp: char_step_def Let_def split: if_splits option.splits)
next
  have one: "scans lx (advance 1 lx)" using assms by (intro scans_advance) (simp add: at_end_def)
  assume "char_step lx = Closed lx'"
  with one show "scans lx lx' \<and> lx_pos lx < lx_pos lx'"
    by (auto simp: char_step_def Let_def split: if_splits option.splits)
qed

text \<open>The loops return whether the closing quote was met, whether an escape was bad and, for a
  character, whether nothing stood between the quotes.\<close>

function string_loop :: "bool \<Rightarrow> lexer \<Rightarrow> bool \<times> bool \<times> lexer" where
  "string_loop bad_escape lx =
     (if at_end lx then (False, bad_escape, lx)
      else case string_step lx of
             Closed lx' \<Rightarrow> (True, bad_escape, lx')
           | Broken \<Rightarrow> (False, bad_escape, lx)
           | Goes bad lx' \<Rightarrow> string_loop (bad_escape \<or> bad) lx')"
  by pat_completeness auto
termination
proof (relation "measure (\<lambda>(bad, lx). length (lx_bytes lx) - lx_pos lx)")
  fix b lx bad lx' assume "\<not> at_end lx" "string_step lx = Goes bad lx'"
  from string_step_scans(1) [OF this] this(1)
  show "((b \<or> bad, lx'), b, lx) \<in> measure (\<lambda>(bad, lx). length (lx_bytes lx) - lx_pos lx)"
    by (auto simp: scans_def keeps_def at_end_def)
qed simp

function char_loop :: "bool \<Rightarrow> bool \<Rightarrow> lexer \<Rightarrow> bool \<times> bool \<times> bool \<times> lexer" where
  "char_loop no_chars bad_escape lx =
     (if at_end lx then (False, no_chars, bad_escape, lx)
      else case char_step lx of
             Closed lx' \<Rightarrow> (True, no_chars, bad_escape, lx')
           | Broken \<Rightarrow> (False, no_chars, bad_escape, lx)
           | Goes bad lx' \<Rightarrow> char_loop False (bad_escape \<or> bad) lx')"
  by pat_completeness auto
termination
proof (relation "measure (\<lambda>(no_chars, bad, lx). length (lx_bytes lx) - lx_pos lx)")
  fix e b lx bad lx' assume "\<not> at_end lx" "char_step lx = Goes bad lx'"
  from char_step_scans(1) [OF this] this(1)
  show "((False, b \<or> bad, lx'), e, b, lx) \<in> measure (\<lambda>(no_chars, bad, lx). length (lx_bytes lx) - lx_pos lx)"
    by (auto simp: scans_def keeps_def at_end_def)
qed simp

declare string_loop.simps [simp del] char_loop.simps [simp del]

definition lex_string :: "lexer \<Rightarrow> lexer" where
  "lex_string lx =
     (let start = lx_pos lx in
      case string_loop False (advance 1 lx) of
        (terminated, bad_escape, lx1) \<Rightarrow>
          if \<not> terminated
          then emit_error LexerUnterminatedString start (lx_pos lx1 - start) UnterminatedString lx1
          else if bad_escape
          then emit_error LexerInvalidEscapeInString start (lx_pos lx1 - start) InvalidEscape lx1
          else accept TkString start (lx_pos lx1 - start) lx1)"

definition lex_char :: "lexer \<Rightarrow> lexer" where
  "lex_char lx =
     (let start = lx_pos lx in
      case char_loop True False (advance 1 lx) of
        (terminated, no_chars, bad_escape, lx1) \<Rightarrow>
          if \<not> terminated
          then emit_error LexerUnterminatedCharacter start (lx_pos lx1 - start) UnterminatedChar lx1
          else if no_chars
          then emit_error LexerEmptyCharacter start (lx_pos lx1 - start) InvalidChar lx1
          else if bad_escape
          then emit_error LexerInvalidEscapeInCharacter start (lx_pos lx1 - start) InvalidEscape lx1
          else accept TkChar start (lx_pos lx1 - start) lx1)"

lemma string_loop_scans: "string_loop bad lx = (t, b, lx') \<Longrightarrow> scans lx lx'"
proof (induction bad lx arbitrary: t b lx' rule: string_loop.induct)
  case (1 bad lx)
  show ?case
  proof (cases "at_end lx")
    case True
    with "1.prems" show ?thesis by (subst (asm) string_loop.simps) simp
  next
    case False
    note step = string_step_scans [OF this]
    show ?thesis
    proof (cases "string_step lx")
      case (Goes x lx2)
      with False "1.prems" "1.IH" [OF False Goes] have "scans lx2 lx'"
        by (simp add: string_loop.simps [of bad lx])
      with step(1) [OF Goes] show ?thesis using scans_trans by blast
    qed (use "1.prems" False step in \<open>subst (asm) string_loop.simps, auto\<close>)+
  qed
qed

lemma char_loop_scans: "char_loop e bad lx = (t, e', b, lx') \<Longrightarrow> scans lx lx'"
proof (induction e bad lx arbitrary: t e' b lx' rule: char_loop.induct)
  case (1 e bad lx)
  show ?case
  proof (cases "at_end lx")
    case True
    with "1.prems" show ?thesis by (subst (asm) char_loop.simps) simp
  next
    case False
    note step = char_step_scans [OF this]
    show ?thesis
    proof (cases "char_step lx")
      case (Goes x lx2)
      with False "1.prems" "1.IH" [OF False Goes] have "scans lx2 lx'"
        by (simp add: char_loop.simps [of e bad lx])
      with step(1) [OF Goes] show ?thesis using scans_trans by blast
    qed (use "1.prems" False step in \<open>subst (asm) char_loop.simps, auto\<close>)+
  qed
qed

end
