(* ===== verification/Lexer.thy ===== *)
theory Lexer
  imports Lexer_Scan
begin

text \<open>
  Symbols, the driver \<^verbatim>\<open>Lexer::tokenize\<close> and the token-stream verifier of
  \<^verbatim>\<open>src/src/lexer/lexer.{h,cc}\<close>, and what holds of every token stream the lexer produces.
\<close>

subsection \<open>Symbols\<close>

text \<open>The \<^verbatim>\<open>switch\<close> over the byte \<open>c\<close> and the two after it: the kind and its width, \<^term>\<open>TkError\<close> for
  a byte no symbol starts with.\<close>

definition symbol_of :: "char \<Rightarrow> char \<Rightarrow> char \<Rightarrow> token_kind \<times> nat" where
  "symbol_of c n m =
     (if c = CHR ''('' then (TkLParen, 1)
      else if c = CHR '')'' then (TkRParen, 1)
      else if c = CHR ''{'' then (TkLBrace, 1)
      else if c = CHR ''}'' then (TkRBrace, 1)
      else if c = CHR ''['' then (TkLBracket, 1)
      else if c = CHR '']'' then (TkRBracket, 1)
      else if c = CHR '','' then (TkComma, 1)
      else if c = CHR '';'' then (TkSemicolon, 1)
      else if c = CHR ''?'' then (TkQuestion, 1)
      else if c = CHR ''#'' then (TkHash, 1)
      else if c = CHR ''~'' then (TkTilde, 1)
      else if c = CHR ''.'' then
        if n = CHR ''.'' \<and> m = CHR ''='' then (TkDotDotEq, 3)
        else if n = CHR ''.'' \<and> m = CHR ''<'' then (TkDotDotLess, 3)
        else if n = CHR ''.'' then (TkDotDot, 2) else (TkDot, 1)
      else if c = CHR '':'' then
        if n = CHR '':'' then (TkColonColon, 2)
        else if n = CHR ''='' then (TkColonEq, 2) else (TkColon, 1)
      else if c = CHR ''='' then
        if n = CHR ''='' then (TkEqEq, 2)
        else if n = CHR ''>'' then (TkFatArrow, 2) else (TkEq, 1)
      else if c = CHR ''!'' then if n = CHR ''='' then (TkBangEq, 2) else (TkBang, 1)
      else if c = CHR ''>'' then
        if n = CHR ''>'' \<and> m = CHR ''='' then (TkGreaterGreaterEq, 3)
        else if n = CHR ''>'' then (TkGreaterGreater, 2)
        else if n = CHR ''='' then (TkGreaterEq, 2) else (TkGreater, 1)
      else if c = CHR ''<'' then
        if n = CHR ''<'' \<and> m = CHR ''='' then (TkLessLessEq, 3)
        else if n = CHR ''<'' then (TkLessLess, 2)
        else if n = CHR ''='' then (TkLessEq, 2) else (TkLess, 1)
      else if c = CHR ''+'' then if n = CHR ''='' then (TkPlusEq, 2) else (TkPlus, 1)
      else if c = CHR ''-'' then
        if n = CHR ''='' then (TkMinusEq, 2)
        else if n = CHR ''>'' then (TkArrow, 2) else (TkMinus, 1)
      else if c = CHR ''*'' then
        if n = CHR ''*'' \<and> m = CHR ''='' then (TkStarStarEq, 3)
        else if n = CHR ''*'' then (TkStarStar, 2)
        else if n = CHR ''='' then (TkStarEq, 2) else (TkStar, 1)
      else if c = CHR ''/'' then if n = CHR ''='' then (TkSlashEq, 2) else (TkSlash, 1)
      else if c = CHR ''%'' then if n = CHR ''='' then (TkPercentEq, 2) else (TkPercent, 1)
      else if c = CHR ''&'' then
        if n = CHR ''&'' then (TkAmpAmp, 2)
        else if n = CHR ''='' then (TkAmpEq, 2) else (TkAmp, 1)
      else if c = CHR ''|'' then
        if n = CHR ''|'' then (TkPipePipe, 2)
        else if n = CHR ''='' then (TkPipeEq, 2) else (TkPipe, 1)
      else if c = CHR ''^'' then if n = CHR ''='' then (TkCaretEq, 2) else (TkCaret, 1)
      else (TkError, 1))"

text \<open>How many bytes a UTF-8 lead byte promises.\<close>

definition utf8_promise :: "u8 \<Rightarrow> nat" where
  "utf8_promise lead =
     (if lead AND 0xE0 = 0xC0 then 2
      else if lead AND 0xF0 = 0xE0 then 3
      else if lead AND 0xF8 = 0xF0 then 4
      else 1)"

function scalar_run :: "bytes \<Rightarrow> nat \<Rightarrow> nat \<Rightarrow> nat \<Rightarrow> nat" where
  "scalar_run bs pos promise scalar =
     (if scalar < promise \<and> pos + scalar < length bs \<and> byte_of (bs ! (pos + scalar)) AND 0xC0 = 0x80
      then scalar_run bs pos promise (scalar + 1) else scalar)"
  by pat_completeness auto
termination by (relation "measure (\<lambda>(bs, pos, promise, scalar). promise - scalar)") auto

declare scalar_run.simps [simp del]

definition lex_symbol :: "lexer \<Rightarrow> lexer" where
  "lex_symbol lx =
     (let start = lx_pos lx; c = peek lx 0 in
      case symbol_of c (peek lx 1) (peek lx 2) of
        (kind, width) \<Rightarrow>
          if kind = TkError
          then let run = scalar_run (lx_bytes lx) start (utf8_promise (byte_of c)) 1;
                   scalar = (if start + run > length (lx_bytes lx)
                             then length (lx_bytes lx) - start else run)
               in advance scalar (emit_error LexerInvalidCharacter start scalar InvalidChar lx)
          else accept kind start width (advance width lx))"

subsection \<open>The driver\<close>

definition lex_one :: "lexer \<Rightarrow> lexer" where
  "lex_one lx =
     (let c = peek lx 0 in
      if c = CHR 0x00
      then advance 1 (emit_error LexerInvalidCharacter (lx_pos lx) 1 InvalidChar lx)
      else if is_alpha c \<or> c = CHR ''_'' then lex_identifier lx
      else if is_digit c then lex_number lx
      else if c = CHR 0x22 then lex_string lx
      else if c = CHR 0x27 then lex_char lx
      else lex_symbol lx)"

subsection \<open>Every operation emits in order and moves on\<close>

lemma emits_errorI:
  assumes "scans lx lx1" "key \<noteq> LexerUnicodeEscapeNotScalar"
  shows "emits lx (emit_error key (lx_pos lx) (lx_pos lx1 - lx_pos lx) code lx1)"
  using assms scans_keeps [OF assms(1)] by (intro emits_error) (auto simp: keeps_def)

lemma emits_acceptI:
  assumes "scans lx lx1" "kind \<noteq> TkError"
  shows "emits lx (accept kind (lx_pos lx) (lx_pos lx1 - lx_pos lx) lx1)"
  using assms scans_keeps [OF assms(1)] by (intro emits_accept) (auto simp: keeps_def)

lemma word_kind_not_error:
  assumes "start < length bs" "0 < len" "start + len \<le> length bs"
  shows "word_kind big bs start len \<noteq> TkError"
proof -
  let ?w = "take len (drop start bs)"
  have w: "?w \<noteq> []" "length ?w = len" "drop start bs = ?w @ drop len (drop start bs)"
    using assms by (auto simp only: append_take_drop_id) auto
  have "lookup_keyword len (spelling_key big (drop start bs) len (length bs - start))
      = Some (keyword_of_word ?w)"
    using classify_word [OF w(1), of big "drop len (drop start bs)"] w(2)
    by (simp only: w(3) [symmetric] length_drop)
  moreover have "keyword_of_word v \<noteq> TkError" for v
  proof -
    have "\<forall>kw \<in> set KEYWORDS. snd kw \<noteq> TkError" by (simp add: KEYWORDS_def)
    then have "map_of KEYWORDS v \<noteq> Some TkError" using map_of_SomeD by fastforce
    then show ?thesis by (auto simp: keyword_of_word_def split: option.splits)
  qed
  ultimately show ?thesis by (simp add: word_kind_def)
qed

lemma skip_index_le: "i \<le> length bs \<Longrightarrow> skip_index p bs i \<le> length bs"
  by (induction p bs i rule: skip_index.induct) (subst skip_index.simps, auto)

lemma lex_identifier_emits:
  assumes "\<not> at_end lx" "is_alpha (peek lx 0) \<or> peek lx 0 = CHR ''_''"
  shows "emits lx (lex_identifier lx) \<and> lx_pos lx < lx_pos (lex_identifier lx)"
proof -
  let ?bs = "lx_bytes lx" and ?s = "lx_pos lx"
  let ?e = "skip_index is_alnum_or_underscore ?bs ?s"
  have s: "?s < length ?bs" using assms(1) by (simp add: at_end_def)
  have "is_alnum_or_underscore (?bs ! ?s)"
    using assms(2) s by (auto simp: peek_def is_alnum_or_underscore_iff)
  then have "?e = skip_index is_alnum_or_underscore ?bs (?s + 1)"
    using s by (subst skip_index.simps) simp
  then have gt: "?s < ?e" using skip_index_ge [of "?s + 1"] by (simp add: Suc_le_eq)
  have le: "?e \<le> length ?bs" using s by (intro skip_index_le) simp
  have "scans lx (lx\<lparr>lx_pos := ?e\<rparr>)" using gt le by (intro scans_move) auto
  moreover have "word_kind (lx_big_endian lx) ?bs ?s (?e - ?s) \<noteq> TkError"
    using s gt le by (intro word_kind_not_error) auto
  ultimately show ?thesis using emits_acceptI [of lx "lx\<lparr>lx_pos := ?e\<rparr>"] gt
    by (simp add: lex_identifier_def Let_def)
qed

lemma base_digits_scans: "base_digits base c u lx = (c', u', lx') \<Longrightarrow> scans lx lx'"
proof (induction base c u lx arbitrary: c' u' lx' rule: base_digits.induct)
  case (1 base c u lx)
  show ?case
  proof (cases "\<not> at_end lx \<and> in_base base (peek lx 0)")
    case True
    then have "scans lx (advance 1 lx)" by (intro scans_advance) (simp add: at_end_def)
    moreover have "scans (advance 1 lx) lx'"
      using "1.IH" [OF True] "1.prems" True by (simp add: base_digits.simps [of base c u lx])
    ultimately show ?thesis by (rule scans_trans)
  next
    case False
    with "1.prems" show ?thesis by (simp add: base_digits.simps [of base c u lx])
  qed
qed

lemma advance_while_gt:
  assumes "\<not> at_end lx" "p (peek lx 0)"
  shows "lx_pos lx < lx_pos (advance_while p lx)"
proof -
  have "advance_while p lx = advance_while p (advance 1 lx)"
    using assms by (subst advance_while.simps) simp
  then show ?thesis using keeps_pos [OF keeps_advance_while, of "advance 1 lx" p] by simp
qed

lemma scans_while_after: "scans lx lx1 \<Longrightarrow> scans lx (advance_while p lx1)"
  using scans_trans [OF _ scans_advance_while] .

lemma number_error_emits: "scans lx lx1 \<Longrightarrow> emits lx (number_error (lx_pos lx) lx1)"
  unfolding number_error_def by (rule emits_errorI) simp_all

lemma pos_number_error [simp]: "lx_pos (number_error start lx) = lx_pos lx"
  by (simp add: number_error_def)

lemma lex_suffix_scans: "scans lx (lex_suffix lx)"
proof (cases "\<not> at_end lx \<and> (is_alpha (peek lx 0) \<or> peek lx 0 = CHR ''_'')")
  case True
  then have "scans lx (advance 1 lx)" by (intro scans_advance) (simp add: at_end_def)
  with True show ?thesis by (simp add: lex_suffix_def scans_while_after)
qed (auto simp: lex_suffix_def)

lemma finish_number_emits:
  assumes "scans lx lx1" "lx_pos lx < lx_pos lx1"
  shows "emits lx (finish_number (lx_pos lx) f lx1) \<and> lx_pos lx < lx_pos (finish_number (lx_pos lx) f lx1)"
proof -
  have s: "scans lx (lex_suffix lx1)" using scans_trans [OF assms(1) lex_suffix_scans] .
  have "lx_pos lx1 \<le> lx_pos (lex_suffix lx1)" by (rule keeps_pos [OF scans_keeps [OF lex_suffix_scans]])
  with s assms(2) emits_acceptI [OF s] show ?thesis by (simp add: finish_number_def Let_def)
qed

lemma lex_based_scans:
  assumes "scans lx lx0" "lx_pos lx < lx_pos lx0"
  shows "lex_based (lx_pos lx) base lx0 = Inl lx1 \<Longrightarrow> emits lx lx1 \<and> lx_pos lx < lx_pos lx1"
    and "lex_based (lx_pos lx) base lx0 = Inr lx1 \<Longrightarrow> scans lx lx1 \<and> lx_pos lx < lx_pos lx1"
proof -
  obtain c u l where d: "base_digits base 0 False lx0 = (c, u, l)" using prod_cases3 by blast
  have sl: "scans lx l" using scans_trans [OF assms(1) base_digits_scans [OF d]] .
  have "lx_pos lx0 \<le> lx_pos l" using keeps_pos [OF scans_keeps [OF base_digits_scans [OF d]]] .
  then have gt: "lx_pos lx < lx_pos l" using assms(2) by simp
  have gt': "lx_pos lx < lx_pos (advance_while p l)" for p
    using gt keeps_pos [OF keeps_advance_while, of l p] by simp
  note facts = sl gt gt' scans_while_after [OF sl] number_error_emits d
  show "lex_based (lx_pos lx) base lx0 = Inl lx1 \<Longrightarrow> emits lx lx1 \<and> lx_pos lx < lx_pos lx1"
    and "lex_based (lx_pos lx) base lx0 = Inr lx1 \<Longrightarrow> scans lx lx1 \<and> lx_pos lx < lx_pos lx1"
    using facts by (auto simp: lex_based_def split: if_splits)
qed

lemma lex_fraction_scans: "scans lx (snd (lex_fraction lx))"
proof (cases "peek lx 0 = CHR ''.''")
  case True
  then have "scans lx (advance 1 lx)" by (intro scans_advance_peek [of _ 0]) simp_all
  then show ?thesis by (simp add: lex_fraction_def Let_def scans_while_after)
qed (simp add: lex_fraction_def)

lemma lex_exponent_scans: "scans lx (snd (lex_exponent lx))"
proof (cases "peek lx 0 = CHR ''e'' \<or> peek lx 0 = CHR ''E''")
  case True
  then have s: "scans lx (advance 1 lx)" by (intro scans_advance_peek [of _ 0]) auto
  have "peek (advance 1 lx) 0 = CHR ''+'' \<or> peek (advance 1 lx) 0 = CHR ''-'' \<Longrightarrow>
      scans (advance 1 lx) (advance 1 (advance 1 lx))"
    by (intro scans_advance_peek [of _ 0]) auto
  then show ?thesis using s scans_trans [OF s] by (simp add: lex_exponent_def Let_def scans_while_after)
qed (simp add: lex_exponent_def)

lemma lex_decimal_scans:
  assumes "\<not> at_end lx" "is_digit (peek lx 0)"
  shows "lex_decimal (lx_pos lx) lx = Inl lx1 \<Longrightarrow> emits lx lx1 \<and> lx_pos lx < lx_pos lx1"
    and "lex_decimal (lx_pos lx) lx = Inr (f, lx1) \<Longrightarrow> scans lx lx1 \<and> lx_pos lx < lx_pos lx1"
proof -
  let ?a = "advance_while digit_or_underscore lx"
  let ?b = "snd (lex_fraction ?a)"
  let ?c = "snd (lex_exponent ?b)"
  have "scans lx ?c" "scans ?a ?c"
    using scans_trans scans_advance_while lex_fraction_scans lex_exponent_scans by blast+
  moreover have "lx_pos lx < lx_pos ?a"
    using assms by (intro advance_while_gt) (simp_all add: digit_or_underscore_def)
  ultimately have c: "scans lx ?c" "lx_pos lx < lx_pos ?c"
    using keeps_pos [OF scans_keeps, of ?a ?c] by auto
  show "lex_decimal (lx_pos lx) lx = Inl lx1 \<Longrightarrow> emits lx lx1 \<and> lx_pos lx < lx_pos lx1"
    and "lex_decimal (lx_pos lx) lx = Inr (f, lx1) \<Longrightarrow> scans lx lx1 \<and> lx_pos lx < lx_pos lx1"
    using c number_error_emits [OF c(1)]
    by (auto simp: lex_decimal_def split: prod.splits if_splits)
qed

lemma lex_number_emits:
  assumes "\<not> at_end lx" "is_digit (peek lx 0)"
  shows "emits lx (lex_number lx) \<and> lx_pos lx < lx_pos (lex_number lx)"
proof (cases "peek lx 0 = CHR ''0'' \<and>
    peek lx 1 \<in> {CHR ''b'', CHR ''B'', CHR ''o'', CHR ''O'', CHR ''x'', CHR ''X''}")
  case True
  then have "scans lx (advance 2 lx)" by (intro scans_advance_peek [of _ 1]) auto
  note based = lex_based_scans [OF this, of "peek lx 1"]
  show ?thesis
  proof (cases "lex_based (lx_pos lx) (peek lx 1) (advance 2 lx)")
    case (Inl l)
    with True based(1) [of l] show ?thesis by (simp add: lex_number_def Let_def)
  next
    case (Inr l)
    with True based(2) [of l] finish_number_emits [of lx l False] show ?thesis
      by (simp add: lex_number_def Let_def)
  qed
next
  case False
  show ?thesis
  proof (cases "lex_decimal (lx_pos lx) lx")
    case (Inl l)
    with False lex_decimal_scans(1) [OF assms Inl] show ?thesis by (auto simp: lex_number_def Let_def)
  next
    case (Inr p)
    obtain f l where p: "p = (f, l)" by fastforce
    with Inr False lex_decimal_scans(2) [OF assms] finish_number_emits [of lx l f] show ?thesis
      by (auto simp: lex_number_def Let_def)
  qed
qed

lemma lex_string_emits:
  assumes "\<not> at_end lx"
  shows "emits lx (lex_string lx) \<and> lx_pos lx < lx_pos (lex_string lx)"
proof -
  obtain t b l where r: "string_loop False (advance 1 lx) = (t, b, l)" using prod_cases3 by blast
  have "scans lx (advance 1 lx)" using assms by (intro scans_advance) (simp add: at_end_def)
  then have s: "scans lx l" using string_loop_scans [OF r] scans_trans by blast
  have "lx_pos lx < lx_pos l" using keeps_pos [OF scans_keeps [OF string_loop_scans [OF r]]] by simp
  with r emits_errorI [OF s] emits_acceptI [OF s] show ?thesis by (simp add: lex_string_def Let_def)
qed

lemma lex_char_emits:
  assumes "\<not> at_end lx"
  shows "emits lx (lex_char lx) \<and> lx_pos lx < lx_pos (lex_char lx)"
proof -
  obtain t e b l where r: "char_loop True False (advance 1 lx) = (t, e, b, l)" using prod_cases4 by blast
  have "scans lx (advance 1 lx)" using assms by (intro scans_advance) (simp add: at_end_def)
  then have s: "scans lx l" using char_loop_scans [OF r] scans_trans by blast
  have "lx_pos lx < lx_pos l" using keeps_pos [OF scans_keeps [OF char_loop_scans [OF r]]] by simp
  with r emits_errorI [OF s] emits_acceptI [OF s] show ?thesis by (simp add: lex_char_def Let_def)
qed

text \<open>An error token for the next bytes, and then the step over them.\<close>

lemma error_then_advance:
  assumes "0 < n" "lx_pos lx + n \<le> length (lx_bytes lx)" "key \<noteq> LexerUnicodeEscapeNotScalar"
  shows "emits lx (advance n (emit_error key (lx_pos lx) n code lx))
       \<and> lx_pos lx < lx_pos (advance n (emit_error key (lx_pos lx) n code lx))"
proof -
  have "advance n (emit_error key (lx_pos lx) n code lx) = emit_error key (lx_pos lx) n code (advance n lx)"
    by (cases lx) (simp add: advance_def emit_error_def push_token_def report_def span_at_def)
  moreover have "emits lx (emit_error key (lx_pos lx) n code (advance n lx))"
    using assms by (intro emits_error scans_advance) simp_all
  ultimately show ?thesis using assms(1) by simp
qed

lemma scalar_run_ge: "scalar \<le> scalar_run bs pos promise scalar"
  by (induction bs pos promise scalar rule: scalar_run.induct) (subst scalar_run.simps, auto)

lemma symbol_width:
  assumes "symbol_of c n m = (kind, w)"
  shows "w = 1 \<or> w = 2 \<and> n \<noteq> CHR 0x00 \<or> w = 3 \<and> n \<noteq> CHR 0x00 \<and> m \<noteq> CHR 0x00"
  using assms unfolding symbol_of_def by (auto split: if_splits)

lemma lex_symbol_emits:
  assumes "\<not> at_end lx"
  shows "emits lx (lex_symbol lx) \<and> lx_pos lx < lx_pos (lex_symbol lx)"
proof -
  obtain kind w where sym: "symbol_of (peek lx 0) (peek lx 1) (peek lx 2) = (kind, w)" by fastforce
  have pos: "lx_pos lx < length (lx_bytes lx)" using assms by (simp add: at_end_def)
  show ?thesis
  proof (cases "kind = TkError")
    case True
    let ?run = "scalar_run (lx_bytes lx) (lx_pos lx) (utf8_promise (byte_of (peek lx 0))) 1"
    define n where "n = (if lx_pos lx + ?run > length (lx_bytes lx)
        then length (lx_bytes lx) - lx_pos lx else ?run)"
    have "1 \<le> ?run" by (rule scalar_run_ge)
    then have n: "0 < n" "lx_pos lx + n \<le> length (lx_bytes lx)" using pos by (auto simp: n_def)
    have "lex_symbol lx = advance n (emit_error LexerInvalidCharacter (lx_pos lx) n InvalidChar lx)"
      using True sym by (simp only: lex_symbol_def Let_def n_def) simp
    with error_then_advance [OF n, of LexerInvalidCharacter InvalidChar] show ?thesis by simp
  next
    case False
    have "lx_pos lx + w \<le> length (lx_bytes lx)" "0 < w"
      using symbol_width [OF sym] pos peek_inside [of lx 1] peek_inside [of lx 2] by auto
    then have "emits lx (accept kind (lx_pos lx) w (advance w lx))" "0 < w"
      using False by (auto intro!: emits_accept scans_advance)
    with sym False show ?thesis by (simp add: lex_symbol_def Let_def)
  qed
qed

lemma lex_one_emits:
  assumes "\<not> at_end lx"
  shows "emits lx (lex_one lx) \<and> lx_pos lx < lx_pos (lex_one lx)"
proof -
  have pos: "lx_pos lx + 1 \<le> length (lx_bytes lx)" using assms by (simp add: at_end_def)
  show ?thesis
    unfolding lex_one_def Let_def
    using error_then_advance [OF _ pos, of LexerInvalidCharacter InvalidChar] lex_identifier_emits [OF assms]
      lex_number_emits [OF assms] lex_string_emits [OF assms] lex_char_emits [OF assms]
      lex_symbol_emits [OF assms]
    by (simp split: if_split)
qed

subsection \<open>The token stream\<close>

lemma emits_push_soft:
  "kind \<noteq> TkError \<Longrightarrow> emits lx (push_token kind (span_at lx (lx_pos lx) 0) lx)"
  by (rule emits_token) simp_all

lemma trivia_step_emits:
  assumes "\<not> at_end lx" "trivia_step lx = Some lx'"
  shows "emits lx lx'"
proof -
  have one: "scans lx (advance 1 lx)" using assms(1) by (intro scans_advance) (simp add: at_end_def)
  have nl: "emits lx (lex_newline lx)"
    using one emits_accept [OF one, of "lx_pos lx" 1 TkSemicolon]
    by (auto simp: lex_newline_def Let_def intro: scans_emits)
  have line: "emits lx (lex_line_comment lx)"
  proof (cases "peek lx 2 = CHR ''/'' \<and> peek lx 3 \<noteq> CHR ''/''")
    case True
    let ?l = "advance_while (\<lambda>c. \<not> is_newline c) (advance 3 lx)"
    have s: "scans lx ?l" using True by (intro scans_while_after scans_advance_peek [of _ 2]) simp_all
    with True emits_token [OF s, of "lx_pos lx" "lx_pos ?l - lx_pos lx" TkDocComment]
      keeps_pos [OF scans_keeps [OF s]] show ?thesis by (simp add: lex_line_comment_def Let_def)
  qed (auto simp: lex_line_comment_def scans_emits scans_advance_while)
  have block: "emits lx (lex_block_comment lx)" if "peek lx 1 = CHR ''*''"
  proof -
    obtain d l where b: "block_comment_loop 1 (advance 2 lx) = (d, l)" by fastforce
    have "scans lx (advance 2 lx)" using that by (intro scans_advance_peek [of _ 1]) simp_all
    moreover have "scans (advance 2 lx) l" using block_comment_scans [of "advance 2 lx" 1] b by simp
    ultimately have s: "scans lx l" by (rule scans_trans)
    with b emits_errorI [OF s] show ?thesis by (simp add: lex_block_comment_def Let_def scans_emits)
  qed
  from assms(2) one nl line block show ?thesis
    by (auto simp: trivia_step_def Let_def split: if_splits intro: scans_emits)
qed

lemma skip_trivia_emits: "emits lx (skip_trivia lx)"
proof (induction lx rule: skip_trivia.induct)
  case (1 lx)
  show ?case
  proof (cases "at_end lx")
    case False
    show ?thesis
    proof (cases "trivia_step lx")
      case (Some lx')
      with False 1 trivia_step_emits [OF False Some] show ?thesis
        by (simp add: skip_trivia.simps [of lx] emits_trans)
    qed (simp add: skip_trivia.simps [of lx])
  qed (simp add: skip_trivia.simps [of lx])
qed

function tokenize_loop :: "lexer \<Rightarrow> lexer" where
  "tokenize_loop lx =
     (let lx1 = skip_trivia lx in if at_end lx1 then lx1 else tokenize_loop (lex_one lx1))"
  by pat_completeness auto
termination
proof (relation "measure (\<lambda>lx. length (lx_bytes lx) - lx_pos lx)")
  fix lx lx1 assume lx1: "lx1 = skip_trivia lx" "\<not> at_end lx1"
  have "keeps lx lx1" "keeps lx1 (lex_one lx1)" "lx_pos lx1 < lx_pos (lex_one lx1)"
    using lx1 emits_keeps [OF skip_trivia_emits] lex_one_emits emits_keeps by blast+
  with lx1(2) show "(lex_one lx1, lx) \<in> measure (\<lambda>lx. length (lx_bytes lx) - lx_pos lx)"
    by (auto simp: keeps_def at_end_def)
qed simp

declare tokenize_loop.simps [simp del]

definition tokenize :: "lexer \<Rightarrow> lexer" where
  "tokenize lx =
     (let lx1 = (tokenize_loop lx)\<lparr>lx_last := TkEof\<rparr>
      in push_token TkEof (span_at lx1 (lx_pos lx1) 0) lx1)"

datatype token_stream_error = Empty | MissingEof | WrongFile | SpanOutOfRange

fun check_spans :: "token list \<Rightarrow> nat \<Rightarrow> nat \<Rightarrow> (token_stream_error, unit) result" where
  "check_spans [] file sz = Inr ()"
| "check_spans (t # ts) file sz =
     (let sp = tok_span t in
      if span_file sp \<noteq> file then Inl WrongFile
      else if span_offset sp > sz \<or> span_length sp > sz - span_offset sp then Inl SpanOutOfRange
      else check_spans ts file sz)"

definition verify_token_stream ::
    "token list \<Rightarrow> nat \<Rightarrow> bytes \<Rightarrow> (token_stream_error, unit) result" where
  "verify_token_stream tokens file bs =
     (if tokens = [] then Inl Empty
      else if tok_kind (last tokens) \<noteq> TkEof then Inl MissingEof
      else check_spans tokens file (length bs))"

definition describe_token_stream_error :: "token_stream_error \<Rightarrow> string" where
  "describe_token_stream_error e =
     (case e of
        Empty \<Rightarrow> ''token stream is empty''
      | MissingEof \<Rightarrow> ''token stream is not terminated by Eof''
      | WrongFile \<Rightarrow> ''token span names a different file''
      | SpanOutOfRange \<Rightarrow> ''token span runs past the end of the source bytes'')"

lemma tokenize_loop_emits: "emits lx (tokenize_loop lx) \<and> at_end (tokenize_loop lx)"
proof (induction lx rule: tokenize_loop.induct)
  case (1 lx)
  show ?case
  proof (cases "at_end (skip_trivia lx)")
    case True
    with skip_trivia_emits show ?thesis by (simp add: tokenize_loop.simps [of lx])
  next
    case False
    have "emits lx (lex_one (skip_trivia lx))"
      using emits_trans [OF skip_trivia_emits] lex_one_emits [OF False] by blast
    with 1 [OF refl False] False show ?thesis
      by (auto simp: tokenize_loop.simps [of lx] intro: emits_trans)
  qed
qed

text \<open>What a run over a file produces.\<close>

abbreviation lexed :: "bool \<Rightarrow> bytes \<Rightarrow> nat \<Rightarrow> lexer" where
  "lexed big bs file \<equiv> tokenize (new_lexer big bs file)"

lemma tokenize_run:
  obtains ts lx1 where "lx_out (lexed big bs fid) = ts @ [\<lparr>tok_kind = TkEof, tok_span = span_at lx1 (lx_pos lx1) 0\<rparr>]"
    and "lx_bytes lx1 = bs" "lx_file lx1 = fid" "within lx1" "length bs \<le> lx_pos lx1"
    and "error_spans ts = reported_spans (lx_diags (lexed big bs fid))"
    and "\<forall>t \<in> set ts. span_file (tok_span t) = fid"
    and "fits bs \<Longrightarrow> chain 0 ts (lx_pos lx1)"
proof -
  let ?lx = "new_lexer big bs fid"
  let ?l = "tokenize_loop ?lx"
  have e: "emits ?lx ?l" "at_end ?l" using tokenize_loop_emits [of ?lx] by auto
  have w: "within ?lx" by (simp add: within_def new_lexer_def)
  from e(1) obtain ts ds where r: "lx_out ?l = ts" "lx_diags ?l = ds" "error_spans ts = reported_spans ds"
    "\<forall>t \<in> set ts. span_file (tok_span t) = fid" "fits bs \<Longrightarrow> chain 0 ts (lx_pos ?l)" "within ?l" "keeps ?lx ?l"
    using w unfolding emits_def by (auto simp: new_lexer_def)
  let ?l1 = "?l\<lparr>lx_last := TkEof\<rparr>"
  show ?thesis
  proof (rule that [of ts ?l1])
    show "lx_out (lexed big bs fid) = ts @ [\<lparr>tok_kind = TkEof, tok_span = span_at ?l1 (lx_pos ?l1) 0\<rparr>]"
      using r(1) by (simp add: tokenize_def push_token_def Let_def)
    show "error_spans ts = reported_spans (lx_diags (lexed big bs fid))"
      using r(2,3) by (simp add: tokenize_def push_token_def Let_def)
    show "lx_bytes ?l1 = bs" "lx_file ?l1 = fid" using r(7) by (simp_all add: keeps_def new_lexer_def)
    then show "length bs \<le> lx_pos ?l1" using e(2) by (simp add: at_end_def)
    show "within ?l1" using r(6) by (simp add: within_def)
  qed (use r in simp_all)
qed

lemma chain_bounds: "chain a ts b \<Longrightarrow> a \<le> b"
proof (induction ts arbitrary: a)
  case (Cons t ts)
  have "span_offset (tok_span t) + span_length (tok_span t) \<le> b" using Cons.prems by (intro Cons.IH) simp
  with Cons.prems show ?case by simp
qed simp

lemma chain_in_range:
  "chain a ts b \<Longrightarrow> t \<in> set ts \<Longrightarrow> span_offset (tok_span t) + span_length (tok_span t) \<le> b"
proof (induction ts arbitrary: a)
  case (Cons u ts)
  then show ?case using chain_bounds [of _ ts b] by auto
qed simp

lemma check_spans_ok:
  "\<forall>t \<in> set ts. span_file (tok_span t) = file \<and> span_offset (tok_span t) + span_length (tok_span t) \<le> sz
     \<Longrightarrow> check_spans ts file sz = Inr ()"
proof (induction ts)
  case (Cons t ts)
  have "span_offset (tok_span t) + span_length (tok_span t) \<le> sz" using Cons.prems by simp
  then have "\<not> (span_offset (tok_span t) > sz \<or> span_length (tok_span t) > sz - span_offset (tok_span t))"
    by linarith
  with Cons show ?case by (simp add: Let_def)
qed simp

lemma within_at_end:
  "within lx \<Longrightarrow> length (lx_bytes lx) \<le> lx_pos lx \<Longrightarrow>
     lx_bytes lx = [] \<or> last (lx_bytes lx) \<noteq> CHR 0x5C \<Longrightarrow> lx_pos lx = length (lx_bytes lx)"
  by (auto simp: within_def)

text \<open>The definitions a concrete run over quotes and blanks unfolds.\<close>

lemmas run_simps = tokenize_def new_lexer_def tokenize_loop.simps skip_trivia.simps trivia_step_def
  at_end_def peek_def lex_one_def lex_string_def string_loop.simps string_step_def advance_def
  emit_error_def push_token_def report_def span_at_def is_space_def is_newline_def is_alpha_def
  is_digit_def between_def is_valid_escape_def

subsection \<open>Properties\<close>

text \<open>
  C7.  The lexer's own output satisfies the stream verifier the parser runs: for every input that
  does not end in a backslash, whatever errors it holds, the stream is non-empty, ends with
  \<^verbatim>\<open>Eof\<close>, names the lexed file throughout and has every span inside the source bytes.
\<close>

theorem lexer_output_verifies:
  assumes "fits bs" and "bs = [] \<or> last bs \<noteq> CHR 0x5C"
  shows "verify_token_stream (lx_out (lexed big bs file)) file bs = Inr ()"
proof -
  obtain ts lx1 where r: "lx_out (lexed big bs file) = ts @ [\<lparr>tok_kind = TkEof, tok_span = span_at lx1 (lx_pos lx1) 0\<rparr>]"
    "lx_bytes lx1 = bs" "lx_file lx1 = file" "within lx1" "length bs \<le> lx_pos lx1"
    "\<forall>t \<in> set ts. span_file (tok_span t) = file" "fits bs \<Longrightarrow> chain 0 ts (lx_pos lx1)"
    using tokenize_run [where big = big and bs = bs and fid = "file"] by metis
  have pos: "lx_pos lx1 = length bs" using within_at_end [of lx1] r assms(2) by auto
  have "span_offset (tok_span t) + span_length (tok_span t) \<le> length bs" if "t \<in> set ts" for t
    using chain_in_range [OF r(7) [OF assms(1)] that] pos by simp
  then have "check_spans (lx_out (lexed big bs file)) file (length bs) = Inr ()"
    using r(1,3,6) pos assms(1) by (intro check_spans_ok) (auto simp: span_at_def fits_def)
  then show ?thesis using r(1) by (simp add: verify_token_stream_def)
qed

theorem lexer_output_verifies_witness:
  "verify_token_stream (lx_out (lexed False ''fn f() { ret 0x1_F }'' 3)) 3 ''fn f() { ret 0x1_F }'' = Inr ()"
  by (rule lexer_output_verifies) (simp_all add: fits_def)

text \<open>
  C33.  Tokens come in source order and never overlap: each starts at or after the end of the one
  before it, whatever the input is.
\<close>

theorem lexer_tokens_in_order:
  assumes "fits bs"
  shows "chain 0 (lx_out (lexed big bs file)) (length bs + 1)"
proof -
  obtain ts lx1 where r: "lx_out (lexed big bs file) = ts @ [\<lparr>tok_kind = TkEof, tok_span = span_at lx1 (lx_pos lx1) 0\<rparr>]"
    "lx_bytes lx1 = bs" "within lx1" "fits bs \<Longrightarrow> chain 0 ts (lx_pos lx1)"
    using tokenize_run [where big = big and bs = bs and fid = "file"] by metis
  have "lx_pos lx1 \<le> length bs + 1" using r(2,3) by (auto simp: within_def)
  with assms have "chain (lx_pos lx1) [\<lparr>tok_kind = TkEof, tok_span = span_at lx1 (lx_pos lx1) 0\<rparr>] (length bs + 1)"
    by (simp add: span_at_def fits_def)
  from chain_append [OF r(4) [OF assms] this] r(1) show ?thesis by simp
qed

theorem lexer_tokens_in_order_witness:
  "chain 0 (lx_out (lexed True ''x := .5 /* c'' 3)) 13"
proof -
  have "fits ''x := .5 /* c''" by (simp add: fits_def)
  from lexer_tokens_in_order [OF this, of True 3] show ?thesis by (simp add: eval_nat_numeral)
qed

text \<open>
   No error is silent and none is invented: the spans of the \<^verbatim>\<open>Error\<close> tokens of a stream are, in
  order, the spans of the diagnostics the lexer reported, escapes that name no Unicode scalar apart
  (those are reported inside a string token).
\<close>

theorem lexer_errors_reported:
  "error_spans (lx_out (lexed big bs file)) = reported_spans (lx_diags (lexed big bs file))"
proof -
  obtain ts sp where "lx_out (lexed big bs file) = ts @ [\<lparr>tok_kind = TkEof, tok_span = sp\<rparr>]"
    "error_spans ts = reported_spans (lx_diags (lexed big bs file))"
    using tokenize_run [where big = big and bs = bs and fid = "file"] by metis
  then show ?thesis by (simp add: error_spans_def)
qed


end
