(* ===== verification/Utf8_Text.thy ===== *)
theory Utf8_Text
  imports Alcy_Prelude
begin

text \<open>
  UTF-8, as the editor's runtime and the clients of the language server decode it: the text a component that counts
  characters means by the bytes another component holds.
\<close>

text \<open>The bytes of a text of code points.\<close>

definition utf8_bytes :: "int \<Rightarrow> bytes" where
  "utf8_bytes c =
     (if 0 \<le> c \<and> c < 0x80 then [char_of c]
      else if c < 0x800 then [char_of (0xC0 + c div 64 mod 32), char_of (0x80 + c mod 64)]
      else if c < 0x10000 then
        [char_of (0xE0 + c div 4096 mod 16), char_of (0x80 + c div 64 mod 64), char_of (0x80 + c mod 64)]
      else [char_of (0xF0 + c div 262144 mod 8), char_of (0x80 + c div 4096 mod 64), char_of (0x80 + c div 64 mod 64),
            char_of (0x80 + c mod 64)])"

definition utf8_text_bytes :: "int list \<Rightarrow> bytes" where
  "utf8_text_bytes cs = concat (map utf8_bytes cs)"

lemma utf8_text_bytes_simps [simp]:
  "utf8_text_bytes [] = []" "utf8_text_bytes (c # cs) = utf8_bytes c @ utf8_text_bytes cs"
  by (simp_all add: utf8_text_bytes_def)

lemma utf8_text_bytes_append [simp]: "utf8_text_bytes (cs @ ds) = utf8_text_bytes cs @ utf8_text_bytes ds"
  by (simp add: utf8_text_bytes_def)

end
