(* ===== verification/Ts_Scanner.thy ===== *)
theory Ts_Scanner
  imports Lexer_Scan Utf8_Text "HOL-Library.Monad_Syntax"
begin

text \<open>
  The external scanner of the editor grammar (\<^verbatim>\<open>treesitter/src/scanner.c\<close>).  The scanner drives a
  \<^verbatim>\<open>TSLexer\<close>, whose function pointers belong to the tree-sitter runtime; they are the parameter
  \<open>rt\<close> of every definition below, and \<open>ts_runtime_ok\<close> states what the runtime documents of them.
  The loops are \<^theory_text>\<open>partial_function\<close>s, so that running forever is \<^term>\<open>None\<close>; the lemmas show that
  every scan of a finite text returns.  The nesting depth is an unbounded integer: the C
  \<^verbatim>\<open>int32_t\<close> would need a comment of more than four gigabytes to wrap.
\<close>

subsection \<open>The interface to the runtime\<close>

text \<open>The part of \<^verbatim>\<open>struct TSLexer\<close> the runtime provides, over its own cursor state.\<close>

record 'r ts_runtime =
  ts_lookahead :: "'r \<Rightarrow> int"
  ts_advance_fn :: "'r \<Rightarrow> bool \<Rightarrow> 'r"
  ts_mark_end_fn :: "'r \<Rightarrow> 'r"
  ts_eof_fn :: "'r \<Rightarrow> bool"

text \<open>A \<^verbatim>\<open>TSLexer\<close> as the scanner sees it: the runtime's cursor and the field it writes.\<close>

datatype token_type = BLOCK_LBRACE | NEWLINE | BLOCK_COMMENT | ERROR_SENTINEL | COND_PATTERN_PAREN

record 'r ts_lexer =
  ts_cursor :: 'r
  result_symbol :: "token_type option"

text \<open>
  What the runtime promises: \<open>chars\<close> is the text in front of the cursor, \<^verbatim>\<open>lookahead\<close> is its first
  character and zero at the end, \<^verbatim>\<open>advance\<close> steps over one character whether or not it is
  skipped, and marking the end of a token moves nothing.
\<close>

definition ts_runtime_ok :: "'r ts_runtime \<Rightarrow> ('r \<Rightarrow> int list) \<Rightarrow> bool" where
  "ts_runtime_ok rt chars \<longleftrightarrow>
     (\<forall>l. ts_eof_fn rt l = (chars l = [])
        \<and> ts_lookahead rt l = (case chars l of [] \<Rightarrow> 0 | c # _ \<Rightarrow> c)
        \<and> (\<forall>s. chars (ts_advance_fn rt l s) = tl (chars l))
        \<and> chars (ts_mark_end_fn rt l) = chars l)"

text \<open>A character constant of the C source as the integer it denotes.\<close>

definition code :: "char \<Rightarrow> int" where
  "code c = of_char c"

lemma code_eq_iff [simp]: "code c = code d \<longleftrightarrow> c = d"
  by (simp add: code_def)

lemma code_eq_0 [simp]: "code c = 0 \<longleftrightarrow> c = CHR 0x00" "0 = code c \<longleftrightarrow> c = CHR 0x00"
  using code_eq_iff [of c "CHR 0x00"] by (simp_all add: code_def del: code_eq_iff)

subsection \<open>The scanner's state and its cursor operations\<close>

record scanner =
  newline_before_brace :: bool

definition ts_advance :: "'r ts_runtime \<Rightarrow> 'r \<Rightarrow> 'r" where
  "ts_advance rt l = ts_advance_fn rt l False"

definition ts_skip :: "'r ts_runtime \<Rightarrow> 'r \<Rightarrow> 'r" where
  "ts_skip rt l = ts_advance_fn rt l True"

definition is_horizontal_space :: "int \<Rightarrow> bool" where
  "is_horizontal_space c \<longleftrightarrow> c = code CHR '' '' \<or> c = code CHR 0x09 \<or> c = code CHR 0x0D"

text \<open>\<^verbatim>\<open>while (p(lexer->lookahead)) skip(lexer);\<close>\<close>

partial_function (option) skip_while :: "'r ts_runtime \<Rightarrow> (int \<Rightarrow> bool) \<Rightarrow> 'r \<Rightarrow> 'r option" where
  "skip_while rt p l =
     (if p (ts_lookahead rt l) then skip_while rt p (ts_skip rt l) else Some l)"

definition skip_to_next_line :: "'r ts_runtime \<Rightarrow> 'r \<Rightarrow> (bool \<times> 'r) option" where
  "skip_to_next_line rt l0 = do {
     l1 \<leftarrow> skip_while rt is_horizontal_space l0;
     if ts_lookahead rt l1 \<noteq> code CHR 0x0A then Some (False, l1)
     else do {
       l2 \<leftarrow> skip_while rt (\<lambda>c. is_horizontal_space c \<or> c = code CHR 0x0A) l1;
       Some (True, l2)
     }
   }"

definition continues_after_newline :: "'r ts_runtime \<Rightarrow> 'r \<Rightarrow> bool" where
  "continues_after_newline rt l \<longleftrightarrow>
     ts_eof_fn rt l \<or> ts_lookahead rt l \<in> code ` {CHR '','', CHR '')'', CHR '']'', CHR ''}'', CHR ''.''}"

partial_function (option) comment_loop ::
    "'r ts_runtime \<Rightarrow> int \<Rightarrow> 'r \<Rightarrow> (bool \<times> 'r) option" where
  "comment_loop rt depth l =
     (if ts_eof_fn rt l then Some (False, l)
      else if ts_lookahead rt l = code CHR ''*'' then
        let l1 = ts_advance rt l in
        if ts_lookahead rt l1 = code CHR ''/'' then
          let l2 = ts_advance rt l1 in
          if depth - 1 = 0 then Some (True, l2) else comment_loop rt (depth - 1) l2
        else comment_loop rt depth l1
      else if ts_lookahead rt l = code CHR ''/'' then
        let l1 = ts_advance rt l in
        if ts_lookahead rt l1 = code CHR ''*''
        then comment_loop rt (depth + 1) (ts_advance rt l1)
        else comment_loop rt depth l1
      else comment_loop rt depth (ts_advance rt l))"

definition skip_block_comment :: "'r ts_runtime \<Rightarrow> 'r \<Rightarrow> (bool \<times> 'r) option" where
  "skip_block_comment rt l = comment_loop rt 1 l"

subsection \<open>The four tokens\<close>

text \<open>The inner loop over a string literal: \<^term>\<open>False\<close> is its \<^verbatim>\<open>return false\<close>, \<^term>\<open>True\<close> its
  \<^verbatim>\<open>break\<close> after the closing quote.\<close>

partial_function (option) paren_string_loop :: "'r ts_runtime \<Rightarrow> 'r \<Rightarrow> (bool \<times> 'r) option" where
  "paren_string_loop rt l =
     (if ts_eof_fn rt l \<or> ts_lookahead rt l = code CHR 0x0A then Some (False, l)
      else if ts_lookahead rt l = code CHR 0x5C then
        let l1 = ts_advance rt l in
        if ts_eof_fn rt l1 then Some (False, l1) else paren_string_loop rt (ts_advance rt l1)
      else if ts_lookahead rt l = code CHR 0x22 then Some (True, ts_advance rt l)
      else paren_string_loop rt (ts_advance rt l))"

partial_function (option) line_comment_loop :: "'r ts_runtime \<Rightarrow> 'r \<Rightarrow> 'r option" where
  "line_comment_loop rt l =
     (if \<not> ts_eof_fn rt l \<and> ts_lookahead rt l \<noteq> code CHR 0x0A
      then line_comment_loop rt (ts_advance rt l) else Some l)"

text \<open>The test after the matching parenthesis.\<close>

definition binding_follows :: "'r ts_runtime \<Rightarrow> 'r \<Rightarrow> (bool \<times> 'r) option" where
  "binding_follows rt l0 = do {
     l1 \<leftarrow> skip_while rt is_horizontal_space l0;
     if ts_lookahead rt l1 \<noteq> code CHR '':'' then Some (False, l1)
     else let l2 = ts_advance rt l1 in Some (ts_lookahead rt l2 = code CHR ''='', l2)
   }"

partial_function (option) paren_loop ::
    "'r ts_runtime \<Rightarrow> int \<Rightarrow> 'r \<Rightarrow> (bool \<times> 'r) option" where
  "paren_loop rt depth l =
     (if ts_eof_fn rt l then Some (False, l)
      else let c = ts_lookahead rt l in
      if c = code CHR 0x22 then
        Option.bind (paren_string_loop rt (ts_advance rt l))
          (\<lambda>(closed, l1). if closed then paren_loop rt depth l1 else Some (False, l1))
      else if c = code CHR ''/'' then
        let l1 = ts_advance rt l in
        if ts_lookahead rt l1 = code CHR ''*'' then
          Option.bind (skip_block_comment rt (ts_advance rt l1))
            (\<lambda>(closed, l2). if closed then paren_loop rt depth l2 else Some (False, l2))
        else if ts_lookahead rt l1 = code CHR ''/'' then
          Option.bind (line_comment_loop rt l1) (paren_loop rt depth)
        else paren_loop rt depth l1
      else let l1 = ts_advance rt l in
        if c = code CHR ''('' then paren_loop rt (depth + 1) l1
        else if c = code CHR '')'' then
          if depth - 1 = 0 then binding_follows rt l1 else paren_loop rt (depth - 1) l1
        else paren_loop rt depth l1)"

text \<open>A scan that accepts writes its symbol; one that declines leaves the symbol alone.\<close>

definition scan_cond_pattern_paren :: "'r ts_runtime \<Rightarrow> 'r ts_lexer \<Rightarrow> (bool \<times> 'r ts_lexer) option" where
  "scan_cond_pattern_paren rt lexer = do {
     l1 \<leftarrow> skip_while rt is_horizontal_space (ts_cursor lexer);
     if ts_lookahead rt l1 \<noteq> code CHR ''('' then Some (False, lexer\<lparr>ts_cursor := l1\<rparr>)
     else do {
       (ok, l2) \<leftarrow> paren_loop rt 1 (ts_mark_end_fn rt (ts_advance rt l1));
       Some (if ok then (True, lexer\<lparr>ts_cursor := l2, result_symbol := Some COND_PATTERN_PAREN\<rparr>)
             else (False, lexer\<lparr>ts_cursor := l2\<rparr>))
     }
   }"

definition scan_block_comment :: "'r ts_runtime \<Rightarrow> 'r ts_lexer \<Rightarrow> (bool \<times> 'r ts_lexer) option" where
  "scan_block_comment rt lexer =
     (let l = ts_cursor lexer in
      if ts_lookahead rt l \<noteq> code CHR ''/'' then Some (False, lexer)
      else let l1 = ts_advance rt l in
      if ts_lookahead rt l1 \<noteq> code CHR ''*'' then Some (False, lexer\<lparr>ts_cursor := l1\<rparr>)
      else do {
        (ok, l2) \<leftarrow> skip_block_comment rt (ts_advance rt l1);
        Some (if ok then (True, lexer\<lparr>ts_cursor := ts_mark_end_fn rt l2,
                                      result_symbol := Some BLOCK_COMMENT\<rparr>)
              else (False, lexer\<lparr>ts_cursor := l2\<rparr>))
      })"

definition scan_block_lbrace ::
    "'r ts_runtime \<Rightarrow> scanner \<Rightarrow> 'r ts_lexer \<Rightarrow> (bool \<times> scanner \<times> 'r ts_lexer) option" where
  "scan_block_lbrace rt sc lexer =
     (if newline_before_brace sc then Some (False, sc, lexer)
      else do {
        (newline, l1) \<leftarrow> skip_to_next_line rt (ts_cursor lexer);
        Some (if newline
              then (False, sc\<lparr>newline_before_brace := True\<rparr>, lexer\<lparr>ts_cursor := l1\<rparr>)
              else if ts_lookahead rt l1 \<noteq> code CHR ''{''
              then (False, sc, lexer\<lparr>ts_cursor := l1\<rparr>)
              else (True, sc\<lparr>newline_before_brace := False\<rparr>,
                    lexer\<lparr>ts_cursor := ts_mark_end_fn rt (ts_advance rt l1),
                          result_symbol := Some BLOCK_LBRACE\<rparr>))
      })"

definition scan_newline :: "'r ts_runtime \<Rightarrow> 'r ts_lexer \<Rightarrow> (bool \<times> 'r ts_lexer) option" where
  "scan_newline rt lexer = do {
     (newline, l1) \<leftarrow> skip_to_next_line rt (ts_cursor lexer);
     Some (if \<not> newline then (False, lexer\<lparr>ts_cursor := l1\<rparr>)
           else if continues_after_newline rt l1 then (False, lexer\<lparr>ts_cursor := l1\<rparr>)
           else (True, lexer\<lparr>ts_cursor := ts_mark_end_fn rt l1, result_symbol := Some NEWLINE\<rparr>))
   }"

subsection \<open>The entry points\<close>

definition scanner_create :: scanner where
  "scanner_create = \<lparr>newline_before_brace = False\<rparr>"

definition scanner_serialize :: "scanner \<Rightarrow> u8 list" where
  "scanner_serialize sc = [if newline_before_brace sc then 1 else 0]"

definition scanner_deserialize :: "scanner \<Rightarrow> u8 list \<Rightarrow> scanner" where
  "scanner_deserialize sc buffer =
     sc\<lparr>newline_before_brace := (length buffer > 0 \<and> buffer ! 0 \<noteq> 0)\<rparr>"

text \<open>One clause \<^verbatim>\<open>if (valid && step) return true;\<close> of the scan.\<close>

definition scan_clause ::
    "bool \<Rightarrow> ('r ts_lexer \<Rightarrow> (bool \<times> 'r ts_lexer) option) \<Rightarrow> 'r ts_lexer
     \<Rightarrow> ('r ts_lexer \<Rightarrow> (bool \<times> 'r ts_lexer) option) \<Rightarrow> (bool \<times> 'r ts_lexer) option" where
  "scan_clause valid step lexer rest =
     (if valid then do { (ok, lexer') \<leftarrow> step lexer; if ok then Some (True, lexer') else rest lexer' }
      else rest lexer)"

definition scan_others ::
    "'r ts_runtime \<Rightarrow> (token_type \<Rightarrow> bool) \<Rightarrow> 'r ts_lexer \<Rightarrow> (bool \<times> 'r ts_lexer) option" where
  "scan_others rt valid lexer =
     scan_clause (valid BLOCK_COMMENT) (scan_block_comment rt) lexer
       (\<lambda>lexer1. scan_clause (valid NEWLINE) (scan_newline rt) lexer1
          (\<lambda>lexer2. scan_clause (valid COND_PATTERN_PAREN) (scan_cond_pattern_paren rt) lexer2
             (\<lambda>lexer3. Some (False, lexer3))))"

definition scanner_scan ::
    "'r ts_runtime \<Rightarrow> (token_type \<Rightarrow> bool) \<Rightarrow> scanner \<Rightarrow> 'r ts_lexer
     \<Rightarrow> (bool \<times> scanner \<times> 'r ts_lexer) option" where
  "scanner_scan rt valid sc lexer = do {
     (ok, sc', lexer') \<leftarrow>
       (if \<not> valid BLOCK_LBRACE then Some (False, sc\<lparr>newline_before_brace := False\<rparr>, lexer)
        else scan_block_lbrace rt sc lexer);
     if ok then Some (True, sc', lexer')
     else do {
       (ok', lexer'') \<leftarrow> scan_others rt valid lexer';
       Some (ok', sc', lexer'')
     }
   }"

subsection \<open>The loops return\<close>

named_theorems ts_simps \<open>what a conforming runtime shows of a cursor\<close>

lemma ts_eof [ts_simps]: "ts_runtime_ok rt chars \<Longrightarrow> ts_eof_fn rt l = (chars l = [])"
  by (simp add: ts_runtime_ok_def)

lemma ts_look [ts_simps]:
  "ts_runtime_ok rt chars \<Longrightarrow> ts_lookahead rt l = (case chars l of [] \<Rightarrow> 0 | c # _ \<Rightarrow> c)"
  by (simp add: ts_runtime_ok_def)

lemma ts_moves [ts_simps]:
  "ts_runtime_ok rt chars \<Longrightarrow> chars (ts_advance rt l) = tl (chars l)"
  "ts_runtime_ok rt chars \<Longrightarrow> chars (ts_skip rt l) = tl (chars l)"
  "ts_runtime_ok rt chars \<Longrightarrow> chars (ts_mark_end_fn rt l) = chars l"
  by (simp_all add: ts_runtime_ok_def ts_advance_def ts_skip_def)

lemma not_space_0 [simp]: "\<not> is_horizontal_space 0"
  by (simp add: is_horizontal_space_def)

lemma skip_while_returns:
  assumes "ts_runtime_ok rt chars" "\<not> p 0"
  shows "\<exists>l'. skip_while rt p l = Some l' \<and> chars l' = dropWhile p (chars l)"
  using assms
proof (induction "chars l" arbitrary: l)
  case Nil
  then show ?case by (subst skip_while.simps) (simp add: ts_simps flip: Nil.hyps)
next
  case (Cons c cs)
  have next_l: "chars (ts_skip rt l) = cs" using Cons by (simp add: ts_simps flip: Cons.hyps(2))
  show ?case
  proof (cases "p c")
    case True
    then have "skip_while rt p l = skip_while rt p (ts_skip rt l)"
      using Cons.prems by (subst skip_while.simps) (simp add: ts_simps flip: Cons.hyps(2))
    then show ?thesis using Cons.hyps(1) [of "ts_skip rt l"] Cons.prems next_l True
      by (simp flip: Cons.hyps(2))
  next
    case False
    then show ?thesis using Cons.prems
      by (subst skip_while.simps) (simp add: ts_simps flip: Cons.hyps(2))
  qed
qed

text \<open>Whether a newline stands in the blanks at the front of a text, and what follows them.\<close>

definition line_ends :: "int list \<Rightarrow> bool" where
  "line_ends cs \<longleftrightarrow> (case dropWhile is_horizontal_space cs of [] \<Rightarrow> False | c # _ \<Rightarrow> c = code CHR 0x0A)"

definition after_blanks :: "int list \<Rightarrow> int list" where
  "after_blanks cs = dropWhile (\<lambda>c. is_horizontal_space c \<or> c = code CHR 0x0A) cs"

lemma dropWhile_dropWhile_weaker:
  "(\<And>x. p x \<Longrightarrow> q x) \<Longrightarrow> dropWhile q (dropWhile p xs) = dropWhile q xs"
  by (induction xs) auto

lemma skip_to_next_line_returns:
  assumes ok: "ts_runtime_ok rt chars"
  shows "\<exists>l'. skip_to_next_line rt l = Some (line_ends (chars l), l')
     \<and> chars l' = (if line_ends (chars l) then after_blanks (chars l)
                   else dropWhile is_horizontal_space (chars l))"
proof -
  obtain l1 where l1: "skip_while rt is_horizontal_space l = Some l1"
      "chars l1 = dropWhile is_horizontal_space (chars l)"
    using skip_while_returns [OF ok] not_space_0 by blast
  obtain l2 where l2:
      "skip_while rt (\<lambda>c. is_horizontal_space c \<or> c = code CHR 0x0A) l1 = Some l2"
      "chars l2 = after_blanks (chars l1)"
    using skip_while_returns [OF ok, of "\<lambda>c. is_horizontal_space c \<or> c = code CHR 0x0A" l1]
    by (auto simp: after_blanks_def)
  have look: "ts_lookahead rt l1 = code CHR 0x0A \<longleftrightarrow> line_ends (chars l)"
    by (cases "chars l1") (use ok in \<open>simp_all add: line_ends_def ts_simps flip: l1(2)\<close>)
  have "chars l2 = after_blanks (chars l)"
    using l1 l2 by (simp add: after_blanks_def dropWhile_dropWhile_weaker)
  then show ?thesis using l1 l2 look by (auto simp: skip_to_next_line_def)
qed

text \<open>A loop result: it exists, and no more text is in front of the cursor than before.\<close>

definition returns_within :: "('r \<Rightarrow> int list) \<Rightarrow> 'r \<Rightarrow> (bool \<times> 'r) option \<Rightarrow> bool" where
  "returns_within chars l res \<longleftrightarrow>
     (\<exists>ok l'. res = Some (ok, l') \<and> length (chars l') \<le> length (chars l))"

lemma returns_withinI:
  "res = Some (ok, l') \<Longrightarrow> length (chars l') \<le> length (chars l) \<Longrightarrow> returns_within chars l res"
  by (auto simp: returns_within_def)

lemma returns_within_le:
  "returns_within chars l1 res \<Longrightarrow> length (chars l1) \<le> length (chars l) \<Longrightarrow> returns_within chars l res"
  by (auto simp: returns_within_def)

lemma returns_within_bind:
  assumes "returns_within chars l1 m" "length (chars l1) \<le> length (chars l)"
    "\<And>ok l2. length (chars l2) \<le> length (chars l1) \<Longrightarrow> returns_within chars l2 (f (ok, l2))"
  shows "returns_within chars l (Option.bind m f)"
  using assms by (fastforce simp: returns_within_def)

lemma comment_loop_returns:
  "ts_runtime_ok rt chars \<Longrightarrow> returns_within chars l (comment_loop rt depth l)"
proof (induction "length (chars l)" arbitrary: l depth rule: less_induct)
  case less
  have IH: "length (chars l1) < length (chars l) \<Longrightarrow> returns_within chars l (comment_loop rt d l1)"
    for l1 d using less.hyps [of l1 d] less.prems returns_within_le [of chars l1] by auto
  show ?case
  proof (cases "chars l")
    case Nil
    then show ?thesis using less.prems
      by (subst comment_loop.simps) (auto simp: ts_simps returns_within_def)
  next
    case (Cons c cs)
    then have "length (chars (ts_advance rt l)) < length (chars l)"
        "length (chars (ts_advance rt (ts_advance rt l))) < length (chars l)"
      using less.prems by (simp_all add: ts_simps)
    then show ?thesis using IH less.prems Cons
      by (subst comment_loop.simps) (auto simp: ts_simps Let_def returns_within_def)
  qed
qed

lemma paren_string_loop_returns:
  "ts_runtime_ok rt chars \<Longrightarrow> returns_within chars l (paren_string_loop rt l)"
proof (induction "length (chars l)" arbitrary: l rule: less_induct)
  case less
  have IH: "length (chars l1) < length (chars l) \<Longrightarrow> returns_within chars l (paren_string_loop rt l1)"
    for l1 using less.hyps [of l1] less.prems returns_within_le [of chars l1] by auto
  show ?case
  proof (cases "chars l")
    case Nil
    then show ?thesis using less.prems
      by (subst paren_string_loop.simps) (auto simp: ts_simps returns_within_def)
  next
    case (Cons c cs)
    then have "length (chars (ts_advance rt l)) < length (chars l)"
        "length (chars (ts_advance rt (ts_advance rt l))) < length (chars l)"
      using less.prems by (simp_all add: ts_simps)
    then show ?thesis using IH less.prems Cons
      by (subst paren_string_loop.simps) (auto simp: ts_simps Let_def returns_within_def)
  qed
qed

lemma line_comment_loop_returns:
  assumes "ts_runtime_ok rt chars"
  shows "\<exists>l'. line_comment_loop rt l = Some l' \<and> length (chars l') \<le> length (chars l)"
  using assms
proof (induction "length (chars l)" arbitrary: l rule: less_induct)
  case less
  show ?case
  proof (cases "chars l")
    case Nil
    then show ?thesis using less.prems by (subst line_comment_loop.simps) (auto simp: ts_simps)
  next
    case (Cons c cs)
    have "length (chars (ts_advance rt l)) < length (chars l)"
      using Cons less.prems by (simp add: ts_simps)
    from less.hyps [OF this less.prems] Cons show ?thesis using less.prems
      by (subst line_comment_loop.simps) (fastforce simp: ts_simps)
  qed
qed

lemma binding_follows_returns:
  assumes ok: "ts_runtime_ok rt chars"
  shows "returns_within chars l (binding_follows rt l)"
proof -
  obtain l1 where l1: "skip_while rt is_horizontal_space l = Some l1"
      "chars l1 = dropWhile is_horizontal_space (chars l)"
    using skip_while_returns [OF ok] not_space_0 by blast
  then have "length (chars l1) \<le> length (chars l)" by (simp add: length_dropWhile_le)
  then show ?thesis using l1(1) ok
    by (auto simp: binding_follows_def Let_def ts_simps returns_within_def)
qed

lemma paren_loop_returns:
  "ts_runtime_ok rt chars \<Longrightarrow> returns_within chars l (paren_loop rt depth l)"
proof (induction "length (chars l)" arbitrary: l depth rule: less_induct)
  case less
  note ok = less.prems
  have IH: "length (chars l1) < length (chars l) \<Longrightarrow> returns_within chars l1 (paren_loop rt d l1)"
    for l1 d using less by auto
  show ?case
  proof (cases "chars l")
    case Nil
    then show ?thesis using ok
      by (subst paren_loop.simps) (auto simp: ts_simps returns_within_def)
  next
    case (Cons c cs)
    let ?l1 = "ts_advance rt l"
    let ?l2 = "ts_advance rt ?l1"
    have len: "length (chars ?l1) < length (chars l)" "length (chars ?l2) < length (chars l)"
      using Cons ok by (simp_all add: ts_simps)
    have here: "returns_within chars l (paren_loop rt d ?l1)" for d
      by (rule returns_within_le [OF IH [OF len(1)] less_imp_le [OF len(1)]])
    have stop: "returns_within chars l' (if closed then paren_loop rt depth l' else Some (False, l'))"
      if "length (chars l') < length (chars l)" for closed l'
      using IH [OF that] by (auto simp: returns_within_def)
    have "returns_within chars l (Option.bind (paren_string_loop rt ?l1)
        (\<lambda>(closed, l'). if closed then paren_loop rt depth l' else Some (False, l')))"
      by (rule returns_within_bind [OF paren_string_loop_returns [OF ok]])
        (simp_all add: less_imp_le len(1) stop [OF le_less_trans [OF _ len(1)]] del: if_split)
    moreover have "returns_within chars l (Option.bind (skip_block_comment rt ?l2)
        (\<lambda>(closed, l'). if closed then paren_loop rt depth l' else Some (False, l')))"
      unfolding skip_block_comment_def
      by (rule returns_within_bind [OF comment_loop_returns [OF ok]])
        (simp_all add: less_imp_le len(2) stop [OF le_less_trans [OF _ len(2)]] del: if_split)
    moreover have "returns_within chars l (Option.bind (line_comment_loop rt ?l1) (paren_loop rt depth))"
    proof -
      obtain l' where l': "line_comment_loop rt ?l1 = Some l'" "length (chars l') \<le> length (chars ?l1)"
        using line_comment_loop_returns [OF ok] by blast
      then have shorter: "length (chars l') < length (chars l)" using len(1) by simp
      show ?thesis using l'(1) returns_within_le [OF IH [OF shorter] less_imp_le [OF shorter]] by simp
    qed
    moreover have "returns_within chars l (binding_follows rt ?l1)"
      by (rule returns_within_le [OF binding_follows_returns [OF ok] less_imp_le [OF len(1)]])
    ultimately show ?thesis using here Cons ok
      by (subst paren_loop.simps) (simp add: ts_simps Let_def)
  qed
qed


subsection \<open>Every scan returns, and accepts only what was asked for\<close>

text \<open>The contract of one token's scan: it returns, and it accepts only by moving forward and
  writing its own symbol.\<close>

definition scans_token ::
    "('r \<Rightarrow> int list) \<Rightarrow> token_type \<Rightarrow> 'r ts_lexer \<Rightarrow> bool \<Rightarrow> 'r ts_lexer \<Rightarrow> bool" where
  "scans_token chars t lx ok lx' \<longleftrightarrow>
     length (chars (ts_cursor lx')) \<le> length (chars (ts_cursor lx))
   \<and> (if ok then result_symbol lx' = Some t
                \<and> length (chars (ts_cursor lx')) < length (chars (ts_cursor lx))
      else result_symbol lx' = result_symbol lx)"

lemma line_ends_shorter: "line_ends cs \<Longrightarrow> length (after_blanks cs) < length cs"
  by (cases cs) (auto simp: line_ends_def after_blanks_def length_dropWhile_le less_Suc_eq_le
      split: if_splits)

lemma scan_newline_returns:
  assumes ok: "ts_runtime_ok rt chars"
  shows "\<exists>a lx'. scan_newline rt lx = Some (a, lx') \<and> scans_token chars NEWLINE lx a lx'"
  using skip_to_next_line_returns [OF ok, of "ts_cursor lx"] ok line_ends_shorter
  by (fastforce simp: scan_newline_def scans_token_def ts_simps length_dropWhile_le)

lemma scan_block_comment_returns:
  assumes ok: "ts_runtime_ok rt chars"
  shows "\<exists>a lx'. scan_block_comment rt lx = Some (a, lx') \<and> scans_token chars BLOCK_COMMENT lx a lx'"
proof -
  let ?l2 = "ts_advance rt (ts_advance rt (ts_cursor lx))"
  obtain a l' where "skip_block_comment rt ?l2 = Some (a, l')" "length (chars l') \<le> length (chars ?l2)"
    using comment_loop_returns [OF ok, of ?l2 1] by (auto simp: returns_within_def skip_block_comment_def)
  then show ?thesis using ok
    by (cases "chars (ts_cursor lx)"; cases a)
      (auto simp: scan_block_comment_def Let_def scans_token_def ts_simps ex_bool_eq)
qed

lemma scan_cond_pattern_paren_returns:
  assumes ok: "ts_runtime_ok rt chars"
  shows "\<exists>a lx'. scan_cond_pattern_paren rt lx = Some (a, lx')
               \<and> scans_token chars COND_PATTERN_PAREN lx a lx'"
proof -
  obtain l1 where l1: "skip_while rt is_horizontal_space (ts_cursor lx) = Some l1"
      "chars l1 = dropWhile is_horizontal_space (chars (ts_cursor lx))"
    using skip_while_returns [OF ok] not_space_0 by blast
  then have le: "length (chars l1) \<le> length (chars (ts_cursor lx))" by (simp add: length_dropWhile_le)
  let ?l2 = "ts_mark_end_fn rt (ts_advance rt l1)"
  obtain a l' where "paren_loop rt 1 ?l2 = Some (a, l')" "length (chars l') \<le> length (chars ?l2)"
    using paren_loop_returns [OF ok, of ?l2 1] by (auto simp: returns_within_def)
  then show ?thesis using ok l1(1) le
    by (cases "chars l1") (auto simp: scan_cond_pattern_paren_def scans_token_def ts_simps)
qed

lemma scan_block_lbrace_returns:
  assumes ok: "ts_runtime_ok rt chars"
  shows "\<exists>a sc' lx'. scan_block_lbrace rt sc lx = Some (a, sc', lx') \<and> scans_token chars BLOCK_LBRACE lx a lx'"
proof (cases "newline_before_brace sc")
  case False
  obtain l' where l': "skip_to_next_line rt (ts_cursor lx) = Some (line_ends (chars (ts_cursor lx)), l')"
      "length (chars l') \<le> length (chars (ts_cursor lx))"
    using skip_to_next_line_returns [OF ok, of "ts_cursor lx"]
    by (auto simp: length_dropWhile_le after_blanks_def split: if_splits)
  then show ?thesis using ok False
    by (cases "chars l'") (auto simp: scan_block_lbrace_def scans_token_def ts_simps)
qed (auto simp: scan_block_lbrace_def scans_token_def)

text \<open>The whole scan so far: what holds of any prefix of its clauses.\<close>

definition scans_valid ::
    "('r \<Rightarrow> int list) \<Rightarrow> (token_type \<Rightarrow> bool) \<Rightarrow> 'r ts_lexer \<Rightarrow> bool \<Rightarrow> 'r ts_lexer \<Rightarrow> bool" where
  "scans_valid chars valid lx ok lx' \<longleftrightarrow>
     length (chars (ts_cursor lx')) \<le> length (chars (ts_cursor lx))
   \<and> (if ok then length (chars (ts_cursor lx')) < length (chars (ts_cursor lx))
                \<and> (\<exists>t. valid t \<and> result_symbol lx' = Some t)
      else result_symbol lx' = result_symbol lx)"

lemma scan_clause_valid:
  assumes "\<And>lx. \<exists>a lx'. step lx = Some (a, lx') \<and> scans_token chars t lx a lx'"
    and "\<And>lx. \<exists>a lx'. rest lx = Some (a, lx') \<and> scans_valid chars valid lx a lx'"
  shows "\<exists>a lx'. scan_clause (valid t) step lx rest = Some (a, lx') \<and> scans_valid chars valid lx a lx'"
proof (cases "valid t")
  case True
  obtain a lx1 where 1: "step lx = Some (a, lx1)" "scans_token chars t lx a lx1"
    using assms(1) by blast
  obtain b lx2 where "rest lx1 = Some (b, lx2)" "scans_valid chars valid lx1 b lx2"
    using assms(2) by blast
  then show ?thesis using 1 True
    by (auto simp: scan_clause_def scans_token_def scans_valid_def split: if_splits)
qed (use assms(2) in \<open>simp add: scan_clause_def\<close>)

lemma scan_others_returns:
  assumes ok: "ts_runtime_ok rt chars"
  shows "\<exists>a lx'. scan_others rt valid lx = Some (a, lx')
    \<and> scans_valid chars (\<lambda>t. valid t \<and> t \<noteq> BLOCK_LBRACE) lx a lx'"
proof -
  let ?v = "\<lambda>t. valid t \<and> t \<noteq> BLOCK_LBRACE"
  let ?rest3 = "\<lambda>lx. scan_clause (?v COND_PATTERN_PAREN) (scan_cond_pattern_paren rt) lx
    (\<lambda>lx. Some (False, lx))"
  let ?rest2 = "\<lambda>lx. scan_clause (?v NEWLINE) (scan_newline rt) lx ?rest3"
  have 3: "\<exists>a lx'. ?rest3 lx = Some (a, lx') \<and> scans_valid chars ?v lx a lx'" for lx
    by (rule scan_clause_valid [OF scan_cond_pattern_paren_returns [OF ok]]) (auto simp: scans_valid_def)
  have 2: "\<exists>a lx'. ?rest2 lx = Some (a, lx') \<and> scans_valid chars ?v lx a lx'" for lx
    by (rule scan_clause_valid [OF scan_newline_returns [OF ok] 3])
  have "\<exists>a lx'. scan_clause (?v BLOCK_COMMENT) (scan_block_comment rt) lx ?rest2 = Some (a, lx')
      \<and> scans_valid chars ?v lx a lx'"
    by (rule scan_clause_valid [OF scan_block_comment_returns [OF ok] 2])
  then show ?thesis by (simp add: scan_others_def)
qed

text \<open>
  C35. On a finite text the external scanner always returns.  When it accepts, the symbol it wrote
  is one the parser listed as valid and the cursor has moved; when it declines, it wrote nothing.
\<close>

theorem scanner_scan_returns:
  assumes ok: "ts_runtime_ok rt chars"
  shows "\<exists>a sc' lx'. scanner_scan rt valid sc lx = Some (a, sc', lx')
    \<and> (if a then (\<exists>t. valid t \<and> result_symbol lx' = Some t)
                \<and> length (chars (ts_cursor lx')) < length (chars (ts_cursor lx))
       else result_symbol lx' = result_symbol lx)"
proof -
  define head where "head = (if \<not> valid BLOCK_LBRACE
     then Some (False, sc\<lparr>newline_before_brace := False\<rparr>, lx) else scan_block_lbrace rt sc lx)"
  obtain a sc1 lx1 where 1: "head = Some (a, sc1, lx1)" "valid BLOCK_LBRACE \<or> \<not> a"
      "scans_token chars BLOCK_LBRACE lx a lx1"
  proof (cases "valid BLOCK_LBRACE")
    case True
    then show ?thesis using scan_block_lbrace_returns [OF ok, of sc lx] that by (auto simp: head_def)
  next
    case False
    then show ?thesis using that by (auto simp: head_def scans_token_def)
  qed
  obtain b lx2 where "scan_others rt valid lx1 = Some (b, lx2)"
      "scans_valid chars (\<lambda>t. valid t \<and> t \<noteq> BLOCK_LBRACE) lx1 b lx2"
    using scan_others_returns [OF ok] by blast
  then show ?thesis using 1
    by (auto simp: scanner_scan_def scans_token_def scans_valid_def simp flip: head_def split: if_splits)
qed


text \<open>A text cursor: the characters still to read.  It shows that the runtime's laws can hold.\<close>

definition text_runtime :: "int list ts_runtime" where
  "text_runtime = \<lparr>ts_lookahead = (\<lambda>cs. case cs of [] \<Rightarrow> 0 | c # _ \<Rightarrow> c),
     ts_advance_fn = (\<lambda>cs _. tl cs), ts_mark_end_fn = (\<lambda>cs. cs), ts_eof_fn = (\<lambda>cs. cs = [])\<rparr>"

lemma text_runtime_ok: "ts_runtime_ok text_runtime (\<lambda>cs. cs)"
  by (simp add: ts_runtime_ok_def text_runtime_def)

theorem scanner_scan_returns_witness:
  "\<exists>a sc' lx'. scanner_scan text_runtime (\<lambda>t. t = NEWLINE) scanner_create
       \<lparr>ts_cursor = map code [CHR 0x0A, CHR ''a''], result_symbol = None\<rparr> = Some (a, sc', lx')
    \<and> (if a then (\<exists>t. t = NEWLINE \<and> result_symbol lx' = Some t) \<and> length (ts_cursor lx') < Suc (Suc 0)
       else result_symbol lx' = None)"
  using scanner_scan_returns [OF text_runtime_ok, of "\<lambda>t. t = NEWLINE" scanner_create
      "\<lparr>ts_cursor = map code [CHR 0x0A, CHR ''a''], result_symbol = None\<rparr>"] by (simp cong: if_cong split del: if_split)

subsection \<open>Agreement with the compiler's lexer\<close>

definition ascii :: "char \<Rightarrow> bool" where
  "ascii b \<longleftrightarrow> of_char b < (128 :: int)"

lemma of_char_bounds: "0 \<le> (of_char b :: int)"
  by (cases b) (simp add: of_char_def)

lemma utf8_ascii [simp]: "ascii b \<Longrightarrow> utf8_bytes (code b) = [b]"
  by (simp add: utf8_bytes_def code_def ascii_def of_char_bounds)

lemma utf8_other:
  assumes "\<And>b. ascii b \<Longrightarrow> c \<noteq> code b"
  shows "utf8_bytes c \<noteq> []" "b \<in> set (utf8_bytes c) \<Longrightarrow> \<not> ascii b"
proof -
  have wide: "\<not> ascii (char_of (k + x mod n))" if "128 \<le> k" "0 < n" "k + n \<le> 256" for k x n :: int
  proof -
    have "0 \<le> x mod n" "x mod n < n" using that(2) by simp_all
    then have "(k + x mod n) mod 256 = k + x mod n" using that by (intro mod_pos_pos_trivial) linarith+
    then show ?thesis using that(1) \<open>0 \<le> x mod n\<close> by (simp add: ascii_def)
  qed
  have no: "\<not> (0 \<le> c \<and> c < 0x80)"
  proof
    assume c: "0 \<le> c \<and> c < 0x80"
    then have "of_char (char_of c :: char) = c" by (simp add: take_bit_int_eq_self)
    then show False using assms [of "char_of c"] c by (simp add: ascii_def code_def)
  qed
  show "utf8_bytes c \<noteq> []" by (simp add: utf8_bytes_def)
  define lead2 lead3 lead4 mid4 mid tail :: char where
    "lead2 = char_of (0xC0 + c div 64 mod 32)" and "lead3 = char_of (0xE0 + c div 4096 mod 16)"
    and "lead4 = char_of (0xF0 + c div 262144 mod 8)" and "mid4 = char_of (0x80 + c div 4096 mod 64)"
    and "mid = char_of (0x80 + c div 64 mod 64)" and "tail = char_of (0x80 + c mod 64)"
  note parts = this
  have u: "utf8_bytes c = (if c < 0x800 then [lead2, tail] else if c < 0x10000 then [lead3, mid, tail] else [lead4, mid4, mid, tail])"
    using no by (simp only: utf8_bytes_def parts if_False)
  have "\<not> ascii lead2" "\<not> ascii lead3" "\<not> ascii lead4" "\<not> ascii mid4" "\<not> ascii mid" "\<not> ascii tail"
    unfolding parts by (rule wide; simp)+
  then show "\<not> ascii b" if "b \<in> set (utf8_bytes c)"
    using that unfolding u by (auto split: if_splits)
qed

text \<open>Where a comment that is open \<open>depth\<close> times ends: what is left open and the bytes behind it.\<close>

fun close_at :: "nat \<Rightarrow> bytes \<Rightarrow> nat \<times> bytes" where
  "close_at 0 bs = (0, bs)"
| "close_at (Suc d) [] = (Suc d, [])"
| "close_at (Suc d) [b] = (Suc d, [])"
| "close_at (Suc d) (b # c # bs) =
     (if b = CHR ''/'' \<and> c = CHR ''*'' then close_at (Suc (Suc d)) bs
      else if b = CHR ''*'' \<and> c = CHR ''/'' then close_at d bs
      else close_at (Suc d) (c # bs))"

lemma close_at_other: "b \<noteq> CHR ''/'' \<Longrightarrow> b \<noteq> CHR ''*'' \<Longrightarrow> close_at (Suc d) (b # bs) = close_at (Suc d) bs"
  by (cases bs) simp_all

lemma close_at_others: "\<forall>b \<in> set xs. b \<noteq> CHR ''/'' \<and> b \<noteq> CHR ''*'' \<Longrightarrow> close_at (Suc d) (xs @ bs) = close_at (Suc d) bs"
  by (induction xs) (simp_all add: close_at_other)

lemma close_at_step:
  "depth > 0 \<Longrightarrow> i < length bs \<Longrightarrow> close_at depth (drop i bs) =
    (if bs ! i = CHR ''/'' \<and> i + 1 < length bs \<and> bs ! (i + 1) = CHR ''*'' then close_at (depth + 1) (drop (i + 2) bs)
     else if bs ! i = CHR ''*'' \<and> i + 1 < length bs \<and> bs ! (i + 1) = CHR ''/'' then close_at (depth - 1) (drop (i + 2) bs)
     else close_at depth (drop (i + 1) bs))"
  by (cases depth; cases "i + 1 < length bs")
    (simp_all add: Cons_nth_drop_Suc [symmetric] numeral_2_eq_2)

text \<open>Both loops of the lexer end there, the one that skips trivia and the one that looks ahead.\<close>

lemma comment_index_closes:
  "close_at depth (drop i bs) = (snd (comment_index bs i depth), drop (fst (comment_index bs i depth)) bs)"
proof (induction bs i depth rule: comment_index.induct)
  case (1 bs i depth)
  show ?case
  proof (cases "i < length bs \<and> depth > 0")
    case True
    then show ?thesis using 1 close_at_step [of depth i bs] by (subst (1 2) comment_index.simps) simp
  next
    case False
    then show ?thesis by (subst (1 2) comment_index.simps) (cases depth; auto)
  qed
qed

lemma block_comment_loop_closes:
  "close_at depth (drop (lx_pos lx) (lx_bytes lx)) =
     (fst (block_comment_loop depth lx), drop (lx_pos (snd (block_comment_loop depth lx))) (lx_bytes lx))"
proof (induction depth lx rule: block_comment_loop.induct)
  case (1 depth lx)
  let ?i = "lx_pos lx" and ?bs = "lx_bytes lx"
  show ?case
  proof (cases "\<not> at_end lx \<and> depth > 0")
    case True
    have "peek lx 0 = ?bs ! ?i" "peek lx 1 = CHR ''*'' \<longleftrightarrow> ?i + 1 < length ?bs \<and> ?bs ! (?i + 1) = CHR ''*''"
      "peek lx 1 = CHR ''/'' \<longleftrightarrow> ?i + 1 < length ?bs \<and> ?bs ! (?i + 1) = CHR ''/''"
      using True by (auto simp: peek_def at_end_def)
    then show ?thesis using True 1 close_at_step [of depth ?i ?bs]
      by (subst (1 2) block_comment_loop.simps) (simp add: advance_def at_end_def)
  next
    case False
    then show ?thesis by (subst (1 2) block_comment_loop.simps) (cases depth; auto simp: at_end_def)
  qed
qed

text \<open>And so does the scanner, on the code points the bytes spell.\<close>

lemma starts_with:
  assumes "ascii b"
  shows "(\<exists>r. utf8_text_bytes cs = b # r) \<longleftrightarrow> (\<exists>ds. cs = code b # ds)"
proof (cases cs)
  case (Cons c ds)
  show ?thesis
  proof (cases "\<exists>b'. ascii b' \<and> c = code b'")
    case False
    then have "utf8_bytes c \<noteq> []" "\<And>b. b \<in> set (utf8_bytes c) \<Longrightarrow> \<not> ascii b" using utf8_other [of c] by blast+
    then show ?thesis using assms False Cons by (cases "utf8_bytes c") auto
  qed (use Cons in auto)
qed simp

lemma comment_loop_closes:
  assumes ok: "ts_runtime_ok rt chars" and "depth > 0"
  shows "\<exists>l'. comment_loop rt (int depth) l = Some (fst (close_at depth (utf8_text_bytes (chars l))) = 0, l')
       \<and> utf8_text_bytes (chars l') = snd (close_at depth (utf8_text_bytes (chars l)))"
  using assms(2)
proof (induction "length (chars l)" arbitrary: l depth rule: less_induct)
  case less
  obtain d where d: "depth = Suc d" using less.prems by (cases depth) auto
  let ?l1 = "ts_advance rt l"
  let ?l2 = "ts_advance rt ?l1"
  have asc: "ascii (CHR ''*'')" "ascii (CHR ''/'')" by (simp_all add: ascii_def)
  show ?case
  proof (cases "chars l")
    case Nil
    then show ?thesis using ok d by (subst comment_loop.simps) (simp add: ts_simps)
  next
    case (Cons c cs)
    have l1: "chars ?l1 = cs" "chars ?l2 = tl cs" using Cons ok by (simp_all add: ts_simps)
    then have len: "length (chars ?l1) < length (chars l)" "length (chars ?l2) < length (chars l)" using Cons by simp_all
    note IH1 = less.hyps [OF len(1) less.prems] and IH2 = less.hyps [OF len(2)]
    have look: "ts_lookahead rt ?l1 = code b \<longleftrightarrow> (\<exists>ds. cs = code b # ds)" if "b \<noteq> CHR 0x00" for b
      using l1 ok that by (cases cs) (auto simp: ts_simps)
    have unfold: "comment_loop rt (int depth) l =
        (if c = code CHR ''*'' \<and> (\<exists>ds. cs = code CHR ''/'' # ds)
         then (if d = 0 then Some (True, ?l2) else comment_loop rt (int d) ?l2)
         else if c = code CHR ''/'' \<and> (\<exists>ds. cs = code CHR ''*'' # ds) then comment_loop rt (int (Suc depth)) ?l2
         else comment_loop rt (int depth) ?l1)"
      using Cons ok d look [of "CHR ''*''"] look [of "CHR ''/''"]
      by (subst comment_loop.simps) (simp add: ts_eof ts_look [of rt chars l] Let_def)
    consider (close) ds where "c = code CHR ''*''" "cs = code CHR ''/'' # ds" | (opens) ds where "c = code CHR ''/''" "cs = code CHR ''*'' # ds"
      | (plain) "\<not> (c = code CHR ''*'' \<and> (\<exists>ds. cs = code CHR ''/'' # ds))" "\<not> (c = code CHR ''/'' \<and> (\<exists>ds. cs = code CHR ''*'' # ds))"
      by blast
    then show ?thesis
    proof cases
      case close
      then show ?thesis using unfold l1 IH2 [of d] Cons d asc by (cases d) auto
    next
      case opens
      then show ?thesis using unfold l1 IH2 [of "Suc depth"] Cons d asc by auto
    next
      case plain
      have "close_at depth (utf8_text_bytes (c # cs)) = close_at depth (utf8_text_bytes cs)"
      proof (cases "c = code CHR ''*'' \<or> c = code CHR ''/''")
        case True
        then show ?thesis
          using plain asc starts_with [of "CHR ''*''" cs] starts_with [of "CHR ''/''" cs] d by (cases "utf8_text_bytes cs") auto
      next
        case False
        have "b \<noteq> CHR ''/'' \<and> b \<noteq> CHR ''*''" if "b \<in> set (utf8_bytes c)" for b
          using that False asc utf8_other(2) [of c b] by (metis utf8_ascii empty_set insertE list.simps(15) emptyE)
        then show ?thesis using close_at_others [of "utf8_bytes c" d] d by simp
      qed
      then show ?thesis using unfold plain IH1 l1(1) Cons by (auto simp del: utf8_text_bytes_simps)
    qed
  qed
qed


text \<open>
  C27. The editor grammar closes a block comment exactly where the compiler's lexer does.  Let the lexer stand on the
  opener, and the scanner behind it on the same text, which the lexer reads as UTF-8 bytes and the scanner as code
  points.  The step of \<^verbatim>\<open>skip_trivia\<close> that takes the comment and the scanner's loop end in front of the
  same text, and the scanner gives up on exactly the comments that the lexer reports as unterminated.
\<close>

theorem block_comments_agree:
  assumes "ts_runtime_ok rt chars" and "peek lx 0 = CHR ''/''" "peek lx 1 = CHR ''*''"
    and "drop (lx_pos lx + 2) (lx_bytes lx) = utf8_text_bytes (chars l)"
  shows "\<exists>lx' l'. trivia_step lx = Some lx' \<and> skip_block_comment rt l = Some (lx_diags lx' = lx_diags lx, l')
       \<and> drop (lx_pos lx') (lx_bytes lx) = utf8_text_bytes (chars l')"
proof -
  obtain d lx1 where b: "block_comment_loop 1 (advance 2 lx) = (d, lx1)" by fastforce
  have same: "lx_bytes (advance 2 lx) = lx_bytes lx" "lx_pos (advance 2 lx) = lx_pos lx + 2" "lx_diags (advance 2 lx) = lx_diags lx"
    by (simp_all add: advance_def)
  have diags: "lx_diags (snd (block_comment_loop k x)) = lx_diags x" for k x
    by (induction k x rule: block_comment_loop.induct) (subst block_comment_loop.simps, simp add: advance_def)
  have c: "close_at 1 (utf8_text_bytes (chars l)) = (d, drop (lx_pos lx1) (lx_bytes lx))"
    using block_comment_loop_closes [of 1 "advance 2 lx"] assms(4) same b by simp
  obtain l' where l': "comment_loop rt 1 l = Some (d = 0, l')" "utf8_text_bytes (chars l') = drop (lx_pos lx1) (lx_bytes lx)"
    using comment_loop_closes [OF assms(1), of 1 l] c by auto
  have "trivia_step lx = Some (lex_block_comment lx)" using assms(2,3) by (simp add: trivia_step_def is_space_def is_newline_def)
  moreover have "lx_diags (lex_block_comment lx) = lx_diags lx \<longleftrightarrow> d = 0" "lx_pos (lex_block_comment lx) = lx_pos lx1"
    using diags [of 1 "advance 2 lx"] same b
    by (auto simp: lex_block_comment_def Let_def emit_error_def push_token_def report_def)
  ultimately show ?thesis using l' by (simp add: skip_block_comment_def)
qed

text \<open>A nested comment around an accented letter.\<close>

definition comment_points :: "int list" where
  "comment_points = map code ''a/*b*/'' @ [0xE9] @ map code ''*/d''"

theorem block_comments_agree_witness:
  "\<exists>lx' l'. trivia_step (new_lexer False (''/*'' @ utf8_text_bytes comment_points) 0) = Some lx'
     \<and> skip_block_comment text_runtime comment_points = Some (lx_diags lx' = [], l')
     \<and> drop (lx_pos lx') (''/*'' @ utf8_text_bytes comment_points) = utf8_text_bytes l'"
  using block_comments_agree [OF text_runtime_ok, of "new_lexer False (''/*'' @ utf8_text_bytes comment_points) 0" comment_points]
  by (simp add: new_lexer_def peek_def)

lemma dropWhile_skip_index: "dropWhile p (drop i bs) = drop (skip_index p bs i) bs"
proof (induction p bs i rule: skip_index.induct)
  case (1 p bs i)
  then show ?case
    by (cases "i < length bs"; subst skip_index.simps) (auto simp: Cons_nth_drop_Suc [symmetric])
qed

lemma space_code [simp]: "is_horizontal_space (code c) = is_space c"
  by (simp add: is_horizontal_space_def is_space_def)

text \<open>Blanks are the same blanks as code points and as bytes.\<close>

lemma dropWhile_utf8:
  assumes "\<And>b. q b \<Longrightarrow> ascii b" "\<And>c. p c \<longleftrightarrow> (\<exists>b. q b \<and> c = code b)"
  shows "dropWhile q (utf8_text_bytes cs) = utf8_text_bytes (dropWhile p cs)"
proof (induction cs)
  case (Cons c cs)
  show ?case
  proof (cases "\<exists>b. ascii b \<and> c = code b")
    case True
    then show ?thesis using Cons assms by auto
  next
    case False
    then have "utf8_bytes c \<noteq> []" "\<And>b. b \<in> set (utf8_bytes c) \<Longrightarrow> \<not> q b" "\<not> p c"
      using utf8_other [of c] assms by blast+
    then show ?thesis by (cases "utf8_bytes c") auto
  qed
qed simp

lemma blanks_bytes:
  assumes "drop i bs = utf8_text_bytes cs"
  shows "utf8_text_bytes (dropWhile is_horizontal_space cs) = drop (skip_index is_space bs i) bs"
    "utf8_text_bytes (after_blanks cs) = drop (skip_index (\<lambda>c. is_space c \<or> is_newline c) bs i) bs"
proof -
  have "dropWhile is_space (utf8_text_bytes cs) = utf8_text_bytes (dropWhile is_horizontal_space cs)"
    by (rule dropWhile_utf8) (auto simp: is_space_def is_horizontal_space_def ascii_def)
  then show "utf8_text_bytes (dropWhile is_horizontal_space cs) = drop (skip_index is_space bs i) bs"
    by (simp add: assms flip: dropWhile_skip_index)
  have "dropWhile (\<lambda>c. is_space c \<or> is_newline c) (utf8_text_bytes cs) = utf8_text_bytes (after_blanks cs)"
    unfolding after_blanks_def
    by (rule dropWhile_utf8) (auto simp: is_space_def is_newline_def is_horizontal_space_def ascii_def)
  then show "utf8_text_bytes (after_blanks cs) = drop (skip_index (\<lambda>c. is_space c \<or> is_newline c) bs i) bs"
    by (simp add: assms flip: dropWhile_skip_index)
qed

lemma skip_index_weaker:
  "(\<And>c. p c \<Longrightarrow> q c) \<Longrightarrow> skip_index q bs (skip_index p bs i) = skip_index q bs i"
proof (induction p bs i rule: skip_index.induct)
  case (1 p bs i)
  show ?case
  proof (cases "i < length bs \<and> p (bs ! i)")
    case True
    then show ?thesis using 1 by (simp add: skip_index.simps [of p bs i] skip_index.simps [of q bs i])
  next
    case False
    then show ?thesis by (subst skip_index.simps [of p bs i]) auto
  qed
qed



text \<open>
  A line comment between the newline and a member access: the lexer looks past the comment, sees the dot and
  suppresses the semicolon; the scanner sees the slash and ends the statement.
\<close>

lemma gap_line_comment:
  assumes "skip_index (\<lambda>c. is_space c \<or> is_newline c) bs i = k" "byte_at bs k = CHR ''/''" "byte_at bs (Suc k) = CHR ''/''"
  shows "gap_step bs i = Again (skip_index (\<lambda>c. \<not> is_newline c) bs (Suc (Suc k)))"
  using assms by (simp add: gap_step_def Let_def)

lemma gap_stops:
  assumes "skip_index (\<lambda>c. is_space c \<or> is_newline c) bs i = k" "byte_at bs k \<noteq> CHR ''/''"
  shows "gap_step bs i = Stop k"
  using assms by (simp add: gap_step_def Let_def)

lemma comment_before_member_disagrees:
  assumes ok: "ts_runtime_ok rt chars"
    and src: "chars (ts_cursor lx) = map code (CHR 0x0A # ''//'' @ words @ CHR 0x0A # CHR ''.'' # rest)"
    and no_break: "CHR 0x0A \<notin> set words"
  shows "(\<exists>lx'. scan_newline rt lx = Some (True, lx'))
    \<and> suppress_semi (next_kind_at (CHR 0x0A # ''//'' @ words @ CHR 0x0A # CHR ''.'' # rest) 1)"
proof
  have "line_ends (chars (ts_cursor lx))"
    "after_blanks (chars (ts_cursor lx)) = map code (''//'' @ words @ CHR 0x0A # CHR ''.'' # rest)"
    using src by (simp_all add: line_ends_def after_blanks_def is_space_def)
  then show "\<exists>lx'. scan_newline rt lx = Some (True, lx')"
    using skip_to_next_line_returns [OF ok, of "ts_cursor lx"] ok
    by (auto simp: scan_newline_def continues_after_newline_def ts_simps)
  let ?bs = "CHR 0x0A # ''//'' @ words @ CHR 0x0A # CHR ''.'' # rest"
  let ?k = "Suc (Suc (Suc (length words)))"
  have "dropWhile (\<lambda>c. \<not> is_newline c) (drop 3 ?bs) = CHR 0x0A # CHR ''.'' # rest"
  proof -
    have "drop 3 ?bs = words @ CHR 0x0A # CHR ''.'' # rest" by (simp add: numeral_3_eq_3)
    moreover have "\<not> is_newline c" if "c \<in> set words" for c using that no_break by (auto simp: is_newline_def)
    ultimately show ?thesis using dropWhile_append2 [of words "\<lambda>c. \<not> is_newline c" "CHR 0x0A # CHR ''.'' # rest"]
      by (simp add: is_newline_def)
  qed
  then have d: "drop (skip_index (\<lambda>c. \<not> is_newline c) ?bs 3) ?bs = drop ?k ?bs"
    unfolding dropWhile_skip_index by (simp add: numeral_3_eq_3)
  let ?m = "skip_index (\<lambda>c. \<not> is_newline c) ?bs 3"
  have "length (drop ?m ?bs) = length (drop ?k ?bs)" using d by simp
  then have m: "?m = ?k" by (simp add: numeral_3_eq_3)
  have s1: "skip_index (\<lambda>c. is_space c \<or> is_newline c) ?bs 1 = 1"
    by (subst skip_index.simps) (simp add: is_space_def is_newline_def)
  have a: "gap_step ?bs 1 = Again ?k"
    using gap_line_comment [OF s1] m by (simp add: byte_at_def numeral_3_eq_3)
  have s2: "skip_index (\<lambda>c. is_space c \<or> is_newline c) ?bs ?k = Suc ?k"
    by (subst skip_index.simps, subst skip_index.simps) (simp add: is_space_def is_newline_def nth_append numeral_3_eq_3)
  have b: "gap_step ?bs ?k = Stop (Suc ?k)"
    by (rule gap_stops [OF s2]) (simp add: byte_at_def nth_append)
  have "next_kind_at ?bs 1 = TkDot"
    using a b by (subst next_kind_at.simps, simp, subst next_kind_at.simps)
      (simp add: is_alpha_def between_def nth_append numeral_3_eq_3)
  then show "suppress_semi (next_kind_at ?bs 1)" by (simp add: suppress_semi_def)
qed

subsection \<open>The brace of a header, and a newline that swallows a slash\<close>

lemma scan_block_lbrace_exact:
  assumes ok: "ts_runtime_ok rt chars" and "scan_block_lbrace rt sc lx = Some (b, sc1, lx1)"
  shows "b \<longleftrightarrow> \<not> newline_before_brace sc
      \<and> (\<exists>cs. dropWhile is_horizontal_space (chars (ts_cursor lx)) = code CHR ''{'' # cs)"
    and "newline_before_brace sc1 \<longleftrightarrow> newline_before_brace sc \<or> line_ends (chars (ts_cursor lx))"
proof -
  let ?cs = "chars (ts_cursor lx)"
  obtain l' where l': "skip_to_next_line rt (ts_cursor lx) = Some (line_ends ?cs, l')"
      "\<not> line_ends ?cs \<Longrightarrow> chars l' = dropWhile is_horizontal_space ?cs"
    using skip_to_next_line_returns [OF ok, of "ts_cursor lx"] by (auto split: if_splits)
  have brace: "\<not> line_ends ?cs" if "dropWhile is_horizontal_space ?cs = code CHR ''{'' # cs" for cs
    using that by (simp add: line_ends_def)
  have look: "ts_lookahead rt l' = code CHR ''{'' \<longleftrightarrow> (\<exists>cs. chars l' = code CHR ''{'' # cs)"
    using ok by (cases "chars l'") (auto simp: ts_simps)
  show "b \<longleftrightarrow> \<not> newline_before_brace sc
      \<and> (\<exists>cs. dropWhile is_horizontal_space ?cs = code CHR ''{'' # cs)"
    using assms(2) l' look brace by (cases "line_ends ?cs") (auto simp: scan_block_lbrace_def split: if_splits)
  show "newline_before_brace sc1 \<longleftrightarrow> newline_before_brace sc \<or> line_ends ?cs"
    using assms(2) l' by (auto simp: scan_block_lbrace_def split: if_splits)
qed

text \<open>
  The scanner gives the opening brace of a block exactly when the parser asks for one, no
  newline was seen between the header and the brace, and the next character after blanks on the
  same line is a brace.
\<close>

theorem block_brace_on_header_line:
  assumes ok: "ts_runtime_ok rt chars" and "valid BLOCK_LBRACE"
    and "scanner_scan rt valid sc lx = Some (a, sc', lx')"
  shows "(a \<and> result_symbol lx' = Some BLOCK_LBRACE
      \<longleftrightarrow> \<not> newline_before_brace sc
        \<and> (\<exists>cs. dropWhile is_horizontal_space (chars (ts_cursor lx)) = code CHR ''{'' # cs))
    \<and> (newline_before_brace sc' \<longleftrightarrow> newline_before_brace sc \<or> line_ends (chars (ts_cursor lx)))"
proof -
  obtain b sc1 lx1 where 1: "scan_block_lbrace rt sc lx = Some (b, sc1, lx1)"
      "scans_token chars BLOCK_LBRACE lx b lx1"
    using scan_block_lbrace_returns [OF ok] by blast
  have b: "b \<longleftrightarrow> \<not> newline_before_brace sc
      \<and> (\<exists>cs. dropWhile is_horizontal_space (chars (ts_cursor lx)) = code CHR ''{'' # cs)"
    and flag: "newline_before_brace sc1 \<longleftrightarrow> newline_before_brace sc \<or> line_ends (chars (ts_cursor lx))"
    using scan_block_lbrace_exact [OF ok 1(1)] by blast+
  obtain c lx2 where 2: "scan_others rt valid lx1 = Some (c, lx2)"
      "scans_valid chars (\<lambda>t. valid t \<and> t \<noteq> BLOCK_LBRACE) lx1 c lx2"
    using scan_others_returns [OF ok] by blast
  have "a \<and> result_symbol lx' = Some BLOCK_LBRACE \<longleftrightarrow> \<not> newline_before_brace sc
      \<and> (\<exists>cs. dropWhile is_horizontal_space (chars (ts_cursor lx)) = code CHR ''{'' # cs)"
    using assms(2,3) 1 2 b
    by (cases b) (auto simp: scanner_scan_def scans_token_def scans_valid_def split: if_splits)
  moreover have "newline_before_brace sc' \<longleftrightarrow> newline_before_brace sc \<or> line_ends (chars (ts_cursor lx))"
    using assms(2,3) 1 2 flag by (cases b) (auto simp: scanner_scan_def)
  ultimately show ?thesis by blast
qed

theorem block_brace_on_header_line_witness:
  "(True \<and> Some BLOCK_LBRACE = Some BLOCK_LBRACE
      \<longleftrightarrow> \<not> newline_before_brace scanner_create
        \<and> (\<exists>cs. dropWhile is_horizontal_space (map code '' {a'') = code CHR ''{'' # cs))
    \<and> (newline_before_brace scanner_create
        \<longleftrightarrow> newline_before_brace scanner_create \<or> line_ends (map code '' {a''))"
  using block_brace_on_header_line [OF text_runtime_ok, of "\<lambda>t. t = BLOCK_LBRACE" scanner_create
      "\<lparr>ts_cursor = map code '' {a'', result_symbol = None\<rparr>" True scanner_create
      "\<lparr>ts_cursor = map code ''a'', result_symbol = Some BLOCK_LBRACE\<rparr>"]
  by (simp add: scanner_scan_def scan_block_lbrace_def skip_to_next_line_def scanner_create_def
      text_runtime_def skip_while.simps ts_skip_def ts_advance_def is_space_def)

text \<open>
  When the parser accepts a comment or a line end and the cursor stands on a slash followed by
  a line end, the scanner steps over the slash looking for a comment and then reports the line
  end: the division operator of an expression continued on the next line is lost, while the
  compiler's lexer reads it as a token.
\<close>

theorem slash_before_newline_swallowed:
  assumes ok: "ts_runtime_ok rt chars"
    and "chars (ts_cursor lx) = code CHR ''/'' # code CHR 0x0A # code c # rest"
    and "c \<notin> {CHR '' '', CHR 0x09, CHR 0x0D, CHR 0x0A}"
    and "c \<notin> {CHR '','', CHR '')'', CHR '']'', CHR ''}'', CHR ''.''}"
    and "valid BLOCK_COMMENT" "valid NEWLINE" "\<not> valid BLOCK_LBRACE"
  shows "\<exists>sc' lx'. scanner_scan rt valid sc lx = Some (True, sc', lx')
     \<and> result_symbol lx' = Some NEWLINE \<and> chars (ts_cursor lx') = code c # rest"
proof -
  let ?l1 = "ts_advance rt (ts_cursor lx)"
  have l1: "chars ?l1 = code CHR 0x0A # code c # rest" using ok assms(2) by (simp add: ts_simps)
  have "line_ends (chars ?l1)" "after_blanks (chars ?l1) = code c # rest"
    using l1 assms(3) by (auto simp: line_ends_def after_blanks_def is_space_def)
  then obtain l' where l': "skip_to_next_line rt ?l1 = Some (True, l')" "chars l' = code c # rest"
    using skip_to_next_line_returns [OF ok, of ?l1] by auto
  have "scan_block_comment rt lx = Some (False, lx\<lparr>ts_cursor := ?l1\<rparr>)"
    using ok assms(2) l1 by (simp add: scan_block_comment_def ts_simps)
  moreover have "scan_newline rt (lx\<lparr>ts_cursor := ?l1\<rparr>)
      = Some (True, lx\<lparr>ts_cursor := ts_mark_end_fn rt l', result_symbol := Some NEWLINE\<rparr>)"
    using ok l' assms(4) by (auto simp: scan_newline_def continues_after_newline_def ts_simps)
  ultimately show ?thesis using assms(5-7) ok l'(2)
    by (simp add: scanner_scan_def scan_others_def scan_clause_def ts_simps)
qed


theorem slash_before_newline_swallowed_witness:
  "\<exists>sc' lx'. scanner_scan text_runtime (\<lambda>t. t = NEWLINE \<or> t = BLOCK_COMMENT) scanner_create
       \<lparr>ts_cursor = map code [CHR ''/'', CHR 0x0A, CHR ''b''], result_symbol = None\<rparr> = Some (True, sc', lx')
     \<and> result_symbol lx' = Some NEWLINE \<and> ts_cursor lx' = [code CHR ''b'']"
  by (rule slash_before_newline_swallowed [OF text_runtime_ok]) simp_all

text \<open>Serializing the scanner's state and reading it back gives the state again.\<close>

lemma scanner_roundtrip: "scanner_deserialize sc0 (scanner_serialize sc) = sc"
  by (simp add: scanner_deserialize_def scanner_serialize_def)

end
