(* ===== verification/Diag_Bag.thy ===== *)
theory Diag_Bag
  imports Linear_Probing Lexer_Token "HOL-Library.Sublist"
begin

text \<open>
  The diagnostic bag of \<^verbatim>\<open>src/src/diag/bag.{h,cc}\<close> with the data of \<^verbatim>\<open>diagnostic.h\<close> and
  \<^verbatim>\<open>stage.{h,cc}\<close>.  The arena the bag allocates from (\<^verbatim>\<open>fpag/mem/arena.h\<close>) and the digest
  behind \<^verbatim>\<open>base::hash64\<close> (xxHash) are not part of the repository: they are the parameters
  \<open>ops\<close> and \<open>h64\<close>, with \<open>arena_ok\<close> saying what the arena documents.  Sizes and alignments of the
  C++ structures are part of \<open>ops\<close> too.  A string view into the arena is the text it shows.
  The text a message is formatted to is an argument: the catalog of translations is not modelled.
\<close>

subsection \<open>Diagnostics\<close>

datatype severity = Note | Warning | Error

datatype stage =
  StLexer | StParser | StAnalyzer | StLowering | StBorrow | StIr | StPkg | StPipeline
| StCodegenLlvm | StCodegenNative | StLint

record check_code =
  cc_stage :: stage
  cc_id :: u8

fun stage_letter :: "stage \<Rightarrow> char" where
  "stage_letter StLexer = CHR ''A''"
| "stage_letter StParser = CHR ''B''"
| "stage_letter StAnalyzer = CHR ''C''"
| "stage_letter StLowering = CHR ''D''"
| "stage_letter StBorrow = CHR ''F''"
| "stage_letter StIr = CHR ''G''"
| "stage_letter StPkg = CHR ''H''"
| "stage_letter StPipeline = CHR ''I''"
| "stage_letter StCodegenLlvm = CHR ''J''"
| "stage_letter StCodegenNative = CHR ''K''"
| "stage_letter StLint = CHR ''L''"

record label =
  lb_span :: span
  lb_message :: bytes

record diag_fix =
  fx_span :: span
  fx_replacement :: bytes

record diagnostic =
  dg_severity :: severity
  dg_code :: "check_code option"
  dg_check_name :: bytes
  dg_message :: bytes
  dg_has_primary :: bool
  dg_primary :: span
  dg_labels :: "label list"
  dg_fix :: "diag_fix option"

definition no_span :: span where
  "no_span = \<lparr>span_file = 2 ^ 32 - 1, span_offset = 0, span_length = 0\<rparr>"

definition message :: "severity \<Rightarrow> bytes \<Rightarrow> diagnostic" where
  "message sev txt = \<lparr>dg_severity = sev, dg_code = None, dg_check_name = [], dg_message = txt,
     dg_has_primary = False, dg_primary = no_span, dg_labels = [], dg_fix = None\<rparr>"

subsection \<open>The bag and its arena\<close>

record 'a arena_ops =
  ar_size :: "'a \<Rightarrow> nat"
  ar_capacity :: "'a \<Rightarrow> nat"
  ar_alloc :: "'a \<Rightarrow> nat \<Rightarrow> nat \<Rightarrow> bool \<times> 'a"
  sizeof_diagnostic :: nat
  alignof_diagnostic :: nat
  sizeof_label :: nat
  alignof_label :: nat
  sizeof_fix :: nat
  alignof_fix :: nat

record 'a diag_bag =
  db_arena :: 'a
  db_entries :: "diagnostic list"
  db_capacity :: nat
  db_error_count :: nat
  db_warning_count :: nat
  db_dropped_count :: u32
  db_dropped_errors :: u32

datatype bag_error = InvalidIndex

definition new_bag :: "'a \<Rightarrow> 'a diag_bag" where
  "new_bag arena = \<lparr>db_arena = arena, db_entries = [], db_capacity = 0, db_error_count = 0,
     db_warning_count = 0, db_dropped_count = 0, db_dropped_errors = 0\<rparr>"

abbreviation bag_size :: "'a diag_bag \<Rightarrow> nat" where
  "bag_size b \<equiv> length (db_entries b)"

definition INITIAL_CAPACITY :: nat where
  "INITIAL_CAPACITY = 8"

definition MAX_MESSAGE_BYTES :: nat where
  "MAX_MESSAGE_BYTES = 1024"

definition grown_capacity :: "'a diag_bag \<Rightarrow> nat" where
  "grown_capacity b =
     (if db_capacity b = 0 then INITIAL_CAPACITY
      else if db_capacity b > (2 ^ 32 - 1) div 2 then 2 ^ 32 - 1
      else db_capacity b * 2)"

definition padding_for :: "nat \<Rightarrow> nat \<Rightarrow> nat" where
  "padding_for at align = (let misaligned = at mod align in if misaligned = 0 then 0 else align - misaligned)"

definition has_room_for :: "'a arena_ops \<Rightarrow> 'a diag_bag \<Rightarrow> nat \<Rightarrow> nat \<Rightarrow> bool" where
  "has_room_for ops b n align =
     (let at = ar_size ops (db_arena b)
      in ar_capacity ops (db_arena b) - at \<ge> padding_for at align + n)"

definition drop_diag :: "severity \<Rightarrow> 'a diag_bag \<Rightarrow> nat \<times> 'a diag_bag" where
  "drop_diag sev b =
     (bag_size b,
      b\<lparr>db_dropped_count := db_dropped_count b + 1,
        db_dropped_errors := db_dropped_errors b + (if sev = Error then 1 else 0)\<rparr>)"

text \<open>\<^verbatim>\<open>alloc\<close> and a test for null: the arena afterwards and whether there is memory.\<close>

definition alloc :: "'a arena_ops \<Rightarrow> nat \<Rightarrow> nat \<Rightarrow> 'a diag_bag \<Rightarrow> bool \<times> 'a diag_bag" where
  "alloc ops n align b =
     (case ar_alloc ops (db_arena b) n align of (ok, a) \<Rightarrow> (ok, b\<lparr>db_arena := a\<rparr>))"

definition intern :: "'a arena_ops \<Rightarrow> bytes \<Rightarrow> 'a diag_bag \<Rightarrow> bytes \<times> 'a diag_bag" where
  "intern ops bs b =
     (if bs = [] then ([], b)
      else case alloc ops (length bs) 1 b of (ok, b') \<Rightarrow> (if ok then bs else [], b'))"

definition clip :: "bytes \<Rightarrow> bytes" where
  "clip msg = (if length msg > MAX_MESSAGE_BYTES then take MAX_MESSAGE_BYTES msg @ ''...'' else msg)"

definition count_severity :: "severity \<Rightarrow> 'a diag_bag \<Rightarrow> 'a diag_bag" where
  "count_severity sev b =
     (case sev of
        Error \<Rightarrow> b\<lparr>db_error_count := db_error_count b + 1\<rparr>
      | Warning \<Rightarrow> b\<lparr>db_warning_count := db_warning_count b + 1\<rparr>
      | Note \<Rightarrow> b)"

text \<open>The growth step of \<^verbatim>\<open>push\<close>: \<^term>\<open>False\<close> is a null from the arena.\<close>

definition grow_entries :: "'a arena_ops \<Rightarrow> 'a diag_bag \<Rightarrow> bool \<times> 'a diag_bag" where
  "grow_entries ops b =
     (case alloc ops (sizeof_diagnostic ops * grown_capacity b) (alignof_diagnostic ops) b of
        (ok, b') \<Rightarrow> if ok then (True, b'\<lparr>db_capacity := grown_capacity b\<rparr>) else (False, b'))"

definition push ::
    "'a arena_ops \<Rightarrow> severity \<Rightarrow> check_code option \<Rightarrow> span \<Rightarrow> bool \<Rightarrow> bytes \<Rightarrow> 'a diag_bag
     \<Rightarrow> nat \<times> 'a diag_bag" where
  "push ops sev code primary has_primary msg0 b =
     (let msg = clip msg0;
          growth = (if bag_size b = db_capacity b then sizeof_diagnostic ops * grown_capacity b else 0);
          align = (if growth = 0 then 1 else alignof_diagnostic ops) in
      if \<not> has_room_for ops b (growth + length msg) align then drop_diag sev b
      else case (if growth \<noteq> 0 then grow_entries ops b else (True, b)) of
        (False, b1) \<Rightarrow> drop_diag sev b1
      | (True, b1) \<Rightarrow>
          (case intern ops msg b1 of
             (owned, b2) \<Rightarrow>
               (bag_size b,
                count_severity sev
                  (b2\<lparr>db_entries := db_entries b2 @
                    [\<lparr>dg_severity = sev, dg_code = code, dg_check_name = [], dg_message = owned,
                      dg_has_primary = has_primary, dg_primary = primary, dg_labels = [],
                      dg_fix = None\<rparr>]\<rparr>))))"

text \<open>The emitters: the catalog's severity and stage for the message, and the text it formats to.\<close>

record message_meta =
  mm_severity :: severity
  mm_stage :: stage

definition emit_with ::
    "'a arena_ops \<Rightarrow> severity \<Rightarrow> stage \<Rightarrow> u8 \<Rightarrow> span \<Rightarrow> bool \<Rightarrow> bytes \<Rightarrow> 'a diag_bag \<Rightarrow> nat \<times> 'a diag_bag" where
  "emit_with ops sev st i primary has_primary formatted b =
     push ops sev (Some \<lparr>cc_stage = st, cc_id = i\<rparr>) primary has_primary formatted b"

definition emit :: "'a arena_ops \<Rightarrow> message_meta \<Rightarrow> u8 \<Rightarrow> bytes \<Rightarrow> 'a diag_bag \<Rightarrow> nat \<times> 'a diag_bag" where
  "emit ops meta i formatted b = emit_with ops (mm_severity meta) (mm_stage meta) i no_span False formatted b"

definition emit_at ::
    "'a arena_ops \<Rightarrow> message_meta \<Rightarrow> u8 \<Rightarrow> span \<Rightarrow> bytes \<Rightarrow> 'a diag_bag \<Rightarrow> nat \<times> 'a diag_bag" where
  "emit_at ops meta i primary formatted b =
     emit_with ops (mm_severity meta) (mm_stage meta) i primary True formatted b"

definition update_entry :: "nat \<Rightarrow> (diagnostic \<Rightarrow> diagnostic) \<Rightarrow> 'a diag_bag \<Rightarrow> 'a diag_bag" where
  "update_entry i f b = b\<lparr>db_entries := (db_entries b)[i := f (db_entries b ! i)]\<rparr>"

definition emit_named ::
    "'a arena_ops \<Rightarrow> severity \<Rightarrow> message_meta \<Rightarrow> u8 \<Rightarrow> bytes \<Rightarrow> span \<Rightarrow> bytes \<Rightarrow> 'a diag_bag
     \<Rightarrow> nat \<times> 'a diag_bag" where
  "emit_named ops sev meta i check_name primary formatted b =
     (case push ops sev (Some \<lparr>cc_stage = mm_stage meta, cc_id = i\<rparr>) primary True formatted b of
        (index, b') \<Rightarrow>
          (index, if index < bag_size b'
                  then update_entry index (\<lambda>d. d\<lparr>dg_check_name := check_name\<rparr>) b' else b'))"

definition emit_untranslated ::
    "'a arena_ops \<Rightarrow> severity \<Rightarrow> stage \<Rightarrow> u8 \<Rightarrow> bytes \<Rightarrow> 'a diag_bag \<Rightarrow> nat \<times> 'a diag_bag" where
  "emit_untranslated ops sev st i formatted b = emit_with ops sev st i no_span False formatted b"

definition emit_untranslated_at ::
    "'a arena_ops \<Rightarrow> severity \<Rightarrow> stage \<Rightarrow> u8 \<Rightarrow> span \<Rightarrow> bytes \<Rightarrow> 'a diag_bag \<Rightarrow> nat \<times> 'a diag_bag" where
  "emit_untranslated_at ops sev st i primary formatted b = emit_with ops sev st i primary True formatted b"

definition emit_message :: "'a arena_ops \<Rightarrow> severity \<Rightarrow> bytes \<Rightarrow> 'a diag_bag \<Rightarrow> nat \<times> 'a diag_bag" where
  "emit_message ops sev msg b = push ops sev None no_span False msg b"

definition add_labels :: "'a arena_ops \<Rightarrow> nat \<Rightarrow> label list \<Rightarrow> 'a diag_bag \<Rightarrow> (bag_error, unit) result \<times> 'a diag_bag" where
  "add_labels ops index labels b =
     (if index \<ge> bag_size b then (Inl InvalidIndex, b)
      else if labels = [] then (Inr (), b)
      else let needed = sizeof_label ops * length labels + sum_list (map (length \<circ> lb_message) labels) in
      if \<not> has_room_for ops b needed (alignof_label ops) then (Inr (), b)
      else case alloc ops (sizeof_label ops * length labels) (alignof_label ops) b of
        (ok, b') \<Rightarrow>
          (Inr (), if ok then update_entry index (\<lambda>d. d\<lparr>dg_labels := labels\<rparr>) b' else b'))"

definition label_composed ::
    "'a arena_ops \<Rightarrow> nat \<Rightarrow> span \<Rightarrow> bytes \<Rightarrow> 'a diag_bag \<Rightarrow> (bag_error, unit) result \<times> 'a diag_bag" where
  "label_composed ops index sp msg b =
     (if index \<ge> bag_size b then (Inl InvalidIndex, b)
      else case intern ops msg b of
        (owned, b') \<Rightarrow>
          if owned = [] \<and> msg \<noteq> [] then (Inr (), b')
          else add_labels ops index [\<lparr>lb_span = sp, lb_message = owned\<rparr>] b')"

definition attach_fix :: "'a arena_ops \<Rightarrow> nat \<Rightarrow> diag_fix \<Rightarrow> 'a diag_bag \<Rightarrow> (bag_error, unit) result \<times> 'a diag_bag" where
  "attach_fix ops index repl b =
     (if index \<ge> bag_size b then (Inl InvalidIndex, b)
      else let needed = sizeof_fix ops + length (fx_replacement repl) in
      if \<not> has_room_for ops b needed (alignof_fix ops) then (Inr (), b)
      else case alloc ops (sizeof_fix ops) (alignof_fix ops) b of
        (False, b') \<Rightarrow> (Inr (), b')
      | (True, b') \<Rightarrow>
          (case intern ops (fx_replacement repl) b' of
             (owned, b'') \<Rightarrow>
               (Inr (), update_entry index
                  (\<lambda>d. d\<lparr>dg_fix := Some \<lparr>fx_span = fx_span repl, fx_replacement = owned\<rparr>\<rparr>) b'')))"

definition diag_at :: "nat \<Rightarrow> 'a diag_bag \<Rightarrow> diagnostic option" where
  "diag_at index b = (if index \<ge> bag_size b then None else Some (db_entries b ! index))"

definition has_errors :: "'a diag_bag \<Rightarrow> bool" where
  "has_errors b \<longleftrightarrow> db_error_count b > 0 \<or> db_dropped_errors b > 0"

definition truncate_bag :: "nat \<Rightarrow> 'a diag_bag \<Rightarrow> 'a diag_bag" where
  "truncate_bag n b =
     (if n \<ge> bag_size b then b
      else fold (\<lambda>d b. count_severity (dg_severity d) b) (take n (db_entries b))
             (b\<lparr>db_entries := take n (db_entries b), db_error_count := 0, db_warning_count := 0\<rparr>))"

subsection \<open>Duplicates\<close>

definition same_span :: "span \<Rightarrow> span \<Rightarrow> bool" where
  "same_span a b \<longleftrightarrow> span_file a = span_file b \<and> span_offset a = span_offset b \<and> span_length a = span_length b"

definition same_diagnostic :: "diagnostic \<Rightarrow> diagnostic \<Rightarrow> bool" where
  "same_diagnostic a b \<longleftrightarrow>
     \<not> (dg_severity a \<noteq> dg_severity b \<or> dg_code a \<noteq> dg_code b \<or> dg_check_name a \<noteq> dg_check_name b
        \<or> dg_has_primary a \<noteq> dg_has_primary b \<or> dg_message a \<noteq> dg_message b
        \<or> length (dg_labels a) \<noteq> length (dg_labels b))
   \<and> \<not> (dg_has_primary a \<and> \<not> same_span (dg_primary a) (dg_primary b))
   \<and> (\<forall>i < length (dg_labels a).
        same_span (lb_span (dg_labels a ! i)) (lb_span (dg_labels b ! i))
      \<and> lb_message (dg_labels a ! i) = lb_message (dg_labels b ! i))"

definition mix :: "u64 \<Rightarrow> u8 list" where
  "mix v = map (\<lambda>i. ucast (drop_bit (8 * i) v)) [0..<8]"

definition mix_text :: "bytes \<Rightarrow> u8 list" where
  "mix_text bs = map of_char bs"

fun severity_number :: "severity \<Rightarrow> u64" where
  "severity_number Note = 0"
| "severity_number Warning = 1"
| "severity_number Error = 2"

fun stage_number :: "stage \<Rightarrow> u64" where
  "stage_number StLexer = 0"
| "stage_number StParser = 1"
| "stage_number StAnalyzer = 2"
| "stage_number StLowering = 3"
| "stage_number StBorrow = 4"
| "stage_number StIr = 5"
| "stage_number StPkg = 6"
| "stage_number StPipeline = 7"
| "stage_number StCodegenLlvm = 8"
| "stage_number StCodegenNative = 9"
| "stage_number StLint = 10"

definition mix_span :: "span \<Rightarrow> u8 list" where
  "mix_span sp = mix (of_nat (span_file sp)) @ mix (of_nat (span_offset sp)) @ mix (of_nat (span_length sp))"

definition hash_diagnostic :: "(u8 list \<Rightarrow> u64) \<Rightarrow> diagnostic \<Rightarrow> u64" where
  "hash_diagnostic h64 d = h64
     (mix (severity_number (dg_severity d))
      @ mix (case dg_code d of
               Some c \<Rightarrow> push_bit 8 (stage_number (cc_stage c)) OR ucast (cc_id c)
             | None \<Rightarrow> push_bit 32 1)
      @ mix_text (dg_check_name d)
      @ mix (if dg_has_primary d then 1 else 0)
      @ (if dg_has_primary d then mix_span (dg_primary d) else [])
      @ mix_text (dg_message d)
      @ mix (of_nat (length (dg_labels d)))
      @ concat (map (\<lambda>l. mix_span (lb_span l) @ mix_text (lb_message l)) (dg_labels d)))"

function dedup_table_size :: "nat \<Rightarrow> nat \<Rightarrow> nat" where
  "dedup_table_size n table_size =
     (if 0 < table_size \<and> table_size < n * 2 then dedup_table_size n (table_size * 2) else table_size)"
  by pat_completeness auto
termination by (relation "measure (\<lambda>(n, t). n * 2 - t)") auto

declare dedup_table_size.simps [simp del]

definition EMPTY :: nat where
  "EMPTY = 2 ^ 32 - 1"

text \<open>The probe of one entry; the fuel is the number of slots.  It answers whether a duplicate was
  met, and the slot where the loop ended.\<close>

fun dedup_probe :: "nat \<Rightarrow> diagnostic list \<Rightarrow> nat list \<Rightarrow> diagnostic \<Rightarrow> nat \<Rightarrow> (bool \<times> nat) option" where
  "dedup_probe 0 es table d slot = None"
| "dedup_probe (Suc fuel) es table d slot =
     (if table ! slot = EMPTY then Some (False, slot)
      else if same_diagnostic (es ! (table ! slot)) d then Some (True, slot)
      else dedup_probe fuel es table d ((slot + 1) AND (length table - 1)))"

record dedup_state =
  dd_entries :: "diagnostic list"
  dd_table :: "nat list"
  dd_kept :: nat
  dd_errors :: nat
  dd_warnings :: nat

definition dedup_step :: "(u8 list \<Rightarrow> u64) \<Rightarrow> nat \<Rightarrow> dedup_state \<Rightarrow> dedup_state option" where
  "dedup_step h64 i s =
     (let d = dd_entries s ! i; table = dd_table s;
          home = unat (hash_diagnostic h64 d) AND (length table - 1) in
      case dedup_probe (length table) (dd_entries s) table d home of
        None \<Rightarrow> None
      | Some (True, _) \<Rightarrow> Some s
      | Some (False, slot) \<Rightarrow>
          Some \<lparr>dd_entries = (if i \<noteq> dd_kept s then (dd_entries s)[dd_kept s := d] else dd_entries s),
                dd_table = table[slot := dd_kept s],
                dd_kept = dd_kept s + 1,
                dd_errors = dd_errors s + (if dg_severity d = Error then 1 else 0),
                dd_warnings = dd_warnings s + (if dg_severity d = Warning then 1 else 0)\<rparr>)"

fun dedup_loop :: "(u8 list \<Rightarrow> u64) \<Rightarrow> nat list \<Rightarrow> dedup_state \<Rightarrow> dedup_state option" where
  "dedup_loop h64 [] s = Some s"
| "dedup_loop h64 (i # is) s =
     (case dedup_step h64 i s of None \<Rightarrow> None | Some s' \<Rightarrow> dedup_loop h64 is s')"

definition dedup :: "(u8 list \<Rightarrow> u64) \<Rightarrow> 'a diag_bag \<Rightarrow> 'a diag_bag option" where
  "dedup h64 b =
     (if bag_size b < 2 then Some b
      else case dedup_loop h64 [0..<bag_size b]
             \<lparr>dd_entries = db_entries b, dd_table = replicate (dedup_table_size (bag_size b) 8) EMPTY,
              dd_kept = 0, dd_errors = 0, dd_warnings = 0\<rparr> of
        None \<Rightarrow> None
      | Some s \<Rightarrow> Some (b\<lparr>db_entries := take (dd_kept s) (dd_entries s),
                         db_error_count := dd_errors s, db_warning_count := dd_warnings s\<rparr>))"

subsection \<open>Merging\<close>

fun intern_labels :: "'a arena_ops \<Rightarrow> label list \<Rightarrow> 'a diag_bag \<Rightarrow> label list \<times> 'a diag_bag" where
  "intern_labels ops [] b = ([], b)"
| "intern_labels ops (l # ls) b =
     (case intern ops (lb_message l) b of
        (owned, b1) \<Rightarrow> (case intern_labels ops ls b1 of
          (ls', b2) \<Rightarrow> (l\<lparr>lb_message := owned\<rparr> # ls', b2)))"

definition merge_one :: "'a arena_ops \<Rightarrow> diagnostic \<Rightarrow> 'a diag_bag \<Rightarrow> 'a diag_bag" where
  "merge_one ops from b =
     (case push ops (dg_severity from) (dg_code from) (dg_primary from) (dg_has_primary from)
             (dg_message from) b of
        (at, b1) \<Rightarrow>
          if at \<ge> bag_size b1 \<or> dg_labels from = [] then b1
          else let needed = sizeof_label ops * length (dg_labels from)
                     + sum_list (map (length \<circ> lb_message) (dg_labels from)) in
          if \<not> has_room_for ops b1 needed (alignof_label ops) then b1
          else case alloc ops (sizeof_label ops * length (dg_labels from)) (alignof_label ops) b1 of
            (False, b2) \<Rightarrow> b2
          | (True, b2) \<Rightarrow>
              (case intern_labels ops (dg_labels from) b2 of
                 (labels, b3) \<Rightarrow>
                   update_entry at (\<lambda>d. d\<lparr>dg_labels := labels, dg_check_name := dg_check_name from\<rparr>) b3))"

definition merge_fix :: "'a arena_ops \<Rightarrow> nat \<times> diagnostic \<Rightarrow> 'a diag_bag \<Rightarrow> 'a diag_bag" where
  "merge_fix ops from b =
     (case from of (i, d) \<Rightarrow>
        (case dg_fix d of
           None \<Rightarrow> b
         | Some f \<Rightarrow> if i \<ge> bag_size b then b else snd (attach_fix ops i f b)))"

definition merge :: "'a arena_ops \<Rightarrow> 'b diag_bag \<Rightarrow> 'a diag_bag \<Rightarrow> 'a diag_bag" where
  "merge ops other b =
     (let b1 = fold (merge_one ops) (db_entries other) b;
          b2 = fold (merge_fix ops) (enumerate 0 (db_entries other)) b1 in
      b2\<lparr>db_dropped_count := db_dropped_count b2 + db_dropped_count other,
         db_dropped_errors := db_dropped_errors b2 + db_dropped_errors other\<rparr>)"


subsection \<open>The invariant\<close>

text \<open>What the arena documents: it never holds more than its capacity, an allocation succeeds
  exactly when it fits behind the padding its alignment needs, and a failed one changes nothing.
  The reservation is smaller than the largest entries array the bag could ask for.\<close>

definition arena_ok :: "'a arena_ops \<Rightarrow> bool" where
  "arena_ok ops \<longleftrightarrow>
     (\<forall>a. ar_size ops a \<le> ar_capacity ops a
        \<and> ar_capacity ops a < sizeof_diagnostic ops * (2 ^ 32 - 1)
        \<and> (\<forall>n al. case ar_alloc ops a n al of (ok, a') \<Rightarrow>
             ok = (padding_for (ar_size ops a) al + n \<le> ar_capacity ops a - ar_size ops a)
           \<and> ar_capacity ops a' = ar_capacity ops a
           \<and> ar_size ops a' = (if ok then ar_size ops a + padding_for (ar_size ops a) al + n
                               else ar_size ops a)))
   \<and> sizeof_diagnostic ops > 0"

definition count_of :: "severity \<Rightarrow> diagnostic list \<Rightarrow> nat" where
  "count_of sev es = length (filter (\<lambda>d. dg_severity d = sev) es)"

definition bag_inv :: "'a diag_bag \<Rightarrow> bool" where
  "bag_inv b \<longleftrightarrow>
     db_error_count b = count_of Error (db_entries b)
   \<and> db_warning_count b = count_of Warning (db_entries b)
   \<and> bag_size b \<le> db_capacity b \<and> db_capacity b < 2 ^ 32 - 1
   \<and> (\<forall>d \<in> set (db_entries b). clip (dg_message d) = dg_message d)"

text \<open>What a reader of a diagnostic sees of it besides labels, rule name and repair.\<close>

definition content :: "diagnostic \<Rightarrow> severity \<times> check_code option \<times> bytes \<times> bool \<times> span" where
  "content d = (dg_severity d, dg_code d, dg_message d, dg_has_primary d, dg_primary d)"

text \<open>A step that stores or drops nothing: contents, counts and capacity stay.\<close>

definition bag_frame :: "'a diag_bag \<Rightarrow> 'a diag_bag \<Rightarrow> bool" where
  "bag_frame b b' \<longleftrightarrow> map content (db_entries b') = map content (db_entries b)
     \<and> db_capacity b' = db_capacity b
     \<and> db_error_count b' = db_error_count b \<and> db_warning_count b' = db_warning_count b
     \<and> db_dropped_count b' = db_dropped_count b \<and> db_dropped_errors b' = db_dropped_errors b"

named_theorems bag_simps \<open>frames of the bag's operations\<close>

lemma count_of_simps [simp]:
  "count_of s [] = 0"
  "count_of s (d # es) = (if dg_severity d = s then 1 else 0) + count_of s es"
  "count_of s (es @ es') = count_of s es + count_of s es'"
  by (simp_all add: count_of_def)

lemma count_of_content: "map content es = map content es' \<Longrightarrow> count_of s es = count_of s es'"
proof (induction es arbitrary: es')
  case (Cons d es)
  then obtain e es2 where "es' = e # es2" "content d = content e" "map content es = map content es2"
    by (cases es') auto
  moreover from this have "dg_severity d = dg_severity e" by (simp add: content_def)
  ultimately show ?case using Cons.IH [of es2] by simp
qed simp

lemma messages_content:
  assumes "map content es = map content es'" "\<forall>d \<in> set es. P (dg_message d)"
  shows "\<forall>d \<in> set es'. P (dg_message d)"
proof -
  have msgs: "set (map dg_message es) = set (map dg_message es')"
    using arg_cong [OF assms(1), of "\<lambda>cs. set (map (\<lambda>(_, _, m, _). m) cs)"]
    by (simp add: comp_def content_def)
  show ?thesis using assms(2) msgs by (metis (no_types, lifting) image_eqI image_iff set_map)
qed

lemma bag_frame_refl [bag_simps]: "bag_frame b b"
  by (simp add: bag_frame_def)

lemma bag_frame_trans: "bag_frame a b \<Longrightarrow> bag_frame b c \<Longrightarrow> bag_frame a c"
  by (simp add: bag_frame_def)

lemma bag_frame_size: "bag_frame b b' \<Longrightarrow> bag_size b' = bag_size b"
  unfolding bag_frame_def by (metis length_map)

lemma bag_frame_inv: "bag_frame b b' \<Longrightarrow> bag_inv b \<Longrightarrow> bag_inv b'"
  using count_of_content [of "db_entries b'" "db_entries b"] bag_frame_size [of b b']
    messages_content [of "db_entries b" "db_entries b'" "\<lambda>m. clip m = m"]
  by (auto simp: bag_frame_def bag_inv_def)

lemma bag_frame_alloc [bag_simps]: "alloc ops n al b = (ok, b') \<Longrightarrow> bag_frame b b'"
  by (auto simp: alloc_def bag_frame_def split: prod.splits)

lemma bag_frame_intern [bag_simps]: "intern ops bs b = (owned, b') \<Longrightarrow> bag_frame b b'"
  by (auto simp: intern_def bag_frame_refl split: if_splits prod.splits dest: bag_frame_alloc)

lemma bag_frame_update [bag_simps]:
  assumes "\<And>d. content (f d) = content d"
  shows "bag_frame b (update_entry i f b)"
proof -
  have "map content ((db_entries b)[i := f (db_entries b ! i)]) = map content (db_entries b)"
    using assms by (metis list_update_beyond list_update_id map_update not_less nth_map)
  then show ?thesis by (simp add: bag_frame_def update_entry_def)
qed

lemma bag_frame_add_labels [bag_simps]: "bag_frame b (snd (add_labels ops i ls b))"
proof -
  have "bag_frame b (update_entry i (\<lambda>d. d\<lparr>dg_labels := ls\<rparr>) b')"
    if "alloc ops n al b = (ok, b')" for n al ok b'
    using bag_frame_trans [OF bag_frame_alloc [OF that] bag_frame_update] by (simp add: content_def)
  then show ?thesis
    by (auto simp: add_labels_def Let_def bag_frame_refl split: prod.splits dest: bag_frame_alloc)
qed

lemma bag_frame_label_composed [bag_simps]: "bag_frame b (snd (label_composed ops i sp msg b))"
  by (auto simp: label_composed_def bag_frame_refl split: prod.splits
      dest: bag_frame_intern intro: bag_frame_trans [OF _ bag_frame_add_labels])

lemma bag_frame_attach_fix [bag_simps]: "bag_frame b (snd (attach_fix ops i f b))"
proof -
  have "bag_frame b (update_entry i g b2)"
    if "alloc ops n al b = (ok, b1)" "intern ops bs b1 = (owned, b2)" "\<And>d. content (g d) = content d"
    for n al ok b1 bs owned b2 g
    using that bag_frame_trans bag_frame_alloc bag_frame_intern bag_frame_update by metis
  then show ?thesis
    by (auto simp: attach_fix_def Let_def bag_frame_refl content_def split: prod.splits bool.splits
        dest: bag_frame_alloc)
qed

lemma bag_frame_intern_labels [bag_simps]:
  "intern_labels ops ls b = (ls', b') \<Longrightarrow> bag_frame b b'"
proof (induction ls arbitrary: b ls')
  case (Cons l ls)
  then show ?case
    by (auto split: prod.splits intro: bag_frame_trans [OF bag_frame_intern])
qed (simp add: bag_simps)


subsection \<open>Storing a diagnostic\<close>

lemma clip_clip [simp]: "clip (clip m) = clip m"
  by (simp add: clip_def MAX_MESSAGE_BYTES_def)

lemma clip_length: "length (clip m) \<le> MAX_MESSAGE_BYTES + 3"
  by (simp add: clip_def)

lemma padding_1 [simp]: "padding_for n (Suc 0) = 0" "padding_for n 1 = 0"
  by (simp_all add: padding_for_def)

lemma alloc_effect:
  assumes "arena_ok ops" "alloc ops n al b = (ok, b')"
  shows "ok = has_room_for ops b n al"
    and "ar_capacity ops (db_arena b') = ar_capacity ops (db_arena b)"
    and "ar_size ops (db_arena b') = ar_size ops (db_arena b)
           + (if ok then padding_for (ar_size ops (db_arena b)) al + n else 0)"
proof -
  obtain a' where a': "ar_alloc ops (db_arena b) n al = (ok, a')" "b' = b\<lparr>db_arena := a'\<rparr>"
    using assms(2) by (auto simp: alloc_def split: prod.splits)
  have "case ar_alloc ops (db_arena b) n al of (ok, a') \<Rightarrow>
      ok = (padding_for (ar_size ops (db_arena b)) al + n
              \<le> ar_capacity ops (db_arena b) - ar_size ops (db_arena b))
    \<and> ar_capacity ops a' = ar_capacity ops (db_arena b)
    \<and> ar_size ops a' = (if ok then ar_size ops (db_arena b)
          + padding_for (ar_size ops (db_arena b)) al + n else ar_size ops (db_arena b))"
    using assms(1) by (simp add: arena_ok_def)
  then show "ok = has_room_for ops b n al"
    and "ar_capacity ops (db_arena b') = ar_capacity ops (db_arena b)"
    and "ar_size ops (db_arena b') = ar_size ops (db_arena b)
           + (if ok then padding_for (ar_size ops (db_arena b)) al + n else 0)"
    using a' by (simp_all add: has_room_for_def Let_def)
qed

text \<open>The room check covers both allocations: after the first, the second still fits.\<close>

lemma room_split:
  assumes "arena_ok ops" "has_room_for ops b (n + m) al"
  shows "\<exists>b'. alloc ops n al b = (True, b') \<and> has_room_for ops b' m 1"
proof -
  obtain ok b' where b': "alloc ops n al b = (ok, b')" by fastforce
  note effect = alloc_effect [OF assms(1) b']
  have ok using effect(1) assms(2) by (simp add: has_room_for_def Let_def)
  moreover have "has_room_for ops b' m 1"
    using effect(2,3) \<open>ok\<close> assms(2) by (simp add: has_room_for_def Let_def)
  ultimately show ?thesis using b' by simp
qed

lemma intern_whole:
  assumes "arena_ok ops" "has_room_for ops b (length bs) 1"
  shows "\<exists>b'. intern ops bs b = (bs, b') \<and> bag_frame b b' \<and> db_entries b' = db_entries b"
proof -
  obtain ok b' where b': "alloc ops (length bs) 1 b = (ok, b')" by fastforce
  then have "db_entries b' = db_entries b" by (auto simp: alloc_def split: prod.splits)
  moreover have ok using alloc_effect(1) [OF assms(1) b'] assms(2) by blast
  ultimately show ?thesis using b' bag_frame_alloc [OF b']
    by (auto simp: intern_def bag_frame_refl)
qed

definition new_entry :: "severity \<Rightarrow> check_code option \<Rightarrow> span \<Rightarrow> bool \<Rightarrow> bytes \<Rightarrow> diagnostic" where
  "new_entry sev code primary has_primary msg =
     \<lparr>dg_severity = sev, dg_code = code, dg_check_name = [], dg_message = clip msg,
      dg_has_primary = has_primary, dg_primary = primary, dg_labels = [], dg_fix = None\<rparr>"

lemma drop_inv: "bag_inv b \<Longrightarrow> bag_inv (snd (drop_diag sev b))"
  by (simp add: bag_inv_def drop_diag_def)

lemma count_severity_inv:
  assumes "bag_inv b" "bag_size b < cap" "cap < 2 ^ 32 - 1"
    and "bag_frame (b\<lparr>db_capacity := cap\<rparr>) b2" "db_entries b2 = db_entries b"
  shows "bag_inv (count_severity sev (b2\<lparr>db_entries := db_entries b2 @ [new_entry sev c p h msg]\<rparr>))"
  using assms
  by (cases sev) (auto simp: bag_inv_def bag_frame_def count_severity_def new_entry_def)

text \<open>The bag around its new entry: its capacity after any growth, and room for the message.\<close>

lemma push_room:
  assumes ok: "arena_ok ops" and inv: "bag_inv b"
    and growth: "growth = (if bag_size b = db_capacity b then sizeof_diagnostic ops * grown_capacity b else 0)"
    and room: "has_room_for ops b (growth + n) (if growth = 0 then 1 else alignof_diagnostic ops)"
  shows "\<exists>b1 cap. (if growth \<noteq> 0 then grow_entries ops b else (True, b)) = (True, b1)
     \<and> bag_size b < cap \<and> cap < 2 ^ 32 - 1 \<and> bag_frame (b\<lparr>db_capacity := cap\<rparr>) b1
     \<and> db_entries b1 = db_entries b \<and> has_room_for ops b1 n 1"
proof (cases "bag_size b = db_capacity b")
  case False
  then show ?thesis using inv growth room
    by (intro exI [of _ b] exI [of _ "db_capacity b"]) (auto simp: bag_inv_def bag_frame_refl)
next
  case True
  have pos: "growth \<noteq> 0" "growth = sizeof_diagnostic ops * grown_capacity b"
    using growth True ok by (auto simp: arena_ok_def grown_capacity_def INITIAL_CAPACITY_def)
  obtain b' where b': "alloc ops growth (alignof_diagnostic ops) b = (True, b')" "has_room_for ops b' n 1"
    using room_split [OF ok, of b growth n "alignof_diagnostic ops"] room pos(1) by auto
  have "growth \<le> ar_capacity ops (db_arena b)"
    using room pos by (simp add: has_room_for_def Let_def)
  moreover have "ar_capacity ops (db_arena b) < sizeof_diagnostic ops * (2 ^ 32 - 1)"
    using ok unfolding arena_ok_def by blast
  ultimately have "sizeof_diagnostic ops * grown_capacity b < sizeof_diagnostic ops * (2 ^ 32 - 1)"
    using pos(2) by linarith
  then have "grown_capacity b < 2 ^ 32 - 1" by (simp only: mult_less_cancel1)
  moreover from this have "bag_size b < grown_capacity b"
    using True by (auto simp: grown_capacity_def INITIAL_CAPACITY_def split: if_splits)
  moreover have "bag_frame (b\<lparr>db_capacity := grown_capacity b\<rparr>) (b'\<lparr>db_capacity := grown_capacity b\<rparr>)"
    using bag_frame_alloc [OF b'(1)] by (simp add: bag_frame_def)
  moreover have "db_entries b' = db_entries b" using b'(1) by (auto simp: alloc_def split: prod.splits)
  ultimately show ?thesis using b' pos
    by (intro exI [of _ "b'\<lparr>db_capacity := grown_capacity b\<rparr>"] exI [of _ "grown_capacity b"])
      (simp add: grow_entries_def has_room_for_def)
qed

lemma push_effect:
  assumes ok: "arena_ok ops" and inv: "bag_inv b"
  shows "\<exists>b'. push ops sev code primary hp msg b = (bag_size b, b') \<and> bag_inv b'
    \<and> (b' = snd (drop_diag sev b)
       \<or> db_entries b' = db_entries b @ [new_entry sev code primary hp msg]
         \<and> db_dropped_count b' = db_dropped_count b \<and> db_dropped_errors b' = db_dropped_errors b)"
proof -
  define growth where
    "growth = (if bag_size b = db_capacity b then sizeof_diagnostic ops * grown_capacity b else 0)"
  let ?align = "if growth = 0 then 1 else alignof_diagnostic ops"
  show ?thesis
  proof (cases "has_room_for ops b (growth + length (clip msg)) ?align")
    case False
    then show ?thesis
      using drop_inv [OF inv] by (simp add: push_def drop_diag_def flip: growth_def)
  next
    case True
    obtain b1 cap where b1: "(if growth \<noteq> 0 then grow_entries ops b else (True, b)) = (True, b1)"
        "bag_size b < cap" "cap < 2 ^ 32 - 1" "bag_frame (b\<lparr>db_capacity := cap\<rparr>) b1"
        "db_entries b1 = db_entries b" "has_room_for ops b1 (length (clip msg)) 1"
      using push_room [OF ok inv growth_def True] by blast
    obtain b2 where b2: "intern ops (clip msg) b1 = (clip msg, b2)" "bag_frame b1 b2"
        "db_entries b2 = db_entries b1"
      using intern_whole [OF ok b1(6)] by blast
    let ?b' = "count_severity sev (b2\<lparr>db_entries := db_entries b2 @ [new_entry sev code primary hp msg]\<rparr>)"
    have "push ops sev code primary hp msg b = (bag_size b, ?b')"
      using True b1(1) b2(1) by (simp add: push_def new_entry_def flip: growth_def)
    moreover have "bag_inv ?b'"
      by (rule count_severity_inv [OF inv b1(2,3) bag_frame_trans [OF b1(4) b2(2)]])
        (simp add: b1(5) b2(3))
    moreover have "db_dropped_count b2 = db_dropped_count b" "db_dropped_errors b2 = db_dropped_errors b"
      using b1(4) b2(2) by (auto simp: bag_frame_def)
    ultimately show ?thesis using b1(5) b2(3) by (cases sev) (auto simp: count_severity_def)
  qed
qed


subsection \<open>Merging\<close>

text \<open>One diagnostic taken over: it is stored or dropped, as \<open>push\<close> decides.\<close>

definition taken_over :: "severity \<Rightarrow> (severity \<times> check_code option \<times> bytes \<times> bool \<times> span)
    \<Rightarrow> 'a diag_bag \<Rightarrow> 'a diag_bag \<Rightarrow> bool" where
  "taken_over sev c b b' \<longleftrightarrow> bag_inv b'
     \<and> (map content (db_entries b') = map content (db_entries b)
          \<and> db_dropped_count b' = db_dropped_count b + 1
          \<and> db_dropped_errors b' = db_dropped_errors b + (if sev = Error then 1 else 0)
        \<or> map content (db_entries b') = map content (db_entries b) @ [c]
          \<and> db_dropped_count b' = db_dropped_count b \<and> db_dropped_errors b' = db_dropped_errors b)"

lemma taken_over_frame: "taken_over sev c b b1 \<Longrightarrow> bag_frame b1 b2 \<Longrightarrow> taken_over sev c b b2"
  using bag_frame_inv [of b1 b2] by (auto simp: taken_over_def bag_frame_def)

lemma push_taken_over:
  assumes "arena_ok ops" "bag_inv b"
  shows "\<exists>b'. push ops sev code primary hp msg b = (bag_size b, b')
    \<and> taken_over sev (sev, code, clip msg, hp, primary) b b'"
proof -
  obtain b' where b': "push ops sev code primary hp msg b = (bag_size b, b')" "bag_inv b'"
      "b' = snd (drop_diag sev b)
       \<or> db_entries b' = db_entries b @ [new_entry sev code primary hp msg]
         \<and> db_dropped_count b' = db_dropped_count b \<and> db_dropped_errors b' = db_dropped_errors b"
    using push_effect [OF assms] by blast
  then show ?thesis by (auto simp: taken_over_def drop_diag_def content_def new_entry_def)
qed

lemma merge_one_taken_over:
  assumes "arena_ok ops" "bag_inv b" "clip (dg_message d) = dg_message d"
  shows "taken_over (dg_severity d) (content d) b (merge_one ops d b)"
proof -
  obtain b1 where b1: "push ops (dg_severity d) (dg_code d) (dg_primary d) (dg_has_primary d)
        (dg_message d) b = (bag_size b, b1)"
      "taken_over (dg_severity d) (content d) b b1"
    using push_taken_over [OF assms(1,2)] assms(3) by (metis content_def)
  have "bag_frame b1 (merge_one ops d b)"
  proof -
    have "bag_frame b1 (update_entry i g b3)"
      if "alloc ops n al b1 = (ok, b2)" "intern_labels ops ls b2 = (ls', b3)"
        "\<And>d. content (g d) = content d" for n al ok b2 ls ls' b3 g i
      using that bag_frame_trans bag_frame_alloc bag_frame_intern_labels bag_frame_update by metis
    then show ?thesis using b1(1)
      by (auto simp: merge_one_def Let_def bag_frame_refl content_def split: prod.splits bool.splits
          dest: bag_frame_alloc)
  qed
  then show ?thesis using b1(2) taken_over_frame by blast
qed

lemma merge_fixes_frame: "bag_frame b (fold (merge_fix ops) ids b)"
proof (induction ids arbitrary: b)
  case (Cons x ids)
  have "bag_frame b (merge_fix ops x b)"
    by (auto simp: merge_fix_def bag_frame_refl bag_frame_attach_fix split: prod.splits option.splits)
  then show ?case using Cons bag_frame_trans by fastforce
qed (simp add: bag_frame_refl)

text \<open>
  All entries taken over, one after the other: those that are not dropped keep their order.  The counters of dropped
  diagnostics have 32 bits; the sums are exact while they have room.
\<close>

lemma merge_entries:
  assumes "arena_ok ops" "bag_inv b" "\<forall>d \<in> set ds. clip (dg_message d) = dg_message d"
    "unat (db_dropped_count b) + length ds < 2 ^ 32" "unat (db_dropped_errors b) + length ds < 2 ^ 32"
  shows "\<exists>b' cs. fold (merge_one ops) ds b = b' \<and> bag_inv b'
    \<and> bag_size b' + unat (db_dropped_count b') = bag_size b + unat (db_dropped_count b) + length ds
    \<and> count_of Error (db_entries b') + unat (db_dropped_errors b')
        = count_of Error (db_entries b) + unat (db_dropped_errors b) + count_of Error ds
    \<and> unat (db_dropped_errors b') \<le> unat (db_dropped_errors b) + length ds
    \<and> map content (db_entries b') = map content (db_entries b) @ cs \<and> subseq cs (map content ds)"
  using assms(2-5)
proof (induction ds arbitrary: b)
  case (Cons d ds)
  let ?b1 = "merge_one ops d b"
  have t: "taken_over (dg_severity d) (content d) b ?b1"
    using merge_one_taken_over [OF assms(1)] Cons.prems by simp
  then have inv: "bag_inv ?b1" by (simp add: taken_over_def)
  have up: "unat (w + 1) = unat w + 1" if "unat w + Suc k < 2 ^ 32" for w :: u32 and k
    using that unat_plus_simple [of w 1] by (simp add: unat_word_ariths)
  obtain c1 where c1: "map content (db_entries ?b1) = map content (db_entries b) @ c1" "subseq c1 [content d]"
      "bag_size ?b1 + unat (db_dropped_count ?b1) = bag_size b + unat (db_dropped_count b) + 1"
      "count_of Error (db_entries ?b1) + unat (db_dropped_errors ?b1)
         = count_of Error (db_entries b) + unat (db_dropped_errors b) + count_of Error [d]"
      "unat (db_dropped_count ?b1) \<le> unat (db_dropped_count b) + 1"
      "unat (db_dropped_errors ?b1) \<le> unat (db_dropped_errors b) + 1"
  proof (cases "map content (db_entries ?b1) = map content (db_entries b)")
    case True
    then show thesis
      using that [of "[]"] t up [of "db_dropped_count b" "length ds"] up [of "db_dropped_errors b" "length ds"] Cons.prems(3,4)
        count_of_content [of "db_entries ?b1" "db_entries b" Error]
        map_eq_imp_length_eq [of content "db_entries ?b1" content "db_entries b"]
      by (auto simp: taken_over_def split: if_splits)
  next
    case False
    then show thesis
      using that [of "[content d]"] t count_of_content [of "db_entries ?b1" "db_entries b @ [d]" Error]
        map_eq_imp_length_eq [of content "db_entries ?b1" content "db_entries b @ [d]"]
      by (auto simp: taken_over_def)
  qed
  obtain b' cs where "fold (merge_one ops) ds ?b1 = b'" "bag_inv b'"
    "bag_size b' + unat (db_dropped_count b') = bag_size ?b1 + unat (db_dropped_count ?b1) + length ds"
    "count_of Error (db_entries b') + unat (db_dropped_errors b')
        = count_of Error (db_entries ?b1) + unat (db_dropped_errors ?b1) + count_of Error ds"
    "unat (db_dropped_errors b') \<le> unat (db_dropped_errors ?b1) + length ds"
    "map content (db_entries b') = map content (db_entries ?b1) @ cs" "subseq cs (map content ds)"
    using Cons.IH [OF inv] Cons.prems c1(5,6) by auto
  moreover have "subseq (c1 @ cs) ([content d] @ map content ds)" using c1(2) calculation(7) by (rule list_emb_append_mono)
  ultimately show ?case using c1 by (intro exI [of _ b'] exI [of _ "c1 @ cs"]) (auto split: if_splits)
qed simp

text \<open>The counters of dropped diagnostics have room for what a merge can add.\<close>

definition drops_fit :: "'b diag_bag \<Rightarrow> 'a diag_bag \<Rightarrow> bool" where
  "drops_fit other b \<longleftrightarrow>
     unat (db_dropped_count b) + unat (db_dropped_count other) + bag_size other < 2 ^ 32
   \<and> unat (db_dropped_errors b) + unat (db_dropped_errors other) + bag_size other < 2 ^ 32"

lemma merge_entries_inv:
  "arena_ok ops \<Longrightarrow> bag_inv b \<Longrightarrow> \<forall>d \<in> set ds. clip (dg_message d) = dg_message d \<Longrightarrow> bag_inv (fold (merge_one ops) ds b)"
proof (induction ds arbitrary: b)
  case (Cons d ds)
  then show ?case using merge_one_taken_over [OF Cons.prems(1,2), of d] by (simp add: taken_over_def)
qed simp

lemma merge_accounts_inv:
  assumes "arena_ok ops" "bag_inv b" "bag_inv other"
  shows "bag_inv (merge ops other b)"
proof -
  have "\<forall>d \<in> set (db_entries other). clip (dg_message d) = dg_message d"
    using assms(3) by (simp add: bag_inv_def)
  then have "bag_inv (fold (merge_one ops) (db_entries other) b)"
    using merge_entries_inv [OF assms(1,2)] by blast
  from bag_frame_inv [OF merge_fixes_frame this] show ?thesis
    by (simp add: merge_def Let_def bag_inv_def)
qed

text \<open>
  C11. Merging one bag into another loses nothing from the account, as long as the 32-bit counters of dropped
  diagnostics have room (\<open>drops_fit\<close>): every diagnostic of both is
  stored or counted as dropped, and the errors of both still count, so the run fails exactly when one of
  the two had an error.  What is stored keeps its order: the contents of the first bag, then those of the second
  less the ones that were dropped; when none was dropped, all of the second.
\<close>

theorem merge_accounts:
  assumes "arena_ok ops" "bag_inv b" "bag_inv other" "drops_fit other b"
  shows "bag_inv (merge ops other b)
    \<and> bag_size (merge ops other b) + unat (db_dropped_count (merge ops other b))
        = bag_size b + unat (db_dropped_count b) + (bag_size other + unat (db_dropped_count other))
    \<and> (has_errors (merge ops other b) \<longleftrightarrow> has_errors b \<or> has_errors other)
    \<and> (\<exists>cs. map content (db_entries (merge ops other b)) = map content (db_entries b) @ cs
         \<and> subseq cs (map content (db_entries other))
         \<and> (cs = map content (db_entries other)
             \<longleftrightarrow> db_dropped_count (merge ops other b) = db_dropped_count b + db_dropped_count other))"
proof -
  define b1 where "b1 = fold (merge_one ops) (db_entries other) b"
  define b2 where "b2 = fold (merge_fix ops) (enumerate 0 (db_entries other)) b1"
  have m: "merge ops other b = b2\<lparr>db_dropped_count := db_dropped_count b2 + db_dropped_count other,
      db_dropped_errors := db_dropped_errors b2 + db_dropped_errors other\<rparr>"
    by (simp add: merge_def b1_def b2_def Let_def)
  obtain cs where b1: "bag_inv b1"
    "bag_size b1 + unat (db_dropped_count b1) = bag_size b + unat (db_dropped_count b) + bag_size other"
    "count_of Error (db_entries b1) + unat (db_dropped_errors b1)
        = count_of Error (db_entries b) + unat (db_dropped_errors b) + count_of Error (db_entries other)"
    "unat (db_dropped_errors b1) \<le> unat (db_dropped_errors b) + bag_size other"
    "map content (db_entries b1) = map content (db_entries b) @ cs" "subseq cs (map content (db_entries other))"
    using merge_entries [OF assms(1,2), of "db_entries other"] assms(3,4)
    by (auto simp: b1_def bag_inv_def drops_fit_def)
  have frame: "bag_frame b1 b2" unfolding b2_def by (rule merge_fixes_frame)
  have b2: "bag_inv b2" by (rule bag_frame_inv [OF frame b1(1)])
  have errors: "db_error_count b2 = count_of Error (db_entries b1)" "db_dropped_errors b2 = db_dropped_errors b1"
    "db_dropped_count b2 = db_dropped_count b1"
    using frame b1(1) by (simp_all add: bag_frame_def bag_inv_def)
  have n: "bag_size b1 = bag_size b + length cs" "length cs \<le> bag_size other"
    using arg_cong [OF b1(5), of length] list_emb_length [OF b1(6)] by simp_all
  have sum: "unat (db_dropped_count b1 + db_dropped_count other) = unat (db_dropped_count b1) + unat (db_dropped_count other)"
    "unat (db_dropped_errors b1 + db_dropped_errors other) = unat (db_dropped_errors b1) + unat (db_dropped_errors other)"
    using assms(4) b1(2,4) n by (simp_all add: drops_fit_def unat_word_ariths)
  have "has_errors (merge ops other b)
      \<longleftrightarrow> count_of Error (db_entries b1) + unat (db_dropped_errors b1) + unat (db_dropped_errors other) > 0"
    using sum(2) by (simp add: m has_errors_def errors word_neq_0_conv [symmetric] unat_eq_0 [symmetric] del: unat_eq_0)
  also have "\<dots> \<longleftrightarrow> has_errors b \<or> has_errors other"
    using b1(3) assms(2,3)
    by (simp add: has_errors_def bag_inv_def word_neq_0_conv [symmetric] unat_eq_0 [symmetric] del: unat_eq_0)
  finally have e: "has_errors (merge ops other b) \<longleftrightarrow> has_errors b \<or> has_errors other" .
  have all: "cs = map content (db_entries other) \<longleftrightarrow> db_dropped_count b1 + db_dropped_count other = db_dropped_count b + db_dropped_count other"
  proof -
    have "cs = map content (db_entries other) \<longleftrightarrow> length cs = bag_size other"
      using b1(6) subseq_same_length by fastforce
    also have "\<dots> \<longleftrightarrow> unat (db_dropped_count b1) = unat (db_dropped_count b)" using b1(2) n by linarith
    finally show ?thesis by (simp add: word_unat_eq_iff [symmetric])
  qed
  show ?thesis
    using b1(2,5,6) b2 e all sum frame bag_frame_size [OF frame]
    by (intro conjI exI [of _ cs]) (simp_all add: m bag_inv_def bag_frame_def)
qed

text \<open>Past that room the counters start again at zero, and a dropped error no longer fails the run.\<close>

lemma dropped_errors_wrap:
  assumes "db_entries b = []" "db_error_count b = 0" "db_dropped_errors b = - 1"
    "db_entries other = []" "db_dropped_errors other = 1"
  shows "has_errors b \<and> has_errors other \<and> \<not> has_errors (merge ops other b)"
  using assms by (simp add: has_errors_def merge_def flip: word_neq_0_conv)


subsection \<open>Duplicates\<close>

text \<open>The reference: the first of each group of equal diagnostics, in order.\<close>

fun first_of_each :: "diagnostic list \<Rightarrow> diagnostic list" where
  "first_of_each [] = []"
| "first_of_each (d # ds) = d # filter (\<lambda>e. \<not> same_diagnostic d e) (first_of_each ds)"

text \<open>What the comparison reads, as one value: the repair is blanked, and an absent span too.\<close>

definition dedup_key :: "diagnostic \<Rightarrow> diagnostic" where
  "dedup_key d = d\<lparr>dg_fix := None, dg_primary := (if dg_has_primary d then dg_primary d else no_span)\<rparr>"

lemma same_span_eq [simp]: "same_span a b \<longleftrightarrow> a = b"
  by (cases a; cases b) (simp add: same_span_def)

lemma same_diagnostic_key: "same_diagnostic a b \<longleftrightarrow> dedup_key a = dedup_key b"
proof -
  have "dg_labels a = dg_labels b \<longleftrightarrow> length (dg_labels a) = length (dg_labels b)
      \<and> (\<forall>i < length (dg_labels a). lb_span (dg_labels a ! i) = lb_span (dg_labels b ! i)
           \<and> lb_message (dg_labels a ! i) = lb_message (dg_labels b ! i))"
    by (auto simp: list_eq_iff_nth_eq label.equality)
  then show ?thesis
    by (cases a; cases b) (auto simp: same_diagnostic_def dedup_key_def)
qed

lemma hash_dedup_key [simp]: "hash_diagnostic h64 (dedup_key d) = hash_diagnostic h64 d"
  by (simp add: hash_diagnostic_def dedup_key_def)

lemma first_of_each_keys: "dedup_key ` set (first_of_each ds) = dedup_key ` set ds"
proof (induction ds)
  case (Cons d ds)
  have "dedup_key ` set (filter (\<lambda>e. \<not> same_diagnostic d e) xs) = dedup_key ` set xs - {dedup_key d}" for xs
    by (auto simp: same_diagnostic_key)
  with Cons show ?case by auto
qed simp

lemma first_of_each_snoc:
  "first_of_each (ds @ [d]) = first_of_each ds @ (if dedup_key d \<in> dedup_key ` set ds then [] else [d])"
  by (induction ds) (auto simp: same_diagnostic_key)

lemma first_of_each_length: "length (first_of_each ds) \<le> length ds"
  by (induction ds) (auto intro: le_trans [OF length_filter_le])

lemma first_of_each_subset: "set (first_of_each ds) \<subseteq> set ds"
  by (induction ds) auto

lemma dedup_key_severity: "dg_severity (dedup_key d) = dg_severity d"
  by (simp add: dedup_key_def)

lemma dedup_table_size_power:
  "\<exists>k \<ge> b. dedup_table_size n (2 ^ b) = 2 ^ k \<and> 2 * n \<le> 2 ^ k"
proof (induction n "2 ^ b :: nat" arbitrary: b rule: dedup_table_size.induct)
  case (1 n)
  show ?case
  proof (cases "2 ^ b < n * 2")
    case True
    then obtain k where "k \<ge> Suc b" "dedup_table_size n (2 ^ Suc b) = 2 ^ k" "2 * n \<le> 2 ^ k"
      using "1.hyps" [of "Suc b"] by (auto simp: mult.commute)
    then show ?thesis using True
      by (intro exI [of _ k]) (simp add: dedup_table_size.simps [of n "2 ^ b"] mult.commute)
  next
    case False
    then show ?thesis by (intro exI [of _ b]) (simp add: dedup_table_size.simps)
  qed
qed

text \<open>The table as an occupancy of keys, and its probes as the shared probe.\<close>

definition occ_dd :: "diagnostic list \<Rightarrow> nat list \<Rightarrow> nat \<Rightarrow> diagnostic option" where
  "occ_dd es table slot =
     (if slot < length table \<and> table ! slot \<noteq> EMPTY then Some (dedup_key (es ! (table ! slot))) else None)"

interpretation dd: probing "2 ^ b" "\<lambda>k. unat (hash_diagnostic h64 k) mod 2 ^ b" for b h64
  by unfold_locales auto

lemma dedup_probe_scan:
  assumes "length table = 2 ^ b" "slot < 2 ^ b"
  shows "dedup_probe fuel es table d slot =
    map_option (\<lambda>j. (occ_dd es table j \<noteq> None, j)) (scan_from fuel (occ_dd es table) (2 ^ b) (dedup_key d) slot)"
  using assms(2)
proof (induction fuel arbitrary: slot)
  case (Suc fuel)
  then show ?case using assms(1) Suc.IH [of "(slot + 1) mod 2 ^ b"]
    by (auto simp: occ_dd_def same_diagnostic_key)
qed simp

text \<open>The state of the loop after the entries before \<open>i\<close>.\<close>

definition dedup_inv :: "(u8 list \<Rightarrow> u64) \<Rightarrow> nat \<Rightarrow> diagnostic list \<Rightarrow> nat \<Rightarrow> dedup_state \<Rightarrow> bool" where
  "dedup_inv h64 b xs i s \<longleftrightarrow>
     length (dd_entries s) = length xs \<and> drop i (dd_entries s) = drop i xs
   \<and> take (dd_kept s) (dd_entries s) = first_of_each (take i xs)
   \<and> dd_kept s \<le> i \<and> dd_kept s \<le> length xs
   \<and> length (dd_table s) = 2 ^ b
   \<and> (\<forall>slot < 2 ^ b. dd_table s ! slot \<noteq> EMPTY \<longrightarrow> dd_table s ! slot < dd_kept s)
   \<and> (\<forall>j < dd_kept s. \<exists>slot < 2 ^ b. dd_table s ! slot = j)
   \<and> reachable_keys (2 ^ b) (\<lambda>k. unat (hash_diagnostic h64 k) mod 2 ^ b) (occ_dd (dd_entries s) (dd_table s))
   \<and> distinct_keys (2 ^ b) (occ_dd (dd_entries s) (dd_table s))
   \<and> length (filter (\<lambda>t. t \<noteq> EMPTY) (dd_table s)) = dd_kept s
   \<and> dd_errors s = count_of Error (first_of_each (take i xs))
   \<and> dd_warnings s = count_of Warning (first_of_each (take i xs))"


lemma dedup_inv_start:
  "dedup_inv h64 b xs 0 \<lparr>dd_entries = xs, dd_table = replicate (2 ^ b) EMPTY, dd_kept = 0,
     dd_errors = 0, dd_warnings = 0\<rparr>"
  by (simp add: dedup_inv_def reachable_keys_def distinct_keys_def occ_dd_def)

lemma kept_key_stored:
  assumes "dedup_inv h64 b xs i s" "j < 2 ^ b" "occ_dd (dd_entries s) (dd_table s) j = Some k"
  shows "k \<in> dedup_key ` set (take (dd_kept s) (dd_entries s))"
proof -
  let ?t = "dd_table s ! j"
  have t: "?t < dd_kept s" "k = dedup_key (dd_entries s ! ?t)"
    using assms by (auto simp: dedup_inv_def occ_dd_def split: if_splits)
  have "length (take (dd_kept s) (dd_entries s)) = dd_kept s"
    using assms(1) unfolding dedup_inv_def by (metis length_take min.absorb2)
  then show ?thesis using t by (metis imageI in_set_conv_nth nth_take)
qed

lemma dedup_insert_inv:
  assumes inv: "dedup_inv h64 b xs i s" and i: "i < length xs" and small: "length xs < EMPTY"
    and slot: "slot < 2 ^ b" "occ_dd (dd_entries s) (dd_table s) slot = None"
    and scan: "scan_from (2 ^ b) (occ_dd (dd_entries s) (dd_table s)) (2 ^ b) (dedup_key (xs ! i))
      (unat (hash_diagnostic h64 (xs ! i)) mod 2 ^ b) = Some slot"
    and absent: "\<forall>j < 2 ^ b. occ_dd (dd_entries s) (dd_table s) j \<noteq> Some (dedup_key (xs ! i))"
    and fresh: "dedup_key (xs ! i) \<notin> dedup_key ` set (take i xs)"
  shows "dedup_inv h64 b xs (Suc i)
    \<lparr>dd_entries = (dd_entries s)[dd_kept s := xs ! i], dd_table = (dd_table s)[slot := dd_kept s],
     dd_kept = dd_kept s + 1,
     dd_errors = dd_errors s + (if dg_severity (xs ! i) = Error then 1 else 0),
     dd_warnings = dd_warnings s + (if dg_severity (xs ! i) = Warning then 1 else 0)\<rparr>"
proof -
  let ?es = "dd_entries s" and ?table = "dd_table s" and ?kept = "dd_kept s" and ?d = "xs ! i"
  let ?es' = "?es[?kept := ?d]" and ?table' = "?table[slot := ?kept]"
  note facts = inv [unfolded dedup_inv_def]
  have len: "length ?table = 2 ^ b" "length ?es = length xs" and kept: "?kept \<le> i" using facts by blast+
  have used: "?table ! j < ?kept" if "j < 2 ^ b" "?table ! j \<noteq> EMPTY" for j using facts that by blast
  have was_free: "?table ! slot = EMPTY" using slot len by (auto simp: occ_dd_def split: if_splits)
  have kept_fits: "?kept < length ?es" "?kept \<noteq> EMPTY" using kept i small len by auto
  have occ: "occ_dd ?es' ?table' = (occ_dd ?es ?table)(slot := Some (dedup_key ?d))"
    using used len slot kept_fits by (fastforce simp: occ_dd_def nth_list_update fun_eq_iff)
  have "take (?kept + 1) ?es' = first_of_each (take (Suc i) xs)"
    using facts i fresh kept_fits
    by (simp add: take_Suc_conv_app_nth first_of_each_snoc)
  moreover have "drop (Suc i) ?es' = drop (Suc i) xs"
    using facts kept by (metis drop_Suc drop_update_cancel less_Suc_eq_le tl_drop)
  moreover have "length (filter (\<lambda>t. t \<noteq> EMPTY) ?table') = ?kept + 1"
    using length_filter_update [of slot ?table "\<lambda>t. t \<noteq> EMPTY" ?kept] facts was_free kept_fits slot len
    by simp
  moreover have "\<forall>j < ?kept + 1. \<exists>sl < 2 ^ b. ?table' ! sl = j"
  proof (intro allI impI)
    fix j assume "j < ?kept + 1"
    then consider "j = ?kept" | "j < ?kept" by linarith
    then show "\<exists>sl < 2 ^ b. ?table' ! sl = j"
    proof cases
      case 1
      then show ?thesis using slot(1) len by (intro exI [of _ slot]) simp
    next
      case 2
      then obtain sl where "sl < 2 ^ b" "?table ! sl = j" using facts by blast
      moreover have "j \<noteq> EMPTY" using 2 kept i small by simp
      moreover from calculation have "sl \<noteq> slot" using was_free by auto
      ultimately show ?thesis by (intro exI [of _ sl]) simp
    qed
  qed
  moreover have "\<forall>sl < 2 ^ b. ?table' ! sl \<noteq> EMPTY \<longrightarrow> ?table' ! sl < ?kept + 1"
    using used len slot(1) by (auto simp: nth_list_update less_Suc_eq)
  moreover have "reachable_keys (2 ^ b) (\<lambda>k. unat (hash_diagnostic h64 k) mod 2 ^ b) (occ_dd ?es' ?table')"
    unfolding occ using facts slot(2) scan by (intro dd.insert_reachable) auto
  moreover have "distinct_keys (2 ^ b) (occ_dd ?es' ?table')"
    unfolding occ using facts absent by (intro dd.insert_distinct) auto
  ultimately show ?thesis using facts i fresh kept len
    by (simp add: dedup_inv_def take_Suc_conv_app_nth first_of_each_snoc)
qed

lemma dedup_step_ok:
  assumes inv: "dedup_inv h64 b xs i s" and i: "i < length xs" and room: "2 * length xs \<le> 2 ^ b"
    and small: "length xs < EMPTY"
  shows "\<exists>s'. dedup_step h64 i s = Some s' \<and> dedup_inv h64 b xs (Suc i) s'"
proof -
  let ?es = "dd_entries s" and ?table = "dd_table s" and ?kept = "dd_kept s"
  let ?d = "xs ! i" and ?occ = "occ_dd (dd_entries s) (dd_table s)"
  let ?home = "unat (hash_diagnostic h64 ?d) mod 2 ^ b"
  note facts = inv [unfolded dedup_inv_def]
  have d: "?es ! i = ?d"
    using facts i by (metis hd_drop_conv_nth)
  have stay: "i = ?kept \<Longrightarrow> ?es[?kept := ?d] = ?es" using d by (metis list_update_id)
  have len: "length ?table = 2 ^ b" and kept: "?kept \<le> i" using facts by blast+
  have home: "?home < 2 ^ b" by simp
  have probe: "dedup_probe (length ?table) ?es ?table ?d ?home =
      map_option (\<lambda>j. (?occ j \<noteq> None, j)) (scan_from (2 ^ b) ?occ (2 ^ b) (dedup_key ?d) ?home)"
    using dedup_probe_scan [OF len home] len by simp
  have step: "dedup_step h64 i s = (case dedup_probe (length ?table) ?es ?table ?d ?home of
        None \<Rightarrow> None
      | Some (True, _) \<Rightarrow> Some s
      | Some (False, slot) \<Rightarrow>
          Some \<lparr>dd_entries = ?es[?kept := ?d], dd_table = ?table[slot := ?kept], dd_kept = ?kept + 1,
                dd_errors = dd_errors s + (if dg_severity ?d = Error then 1 else 0),
                dd_warnings = dd_warnings s + (if dg_severity ?d = Warning then 1 else 0)\<rparr>)"
    using d len stay
    by (auto simp: dedup_step_def Let_def split: option.splits prod.splits bool.splits)
  have kept_keys: "dedup_key ` set (take ?kept ?es) = dedup_key ` set (take i xs)"
    using facts first_of_each_keys by metis
  have next_i: "first_of_each (take (Suc i) xs) = first_of_each (take i xs)
      @ (if dedup_key ?d \<in> dedup_key ` set (take i xs) then [] else [?d])"
    using i by (simp add: take_Suc_conv_app_nth first_of_each_snoc)
  have drop_i: "drop (Suc i) ?es = drop (Suc i) xs"
    using facts by (metis drop_Suc tl_drop)
  show ?thesis
  proof (cases "dedup_key ?d \<in> dedup_key ` set (take i xs)")
    case True
    then obtain e where "e \<in> set (take ?kept ?es)" "dedup_key e = dedup_key ?d"
      using kept_keys by (metis imageE)
    then obtain j where j: "j < ?kept" "dedup_key (?es ! j) = dedup_key ?d"
      by (auto simp: in_set_conv_nth)
    then obtain slot where "slot < 2 ^ b" "?table ! slot = j" using facts by blast
    moreover from this j have "?occ slot = Some (dedup_key ?d)"
      using len small i kept by (simp add: occ_dd_def)
    ultimately have "scan_from (2 ^ b) ?occ (2 ^ b) (dedup_key ?d) ?home = Some slot"
      using dd.scan_hit [where occ = ?occ and k = "dedup_key ?d" and b = b and ?h64.0 = h64] facts by simp
    then have "dedup_step h64 i s = Some s"
      using step probe \<open>?occ slot = _\<close> by simp
    moreover have "dedup_inv h64 b xs (Suc i) s"
      using facts True next_i drop_i by (simp add: dedup_inv_def)
    ultimately show ?thesis by blast
  next
    case False
    have absent: "\<forall>j < 2 ^ b. ?occ j \<noteq> Some (dedup_key ?d)"
      using kept_key_stored [OF inv] kept_keys False by (metis (no_types, lifting))
    have "?kept < 2 ^ b" using kept i room by linarith
    then obtain j where "j < 2 ^ b" "?occ j = None"
      using facts filter_length_less_ex [of "\<lambda>t. t \<noteq> EMPTY" ?table] len by (auto simp: occ_dd_def)
    then obtain slot where slot: "slot < 2 ^ b" "?occ slot = None"
        "scan_from (2 ^ b) ?occ (2 ^ b) (dedup_key ?d) ?home = Some slot"
      using dd.scan_miss [where occ = ?occ and k = "dedup_key ?d" and b = b and ?h64.0 = h64, OF absent]
      by auto
    then show ?thesis
      using step probe dedup_insert_inv [OF inv i small slot(1,2) _ absent] False by simp
  qed
qed


lemma dedup_loop_ok:
  assumes "dedup_inv h64 b xs i s" "2 * length xs \<le> 2 ^ b" "length xs < EMPTY" "i \<le> length xs"
  shows "\<exists>s'. dedup_loop h64 [i..<length xs] s = Some s' \<and> dedup_inv h64 b xs (length xs) s'"
  using assms(1,4)
proof (induction "length xs - i" arbitrary: i s)
  case (Suc n)
  then have "i < length xs" by simp
  then obtain s1 where "dedup_step h64 i s = Some s1" "dedup_inv h64 b xs (Suc i) s1"
    using dedup_step_ok [OF Suc.prems(1) _ assms(2,3)] by blast
  moreover have "[i..<length xs] = i # [Suc i..<length xs]" using Suc by (simp add: upt_conv_Cons)
  ultimately show ?case using Suc.hyps(1) [of "Suc i" s1] Suc.hyps(2) by auto
qed simp

lemma dedup_keeps_first:
  assumes "bag_inv b"
  shows "\<exists>b'. dedup h64 b = Some b' \<and> db_entries b' = first_of_each (db_entries b) \<and> bag_inv b'
    \<and> db_dropped_count b' = db_dropped_count b \<and> db_dropped_errors b' = db_dropped_errors b"
proof (cases "bag_size b < 2")
  case True
  then have "first_of_each (db_entries b) = db_entries b"
    by (cases "db_entries b") auto
  with True assms show ?thesis by (simp add: dedup_def)
next
  case False
  let ?xs = "db_entries b"
  obtain k where k: "dedup_table_size (length ?xs) 8 = 2 ^ k" "2 * length ?xs \<le> 2 ^ k"
    using dedup_table_size_power [of 3 "length ?xs"] by auto
  have small: "length ?xs < EMPTY"
    using assms by (simp add: bag_inv_def EMPTY_def)
  obtain s where s: "dedup_loop h64 [0..<length ?xs] \<lparr>dd_entries = ?xs,
      dd_table = replicate (dedup_table_size (length ?xs) 8) EMPTY, dd_kept = 0, dd_errors = 0, dd_warnings = 0\<rparr>
      = Some s" "dedup_inv h64 k ?xs (length ?xs) s"
    using dedup_loop_ok [OF dedup_inv_start k(2) small] k(1) by auto
  let ?b' = "b\<lparr>db_entries := take (dd_kept s) (dd_entries s), db_error_count := dd_errors s,
      db_warning_count := dd_warnings s\<rparr>"
  have b': "dedup h64 b = Some ?b'" using False s(1) by (simp add: dedup_def)
  have es: "take (dd_kept s) (dd_entries s) = first_of_each ?xs"
    and counts: "dd_errors s = count_of Error (first_of_each ?xs)"
      "dd_warnings s = count_of Warning (first_of_each ?xs)"
    using s(2) unfolding dedup_inv_def by simp_all
  have "bag_inv ?b'"
    using assms first_of_each_length [of ?xs] first_of_each_subset [of ?xs]
    by (auto simp: bag_inv_def es counts)
  with b' es show ?thesis by simp
qed


text \<open>A bump allocator of a fixed reservation: it shows that the arena's laws can hold.\<close>

definition bump :: "nat \<Rightarrow> nat arena_ops" where
  "bump cap = \<lparr>ar_size = (\<lambda>a. min a cap), ar_capacity = (\<lambda>a. cap),
     ar_alloc = (\<lambda>a n al. let at = min a cap; p = padding_for at al in
        if p + n \<le> cap - at then (True, at + p + n) else (False, a)),
     sizeof_diagnostic = 128, alignof_diagnostic = 8, sizeof_label = 32, alignof_label = 8,
     sizeof_fix = 32, alignof_fix = 8\<rparr>"

lemma bump_ok: "cap \<le> 2 ^ 20 \<Longrightarrow> arena_ok (bump cap)"
  by (auto simp: arena_ok_def bump_def Let_def)

lemma new_bag_inv: "bag_inv (new_bag a)"
  by (simp add: bag_inv_def new_bag_def)

text \<open>
  C29. Removing duplicates always returns, keeps exactly the first of every group of diagnostics
  that read the same, in their order, and leaves the counts true of what remains.
\<close>

theorem dedup_exact:
  assumes "bag_inv b"
  shows "\<exists>b'. dedup h64 b = Some b' \<and> db_entries b' = first_of_each (db_entries b) \<and> bag_inv b'
    \<and> (has_errors b' \<longleftrightarrow> has_errors b)"
proof -
  obtain b' where b': "dedup h64 b = Some b'" "db_entries b' = first_of_each (db_entries b)" "bag_inv b'"
      "db_dropped_errors b' = db_dropped_errors b"
    using dedup_keeps_first [OF assms] by blast
  have sev: "dg_severity ` set (first_of_each (db_entries b)) = dg_severity ` set (db_entries b)"
    using arg_cong [OF first_of_each_keys, of "image dg_severity"]
    by (simp add: image_image dedup_key_severity)
  have "count_of Error es > 0 \<longleftrightarrow> Error \<in> dg_severity ` set es" for es
    by (force simp: count_of_def filter_empty_conv image_iff)
  with b' assms sev have "has_errors b' \<longleftrightarrow> has_errors b"
    by (simp add: has_errors_def bag_inv_def)
  with b' show ?thesis by blast
qed

theorem dedup_exact_witness:
  "\<exists>b'. dedup (\<lambda>_. 0) (new_bag (0::nat)) = Some b'
     \<and> db_entries b' = first_of_each (db_entries (new_bag (0::nat))) \<and> bag_inv b'
     \<and> (has_errors b' \<longleftrightarrow> has_errors (new_bag (0::nat)))"
  by (rule dedup_exact [OF new_bag_inv])

subsection \<open>Reachable bags\<close>

inductive bag_reachable :: "'a arena_ops \<Rightarrow> (u8 list \<Rightarrow> u64) \<Rightarrow> 'a diag_bag \<Rightarrow> bool"
  for ops :: "'a arena_ops" and h64 :: "u8 list \<Rightarrow> u64" where
  fresh: "bag_reachable ops h64 (new_bag a)"
| emitted: "bag_reachable ops h64 b \<Longrightarrow> bag_reachable ops h64 (snd (emit ops meta i txt b))"
| emitted_at: "bag_reachable ops h64 b \<Longrightarrow> bag_reachable ops h64 (snd (emit_at ops meta i sp txt b))"
| emitted_named: "bag_reachable ops h64 b \<Longrightarrow>
    bag_reachable ops h64 (snd (emit_named ops sev meta i name sp txt b))"
| emitted_message: "bag_reachable ops h64 b \<Longrightarrow> bag_reachable ops h64 (snd (emit_message ops sev txt b))"
| labelled: "bag_reachable ops h64 b \<Longrightarrow> bag_reachable ops h64 (snd (add_labels ops n ls b))"
| labelled_composed: "bag_reachable ops h64 b \<Longrightarrow>
    bag_reachable ops h64 (snd (label_composed ops n sp txt b))"
| fixed: "bag_reachable ops h64 b \<Longrightarrow> bag_reachable ops h64 (snd (attach_fix ops n f b))"
| truncated: "bag_reachable ops h64 b \<Longrightarrow> bag_reachable ops h64 (truncate_bag n b)"
| deduped: "bag_reachable ops h64 b \<Longrightarrow> dedup h64 b = Some b' \<Longrightarrow> bag_reachable ops h64 b'"
| merged: "bag_reachable ops h64 b \<Longrightarrow> bag_reachable ops h64 other \<Longrightarrow>
    bag_reachable ops h64 (merge ops other b)"

lemma push_inv: "arena_ok ops \<Longrightarrow> bag_inv b \<Longrightarrow> bag_inv (snd (push ops sev c sp hp txt b))"
  using push_effect by (metis snd_conv)

lemma truncate_counts:
  "fold (\<lambda>d b. count_severity (dg_severity d) b) es b
   = b\<lparr>db_error_count := db_error_count b + count_of Error es,
       db_warning_count := db_warning_count b + count_of Warning es\<rparr>"
proof (induction es arbitrary: b)
  case (Cons d es)
  then show ?case by (cases "dg_severity d") (simp_all add: count_severity_def)
qed simp

lemma truncate_inv: "bag_inv b \<Longrightarrow> bag_inv (truncate_bag n b)"
  by (auto simp: truncate_bag_def truncate_counts bag_inv_def dest: in_set_takeD)

lemma emit_named_inv:
  assumes "arena_ok ops" "bag_inv b"
  shows "bag_inv (snd (emit_named ops sev meta i name sp txt b))"
proof -
  obtain k b' where p: "push ops sev (Some \<lparr>cc_stage = mm_stage meta, cc_id = i\<rparr>) sp True txt b = (k, b')"
    by fastforce
  then have inv: "bag_inv b'" using push_inv [OF assms] by (metis snd_conv)
  have "bag_inv (update_entry k (\<lambda>d. d\<lparr>dg_check_name := name\<rparr>) b')"
    by (rule bag_frame_inv [OF bag_frame_update inv]) (simp add: content_def)
  then show ?thesis using p inv by (simp add: emit_named_def)
qed

text \<open>
  C32. However a bag came about from emitting, labelling, repairing, truncating, deduplicating and
  merging, its error and warning counts are those of the entries it holds, the entries fit the
  allocated array, and no stored message is longer than the clipping allows.
\<close>

theorem reachable_bag_inv:
  assumes "arena_ok ops" "bag_reachable ops h64 b"
  shows "db_error_count b = count_of Error (db_entries b)
    \<and> db_warning_count b = count_of Warning (db_entries b)
    \<and> bag_size b \<le> db_capacity b
    \<and> (\<forall>d \<in> set (db_entries b). length (dg_message d) \<le> MAX_MESSAGE_BYTES + 3)"
proof -
  from assms(2) have "bag_inv b"
  proof (induction rule: bag_reachable.induct)
    case (merged b other)
    then show ?case using merge_accounts_inv [OF assms(1)] by blast
  next
    case (deduped b b')
    then show ?case using dedup_keeps_first [OF deduped.IH, of h64] by auto
  qed (simp_all add: new_bag_inv push_inv assms(1) emit_named_inv truncate_inv emit_def emit_at_def
      emit_with_def emit_message_def bag_frame_inv [OF bag_frame_add_labels]
      bag_frame_inv [OF bag_frame_label_composed] bag_frame_inv [OF bag_frame_attach_fix])
  moreover have "length m \<le> MAX_MESSAGE_BYTES + 3" if "clip m = m" for m
    using that by (metis clip_length)
  ultimately show ?thesis by (simp add: bag_inv_def)
qed

theorem reachable_bag_inv_witness:
  "db_error_count (snd (emit_message (bump 4096) Error ''boom'' (new_bag 0)))
     = count_of Error (db_entries (snd (emit_message (bump 4096) Error ''boom'' (new_bag 0))))"
  using reachable_bag_inv [OF bump_ok [of 4096] emitted_message [OF fresh, where ?h64.0 = "\<lambda>_. 0"]]
  by simp


subsection \<open>What merging loses\<close>

lemma alloc_entries: "alloc ops n al b = (ok, b') \<Longrightarrow> db_entries b' = db_entries b"
  by (auto simp: alloc_def split: prod.splits)

lemma intern_entries: "intern ops bs b = (owned, b') \<Longrightarrow> db_entries b' = db_entries b"
  by (auto simp: intern_def split: if_splits prod.splits dest: alloc_entries)

lemma intern_labels_entries: "intern_labels ops ls b = (ls', b') \<Longrightarrow> db_entries b' = db_entries b"
proof (induction ls arbitrary: b ls' b')
  case (Cons l ls)
  obtain owned b1 where 1: "intern ops (lb_message l) b = (owned, b1)" by fastforce
  obtain ls2 b2 where 2: "intern_labels ops ls b1 = (ls2, b2)" by fastforce
  show ?case using Cons.prems 1 2 Cons.IH [OF 2] intern_entries [OF 1] by auto
qed simp

lemma merge_one_entry:
  assumes "arena_ok ops" "bag_inv b" "bag_size (merge_one ops d b) = Suc (bag_size b)"
  shows "\<exists>e. db_entries (merge_one ops d b) = db_entries b @ [e] \<and> dg_fix e = None
    \<and> (dg_labels d = [] \<longrightarrow> dg_check_name e = [])"
proof -
  let ?e = "new_entry (dg_severity d) (dg_code d) (dg_primary d) (dg_has_primary d) (dg_message d)"
  obtain b1 where b1: "push ops (dg_severity d) (dg_code d) (dg_primary d) (dg_has_primary d)
        (dg_message d) b = (bag_size b, b1)"
      "b1 = snd (drop_diag (dg_severity d) b) \<or> db_entries b1 = db_entries b @ [?e]"
    using push_effect [OF assms(1,2)] by blast
  have stored: "db_entries b1 = db_entries b @ [?e]"
    using b1 assms(3) by (auto simp: merge_one_def drop_diag_def)
  have fields: "dg_fix ?e = None" "dg_check_name ?e = []" by (simp_all add: new_entry_def)
  have labelled: "\<exists>e. db_entries (update_entry (bag_size b) g b3) = db_entries b @ [e] \<and> dg_fix e = None"
    if "alloc ops n al b1 = (ok, b2)" "intern_labels ops ls b2 = (ls', b3)" "dg_fix (g ?e) = None"
    for n al ok b2 ls ls' b3 g
    using that(3) alloc_entries [OF that(1)] intern_labels_entries [OF that(2)] stored
    by (simp add: update_entry_def)
  show ?thesis
  proof (cases "dg_labels d = []")
    case True
    then have "merge_one ops d b = b1" using b1(1) stored by (simp add: merge_one_def)
    then show ?thesis using stored fields by auto
  next
    case False
    then have "\<exists>e. db_entries (merge_one ops d b) = db_entries b @ [e] \<and> dg_fix e = None"
      using b1(1) stored fields labelled
      by (auto simp: merge_one_def Let_def split: prod.splits bool.splits dest!: alloc_entries)
    with False show ?thesis by blast
  qed
qed

lemma attach_fix_other:
  assumes "j \<noteq> i" shows "db_entries (snd (attach_fix ops i f b)) ! j = db_entries b ! j"
    and "length (db_entries (snd (attach_fix ops i f b))) = length (db_entries b)"
  using assms
  by (auto simp: attach_fix_def Let_def update_entry_def split: prod.splits bool.splits
      dest!: alloc_entries intern_entries)

text \<open>
  Merging a bag with one diagnostic into a bag that already holds some, the repair of the
  diagnostic never arrives on it: repairs are attached by the index in the bag merged from, so the
  diagnostic taken over has none.
\<close>

theorem merged_fix_lost:
  assumes "arena_ok ops" "bag_inv b" "db_entries b \<noteq> []" "db_entries other = [d]"
    and "bag_size (merge ops other b) = bag_size b + 1"
  shows "dg_fix (last (db_entries (merge ops other b))) = None"
proof -
  let ?b1 = "merge_one ops d b"
  let ?b2 = "merge_fix ops (0, d) ?b1"
  have m: "db_entries (merge ops other b) = db_entries ?b2"
    using assms(4) by (simp add: merge_def Let_def)
  have size_b1: "bag_size ?b2 = bag_size ?b1"
    using merge_fixes_frame [of ?b1 ops "[(0, d)]"] bag_frame_size by fastforce
  then obtain e where e: "db_entries ?b1 = db_entries b @ [e]" "dg_fix e = None"
    using merge_one_entry [OF assms(1,2), of d] assms(5) m by auto
  have "db_entries ?b2 ! bag_size b = db_entries ?b1 ! bag_size b"
    using assms(3) by (auto simp: merge_fix_def attach_fix_other split: option.splits)
  then have "last (db_entries ?b2) = e"
    using e size_b1 last_conv_nth [of "db_entries ?b2"] by fastforce
  then show ?thesis using m e(2) by simp
qed

definition sample_bag :: "bytes \<Rightarrow> nat diag_bag" where
  "sample_bag txt = snd (emit_named (bump 4096) Warning \<lparr>mm_severity = Warning, mm_stage = StLint\<rparr> 1
     ''rule'' no_span txt (new_bag 0))"

definition sample_fix :: diag_fix where
  "sample_fix = \<lparr>fx_span = no_span, fx_replacement = ''x''\<rparr>"

lemma sample_bag_inv: "bag_inv (sample_bag txt)"
  unfolding sample_bag_def by (intro emit_named_inv bump_ok new_bag_inv) simp

lemmas sample_eval = sample_bag_def sample_fix_def emit_named_def push_def clip_def MAX_MESSAGE_BYTES_def
  grown_capacity_def INITIAL_CAPACITY_def new_bag_def has_room_for_def bump_def padding_for_def Let_def
  grow_entries_def alloc_def intern_def count_severity_def update_entry_def attach_fix_def
  merge_def merge_one_def merge_fix_def enumerate_eq_zip

theorem merge_accounts_witness:
  "drops_fit (sample_bag ''b'') (sample_bag ''a'')
    \<and> bag_size (merge (bump 4096) (sample_bag ''b'') (sample_bag ''a''))
        + unat (db_dropped_count (merge (bump 4096) (sample_bag ''b'') (sample_bag ''a''))) = 2
    \<and> map dg_message (db_entries (merge (bump 4096) (sample_bag ''b'') (sample_bag ''a''))) = [''a'', ''b'']"
proof (intro conjI)
  show fit: "drops_fit (sample_bag ''b'') (sample_bag ''a'')" by (simp add: drops_fit_def sample_eval)
  show "bag_size (merge (bump 4096) (sample_bag ''b'') (sample_bag ''a''))
        + unat (db_dropped_count (merge (bump 4096) (sample_bag ''b'') (sample_bag ''a''))) = 2"
    using merge_accounts [OF bump_ok sample_bag_inv sample_bag_inv fit, of 4096] by (simp add: sample_eval)
  show "map dg_message (db_entries (merge (bump 4096) (sample_bag ''b'') (sample_bag ''a''))) = [''a'', ''b'']"
    by (simp add: sample_eval)
qed

text \<open>The repair of the second diagnostic ends up on the first.\<close>

theorem merged_fix_lost_witness:
  "dg_fix (last (db_entries (merge (bump 4096) (snd (attach_fix (bump 4096) 0 sample_fix (sample_bag ''b'')))
       (sample_bag ''a'')))) = None
   \<and> dg_fix (hd (db_entries (merge (bump 4096) (snd (attach_fix (bump 4096) 0 sample_fix (sample_bag ''b'')))
       (sample_bag ''a'')))) = Some sample_fix"
proof
  let ?other = "snd (attach_fix (bump 4096) 0 sample_fix (sample_bag ''b''))"
  show "dg_fix (last (db_entries (merge (bump 4096) ?other (sample_bag ''a'')))) = None"
    by (rule merged_fix_lost [OF bump_ok sample_bag_inv, where d = "hd (db_entries ?other)"])
      (simp_all add: sample_eval)
  show "dg_fix (hd (db_entries (merge (bump 4096) ?other (sample_bag ''a'')))) = Some sample_fix"
    by (simp add: sample_eval)
qed

text \<open>
  A finding of a lint rule that carries no label loses the name of its rule when its bag is
  merged: the name is copied only on the path that copies labels.
\<close>

theorem merged_rule_name_lost:
  assumes "arena_ok ops" "bag_inv b" "db_entries other = [d]" "dg_labels d = []" "dg_fix d = None"
    and "bag_size (merge ops other b) = bag_size b + 1"
  shows "dg_check_name (last (db_entries (merge ops other b))) = []"
proof -
  have m: "db_entries (merge ops other b) = db_entries (merge_one ops d b)"
    using assms(3,5) by (simp add: merge_def Let_def merge_fix_def)
  then show ?thesis using merge_one_entry [OF assms(1,2), of d] assms(4,6) by auto
qed


theorem merged_rule_name_lost_witness:
  "dg_check_name (last (db_entries (merge (bump 4096) (sample_bag ''b'') (sample_bag ''a'')))) = []
   \<and> dg_check_name (hd (db_entries (sample_bag ''b''))) = ''rule''"
proof
  show "dg_check_name (last (db_entries (merge (bump 4096) (sample_bag ''b'') (sample_bag ''a'')))) = []"
    by (rule merged_rule_name_lost [OF bump_ok sample_bag_inv, where d = "hd (db_entries (sample_bag ''b''))"])
      (simp_all add: sample_eval)
qed (simp add: sample_eval)

end
