(* ===== verification/Base_For_Each.thy ===== *)
theory Base_For_Each
  imports Alcy_Prelude "HOL-Library.Multiset"
begin

text \<open>
  \<^verbatim>\<open>base::for_each\<close> of \<^verbatim>\<open>src/src/base/for_each.h\<close>: a range of indices drained by several threads
  through one atomic counter.  Each atomic operation and each call of the body is one step of a
  thread, and the threads' steps interleave in any order: \<open>pool_step\<close> is the step relation.
  The counters are 64 bits wide and wrap.
\<close>

subsection \<open>The pool\<close>

definition FOR_EACH_SLICES_PER_WORKER :: nat where
  "FOR_EACH_SLICES_PER_WORKER = 4"

text \<open>Where a thread stands in \<^verbatim>\<open>drain\<close>: before its claim, at the head of the loop, inside a slice
  with the indices \<open>i\<close> up to \<open>stop\<close> still to do, or returned.\<close>

datatype thread = Unstarted | At_Head nat | In_Slice nat nat nat | Finished

record pool =
  next_index :: nat
  claimed :: nat
  threads :: "thread list"
  visited :: "(nat \<times> nat) list"

definition fetch_add :: "nat \<Rightarrow> nat \<Rightarrow> nat" where
  "fetch_add v n = (v + n) mod 2 ^ 64"

definition new_pool :: "nat \<Rightarrow> nat \<Rightarrow> pool" where
  "new_pool first_index workers =
     \<lparr>next_index = first_index, claimed = 0, threads = replicate workers Unstarted, visited = []\<rparr>"

text \<open>One step of thread \<open>t\<close>, as a function of its state; a finished thread takes none.\<close>

fun thread_step :: "nat \<Rightarrow> nat \<Rightarrow> nat \<Rightarrow> pool \<Rightarrow> thread \<Rightarrow> pool option" where
  "thread_step last_index chunk t p Unstarted =
     Some (p\<lparr>claimed := fetch_add (claimed p) 1, threads := (threads p)[t := At_Head (claimed p)]\<rparr>)"
| "thread_step last_index chunk t p (At_Head worker) =
     (let first = next_index p in
      Some (p\<lparr>next_index := fetch_add (next_index p) chunk,
              threads := (threads p)[t := if first \<ge> last_index then Finished
                                          else In_Slice worker first (min (first + chunk) last_index)]\<rparr>))"
| "thread_step last_index chunk t p (In_Slice worker i stop) =
     Some (if i < stop
           then p\<lparr>visited := visited p @ [(i, worker)],
                  threads := (threads p)[t := In_Slice worker (i + 1) stop]\<rparr>
           else p\<lparr>threads := (threads p)[t := At_Head worker]\<rparr>)"
| "thread_step last_index chunk t p Finished = None"

inductive pool_step :: "nat \<Rightarrow> nat \<Rightarrow> pool \<Rightarrow> pool \<Rightarrow> bool" for last_index chunk where
  "t < length (threads p) \<Longrightarrow> thread_step last_index chunk t p (threads p ! t) = Some p'
   \<Longrightarrow> pool_step last_index chunk p p'"

definition joined :: "pool \<Rightarrow> bool" where
  "joined p \<longleftrightarrow> (\<forall>th \<in> set (threads p). th = Finished)"

definition for_each_serial :: "nat \<Rightarrow> nat \<Rightarrow> (nat \<times> nat) list" where
  "for_each_serial first_index last_index = map (\<lambda>i. (i, 0)) [first_index..<last_index]"

definition worker_count :: "nat \<Rightarrow> nat \<Rightarrow> nat \<Rightarrow> nat" where
  "worker_count first_index last_index jobs = min jobs (last_index - first_index)"

definition slice_size :: "nat \<Rightarrow> nat \<Rightarrow> nat" where
  "slice_size indices workers = max 1 (indices div (workers * FOR_EACH_SLICES_PER_WORKER))"

text \<open>The calls \<open>(i, worker)\<close> of the body a run of \<^verbatim>\<open>for_each\<close> may make, in the order they happen.\<close>

inductive for_each_runs :: "nat \<Rightarrow> nat \<Rightarrow> nat \<Rightarrow> (nat \<times> nat) list \<Rightarrow> bool" where
  serial: "worker_count first_index last_index jobs < 2 \<Longrightarrow>
    for_each_runs first_index last_index jobs (for_each_serial first_index last_index)"
| parallel: "workers = worker_count first_index last_index jobs \<Longrightarrow> workers \<ge> 2 \<Longrightarrow>
    chunk = slice_size (last_index - first_index) workers \<Longrightarrow>
    (pool_step last_index chunk)\<^sup>*\<^sup>* (new_pool first_index workers) p \<Longrightarrow> joined p \<Longrightarrow>
    for_each_runs first_index last_index jobs (visited p)"

subsection \<open>The invariant of the pool\<close>

fun pending :: "thread \<Rightarrow> nat multiset" where
  "pending (In_Slice worker i stop) = mset [i..<stop]"
| "pending _ = {#}"

fun worker_of :: "thread \<Rightarrow> nat list" where
  "worker_of (At_Head worker) = [worker]"
| "worker_of (In_Slice worker i stop) = [worker]"
| "worker_of _ = []"

definition finished_count :: "pool \<Rightarrow> nat" where
  "finished_count p = length (filter (\<lambda>th. th = Finished) (threads p))"

text \<open>Everything handed out so far was visited or is pending; the counter overshoots the end only by
  one slice for each finished thread.\<close>

definition pool_inv :: "nat \<Rightarrow> nat \<Rightarrow> nat \<Rightarrow> nat \<Rightarrow> pool \<Rightarrow> bool" where
  "pool_inv first_index last_index chunk workers p \<longleftrightarrow>
     mset (map fst (visited p)) + (\<Sum>th \<leftarrow> threads p. pending th)
       = mset [first_index..<min (next_index p) last_index]
   \<and> first_index \<le> next_index p
   \<and> next_index p < last_index + chunk * (finished_count p + 1)
   \<and> (finished_count p > 0 \<longrightarrow> next_index p \<ge> last_index)
   \<and> length (threads p) = workers
   \<and> claimed p + length (filter (\<lambda>th. th = Unstarted) (threads p)) = workers
   \<and> (\<forall>th \<in> set (threads p). \<forall>w \<in> set (worker_of th). w < claimed p)
   \<and> (\<forall>(i, w) \<in> set (visited p). w < claimed p)"

lemma sum_list_update_mset:
  fixes xs :: "'a::comm_monoid_add list"
  assumes "t < length xs"
  shows "sum_list (xs[t := v]) + xs ! t = sum_list xs + v"
  using assms
proof (induction xs arbitrary: t)
  case (Cons x xs)
  then show ?case by (cases t) (auto simp: ac_simps)
qed simp

lemma pending_update:
  assumes "t < length ths"
  shows "(\<Sum>th \<leftarrow> ths[t := v]. pending th) + pending (ths ! t) = (\<Sum>th \<leftarrow> ths. pending th) + pending v"
  using sum_list_update_mset [of t "map pending ths" "pending v"] assms by (simp add: map_update)

lemma finished_less:
  assumes "t < length (threads p)" "threads p ! t \<noteq> Finished"
  shows "finished_count p < length (threads p)"
  using assms unfolding finished_count_def
  by (metis (mono_tags, lifting) length_filter_less nth_mem)


lemma sum_list_replicate_0 [simp]: "sum_list (replicate n (0 :: 'a::comm_monoid_add)) = 0"
  by (induction n) simp_all

lemma pending_Suc:
  "i < stop \<Longrightarrow> pending (In_Slice w i stop) = add_mset i (pending (In_Slice w (i + 1) stop))"
  by (simp add: upt_conv_Cons del: mset_upt)

lemma new_pool_inv:
  assumes "first_index < last_index" "chunk > 0"
  shows "pool_inv first_index last_index chunk workers (new_pool first_index workers)"
  using assms by (auto simp: pool_inv_def new_pool_def finished_count_def)

lemma claim_inv:
  assumes inv: "pool_inv first_index last_index chunk workers p" and w: "workers < 2 ^ 64"
    and t: "t < length (threads p)" "threads p ! t = Unstarted"
    and step: "thread_step last_index chunk t p Unstarted = Some p'"
  shows "pool_inv first_index last_index chunk workers p'"
proof -
  let ?ths = "threads p" and ?ths' = "(threads p)[t := At_Head (claimed p)]"
  have un: "length (filter (\<lambda>th. th = Unstarted) ?ths) = Suc (length (filter (\<lambda>th. th = Unstarted) ?ths'))"
    using length_filter_update [OF t(1), of "\<lambda>th. th = Unstarted" "At_Head (claimed p)"] t(2) by simp
  have "claimed p + 1 < 2 ^ 64 \<or> claimed p + 1 \<le> workers" using inv un by (simp add: pool_inv_def)
  then have p': "p' = p\<lparr>claimed := claimed p + 1, threads := ?ths'\<rparr>"
    using step w by (auto simp: fetch_add_def)
  have "finished_count p' = finished_count p"
    using length_filter_update [OF t(1), of "\<lambda>th. th = Finished" "At_Head (claimed p)"] t(2)
    by (simp add: p' finished_count_def)
  moreover have "(\<Sum>th \<leftarrow> ?ths'. pending th) = (\<Sum>th \<leftarrow> ?ths. pending th)"
    using pending_update [OF t(1), of "At_Head (claimed p)"] t(2) by simp
  moreover have "\<forall>th \<in> set ?ths'. \<forall>w \<in> set (worker_of th). w < claimed p + 1"
    using inv set_update_subset_insert [of ?ths t "At_Head (claimed p)"]
    by (fastforce simp: pool_inv_def less_Suc_eq)
  ultimately show ?thesis using inv un unfolding pool_inv_def by (auto simp: p' less_Suc_eq)
qed

lemma upt_append_mset: "a \<le> b \<Longrightarrow> b \<le> c \<Longrightarrow> mset [a..<b] + mset [b..<c] = mset [a..<c]"
  by (metis le_iff_add mset_append upt_add_eq_append)

lemma head_inv:
  assumes inv: "pool_inv first_index last_index chunk workers p" and w: "chunk > 0"
    and wide: "last_index + chunk * (workers + 1) < 2 ^ 64"
    and t: "t < length (threads p)" "threads p ! t = At_Head worker"
    and step: "thread_step last_index chunk t p (At_Head worker) = Some p'"
  shows "pool_inv first_index last_index chunk workers p'"
proof -
  let ?ths = "threads p" and ?n = "next_index p"
  let ?new = "if ?n \<ge> last_index then Finished else In_Slice worker ?n (min (?n + chunk) last_index)"
  let ?ths' = "?ths[t := ?new]"
  have "finished_count p < workers"
    using finished_less [of t p] t inv by (simp add: pool_inv_def)
  then have "chunk * (finished_count p + 1) \<le> chunk * workers" by (intro mult_le_mono2) simp
  then have small: "?n + chunk < 2 ^ 64" using inv wide by (auto simp: pool_inv_def)
  then have p': "p' = p\<lparr>next_index := ?n + chunk, threads := ?ths'\<rparr>"
    using step by (auto simp: fetch_add_def Let_def)
  have fin: "finished_count p' = finished_count p + (if ?n \<ge> last_index then 1 else 0)"
    using length_filter_update [OF t(1), of "\<lambda>th. th = Finished" ?new] t(2)
    by (simp add: p' finished_count_def)
  have un: "length (filter (\<lambda>th. th = Unstarted) ?ths') = length (filter (\<lambda>th. th = Unstarted) ?ths)"
    using length_filter_update [OF t(1), of "\<lambda>th. th = Unstarted" ?new] t(2) by (simp split: if_splits)
  have pend: "(\<Sum>th \<leftarrow> ?ths'. pending th) = (\<Sum>th \<leftarrow> ?ths. pending th) + pending ?new"
    using pending_update [OF t(1), of ?new] t(2) by simp
  have handed: "mset [first_index..<min ?n last_index] + pending ?new
      = mset [first_index..<min (?n + chunk) last_index]"
    using inv upt_append_mset [of first_index ?n "min (?n + chunk) last_index"]
    by (auto simp: pool_inv_def min_def)
  have bound: "?n + chunk < last_index + chunk * (finished_count p' + 1)"
    using inv unfolding fin pool_inv_def by (cases "?n \<ge> last_index") (simp_all add: distrib_left)
  have reach: "finished_count p' > 0 \<longrightarrow> ?n + chunk \<ge> last_index"
    using inv unfolding fin pool_inv_def by (auto split: if_splits)
  have old: "\<forall>th \<in> set ?ths. \<forall>w \<in> set (worker_of th). w < claimed p"
    using inv unfolding pool_inv_def by blast
  then have "worker < claimed p" using t nth_mem [OF t(1)] by fastforce
  then have "\<forall>w \<in> set (worker_of ?new). w < claimed p" by simp
  with old have workers: "\<forall>th \<in> set ?ths'. \<forall>w \<in> set (worker_of th). w < claimed p"
    using set_update_subset_insert [of ?ths t ?new] by blast
  have account: "mset (map fst (visited p)) + (\<Sum>th \<leftarrow> ?ths'. pending th)
      = mset [first_index..<min (?n + chunk) last_index]"
  proof -
    have "mset (map fst (visited p)) + (\<Sum>th \<leftarrow> ?ths. pending th) = mset [first_index..<min ?n last_index]"
      using inv unfolding pool_inv_def by blast
    then show ?thesis unfolding pend handed [symmetric] by (simp only: add.assoc [symmetric])
  qed
  show ?thesis using inv un bound reach workers account
    unfolding pool_inv_def by (simp add: p')
qed

lemma slice_inv:
  assumes inv: "pool_inv first_index last_index chunk workers p"
    and t: "t < length (threads p)" "threads p ! t = In_Slice worker i stop"
    and step: "thread_step last_index chunk t p (In_Slice worker i stop) = Some p'"
  shows "pool_inv first_index last_index chunk workers p'"
proof -
  let ?ths = "threads p"
  define new where "new = (if i < stop then In_Slice worker (i + 1) stop else At_Head worker)"
  define calls where "calls = (if i < stop then [(i, worker)] else [])"
  have p': "p' = p\<lparr>visited := visited p @ calls, threads := ?ths[t := new]\<rparr>"
    using step by (auto simp: new_def calls_def)
  have "finished_count p' = finished_count p"
    using length_filter_update [OF t(1), of "\<lambda>th. th = Finished" new] t(2)
    by (auto simp: p' finished_count_def new_def split: if_splits)
  moreover have "length (filter (\<lambda>th. th = Unstarted) (?ths[t := new]))
      = length (filter (\<lambda>th. th = Unstarted) ?ths)"
    using length_filter_update [OF t(1), of "\<lambda>th. th = Unstarted" new] t(2)
    by (auto simp: new_def split: if_splits)
  moreover have "mset (map fst calls) + (\<Sum>th \<leftarrow> ?ths[t := new]. pending th) = (\<Sum>th \<leftarrow> ?ths. pending th)"
  proof (cases "i < stop")
    case True
    then show ?thesis using pending_update [OF t(1), of new] t(2) pending_Suc [of i stop worker]
      by (simp add: new_def calls_def del: pending.simps(1))
  next
    case False
    then show ?thesis using pending_update [OF t(1), of new] t(2) by (simp add: new_def calls_def)
  qed
  moreover have old: "\<forall>th \<in> set ?ths. \<forall>w \<in> set (worker_of th). w < claimed p"
    using inv unfolding pool_inv_def by blast
  then have worker: "worker < claimed p" using t nth_mem [OF t(1)] by fastforce
  then have "\<forall>w \<in> set (worker_of new). w < claimed p" by (simp add: new_def)
  with old have "\<forall>th \<in> set (?ths[t := new]). \<forall>w \<in> set (worker_of th). w < claimed p"
    using set_update_subset_insert [of ?ths t new] by blast
  moreover have "\<forall>(i, w) \<in> set (visited p @ calls). w < claimed p"
    using inv worker unfolding pool_inv_def by (auto simp: calls_def)
  ultimately show ?thesis using inv
    unfolding pool_inv_def by (simp add: p' add.assoc)
qed


lemma pool_step_inv:
  assumes "pool_step last_index chunk p p'" "pool_inv first_index last_index chunk workers p"
    "chunk > 0" "last_index + chunk * (workers + 1) < 2 ^ 64"
  shows "pool_inv first_index last_index chunk workers p'"
  using assms(1)
proof cases
  case (1 t)
  have "workers \<le> chunk * (workers + 1)" using assms(3) by (cases chunk) auto
  then have "workers < 2 ^ 64" using assms(4) by linarith
  then show ?thesis
    using 1 claim_inv [OF assms(2) _ 1(1)] head_inv [OF assms(2-4) 1(1)] slice_inv [OF assms(2) 1(1)]
    by (cases "threads p ! t") auto
qed

lemma pool_reach_inv:
  assumes "(pool_step last_index chunk)\<^sup>*\<^sup>* (new_pool first_index workers) p"
    "first_index < last_index" "chunk > 0" "last_index + chunk * (workers + 1) < 2 ^ 64"
  shows "pool_inv first_index last_index chunk workers p"
  using assms(1)
proof (induction rule: rtranclp_induct)
  case base
  show ?case by (rule new_pool_inv [OF assms(2,3)])
next
  case (step p p')
  show ?case by (rule pool_step_inv [OF step(2) step(3) assms(3,4)])
qed

text \<open>Slices never make the counter wrap when the range itself is far from the end of the type.\<close>

lemma slice_size_pos: "slice_size n w > 0"
  by (simp add: slice_size_def)

lemma slice_size_small:
  assumes "w \<ge> 2" "w \<le> n"
  shows "slice_size n w * (w + 1) \<le> n + 1"
proof (cases "n div (w * 4) \<le> 1")
  case True
  then show ?thesis using assms by (simp add: slice_size_def FOR_EACH_SLICES_PER_WORKER_def max_def)
next
  case False
  have "n div (w * 4) * (w + 1) \<le> n div (w * 4) * (w * 4)" using assms(1) by (intro mult_le_mono2) simp
  also have "\<dots> \<le> n" by simp
  finally show ?thesis using False by (simp add: slice_size_def FOR_EACH_SLICES_PER_WORKER_def max_def)
qed

lemma range_fits:
  assumes "w = worker_count first_index last_index jobs" "w \<ge> 2"
    "last_index + (last_index - first_index) + 1 < 2 ^ 64"
  shows "first_index < last_index"
    and "last_index + slice_size (last_index - first_index) w * (w + 1) < 2 ^ 64"
proof -
  show "first_index < last_index"
    using assms(1,2) by (cases "first_index < last_index") (auto simp: worker_count_def)
  have "w \<le> last_index - first_index" using assms(1) by (simp add: worker_count_def)
  from slice_size_small [OF assms(2) this] assms(3)
  show "last_index + slice_size (last_index - first_index) w * (w + 1) < 2 ^ 64" by linarith
qed

lemma joined_covers:
  assumes "pool_inv first_index last_index chunk workers p" "joined p" "workers > 0"
  shows "mset (map fst (visited p)) = mset [first_index..<last_index]"
proof -
  have all: "\<forall>th \<in> set (threads p). th = Finished" using assms(2) by (simp add: joined_def)
  then have "finished_count p = length (threads p)" by (simp add: finished_count_def filter_True)
  moreover have "length (threads p) > 0" using assms(1,3) unfolding pool_inv_def by blast
  ultimately have "next_index p \<ge> last_index" using assms(1) unfolding pool_inv_def by metis
  moreover have "map pending (threads p) = replicate (length (threads p)) {#}"
    using all by (intro replicate_eqI) auto
  ultimately show ?thesis using assms(1) unfolding pool_inv_def by (simp add: min_def)
qed

text \<open>A schedule names the thread that takes the next step; running one is an execution.\<close>

fun run_schedule :: "nat \<Rightarrow> nat \<Rightarrow> nat list \<Rightarrow> pool \<Rightarrow> pool option" where
  "run_schedule last_index chunk [] p = Some p"
| "run_schedule last_index chunk (t # ts) p =
     (if t < length (threads p)
      then case thread_step last_index chunk t p (threads p ! t) of
             None \<Rightarrow> None
           | Some p' \<Rightarrow> run_schedule last_index chunk ts p'
      else None)"

lemma run_schedule_reaches:
  "run_schedule last_index chunk ts p = Some p' \<Longrightarrow> (pool_step last_index chunk)\<^sup>*\<^sup>* p p'"
proof (induction ts arbitrary: p)
  case (Cons t ts)
  then obtain q where "t < length (threads p)" "thread_step last_index chunk t p (threads p ! t) = Some q"
      "run_schedule last_index chunk ts q = Some p'"
    by (auto split: if_splits option.splits)
  then show ?case using Cons.IH [of q]
    by (meson converse_rtranclp_into_rtranclp pool_step.intros)
qed simp

text \<open>
  C12. However the threads interleave, a run of \<^verbatim>\<open>for_each\<close> that returns has called its body for
  every index of the range exactly once, and each call names a worker below the number of threads.
  The range is assumed to end at least its own length before the largest index.
\<close>

theorem for_each_exactly_once:
  assumes "for_each_runs first_index last_index jobs calls"
    and "last_index + (last_index - first_index) + 1 < 2 ^ 64"
  shows "mset (map fst calls) = mset [first_index..<last_index]
    \<and> (\<forall>(i, w) \<in> set calls. w < max 1 (worker_count first_index last_index jobs))"
  using assms(1)
proof cases
  case serial
  then show ?thesis by (auto simp: for_each_serial_def comp_def)
next
  case (parallel workers chunk p)
  note fits = range_fits [OF parallel(2,3) assms(2)]
  have inv: "pool_inv first_index last_index chunk workers p"
    using pool_reach_inv [OF parallel(5) fits(1)] fits(2) by (simp add: parallel(4) slice_size_pos)
  have "mset (map fst (visited p)) = mset [first_index..<last_index]"
    using joined_covers [OF inv parallel(6)] parallel(3) by simp
  moreover have "claimed p \<le> workers" "\<forall>(i, w) \<in> set (visited p). w < claimed p"
    using inv unfolding pool_inv_def by (simp, blast)
  ultimately show ?thesis using parallel(1-3) by fastforce
qed

theorem for_each_exactly_once_witness:
  "mset (map fst [(11::nat, 1::nat), (10, 0)]) = mset [10..<12]"
proof -
  let ?p = "\<lparr>next_index = 14, claimed = 2, threads = [Finished, Finished], visited = [(11, 1), (10, 0)]\<rparr>"
  have start: "new_pool 10 2 = \<lparr>next_index = 10, claimed = 0, threads = [Unstarted, Unstarted], visited = []\<rparr>"
    by (simp add: new_pool_def numeral_2_eq_2)
  have "run_schedule 12 1 [0, 1, 0, 1, 1, 1, 0, 0, 1, 0] (new_pool 10 2) = Some ?p"
    by (simp add: start fetch_add_def Let_def)
  from run_schedule_reaches [OF this] have "for_each_runs 10 12 8 (visited ?p)"
    by (intro parallel [where workers = 2 and chunk = 1])
      (simp_all add: worker_count_def slice_size_def FOR_EACH_SLICES_PER_WORKER_def joined_def)
  from for_each_exactly_once [OF this] show ?thesis by simp
qed

subsection \<open>Every run ends\<close>

fun weight :: "thread \<Rightarrow> nat" where
  "weight Unstarted = 4"
| "weight (At_Head w) = 2"
| "weight (In_Slice w i stop) = 2 * (stop - i) + 3"
| "weight Finished = 0"

definition work_left :: "nat \<Rightarrow> pool \<Rightarrow> nat" where
  "work_left last_index p = 4 * (last_index - next_index p) + (\<Sum>th \<leftarrow> threads p. weight th)"

lemma weight_update:
  assumes "t < length ths"
  shows "(\<Sum>th \<leftarrow> ths[t := v]. weight th) + weight (ths ! t) = (\<Sum>th \<leftarrow> ths. weight th) + weight v"
  using sum_list_update_mset [of t "map weight ths" "weight v"] assms by (simp add: map_update)

lemma pool_step_less:
  assumes "pool_step last_index chunk p p'" "next_index p + chunk < 2 ^ 64" "chunk > 0"
  shows "work_left last_index p' < work_left last_index p"
  using assms(1)
proof cases
  case (1 t)
  note w = weight_update [OF 1(1)]
  show ?thesis
  proof (cases "threads p ! t")
    case Unstarted
    then show ?thesis using 1(2) w [of "At_Head (claimed p)"] by (auto simp: work_left_def)
  next
    case (At_Head worker)
    let ?n = "next_index p"
    show ?thesis
    proof (cases "?n \<ge> last_index")
      case True
      then show ?thesis using 1(2) At_Head assms(2) w [of Finished]
        by (auto simp: work_left_def fetch_add_def Let_def)
    next
      case False
      then show ?thesis using 1(2) At_Head assms(2,3) w [of "In_Slice worker ?n (min (?n + chunk) last_index)"]
        by (auto simp: work_left_def fetch_add_def Let_def min_def)
    qed
  next
    case (In_Slice worker i stop)
    then show ?thesis using 1(2) w [of "In_Slice worker (i + 1) stop"] w [of "At_Head worker"]
      by (auto simp: work_left_def split: if_splits)
  next
    case Finished
    then show ?thesis using 1(2) by simp
  qed
qed


lemma counter_fits:
  assumes inv: "pool_inv first_index last_index chunk workers p"
    and wide: "last_index + chunk * (workers + 1) < 2 ^ 64"
    and step: "pool_step last_index chunk p p'"
  shows "next_index p + chunk < 2 ^ 64"
  using step
proof cases
  case (1 t)
  then have "threads p ! t \<noteq> Finished" by auto
  then have "finished_count p < workers"
    using finished_less [OF 1(1)] inv by (simp add: pool_inv_def)
  then have "chunk * (finished_count p + 1) \<le> chunk * workers" by (intro mult_le_mono2) simp
  then show ?thesis using inv wide by (auto simp: pool_inv_def)
qed

text \<open>
  C36. The threads of \<^verbatim>\<open>for_each\<close> never block each other and never run forever: in every state
  a run can reach in which a thread has not returned some thread can take a step, and no schedule
  is infinite.
\<close>

theorem for_each_returns:
  assumes "workers = worker_count first_index last_index jobs" "workers \<ge> 2"
    and "chunk = slice_size (last_index - first_index) workers"
    and "last_index + (last_index - first_index) + 1 < 2 ^ 64"
  shows "(\<forall>p. (pool_step last_index chunk)\<^sup>*\<^sup>* (new_pool first_index workers) p \<and> \<not> joined p
            \<longrightarrow> (\<exists>p'. pool_step last_index chunk p p'))
    \<and> \<not> (\<exists>f. f 0 = new_pool first_index workers \<and> (\<forall>n. pool_step last_index chunk (f n) (f (Suc n))))"
proof (intro conjI allI impI notI)
  fix p assume "(pool_step last_index chunk)\<^sup>*\<^sup>* (new_pool first_index workers) p \<and> \<not> joined p"
  then obtain t where t: "t < length (threads p)" "threads p ! t \<noteq> Finished"
    by (auto simp: joined_def in_set_conv_nth)
  then obtain p' where "thread_step last_index chunk t p (threads p ! t) = Some p'"
    by (cases "threads p ! t") (auto simp: Let_def)
  then show "\<exists>p'. pool_step last_index chunk p p'" using t(1) pool_step.intros by blast
next
  note fits = range_fits [OF assms(1,2,4)]
  assume "\<exists>f. f 0 = new_pool first_index workers \<and> (\<forall>n. pool_step last_index chunk (f n) (f (Suc n)))"
  then obtain f where f: "f 0 = new_pool first_index workers"
    "\<And>n. pool_step last_index chunk (f n) (f (Suc n))" by blast
  have "(pool_step last_index chunk)\<^sup>*\<^sup>* (new_pool first_index workers) (f n)" for n
  proof (induction n)
    case (Suc n)
    then show ?case using f(2) [of n] by (rule rtranclp.rtrancl_into_rtrancl)
  qed (simp add: f(1))
  then have inv: "pool_inv first_index last_index chunk workers (f n)" for n
    using pool_reach_inv [OF _ fits(1)] fits(2) by (simp add: assms(3) slice_size_pos)
  have "work_left last_index (f (Suc n)) < work_left last_index (f n)" for n
    using pool_step_less [OF f(2) counter_fits [OF inv _ f(2)]] fits(2)
    by (simp add: assms(3) slice_size_pos)
  then show False
    using wf_measure [of "work_left last_index", unfolded wf_iff_no_infinite_down_chain] by auto
qed

theorem for_each_returns_witness:
  "\<not> (\<exists>f. f 0 = new_pool 10 2 \<and> (\<forall>n. pool_step 12 1 (f n) (f (Suc n))))"
  using for_each_returns [where workers = 2 and first_index = 10 and last_index = 12 and jobs = 8 and chunk = 1]
  by (simp add: worker_count_def slice_size_def FOR_EACH_SLICES_PER_WORKER_def)

end
