(* ===== verification/Base_Digest.thy ===== *)
theory Base_Digest
  imports Alcy_Prelude
begin

text \<open>
  Two small parts of \<^verbatim>\<open>src/src/base\<close>: the 128-bit digest of \<^verbatim>\<open>hash.h\<close> with its two renderings, and
  the recursion budget of \<^verbatim>\<open>nesting.h\<close>.  The digest functions themselves are xxHash's, a
  parameter of what uses them.
\<close>

subsection \<open>Digest128\<close>

record digest128 =
  dg_low :: u64
  dg_high :: u64

text \<open>\<^verbatim>\<open>out[i]\<close> and \<^verbatim>\<open>out[8 + i]\<close> are written by the same turn of the loop.\<close>

definition digest_bytes :: "digest128 \<Rightarrow> u8 list" where
  "digest_bytes d =
     fold (\<lambda>i out. out[i := ucast (drop_bit (8 * i) (dg_low d)),
                       8 + i := ucast (drop_bit (8 * i) (dg_high d))])
       [0..<8] (replicate 16 0)"

definition DIGITS :: string where
  "DIGITS = ''0123456789abcdef''"

definition digest_hex :: "digest128 \<Rightarrow> string" where
  "digest_hex d =
     map (\<lambda>i. let half = (if i < 16 then dg_high d else dg_low d) in
              DIGITS ! unat (drop_bit (4 * (15 - i mod 16)) half AND 0xF))
       [0..<32]"

definition hash64_text :: "(u8 list \<Rightarrow> u64) \<Rightarrow> bytes \<Rightarrow> u64" where
  "hash64_text xxh3_64 txt = xxh3_64 (map of_char txt)"

definition hash128 :: "(u8 list \<Rightarrow> u64 \<times> u64) \<Rightarrow> u8 list \<Rightarrow> digest128" where
  "hash128 xxh3_128 data = (case xxh3_128 data of (low64, high64) \<Rightarrow> \<lparr>dg_low = low64, dg_high = high64\<rparr>)"

definition hash128_text :: "(u8 list \<Rightarrow> u64 \<times> u64) \<Rightarrow> bytes \<Rightarrow> digest128" where
  "hash128_text xxh3_128 txt = hash128 xxh3_128 (map of_char txt)"

lemma digest_bytes_eq:
  "digest_bytes d = map (\<lambda>i. ucast (drop_bit (8 * i) (dg_low d))) [0..<8]
                  @ map (\<lambda>i. ucast (drop_bit (8 * i) (dg_high d))) [0..<8]"
  by (simp add: digest_bytes_def upt_rec eval_nat_numeral)

text \<open>A word is determined by its nibbles, and by its bytes.\<close>

lemma word_eq_by_chunks:
  fixes v w :: u64
  assumes "k > 0" "\<And>i. i < 64 div k + 1 \<Longrightarrow> drop_bit (k * i) v AND mask k = drop_bit (k * i) w AND mask k"
  shows "v = w"
proof (rule bit_word_eqI)
  fix n assume "n < LENGTH(64)"
  then have n: "n < 64" by simp
  have "bit (drop_bit (k * (n div k)) v AND mask k) (n mod k) = bit (drop_bit (k * (n div k)) w AND mask k) (n mod k)"
    using assms(2) [of "n div k"] div_le_mono [of n 64 k] n by (simp add: less_Suc_eq_le)
  moreover have "bit (drop_bit (k * (n div k)) x AND mask k) (n mod k) = bit x n" for x :: u64
    using n assms(1) mod_less_divisor [OF assms(1), of n]
    by (simp add: bit_simps mod_less_eq_dividend [THEN le_less_trans])
  ultimately show "bit v n = bit w n" by simp
qed

lemma DIGITS_inj: "i < 16 \<Longrightarrow> j < 16 \<Longrightarrow> DIGITS ! i = DIGITS ! j \<Longrightarrow> i = j"
proof -
  have "distinct DIGITS" "length DIGITS = 16" by (simp_all add: DIGITS_def)
  then show "i < 16 \<Longrightarrow> j < 16 \<Longrightarrow> DIGITS ! i = DIGITS ! j \<Longrightarrow> i = j"
    by (simp add: nth_eq_iff_index_eq)
qed


lemma hex_nibble:
  assumes "digest_hex d = digest_hex e" "i < 32"
  shows "drop_bit (4 * (15 - i mod 16)) (if i < 16 then dg_high d else dg_low d) AND 0xF
       = drop_bit (4 * (15 - i mod 16)) (if i < 16 then dg_high e else dg_low e) AND 0xF"
proof -
  let ?n = "\<lambda>d. drop_bit (4 * (15 - i mod 16)) (if i < 16 then dg_high d else dg_low d) AND 0xF"
  have small: "unat (x AND 0xF) < 16" for x :: u64
  proof -
    have "x AND 0xF = take_bit 4 x" by (simp add: take_bit_eq_mask mask_eq_exp_minus_1)
    then have "unat (x AND 0xF) = unat x mod 16" by (simp add: take_bit_eq_mod unat_mod_distrib)
    then show ?thesis by simp
  qed
  have "DIGITS ! unat (?n d) = DIGITS ! unat (?n e)"
    using arg_cong [OF assms(1), of "\<lambda>s. s ! i"] assms(2) by (simp add: digest_hex_def Let_def)
  then have "unat (?n d) = unat (?n e)" using DIGITS_inj small by blast
  then show ?thesis by (simp only: word_eq_iff_unsigned [where 'a = nat])
qed

lemma hex_half_eq:
  assumes "\<And>i. i < 16 \<Longrightarrow> drop_bit (4 * (15 - i)) v AND 0xF = drop_bit (4 * (15 - i)) w AND (0xF :: u64)"
  shows "v = w"
proof (rule word_eq_by_chunks [of 4])
  fix c :: nat assume "c < 64 div 4 + 1"
  then consider "c < 16" | "c = 16" by force
  then show "drop_bit (4 * c) v AND mask 4 = drop_bit (4 * c) w AND mask 4"
  proof cases
    case 1
    then have "15 - (15 - c) = c" "15 - c < 16" by auto
    then show ?thesis using assms [of "15 - c"] by (simp add: mask_eq_exp_minus_1)
  next
    case 2
    have "drop_bit 64 x = 0" for x :: u64
      by (rule bit_word_eqI) (simp add: bit_simps)
    then show ?thesis using 2 by simp
  qed
qed simp

lemma byte_half_eq:
  fixes v w :: u64
  assumes "\<And>i. i < 8 \<Longrightarrow> (ucast (drop_bit (8 * i) v) :: u8) = ucast (drop_bit (8 * i) w)"
  shows "v = w"
proof (rule bit_word_eqI)
  fix n assume "n < LENGTH(64)"
  then have n: "n < 64" "n div 8 < 8" by simp_all
  have "bit (ucast (drop_bit (8 * (n div 8)) v) :: u8) (n mod 8) = bit (ucast (drop_bit (8 * (n div 8)) w) :: u8) (n mod 8)"
    using assms [OF n(2)] by simp
  moreover have "bit (ucast (drop_bit (8 * (n div 8)) x) :: u8) (n mod 8) = bit x n" for x :: u64
    using n by (simp add: bit_simps mod_less_eq_dividend [THEN le_less_trans])
  ultimately show "bit v n = bit w n" by simp
qed

text \<open>
  A digest is rendered as sixteen bytes and as thirty-two lowercase hexadecimal digits, and
  neither rendering loses anything: two digests with the same bytes, or with the same digits, are
  the same digest.
\<close>

theorem digest_renderings_faithful:
  "length (digest_bytes d) = 16 \<and> length (digest_hex d) = 32
   \<and> (digest_bytes d = digest_bytes e \<longleftrightarrow> d = e) \<and> (digest_hex d = digest_hex e \<longleftrightarrow> d = e)"
proof -
  have "d = e" if bytes: "digest_bytes d = digest_bytes e"
  proof -
    let ?cells = "\<lambda>w :: u64. map (\<lambda>i. ucast (drop_bit (8 * i) w) :: u8) [0..<8]"
    have "?cells (dg_low d) = ?cells (dg_low e) \<and> ?cells (dg_high d) = ?cells (dg_high e)"
      using bytes unfolding digest_bytes_eq by (simp only: append_eq_append_conv length_map simp_thms)
    then have "\<forall>i < 8. (ucast (drop_bit (8 * i) (dg_low d)) :: u8) = ucast (drop_bit (8 * i) (dg_low e))"
      "\<forall>i < 8. (ucast (drop_bit (8 * i) (dg_high d)) :: u8) = ucast (drop_bit (8 * i) (dg_high e))"
      by (simp_all only: map_eq_conv set_upt) auto
    then have "dg_low d = dg_low e" "dg_high d = dg_high e" by (auto intro!: byte_half_eq)
    then show ?thesis by simp
  qed
  moreover have "d = e" if hex: "digest_hex d = digest_hex e"
  proof -
    have "dg_high d = dg_high e"
    proof (rule hex_half_eq)
      fix i :: nat assume "i < 16"
      then show "drop_bit (4 * (15 - i)) (dg_high d) AND 0xF = drop_bit (4 * (15 - i)) (dg_high e) AND 0xF"
        using hex_nibble [OF hex, of i] by simp
    qed
    moreover have "dg_low d = dg_low e"
    proof (rule hex_half_eq)
      fix i :: nat assume "i < 16"
      then show "drop_bit (4 * (15 - i)) (dg_low d) AND 0xF = drop_bit (4 * (15 - i)) (dg_low e) AND 0xF"
        using hex_nibble [OF hex, of "i + 16"] by simp
    qed
    ultimately show ?thesis by simp
  qed
  ultimately show ?thesis by (auto simp: digest_bytes_eq digest_hex_def)
qed

subsection \<open>The recursion budget\<close>

definition MAX_NESTING :: u32 where
  "MAX_NESTING = 256"

record nesting_guard =
  ng_limit :: u32
  ng_depth :: u32

definition new_guard :: "u32 \<Rightarrow> nesting_guard" where
  "new_guard limit = \<lparr>ng_limit = limit, ng_depth = 0\<rparr>"

definition exhausted :: "nesting_guard \<Rightarrow> bool" where
  "exhausted g \<longleftrightarrow> ng_depth g \<ge> ng_limit g"

definition enter :: "nesting_guard \<Rightarrow> nesting_guard" where
  "enter g = g\<lparr>ng_depth := ng_depth g + 1\<rparr>"

definition leave :: "nesting_guard \<Rightarrow> nesting_guard" where
  "leave g = g\<lparr>ng_depth := ng_depth g - 1\<rparr>"

text \<open>A \<^verbatim>\<open>NestingScope\<close> around a body: the destructor runs on every way out.\<close>

definition nesting_scope :: "(nesting_guard \<Rightarrow> nesting_guard) \<Rightarrow> nesting_guard \<Rightarrow> nesting_guard" where
  "nesting_scope body g = leave (body (enter g))"

text \<open>A budget is never overrun, and a scope gives back what it took.\<close>

lemma enter_within: "\<not> exhausted g \<Longrightarrow> ng_depth (enter g) \<le> ng_limit g \<and> ng_depth (enter g) \<noteq> 0"
proof -
  assume "\<not> exhausted g"
  then have less: "ng_depth g < ng_limit g" by (simp add: exhausted_def not_le)
  have "unat (ng_depth g + 1) = unat (ng_depth g) + 1"
    using less unsigned_less [of "ng_limit g", where 'a = nat]
    by (simp add: unat_word_ariths word_less_nat_alt)
  then have "ng_depth g + 1 \<le> ng_limit g" "ng_depth g + 1 \<noteq> 0"
    using less by (auto simp: word_le_nat_alt word_less_nat_alt)
  then show ?thesis by (simp add: enter_def)
qed

lemma nesting_scope_balanced: "body (enter g) = enter g \<Longrightarrow> nesting_scope body g = g"
  by (simp add: nesting_scope_def enter_def leave_def)

end
