(* ===== verification/Text_Unescape.thy ===== *)
theory Text_Unescape
  imports Lexer
begin

text \<open>
  \<^verbatim>\<open>src/src/text/unescape.cc\<close>: the bytes a string literal denotes.  The loop over positions is a recursion over
  the bytes that are left.  The UTF-8 it writes is shown to be what a decoder of the Unicode
  standard reads, and every byte string to have a spelling.
\<close>

definition hex_value :: "char \<Rightarrow> nat option" where
  "hex_value c =
     (let n = of_char c :: nat in
      if 48 \<le> n \<and> n \<le> 57 then Some (n - 48)
      else if 97 \<le> n \<and> n \<le> 102 then Some (n - 97 + 10)
      else if 65 \<le> n \<and> n \<le> 70 then Some (n - 65 + 10)
      else None)"

definition byte_char :: "u64 \<Rightarrow> char" where
  "byte_char v = char_of (unat v)"

definition append_utf8 :: "bytes \<Rightarrow> u64 \<Rightarrow> bytes" where
  "append_utf8 out code =
     (if code > 0x10FFFF \<or> (code \<ge> 0xD800 \<and> code \<le> 0xDFFF) then out
      else if code < 0x80 then out @ [byte_char code]
      else if code < 0x800 then
        out @ [byte_char (0xC0 OR drop_bit 6 code), byte_char (0x80 OR (code AND 0x3F))]
      else if code < 0x10000 then
        out @ [byte_char (0xE0 OR drop_bit 12 code), byte_char (0x80 OR (drop_bit 6 code AND 0x3F)),
               byte_char (0x80 OR (code AND 0x3F))]
      else
        out @ [byte_char (0xF0 OR drop_bit 18 code), byte_char (0x80 OR (drop_bit 12 code AND 0x3F)),
               byte_char (0x80 OR (drop_bit 6 code AND 0x3F)), byte_char (0x80 OR (code AND 0x3F))])"

text \<open>The digits of an escape: the value on 64 bits, whether there was a digit, and what is left.\<close>

fun code_digits :: "bytes \<Rightarrow> u64 \<Rightarrow> bool \<Rightarrow> u64 \<times> bool \<times> bytes" where
  "code_digits [] code any = (code, any, [])"
| "code_digits (c # cs) code any =
     (if c = CHR ''}'' then (code, any, c # cs)
      else case hex_value c of
        None \<Rightarrow> (code, any, c # cs)
      | Some digit \<Rightarrow> code_digits cs (code * 16 + of_nat digit) True)"

lemma code_digits_shorter: "code_digits cs code any = (code', any', rest) \<Longrightarrow> length rest \<le> length cs"
  by (induction cs code any rule: code_digits.induct) (auto split: if_splits option.splits)

definition simple_escape :: "char \<Rightarrow> char" where
  "simple_escape esc =
     (if esc = CHR ''n'' then CHR 0x0A else if esc = CHR ''t'' then CHR 0x09 else if esc = CHR ''r'' then CHR 0x0D
      else if esc = CHR 0x5C then CHR 0x5C else if esc = CHR 0x22 then CHR 0x22 else if esc = CHR ''0'' then CHR 0x00
      else esc)"

function unescape_loop :: "bytes \<Rightarrow> bytes \<Rightarrow> bytes" where
  "unescape_loop [] out = out"
| "unescape_loop [c] out = out @ [c]"
| "unescape_loop (c # esc # cs) out =
     (if c \<noteq> CHR 0x5C then unescape_loop (esc # cs) (out @ [c])
      else if esc \<noteq> CHR ''u'' then unescape_loop cs (out @ [simple_escape esc])
      else case cs of
        [] \<Rightarrow> unescape_loop cs (out @ [CHR ''u''])
      | b # ds \<Rightarrow>
          if b \<noteq> CHR ''{'' then unescape_loop cs (out @ [CHR ''u''])
          else case code_digits ds 0 False of (code, any, rest) \<Rightarrow>
            unescape_loop (drop 1 rest) (if any then append_utf8 out code else out @ [CHR 0x5C, CHR ''u'', CHR ''{'', CHR ''}'']))"
  by pat_completeness auto
termination
  by (relation "measure (\<lambda>(cs, out). length cs)") (auto dest!: code_digits_shorter [OF sym])

definition unescape_string :: "bytes \<Rightarrow> bytes" where
  "unescape_string spelling =
     unescape_loop (if length spelling \<ge> 2 then butlast (tl spelling) else spelling) []"


subsection \<open>UTF-8\<close>

text \<open>A decoder of one scalar value: shortest forms only, no surrogates.\<close>

definition scalar :: "nat \<Rightarrow> bool" where
  "scalar n \<longleftrightarrow> n \<le> 0x10FFFF \<and> \<not> (0xD800 \<le> n \<and> n \<le> 0xDFFF)"

definition trail :: "nat \<Rightarrow> bool" where
  "trail b \<longleftrightarrow> 0x80 \<le> b \<and> b < 0xC0"

fun read_utf8 :: "nat list \<Rightarrow> (nat \<times> nat list) option" where
  "read_utf8 [] = None"
| "read_utf8 (a # bs) =
     (if a < 0x80 then Some (a, bs)
      else if 0xC0 \<le> a \<and> a < 0xE0 then
        (case bs of b # rest \<Rightarrow>
           let n = (a - 0xC0) * 64 + (b - 0x80) in if trail b \<and> 0x80 \<le> n then Some (n, rest) else None
         | _ \<Rightarrow> None)
      else if 0xE0 \<le> a \<and> a < 0xF0 then
        (case bs of b # c # rest \<Rightarrow>
           let n = (a - 0xE0) * 4096 + (b - 0x80) * 64 + (c - 0x80) in
           if trail b \<and> trail c \<and> 0x800 \<le> n \<and> scalar n then Some (n, rest) else None
         | _ \<Rightarrow> None)
      else if 0xF0 \<le> a \<and> a < 0xF8 then
        (case bs of b # c # d # rest \<Rightarrow>
           let n = (a - 0xF0) * 262144 + (b - 0x80) * 4096 + (c - 0x80) * 64 + (d - 0x80) in
           if trail b \<and> trail c \<and> trail d \<and> 0x10000 \<le> n \<and> scalar n then Some (n, rest) else None
         | _ \<Rightarrow> None)
      else None)"

definition nums :: "bytes \<Rightarrow> nat list" where
  "nums bs = map of_char bs"

text \<open>The prefix of a byte does not meet the bits behind it.\<close>

lemma unat_or_prefix:
  assumes x: "unat x < 2 ^ k" and "unat (p :: u64) mod 2 ^ k = 0"
  shows "unat (p OR x) = unat p + unat x"
proof -
  have low: "bit (unat x) i \<Longrightarrow> i < k" for i using x by (metis bit_take_bit_iff take_bit_nat_eq_self)
  have "take_bit k (unat p) = 0" using assms(2) by (simp add: take_bit_eq_mod)
  then have high: "i < k \<Longrightarrow> \<not> bit (unat p) i" for i by (metis bit_0_eq bit_take_bit_iff bot_apply bot_bool_def)
  have "unat p + unat x = unat p OR unat x" by (rule disjunctive_add) (use low high in blast)
  then show ?thesis by (simp add: unsigned_or_eq)
qed


lemma unat_and_3F: "unat (x AND 0x3F :: u64) = unat x mod 64"
proof -
  have "(0x3F :: u64) = mask 6" by (simp add: mask_eq_exp_minus_1)
  then have "x AND 0x3F = take_bit 6 x" by (simp add: take_bit_eq_mask)
  then have "unat (x AND 0x3F) = take_bit 6 (unat x)" by (simp only: unsigned_take_bit_eq)
  then show ?thesis by (simp add: take_bit_eq_mod)
qed

lemma unat_shift: "unat (drop_bit k x :: u64) = unat x div 2 ^ k"
  unfolding unat_drop_bit_eq by (simp add: drop_bit_eq_div)

lemma of_byte_char: "(of_char (byte_char v) :: nat) = unat v mod 256"
  by (simp add: byte_char_def)

lemma trail_byte: "(of_char (byte_char (0x80 OR (x AND 0x3F))) :: nat) = 0x80 + unat x mod 64"
  using unat_or_prefix [of "x AND 0x3F" 6 "0x80"] by (simp add: of_byte_char unat_and_3F)

lemma lead_byte:
  assumes "unat x < 2 ^ k" "unat (p :: u64) mod 2 ^ k = 0" "unat p + unat x < 256"
  shows "(of_char (byte_char (p OR x)) :: nat) = unat p + unat x"
  using unat_or_prefix [OF assms(1,2)] assms(3) by (simp add: of_byte_char)

lemma digits3: "n div 4096 * 4096 + n div 64 mod 64 * 64 + n mod 64 = (n :: nat)"
proof -
  have "n div 4096 * 64 + n div 64 mod 64 = n div 64"
    using div_mult_mod_eq [of "n div 64" 64] by (simp flip: div_mult2_eq)
  then show ?thesis using div_mult_mod_eq [of n 64] by linarith
qed

lemma digits4: "n div 262144 * 262144 + n div 4096 mod 64 * 4096 + n div 64 mod 64 * 64 + n mod 64 = (n :: nat)"
proof -
  have "n div 262144 * 64 + n div 4096 mod 64 = n div 4096"
    using div_mult_mod_eq [of "n div 4096" 64] by (simp flip: div_mult2_eq)
  then show ?thesis using digits3 [of n] by linarith
qed

lemma utf8_scalar:
  assumes "scalar (unat code)"
  shows "\<exists>enc. append_utf8 out code = out @ enc \<and> (\<forall>rest. read_utf8 (nums enc @ rest) = Some (unat code, rest))"
proof -
  let ?n = "unat code"
  have n: "?n \<le> 0x10FFFF" "\<not> (0xD800 \<le> ?n \<and> ?n \<le> 0xDFFF)" using assms by (simp_all add: scalar_def)
  have cmp: "code < 0x80 \<longleftrightarrow> ?n < 0x80" "code < 0x800 \<longleftrightarrow> ?n < 0x800" "code < 0x10000 \<longleftrightarrow> ?n < 0x10000"
    by (simp_all add: word_less_nat_alt)
  have in_range: "\<not> (code > 0x10FFFF \<or> (code \<ge> 0xD800 \<and> code \<le> 0xDFFF))"
    using n by (auto simp: word_less_nat_alt word_le_nat_alt)
  consider "?n < 0x80" | "0x80 \<le> ?n" "?n < 0x800" | "0x800 \<le> ?n" "?n < 0x10000" | "0x10000 \<le> ?n" by linarith
  then show ?thesis
  proof cases
    case 1
    then show ?thesis using in_range
      by (intro exI [of _ "[byte_char code]"]) (simp add: append_utf8_def cmp nums_def of_byte_char)
  next
    case 2
    let ?e = "[byte_char (0xC0 OR drop_bit 6 code), byte_char (0x80 OR (code AND 0x3F))]"
    have lead: "(of_char (byte_char (0xC0 OR drop_bit 6 code)) :: nat) = 0xC0 + ?n div 64"
      using lead_byte [of "drop_bit 6 code" 5 "0xC0"] 2 by (simp add: unat_shift)
    have "nums ?e = [0xC0 + ?n div 64, 0x80 + ?n mod 64]" by (simp add: nums_def lead trail_byte)
    moreover have "append_utf8 out code = out @ ?e" using 2 in_range by (simp add: append_utf8_def cmp)
    moreover have "?n div 64 < 32" using 2 by simp
    ultimately show ?thesis using 2 by (intro exI [of _ ?e]) (simp add: trail_def Let_def)
  next
    case 3
    let ?e = "[byte_char (0xE0 OR drop_bit 12 code), byte_char (0x80 OR (drop_bit 6 code AND 0x3F)),
      byte_char (0x80 OR (code AND 0x3F))]"
    have lead: "(of_char (byte_char (0xE0 OR drop_bit 12 code)) :: nat) = 0xE0 + ?n div 4096"
      using lead_byte [of "drop_bit 12 code" 4 "0xE0"] 3 by (simp add: unat_shift)
    have "nums ?e = [0xE0 + ?n div 4096, 0x80 + ?n div 64 mod 64, 0x80 + ?n mod 64]"
      by (simp add: nums_def lead trail_byte unat_shift)
    moreover have "append_utf8 out code = out @ ?e" using 3 in_range by (simp add: append_utf8_def cmp)
    moreover have "?n div 4096 < 16" using 3 by simp
    moreover have "?n div 4096 * 4096 + ?n div 64 mod 64 * 64 + ?n mod 64 = ?n" by (rule digits3)
    ultimately show ?thesis using 3 assms by (intro exI [of _ ?e]) (simp add: trail_def Let_def)
  next
    case 4
    let ?e = "[byte_char (0xF0 OR drop_bit 18 code), byte_char (0x80 OR (drop_bit 12 code AND 0x3F)),
      byte_char (0x80 OR (drop_bit 6 code AND 0x3F)), byte_char (0x80 OR (code AND 0x3F))]"
    have lead: "(of_char (byte_char (0xF0 OR drop_bit 18 code)) :: nat) = 0xF0 + ?n div 262144"
      using lead_byte [of "drop_bit 18 code" 3 "0xF0"] 4 n by (simp add: unat_shift)
    have "nums ?e = [0xF0 + ?n div 262144, 0x80 + ?n div 4096 mod 64, 0x80 + ?n div 64 mod 64, 0x80 + ?n mod 64]"
      by (simp add: nums_def lead trail_byte unat_shift)
    moreover have "append_utf8 out code = out @ ?e" using 4 in_range by (simp add: append_utf8_def cmp)
    moreover have "?n div 262144 < 8" using 4 n by simp
    moreover have "?n div 262144 * 262144 + ?n div 4096 mod 64 * 4096 + ?n div 64 mod 64 * 64 + ?n mod 64 = ?n"
      by (rule digits4)
    ultimately show ?thesis using 4 assms by (intro exI [of _ ?e]) (simp add: trail_def Let_def)
  qed
qed

lemma utf8_not_scalar: "\<not> scalar (unat code) \<Longrightarrow> append_utf8 out code = out"
  by (auto simp: append_utf8_def scalar_def word_less_nat_alt word_le_nat_alt)


subsection \<open>Every byte string has a spelling\<close>

text \<open>
  The spelling an author writes for a string: quotes around it, and an escape for the backslash, the
  quote and the bytes a literal may not hold as they are.
\<close>

definition escape_char :: "char \<Rightarrow> bytes" where
  "escape_char c =
     (if c = CHR 0x5C \<or> c = CHR 0x22 then [CHR 0x5C, c]
      else if c = CHR 0x0A then [CHR 0x5C, CHR ''n'']
      else if c = CHR 0x09 then [CHR 0x5C, CHR ''t'']
      else if c = CHR 0x0D then [CHR 0x5C, CHR ''r'']
      else if c = CHR 0x00 then [CHR 0x5C, CHR ''0'']
      else [c])"

definition escape :: "bytes \<Rightarrow> bytes" where
  "escape s = concat (map escape_char s)"

lemma escape_simps [simp]: "escape [] = []" "escape (c # s) = escape_char c @ escape s"
  by (simp_all add: escape_def)

text \<open>A byte is spelled as itself or as a short escape the lexer knows.\<close>

lemma escape_char_cases:
  obtains (plain) "escape_char c = [c]" "c \<noteq> CHR 0x5C" "c \<noteq> CHR 0x22" "c \<noteq> CHR 0x0A"
  | (esc) e where "escape_char c = [CHR 0x5C, e]" "is_valid_escape e" "e \<noteq> CHR ''u''" "e \<noteq> CHR 0x0A"
      "simple_escape e = c"
proof (cases "c \<in> {CHR 0x5C, CHR 0x22, CHR 0x0A, CHR 0x09, CHR 0x0D, CHR 0x00}")
  case True
  then show ?thesis
    by (elim insertE) (rule esc, auto simp: escape_char_def is_valid_escape_def simple_escape_def)+
next
  case False
  then show ?thesis by (intro plain) (auto simp: escape_char_def)
qed

definition quote :: "bytes \<Rightarrow> bytes" where
  "quote body = CHR 0x22 # body @ [CHR 0x22]"

lemma unescape_quote: "unescape_string (quote body) = unescape_loop body []"
  by (simp add: unescape_string_def quote_def)

lemma unescape_plain: "c \<noteq> CHR 0x5C \<Longrightarrow> unescape_loop (c # cs) out = unescape_loop cs (out @ [c])"
  by (cases cs) simp_all

lemma unescape_simple:
  "esc \<noteq> CHR ''u'' \<Longrightarrow> unescape_loop (CHR 0x5C # esc # cs) out = unescape_loop cs (out @ [simple_escape esc])"
  by simp

declare unescape_loop.simps(2, 3) [simp del]

lemma unescape_escape_append: "unescape_loop (escape pre @ cs) out = unescape_loop cs (out @ pre)"
proof (induction pre arbitrary: out)
  case (Cons c pre)
  then show ?case by (cases c rule: escape_char_cases) (simp_all add: unescape_plain unescape_simple)
qed simp

lemma unescape_escape: "unescape_loop (escape s) out = out @ s"
  using unescape_escape_append [of s "[]"] by simp


subsection \<open>The digits of an escape\<close>

definition digits_value :: "nat list \<Rightarrow> nat \<Rightarrow> nat" where
  "digits_value ds v = foldl (\<lambda>v d. v * 16 + d) v ds"

lemma foldl_word:
  "(of_nat (foldl (\<lambda>v d. v * 16 + d) v ds) :: u64) = foldl (\<lambda>w d. w * 16 + of_nat d) (of_nat v) ds"
  by (induction ds arbitrary: v) (simp_all add: algebra_simps)

lemma code_digits_run:
  assumes "map hex_value cs = map Some ds"
  shows "code_digits (cs @ CHR ''}'' # rest) code any =
    (of_nat (digits_value ds (unat code)), any \<or> cs \<noteq> [], CHR ''}'' # rest)"
  using assms
proof (induction cs arbitrary: ds code any)
  case Nil
  then show ?case by (simp add: digits_value_def)
next
  case (Cons c cs)
  then obtain d ds' where ds: "ds = d # ds'" "hex_value c = Some d" "map hex_value cs = map Some ds'"
    by (cases ds) auto
  have "c \<noteq> CHR ''}''" using ds by (auto simp: hex_value_def)
  moreover have "(of_nat (digits_value ds' (unat (code * 16 + of_nat d))) :: u64) = of_nat (digits_value ds (unat code))"
    unfolding ds(1) digits_value_def by (simp add: foldl_word)
  ultimately show ?case using Cons.IH [OF ds(3)] ds by simp
qed

lemma unescape_unicode:
  assumes "map hex_value cs = map Some ds" "cs \<noteq> []"
  shows "unescape_loop (CHR 0x5C # CHR ''u'' # CHR ''{'' # cs @ CHR ''}'' # rest) out =
    unescape_loop rest (append_utf8 out (of_nat (digits_value ds 0)))"
  using code_digits_run [OF assms(1), of rest 0 False] assms(2) by (simp add: unescape_loop.simps(3))


subsection \<open>Properties\<close>

text \<open>
  A Unicode escape denotes the code point its digits spell: inside any literal, an escape with a
  value of 64 bits puts one encoding there, which a strict UTF-8 decoder reads back as that value,
  and a value that is no scalar value puts nothing there.
\<close>

theorem unicode_escape_denotes:
  assumes digits: "map hex_value cs = map Some ds" "cs \<noteq> []" and "digits_value ds 0 < 2 ^ 64"
  shows "\<exists>enc. unescape_string (quote (escape pre @ [CHR 0x5C, CHR ''u'', CHR ''{''] @ cs @ [CHR ''}''] @ escape post)) =
      pre @ enc @ post \<and>
    (if scalar (digits_value ds 0) then read_utf8 (nums (enc @ post)) = Some (digits_value ds 0, nums post) else enc = [])"
proof -
  let ?v = "digits_value ds 0"
  have v: "unat (of_nat ?v :: u64) = ?v" using assms(3) by (simp add: unat_of_nat)
  have "unescape_string (quote (escape pre @ [CHR 0x5C, CHR ''u'', CHR ''{''] @ cs @ [CHR ''}''] @ escape post)) =
    append_utf8 pre (of_nat ?v) @ post"
    by (simp add: unescape_quote unescape_escape_append unescape_unicode [OF digits] unescape_escape)
  then show ?thesis
    using utf8_scalar [of "of_nat ?v" pre] utf8_not_scalar [of "of_nat ?v" pre] v by (auto simp: nums_def)
qed

theorem unicode_escape_denotes_witness:
  "map hex_value ''20aC'' = map Some [2, 0, 10, 12] \<and> digits_value [2, 0, 10, 12] 0 = 0x20AC \<and>
   (\<exists>enc. unescape_string (quote (escape ''5 '' @ [CHR 0x5C, CHR ''u'', CHR ''{''] @ ''20aC'' @ [CHR ''}''] @ escape [CHR 0x22])) =
      ''5 '' @ enc @ [CHR 0x22] \<and> read_utf8 (nums (enc @ [CHR 0x22])) = Some (0x20AC, [0x22]))"
proof -
  have d: "map hex_value ''20aC'' = map Some [2, 0, 10, 12]" by code_simp
  have v: "digits_value [2, 0, 10, 12] 0 = 0x20AC" by code_simp
  have "nums [CHR 0x22] = [0x22]" by code_simp
  then show ?thesis using unicode_escape_denotes [OF d, of "''5 ''" "[CHR 0x22]"] d v by (simp add: scalar_def)
qed

definition spelled :: "bytes \<Rightarrow> span \<Rightarrow> bytes" where
  "spelled bs sp = take (span_length sp) (drop (span_offset sp) bs)"

lemma peek_here:
  assumes "lx_bytes lx = before @ rest" "lx_pos lx = length before"
  shows "peek lx i = (if i < length rest then rest ! i else CHR 0x00)"
  using assms by (auto simp: peek_def nth_append)

lemma string_step_escape:
  assumes "lx_bytes lx = before @ escape_char c @ d # rest" "lx_pos lx = length before"
  shows "string_step lx = Goes False (advance (length (escape_char c)) lx) \<and> \<not> at_end lx"
proof (cases c rule: escape_char_cases)
  case plain
  then have "peek lx 0 = c" using peek_here [OF assms, of 0] by simp
  then show ?thesis using plain assms by (simp add: string_step_def is_newline_def at_end_def Let_def)
next
  case (esc e)
  then have "peek lx 0 = CHR 0x5C" "peek lx 1 = e" using peek_here [OF assms] by simp_all
  then show ?thesis using esc assms by (simp add: string_step_def is_newline_def at_end_def Let_def numeral_2_eq_2)
qed

lemma string_loop_escape:
  assumes "lx_bytes lx = before @ escape s @ CHR 0x22 # after" "lx_pos lx = length before"
  shows "string_loop bad lx = (True, bad, advance (length (escape s) + 1) lx)"
  using assms
proof (induction s arbitrary: before lx)
  case Nil
  then have "string_step lx = Closed (advance 1 lx)" "\<not> at_end lx"
    by (auto simp: string_step_def peek_here [OF Nil] at_end_def)
  then show ?case by (simp add: string_loop.simps)
next
  case (Cons c s)
  let ?l = "advance (length (escape_char c)) lx"
  obtain d rest where "escape s @ CHR 0x22 # after = d # rest" by (cases "escape s") auto
  then have "string_step lx = Goes False ?l \<and> \<not> at_end lx"
    using Cons.prems by (intro string_step_escape [of _ before _ d rest]) simp_all
  moreover have "string_loop bad ?l = (True, bad, advance (length (escape s) + 1) ?l)"
    using Cons.prems by (intro Cons.IH [of _ "before @ escape_char c"]) (auto simp: advance_def)
  ultimately show ?case by (simp add: string_loop.simps [of bad lx] advance_def)
qed

text \<open>
  C22. A literal loses nothing between the lexer and the unescaper: wherever the escaped spelling of a
  byte string stands in a source, the lexer takes exactly it as one string token without a
  diagnostic, and unescaping the bytes under that token gives the byte string back.
\<close>

theorem string_literal_roundtrip:
  assumes src: "lx_bytes lx = before @ quote (escape s) @ after" "lx_pos lx = length before"
    and "length (lx_bytes lx) < 2 ^ 32"
  shows "\<exists>sp. lx_out (lex_one lx) = lx_out lx @ [\<lparr>tok_kind = TkString, tok_span = sp\<rparr>] \<and>
    lx_diags (lex_one lx) = lx_diags lx \<and> lx_pos (lex_one lx) = length (before @ quote (escape s)) \<and>
    spelled (lx_bytes lx) sp = quote (escape s) \<and> unescape_string (spelled (lx_bytes lx) sp) = s"
proof -
  let ?len = "length (quote (escape s))"
  have loop: "string_loop False (advance 1 lx) = (True, False, advance (length (escape s) + 1) (advance 1 lx))"
    using src by (intro string_loop_escape [of _ "before @ [CHR 0x22]"]) (auto simp: quote_def advance_def)
  have "lex_one lx = lex_string lx"
    using peek_here [OF src, of 0] by (simp add: lex_one_def quote_def is_alpha_def between_def is_digit_def)
  then have one: "lex_one lx = accept TkString (length before) ?len (advance ?len lx)"
    unfolding lex_string_def Let_def loop by (simp add: src(2) advance_def quote_def)
  have "spelled (lx_bytes lx) (span_at (advance ?len lx) (length before) ?len) = quote (escape s)"
    using src assms(3) by (simp add: spelled_def span_at_def)
  then show ?thesis
    unfolding one by (simp add: accept_def push_token_def span_at_def advance_def src(2) unescape_quote unescape_escape)
qed

theorem string_literal_roundtrip_witness:
  "\<exists>sp. lx_out (lex_one ((new_lexer False (''x='' @ quote (escape [CHR 0x0A, CHR ''a'']) @ '';'') 0)\<lparr>lx_pos := 2\<rparr>)) =
     [\<lparr>tok_kind = TkString, tok_span = sp\<rparr>] \<and>
   unescape_string (spelled (''x='' @ quote (escape [CHR 0x0A, CHR ''a'']) @ '';'') sp) = [CHR 0x0A, CHR ''a'']"
  using string_literal_roundtrip
    [of "(new_lexer False (''x='' @ quote (escape [CHR 0x0A, CHR ''a'']) @ '';'') 0)\<lparr>lx_pos := 2\<rparr>" "''x=''" "[CHR 0x0A, CHR ''a'']" "'';''"]
  by (auto simp: new_lexer_def quote_def escape_char_def)

text \<open>
  A digit run of more than sixteen digits wraps: the escape whose value is 2^64 + 65 denotes the
  letter A, although the guard in append_utf8 is there to drop it.  The lexer reports such a run, so
  only a caller that skips the lexer sees it.
\<close>

lemma overlong_escape_wraps:
  "digits_value [1, 0, 0, 0, 0, 0, 0, 0, 0, 0, 0, 0, 0, 0, 0, 4, 1] 0 > 0x10FFFF \<and>
   unescape_string (quote ([CHR 0x5C, CHR ''u'', CHR ''{''] @ ''10000000000000041'' @ [CHR ''}''])) = ''A''"
proof -
  have d: "map hex_value ''10000000000000041'' = map Some [1, 0, 0, 0, 0, 0, 0, 0, 0, 0, 0, 0, 0, 0, 0, 4, 1]" by code_simp
  have v: "digits_value [1, 0, 0, 0, 0, 0, 0, 0, 0, 0, 0, 0, 0, 0, 0, 4, 1] 0 = 2 ^ 64 + 65" by (simp add: digits_value_def)
  have "char_of (65 :: nat) = CHR ''A''" by code_simp
  then have "append_utf8 [] (of_nat (2 ^ 64 + 65)) = ''A''" by (simp add: append_utf8_def byte_char_def)
  then show ?thesis using unescape_unicode [OF d, of "[]" "[]"] v by (simp add: unescape_quote)
qed

end
