(* ===== verification/Wasm_Writer.thy ===== *)
theory Wasm_Writer
  imports Alcy_Prelude
begin

text \<open>
  \<^verbatim>\<open>src/src/codegen/wasm/writer.h\<close> and \<^verbatim>\<open>writer.cc\<close>: the byte writer of the WebAssembly backend.  A writer is the
  list of bytes it holds.  The encodings are shown to be read back by the decoders of the WebAssembly
  binary format, which are stated here on mathematical integers.
\<close>

datatype val_type = I32 | I64 | F32 | F64

definition val_type_byte :: "val_type \<Rightarrow> u8" where
  "val_type_byte t = (case t of I32 \<Rightarrow> 0x7F | I64 \<Rightarrow> 0x7E | F32 \<Rightarrow> 0x7D | F64 \<Rightarrow> 0x7C)"

type_synonym binary_writer = "u8 list"

definition put_byte :: "u8 \<Rightarrow> binary_writer \<Rightarrow> binary_writer" where
  "put_byte v out = out @ [v]"

definition put_bytes :: "u8 list \<Rightarrow> binary_writer \<Rightarrow> binary_writer" where
  "put_bytes data out = out @ data"

lemma unat_shift7: "unat (drop_bit 7 v) = unat v div 128" for v :: "'a :: len word"
  unfolding unat_drop_bit_eq by (simp add: drop_bit_eq_div)

text \<open>The loop of both unsigned encoders, at any width.\<close>

function leb_loop :: "'a :: len word \<Rightarrow> binary_writer \<Rightarrow> binary_writer" where
  "leb_loop v out =
     (if 0x80 \<le> unat v then leb_loop (drop_bit 7 v) (put_byte (ucast v OR 0x80) out)
      else put_byte (ucast v) out)"
  by pat_completeness auto
termination
  by (relation "measure (\<lambda>(v, out). unat v)") (auto simp: unat_shift7)

declare leb_loop.simps [simp del]

definition u32_leb :: "u32 \<Rightarrow> binary_writer \<Rightarrow> binary_writer" where
  "u32_leb v = leb_loop v"

definition u64_leb :: "u64 \<Rightarrow> binary_writer \<Rightarrow> binary_writer" where
  "u64_leb v = leb_loop v"

text \<open>The loop of both signed encoders; the arithmetic shift by seven is a division that rounds down.\<close>

definition low_chunk :: "int \<Rightarrow> u8" where
  "low_chunk v = of_int v AND 0x7F"

lemma shift_smaller: "v \<noteq> 0 \<Longrightarrow> v \<noteq> -1 \<Longrightarrow> nat \<bar>v div 128\<bar> < nat \<bar>v\<bar>" for v :: int
  by linarith

lemma low_chunk_0: "\<not> bit (low_chunk 0) 6"
  by (simp add: low_chunk_def)

lemma low_chunk_m1: "bit (low_chunk (-1)) 6"
  by (simp add: low_chunk_def bit_simps)

function sleb_loop :: "int \<Rightarrow> binary_writer \<Rightarrow> binary_writer" where
  "sleb_loop v out =
     (let chunk = low_chunk v; rest = v div 128; sign = bit chunk 6;
          more = (\<not> ((rest = 0 \<and> \<not> sign) \<or> (rest = -1 \<and> sign))) in
      if more then sleb_loop rest (put_byte (chunk OR 0x80) out) else put_byte chunk out)"
  by pat_completeness auto
termination
proof (relation "measure (\<lambda>(v, out). nat \<bar>v\<bar>)", simp, goal_cases)
  case (1 v out chunk rest sign more)
  then have "v \<noteq> 0" "v \<noteq> -1" using low_chunk_0 low_chunk_m1 by auto
  then show ?case using 1 shift_smaller by simp
qed

declare sleb_loop.simps [simp del]

definition i32_leb :: "32 word \<Rightarrow> binary_writer \<Rightarrow> binary_writer" where
  "i32_leb v = sleb_loop (sint v)"

definition i64_leb :: "64 word \<Rightarrow> binary_writer \<Rightarrow> binary_writer" where
  "i64_leb v = sleb_loop (sint v)"

text \<open>A float is written as the bits it has.\<close>

definition f32_bits :: "u32 \<Rightarrow> binary_writer \<Rightarrow> binary_writer" where
  "f32_bits bits out = fold (\<lambda>shift. put_byte (ucast (drop_bit shift bits))) [0, 8, 16, 24] out"

definition f64_bits :: "u64 \<Rightarrow> binary_writer \<Rightarrow> binary_writer" where
  "f64_bits bits out = fold (\<lambda>shift. put_byte (ucast (drop_bit shift bits))) [0, 8, 16, 24, 32, 40, 48, 56] out"

definition put_name :: "u8 list \<Rightarrow> binary_writer \<Rightarrow> binary_writer" where
  "put_name txt out = put_bytes txt (u32_leb (of_nat (length txt)) out)"

definition write_section :: "u8 \<Rightarrow> binary_writer \<Rightarrow> binary_writer \<Rightarrow> binary_writer" where
  "write_section sec payload out = put_bytes payload (u32_leb (of_nat (length payload)) (put_byte sec out))"

subsection \<open>The decoders of the format\<close>

fun read_unsigned :: "u8 list \<Rightarrow> (nat \<times> u8 list) option" where
  "read_unsigned [] = None"
| "read_unsigned (b # bs) =
     (if unat b < 128 then Some (unat b, bs)
      else case read_unsigned bs of None \<Rightarrow> None | Some (n, rest) \<Rightarrow> Some (128 * n + (unat b - 128), rest))"

fun read_signed :: "u8 list \<Rightarrow> (int \<times> u8 list) option" where
  "read_signed [] = None"
| "read_signed (b # bs) =
     (if unat b < 64 then Some (int (unat b), bs)
      else if unat b < 128 then Some (int (unat b) - 128, bs)
      else case read_signed bs of None \<Rightarrow> None | Some (n, rest) \<Rightarrow> Some (128 * n + (int (unat b) - 128), rest))"

definition read_name :: "u8 list \<Rightarrow> (u8 list \<times> u8 list) option" where
  "read_name bs =
     (case read_unsigned bs of
        None \<Rightarrow> None
      | Some (n, rest) \<Rightarrow> if n \<le> length rest then Some (take n rest, drop n rest) else None)"

definition decode_section :: "u8 list \<Rightarrow> (u8 \<times> u8 list \<times> u8 list) option" where
  "decode_section bs =
     (case bs of [] \<Rightarrow> None | sec # rest \<Rightarrow> map_option (\<lambda>(payload, rest'). (sec, payload, rest')) (read_name rest))"

subsection \<open>Bytes with the continuation bit\<close>

lemma or_128: "n < 256 \<Longrightarrow> n OR 128 = n mod 128 + (128 :: nat)"
proof -
  assume n: "n < 256"
  have "n OR 128 = take_bit 7 n OR 128"
  proof (rule bit_eqI)
    fix i show "bit (n OR 128) i = bit (take_bit 7 n OR 128) i"
    proof (cases "i = 7")
      case True
      have "bit (128 :: nat) 7" by (simp add: bit_iff_odd)
      then show ?thesis using True by (simp add: bit_or_iff)
    next
      case False
      have "take_bit 8 n = n" using n by (simp add: take_bit_eq_mod)
      then have "bit n i \<Longrightarrow> i < 8" by (metis bit_take_bit_iff)
      then show ?thesis using False by (auto simp: bit_or_iff bit_take_bit_iff)
    qed
  qed
  also have "\<dots> = take_bit 7 n + 128"
  proof (rule disjunctive_add [symmetric])
    fix i show "\<not> bit (take_bit 7 n) i \<or> \<not> bit (128 :: nat) i"
      using bit_exp_iff [of 7 i, where 'a = nat] by (auto simp: bit_take_bit_iff)
  qed
  finally show ?thesis by (simp add: take_bit_eq_mod)
qed

lemma unat_or_128: "unat (b OR 0x80 :: u8) = unat b mod 128 + 128"
  using or_128 [of "unat b"] unsigned_less [of b, where 'a = nat] by (simp add: unsigned_or_eq)

lemma unat_ucast_byte: "unat (ucast v :: u8) = unat v mod 256" for v :: "'a :: len word"
  by (simp add: unsigned_ucast_eq take_bit_eq_mod)


subsection \<open>Unsigned numbers\<close>

definition leb_bytes :: "nat \<Rightarrow> u8 list \<Rightarrow> bool" where
  "leb_bytes n enc \<longleftrightarrow> (\<forall>rest. read_unsigned (enc @ rest) = Some (n, rest))"

lemma leb_loop_reads: "\<exists>enc. leb_loop v out = out @ enc \<and> leb_bytes (unat v) enc"
proof (induction "unat v" arbitrary: v out rule: less_induct)
  case less
  show ?case
  proof (cases "0x80 \<le> unat v")
    case False
    then show ?thesis
      by (subst leb_loop.simps, intro exI [of _ "[ucast v]"])
        (simp add: put_byte_def leb_bytes_def unat_ucast_byte not_le)
  next
    case True
    let ?b = "ucast v OR 0x80 :: u8"
    have "unat (drop_bit 7 v) < unat v" using True by (simp add: unat_shift7)
    from less [OF this, of "put_byte ?b out"] obtain enc
      where enc: "leb_loop (drop_bit 7 v) (put_byte ?b out) = put_byte ?b out @ enc" "leb_bytes (unat v div 128) enc"
      by (auto simp: unat_shift7)
    have b: "unat ?b = unat v mod 128 + 128"
      unfolding unat_or_128 unat_ucast_byte by (simp add: mod_mod_cancel)
    have "leb_bytes (unat v) (?b # enc)" unfolding leb_bytes_def
    proof
      fix rest
      have "read_unsigned (enc @ rest) = Some (unat v div 128, rest)" using enc(2) by (simp add: leb_bytes_def)
      then show "read_unsigned ((?b # enc) @ rest) = Some (unat v, rest)"
        using mult_div_mod_eq [of 128 "unat v"] by (simp add: b)
    qed
    then show ?thesis using True enc(1)
      by (subst leb_loop.simps, intro exI [of _ "?b # enc"]) (simp add: put_byte_def)
  qed
qed

lemma leb_loop_length: "unat v < 128 ^ Suc k \<Longrightarrow> length (leb_loop v out) \<le> length out + Suc k"
proof (induction k arbitrary: v out)
  case 0
  then show ?case by (subst leb_loop.simps) (simp add: put_byte_def)
next
  case (Suc k)
  have "unat (drop_bit 7 v) < 128 ^ Suc k" using Suc.prems by (simp add: unat_shift7 div_less_iff_less_mult mult.commute)
  from Suc.IH [OF this, of "put_byte (ucast v OR 0x80) out"] show ?case
    by (subst leb_loop.simps) (simp add: put_byte_def)
qed

subsection \<open>Signed numbers\<close>

definition sleb_bytes :: "int \<Rightarrow> u8 list \<Rightarrow> bool" where
  "sleb_bytes n enc \<longleftrightarrow> (\<forall>rest. read_signed (enc @ rest) = Some (n, rest))"

lemma unat_low_chunk: "unat (low_chunk v) = nat (v mod 128)"
proof -
  have mask: "(0x7F :: u8) = mask 7" by (simp add: mask_eq_exp_minus_1)
  have "unat (low_chunk v) = nat (take_bit 7 (take_bit 8 v))"
    unfolding low_chunk_def mask by (simp add: take_bit_eq_mask [symmetric] unsigned_take_bit_eq unsigned_of_int take_bit_nat_eq)
  then show ?thesis by (simp add: take_bit_eq_mod mod_mod_cancel)
qed

lemma chunk_sign: "bit (low_chunk v) 6 \<longleftrightarrow> 64 \<le> v mod 128"
proof -
  have "bit (low_chunk v) 6 = bit (unat (low_chunk v)) 6" by (simp add: bit_unsigned_iff)
  also have "\<dots> = odd (unat (low_chunk v) div 64)" by (simp add: bit_iff_odd)
  finally have odd: "bit (low_chunk v) 6 = odd (unat (low_chunk v) div 64)" .
  define n where "n = nat (v mod 128)"
  have n: "v mod 128 = int n" "n < 128" by (simp_all add: n_def nat_less_iff)
  have "odd (n div 64) \<longleftrightarrow> 64 \<le> n" using n(2) by (cases "64 \<le> n") (simp_all add: le_div_geq)
  then show ?thesis unfolding odd unat_low_chunk n(1) by simp
qed


lemma sleb_loop_reads: "\<exists>enc. sleb_loop v out = out @ enc \<and> sleb_bytes v enc"
proof (induction "nat \<bar>v\<bar>" arbitrary: v out rule: less_induct)
  case less
  let ?c = "low_chunk v"
  define m where "m = v mod 128"
  have m: "0 \<le> m" "m < 128" "v = 128 * (v div 128) + m" by (simp_all add: m_def)
  have sign: "bit ?c 6 \<longleftrightarrow> 64 \<le> m" by (simp add: chunk_sign m_def)
  define u where "u = unat ?c"
  have c: "int u = m" using m(1) by (simp add: u_def unat_low_chunk m_def)
  show ?case
  proof (cases "(v div 128 = 0 \<and> \<not> bit ?c 6) \<or> (v div 128 = -1 \<and> bit ?c 6)")
    case True
    then have "sleb_bytes v [?c]" using m sign c by (auto simp: sleb_bytes_def u_def [symmetric])
    then show ?thesis using True by (subst sleb_loop.simps, intro exI [of _ "[?c]"]) (auto simp: Let_def put_byte_def)
  next
    case False
    then have "v \<noteq> 0" "v \<noteq> -1" using low_chunk_0 low_chunk_m1 by auto
    from less [OF shift_smaller [OF this], of "put_byte (?c OR 0x80) out"] obtain enc
      where enc: "sleb_loop (v div 128) (put_byte (?c OR 0x80) out) = put_byte (?c OR 0x80) out @ enc"
        "sleb_bytes (v div 128) enc" by blast
    have b: "unat (?c OR 0x80) = u + 128" using c m(2) by (simp add: unat_or_128 u_def [symmetric])
    have "sleb_bytes v ((?c OR 0x80) # enc)" unfolding sleb_bytes_def
    proof
      fix rest
      have "read_signed (enc @ rest) = Some (v div 128, rest)" using enc(2) by (simp add: sleb_bytes_def)
      then show "read_signed (((?c OR 0x80) # enc) @ rest) = Some (v, rest)" using m(3) c by (simp add: b)
    qed
    then show ?thesis using False enc(1)
      by (subst sleb_loop.simps, intro exI [of _ "(?c OR 0x80) # enc"]) (simp add: Let_def put_byte_def)
  qed
qed

lemma div_between: "-(128 * c) \<le> v \<Longrightarrow> v < 128 * c \<Longrightarrow> -c \<le> v div 128 \<and> v div 128 < c" for v c :: int
  by linarith

lemma sleb_loop_length:
  "-(64 * 128 ^ k) \<le> v \<Longrightarrow> v < 64 * 128 ^ k \<Longrightarrow> length (sleb_loop v out) \<le> length out + Suc k"
proof (induction k arbitrary: v out)
  case 0
  then have "-64 \<le> v" "v < 64" by simp_all
  then have "v div 128 = 0 \<and> v mod 128 = v \<or> v div 128 = -1 \<and> v mod 128 = v + 128"
    by presburger
  then show ?case using 0 by (subst sleb_loop.simps) (auto simp: Let_def put_byte_def chunk_sign)
next
  case (Suc k)
  have "-(64 * 128 ^ k) \<le> v div 128 \<and> v div 128 < 64 * 128 ^ k"
    using div_between [of "64 * 128 ^ k" v] Suc.prems by simp
  then have "length (sleb_loop (v div 128) (put_byte (low_chunk v OR 0x80) out)) \<le> length (put_byte (low_chunk v OR 0x80) out) + Suc k"
    using Suc.IH by blast
  then show ?case by (subst sleb_loop.simps) (simp add: Let_def put_byte_def)
qed

subsection \<open>Properties\<close>

text \<open>
  C28. Every number the writer encodes is read back by the decoders of the WebAssembly format, whatever
  follows it, and takes no more bytes than the format allows: five for 32 bits and ten for 64.
\<close>

theorem leb_roundtrip:
  "\<exists>a b c d. u32_leb v out = out @ a \<and> length a \<le> 5 \<and> read_unsigned (a @ rest) = Some (unat v, rest)
    \<and> u64_leb w out = out @ b \<and> length b \<le> 10 \<and> read_unsigned (b @ rest) = Some (unat w, rest)
    \<and> i32_leb x out = out @ c \<and> length c \<le> 5 \<and> read_signed (c @ rest) = Some (sint x, rest)
    \<and> i64_leb y out = out @ d \<and> length d \<le> 10 \<and> read_signed (d @ rest) = Some (sint y, rest)"
proof -
  obtain a where a: "leb_loop v out = out @ a" "leb_bytes (unat v) a" using leb_loop_reads by blast
  obtain b where b: "leb_loop w out = out @ b" "leb_bytes (unat w) b" using leb_loop_reads by blast
  obtain c where c: "sleb_loop (sint x) out = out @ c" "sleb_bytes (sint x) c" using sleb_loop_reads by blast
  obtain d where d: "sleb_loop (sint y) out = out @ d" "sleb_bytes (sint y) d" using sleb_loop_reads by blast
  have "unat v < 128 ^ Suc 4" using unsigned_less [of v, where 'a = nat] by simp
  from leb_loop_length [OF this, of out] have la: "length a \<le> 5" by (simp add: a(1))
  have "unat w < 128 ^ Suc 9" using unsigned_less [of w, where 'a = nat] by simp
  from leb_loop_length [OF this, of out] have lb: "length b \<le> 10" by (simp add: b(1))
  have "-(64 * 128 ^ 4) \<le> sint x" "sint x < 64 * 128 ^ 4" using sint_greater_eq [of x] sint_less [of x] by simp_all
  from sleb_loop_length [OF this, of out] have lc: "length c \<le> 5" by (simp add: c(1))
  have "-(64 * 128 ^ 9) \<le> sint y" "sint y < 64 * 128 ^ 9" using sint_greater_eq [of y] sint_less [of y] by simp_all
  from sleb_loop_length [OF this, of out] have ld: "length d \<le> 10" by (simp add: d(1))
  show ?thesis
    using a b c d la lb lc ld unfolding u32_leb_def u64_leb_def i32_leb_def i64_leb_def leb_bytes_def sleb_bytes_def by blast
qed

text \<open>
  A section is framed so that a reader finds its end: for every payload whose length fits the 32-bit
  count, reading the section gives back its number and its payload, and stops where the next one starts.
\<close>

theorem section_roundtrip:
  assumes "length payload < 2 ^ 32"
  shows "\<exists>enc. write_section sec payload out = out @ enc \<and> decode_section (enc @ rest) = Some (sec, payload, rest)"
proof -
  obtain a where a: "leb_loop (of_nat (length payload) :: u32) (out @ [sec]) = (out @ [sec]) @ a"
    "leb_bytes (unat (of_nat (length payload) :: u32)) a"
    using leb_loop_reads by blast
  have "unat (of_nat (length payload) :: u32) = length payload"
    using assms by (simp add: unsigned_of_nat take_bit_eq_mod)
  then have "read_unsigned (a @ payload @ rest) = Some (length payload, payload @ rest)"
    using a(2) by (simp add: leb_bytes_def)
  then have "decode_section ((sec # a @ payload) @ rest) = Some (sec, payload, rest)"
    by (simp add: decode_section_def read_name_def)
  then show ?thesis
    using a(1) by (intro exI [of _ "sec # a @ payload"]) (simp add: write_section_def put_bytes_def put_byte_def u32_leb_def)
qed

theorem section_roundtrip_witness:
  "\<exists>enc. write_section 1 [0x60, 0, 0] [0] = [0] @ enc \<and> decode_section (enc @ [7]) = Some (1, [0x60, 0, 0], [7])"
  by (rule section_roundtrip) simp

end
