(* ===== verification/Ir_Types.thy ===== *)
theory Ir_Types
  imports Alcy_Prelude "HOL-Library.Monad_Syntax"
begin

text \<open>
  The data of the intermediate representation (\<^verbatim>\<open>src/src/ir\<close>): opcodes, type tags, the tables of
  \<^verbatim>\<open>StorageState\<close> and what their rows hold.  An index into a table is a natural number; a field
  that the sources set to \<^verbatim>\<open>invalid()\<close> is an option.  A \<^verbatim>\<open>base::Union\<close> of index types carries no tag
  of its own, so the payload of a type node is one number.  String pool ids are numbers.
\<close>

subsection \<open>Opcodes\<close>

text \<open>A reader casts a byte out of a file, so an opcode, a symbol kind or a calling convention may
  hold a value no enumerator has; the last constructor stands for those.\<close>

datatype (plugins only: code) opcode =
  OpNoop | OpAlloca | OpLoad | OpStore | OpGetElementPtr | OpElemOffset | OpExtractValue
| OpInsertValue | OpMemcopy | OpIntAdd | OpIntSub | OpIntMul | OpIntDiv | OpUintDiv
| OpIntRem | OpUintRem | OpFAdd | OpFSub | OpFMul | OpFDiv | OpAnd | OpOr | OpXor
| OpShiftLeft | OpArithmeticShiftRight | OpLogicalShiftRight | OpNot | OpBitReverse | OpEq
| OpNe | OpLe | OpLt | OpGe | OpGt | OpTypeCast | OpTypeSizeOf | OpTypeAlignOf | OpSelect
| OpBr | OpCondBr | OpSwitch | OpCall | OpRet | OpUnreachable | OpAtomicLoad | OpAtomicStore
| OpAtomicRmw | OpAtomicCompareExchange | OpFence | OpMove | OpDrop | OpBorrow
| OpIntAddWrap | OpIntSubWrap | OpIntMulWrap | OpEnumTagLoad | OpEnumTagSet
| OpEnumFieldAddr | OpUndefined u8

primrec opcode_to_str :: "opcode \<Rightarrow> string" where
  "opcode_to_str OpNoop = ''Noop''"
| "opcode_to_str OpAlloca = ''Alloca''"
| "opcode_to_str OpLoad = ''Load''"
| "opcode_to_str OpStore = ''Store''"
| "opcode_to_str OpGetElementPtr = ''GetElementPtr''"
| "opcode_to_str OpElemOffset = ''ElemOffset''"
| "opcode_to_str OpExtractValue = ''ExtractValue''"
| "opcode_to_str OpInsertValue = ''InsertValue''"
| "opcode_to_str OpMemcopy = ''Memcopy''"
| "opcode_to_str OpIntAdd = ''IntAdd''"
| "opcode_to_str OpIntSub = ''IntSub''"
| "opcode_to_str OpIntMul = ''IntMul''"
| "opcode_to_str OpIntDiv = ''IntDiv''"
| "opcode_to_str OpUintDiv = ''UintDiv''"
| "opcode_to_str OpIntRem = ''IntRem''"
| "opcode_to_str OpUintRem = ''UintRem''"
| "opcode_to_str OpFAdd = ''FAdd''"
| "opcode_to_str OpFSub = ''FSub''"
| "opcode_to_str OpFMul = ''FMul''"
| "opcode_to_str OpFDiv = ''FDiv''"
| "opcode_to_str OpAnd = ''And''"
| "opcode_to_str OpOr = ''Or''"
| "opcode_to_str OpXor = ''Xor''"
| "opcode_to_str OpShiftLeft = ''ShiftLeft''"
| "opcode_to_str OpArithmeticShiftRight = ''ArithmeticShiftRight''"
| "opcode_to_str OpLogicalShiftRight = ''LogicalShiftRight''"
| "opcode_to_str OpNot = ''Not''"
| "opcode_to_str OpBitReverse = ''BitReverse''"
| "opcode_to_str OpEq = ''Eq''"
| "opcode_to_str OpNe = ''Ne''"
| "opcode_to_str OpLe = ''Le''"
| "opcode_to_str OpLt = ''Lt''"
| "opcode_to_str OpGe = ''Ge''"
| "opcode_to_str OpGt = ''Gt''"
| "opcode_to_str OpTypeCast = ''TypeCast''"
| "opcode_to_str OpTypeSizeOf = ''TypeSizeOf''"
| "opcode_to_str OpTypeAlignOf = ''TypeAlignOf''"
| "opcode_to_str OpSelect = ''Select''"
| "opcode_to_str OpBr = ''Br''"
| "opcode_to_str OpCondBr = ''CondBr''"
| "opcode_to_str OpSwitch = ''Switch''"
| "opcode_to_str OpCall = ''Call''"
| "opcode_to_str OpRet = ''Ret''"
| "opcode_to_str OpUnreachable = ''Unreachable''"
| "opcode_to_str OpAtomicLoad = ''AtomicLoad''"
| "opcode_to_str OpAtomicStore = ''AtomicStore''"
| "opcode_to_str OpAtomicRmw = ''AtomicRmw''"
| "opcode_to_str OpAtomicCompareExchange = ''AtomicCompareExchange''"
| "opcode_to_str OpFence = ''Fence''"
| "opcode_to_str OpMove = ''Move''"
| "opcode_to_str OpDrop = ''Drop''"
| "opcode_to_str OpBorrow = ''Borrow''"
| "opcode_to_str OpIntAddWrap = ''IntAddWrap''"
| "opcode_to_str OpIntSubWrap = ''IntSubWrap''"
| "opcode_to_str OpIntMulWrap = ''IntMulWrap''"
| "opcode_to_str OpEnumTagLoad = ''EnumTagLoad''"
| "opcode_to_str OpEnumTagSet = ''EnumTagSet''"
| "opcode_to_str OpEnumFieldAddr = ''EnumFieldAddr''"
| "opcode_to_str (OpUndefined b) = []"

definition is_terminator :: "opcode \<Rightarrow> bool" where
  "is_terminator op \<longleftrightarrow>
     op = OpBr \<or> op = OpCondBr \<or> op = OpSwitch \<or> op = OpRet \<or> op = OpUnreachable"

datatype atomic_rmw_op = RmwAdd | RmwSub | RmwAnd | RmwOr | RmwXor | RmwExchange

record instruction_flags =
  fl_rmw_op :: atomic_rmw_op
  fl_inbounds :: bool

subsection \<open>Types\<close>

datatype (plugins only: code) type_tag =
  TyVoid | TyI1 | TyI8 | TyI16 | TyI32 | TyI64 | TyU8 | TyU16 | TyU32 | TyU64 | TyF32
| TyF64 | TyStr | TyPtr | TyRef | TyMutRef | TyRawPtr | TyRawMutPtr | TyStruct | TyArray
| TyFunction | TyEnum | TySlice | TyNever | TyTuple | TyError | TyFunc | TyConst | TyParam

primrec type_to_str :: "type_tag \<Rightarrow> string" where
  "type_to_str TyVoid = ''void''"
| "type_to_str TyI1 = ''i1''"
| "type_to_str TyI8 = ''i8''"
| "type_to_str TyI16 = ''i16''"
| "type_to_str TyI32 = ''i32''"
| "type_to_str TyI64 = ''i64''"
| "type_to_str TyU8 = ''u8''"
| "type_to_str TyU16 = ''u16''"
| "type_to_str TyU32 = ''u32''"
| "type_to_str TyU64 = ''u64''"
| "type_to_str TyF32 = ''f32''"
| "type_to_str TyF64 = ''f64''"
| "type_to_str TyStr = ''str''"
| "type_to_str TyPtr = ''ptr''"
| "type_to_str TyRef = ''ref''"
| "type_to_str TyMutRef = ''mut_ref''"
| "type_to_str TyRawPtr = ''raw_ptr''"
| "type_to_str TyRawMutPtr = ''raw_mut_ptr''"
| "type_to_str TyStruct = ''struct''"
| "type_to_str TyArray = ''array''"
| "type_to_str TyFunction = ''function''"
| "type_to_str TyEnum = ''enum''"
| "type_to_str TySlice = ''slice''"
| "type_to_str TyNever = ''never''"
| "type_to_str TyTuple = ''tuple''"
| "type_to_str TyError = ''error''"
| "type_to_str TyFunc = ''closure''"
| "type_to_str TyConst = ''const''"
| "type_to_str TyParam = ''param''"

text \<open>The enumerators in declaration order: the position is the stored byte.\<close>

definition ALL_TAGS :: "type_tag list" where
  "ALL_TAGS =
    [TyVoid, TyI1, TyI8, TyI16, TyI32, TyI64, TyU8, TyU16, TyU32, TyU64, TyF32, TyF64, TyStr,
     TyPtr, TyRef, TyMutRef, TyRawPtr, TyRawMutPtr, TyStruct, TyArray, TyFunction, TyEnum,
     TySlice, TyNever, TyTuple, TyError, TyFunc, TyConst, TyParam]"

definition tag_number :: "type_tag \<Rightarrow> nat" where
  "tag_number tag = length (takeWhile (\<lambda>t. t \<noteq> tag) ALL_TAGS)"

datatype pointer_width = W32 | W64

definition PRIMITIVE_TYPE_COUNT :: nat where
  "PRIMITIVE_TYPE_COUNT = tag_number TyStruct"

definition primitive_idx :: "type_tag \<Rightarrow> nat" where
  "primitive_idx tag = (if tag = TyFunction then PRIMITIVE_TYPE_COUNT else tag_number tag)"

text \<open>A range of consecutive indices.\<close>

record idx_range =
  rg_head :: nat
  rg_size :: nat

definition range_list :: "idx_range \<Rightarrow> nat list" where
  "range_list r = [rg_head r..<rg_head r + rg_size r]"

definition range_at :: "idx_range \<Rightarrow> nat \<Rightarrow> nat" where
  "range_at r i = rg_head r + i"

definition no_range :: idx_range where
  "no_range = \<lparr>rg_head = 0, rg_size = 0\<rparr>"

record struct_type =
  sty_name :: nat
  sty_fields :: idx_range
  sty_params :: idx_range

record array_type =
  aty_element :: nat
  aty_count :: u64

record slice_type =
  lty_element :: nat

record enum_variant_type =
  ev_name :: nat
  ev_fields :: idx_range

record enum_type =
  ety_name :: nat
  ety_variants :: idx_range
  ety_params :: idx_range

record ref_type =
  rty_pointee :: nat

record tuple_type =
  tty_elements :: idx_range

record func_type =
  fty_params :: idx_range
  fty_ret :: nat

record const_type =
  cty_value :: u64

record type_node =
  tn_tag :: type_tag
  tn_data :: nat

definition plain_node :: "type_tag \<Rightarrow> type_node" where
  "plain_node tag = \<lparr>tn_tag = tag, tn_data = 0\<rparr>"

subsection \<open>Predicates on type tags\<close>

definition is_integer_type :: "type_tag \<Rightarrow> bool" where
  "is_integer_type tag \<longleftrightarrow> tag \<in> {TyI1, TyI8, TyI16, TyI32, TyI64, TyU8, TyU16, TyU32, TyU64}"

definition is_signed_integer_type :: "type_tag \<Rightarrow> bool" where
  "is_signed_integer_type tag \<longleftrightarrow> tag \<in> {TyI8, TyI16, TyI32, TyI64}"

definition is_float_type :: "type_tag \<Rightarrow> bool" where
  "is_float_type tag \<longleftrightarrow> tag \<in> {TyF32, TyF64}"

definition is_raw_ptr_type :: "type_tag \<Rightarrow> bool" where
  "is_raw_ptr_type tag \<longleftrightarrow> tag = TyRawPtr \<or> tag = TyRawMutPtr"

definition is_pointer_type :: "type_tag \<Rightarrow> bool" where
  "is_pointer_type tag \<longleftrightarrow> tag = TyPtr \<or> tag = TyRef \<or> tag = TyMutRef \<or> is_raw_ptr_type tag"

definition unsigned_integer_type :: "type_tag \<Rightarrow> type_tag" where
  "unsigned_integer_type tag =
     (if tag = TyI8 then TyU8 else if tag = TyI16 then TyU16
      else if tag = TyI32 then TyU32 else if tag = TyI64 then TyU64 else tag)"

subsection \<open>Operands, instructions, blocks and functions\<close>

text \<open>The tagged union of an operand; \<open>OpdNone\<close> is its \<^verbatim>\<open>void\<close> alternative.\<close>

datatype operand_data =
  OpdRegister nat | OpdFunction nat | OpdBlock nat | OpdImmutable nat | OpdExternal nat | OpdNone

record operand =
  opd_data :: operand_data
  opd_type :: nat

definition from_register :: "nat \<Rightarrow> nat \<Rightarrow> operand" where
  "from_register i ty = \<lparr>opd_data = OpdRegister i, opd_type = ty\<rparr>"

definition from_function :: "nat \<Rightarrow> nat \<Rightarrow> operand" where
  "from_function i ty = \<lparr>opd_data = OpdFunction i, opd_type = ty\<rparr>"

definition from_block :: "nat \<Rightarrow> nat \<Rightarrow> operand" where
  "from_block i ty = \<lparr>opd_data = OpdBlock i, opd_type = ty\<rparr>"

definition from_immutable :: "nat \<Rightarrow> nat \<Rightarrow> operand" where
  "from_immutable i ty = \<lparr>opd_data = OpdImmutable i, opd_type = ty\<rparr>"

definition from_external_function :: "nat \<Rightarrow> nat \<Rightarrow> operand" where
  "from_external_function i ty = \<lparr>opd_data = OpdExternal i, opd_type = ty\<rparr>"

definition invalid_operand :: operand where
  "invalid_operand = \<lparr>opd_data = OpdNone, opd_type = primitive_idx TyVoid\<rparr>"

record instruction =
  in_op :: opcode
  in_flags :: instruction_flags
  in_dst :: "nat option"
  in_measure :: "nat option"
  in_operands :: idx_range

record block =
  bl_instrs :: idx_range
  bl_params :: idx_range

record block_param =
  bp_type :: nat
  bp_reg :: nat

record ir_register =
  rg_type :: nat
  rg_def :: "nat option"

datatype symbol_kind = SkForeign | SkFree | SkAssoc | SkMethod | SkUndefined u8

record function_meta =
  fm_return_type :: nat
  fm_param_types :: idx_range
  fm_name :: nat
  fm_path :: nat
  fm_kind :: symbol_kind
  fm_generics :: idx_range
  fm_owner :: "nat option"

record ir_function =
  fn_meta :: function_meta
  fn_blocks :: idx_range

datatype calling_convention = CcC | CcUndefined u8

record external_function =
  xf_meta :: function_meta
  xf_conv :: calling_convention

text \<open>The union of an immutable is its eight bytes, read at the width its type says.\<close>

record immutable =
  im_type :: nat
  im_bits :: u64

text \<open>\<^verbatim>\<open>as_u64_integer\<close> casts the member of the union to \<^verbatim>\<open>u64\<close>: signed members extend their sign.
  \<^term>\<open>None\<close> is the unreachable default.\<close>

definition as_u64_integer :: "type_tag \<Rightarrow> immutable \<Rightarrow> u64 option" where
  "as_u64_integer tag im =
     (if tag = TyI1 then Some (im_bits im AND 1)
      else if tag = TyI8 then Some (scast (ucast (im_bits im) :: 8 word))
      else if tag = TyI16 then Some (scast (ucast (im_bits im) :: 16 word))
      else if tag = TyI32 then Some (scast (ucast (im_bits im) :: 32 word))
      else if tag = TyI64 then Some (im_bits im)
      else if tag = TyU8 then Some (ucast (ucast (im_bits im) :: 8 word))
      else if tag = TyU16 then Some (ucast (ucast (im_bits im) :: 16 word))
      else if tag = TyU32 then Some (ucast (ucast (im_bits im) :: 32 word))
      else if tag = TyU64 then Some (im_bits im)
      else None)"

subsection \<open>The tables\<close>

record storage_state =
  st_functions :: "ir_function list"
  st_blocks :: "block list"
  st_block_params :: "block_param list"
  st_instrs :: "instruction list"
  st_immutables :: "immutable list"
  st_registers :: "ir_register list"
  st_external_functions :: "external_function list"
  st_operands :: "operand list"
  st_types :: "type_node list"
  st_struct_types :: "struct_type list"
  st_array_types :: "array_type list"
  st_slice_types :: "slice_type list"
  st_enum_types :: "enum_type list"
  st_enum_variant_types :: "enum_variant_type list"
  st_ref_types :: "ref_type list"
  st_tuple_types :: "tuple_type list"
  st_func_types :: "func_type list"
  st_const_types :: "const_type list"

definition empty_state :: storage_state where
  "empty_state = \<lparr>st_functions = [], st_blocks = [], st_block_params = [], st_instrs = [],
     st_immutables = [], st_registers = [], st_external_functions = [], st_operands = [],
     st_types = [], st_struct_types = [], st_array_types = [], st_slice_types = [],
     st_enum_types = [], st_enum_variant_types = [], st_ref_types = [], st_tuple_types = [],
     st_func_types = [], st_const_types = []\<rparr>"

text \<open>A read of a table row; \<^term>\<open>None\<close> is a read past its end.\<close>

definition row :: "'a list \<Rightarrow> nat \<Rightarrow> 'a option" where
  "row xs i = (if i < length xs then Some (xs ! i) else None)"

subsection \<open>Facts\<close>

lemma tag_number_simps [simp]:
  "tag_number TyVoid = 0" "tag_number TyI1 = 1" "tag_number TyI8 = 2" "tag_number TyI16 = 3"
  "tag_number TyI32 = 4" "tag_number TyI64 = 5" "tag_number TyU8 = 6" "tag_number TyU16 = 7"
  "tag_number TyU32 = 8" "tag_number TyU64 = 9" "tag_number TyF32 = 10" "tag_number TyF64 = 11"
  "tag_number TyStr = 12" "tag_number TyPtr = 13" "tag_number TyRef = 14" "tag_number TyMutRef = 15"
  "tag_number TyRawPtr = 16" "tag_number TyRawMutPtr = 17" "tag_number TyStruct = 18" "tag_number TyArray = 19"
  "tag_number TyFunction = 20" "tag_number TyEnum = 21" "tag_number TySlice = 22" "tag_number TyNever = 23"
  "tag_number TyTuple = 24" "tag_number TyError = 25" "tag_number TyFunc = 26" "tag_number TyConst = 27"
  "tag_number TyParam = 28"
  by (simp_all add: tag_number_def ALL_TAGS_def)

lemma PRIMITIVE_TYPE_COUNT_eq [simp]: "PRIMITIVE_TYPE_COUNT = 18"
  by (simp add: PRIMITIVE_TYPE_COUNT_def)

lemma row_Some_iff [simp]: "row xs i = Some x \<longleftrightarrow> i < length xs \<and> xs ! i = x"
  by (auto simp: row_def)

lemma row_in [simp]: "i < length xs \<Longrightarrow> row xs i = Some (xs ! i)"
  by (simp add: row_def)

lemma row_None_iff [simp]: "row xs i = None \<longleftrightarrow> length xs \<le> i"
  by (simp add: row_def)

end
