(* ===== verification/Ir_Layout.thy ===== *)
theory Ir_Layout
  imports Ir_Types
begin

text \<open>
  The questions \<^verbatim>\<open>src/src/ir/storage.h\<close> answers about a type table: size and alignment, field
  offsets and the niche of an option-shaped enum.  Sizes are 64-bit words and wrap as the code's do.
  The layout follows indices through the tables, so it is run on fuel: \<^term>\<open>None\<close> is a walk that has
  not come to an end, a read past the end of a table, or one of the \<^verbatim>\<open>UNREACHABLE\<close> cases.  The
  theorems show how much fuel is enough, that sizes are whole numbers of alignments, and that the
  offsets of a field list neither overlap nor leave the size reserved for it.
\<close>

subsection \<open>Layout\<close>

record type_layout =
  ly_size :: u64
  ly_align :: u64

definition align_up :: "u64 \<Rightarrow> u64 \<Rightarrow> u64" where
  "align_up v align = (if align = 0 then v else ((v + align - 1) div align) * align)"

record enum_niche =
  ni_has :: bool
  ni_carrying :: nat
  ni_fieldless :: nat
  ni_payload :: nat
  ni_slot :: nat
  ni_sentinel :: u8

definition no_niche :: enum_niche where
  "no_niche = \<lparr>ni_has = False, ni_carrying = 0, ni_fieldless = 0, ni_payload = 0, ni_slot = 0, ni_sentinel = 0\<rparr>"

definition enum_place_type :: "storage_state \<Rightarrow> nat \<Rightarrow> nat option" where
  "enum_place_type st idx =
     (case row (st_types st) idx of
        None \<Rightarrow> Some idx
      | Some node \<Rightarrow>
          if tn_tag node = TyRef \<or> tn_tag node = TyMutRef
          then map_option rty_pointee (row (st_ref_types st) (tn_data node))
          else Some idx)"

text \<open>The loop over the two variants; \<^term>\<open>Inl\<close> is its early return.\<close>

definition niche_variant ::
    "storage_state \<Rightarrow> idx_range \<Rightarrow> nat \<Rightarrow> enum_niche \<times> bool \<Rightarrow> (enum_niche + enum_niche \<times> bool) option" where
  "niche_variant st variants v acc =
     (case acc of (niche, found) \<Rightarrow> do {
        variant \<leftarrow> row (st_enum_variant_types st) (range_at variants v);
        let flds = ev_fields variant in
        Some (if rg_size flds = 0 then Inr (niche\<lparr>ni_fieldless := v\<rparr>, found)
              else if rg_size flds = 1
              then Inr (niche\<lparr>ni_carrying := v, ni_payload := range_at flds 0\<rparr>, True)
              else Inl niche)
      })"

definition niche_of_payload :: "storage_state \<Rightarrow> enum_niche \<Rightarrow> enum_niche option" where
  "niche_of_payload st niche = do {
     payload_node \<leftarrow> row (st_types st) (ni_payload niche);
     if tn_tag payload_node = TyRef \<or> tn_tag payload_node = TyMutRef then do {
       r \<leftarrow> row (st_ref_types st) (tn_data payload_node);
       pointee \<leftarrow> row (st_types st) (rty_pointee r);
       Some (if tn_tag pointee = TySlice then niche
             else niche\<lparr>ni_slot := ni_payload niche, ni_sentinel := 0, ni_has := True\<rparr>)
     }
     else if tn_tag payload_node = TyI1
     then Some (niche\<lparr>ni_slot := primitive_idx TyU8, ni_sentinel := 2, ni_has := True\<rparr>)
     else Some niche
   }"

definition enum_niche_of :: "storage_state \<Rightarrow> nat \<Rightarrow> enum_niche option" where
  "enum_niche_of st idx =
     (case row (st_types st) idx of
        None \<Rightarrow> Some no_niche
      | Some node \<Rightarrow>
          if tn_tag node \<noteq> TyEnum then Some no_niche
          else do {
            shape \<leftarrow> row (st_enum_types st) (tn_data node);
            if rg_size (ety_variants shape) \<noteq> 2 then Some no_niche
            else do {
              step0 \<leftarrow> niche_variant st (ety_variants shape) 0 (no_niche, False);
              case step0 of
                Inl niche \<Rightarrow> Some niche
              | Inr acc0 \<Rightarrow> do {
                  step1 \<leftarrow> niche_variant st (ety_variants shape) 1 acc0;
                  case step1 of
                    Inl niche \<Rightarrow> Some niche
                  | Inr (niche, found) \<Rightarrow> if \<not> found then Some niche else niche_of_payload st niche
                }
            }
          })"

text \<open>\<open>lay\<close> is the layout of the field types, \<^verbatim>\<open>type_layout\<close> itself in the sources.\<close>

fun layout_fields :: "(nat \<Rightarrow> type_layout option) \<Rightarrow> nat list \<Rightarrow> type_layout \<Rightarrow> type_layout option" where
  "layout_fields lay [] out = Some out"
| "layout_fields lay (field # flds) out = do {
     fl \<leftarrow> lay field;
     layout_fields lay flds
       \<lparr>ly_size = align_up (ly_size out) (ly_align fl) + ly_size fl,
        ly_align = (if ly_align fl > ly_align out then ly_align fl else ly_align out)\<rparr>
   }"

definition empty_layout :: type_layout where
  "empty_layout = \<lparr>ly_size = 0, ly_align = 1\<rparr>"

definition fields_layout :: "(nat \<Rightarrow> type_layout option) \<Rightarrow> idx_range \<Rightarrow> type_layout option" where
  "fields_layout lay flds =
     (if rg_size flds = 0 then Some empty_layout
      else do {
        out \<leftarrow> layout_fields lay (range_list flds) empty_layout;
        Some (out\<lparr>ly_size := align_up (ly_size out) (ly_align out)\<rparr>)
      })"

fun offset_walk :: "(nat \<Rightarrow> type_layout option) \<Rightarrow> nat list \<Rightarrow> u64 \<Rightarrow> u64 option" where
  "offset_walk lay [] cursor = Some cursor"
| "offset_walk lay (field # flds) cursor = do {
     fl \<leftarrow> lay field;
     offset_walk lay flds (align_up cursor (ly_align fl) + ly_size fl)
   }"

definition field_offset :: "(nat \<Rightarrow> type_layout option) \<Rightarrow> idx_range \<Rightarrow> nat \<Rightarrow> u64 option" where
  "field_offset lay flds index = do {
     cursor \<leftarrow> offset_walk lay (take index (range_list flds)) 0;
     fl \<leftarrow> lay (range_at flds index);
     Some (align_up cursor (ly_align fl))
   }"

fun payload_walk :: "(nat \<Rightarrow> type_layout option) \<Rightarrow> storage_state \<Rightarrow> nat list \<Rightarrow> type_layout \<Rightarrow> type_layout option" where
  "payload_walk lay st [] out = Some out"
| "payload_walk lay st (v # vs) out = do {
     variant \<leftarrow> row (st_enum_variant_types st) v;
     if rg_size (ev_fields variant) = 0 then payload_walk lay st vs out
     else do {
       vl \<leftarrow> fields_layout lay (ev_fields variant);
       payload_walk lay st vs
         \<lparr>ly_size = (if ly_size vl > ly_size out then ly_size vl else ly_size out),
          ly_align = (if ly_align vl > ly_align out then ly_align vl else ly_align out)\<rparr>
     }
   }"

definition enum_payload_area :: "(nat \<Rightarrow> type_layout option) \<Rightarrow> storage_state \<Rightarrow> nat \<Rightarrow> type_layout option" where
  "enum_payload_area lay st idx = do {
     node \<leftarrow> row (st_types st) idx;
     et \<leftarrow> row (st_enum_types st) (tn_data node);
     out \<leftarrow> payload_walk lay st (range_list (ety_variants et)) empty_layout;
     Some \<lparr>ly_size = align_up (ly_size out) (ly_align out), ly_align = ly_align out\<rparr>
   }"

definition word_bytes :: "pointer_width \<Rightarrow> u64" where
  "word_bytes width = (case width of W64 \<Rightarrow> 8 | W32 \<Rightarrow> 4)"

definition DISC :: u64 where
  "DISC = 4"

definition enum_layout :: "(nat \<Rightarrow> type_layout option) \<Rightarrow> storage_state \<Rightarrow> nat \<Rightarrow> type_layout option" where
  "enum_layout lay st idx = do {
     niche \<leftarrow> enum_niche_of st idx;
     if ni_has niche then lay (ni_slot niche)
     else do {
       area \<leftarrow> enum_payload_area lay st idx;
       let align = (if ly_align area > DISC then ly_align area else DISC);
           payload_start = align_up DISC (ly_align area) in
       Some \<lparr>ly_size = align_up (payload_start + ly_size area) align, ly_align = align\<rparr>
     }
   }"

text \<open>The switch on the tag of a node.\<close>

definition node_layout ::
    "(nat \<Rightarrow> type_layout option) \<Rightarrow> storage_state \<Rightarrow> pointer_width \<Rightarrow> nat \<Rightarrow> type_node \<Rightarrow> type_layout option" where
  "node_layout lay st width idx node =
     (let word = word_bytes width; tag = tn_tag node;
          fixed = (\<lambda>n :: u64. Some \<lparr>ly_size = n, ly_align = n\<rparr>);
          fat = Some \<lparr>ly_size = 2 * word, ly_align = word\<rparr> in
      if tag \<in> {TyVoid, TyNever, TyError} then Some empty_layout
      else if tag \<in> {TyI1, TyI8, TyU8} then fixed 1
      else if tag \<in> {TyI16, TyU16} then fixed 2
      else if tag \<in> {TyI32, TyU32, TyF32} then fixed 4
      else if tag \<in> {TyI64, TyU64, TyF64} then fixed 8
      else if tag \<in> {TyStr, TySlice, TyFunc} then fat
      else if tag \<in> {TyPtr, TyRawPtr, TyRawMutPtr, TyFunction} then fixed word
      else if tag \<in> {TyRef, TyMutRef} then do {
        r \<leftarrow> row (st_ref_types st) (tn_data node);
        pointee \<leftarrow> row (st_types st) (rty_pointee r);
        if tn_tag pointee = TySlice then fat else fixed word
      }
      else if tag = TyStruct then do {
        s \<leftarrow> row (st_struct_types st) (tn_data node);
        fields_layout lay (sty_fields s)
      }
      else if tag = TyTuple then do {
        t \<leftarrow> row (st_tuple_types st) (tn_data node);
        fields_layout lay (tty_elements t)
      }
      else if tag = TyArray then do {
        a \<leftarrow> row (st_array_types st) (tn_data node);
        if aty_count a = 0 then Some empty_layout
        else do {
          element \<leftarrow> lay (aty_element a);
          Some \<lparr>ly_size = ly_size element * aty_count a, ly_align = ly_align element\<rparr>
        }
      }
      else if tag = TyEnum then enum_layout lay st idx
      else None)"

fun type_layout_of :: "nat \<Rightarrow> storage_state \<Rightarrow> pointer_width \<Rightarrow> nat \<Rightarrow> type_layout option" where
  "type_layout_of 0 st width idx = None"
| "type_layout_of (Suc fuel) st width idx = do {
     node \<leftarrow> row (st_types st) idx;
     node_layout (type_layout_of fuel st width) st width idx node
   }"

subsection \<open>Rounding up\<close>

text \<open>The rounding on numbers that do not wrap, and the words it is computed on.\<close>

definition round_up :: "nat \<Rightarrow> nat \<Rightarrow> nat" where
  "round_up v a = ((v + a - 1) div a) * a"

lemma round_up_dvd [simp]: "a dvd round_up v a"
  by (simp add: round_up_def)

lemma round_up_ge: "a > 0 \<Longrightarrow> v \<le> round_up v a"
proof -
  assume "a > 0"
  then have "v + a - 1 < round_up v a + a"
    unfolding round_up_def by (metis add.commute dividend_less_times_div mult.commute)
  then show ?thesis using \<open>a > 0\<close> by linarith
qed

lemma round_up_less: "a > 0 \<Longrightarrow> round_up v a < v + a"
proof -
  assume "a > 0"
  have "round_up v a \<le> v + a - 1" unfolding round_up_def by simp
  then show ?thesis using \<open>a > 0\<close> by linarith
qed

lemma unat_align_up:
  assumes "a \<noteq> 0" "unat v + unat a \<le> 2 ^ 64"
  shows "unat (align_up v a) = round_up (unat v) (unat a)"
proof -
  have pos: "0 < unat a" using assms(1) by (simp add: unat_gt_0)
  have less: "unat (a - 1) = unat a - 1" using assms(1) by (simp add: unat_minus_one)
  have "v + a - 1 = v + (a - 1)" by simp
  then have "unat (v + a - 1) = (unat v + unat (a - 1)) mod 2 ^ 64"
    by (simp only: unat_word_ariths) simp
  also have "\<dots> = unat v + unat a - 1"
    using assms(2) pos unfolding less by (subst mod_less) linarith+
  finally have sum: "unat (v + a - 1) = unat v + unat a - 1" .
  have "round_up (unat v) (unat a) < 2 ^ 64"
    using round_up_less [OF pos, of "unat v"] assms(2) by linarith
  then show ?thesis
    using assms(1) by (simp add: align_up_def round_up_def unat_word_ariths unat_div sum mod_mult_left_eq)
qed

subsection \<open>Fields side by side\<close>

text \<open>Where the cursor stands after placing fields of the given sizes and alignments.\<close>

fun place :: "type_layout list \<Rightarrow> nat \<Rightarrow> nat" where
  "place [] c = c"
| "place (l # ls) c = place ls (round_up c (unat (ly_align l)) + unat (ly_size l))"

definition room :: "type_layout list \<Rightarrow> nat" where
  "room ls = (\<Sum>l \<leftarrow> ls. unat (ly_size l) + unat (ly_align l))"

lemma room_simps [simp]:
  "room [] = 0" "room (l # ls) = unat (ly_size l) + unat (ly_align l) + room ls"
  "room (ls @ ls') = room ls + room ls'"
  by (simp_all add: room_def)

definition aligned_layouts :: "type_layout list \<Rightarrow> bool" where
  "aligned_layouts ls \<longleftrightarrow> (\<forall>l \<in> set ls. ly_align l \<in> {1, 2, 4, 8})"

lemma aligned_layouts_simps [simp]:
  "aligned_layouts []" "aligned_layouts (l # ls) \<longleftrightarrow> ly_align l \<in> {1, 2, 4, 8} \<and> aligned_layouts ls"
  by (auto simp: aligned_layouts_def)

lemma align_values: "a \<in> {1, 2, 4, 8 :: u64} \<Longrightarrow> a \<noteq> 0 \<and> 0 < unat a \<and> unat a \<le> 8"
  by auto

lemma place_bounds:
  "aligned_layouts ls \<Longrightarrow> c \<le> place ls c \<and> place ls c \<le> c + room ls"
proof (induction ls arbitrary: c)
  case (Cons l ls)
  then have pos: "0 < unat (ly_align l)" using align_values by auto
  show ?case
    using Cons.IH [of "round_up c (unat (ly_align l)) + unat (ly_size l)"] Cons.prems
      round_up_ge [OF pos, of c] round_up_less [OF pos, of c] by auto
qed simp

lemma place_append: "place (ls @ ls') c = place ls' (place ls c)"
  by (induction ls arbitrary: c) auto

lemma align_up_step:
  assumes "ly_align l \<in> {1, 2, 4, 8}" "unat c + room (l # ls) < 2 ^ 64"
  shows "unat (align_up c (ly_align l) + ly_size l) = round_up (unat c) (unat (ly_align l)) + unat (ly_size l)"
    and "unat (align_up c (ly_align l) + ly_size l) + room ls < 2 ^ 64"
proof -
  have a: "ly_align l \<noteq> 0" "0 < unat (ly_align l)" using align_values [OF assms(1)] by auto
  have "unat (align_up c (ly_align l)) = round_up (unat c) (unat (ly_align l))"
    using assms(2) by (intro unat_align_up a) simp
  moreover have small: "round_up (unat c) (unat (ly_align l)) + unat (ly_size l) + room ls < 2 ^ 64"
    using assms(2) round_up_less [OF a(2), of "unat c"] by simp
  ultimately show eq: "unat (align_up c (ly_align l) + ly_size l)
      = round_up (unat c) (unat (ly_align l)) + unat (ly_size l)"
    by (simp add: unat_word_ariths)
  show "unat (align_up c (ly_align l) + ly_size l) + room ls < 2 ^ 64"
    unfolding eq by (rule small)
qed

lemma offset_walk_place:
  assumes "map lay flds = map Some ls" "aligned_layouts ls" "unat c + room ls < 2 ^ 64"
  shows "\<exists>w. offset_walk lay flds c = Some w \<and> unat w = place ls (unat c)"
  using assms
proof (induction flds arbitrary: ls c)
  case (Cons f flds)
  then obtain l ls' where ls: "ls = l # ls'" "lay f = Some l" "map lay flds = map Some ls'"
    by (cases ls) auto
  note step = align_up_step [of l c ls']
  show ?case using Cons.IH [OF ls(3), of "align_up c (ly_align l) + ly_size l"] Cons.prems step ls by auto
qed simp

definition max_align :: "type_layout list \<Rightarrow> u64 \<Rightarrow> u64" where
  "max_align ls a = fold (\<lambda>l a. if ly_align l > a then ly_align l else a) ls a"

lemma layout_fields_place:
  assumes "map lay flds = map Some ls" "aligned_layouts ls" "unat (ly_size out) + room ls < 2 ^ 64"
  shows "\<exists>L. layout_fields lay flds out = Some L \<and> unat (ly_size L) = place ls (unat (ly_size out))
    \<and> ly_align L = max_align ls (ly_align out)"
  using assms
proof (induction flds arbitrary: ls out)
  case (Cons f flds)
  then obtain l ls' where ls: "ls = l # ls'" "lay f = Some l" "map lay flds = map Some ls'"
    by (cases ls) auto
  let ?out = "\<lparr>ly_size = align_up (ly_size out) (ly_align l) + ly_size l,
     ly_align = if ly_align l > ly_align out then ly_align l else ly_align out\<rparr>"
  show ?case using Cons.IH [OF ls(3), of ?out] Cons.prems align_up_step [of l "ly_size out" ls'] ls
    by (auto simp: max_align_def)
qed (auto simp: max_align_def)

text \<open>Alignments of one, two, four and eight bytes divide each other upwards.\<close>

lemma max_align_dvd:
  assumes "aligned_layouts ls" "a \<in> {1, 2, 4, 8}"
  shows "max_align ls a \<in> {1, 2, 4, 8} \<and> unat a dvd unat (max_align ls a)
    \<and> (\<forall>l \<in> set ls. unat (ly_align l) dvd unat (max_align ls a))"
  using assms
proof (induction ls arbitrary: a)
  case (Cons l ls)
  let ?b = "if ly_align l > a then ly_align l else a"
  have b: "?b \<in> {1, 2, 4, 8}" "unat a dvd unat ?b" "unat (ly_align l) dvd unat ?b"
    using Cons.prems by auto
  have "max_align (l # ls) a = max_align ls ?b" by (simp add: max_align_def)
  then show ?case using Cons.IH [OF _ b(1)] Cons.prems b(2,3) dvd_trans by fastforce
qed (simp add: max_align_def)


subsection \<open>Every layout is aligned\<close>

definition good_layout :: "type_layout \<Rightarrow> bool" where
  "good_layout l \<longleftrightarrow> ly_align l \<in> {1, 2, 4, 8} \<and> unat (ly_align l) dvd unat (ly_size l)"

lemma good_empty_layout [simp]: "good_layout empty_layout"
  by (simp add: good_layout_def empty_layout_def)

lemma align_up_dvd: "a \<noteq> 0 \<Longrightarrow> unat a dvd unat (align_up v a)"
proof -
  assume a: "a \<noteq> 0"
  let ?w = "v + a - 1"
  have "unat ?w div unat a * unat a < 2 ^ 64"
    using unsigned_less [of ?w, where 'a = nat] by (intro le_less_trans [OF div_times_less_eq_dividend]) simp
  then have "unat (align_up v a) = unat ?w div unat a * unat a"
    using a by (simp add: align_up_def unat_word_ariths unat_div mod_mult_left_eq)
  then show ?thesis by simp
qed

lemma good_align_up [simp]: "a \<in> {1, 2, 4, 8} \<Longrightarrow> good_layout \<lparr>ly_size = align_up v a, ly_align = a\<rparr>"
  using align_up_dvd [of a v] by (auto simp: good_layout_def)

lemma align_dvd_wrap: "a \<in> {1, 2, 4, 8 :: u64} \<Longrightarrow> unat a dvd 2 ^ 64"
  by auto

lemma good_times:
  assumes "good_layout l"
  shows "good_layout \<lparr>ly_size = ly_size l * n, ly_align = ly_align l\<rparr>"
proof -
  have "unat (ly_align l) dvd unat (ly_size l) * unat n mod 2 ^ 64"
    using assms align_dvd_wrap [of "ly_align l"] unfolding good_layout_def
    by (intro dvd_mod dvd_mult2) auto
  then show ?thesis using assms by (simp add: good_layout_def unat_word_ariths)
qed

lemma layout_fields_align:
  assumes "\<And>i l. lay i = Some l \<Longrightarrow> good_layout l"
  shows "layout_fields lay flds out = Some L \<Longrightarrow> ly_align out \<in> {1, 2, 4, 8} \<Longrightarrow> ly_align L \<in> {1, 2, 4, 8}"
proof (induction flds arbitrary: out)
  case (Cons f flds)
  then obtain fl where fl: "lay f = Some fl" by (cases "lay f") auto
  have a: "ly_align fl \<in> {1, 2, 4, 8}" using assms [OF fl] by (simp add: good_layout_def)
  show ?case
    by (rule Cons.IH [of "\<lparr>ly_size = align_up (ly_size out) (ly_align fl) + ly_size fl,
        ly_align = if ly_align fl > ly_align out then ly_align fl else ly_align out\<rparr>"])
      (use Cons.prems a fl in auto)
qed auto

lemma good_fields_layout:
  assumes "\<And>i l. lay i = Some l \<Longrightarrow> good_layout l" "fields_layout lay flds = Some L"
  shows "good_layout L"
proof (cases "rg_size flds = 0")
  case False
  then obtain out where out: "layout_fields lay (range_list flds) empty_layout = Some out"
    and L: "L = out\<lparr>ly_size := align_up (ly_size out) (ly_align out)\<rparr>"
    using assms(2) by (auto simp: fields_layout_def split: bind_splits)
  have "ly_align out \<in> {1, 2, 4, 8}"
    using layout_fields_align [OF assms(1) out] by (simp add: empty_layout_def)
  then show ?thesis using good_align_up [of "ly_align out" "ly_size out"] L by (cases out) simp
qed (use assms(2) in \<open>simp add: fields_layout_def\<close>)

lemma payload_walk_align:
  assumes "\<And>i l. lay i = Some l \<Longrightarrow> good_layout l"
  shows "payload_walk lay st vs out = Some L \<Longrightarrow> ly_align out \<in> {1, 2, 4, 8} \<Longrightarrow> ly_align L \<in> {1, 2, 4, 8}"
proof (induction vs arbitrary: out)
  case (Cons v vs)
  then obtain variant where v: "row (st_enum_variant_types st) v = Some variant"
    by (cases "row (st_enum_variant_types st) v") auto
  show ?case
  proof (cases "rg_size (ev_fields variant) = 0")
    case True
    then show ?thesis using Cons v by simp
  next
    case False
    then obtain vl where vl: "fields_layout lay (ev_fields variant) = Some vl"
      using Cons.prems v by (cases "fields_layout lay (ev_fields variant)") auto
    have a: "ly_align vl \<in> {1, 2, 4, 8}"
      using good_fields_layout [OF assms vl] by (simp add: good_layout_def)
    show ?thesis
      by (rule Cons.IH [of "\<lparr>ly_size = if ly_size vl > ly_size out then ly_size vl else ly_size out,
          ly_align = if ly_align vl > ly_align out then ly_align vl else ly_align out\<rparr>"])
        (use Cons.prems a v vl False in auto)
  qed
qed auto

lemma good_enum_payload_area:
  assumes "\<And>i l. lay i = Some l \<Longrightarrow> good_layout l" "enum_payload_area lay st idx = Some L"
  shows "good_layout L"
proof -
  obtain vs out where out: "payload_walk lay st vs empty_layout = Some out"
    and L: "L = \<lparr>ly_size = align_up (ly_size out) (ly_align out), ly_align = ly_align out\<rparr>"
    using assms(2) by (auto simp: enum_payload_area_def split: bind_splits)
  have "ly_align out \<in> {1, 2, 4, 8}"
    using payload_walk_align [OF assms(1) out] by (simp add: empty_layout_def)
  then show ?thesis unfolding L by simp
qed

lemma good_enum_layout:
  assumes "\<And>i l. lay i = Some l \<Longrightarrow> good_layout l" "enum_layout lay st idx = Some L"
  shows "good_layout L"
proof -
  obtain niche where n: "enum_niche_of st idx = Some niche"
    using assms(2) by (auto simp: enum_layout_def split: bind_splits)
  show ?thesis
  proof (cases "ni_has niche")
    case True
    then show ?thesis using assms n by (simp add: enum_layout_def)
  next
    case False
    then obtain area where area: "enum_payload_area lay st idx = Some area"
      and L: "L = (let align = (if ly_align area > DISC then ly_align area else DISC) in
        \<lparr>ly_size = align_up (align_up DISC (ly_align area) + ly_size area) align, ly_align = align\<rparr>)"
      using assms(2) n by (auto simp: enum_layout_def Let_def split: bind_splits)
    have "ly_align area \<in> {1, 2, 4, 8}"
      using good_enum_payload_area [OF assms(1) area] by (simp add: good_layout_def)
    then show ?thesis unfolding L Let_def by (intro good_align_up) (auto simp: DISC_def)
  qed
qed

lemma good_fixed:
  "good_layout \<lparr>ly_size = n, ly_align = n\<rparr> \<longleftrightarrow> n \<in> {1, 2, 4, 8}"
  "good_layout \<lparr>ly_size = 2 * word_bytes w, ly_align = word_bytes w\<rparr>" "word_bytes w \<in> {1, 2, 4, 8}"
  by (auto simp: good_layout_def word_bytes_def split: pointer_width.split)

lemma good_node_layout:
  assumes lay: "\<And>i l. lay i = Some l \<Longrightarrow> good_layout l" and "node_layout lay st width idx node = Some L"
  shows "good_layout L"
  using assms(2) good_fixed(2) [of width] good_fixed(3) [of width]
  by (cases "tn_tag node")
    (auto simp: node_layout_def good_fixed(1) lay good_times good_fields_layout [OF lay] good_enum_layout [OF lay]
      split: bind_splits if_splits)

lemma good_type_layout: "type_layout_of fuel st width idx = Some L \<Longrightarrow> good_layout L"
proof (induction fuel arbitrary: idx L)
  case (Suc fuel)
  then show ?case using good_node_layout [OF Suc.IH] by (auto split: bind_splits)
qed simp


subsection \<open>Fields do not overlap\<close>

lemma place_take_Suc:
  "i < length ls \<Longrightarrow> place (take (Suc i) ls) c
     = round_up (place (take i ls) c) (unat (ly_align (ls ! i))) + unat (ly_size (ls ! i))"
  by (simp add: take_Suc_conv_app_nth place_append)

lemma aligned_take: "aligned_layouts ls \<Longrightarrow> aligned_layouts (take i ls)"
  by (auto simp: aligned_layouts_def dest: in_set_takeD)

lemma aligned_drop: "aligned_layouts ls \<Longrightarrow> aligned_layouts (drop i ls)"
  by (auto simp: aligned_layouts_def dest: in_set_dropD)

lemma place_take_mono:
  assumes "aligned_layouts ls" "i \<le> j"
  shows "place (take i ls) c \<le> place (take j ls) c"
proof -
  have "take j ls = take i ls @ drop i (take j ls)" using assms(2) by (metis append_take_drop_id min.absorb1 take_take)
  then have "place (take j ls) c = place (drop i (take j ls)) (place (take i ls) c)" by (metis place_append)
  then show ?thesis using place_bounds aligned_drop aligned_take assms(1) by metis
qed

lemma room_take: "room (take i ls) \<le> room ls"
  by (metis append_take_drop_id le_add1 room_simps(3))

lemma room_nth: "i < length ls \<Longrightarrow> room (take i ls) + unat (ly_align (ls ! i)) \<le> room ls"
proof -
  assume i: "i < length ls"
  have "room (take (Suc i) ls) \<le> room ls" by (rule room_take)
  then show ?thesis using i by (simp add: take_Suc_conv_app_nth)
qed

lemma field_offset_place:
  assumes lays: "map lay (range_list flds) = map Some ls" and "aligned_layouts ls" "room ls < 2 ^ 64" "i < rg_size flds"
  shows "\<exists>off. field_offset lay flds i = Some off
    \<and> unat off = round_up (place (take i ls) 0) (unat (ly_align (ls ! i)))"
proof -
  have len: "length ls = rg_size flds" using lays map_eq_imp_length_eq by (fastforce simp: range_list_def)
  have "lay (range_list flds ! i) = Some (ls ! i)"
    using lays assms(4) len by (metis length_map nth_map)
  then have li: "lay (range_at flds i) = Some (ls ! i)" using assms(4) by (simp add: range_list_def range_at_def)
  have "map lay (take i (range_list flds)) = map Some (take i ls)" using lays by (metis take_map)
  then obtain w where w: "offset_walk lay (take i (range_list flds)) 0 = Some w" "unat w = place (take i ls) 0"
    using offset_walk_place [of lay "take i (range_list flds)" "take i ls" 0] assms(2,3) room_take [of i ls]
    by (auto simp: aligned_take)
  have a: "ly_align (ls ! i) \<in> {1, 2, 4, 8}" using assms(2,4) len by (auto simp: aligned_layouts_def)
  have "place (take i ls) 0 + unat (ly_align (ls ! i)) \<le> 2 ^ 64"
    using place_bounds [OF aligned_take [OF assms(2)], of 0 i] room_nth [of i ls] assms(3,4) len by simp
  then show ?thesis
    using w li unat_align_up [of "ly_align (ls ! i)" w] align_values [OF a] by (auto simp: field_offset_def)
qed

lemma fields_layout_place:
  assumes lays: "map lay (range_list flds) = map Some ls" and "aligned_layouts ls" "room ls + 8 < 2 ^ 64"
  shows "\<exists>L. fields_layout lay flds = Some L \<and> ly_align L = max_align ls 1
    \<and> unat (ly_size L) = round_up (place ls 0) (unat (max_align ls 1))"
proof (cases "rg_size flds = 0")
  case True
  then have "ls = []" using lays by (simp add: range_list_def)
  then show ?thesis using True by (simp add: fields_layout_def empty_layout_def max_align_def round_up_def)
next
  case False
  obtain out where out: "layout_fields lay (range_list flds) empty_layout = Some out"
    "unat (ly_size out) = place ls 0" "ly_align out = max_align ls 1"
    using layout_fields_place [OF lays assms(2), of empty_layout] assms(3) by (auto simp: empty_layout_def)
  have a: "max_align ls 1 \<in> {1, 2, 4, 8}" using max_align_dvd [OF assms(2), of 1] by simp
  have "place ls 0 + unat (max_align ls 1) \<le> 2 ^ 64"
    using place_bounds [OF assms(2), of 0] align_values [OF a] assms(3) by simp
  then show ?thesis
    using out False unat_align_up [of "max_align ls 1" "ly_size out"] align_values [OF a]
    by (auto simp: fields_layout_def)
qed

definition field_placed ::
    "(nat \<Rightarrow> type_layout option) \<Rightarrow> idx_range \<Rightarrow> type_layout list \<Rightarrow> type_layout \<Rightarrow> nat \<Rightarrow> bool" where
  "field_placed lay flds ls L i \<longleftrightarrow> (\<exists>off. field_offset lay flds i = Some off
     \<and> unat (ly_align (ls ! i)) dvd unat off
     \<and> unat (ly_align (ls ! i)) dvd unat (ly_align L)
     \<and> unat off + unat (ly_size (ls ! i)) \<le> unat (ly_size L)
     \<and> (\<forall>j < i. \<exists>before. field_offset lay flds j = Some before
          \<and> unat before + unat (ly_size (ls ! j)) \<le> unat off))"

text \<open>
  C16. A field list is laid out without overlap: when the sizes of its fields and their alignments fit the
  64-bit size, every field gets an offset that its alignment divides, the offset leaves room for all
  earlier fields, the field ends inside the size the whole list reserves, and the alignment of the
  list is one the alignment of every field divides.
\<close>

theorem fields_laid_out:
  fixes flds
  assumes "map (type_layout_of fuel st width) (range_list flds) = map Some ls" "room ls + 8 < 2 ^ 64"
  shows "\<exists>L. fields_layout (type_layout_of fuel st width) flds = Some L
    \<and> (\<forall>i < rg_size flds. field_placed (type_layout_of fuel st width) flds ls L i)"
proof -
  let ?lay = "type_layout_of fuel st width"
  have "\<forall>l \<in> set ls. good_layout l"
  proof
    fix l assume "l \<in> set ls"
    then have "Some l \<in> set (map ?lay (range_list flds))" unfolding assms(1) by simp
    then show "good_layout l" using good_type_layout by fastforce
  qed
  then have al: "aligned_layouts ls" by (simp add: aligned_layouts_def good_layout_def)
  have len: "length ls = rg_size flds" using assms(1) map_eq_imp_length_eq by (fastforce simp: range_list_def)
  obtain L where L: "fields_layout ?lay flds = Some L" "ly_align L = max_align ls 1"
    "unat (ly_size L) = round_up (place ls 0) (unat (max_align ls 1))"
    using fields_layout_place [OF assms(1) al assms(2)] by blast
  have ma: "max_align ls 1 \<in> {1, 2, 4, 8}" "\<forall>l \<in> set ls. unat (ly_align l) dvd unat (max_align ls 1)"
    using max_align_dvd [OF al, of 1] by auto
  have whole: "place ls 0 \<le> unat (ly_size L)"
    unfolding L(3) using align_values [OF ma(1)] by (intro round_up_ge) simp
  have off: "\<exists>off. field_offset ?lay flds i = Some off
      \<and> unat off = round_up (place (take i ls) 0) (unat (ly_align (ls ! i)))
      \<and> unat off + unat (ly_size (ls ! i)) = place (take (Suc i) ls) 0" if "i < rg_size flds" for i
    using field_offset_place [OF assms(1) al _ that] assms(2) that place_take_Suc [of i ls 0] len by auto
  have above: "place (take i ls) 0 \<le> round_up (place (take i ls) 0) (unat (ly_align (ls ! i)))"
    if "i < rg_size flds" for i
    using al that len align_values by (intro round_up_ge) (auto simp: aligned_layouts_def)
  have one: "field_placed ?lay flds ls L i" if i: "i < rg_size flds" for i
  proof -
    obtain o' where o: "field_offset ?lay flds i = Some o'"
      "unat o' = round_up (place (take i ls) 0) (unat (ly_align (ls ! i)))"
      "unat o' + unat (ly_size (ls ! i)) = place (take (Suc i) ls) 0" using off [OF i] by blast
    have "unat o' + unat (ly_size (ls ! i)) \<le> unat (ly_size L)"
      using o(3) place_take_mono [OF al, of "Suc i" "length ls" 0] i len whole by simp
    moreover have "\<exists>before. field_offset ?lay flds j = Some before \<and> unat before + unat (ly_size (ls ! j)) \<le> unat o'"
      if "j < i" for j
      using off [of j] that i place_take_mono [OF al, of "Suc j" i 0] above [OF i] o(2) by fastforce
    ultimately show ?thesis using o L(2) ma(2) i len by (simp add: field_placed_def)
  qed
  show ?thesis using L(1) one by blast
qed


subsection \<open>Layouts exist\<close>

text \<open>The types a value of a type holds, in the order the structural walks visit them.\<close>

definition variant_fields :: "storage_state \<Rightarrow> nat \<Rightarrow> nat list option" where
  "variant_fields st v = map_option (\<lambda>variant. range_list (ev_fields variant)) (row (st_enum_variant_types st) v)"

fun concat_rows :: "(nat \<Rightarrow> nat list option) \<Rightarrow> nat list \<Rightarrow> nat list option" where
  "concat_rows f [] = Some []"
| "concat_rows f (v # vs) = do { xs \<leftarrow> f v; ys \<leftarrow> concat_rows f vs; Some (xs @ ys) }"

definition held_types :: "storage_state \<Rightarrow> type_node \<Rightarrow> nat list option" where
  "held_types st node =
     (let tag = tn_tag node in
      if tag = TyStruct then map_option (\<lambda>s. range_list (sty_fields s)) (row (st_struct_types st) (tn_data node))
      else if tag = TyArray then map_option (\<lambda>a. [aty_element a]) (row (st_array_types st) (tn_data node))
      else if tag = TySlice then map_option (\<lambda>s. [lty_element s]) (row (st_slice_types st) (tn_data node))
      else if tag = TyEnum then do {
        et \<leftarrow> row (st_enum_types st) (tn_data node);
        concat_rows (variant_fields st) (range_list (ety_variants et))
      }
      else if tag = TyTuple then map_option (\<lambda>t. range_list (tty_elements t)) (row (st_tuple_types st) (tn_data node))
      else Some [])"


text \<open>
  Types whose layouts are finite.  \<open>S\<close> lists types of the table together with what their values hold: every type
  a value holds directly is in \<open>S\<close> and has a smaller rank, the rows the nodes name exist, no type parameter
  and no compile-time value is among them, and the byte type sits where the niche of a \<^verbatim>\<open>bool\<close> payload looks for it.
  Types outside \<open>S\<close> are unconstrained.
\<close>

definition laid_types :: "storage_state \<Rightarrow> type_node \<Rightarrow> nat list option" where
  "laid_types st node = (if tn_tag node = TySlice then Some [] else held_types st node)"

definition refs_in_range :: "storage_state \<Rightarrow> type_node \<Rightarrow> bool" where
  "refs_in_range st node \<longleftrightarrow> tn_tag node \<in> {TyRef, TyMutRef} \<longrightarrow>
     tn_data node < length (st_ref_types st) \<and> rty_pointee (st_ref_types st ! tn_data node) < length (st_types st)"

definition ranked :: "storage_state \<Rightarrow> (nat \<Rightarrow> nat) \<Rightarrow> nat list \<Rightarrow> nat \<Rightarrow> bool" where
  "ranked st rank S idx \<longleftrightarrow> (let node = st_types st ! idx in
     tn_tag node \<notin> {TyConst, TyParam} \<and> refs_in_range st node
     \<and> (case laid_types st node of
          None \<Rightarrow> False
        | Some held \<Rightarrow> list_all (\<lambda>h. h \<in> set S \<and> rank h < rank idx) held))"

definition layout_ready :: "storage_state \<Rightarrow> (nat \<Rightarrow> nat) \<Rightarrow> nat list \<Rightarrow> bool" where
  "layout_ready st rank S \<longleftrightarrow>
     list_all (\<lambda>i. i < length (st_types st) \<and> ranked st rank S i) S
     \<and> map_option tn_tag (row (st_types st) (primitive_idx TyU8)) = Some TyU8"

lemma layout_fields_total:
  "\<forall>f \<in> set flds. \<exists>l. lay f = Some l \<Longrightarrow> \<exists>L. layout_fields lay flds out = Some L"
  by (induction flds arbitrary: out) auto

lemma fields_layout_total:
  "\<forall>f \<in> set (range_list flds). \<exists>l. lay f = Some l \<Longrightarrow> \<exists>L. fields_layout lay flds = Some L"
  using layout_fields_total [of "range_list flds" lay empty_layout] by (auto simp: fields_layout_def)

lemma variant_fields_Some:
  "variant_fields st v = Some xs \<longleftrightarrow>
     (\<exists>variant. row (st_enum_variant_types st) v = Some variant \<and> xs = range_list (ev_fields variant))"
  by (auto simp: variant_fields_def)

lemma payload_walk_total:
  assumes "concat_rows (variant_fields st) vs = Some held" "\<forall>f \<in> set held. \<exists>l. lay f = Some l"
  shows "\<exists>L. payload_walk lay st vs out = Some L"
  using assms
proof (induction vs arbitrary: held out)
  case (Cons v vs)
  then obtain variant rest where v: "row (st_enum_variant_types st) v = Some variant"
    "concat_rows (variant_fields st) vs = Some rest" "held = range_list (ev_fields variant) @ rest"
    by (auto simp: variant_fields_Some split: bind_splits)
  obtain vl where "fields_layout lay (ev_fields variant) = Some vl"
    using fields_layout_total [of "ev_fields variant" lay] Cons.prems(2) v(3) by auto
  then show ?case using Cons.IH [OF v(2)] Cons.prems(2) v by auto
qed simp

lemma concat_rows_nth:
  "concat_rows f vs = Some held \<Longrightarrow> v \<in> set vs \<Longrightarrow> \<exists>xs. f v = Some xs \<and> set xs \<subseteq> set held"
  by (induction vs arbitrary: held) (fastforce split: bind_splits)+

lemma range_at_in: "i < rg_size r \<Longrightarrow> range_at r i \<in> set (range_list r)"
  by (simp add: range_at_def range_list_def)

lemma variant_row:
  assumes "concat_rows (variant_fields st) (range_list vs) = Some held" "i < rg_size vs"
  shows "\<exists>variant. row (st_enum_variant_types st) (range_at vs i) = Some variant
    \<and> set (range_list (ev_fields variant)) \<subseteq> set held"
  using concat_rows_nth [OF assms(1) range_at_in [OF assms(2)]] by (auto simp: variant_fields_def)


lemma niche_variant_total:
  assumes "concat_rows (variant_fields st) (range_list vs) = Some held" "i < rg_size vs"
    "found \<longrightarrow> ni_payload niche \<in> set held" "\<not> ni_has niche"
  obtains (Early) early where "niche_variant st vs i (niche, found) = Some (Inl early)" "\<not> ni_has early"
  | (Next) niche' found' where "niche_variant st vs i (niche, found) = Some (Inr (niche', found'))"
      "found' \<longrightarrow> ni_payload niche' \<in> set held" "\<not> ni_has niche'"
proof -
  obtain variant where v: "row (st_enum_variant_types st) (range_at vs i) = Some variant"
    "set (range_list (ev_fields variant)) \<subseteq> set held"
    using variant_row [OF assms(1,2)] by blast
  consider "rg_size (ev_fields variant) = 0" | "rg_size (ev_fields variant) = 1" | "rg_size (ev_fields variant) > 1"
    by linarith
  then show thesis
  proof cases
    case 2
    then have "range_at (ev_fields variant) 0 \<in> set held" using range_at_in [of 0 "ev_fields variant"] v(2) by auto
    then show thesis using 2 v assms(4)
      by (intro Next [of "niche\<lparr>ni_carrying := i, ni_payload := range_at (ev_fields variant) 0\<rparr>" True])
        (simp_all add: niche_variant_def)
  qed (use v assms in \<open>auto simp: niche_variant_def intro: Early Next\<close>)
qed

lemma niche_of_payload_total:
  assumes "ni_payload niche < length (st_types st)" "refs_in_range st (st_types st ! ni_payload niche)" "\<not> ni_has niche"
  shows "\<exists>niche'. niche_of_payload st niche = Some niche'
    \<and> (ni_has niche' \<longrightarrow> ni_slot niche' \<in> {ni_payload niche, primitive_idx TyU8})"
proof (cases "tn_tag (st_types st ! ni_payload niche) \<in> {TyRef, TyMutRef}")
  case True
  then show ?thesis using assms by (auto simp: niche_of_payload_def refs_in_range_def)
next
  case False
  then show ?thesis using assms by (auto simp: niche_of_payload_def)
qed

lemma enum_niche_total:
  assumes "idx < length (st_types st)" "tn_tag (st_types st ! idx) = TyEnum"
    "held_types st (st_types st ! idx) = Some held" "\<forall>h \<in> set held. h < length (st_types st)"
    "\<forall>h \<in> set held. refs_in_range st (st_types st ! h)"
  shows "\<exists>niche. enum_niche_of st idx = Some niche
    \<and> (ni_has niche \<longrightarrow> ni_slot niche \<in> set held \<or> (ni_slot niche = primitive_idx TyU8 \<and> held \<noteq> []))"
proof -
  obtain et where et: "row (st_enum_types st) (tn_data (st_types st ! idx)) = Some et"
    "concat_rows (variant_fields st) (range_list (ety_variants et)) = Some held"
    using assms(2,3) by (auto simp: held_types_def split: bind_splits)
  let ?vs = "ety_variants et"
  note [simp] = enum_niche_of_def
  have none: "\<not> ni_has no_niche" by (simp add: no_niche_def)
  show ?thesis
  proof (cases "rg_size ?vs = 2")
    case False
    then show ?thesis using assms(1,2) et(1) none by simp
  next
    case True
    have lt: "0 < rg_size ?vs" "1 < rg_size ?vs" using True by auto
    show ?thesis
    proof (rule niche_variant_total [OF et(2) lt(1), of False no_niche])
      fix n1 f1 assume one: "niche_variant st ?vs 0 (no_niche, False) = Some (Inr (n1, f1))"
        "f1 \<longrightarrow> ni_payload n1 \<in> set held" "\<not> ni_has n1"
      show ?thesis
      proof (rule niche_variant_total [OF et(2) lt(2) one(2,3)])
        fix n2 f2 assume two: "niche_variant st ?vs 1 (n1, f1) = Some (Inr (n2, f2))"
          "f2 \<longrightarrow> ni_payload n2 \<in> set held" "\<not> ni_has n2"
        show ?thesis
          using niche_of_payload_total [of n2 st] two one assms et(1) True
          by (cases f2) auto
      qed (use one assms(1,2) et(1) True in auto)
    qed (use none assms(1,2) et(1) True in auto)
  qed
qed

lemma enum_layout_total:
  assumes "idx < length (st_types st)" "tn_tag (st_types st ! idx) = TyEnum"
    "held_types st (st_types st ! idx) = Some held" "\<forall>h \<in> set held. h < length (st_types st)"
    "\<forall>h \<in> set held. refs_in_range st (st_types st ! h)" "\<forall>h \<in> set held. \<exists>l. lay h = Some l"
    "held \<noteq> [] \<longrightarrow> (\<exists>l. lay (primitive_idx TyU8) = Some l)"
  shows "\<exists>L. enum_layout lay st idx = Some L"
proof -
  obtain et where et: "row (st_enum_types st) (tn_data (st_types st ! idx)) = Some et"
    "concat_rows (variant_fields st) (range_list (ety_variants et)) = Some held"
    using assms(2,3) by (auto simp: held_types_def split: bind_splits)
  obtain out where "payload_walk lay st (range_list (ety_variants et)) empty_layout = Some out"
    using payload_walk_total [OF et(2) assms(6)] by blast
  then obtain area where "enum_payload_area lay st idx = Some area"
    using assms(1) et(1) by (simp add: enum_payload_area_def)
  then show ?thesis
    using enum_niche_total [OF assms(1-5)] assms(6,7) by (auto simp: enum_layout_def Let_def)
qed

lemma node_layout_total:
  assumes "idx < length (st_types st)" "st_types st ! idx = node" "tn_tag node \<notin> {TyConst, TyParam}"
    "laid_types st node = Some held" "\<forall>h \<in> set held. h < length (st_types st)"
    "refs_in_range st node" "\<forall>h \<in> set held. refs_in_range st (st_types st ! h)" "\<forall>h \<in> set held. \<exists>l. lay h = Some l"
    "held \<noteq> [] \<longrightarrow> (\<exists>l. lay (primitive_idx TyU8) = Some l)"
  shows "\<exists>L. node_layout lay st width idx node = Some L"
proof -
  have enum: "tn_tag node = TyEnum \<Longrightarrow> \<exists>L. enum_layout lay st idx = Some L"
    using assms by (intro enum_layout_total) (auto simp: laid_types_def)
  show ?thesis
    using assms(3,4,6,8) enum
    by (cases "tn_tag node")
      (auto simp: node_layout_def laid_types_def held_types_def refs_in_range_def fields_layout_total Let_def)
qed

lemma type_layout_total:
  assumes ready: "layout_ready st rank S"
  shows "idx \<in> set S \<Longrightarrow> rank idx < fuel \<Longrightarrow> \<exists>L. type_layout_of fuel st width idx = Some L"
proof (induction fuel arbitrary: idx)
  case (Suc fuel)
  let ?node = "st_types st ! idx"
  have rk: "i < length (st_types st) \<and> ranked st rank S i" if "i \<in> set S" for i
    using ready that by (auto simp: layout_ready_def list_all_iff)
  obtain held where held: "laid_types st ?node = Some held"
    "\<forall>h \<in> set held. h \<in> set S \<and> rank h < rank idx" "tn_tag ?node \<notin> {TyConst, TyParam}"
    using rk [OF Suc.prems(1)] by (auto simp: ranked_def Let_def list_all_iff split: option.splits)
  have byte: "held \<noteq> [] \<longrightarrow> (\<exists>l. type_layout_of fuel st width (primitive_idx TyU8) = Some l)"
  proof
    assume "held \<noteq> []"
    then have "rank idx > 0" using held(2) by (cases held) auto
    then obtain f where "fuel = Suc f" using Suc.prems(2) by (cases fuel) auto
    then show "\<exists>l. type_layout_of fuel st width (primitive_idx TyU8) = Some l"
      using ready by (auto simp: layout_ready_def node_layout_def)
  qed
  have "\<forall>h \<in> set held. \<exists>l. type_layout_of fuel st width h = Some l"
    using Suc.IH held(2) Suc.prems(2) by fastforce
  then have "\<exists>L. node_layout (type_layout_of fuel st width) st width idx ?node = Some L"
    using rk [OF Suc.prems(1)] held byte rk
    by (intro node_layout_total) (auto simp: ranked_def Let_def)
  then show ?case using rk [OF Suc.prems(1)] by simp
qed simp


text \<open>A layout that has been found does not change when the walk may go deeper.\<close>

lemma layout_fields_mono:
  "(\<And>i l. lay i = Some l \<Longrightarrow> lay' i = Some l) \<Longrightarrow> layout_fields lay flds out = Some L
    \<Longrightarrow> layout_fields lay' flds out = Some L"
  by (induction flds arbitrary: out) (auto split: bind_splits)

lemma fields_layout_mono:
  assumes "\<And>i l. lay i = Some l \<Longrightarrow> lay' i = Some l" "fields_layout lay flds = Some L"
  shows "fields_layout lay' flds = Some L"
  using assms(2) layout_fields_mono [OF assms(1)] by (auto simp: fields_layout_def split: bind_splits if_splits)

lemma payload_walk_mono:
  assumes "\<And>i l. lay i = Some l \<Longrightarrow> lay' i = Some l"
  shows "payload_walk lay st vs out = Some L \<Longrightarrow> payload_walk lay' st vs out = Some L"
proof (induction vs arbitrary: out)
  case (Cons v vs)
  show ?case
  proof (cases "rg_size (ev_fields (st_enum_variant_types st ! v)) = 0")
    case True
    then show ?thesis using Cons by (auto simp: bind_eq_Some_conv)
  next
    case False
    obtain vl where vl: "fields_layout lay (ev_fields (st_enum_variant_types st ! v)) = Some vl"
      using Cons.prems False by (auto simp: bind_eq_Some_conv)
    have "fields_layout lay' (ev_fields (st_enum_variant_types st ! v)) = Some vl"
      by (rule fields_layout_mono [OF _ vl]) (rule assms)
    then show ?thesis using Cons vl False by (auto simp: bind_eq_Some_conv split del: if_split)
  qed
qed simp

lemma enum_payload_area_mono:
  assumes "\<And>i l. lay i = Some l \<Longrightarrow> lay' i = Some l" "enum_payload_area lay st idx = Some L"
  shows "enum_payload_area lay' st idx = Some L"
  using assms(2) payload_walk_mono [OF assms(1)]
  by (auto simp: enum_payload_area_def bind_eq_Some_conv)

lemma enum_layout_mono:
  assumes "\<And>i l. lay i = Some l \<Longrightarrow> lay' i = Some l" "enum_layout lay st idx = Some L"
  shows "enum_layout lay' st idx = Some L"
proof -
  obtain niche where n: "enum_niche_of st idx = Some niche"
    using assms(2) by (auto simp: enum_layout_def bind_eq_Some_conv)
  show ?thesis
  proof (cases "ni_has niche")
    case True
    then show ?thesis using assms n by (simp add: enum_layout_def)
  next
    case False
    then obtain area where "enum_payload_area lay st idx = Some area"
      using assms(2) n by (auto simp: enum_layout_def bind_eq_Some_conv)
    moreover from this have "enum_payload_area lay' st idx = Some area"
      using enum_payload_area_mono [of lay lay'] assms(1) by blast
    ultimately show ?thesis using assms(2) n False by (simp add: enum_layout_def)
  qed
qed

lemma node_layout_mono:
  assumes "\<And>i l. lay i = Some l \<Longrightarrow> lay' i = Some l" "node_layout lay st width idx node = Some L"
  shows "node_layout lay' st width idx node = Some L"
  using assms(2) fields_layout_mono [OF assms(1)] enum_layout_mono [OF assms(1)] assms(1)
  by (cases "tn_tag node") (auto simp: node_layout_def Let_def bind_eq_Some_conv split: if_splits)

lemma type_layout_Suc:
  "type_layout_of fuel st width idx = Some L \<Longrightarrow> type_layout_of (Suc fuel) st width idx = Some L"
proof (induction fuel arbitrary: idx L)
  case (Suc fuel)
  obtain node where node: "row (st_types st) idx = Some node"
    "node_layout (type_layout_of fuel st width) st width idx node = Some L"
    using Suc.prems by (auto split: bind_splits)
  have "node_layout (type_layout_of (Suc fuel) st width) st width idx node = Some L"
    by (rule node_layout_mono [OF _ node(2)]) (rule Suc.IH)
  then show ?case using node(1) by (subst type_layout_of.simps) (simp only: bind.bind_lunit)
qed simp

lemma type_layout_more_fuel:
  "type_layout_of fuel st width idx = Some L \<Longrightarrow> fuel \<le> fuel' \<Longrightarrow> type_layout_of fuel' st width idx = Some L"
  by (induction fuel') (auto simp only: le_Suc_eq le_zero_eq type_layout_Suc)

subsection \<open>Fuel does not decide\<close>

text \<open>The layout of a node asks only for the layouts of what its values hold, and of the byte type.\<close>

lemma layout_fields_local: "\<forall>f \<in> set flds. lay f = lay' f \<Longrightarrow> layout_fields lay flds out = layout_fields lay' flds out"
  by (induction flds arbitrary: out) (auto intro: Option.bind_cong)

lemma fields_layout_local: "\<forall>f \<in> set (range_list flds). lay f = lay' f \<Longrightarrow> fields_layout lay flds = fields_layout lay' flds"
  using layout_fields_local [of "range_list flds" lay lay' empty_layout] by (simp add: fields_layout_def)

lemma payload_walk_local:
  assumes "concat_rows (variant_fields st) vs = Some held" "\<forall>f \<in> set held. lay f = lay' f"
  shows "payload_walk lay st vs out = payload_walk lay' st vs out"
  using assms
proof (induction vs arbitrary: held out)
  case (Cons v vs)
  then obtain variant rest where v: "row (st_enum_variant_types st) v = Some variant"
    "concat_rows (variant_fields st) vs = Some rest" "held = range_list (ev_fields variant) @ rest"
    by (auto simp: variant_fields_Some split: bind_splits)
  have "fields_layout lay (ev_fields variant) = fields_layout lay' (ev_fields variant)"
    by (rule fields_layout_local) (use Cons.prems(2) v(3) in simp)
  then show ?case using Cons.IH [OF v(2)] Cons.prems(2) v by (auto intro: Option.bind_cong)
qed simp

lemma niche_variant_slot:
  assumes "concat_rows (variant_fields st) (range_list vs) = Some held" "i < rg_size vs"
    "found \<longrightarrow> ni_payload niche \<in> set held" "\<not> ni_has niche" "niche_variant st vs i (niche, found) = Some r"
  shows "case r of Inl early \<Rightarrow> \<not> ni_has early | Inr (n, f) \<Rightarrow> \<not> ni_has n \<and> (f \<longrightarrow> ni_payload n \<in> set held)"
  by (rule niche_variant_total [OF assms(1-4)]) (use assms(5) in auto)

lemma niche_of_payload_slot:
  "niche_of_payload st niche = Some n \<Longrightarrow> \<not> ni_has niche \<Longrightarrow> ni_has n \<Longrightarrow> ni_slot n \<in> {ni_payload niche, primitive_idx TyU8}"
  by (auto simp: niche_of_payload_def bind_eq_Some_conv split: if_splits)

lemma enum_niche_slot:
  assumes et: "row (st_types st) idx = Some node" "row (st_enum_types st) (tn_data node) = Some et"
      "concat_rows (variant_fields st) (range_list (ety_variants et)) = Some held"
    and n: "enum_niche_of st idx = Some niche" "ni_has niche"
  shows "ni_slot niche \<in> set held \<or> ni_slot niche = primitive_idx TyU8 \<and> held \<noteq> []"
proof -
  let ?vs = "ety_variants et"
  have none: "\<not> ni_has no_niche" by (simp add: no_niche_def)
  then have two: "rg_size ?vs = 2" "tn_tag node = TyEnum" using n et(1,2) by (auto simp: enum_niche_of_def split: if_splits)
  then obtain r0 where r0: "niche_variant st ?vs 0 (no_niche, False) = Some r0"
    using n et(1,2) by (auto simp: enum_niche_of_def bind_eq_Some_conv)
  note s0 = niche_variant_slot [OF et(3) _ _ none r0, unfolded two, simplified]
  obtain n1 f1 where r1: "r0 = Inr (n1, f1)" using n et(1,2) two r0 s0 by (cases r0) (auto simp: enum_niche_of_def)
  then obtain r2 where r2: "niche_variant st ?vs 1 (n1, f1) = Some r2"
    using n et(1,2) two r0 by (auto simp: enum_niche_of_def bind_eq_Some_conv)
  have p1: "\<not> ni_has n1" "f1 \<longrightarrow> ni_payload n1 \<in> set held" using s0 r1 by simp_all
  note s2 = niche_variant_slot [OF et(3) _ p1(2,1) r2, unfolded two, simplified]
  obtain n2 f2 where r3: "r2 = Inr (n2, f2)" using n et(1,2) two r0 r1 r2 s2 by (cases r2) (auto simp: enum_niche_of_def)
  have p2: "\<not> ni_has n2" "f2 \<longrightarrow> ni_payload n2 \<in> set held" using s2 r3 by simp_all
  have f2: "f2" "niche_of_payload st n2 = Some niche"
    using n et(1,2) two r0 r1 r2 r3 p2 by (auto simp: enum_niche_of_def split: if_splits)
  then show ?thesis using niche_of_payload_slot [OF f2(2) p2(1) n(2)] p2(2) by auto
qed

lemma node_layout_local:
  assumes node: "row (st_types st) idx = Some node" and held: "laid_types st node = Some held"
    and same: "\<forall>h \<in> set held. lay h = lay' h" "held \<noteq> [] \<longrightarrow> lay (primitive_idx TyU8) = lay' (primitive_idx TyU8)"
  shows "node_layout lay st width idx node = node_layout lay' st width idx node"
proof -
  have enum: "enum_layout lay st idx = enum_layout lay' st idx" if tag: "tn_tag node = TyEnum"
  proof -
    obtain et where et: "row (st_enum_types st) (tn_data node) = Some et"
      "concat_rows (variant_fields st) (range_list (ety_variants et)) = Some held"
      using held tag by (auto simp: laid_types_def held_types_def Let_def split: bind_splits)
    have "enum_payload_area lay st idx = enum_payload_area lay' st idx"
      using payload_walk_local [OF et(2) same(1)] node et(1) by (simp add: enum_payload_area_def)
    moreover have "ni_has n \<Longrightarrow> lay (ni_slot n) = lay' (ni_slot n)" if "enum_niche_of st idx = Some n" for n
      using enum_niche_slot [OF node et that] same by auto
    ultimately show ?thesis by (auto simp: enum_layout_def intro!: Option.bind_cong)
  qed
  show ?thesis
    using held same(1) enum fields_layout_local [of _ lay lay']
    by (cases "tn_tag node") (auto simp: node_layout_def laid_types_def held_types_def Let_def intro!: Option.bind_cong)
qed

text \<open>
  No type of the table holds itself by value.  The rows of the types that values hold exist, as they do in verified
  storage; parameters, compile-time values and references are allowed anywhere.
\<close>

definition values_end :: "storage_state \<Rightarrow> (nat \<Rightarrow> nat) \<Rightarrow> bool" where
  "values_end st rank \<longleftrightarrow>
     list_all (\<lambda>i. rank i < length (st_types st)
       \<and> (case laid_types st (st_types st ! i) of None \<Rightarrow> False | Some held \<Rightarrow> list_all (\<lambda>h. rank h < rank i) held))
       [0..<length (st_types st)]
     \<and> map_option tn_tag (row (st_types st) (primitive_idx TyU8)) = Some TyU8"

lemma layout_missing: "length (st_types st) \<le> idx \<Longrightarrow> type_layout_of fuel st width idx = None"
  by (cases fuel) (simp_all add: row_None_iff [THEN iffD2])

lemma byte_layout:
  "values_end st rank \<Longrightarrow> type_layout_of (Suc f) st width (primitive_idx TyU8) = Some \<lparr>ly_size = 1, ly_align = 1\<rparr>"
  by (auto simp: values_end_def node_layout_def)

text \<open>Then the walk comes to an end within the number of types, with an answer or without one.\<close>

lemma layout_settles:
  assumes v: "values_end st rank"
  shows "idx < length (st_types st) \<Longrightarrow> rank idx < f \<Longrightarrow> type_layout_of (f + k) st width idx = type_layout_of f st width idx"
proof (induction f arbitrary: idx)
  case (Suc f)
  let ?node = "st_types st ! idx"
  obtain held where held: "laid_types st ?node = Some held" "\<forall>h \<in> set held. rank h < rank idx"
  proof -
    have "case laid_types st ?node of None \<Rightarrow> False | Some held \<Rightarrow> list_all (\<lambda>h. rank h < rank idx) held"
      using v Suc.prems(1) by (simp add: values_end_def list_all_iff)
    then show thesis using that by (auto simp: list_all_iff split: option.splits)
  qed
  have "type_layout_of (f + k) st width h = type_layout_of f st width h" if "h \<in> set held" for h
    using Suc.IH [of h] held(2) that Suc.prems(2) layout_missing [of st h] by (cases "h < length (st_types st)") fastforce+
  moreover have "type_layout_of (f + k) st width (primitive_idx TyU8) = type_layout_of f st width (primitive_idx TyU8)" if "held \<noteq> []"
  proof -
    have "0 < rank idx" using held(2) that by (cases held) auto
    then obtain g where g: "f = Suc g" using Suc.prems(2) by (cases f) auto
    then show ?thesis using byte_layout [OF v, of g width] byte_layout [OF v, of "g + k" width] by simp
  qed
  ultimately have "node_layout (type_layout_of (f + k) st width) st width idx ?node = node_layout (type_layout_of f st width) st width idx ?node"
    using Suc.prems(1) held(1) by (intro node_layout_local) auto
  then show ?case using Suc.prems(1) by simp
qed simp

lemma layout_fuel_enough:
  assumes "values_end st rank"
  shows "type_layout_of (length (st_types st) + k) st width idx = type_layout_of (length (st_types st)) st width idx"
proof (cases "idx < length (st_types st)")
  case True
  then have "rank idx < length (st_types st)" using assms by (auto simp: values_end_def list_all_iff)
  then show ?thesis by (rule layout_settles [OF assms True])
qed (simp add: layout_missing)



subsection \<open>A table\<close>

text \<open>
  The primitive types, then a struct of a byte, a word and a double word, then an optional reference to
  the struct, whose discriminant lives in the reference.
\<close>

definition sample_table :: storage_state where
  "sample_table = empty_state
     \<lparr>st_types := map plain_node (take 18 ALL_TAGS) @ [plain_node TyFunction,
        plain_node TyU8, plain_node TyI32, plain_node TyU64, \<lparr>tn_tag = TyStruct, tn_data = 0\<rparr>,
        \<lparr>tn_tag = TyRef, tn_data = 0\<rparr>, \<lparr>tn_tag = TyEnum, tn_data = 0\<rparr>],
      st_struct_types := [\<lparr>sty_name = 0, sty_fields = \<lparr>rg_head = 19, rg_size = 3\<rparr>, sty_params = no_range\<rparr>],
      st_ref_types := [\<lparr>rty_pointee = 22\<rparr>],
      st_enum_types := [\<lparr>ety_name = 0, ety_variants = \<lparr>rg_head = 0, rg_size = 2\<rparr>, ety_params = no_range\<rparr>],
      st_enum_variant_types := [\<lparr>ev_name = 0, ev_fields = no_range\<rparr>, \<lparr>ev_name = 0, ev_fields = \<lparr>rg_head = 23, rg_size = 1\<rparr>\<rparr>]\<rparr>"

definition sample_rank :: "nat \<Rightarrow> nat" where
  "sample_rank i = (if i \<in> {22, 24} then 1 else 0)"


lemma sample_types: "st_types sample_table = map plain_node
    [TyVoid, TyI1, TyI8, TyI16, TyI32, TyI64, TyU8, TyU16, TyU32, TyU64, TyF32, TyF64, TyStr, TyPtr, TyRef,
     TyMutRef, TyRawPtr, TyRawMutPtr, TyFunction, TyU8, TyI32, TyU64]
    @ [\<lparr>tn_tag = TyStruct, tn_data = 0\<rparr>, \<lparr>tn_tag = TyRef, tn_data = 0\<rparr>, \<lparr>tn_tag = TyEnum, tn_data = 0\<rparr>]"
  by (simp add: sample_table_def ALL_TAGS_def)

lemma sample_tables:
  "st_struct_types sample_table = [\<lparr>sty_name = 0, sty_fields = \<lparr>rg_head = 19, rg_size = 3\<rparr>, sty_params = no_range\<rparr>]"
  "st_ref_types sample_table = [\<lparr>rty_pointee = 22\<rparr>]"
  "st_enum_types sample_table = [\<lparr>ety_name = 0, ety_variants = \<lparr>rg_head = 0, rg_size = 2\<rparr>, ety_params = no_range\<rparr>]"
  "st_enum_variant_types sample_table =
     [\<lparr>ev_name = 0, ev_fields = no_range\<rparr>, \<lparr>ev_name = 0, ev_fields = \<lparr>rg_head = 23, rg_size = 1\<rparr>\<rparr>]"
  by (simp_all add: sample_table_def)

lemma sample_ready: "layout_ready sample_table sample_rank [24, 23, 6]"
  by (simp add: layout_ready_def ranked_def sample_types sample_tables refs_in_range_def laid_types_def held_types_def
      variant_fields_def plain_node_def range_list_def row_def sample_rank_def no_range_def primitive_idx_def upt_rec)


lemma sample_fields: "map (type_layout_of 1 sample_table W64) (range_list \<lparr>rg_head = 19, rg_size = 3\<rparr>) =
    map Some [\<lparr>ly_size = 1, ly_align = 1\<rparr>, \<lparr>ly_size = 4, ly_align = 4\<rparr>, \<lparr>ly_size = 8, ly_align = 8\<rparr>]"
  by (simp add: range_list_def upt_rec sample_types node_layout_def plain_node_def row_def)

theorem fields_laid_out_witness:
  "\<exists>L. fields_layout (type_layout_of 1 sample_table W64) \<lparr>rg_head = 19, rg_size = 3\<rparr> = Some L
    \<and> field_placed (type_layout_of 1 sample_table W64) \<lparr>rg_head = 19, rg_size = 3\<rparr>
        [\<lparr>ly_size = 1, ly_align = 1\<rparr>, \<lparr>ly_size = 4, ly_align = 4\<rparr>, \<lparr>ly_size = 8, ly_align = 8\<rparr>] L 2"
proof -
  have fits: "room [\<lparr>ly_size = 1, ly_align = 1\<rparr>, \<lparr>ly_size = 4, ly_align = 4\<rparr>, \<lparr>ly_size = 8, ly_align = 8\<rparr>] + 8 < 2 ^ 64"
    by simp
  have "(2 :: nat) < rg_size \<lparr>rg_head = 19, rg_size = 3\<rparr>" by simp
  then show ?thesis using fields_laid_out [OF sample_fields fits] by blast
qed

end
