(* ===== verification/Comp_Value.thy ===== *)
theory Comp_Value
  imports Ir_Layout
begin

text \<open>
  \<^verbatim>\<open>src/src/comp/comp_value.cc\<close>: the integer semantics that the compile-time evaluators, the overflow overlay
  and the literal checks share, and the reading of numeric literals; with the checker's view of a
  literal from \<^verbatim>\<open>src/src/analyzer/types_literal.cc\<close>.
\<close>

subsection \<open>Widths\<close>

definition is_signed :: "type_tag \<Rightarrow> bool" where
  "is_signed tag \<longleftrightarrow> tag = TyI8 \<or> tag = TyI16 \<or> tag = TyI32 \<or> tag = TyI64"

definition int_bytes :: "type_tag \<Rightarrow> nat" where
  "int_bytes tag =
     (if tag = TyI8 \<or> tag = TyU8 then 1
      else if tag = TyI16 \<or> tag = TyU16 then 2
      else if tag = TyI32 \<or> tag = TyU32 then 4
      else 8)"

definition comp_mask :: "type_tag \<Rightarrow> u64" where
  "comp_mask tag =
     (let bytes = int_bytes tag in if bytes \<ge> 8 then NOT 0 else push_bit (bytes * 8) 1 - 1)"

text \<open>An \<^verbatim>\<open>i64\<close> is a word read by \<^term>\<open>sint\<close>.\<close>

definition comp_sign_extend :: "u64 \<Rightarrow> type_tag \<Rightarrow> 64 word" where
  "comp_sign_extend bits tag =
     (let bytes = int_bytes tag in
      if bytes \<ge> 8 then bits
      else
        let sign_mask = comp_mask tag; sign = push_bit (bytes * 8 - 1) 1; b = bits AND sign_mask in
        if b AND sign \<noteq> 0 then b OR NOT sign_mask else b)"

definition fits_signed :: "64 word \<Rightarrow> nat \<Rightarrow> bool" where
  "fits_signed v bytes \<longleftrightarrow>
     (if bytes \<ge> 8 then True
      else let limit = 2 ^ (bytes * 8 - 1) :: int in sint v \<ge> - limit \<and> sint v < limit)"

text \<open>
  The overflow builtins compute in unbounded integers, say whether the result is representable and
  store it wrapped.
\<close>

definition builtin_i64 :: "int \<Rightarrow> bool \<times> 64 word" where
  "builtin_i64 r = (r < - (2 ^ 63) \<or> r \<ge> 2 ^ 63, word_of_int r)"

definition builtin_u64 :: "int \<Rightarrow> bool \<times> u64" where
  "builtin_u64 r = (r < 0 \<or> r \<ge> 2 ^ 64, word_of_int r)"

definition add_overflows :: "u64 \<Rightarrow> u64 \<Rightarrow> type_tag \<Rightarrow> bool" where
  "add_overflows left right tag =
     (if is_signed tag then
        (case builtin_i64 (sint (comp_sign_extend left tag) + sint (comp_sign_extend right tag)) of
           (over, result) \<Rightarrow> if over then True else \<not> fits_signed result (int_bytes tag))
      else
        (case builtin_u64 (uint left + uint right) of
           (over, result) \<Rightarrow> if over then True else result > comp_mask tag))"

definition sub_overflows :: "u64 \<Rightarrow> u64 \<Rightarrow> type_tag \<Rightarrow> bool" where
  "sub_overflows left right tag =
     (if is_signed tag then
        (case builtin_i64 (sint (comp_sign_extend left tag) - sint (comp_sign_extend right tag)) of
           (over, result) \<Rightarrow> if over then True else \<not> fits_signed result (int_bytes tag))
      else left < right)"

definition mul_overflows :: "u64 \<Rightarrow> u64 \<Rightarrow> type_tag \<Rightarrow> bool" where
  "mul_overflows left right tag =
     (if is_signed tag then
        (case builtin_i64 (sint (comp_sign_extend left tag) * sint (comp_sign_extend right tag)) of
           (over, result) \<Rightarrow> if over then True else \<not> fits_signed result (int_bytes tag))
      else
        (case builtin_u64 (uint left * uint right) of
           (over, result) \<Rightarrow> if over then True else result > comp_mask tag))"

subsection \<open>Numeric literals\<close>

definition SUFFIXES :: "string list" where
  "SUFFIXES = [''isize'', ''usize'', ''i8'', ''i16'', ''i32'', ''i64'', ''u8'', ''u16'', ''u32'', ''u64'', ''f32'', ''f64'']"

definition ends_with :: "bytes \<Rightarrow> bytes \<Rightarrow> bool" where
  "ends_with s t \<longleftrightarrow> length t \<le> length s \<and> drop (length s - length t) s = t"

definition carries :: "bytes \<Rightarrow> bytes \<Rightarrow> bool" where
  "carries spelling suffix \<longleftrightarrow> length spelling > length suffix \<and> ends_with spelling suffix"

definition has_type_suffix :: "bytes \<Rightarrow> bool" where
  "has_type_suffix spelling \<longleftrightarrow> list_ex (carries spelling) SUFFIXES"

definition strip_suffix :: "bytes \<Rightarrow> bytes" where
  "strip_suffix spelling =
     (case List.find (carries spelling) SUFFIXES of
        None \<Rightarrow> spelling
      | Some suffix \<Rightarrow> take (length spelling - length suffix) spelling)"

definition strip_prefix :: "bytes \<Rightarrow> nat \<times> bytes" where
  "strip_prefix s =
     (if length s > 2 \<and> s ! 0 = CHR ''0'' then
        let p = s ! 1 in
        if p = CHR ''x'' \<or> p = CHR ''X'' then (16, drop 2 s)
        else if p = CHR ''b'' \<or> p = CHR ''B'' then (2, drop 2 s)
        else if p = CHR ''o'' \<or> p = CHR ''O'' then (8, drop 2 s)
        else (10, s)
      else (10, s))"

definition digit_of :: "char \<Rightarrow> nat option" where
  "digit_of ch =
     (let n = of_char ch :: nat in
      if 48 \<le> n \<and> n \<le> 57 then Some (n - 48)
      else if 97 \<le> n \<and> n \<le> 102 then Some (n - 97 + 10)
      else if 65 \<le> n \<and> n \<le> 70 then Some (n - 65 + 10)
      else None)"

fun numeric_loop :: "nat \<Rightarrow> bytes \<Rightarrow> u64 \<times> bool \<Rightarrow> u64 \<times> bool" where
  "numeric_loop b [] st = st"
| "numeric_loop b (ch # cs) (v, overflow) =
     (if ch = CHR ''_'' then numeric_loop b cs (v, overflow)
      else case digit_of ch of
        None \<Rightarrow> numeric_loop b cs (v, overflow)
      | Some digit \<Rightarrow>
          numeric_loop b cs
            (v * of_nat b + of_nat digit, overflow \<or> v > (0xFFFFFFFFFFFFFFFF - of_nat digit) div of_nat b))"

definition parse_numeric_value :: "bytes \<Rightarrow> u64 \<times> bool" where
  "parse_numeric_value spelling =
     (case strip_prefix (strip_suffix spelling) of (b, digits) \<Rightarrow> numeric_loop b digits (0, False))"

text \<open>The checker's reading of a literal: where its digits end, and the suffix behind them.\<close>

definition literal_base :: "bytes \<Rightarrow> nat \<times> nat" where
  "literal_base s =
     (if length s > 2 \<and> s ! 0 = CHR ''0'' then
        let p = s ! 1 in
        if p = CHR ''x'' \<or> p = CHR ''X'' then (2, 16)
        else if p = CHR ''b'' \<or> p = CHR ''B'' then (2, 2)
        else if p = CHR ''o'' \<or> p = CHR ''O'' then (2, 8)
        else (0, 10)
      else (0, 10))"

definition literal_in_base :: "nat \<Rightarrow> char \<Rightarrow> bool" where
  "literal_in_base b c =
     (let n = of_char c :: nat in
      if 48 \<le> n \<and> n \<le> 57 then n - 48 < b
      else if b = 16 then (97 \<le> n \<and> n \<le> 102) \<or> (65 \<le> n \<and> n \<le> 70)
      else False)"

text \<open>What is left of the spelling once the digits are read; an exponent counts when a digit follows its sign.\<close>

definition skip_sign :: "bytes \<Rightarrow> bytes" where
  "skip_sign cs = (case cs of c # ds \<Rightarrow> if c = CHR ''+'' \<or> c = CHR ''-'' then ds else cs | [] \<Rightarrow> [])"

lemma skip_sign_shorter: "length (skip_sign cs) \<le> length cs"
  by (simp add: skip_sign_def split: list.split)

function digit_end :: "nat \<Rightarrow> bytes \<Rightarrow> bytes" where
  "digit_end b [] = []"
| "digit_end b (c # cs) =
     (if c = CHR ''_'' \<or> literal_in_base b c then digit_end b cs
      else if b \<noteq> 10 then c # cs
      else if c = CHR ''.'' then digit_end b cs
      else if c = CHR ''e'' \<or> c = CHR ''E'' then
        (case skip_sign cs of
           [] \<Rightarrow> c # cs
         | d # ds \<Rightarrow> if of_char d < (48 :: nat) \<or> of_char d > (57 :: nat) then c # cs else digit_end b (d # ds))
      else c # cs)"
  by pat_completeness auto
termination
proof (relation "measure (\<lambda>(b, cs). length cs)", goal_cases)
  case (4 b c cs d ds)
  then show ?case using skip_sign_shorter [of cs] by simp
qed auto

text \<open>The result: the tag the suffix names and whether it is a float, with \<^term>\<open>TyError\<close> for a suffix that names no type.\<close>

definition suffix_tags :: "pointer_width \<Rightarrow> (string \<times> type_tag \<times> bool) list" where
  "suffix_tags width =
     [(''isize'', if width = W64 then TyI64 else TyI32, False), (''usize'', if width = W64 then TyU64 else TyU32, False),
      (''i8'', TyI8, False), (''i16'', TyI16, False), (''i32'', TyI32, False), (''i64'', TyI64, False),
      (''u8'', TyU8, False), (''u16'', TyU16, False), (''u32'', TyU32, False), (''u64'', TyU64, False),
      (''f32'', TyF32, True), (''f64'', TyF64, True)]"

definition classify_suffix :: "pointer_width \<Rightarrow> bytes \<Rightarrow> (type_tag \<times> bool option) option" where
  "classify_suffix width spelling =
     (case literal_base spelling of (body, b) \<Rightarrow>
        let suffix = digit_end b (drop body spelling) in
        if suffix = [] then None
        else case map_of (suffix_tags width) suffix of
          Some (tag, is_float) \<Rightarrow> Some (tag, Some is_float)
        | None \<Rightarrow> Some (TyError, None))"

definition int_literal_fits :: "bytes \<Rightarrow> type_tag \<Rightarrow> bool \<Rightarrow> bool" where
  "int_literal_fits spelling tag negative =
     (case parse_numeric_value spelling of (magnitude, overflow) \<Rightarrow>
        if overflow then False
        else if tag = TyU8 then magnitude \<le> (if negative then 0 else 0xFF)
        else if tag = TyU16 then magnitude \<le> (if negative then 0 else 0xFFFF)
        else if tag = TyU32 then magnitude \<le> (if negative then 0 else 0xFFFFFFFF)
        else if tag = TyU64 then \<not> negative \<or> magnitude = 0
        else if tag = TyI8 then magnitude \<le> (if negative then 0x80 else 0x7F)
        else if tag = TyI16 then magnitude \<le> (if negative then 0x8000 else 0x7FFF)
        else if tag = TyI32 then magnitude \<le> (if negative then 0x80000000 else 0x7FFFFFFF)
        else if tag = TyI64 then magnitude \<le> (if negative then 0x8000000000000000 else 0x7FFFFFFFFFFFFFFF)
        else True)"


subsection \<open>Values and scopes\<close>

datatype comp_tag = CtVoid | CtInt | CtBool | CtStr | CtTuple | CtArray | CtStruct | CtEnum

datatype comp_value =
  CompValue (cv_tag: comp_tag) (cv_int: u64) (cv_bool: bool) (cv_str: bytes) (cv_fields: "comp_value list") (cv_variant: u32)

record comp_val =
  cl_value :: comp_value
  cl_type :: "nat option"

datatype comp_flow_kind = FlowValue | FlowBreak | FlowContinue | FlowReturn

record comp_flow =
  fw_kind :: comp_flow_kind
  fw_value :: comp_val

definition truth :: "comp_val \<Rightarrow> bool" where
  "truth v = (if cv_tag (cl_value v) = CtBool then cv_bool (cl_value v) else cv_int (cl_value v) \<noteq> 0)"

type_synonym bindings = "(bytes \<times> comp_val) list"

record comp_scope =
  sc_outer :: "bindings option"
  sc_frames :: "bindings list"

text \<open>The last binding of a name in a frame, the last frame that has one, and then the outer bindings.\<close>

primrec lookup_frames :: "bindings list \<Rightarrow> bytes \<Rightarrow> comp_val option" where
  "lookup_frames [] name = None"
| "lookup_frames (f # fs) name =
     (case List.find (\<lambda>b. fst b = name) (rev f) of
        Some b \<Rightarrow> Some (snd b)
      | None \<Rightarrow> lookup_frames fs name)"

definition comp_lookup :: "comp_scope \<Rightarrow> bytes \<Rightarrow> comp_val option" where
  "comp_lookup scope name =
     (case lookup_frames (rev (sc_frames scope)) name of
        Some v \<Rightarrow> Some v
      | None \<Rightarrow> (case sc_outer scope of
            None \<Rightarrow> None
          | Some outer \<Rightarrow> map_option snd (List.find (\<lambda>b. fst b = name) (rev outer))))"

text \<open>A scope is a stack of bindings: the lookup is the one of their concatenation.\<close>

lemma find_binding: "map_option snd (List.find (\<lambda>b. fst b = name) bs) = map_of bs name"
  by (induction bs) auto

lemma lookup_frames_concat: "lookup_frames fs name = map_of (concat (map rev fs)) name"
proof (induction fs)
  case (Cons f fs)
  then show ?case using find_binding [of name "rev f"]
    by (cases "List.find (\<lambda>b. fst b = name) (rev f)") (auto simp: map_add_def split: option.split)
qed simp

lemma comp_lookup_stack:
  "comp_lookup scope name =
    map_of (rev ((case sc_outer scope of None \<Rightarrow> [] | Some outer \<Rightarrow> outer) @ concat (sc_frames scope))) name"
  by (auto simp: comp_lookup_def lookup_frames_concat find_binding rev_concat rev_map map_add_def split: option.split)

subsection \<open>The integer a word stands for\<close>

definition width :: "type_tag \<Rightarrow> nat" where
  "width tag = (if tag = TyI1 then 1 else int_bytes tag * 8)"

definition tag_value :: "type_tag \<Rightarrow> u64 \<Rightarrow> int" where
  "tag_value tag bits =
     (if is_signed tag then signed_take_bit (width tag - 1) (uint bits) else take_bit (width tag) (uint bits))"

definition in_range :: "type_tag \<Rightarrow> int \<Rightarrow> bool" where
  "in_range tag v \<longleftrightarrow>
     (if is_signed tag then - (2 ^ (width tag - 1)) \<le> v \<and> v < 2 ^ (width tag - 1) else 0 \<le> v \<and> v < 2 ^ width tag)"

lemma width_cases: "width tag \<in> {1, 8, 16, 32, 64}"
  by (simp add: width_def int_bytes_def)

lemma int_bytes_cases: "int_bytes tag \<in> {1, 2, 4, 8}"
  by (simp add: int_bytes_def)

lemma low_mask: "n < 64 \<Longrightarrow> (push_bit n 1 - 1 :: u64) = mask n"
  by (simp add: mask_eq_exp_minus_1 push_bit_eq_mult)

lemma push_one_and: "(b AND push_bit n 1 \<noteq> 0) \<longleftrightarrow> bit b n" if "n < 64" for b :: u64
  using that by (simp add: and_exp_eq_0_iff_not_bit push_bit_eq_mult)

lemma sint_signed_take_bit: "n < 64 \<Longrightarrow> sint (signed_take_bit n v) = signed_take_bit n (uint v)" for v :: u64
proof -
  assume n: "n < 64"
  have "signed_take_bit 63 (signed_take_bit n k) = signed_take_bit n k" for k :: int
    using n by (cases "n = 63") (simp_all add: min_def)
  then show ?thesis by transfer simp
qed

lemma extend_sign:
  assumes "0 < n" "n < 64"
  shows "(if bit (v AND mask n) (n - 1) then (v AND mask n) OR NOT (mask n) else v AND mask n) = signed_take_bit (n - 1) (v :: u64)"
proof -
  obtain m where m: "n = Suc m" using assms(1) by (cases n) auto
  show ?thesis using assms unfolding m by (intro bit_eqI) (auto simp: bit_simps min_def le_less_Suc_eq less_Suc_eq_le)
qed

lemma comp_sign_extend_word: "int_bytes tag < 8 \<Longrightarrow> comp_sign_extend v tag = signed_take_bit (int_bytes tag * 8 - 1) v"
proof -
  assume small: "int_bytes tag < 8"
  define n where "n = int_bytes tag * 8"
  have n: "0 < n" "n < 64" using small int_bytes_cases [of tag] by (auto simp: n_def)
  have "comp_mask tag = mask n" using small low_mask [OF n(2)] by (simp add: comp_mask_def Let_def n_def)
  then have "comp_sign_extend v tag =
      (if bit (v AND mask n) (n - 1) then (v AND mask n) OR NOT (mask n) else v AND mask n)"
    using small n push_one_and [of "n - 1" "v AND mask n"] by (simp add: comp_sign_extend_def Let_def flip: n_def)
  then show ?thesis by (simp only: extend_sign [OF n]) (simp add: n_def)
qed

lemma sint_sign_extend: "sint (comp_sign_extend v tag) = signed_take_bit (int_bytes tag * 8 - 1) (uint v)"
proof (cases "int_bytes tag < 8")
  case True
  then show ?thesis by (simp add: comp_sign_extend_word sint_signed_take_bit)
next
  case False
  then have "int_bytes tag = 8" using int_bytes_cases [of tag] by auto
  then show ?thesis by (simp add: comp_sign_extend_def sint_uint)
qed


subsection \<open>Overflow\<close>

lemma signed_range:
  "0 < n \<Longrightarrow> - (2 ^ (n - 1)) \<le> signed_take_bit (n - 1) k \<and> signed_take_bit (n - 1) k < (2 :: int) ^ (n - 1)"
  by (simp add: signed_take_bit_int_greater_eq_minus_exp signed_take_bit_int_less_exp)

lemma builtin_signed:
  assumes "is_signed tag"
  shows "(case builtin_i64 r of (over, result) \<Rightarrow> if over then True else \<not> fits_signed result (int_bytes tag))
    \<longleftrightarrow> \<not> in_range tag r"
proof (cases "r < - (2 ^ 63) \<or> r \<ge> 2 ^ 63")
  case True
  then show ?thesis using assms by (auto simp: builtin_i64_def in_range_def width_def is_signed_def int_bytes_def)
next
  case False
  then have "sint (word_of_int r :: 64 word) = r" by (simp add: signed_of_int signed_take_bit_int_eq_self)
  then show ?thesis using False assms
    by (auto simp: builtin_i64_def in_range_def width_def is_signed_def int_bytes_def fits_signed_def)
qed

lemma uint_minus_one: "uint (- 1 :: u64) = 2 ^ 64 - 1"
  by (simp add: uint_word_ariths)

lemma builtin_unsigned:
  assumes "\<not> is_signed tag" "0 \<le> r" "is_integer_type tag" "tag \<noteq> TyI1"
  shows "(case builtin_u64 r of (over, result) \<Rightarrow> if over then True else result > comp_mask tag)
    \<longleftrightarrow> \<not> in_range tag r"
proof (cases "r \<ge> 2 ^ 64")
  case True
  then show ?thesis using assms
    by (auto simp: builtin_u64_def in_range_def width_def is_integer_type_def is_signed_def int_bytes_def)
next
  case False
  then have r: "uint (word_of_int r :: u64) = r" using assms(2) by (simp add: unsigned_of_int take_bit_int_eq_self)
  then show ?thesis using False assms
    by (auto simp: builtin_u64_def in_range_def width_def is_integer_type_def is_signed_def int_bytes_def
        comp_mask_def word_less_def uint_minus_one)
qed

lemma masked_value:
  assumes "\<not> is_signed tag" "bits \<le> comp_mask tag" "is_integer_type tag" "tag \<noteq> TyI1"
  shows "tag_value tag bits = uint bits"
  using assms uint_lt2p [of bits]
  by (auto simp: tag_value_def is_integer_type_def is_signed_def width_def int_bytes_def comp_mask_def word_le_def
      intro!: take_bit_int_eq_self)

lemma extended_value: "is_signed tag \<Longrightarrow> sint (comp_sign_extend bits tag) = tag_value tag bits"
  by (auto simp: sint_sign_extend tag_value_def width_def is_signed_def)

lemma overflow_unmasked:
  assumes "is_integer_type tag" "tag \<noteq> TyI1" "is_signed tag \<or> left \<le> comp_mask tag \<and> right \<le> comp_mask tag"
  shows "add_overflows left right tag \<longleftrightarrow> \<not> in_range tag (tag_value tag left + tag_value tag right)"
    and "sub_overflows left right tag \<longleftrightarrow> \<not> in_range tag (tag_value tag left - tag_value tag right)"
    and "mul_overflows left right tag \<longleftrightarrow> \<not> in_range tag (tag_value tag left * tag_value tag right)"
proof -
  show "add_overflows left right tag \<longleftrightarrow> \<not> in_range tag (tag_value tag left + tag_value tag right)"
    using assms builtin_signed [of tag] builtin_unsigned [of tag]
    by (cases "is_signed tag") (simp_all add: add_overflows_def extended_value masked_value)
  show "mul_overflows left right tag \<longleftrightarrow> \<not> in_range tag (tag_value tag left * tag_value tag right)"
    using assms builtin_signed [of tag] builtin_unsigned [of tag]
    by (cases "is_signed tag") (simp_all add: mul_overflows_def extended_value masked_value)
  show "sub_overflows left right tag \<longleftrightarrow> \<not> in_range tag (tag_value tag left - tag_value tag right)"
  proof (cases "is_signed tag")
    case True
    then show ?thesis using builtin_signed [of tag] by (simp add: sub_overflows_def extended_value)
  next
    case False
    then have m: "tag_value tag left = uint left" "tag_value tag right = uint right" using assms by (simp_all add: masked_value)
    have "tag_value tag left < 2 ^ width tag" using False by (simp add: tag_value_def)
    then have "uint left - uint right < 2 ^ width tag" unfolding m using uint_ge_0 [of right] by linarith
    then show ?thesis using False m by (auto simp: sub_overflows_def in_range_def word_less_def)
  qed
qed


subsection \<open>Literals\<close>

text \<open>The digits of a spelling and the number they are in a base.\<close>

definition digits_of :: "bytes \<Rightarrow> nat list" where
  "digits_of cs = List.map_filter digit_of (filter (\<lambda>c. c \<noteq> CHR ''_'') cs)"

definition base_value :: "nat \<Rightarrow> nat \<Rightarrow> nat list \<Rightarrow> nat" where
  "base_value b v ds = foldl (\<lambda>v d. v * b + d) v ds"

lemma base_value_ge: "0 < b \<Longrightarrow> v \<le> base_value b v ds"
proof (induction ds arbitrary: v)
  case (Cons d ds)
  have "v \<le> v * b + d" using Cons.prems by (simp add: trans_le_add1)
  also have "\<dots> \<le> base_value b (v * b + d) ds" using Cons by blast
  finally show ?case by (simp add: base_value_def)
qed (simp add: base_value_def)

lemma overflow_test:
  assumes "v < 2 ^ 64" "0 < b" "b < 256" "d < 16"
  shows "(of_nat v :: u64) > (0xFFFFFFFFFFFFFFFF - of_nat d) div of_nat b \<longleftrightarrow> 2 ^ 64 \<le> v * b + d"
proof -
  have d: "unat (0xFFFFFFFFFFFFFFFF - of_nat d :: u64) = 0xFFFFFFFFFFFFFFFF - d"
    using assms(4) by (subst unat_sub) (simp_all add: word_le_nat_alt unat_of_nat)
  have "unat ((0xFFFFFFFFFFFFFFFF - of_nat d) div of_nat b :: u64) = (0xFFFFFFFFFFFFFFFF - d) div b"
    using assms(3) by (simp add: unat_div_distrib d unat_of_nat)
  moreover have "(0xFFFFFFFFFFFFFFFF - d) div b < v \<longleftrightarrow> 0xFFFFFFFFFFFFFFFF - d < v * b"
    using assms(2) by (simp add: div_less_iff_less_mult)
  ultimately show ?thesis using assms(1,4) by (auto simp: word_less_nat_alt unat_of_nat)
qed

lemma digit_of_less: "digit_of c = Some d \<Longrightarrow> d < 16"
  by (auto simp: digit_of_def Let_def split: if_splits)

lemma numeric_loop_wraps:
  "numeric_loop b cs (of_nat v, True) = (of_nat (base_value b v (digits_of cs)), True)"
proof (induction cs arbitrary: v)
  case Nil
  then show ?case by (simp add: digits_of_def base_value_def map_filter_simps)
next
  case (Cons c cs)
  show ?case
  proof (cases "c = CHR ''_'' \<or> digit_of c = None")
    case True
    then show ?thesis using Cons by (auto simp: digits_of_def map_filter_simps)
  next
    case False
    then obtain d where "digit_of c = Some d" by auto
    then show ?thesis using False Cons [of "v * b + d"] by (simp add: digits_of_def map_filter_simps base_value_def)
  qed
qed

lemma numeric_loop_exact:
  assumes "0 < b" "b < 256"
  shows "v < 2 ^ 64 \<Longrightarrow> numeric_loop b cs (of_nat v, False) =
    (of_nat (base_value b v (digits_of cs)), 2 ^ 64 \<le> base_value b v (digits_of cs))"
proof (induction cs arbitrary: v)
  case Nil
  then show ?case by (simp add: digits_of_def base_value_def map_filter_simps)
next
  case (Cons c cs)
  show ?case
  proof (cases "c = CHR ''_'' \<or> digit_of c = None")
    case True
    then show ?thesis using Cons by (auto simp: digits_of_def map_filter_simps)
  next
    case False
    then obtain d where d: "digit_of c = Some d" by auto
    let ?w = "v * b + d"
    have ds: "base_value b v (digits_of (c # cs)) = base_value b ?w (digits_of cs)"
      using False d by (simp add: digits_of_def map_filter_simps base_value_def)
    have step: "numeric_loop b (c # cs) (of_nat v, False) = numeric_loop b cs (of_nat ?w, 2 ^ 64 \<le> ?w)"
      using False d overflow_test [OF Cons.prems assms digit_of_less [OF d]] by simp
    show ?thesis
    proof (cases "2 ^ 64 \<le> ?w")
      case True
      then have "2 ^ 64 \<le> base_value b ?w (digits_of cs)" using base_value_ge [of b ?w "digits_of cs"] assms(1) by linarith
      then show ?thesis using True step ds numeric_loop_wraps [of b cs ?w] by (simp only: simp_thms)
    next
      case False
      then show ?thesis using Cons.IH [of ?w] step ds by simp
    qed
  qed
qed

subsection \<open>Properties\<close>

text \<open>
  C23. The overflow predicates of the compile-time arithmetic are exact: for every integer type of the
  language and operands of that type, each says yes exactly when the mathematical sum, difference or
  product is outside the range of the type.
\<close>

theorem overflow_exact:
  assumes "is_integer_type tag" "tag \<noteq> TyI1" "is_signed tag \<or> left \<le> comp_mask tag \<and> right \<le> comp_mask tag"
  shows "(add_overflows left right tag \<longleftrightarrow> \<not> in_range tag (tag_value tag left + tag_value tag right)) \<and>
    (sub_overflows left right tag \<longleftrightarrow> \<not> in_range tag (tag_value tag left - tag_value tag right)) \<and>
    (mul_overflows left right tag \<longleftrightarrow> \<not> in_range tag (tag_value tag left * tag_value tag right))"
  using overflow_unmasked [OF assms] by blast

theorem overflow_exact_witness:
  "(add_overflows 0x7F 1 TyI8 \<longleftrightarrow> \<not> in_range TyI8 (tag_value TyI8 0x7F + tag_value TyI8 1)) \<and>
   (mul_overflows 0x80 0xFF TyU8 \<longleftrightarrow> \<not> in_range TyU8 (tag_value TyU8 0x80 * tag_value TyU8 0xFF)) \<and>
   mul_overflows 0x80 0xFF TyU8"
proof -
  have "is_integer_type TyI8" "is_signed TyI8" "is_integer_type TyU8" by (simp_all add: is_integer_type_def is_signed_def)
  moreover have "(0x80 :: u64) \<le> comp_mask TyU8 \<and> 0xFF \<le> comp_mask TyU8" by (simp add: comp_mask_def int_bytes_def)
  moreover have "mul_overflows 0x80 0xFF TyU8" by code_simp
  ultimately show ?thesis using overflow_exact [of TyI8 "0x7F" 1] overflow_exact [of TyU8 "0x80" "0xFF"] by simp
qed

text \<open>
  A literal's magnitude is read exactly: when no type suffix matches the end of the spelling, the
  value is the number the digits spell in the base of the prefix, modulo 2^64, and the overflow flag
  is set exactly when that number does not fit 64 bits.
\<close>

theorem literal_magnitude:
  assumes "\<not> has_type_suffix spelling" "strip_prefix spelling = (b, digits)"
  shows "parse_numeric_value spelling =
    (of_nat (base_value b 0 (digits_of digits)), 2 ^ 64 \<le> base_value b 0 (digits_of digits))"
proof -
  have "b \<in> {2, 8, 10, 16}" using assms(2) by (auto simp: strip_prefix_def Let_def split: if_splits)
  then have b: "0 < b" "b < 256" by auto
  have "List.find (carries spelling) SUFFIXES = None"
    using assms(1) by (auto simp: has_type_suffix_def list_ex_iff find_None_iff)
  then show ?thesis
    using numeric_loop_exact [OF b, of 0 digits] assms(2) by (simp add: parse_numeric_value_def strip_suffix_def)
qed

theorem literal_magnitude_witness:
  "parse_numeric_value ''0xFF_ff'' = (0xFFFF, False) \<and>
   parse_numeric_value ''18446744073709551616'' = (0, True)"
proof -
  have s: "\<not> has_type_suffix ''0xFF_ff''" "strip_prefix ''0xFF_ff'' = (16, ''FF_ff'')" by code_simp+
  have d: "digits_of ''FF_ff'' = [15, 15, 15, 15]" by code_simp
  have s': "\<not> has_type_suffix ''18446744073709551616''"
    "strip_prefix ''18446744073709551616'' = (10, ''18446744073709551616'')" by code_simp+
  have d': "digits_of ''18446744073709551616'' = [1, 8, 4, 4, 6, 7, 4, 4, 0, 7, 3, 7, 0, 9, 5, 5, 1, 6, 1, 6]" by code_simp
  show ?thesis
    using literal_magnitude [OF s] literal_magnitude [OF s'] by (simp add: d d' base_value_def)
qed

text \<open>
  Hexadecimal literals that end in the digits f32 or f64 lose them.  The checker finds no suffix and
  types such a literal as an integer, but its value is read without the last three digits.
\<close>

theorem hex_literal_truncated:
  "\<exists>spelling. classify_suffix w spelling = None \<and> strip_prefix spelling = (16, ''1f32'') \<and>
    base_value 16 0 (digits_of ''1f32'') = 0x1F32 \<and> parse_numeric_value spelling = (1, False)"
proof (intro exI conjI)
  show "classify_suffix w ''0x1f32'' = None" by (cases w) code_simp+
  show "strip_prefix ''0x1f32'' = (16, ''1f32'')" by code_simp
  have "digits_of ''1f32'' = [1, 15, 3, 2]" by code_simp
  then show "base_value 16 0 (digits_of ''1f32'') = 0x1F32" by (simp add: base_value_def)
  show "parse_numeric_value ''0x1f32'' = (1, False)" by code_simp
qed

end
