(* ===== verification/Ir_Verifier.thy ===== *)
theory Ir_Verifier
  imports Ir_Types
begin

text \<open>
  The structural verifier of the IR (\<^verbatim>\<open>src/src/ir/verifier.h\<close> and \<^verbatim>\<open>verifier.cc\<close>).  A check either reads
  past the end of a table (\<^term>\<open>None\<close>), rejects the storage with an error, or goes on with a value; the
  storage it runs on is arbitrary, since a reader fills it from a file.  The theorems show that the
  verifier never reads past a table and accepts exactly the storages that \<open>storage_wf\<close> describes.
\<close>

datatype (plugins only: code) verification_error_kind =
  FunctionBlocksOutOfRange | FunctionParamTypesOutOfRange | BlockInstrsOutOfRange | BlockParamsOutOfRange
| BlockParamRegOutOfRange | InstrOperandsOutOfRange | InstrDstOutOfRange | UnknownOperandTag | OperandIdxOutOfRange
| TypeIdxOutOfRange | StructFieldsOutOfRange | TypeMetadataOutOfRange | UndefinedRegister | RedefinedRegister
| UnterminatedBlock | MisplacedTerminator | InvalidCallee | InvalidBranchTarget | InvalidCondBr | InvalidSwitch
| InvalidGetElementPtr | InvalidExtractInsert | InvalidBorrow | InvalidMemcopy | InvalidTypeQuery
| EnumFieldsOutOfRange | TupleFieldsOutOfRange | FuncFieldsOutOfRange | StructParamsOutOfRange
| EnumParamsOutOfRange | FunctionGenericsOutOfRange | InvalidSymbolKind | InvalidCallingConvention
| UnknownOpcode | InstrOperandArity

record verification_error =
  ve_kind :: verification_error_kind
  ve_index :: nat

primrec format_as :: "verification_error_kind \<Rightarrow> string" where
  "format_as FunctionBlocksOutOfRange = ''FunctionBlocksOutOfRange''"
| "format_as FunctionParamTypesOutOfRange = ''FunctionParamTypesOutOfRange''"
| "format_as BlockInstrsOutOfRange = ''BlockInstrsOutOfRange''"
| "format_as BlockParamsOutOfRange = ''BlockParamsOutOfRange''"
| "format_as BlockParamRegOutOfRange = ''BlockParamRegOutOfRange''"
| "format_as InstrOperandsOutOfRange = ''InstrOperandsOutOfRange''"
| "format_as InstrDstOutOfRange = ''InstrDstOutOfRange''"
| "format_as UnknownOperandTag = ''UnknownOperandTag''"
| "format_as OperandIdxOutOfRange = ''OperandIdxOutOfRange''"
| "format_as TypeIdxOutOfRange = ''TypeIdxOutOfRange''"
| "format_as StructFieldsOutOfRange = ''StructFieldsOutOfRange''"
| "format_as TypeMetadataOutOfRange = ''TypeMetadataOutOfRange''"
| "format_as UndefinedRegister = ''UndefinedRegister''"
| "format_as RedefinedRegister = ''RedefinedRegister''"
| "format_as UnterminatedBlock = ''UnterminatedBlock''"
| "format_as MisplacedTerminator = ''MisplacedTerminator''"
| "format_as InvalidCallee = ''InvalidCallee''"
| "format_as InvalidBranchTarget = ''InvalidBranchTarget''"
| "format_as InvalidCondBr = ''InvalidCondBr''"
| "format_as InvalidSwitch = ''InvalidSwitch''"
| "format_as InvalidGetElementPtr = ''InvalidGetElementPtr''"
| "format_as InvalidExtractInsert = ''InvalidExtractInsert''"
| "format_as InvalidBorrow = ''InvalidBorrow''"
| "format_as InvalidMemcopy = ''InvalidMemcopy''"
| "format_as InvalidTypeQuery = ''InvalidTypeQuery''"
| "format_as EnumFieldsOutOfRange = ''EnumFieldsOutOfRange''"
| "format_as TupleFieldsOutOfRange = ''TupleFieldsOutOfRange''"
| "format_as FuncFieldsOutOfRange = ''FuncFieldsOutOfRange''"
| "format_as StructParamsOutOfRange = ''StructParamsOutOfRange''"
| "format_as EnumParamsOutOfRange = ''EnumParamsOutOfRange''"
| "format_as FunctionGenericsOutOfRange = ''FunctionGenericsOutOfRange''"
| "format_as InvalidSymbolKind = ''InvalidSymbolKind''"
| "format_as InvalidCallingConvention = ''InvalidCallingConvention''"
| "format_as UnknownOpcode = ''UnknownOpcode''"
| "format_as InstrOperandArity = ''InstrOperandArity''"

subsection \<open>Checks\<close>

type_synonym 'a check = "(verification_error + 'a) option"

definition err :: "verification_error_kind \<Rightarrow> nat \<Rightarrow> 'a check" where
  "err kind idx = Some (Inl \<lparr>ve_kind = kind, ve_index = idx\<rparr>)"

definition ok :: "'a \<Rightarrow> 'a check" where
  "ok x = Some (Inr x)"

text \<open>One check after another: the first error is the answer.\<close>

definition and_then :: "'a check \<Rightarrow> ('a \<Rightarrow> 'b check) \<Rightarrow> 'b check" where
  "and_then c f = (case c of None \<Rightarrow> None | Some (Inl e) \<Rightarrow> Some (Inl e) | Some (Inr x) \<Rightarrow> f x)"

fun check_all :: "('a \<Rightarrow> unit check) \<Rightarrow> 'a list \<Rightarrow> unit check" where
  "check_all c [] = ok ()"
| "check_all c (x # xs) = and_then (c x) (\<lambda>_. check_all c xs)"

fun check_fold :: "('a \<Rightarrow> 's \<Rightarrow> 's check) \<Rightarrow> 'a list \<Rightarrow> 's \<Rightarrow> 's check" where
  "check_fold c [] s = ok s"
| "check_fold c (x # xs) s = and_then (c x s) (check_fold c xs)"

definition range_in_bounds :: "idx_range \<Rightarrow> nat \<Rightarrow> bool" where
  "range_in_bounds r vec_size \<longleftrightarrow> rg_head r + rg_size r \<le> vec_size"

subsection \<open>Shapes of instructions\<close>

text \<open>Smallest and largest operand count; no largest is \<^verbatim>\<open>ANY_OPERANDS\<close>, no answer an unknown opcode.\<close>

definition operand_arity :: "opcode \<Rightarrow> (nat \<times> nat option) option" where
  "operand_arity op =
     (if op \<in> {OpNoop, OpTypeSizeOf, OpTypeAlignOf, OpUnreachable, OpFence} then Some (0, Some 0)
      else if op \<in> {OpAlloca, OpLoad, OpEnumTagLoad, OpNot, OpBitReverse, OpTypeCast, OpAtomicLoad, OpMove, OpDrop,
        OpBorrow} then Some (1, Some 1)
      else if op \<in> {OpStore, OpEnumTagSet, OpElemOffset, OpIntAdd, OpIntSub, OpIntMul, OpIntAddWrap, OpIntSubWrap,
        OpIntMulWrap, OpIntDiv, OpUintDiv, OpIntRem, OpUintRem, OpFAdd, OpFSub, OpFMul, OpFDiv, OpAnd, OpOr, OpXor,
        OpShiftLeft, OpArithmeticShiftRight, OpLogicalShiftRight, OpEq, OpNe, OpLe, OpLt, OpGe, OpGt, OpAtomicStore,
        OpAtomicRmw} then Some (2, Some 2)
      else if op \<in> {OpMemcopy, OpSelect, OpCondBr, OpAtomicCompareExchange} then Some (3, Some 3)
      else if op = OpRet then Some (0, Some 1)
      else if op \<in> {OpGetElementPtr, OpExtractValue, OpSwitch} then Some (2, None)
      else if op = OpEnumFieldAddr then Some (3, Some 3)
      else if op = OpInsertValue then Some (3, None)
      else if op \<in> {OpBr, OpCall} then Some (1, None)
      else None)"

datatype instr_shape =
  ShOther | ShCall | ShBr | ShCondBr | ShSwitch | ShGetElementPtr | ShElemOffset | ShTypeQuery | ShBorrow
| ShMemcopy | ShExtractValue | ShInsertValue

definition shape_of :: "opcode \<Rightarrow> instr_shape" where
  "shape_of op =
     (if op = OpCall then ShCall else if op = OpBr then ShBr else if op = OpCondBr then ShCondBr
      else if op = OpSwitch then ShSwitch else if op = OpGetElementPtr then ShGetElementPtr
      else if op = OpElemOffset then ShElemOffset
      else if op = OpTypeSizeOf \<or> op = OpTypeAlignOf then ShTypeQuery
      else if op = OpBorrow then ShBorrow else if op = OpMemcopy then ShMemcopy
      else if op = OpExtractValue then ShExtractValue else if op = OpInsertValue then ShInsertValue
      else ShOther)"

definition is_valid_symbol_kind :: "symbol_kind \<Rightarrow> bool" where
  "is_valid_symbol_kind kind \<longleftrightarrow> kind = SkForeign \<or> kind = SkFree \<or> kind = SkAssoc \<or> kind = SkMethod"

definition is_valid_calling_convention :: "calling_convention \<Rightarrow> bool" where
  "is_valid_calling_convention convention \<longleftrightarrow> convention = CcC"

definition check_function_meta :: "storage_state \<Rightarrow> function_meta \<Rightarrow> nat \<Rightarrow> unit check" where
  "check_function_meta st meta idx =
     (if length (st_types st) \<le> fm_return_type meta then err TypeIdxOutOfRange idx
      else if \<not> range_in_bounds (fm_param_types meta) (length (st_types st)) then err FunctionParamTypesOutOfRange idx
      else if \<not> range_in_bounds (fm_generics meta) (length (st_types st)) then err FunctionGenericsOutOfRange idx
      else if \<not> is_valid_symbol_kind (fm_kind meta) then err InvalidSymbolKind idx
      else ok ())"

subsection \<open>Types, registers, immutables and functions\<close>

definition check_variant :: "storage_state \<Rightarrow> nat \<Rightarrow> unit check" where
  "check_variant st vidx = do {
     variant \<leftarrow> row (st_enum_variant_types st) vidx;
     if \<not> range_in_bounds (ev_fields variant) (length (st_types st)) then err EnumFieldsOutOfRange vidx else ok ()
   }"

definition check_struct_node :: "storage_state \<Rightarrow> nat \<Rightarrow> nat \<Rightarrow> unit check" where
  "check_struct_node st tidx sidx =
     (if length (st_struct_types st) \<le> sidx then err TypeMetadataOutOfRange tidx
      else do {
        s \<leftarrow> row (st_struct_types st) sidx;
        if \<not> range_in_bounds (sty_fields s) (length (st_types st)) then err StructFieldsOutOfRange sidx
        else if \<not> range_in_bounds (sty_params s) (length (st_types st)) then err StructParamsOutOfRange sidx
        else ok ()
      })"

definition check_slice_node :: "storage_state \<Rightarrow> nat \<Rightarrow> nat \<Rightarrow> unit check" where
  "check_slice_node st tidx sidx =
     (if length (st_slice_types st) \<le> sidx then err TypeMetadataOutOfRange tidx
      else do {
        s \<leftarrow> row (st_slice_types st) sidx;
        if length (st_types st) \<le> lty_element s then err TypeIdxOutOfRange (lty_element s) else ok ()
      })"

definition check_array_node :: "storage_state \<Rightarrow> nat \<Rightarrow> nat \<Rightarrow> unit check" where
  "check_array_node st tidx aidx =
     (if length (st_array_types st) \<le> aidx then err TypeMetadataOutOfRange tidx
      else do {
        a \<leftarrow> row (st_array_types st) aidx;
        if length (st_types st) \<le> aty_element a then err TypeIdxOutOfRange (aty_element a) else ok ()
      })"

definition check_enum_node :: "storage_state \<Rightarrow> nat \<Rightarrow> nat \<Rightarrow> unit check" where
  "check_enum_node st tidx eidx =
     (if length (st_enum_types st) \<le> eidx then err TypeMetadataOutOfRange tidx
      else do {
        e \<leftarrow> row (st_enum_types st) eidx;
        if \<not> range_in_bounds (ety_variants e) (length (st_enum_variant_types st)) then err TypeMetadataOutOfRange tidx
        else and_then (check_all (check_variant st) (range_list (ety_variants e)))
          (\<lambda>_. if \<not> range_in_bounds (ety_params e) (length (st_types st)) then err EnumParamsOutOfRange eidx else ok ())
      })"

definition check_tuple_node :: "storage_state \<Rightarrow> nat \<Rightarrow> nat \<Rightarrow> unit check" where
  "check_tuple_node st tidx idx =
     (if length (st_tuple_types st) \<le> idx then err TypeMetadataOutOfRange tidx
      else do {
        t \<leftarrow> row (st_tuple_types st) idx;
        if \<not> range_in_bounds (tty_elements t) (length (st_types st)) then err TupleFieldsOutOfRange idx else ok ()
      })"

definition check_func_node :: "storage_state \<Rightarrow> nat \<Rightarrow> nat \<Rightarrow> unit check" where
  "check_func_node st tidx idx =
     (if length (st_func_types st) \<le> idx then err TypeMetadataOutOfRange tidx
      else do {
        f \<leftarrow> row (st_func_types st) idx;
        if \<not> range_in_bounds (fty_params f) (length (st_types st)) then err FuncFieldsOutOfRange idx
        else if length (st_types st) \<le> fty_ret f then err TypeIdxOutOfRange tidx
        else ok ()
      })"

definition check_type :: "storage_state \<Rightarrow> nat \<Rightarrow> unit check" where
  "check_type st tidx = do {
     node \<leftarrow> row (st_types st) tidx;
     let tag = tn_tag node; data = tn_data node in
     if tag = TyStruct then check_struct_node st tidx data
     else if tag = TySlice then check_slice_node st tidx data
     else if tag = TyArray then check_array_node st tidx data
     else if tag = TyEnum then check_enum_node st tidx data
     else if tag = TyTuple then check_tuple_node st tidx data
     else if tag = TyFunc then check_func_node st tidx data
     else if tag = TyConst then
       (if length (st_const_types st) \<le> data then err TypeMetadataOutOfRange tidx else ok ())
     else ok ()
   }"

definition check_register :: "storage_state \<Rightarrow> nat \<Rightarrow> unit check" where
  "check_register st ridx = do {
     r \<leftarrow> row (st_registers st) ridx;
     if length (st_types st) \<le> rg_type r then err TypeIdxOutOfRange ridx else ok ()
   }"

definition check_immutable :: "storage_state \<Rightarrow> nat \<Rightarrow> unit check" where
  "check_immutable st iidx = do {
     im \<leftarrow> row (st_immutables st) iidx;
     if length (st_types st) \<le> im_type im then err TypeIdxOutOfRange iidx else ok ()
   }"

definition check_function :: "storage_state \<Rightarrow> nat \<Rightarrow> unit check" where
  "check_function st fidx = do {
     func \<leftarrow> row (st_functions st) fidx;
     if \<not> range_in_bounds (fn_blocks func) (length (st_blocks st)) then err FunctionBlocksOutOfRange fidx
     else check_function_meta st (fn_meta func) fidx
   }"

definition check_external :: "storage_state \<Rightarrow> nat \<Rightarrow> unit check" where
  "check_external st eidx = do {
     external \<leftarrow> row (st_external_functions st) eidx;
     and_then (check_function_meta st (xf_meta external) eidx)
       (\<lambda>_. if \<not> is_valid_calling_convention (xf_conv external) then err InvalidCallingConvention eidx else ok ())
   }"


subsection \<open>Definitions of registers\<close>

text \<open>\<open>defined\<close> has one flag per register.\<close>

definition define_param :: "storage_state \<Rightarrow> nat \<Rightarrow> bool list \<Rightarrow> bool list check" where
  "define_param st pidx defined = do {
     param \<leftarrow> row (st_block_params st) pidx;
     if length (st_types st) \<le> bp_type param then err TypeIdxOutOfRange pidx
     else if length (st_registers st) \<le> bp_reg param then err BlockParamRegOutOfRange (bp_reg param)
     else do {
       seen \<leftarrow> row defined (bp_reg param);
       if seen then err RedefinedRegister (bp_reg param) else ok (defined[bp_reg param := True])
     }
   }"

definition define_dst :: "storage_state \<Rightarrow> nat \<Rightarrow> bool list \<Rightarrow> bool list check" where
  "define_dst st iidx defined = do {
     instr \<leftarrow> row (st_instrs st) iidx;
     case in_dst instr of
       None \<Rightarrow> ok defined
     | Some dst \<Rightarrow>
         if length (st_registers st) \<le> dst then err InstrDstOutOfRange iidx
         else do {
           seen \<leftarrow> row defined dst;
           if seen then err RedefinedRegister dst else ok (defined[dst := True])
         }
   }"

definition define_block :: "storage_state \<Rightarrow> nat \<Rightarrow> bool list \<Rightarrow> bool list check" where
  "define_block st bidx defined = do {
     block \<leftarrow> row (st_blocks st) bidx;
     if \<not> range_in_bounds (bl_instrs block) (length (st_instrs st)) then err BlockInstrsOutOfRange bidx
     else if \<not> range_in_bounds (bl_params block) (length (st_block_params st)) then err BlockParamsOutOfRange bidx
     else and_then (check_fold (define_param st) (range_list (bl_params block)) defined)
       (check_fold (define_dst st) (range_list (bl_instrs block)))
   }"

subsection \<open>Instructions\<close>

definition check_operand :: "storage_state \<Rightarrow> bool list \<Rightarrow> nat \<Rightarrow> unit check" where
  "check_operand st defined oidx = do {
     opd \<leftarrow> row (st_operands st) oidx;
     if length (st_types st) \<le> opd_type opd then err TypeIdxOutOfRange oidx
     else case opd_data opd of
       OpdRegister r \<Rightarrow>
         if length (st_registers st) \<le> r then err OperandIdxOutOfRange oidx
         else do { seen \<leftarrow> row defined r; if \<not> seen then err UndefinedRegister r else ok () }
     | OpdFunction f \<Rightarrow> if length (st_functions st) \<le> f then err OperandIdxOutOfRange oidx else ok ()
     | OpdBlock b \<Rightarrow> if length (st_blocks st) \<le> b then err OperandIdxOutOfRange oidx else ok ()
     | OpdImmutable i \<Rightarrow> if length (st_immutables st) \<le> i then err OperandIdxOutOfRange oidx else ok ()
     | OpdExternal e \<Rightarrow> if length (st_external_functions st) \<le> e then err OperandIdxOutOfRange oidx else ok ()
     | OpdNone \<Rightarrow> err UnknownOperandTag oidx
   }"

text \<open>The operand at an offset of an instruction and the tag of its type.\<close>

definition operand_at :: "storage_state \<Rightarrow> instruction \<Rightarrow> nat \<Rightarrow> operand option" where
  "operand_at st instr offset = row (st_operands st) (range_at (in_operands instr) offset)"

definition tag_at :: "storage_state \<Rightarrow> nat \<Rightarrow> type_tag option" where
  "tag_at st ty = map_option tn_tag (row (st_types st) ty)"

definition operand_count :: "instruction \<Rightarrow> nat" where
  "operand_count instr = rg_size (in_operands instr)"

definition check_call :: "storage_state \<Rightarrow> nat \<Rightarrow> instruction \<Rightarrow> unit check" where
  "check_call st iidx instr =
     (if operand_count instr = 0 then err InvalidCallee iidx
      else do {
        head \<leftarrow> operand_at st instr 0;
        case opd_data head of
          OpdFunction f \<Rightarrow> do {
            func \<leftarrow> row (st_functions st) f;
            if operand_count instr - 1 \<noteq> rg_size (fm_param_types (fn_meta func)) then err InvalidCallee iidx else ok ()
          }
        | OpdExternal e \<Rightarrow> do {
            external \<leftarrow> row (st_external_functions st) e;
            if operand_count instr - 1 \<noteq> rg_size (fm_param_types (xf_meta external)) then err InvalidCallee iidx else ok ()
          }
        | OpdRegister r \<Rightarrow> do {
            reg \<leftarrow> row (st_registers st) r;
            callee_type \<leftarrow> row (st_types st) (rg_type reg);
            if tn_tag callee_type \<noteq> TyFunc then err InvalidCallee iidx
            else do {
              sig \<leftarrow> row (st_func_types st) (tn_data callee_type);
              if operand_count instr - 1 \<noteq> rg_size (fty_params sig) then err InvalidCallee iidx else ok ()
            }
          }
        | _ \<Rightarrow> err InvalidCallee iidx
      })"

definition check_br :: "storage_state \<Rightarrow> nat \<Rightarrow> instruction \<Rightarrow> unit check" where
  "check_br st iidx instr =
     (if operand_count instr = 0 then err InvalidBranchTarget iidx
      else do {
        target \<leftarrow> operand_at st instr 0;
        case opd_data target of
          OpdBlock b \<Rightarrow> do {
            block \<leftarrow> row (st_blocks st) b;
            if operand_count instr \<noteq> 1 + rg_size (bl_params block) then err InvalidBranchTarget iidx else ok ()
          }
        | _ \<Rightarrow> err InvalidBranchTarget iidx
      })"

text \<open>A target that takes no parameters.\<close>

definition check_plain_target :: "storage_state \<Rightarrow> verification_error_kind \<Rightarrow> nat \<Rightarrow> operand \<Rightarrow> unit check" where
  "check_plain_target st kind iidx target =
     (case opd_data target of
        OpdBlock b \<Rightarrow> do {
          block \<leftarrow> row (st_blocks st) b;
          if rg_size (bl_params block) \<noteq> 0 then err kind iidx else ok ()
        }
      | _ \<Rightarrow> err kind iidx)"

definition check_cond_br :: "storage_state \<Rightarrow> nat \<Rightarrow> instruction \<Rightarrow> unit check" where
  "check_cond_br st iidx instr =
     (if operand_count instr \<noteq> 3 then err InvalidCondBr iidx
      else do {
        cond \<leftarrow> operand_at st instr 0;
        tag \<leftarrow> tag_at st (opd_type cond);
        if tag \<noteq> TyI1 then err InvalidCondBr iidx
        else check_all (\<lambda>offset. do {
            target \<leftarrow> operand_at st instr offset;
            check_plain_target st InvalidCondBr iidx target
          }) [1..<3]
      })"

text \<open>The offsets of the case values of a switch.\<close>

definition case_offsets :: "nat \<Rightarrow> nat list" where
  "case_offsets n = filter even [2..<n]"

definition check_case :: "storage_state \<Rightarrow> nat \<Rightarrow> instruction \<Rightarrow> nat \<Rightarrow> unit check" where
  "check_case st iidx instr offset = do {
     case_value \<leftarrow> operand_at st instr offset;
     case_target \<leftarrow> operand_at st instr (offset + 1);
     case opd_data case_value of
       OpdImmutable _ \<Rightarrow> check_plain_target st InvalidSwitch iidx case_target
     | _ \<Rightarrow> err InvalidSwitch iidx
   }"

definition check_switch :: "storage_state \<Rightarrow> nat \<Rightarrow> instruction \<Rightarrow> unit check" where
  "check_switch st iidx instr =
     (if operand_count instr < 2 \<or> odd (operand_count instr) then err InvalidSwitch iidx
      else do {
        v \<leftarrow> operand_at st instr 0;
        tag \<leftarrow> tag_at st (opd_type v);
        if \<not> is_integer_type tag then err InvalidSwitch iidx
        else do {
          default_target \<leftarrow> operand_at st instr 1;
          and_then (check_plain_target st InvalidSwitch iidx default_target)
            (\<lambda>_. check_all (check_case st iidx instr) (case_offsets (operand_count instr)))
        }
      })"

definition check_integer_operand :: "storage_state \<Rightarrow> verification_error_kind \<Rightarrow> nat \<Rightarrow> instruction \<Rightarrow> nat \<Rightarrow> unit check" where
  "check_integer_operand st kind iidx instr offset = do {
     idx \<leftarrow> operand_at st instr offset;
     tag \<leftarrow> tag_at st (opd_type idx);
     if \<not> is_integer_type tag then err kind iidx else ok ()
   }"

definition is_register :: "operand \<Rightarrow> bool" where
  "is_register opd = (case opd_data opd of OpdRegister _ \<Rightarrow> True | _ \<Rightarrow> False)"

definition is_immutable :: "operand \<Rightarrow> bool" where
  "is_immutable opd = (case opd_data opd of OpdImmutable _ \<Rightarrow> True | _ \<Rightarrow> False)"

definition check_get_element_ptr :: "storage_state \<Rightarrow> nat \<Rightarrow> instruction \<Rightarrow> unit check" where
  "check_get_element_ptr st iidx instr =
     (if operand_count instr < 2 then err InvalidGetElementPtr iidx
      else do {
        base \<leftarrow> operand_at st instr 0;
        if \<not> is_register base then err InvalidGetElementPtr iidx
        else check_all (check_integer_operand st InvalidGetElementPtr iidx instr) [1..<operand_count instr]
      })"

definition check_elem_offset :: "storage_state \<Rightarrow> nat \<Rightarrow> instruction \<Rightarrow> unit check" where
  "check_elem_offset st iidx instr =
     (if operand_count instr \<noteq> 2 then err InvalidGetElementPtr iidx
      else do {
        base \<leftarrow> operand_at st instr 0;
        if \<not> is_register base then err InvalidGetElementPtr iidx
        else and_then (check_integer_operand st InvalidGetElementPtr iidx instr 1)
          (\<lambda>_. if in_dst instr = None then err InvalidGetElementPtr iidx else ok ())
      })"

definition check_type_query :: "storage_state \<Rightarrow> nat \<Rightarrow> instruction \<Rightarrow> unit check" where
  "check_type_query st iidx instr =
     (case in_measure instr of
        None \<Rightarrow> err InvalidTypeQuery iidx
      | Some measure' \<Rightarrow>
          if operand_count instr \<noteq> 0 \<or> in_dst instr = None \<or> length (st_types st) \<le> measure'
          then err InvalidTypeQuery iidx else ok ())"

definition check_borrow :: "storage_state \<Rightarrow> nat \<Rightarrow> instruction \<Rightarrow> unit check" where
  "check_borrow st iidx instr =
     (if operand_count instr \<noteq> 1 then err InvalidBorrow iidx
      else do {
        place \<leftarrow> operand_at st instr 0;
        if \<not> is_register place then err InvalidBorrow iidx
        else if in_dst instr = None then err InvalidBorrow iidx
        else ok ()
      })"

definition check_memcopy :: "storage_state \<Rightarrow> nat \<Rightarrow> instruction \<Rightarrow> unit check" where
  "check_memcopy st iidx instr =
     (if operand_count instr \<noteq> 3 \<or> in_dst instr \<noteq> None then err InvalidMemcopy iidx
      else and_then
        (check_all (\<lambda>offset. do {
            ptr \<leftarrow> operand_at st instr offset;
            tag \<leftarrow> tag_at st (opd_type ptr);
            if tag \<noteq> TyRef \<and> tag \<noteq> TyMutRef \<and> tag \<noteq> TyPtr then err InvalidMemcopy iidx else ok ()
          }) [0..<2])
        (\<lambda>_. check_integer_operand st InvalidMemcopy iidx instr 2))"

definition check_index :: "storage_state \<Rightarrow> nat \<Rightarrow> instruction \<Rightarrow> nat \<Rightarrow> unit check" where
  "check_index st iidx instr offset = do {
     idx \<leftarrow> operand_at st instr offset;
     if \<not> is_immutable idx then err InvalidExtractInsert iidx
     else check_integer_operand st InvalidExtractInsert iidx instr offset
   }"

definition check_extract_insert :: "storage_state \<Rightarrow> nat \<Rightarrow> instruction \<Rightarrow> unit check" where
  "check_extract_insert st iidx instr =
     (let first_index = (if in_op instr = OpExtractValue then 1 else 2) in
      if operand_count instr < first_index + 1 then err InvalidExtractInsert iidx
      else check_all (check_index st iidx instr) [first_index..<operand_count instr])"

definition check_shape :: "storage_state \<Rightarrow> nat \<Rightarrow> instruction \<Rightarrow> unit check" where
  "check_shape st iidx instr =
     (case shape_of (in_op instr) of
        ShCall \<Rightarrow> check_call st iidx instr
      | ShBr \<Rightarrow> check_br st iidx instr
      | ShCondBr \<Rightarrow> check_cond_br st iidx instr
      | ShSwitch \<Rightarrow> check_switch st iidx instr
      | ShGetElementPtr \<Rightarrow> check_get_element_ptr st iidx instr
      | ShElemOffset \<Rightarrow> check_elem_offset st iidx instr
      | ShTypeQuery \<Rightarrow> check_type_query st iidx instr
      | ShBorrow \<Rightarrow> check_borrow st iidx instr
      | ShMemcopy \<Rightarrow> check_memcopy st iidx instr
      | ShExtractValue \<Rightarrow> check_extract_insert st iidx instr
      | ShInsertValue \<Rightarrow> check_extract_insert st iidx instr
      | ShOther \<Rightarrow> ok ())"

definition check_arity :: "nat \<Rightarrow> instruction \<Rightarrow> unit check" where
  "check_arity iidx instr =
     (case operand_arity (in_op instr) of
        None \<Rightarrow> err UnknownOpcode iidx
      | Some (lo, hi) \<Rightarrow>
          if operand_count instr < lo \<or> (case hi of None \<Rightarrow> False | Some n \<Rightarrow> n < operand_count instr)
          then err InstrOperandArity iidx else ok ())"

definition check_instr :: "storage_state \<Rightarrow> bool list \<Rightarrow> nat \<Rightarrow> nat \<Rightarrow> nat \<Rightarrow> unit check" where
  "check_instr st defined bidx instr_end iidx = do {
     instr \<leftarrow> row (st_instrs st) iidx;
     if iidx + 1 = instr_end \<and> \<not> is_terminator (in_op instr) then err UnterminatedBlock bidx
     else if iidx + 1 \<noteq> instr_end \<and> is_terminator (in_op instr) then err MisplacedTerminator iidx
     else if \<not> range_in_bounds (in_operands instr) (length (st_operands st)) then err InstrOperandsOutOfRange iidx
     else and_then (check_all (check_operand st defined) (range_list (in_operands instr)))
       (\<lambda>_. and_then (check_shape st iidx instr) (\<lambda>_. check_arity iidx instr))
   }"

definition check_block :: "storage_state \<Rightarrow> bool list \<Rightarrow> nat \<Rightarrow> unit check" where
  "check_block st defined bidx = do {
     block \<leftarrow> row (st_blocks st) bidx;
     if rg_size (bl_instrs block) = 0 then err UnterminatedBlock bidx
     else check_all (check_instr st defined bidx (rg_head (bl_instrs block) + rg_size (bl_instrs block)))
       (range_list (bl_instrs block))
   }"

definition check_body :: "storage_state \<Rightarrow> nat \<Rightarrow> unit check" where
  "check_body st fidx = do {
     func \<leftarrow> row (st_functions st) fidx;
     if rg_size (fn_blocks func) = 0 then err UnterminatedBlock fidx else ok ()
   }"

definition verify_storage :: "storage_state \<Rightarrow> unit check" where
  "verify_storage st =
     and_then (check_all (check_type st) [0..<length (st_types st)]) (\<lambda>_.
     and_then (check_all (check_register st) [0..<length (st_registers st)]) (\<lambda>_.
     and_then (check_all (check_immutable st) [0..<length (st_immutables st)]) (\<lambda>_.
     and_then (check_all (check_function st) [0..<length (st_functions st)]) (\<lambda>_.
     and_then (check_all (check_external st) [0..<length (st_external_functions st)]) (\<lambda>_.
     and_then (check_fold (define_block st) [0..<length (st_blocks st)] (replicate (length (st_registers st)) False))
       (\<lambda>defined.
     and_then (check_all (check_block st defined) [0..<length (st_blocks st)]) (\<lambda>_.
     check_all (check_body st) [0..<length (st_functions st)])))))))"


subsection \<open>Well-formed storage\<close>

text \<open>What an accepted storage promises, stated on the rows themselves.\<close>

definition type_wf :: "storage_state \<Rightarrow> type_node \<Rightarrow> bool" where
  "type_wf st node \<longleftrightarrow> (let n = length (st_types st); d = tn_data node in
     (tn_tag node = TyStruct \<longrightarrow> d < length (st_struct_types st)
        \<and> range_in_bounds (sty_fields (st_struct_types st ! d)) n \<and> range_in_bounds (sty_params (st_struct_types st ! d)) n)
     \<and> (tn_tag node = TySlice \<longrightarrow> d < length (st_slice_types st) \<and> lty_element (st_slice_types st ! d) < n)
     \<and> (tn_tag node = TyArray \<longrightarrow> d < length (st_array_types st) \<and> aty_element (st_array_types st ! d) < n)
     \<and> (tn_tag node = TyEnum \<longrightarrow> d < length (st_enum_types st)
        \<and> range_in_bounds (ety_variants (st_enum_types st ! d)) (length (st_enum_variant_types st))
        \<and> (\<forall>v \<in> set (range_list (ety_variants (st_enum_types st ! d))). range_in_bounds (ev_fields (st_enum_variant_types st ! v)) n)
        \<and> range_in_bounds (ety_params (st_enum_types st ! d)) n)
     \<and> (tn_tag node = TyTuple \<longrightarrow> d < length (st_tuple_types st) \<and> range_in_bounds (tty_elements (st_tuple_types st ! d)) n)
     \<and> (tn_tag node = TyFunc \<longrightarrow> d < length (st_func_types st)
        \<and> range_in_bounds (fty_params (st_func_types st ! d)) n \<and> fty_ret (st_func_types st ! d) < n)
     \<and> (tn_tag node = TyConst \<longrightarrow> d < length (st_const_types st)))"

definition meta_wf :: "storage_state \<Rightarrow> function_meta \<Rightarrow> bool" where
  "meta_wf st meta \<longleftrightarrow> fm_return_type meta < length (st_types st)
     \<and> range_in_bounds (fm_param_types meta) (length (st_types st))
     \<and> range_in_bounds (fm_generics meta) (length (st_types st)) \<and> is_valid_symbol_kind (fm_kind meta)"

definition function_wf :: "storage_state \<Rightarrow> ir_function \<Rightarrow> bool" where
  "function_wf st f \<longleftrightarrow> range_in_bounds (fn_blocks f) (length (st_blocks st)) \<and> meta_wf st (fn_meta f)"

definition external_wf :: "storage_state \<Rightarrow> external_function \<Rightarrow> bool" where
  "external_wf st f \<longleftrightarrow> meta_wf st (xf_meta f) \<and> is_valid_calling_convention (xf_conv f)"

text \<open>The rows a range names, and the registers a block defines.\<close>

definition rows :: "'a list \<Rightarrow> idx_range \<Rightarrow> 'a list" where
  "rows xs r = map ((!) xs) (range_list r)"

definition block_regs :: "storage_state \<Rightarrow> block \<Rightarrow> nat list" where
  "block_regs st b = map bp_reg (rows (st_block_params st) (bl_params b))
     @ concat (map (\<lambda>i. case in_dst i of None \<Rightarrow> [] | Some r \<Rightarrow> [r]) (rows (st_instrs st) (bl_instrs b)))"

definition storage_regs :: "storage_state \<Rightarrow> nat list" where
  "storage_regs st = concat (map (block_regs st) (st_blocks st))"

definition block_bounds :: "storage_state \<Rightarrow> block \<Rightarrow> bool" where
  "block_bounds st b \<longleftrightarrow> range_in_bounds (bl_instrs b) (length (st_instrs st))
     \<and> range_in_bounds (bl_params b) (length (st_block_params st))
     \<and> (\<forall>p \<in> set (rows (st_block_params st) (bl_params b)). bp_type p < length (st_types st))
     \<and> (\<forall>r \<in> set (block_regs st b). r < length (st_registers st))"

definition operand_wf :: "storage_state \<Rightarrow> operand \<Rightarrow> bool" where
  "operand_wf st opd \<longleftrightarrow> opd_type opd < length (st_types st)
     \<and> (case opd_data opd of
          OpdRegister r \<Rightarrow> r < length (st_registers st) \<and> r \<in> set (storage_regs st)
        | OpdFunction f \<Rightarrow> f < length (st_functions st)
        | OpdBlock b \<Rightarrow> b < length (st_blocks st)
        | OpdImmutable i \<Rightarrow> i < length (st_immutables st)
        | OpdExternal e \<Rightarrow> e < length (st_external_functions st)
        | OpdNone \<Rightarrow> False)"

definition type_tag_of :: "storage_state \<Rightarrow> operand \<Rightarrow> type_tag" where
  "type_tag_of st opd = tn_tag (st_types st ! opd_type opd)"

definition callee_params :: "storage_state \<Rightarrow> operand \<Rightarrow> nat option" where
  "callee_params st opd =
     (case opd_data opd of
        OpdFunction f \<Rightarrow> Some (rg_size (fm_param_types (fn_meta (st_functions st ! f))))
      | OpdExternal e \<Rightarrow> Some (rg_size (fm_param_types (xf_meta (st_external_functions st ! e))))
      | OpdRegister r \<Rightarrow>
          (let node = st_types st ! rg_type (st_registers st ! r) in
           if tn_tag node = TyFunc then Some (rg_size (fty_params (st_func_types st ! tn_data node))) else None)
      | _ \<Rightarrow> None)"

definition target_params :: "storage_state \<Rightarrow> operand \<Rightarrow> nat option" where
  "target_params st opd = (case opd_data opd of OpdBlock b \<Rightarrow> Some (rg_size (bl_params (st_blocks st ! b))) | _ \<Rightarrow> None)"

text \<open>The operand lists the shapes of instructions allow.\<close>

fun cases_wf :: "storage_state \<Rightarrow> operand list \<Rightarrow> bool" where
  "cases_wf st (v # t # opds) \<longleftrightarrow> is_immutable v \<and> target_params st t = Some 0 \<and> cases_wf st opds"
| "cases_wf st [v] \<longleftrightarrow> False"
| "cases_wf st [] \<longleftrightarrow> True"

definition shape_wf :: "storage_state \<Rightarrow> instruction \<Rightarrow> operand list \<Rightarrow> bool" where
  "shape_wf st instr opds \<longleftrightarrow>
     (case shape_of (in_op instr) of
        ShCall \<Rightarrow> (\<exists>callee args. opds = callee # args \<and> callee_params st callee = Some (length args))
      | ShBr \<Rightarrow> (\<exists>target args. opds = target # args \<and> target_params st target = Some (length args))
      | ShCondBr \<Rightarrow> (\<exists>c t f. opds = [c, t, f] \<and> type_tag_of st c = TyI1
          \<and> target_params st t = Some 0 \<and> target_params st f = Some 0)
      | ShSwitch \<Rightarrow> (\<exists>v d cases. opds = v # d # cases \<and> is_integer_type (type_tag_of st v)
          \<and> target_params st d = Some 0 \<and> cases_wf st cases)
      | ShGetElementPtr \<Rightarrow> (\<exists>b i is. opds = b # i # is \<and> is_register b
          \<and> list_all (\<lambda>x. is_integer_type (type_tag_of st x)) (i # is))
      | ShElemOffset \<Rightarrow> (\<exists>b i. opds = [b, i] \<and> is_register b \<and> is_integer_type (type_tag_of st i) \<and> in_dst instr \<noteq> None)
      | ShTypeQuery \<Rightarrow> opds = [] \<and> in_dst instr \<noteq> None \<and> (\<exists>m. in_measure instr = Some m \<and> m < length (st_types st))
      | ShBorrow \<Rightarrow> (\<exists>p. opds = [p] \<and> is_register p \<and> in_dst instr \<noteq> None)
      | ShMemcopy \<Rightarrow> (\<exists>d s l. opds = [d, s, l] \<and> in_dst instr = None
          \<and> type_tag_of st d \<in> {TyRef, TyMutRef, TyPtr} \<and> type_tag_of st s \<in> {TyRef, TyMutRef, TyPtr}
          \<and> is_integer_type (type_tag_of st l))
      | ShExtractValue \<Rightarrow> (\<exists>a i is. opds = a # i # is
          \<and> list_all (\<lambda>x. is_immutable x \<and> is_integer_type (type_tag_of st x)) (i # is))
      | ShInsertValue \<Rightarrow> (\<exists>a v i is. opds = a # v # i # is
          \<and> list_all (\<lambda>x. is_immutable x \<and> is_integer_type (type_tag_of st x)) (i # is))
      | ShOther \<Rightarrow> True)"

definition arity_wf :: "opcode \<Rightarrow> nat \<Rightarrow> bool" where
  "arity_wf op n \<longleftrightarrow>
     (case operand_arity op of
        None \<Rightarrow> False
      | Some (lo, hi) \<Rightarrow> lo \<le> n \<and> (case hi of None \<Rightarrow> True | Some m \<Rightarrow> n \<le> m))"

definition instr_wf :: "storage_state \<Rightarrow> instruction \<Rightarrow> bool" where
  "instr_wf st instr \<longleftrightarrow> range_in_bounds (in_operands instr) (length (st_operands st))
     \<and> (let opds = rows (st_operands st) (in_operands instr) in
        list_all (operand_wf st) opds \<and> shape_wf st instr opds \<and> arity_wf (in_op instr) (length opds))"

definition block_wf :: "storage_state \<Rightarrow> block \<Rightarrow> bool" where
  "block_wf st b \<longleftrightarrow> (let instrs = rows (st_instrs st) (bl_instrs b) in
     instrs \<noteq> [] \<and> is_terminator (in_op (last instrs)) \<and> (\<forall>i \<in> set (butlast instrs). \<not> is_terminator (in_op i))
     \<and> (\<forall>i \<in> set instrs. instr_wf st i))"

definition storage_wf :: "storage_state \<Rightarrow> bool" where
  "storage_wf st \<longleftrightarrow>
     (\<forall>node \<in> set (st_types st). type_wf st node)
     \<and> (\<forall>r \<in> set (st_registers st). rg_type r < length (st_types st))
     \<and> (\<forall>im \<in> set (st_immutables st). im_type im < length (st_types st))
     \<and> (\<forall>f \<in> set (st_functions st). function_wf st f)
     \<and> (\<forall>f \<in> set (st_external_functions st). external_wf st f)
     \<and> (\<forall>b \<in> set (st_blocks st). block_bounds st b)
     \<and> distinct (storage_regs st)
     \<and> (\<forall>b \<in> set (st_blocks st). block_wf st b)
     \<and> (\<forall>f \<in> set (st_functions st). rg_size (fn_blocks f) \<noteq> 0)"

subsection \<open>Sequences of checks\<close>

lemma check_simps [simp]:
  "ok x = ok y \<longleftrightarrow> x = y" "err k i \<noteq> ok x" "ok x \<noteq> err k i" "ok x \<noteq> None" "None \<noteq> ok x" "err k i \<noteq> None" "None \<noteq> err k i"
  by (simp_all add: ok_def err_def)

lemma and_then_ok [simp]: "and_then c f = ok y \<longleftrightarrow> (\<exists>x. c = ok x \<and> f x = ok y)"
  by (auto simp: and_then_def ok_def split: option.split sum.split)

text \<open>A check that reads no row past its table.\<close>

definition safe :: "'a check \<Rightarrow> bool" where
  "safe c \<longleftrightarrow> c \<noteq> None"

lemma safe_simps [simp]:
  "safe (ok x)" "safe (err k i)"
  "safe (and_then c f) \<longleftrightarrow> safe c \<and> (\<forall>x. c = ok x \<longrightarrow> safe (f x))"
  by (auto simp: safe_def and_then_def ok_def err_def split: option.split sum.split)

lemma bind_ok [simp]: "(row xs i \<bind> f) = ok y \<longleftrightarrow> i < length xs \<and> f (xs ! i) = ok y"
  by (cases "i < length xs") (simp_all add: ok_def row_def)

lemma safe_bind [simp]: "safe (row xs i \<bind> f) \<longleftrightarrow> i < length xs \<and> safe (f (xs ! i))"
  by (cases "i < length xs") (simp_all add: row_def safe_def)

lemma check_all_ok [simp]: "check_all c xs = ok () \<longleftrightarrow> (\<forall>x \<in> set xs. c x = ok ())"
  by (induction xs) auto

lemma check_all_safe: "\<forall>x \<in> set xs. safe (c x) \<Longrightarrow> safe (check_all c xs)"
  by (induction xs) auto

lemma all_rows: "(\<forall>i \<in> set [0..<length xs]. P (xs ! i)) \<longleftrightarrow> (\<forall>x \<in> set xs. P x)"
  by (auto simp: all_set_conv_all_nth)

lemma all_rows_range:
  "(\<forall>i \<in> set (range_list r). P (xs ! i)) \<longleftrightarrow> (\<forall>x \<in> set (rows xs r). P x)"
  by (simp add: rows_def)

lemma range_less: "range_in_bounds r n \<Longrightarrow> i \<in> set (range_list r) \<Longrightarrow> i < n"
  by (auto simp: range_in_bounds_def range_list_def)


subsection \<open>The tables\<close>

lemma check_variant_iff [simp]:
  "check_variant st v = ok () \<longleftrightarrow> v < length (st_enum_variant_types st)
     \<and> range_in_bounds (ev_fields (st_enum_variant_types st ! v)) (length (st_types st))"
  by (simp add: check_variant_def)

lemma check_enum_iff:
  "check_enum_node st t e = ok () \<longleftrightarrow> e < length (st_enum_types st)
     \<and> range_in_bounds (ety_variants (st_enum_types st ! e)) (length (st_enum_variant_types st))
     \<and> (\<forall>v \<in> set (range_list (ety_variants (st_enum_types st ! e))).
          range_in_bounds (ev_fields (st_enum_variant_types st ! v)) (length (st_types st)))
     \<and> range_in_bounds (ety_params (st_enum_types st ! e)) (length (st_types st))"
  by (auto simp: check_enum_node_def dest: range_less)

lemma check_enum_safe: "safe (check_enum_node st t e)"
proof (cases "e < length (st_enum_types st)
    \<and> range_in_bounds (ety_variants (st_enum_types st ! e)) (length (st_enum_variant_types st))")
  case True
  have "safe (check_all (check_variant st) (range_list (ety_variants (st_enum_types st ! e))))"
    by (rule check_all_safe) (use True range_less in \<open>auto simp: check_variant_def\<close>)
  then show ?thesis using True by (simp add: check_enum_node_def)
qed (auto simp: check_enum_node_def)

lemma check_type_iff: "i < length (st_types st) \<Longrightarrow> check_type st i = ok () \<longleftrightarrow> type_wf st (st_types st ! i)"
  by (cases "tn_tag (st_types st ! i)")
    (simp_all add: check_type_def type_wf_def Let_def check_struct_node_def check_slice_node_def check_array_node_def
      check_enum_iff check_tuple_node_def check_func_node_def not_le)

lemma check_type_safe: "i < length (st_types st) \<Longrightarrow> safe (check_type st i)"
  by (simp add: check_type_def Let_def check_struct_node_def check_slice_node_def check_array_node_def
      check_enum_safe check_tuple_node_def check_func_node_def)

lemma check_meta_iff [simp]: "check_function_meta st meta i = ok () \<longleftrightarrow> meta_wf st meta"
  by (simp add: check_function_meta_def meta_wf_def not_le)

lemma check_meta_safe [simp]: "safe (check_function_meta st meta i)"
  by (simp add: check_function_meta_def)

lemma check_register_iff: "i < length (st_registers st)
    \<Longrightarrow> check_register st i = ok () \<longleftrightarrow> rg_type (st_registers st ! i) < length (st_types st)"
  by (simp add: check_register_def not_le)

lemma check_immutable_iff: "i < length (st_immutables st)
    \<Longrightarrow> check_immutable st i = ok () \<longleftrightarrow> im_type (st_immutables st ! i) < length (st_types st)"
  by (simp add: check_immutable_def not_le)

lemma check_function_iff: "i < length (st_functions st) \<Longrightarrow> check_function st i = ok () \<longleftrightarrow> function_wf st (st_functions st ! i)"
  by (simp add: check_function_def function_wf_def)

lemma check_external_iff: "i < length (st_external_functions st)
    \<Longrightarrow> check_external st i = ok () \<longleftrightarrow> external_wf st (st_external_functions st ! i)"
  by (simp add: check_external_def external_wf_def)

lemma check_body_iff: "i < length (st_functions st)
    \<Longrightarrow> check_body st i = ok () \<longleftrightarrow> rg_size (fn_blocks (st_functions st ! i)) \<noteq> 0"
  by (simp add: check_body_def)

lemma row_checks_safe:
  "i < length (st_registers st) \<Longrightarrow> safe (check_register st i)"
  "i < length (st_immutables st) \<Longrightarrow> safe (check_immutable st i)"
  "i < length (st_functions st) \<Longrightarrow> safe (check_function st i)"
  "i < length (st_external_functions st) \<Longrightarrow> safe (check_external st i)"
  "i < length (st_functions st) \<Longrightarrow> safe (check_body st i)"
  by (simp_all add: check_register_def check_immutable_def check_function_def check_external_def check_body_def)


subsection \<open>Definitions of registers\<close>

text \<open>The flags say which registers have been defined.\<close>

definition flags :: "nat \<Rightarrow> bool list \<Rightarrow> nat set \<Rightarrow> bool" where
  "flags n defined S \<longleftrightarrow> length defined = n \<and> (\<forall>r < n. defined ! r \<longleftrightarrow> r \<in> S)"

lemma flags_unique: "flags n d S \<Longrightarrow> flags n d' S \<Longrightarrow> d = d'"
  by (auto simp: flags_def intro: nth_equalityI)

lemma flags_exist: "flags n (map (\<lambda>r. r \<in> S) [0..<n]) S"
  by (simp add: flags_def)

lemma flags_mark: "flags n d S \<Longrightarrow> r < n \<Longrightarrow> flags n (d[r := True]) (insert r S)"
  by (auto simp: flags_def nth_list_update)

text \<open>A step that defines the registers \<open>ds x\<close>, provided \<open>P x\<close> and that none is defined yet.\<close>

definition defining :: "nat \<Rightarrow> ('a \<Rightarrow> bool list \<Rightarrow> bool list check) \<Rightarrow> ('a \<Rightarrow> bool) \<Rightarrow> ('a \<Rightarrow> nat list) \<Rightarrow> bool" where
  "defining n c P ds \<longleftrightarrow> (\<forall>x d S d'. flags n d S \<longrightarrow>
     (c x d = ok d' \<longleftrightarrow> P x \<and> distinct (ds x) \<and> set (ds x) \<inter> S = {} \<and> flags n d' (S \<union> set (ds x))))"

lemma definingD:
  "defining n c P ds \<Longrightarrow> flags n d S
    \<Longrightarrow> c x d = ok d' \<longleftrightarrow> P x \<and> distinct (ds x) \<and> set (ds x) \<inter> S = {} \<and> flags n d' (S \<union> set (ds x))"
  by (simp add: defining_def)

lemma defining_then:
  assumes "defining n c P ds" "defining n c' P' ds'"
  shows "defining n (\<lambda>x d. and_then (c (f x) d) (c' (g x))) (\<lambda>x. P (f x) \<and> P' (g x)) (\<lambda>x. ds (f x) @ ds' (g x))"
  unfolding defining_def
proof (intro allI impI)
  fix x d S d' assume d: "flags n d S"
  let ?A = "set (ds (f x))" and ?B = "set (ds' (g x))"
  note first = definingD [OF assms(1) d, of "f x"]
  have "(\<exists>m. c (f x) d = ok m \<and> c' (g x) m = ok d')
    \<longleftrightarrow> P (f x) \<and> distinct (ds (f x)) \<and> ?A \<inter> S = {} \<and> (\<exists>m. flags n m (S \<union> ?A) \<and> c' (g x) m = ok d')"
    using first by auto
  also have "(\<exists>m. flags n m (S \<union> ?A) \<and> c' (g x) m = ok d')
    \<longleftrightarrow> P' (g x) \<and> distinct (ds' (g x)) \<and> ?B \<inter> (S \<union> ?A) = {} \<and> flags n d' (S \<union> ?A \<union> ?B)"
    using definingD [OF assms(2), of _ "S \<union> ?A" "g x" d'] flags_exist [of n "S \<union> ?A"] by blast
  finally show "and_then (c (f x) d) (c' (g x)) = ok d' \<longleftrightarrow> (P (f x) \<and> P' (g x)) \<and> distinct (ds (f x) @ ds' (g x))
      \<and> set (ds (f x) @ ds' (g x)) \<inter> S = {} \<and> flags n d' (S \<union> set (ds (f x) @ ds' (g x)))"
    by (auto simp: Un_assoc)
qed

lemma defining_fold:
  assumes "defining n c P ds"
  shows "defining n (check_fold c) (\<lambda>xs. \<forall>x \<in> set xs. P x) (\<lambda>xs. concat (map ds xs))"
  unfolding defining_def
proof (intro allI impI)
  fix xs d S d' assume "flags n d S"
  then show "check_fold c xs d = ok d' \<longleftrightarrow> (\<forall>x \<in> set xs. P x) \<and> distinct (concat (map ds xs))
      \<and> set (concat (map ds xs)) \<inter> S = {} \<and> flags n d' (S \<union> set (concat (map ds xs)))"
  proof (induction xs arbitrary: d S)
    case Nil
    then show ?case using flags_unique by auto
  next
    case (Cons x xs)
    let ?A = "set (ds x)" and ?B = "set (concat (map ds xs))"
    have "(\<exists>m. c x d = ok m \<and> check_fold c xs m = ok d')
      \<longleftrightarrow> P x \<and> distinct (ds x) \<and> ?A \<inter> S = {} \<and> (\<exists>m. flags n m (S \<union> ?A) \<and> check_fold c xs m = ok d')"
      using definingD [OF assms Cons.prems, of x] by auto
    also have "(\<exists>m. flags n m (S \<union> ?A) \<and> check_fold c xs m = ok d')
      \<longleftrightarrow> (\<forall>x \<in> set xs. P x) \<and> distinct (concat (map ds xs)) \<and> ?B \<inter> (S \<union> ?A) = {} \<and> flags n d' (S \<union> ?A \<union> ?B)"
      using Cons.IH flags_exist [of n "S \<union> ?A"] by blast
    finally show ?case by (auto simp: Un_assoc)
  qed
qed

lemma check_fold_safe:
  assumes "defining n c P ds" "\<And>x d S. x \<in> set xs \<Longrightarrow> flags n d S \<Longrightarrow> safe (c x d)"
  shows "flags n d S \<Longrightarrow> safe (check_fold c xs d)"
  using assms(2)
proof (induction xs arbitrary: d S)
  case (Cons x xs)
  have "safe (check_fold c xs m)" if "c x d = ok m" for m
    using Cons.IH [of m "S \<union> set (ds x)"] definingD [OF assms(1) Cons.prems(1), of x m] that Cons.prems(2) by auto
  then show ?case using Cons.prems by auto
qed simp

definition param_reg :: "storage_state \<Rightarrow> nat \<Rightarrow> nat list" where
  "param_reg st p = [bp_reg (st_block_params st ! p)]"

definition param_ok :: "storage_state \<Rightarrow> nat \<Rightarrow> bool" where
  "param_ok st p \<longleftrightarrow> p < length (st_block_params st) \<and> bp_type (st_block_params st ! p) < length (st_types st)
     \<and> bp_reg (st_block_params st ! p) < length (st_registers st)"

definition dst_reg :: "storage_state \<Rightarrow> nat \<Rightarrow> nat list" where
  "dst_reg st i = (case in_dst (st_instrs st ! i) of None \<Rightarrow> [] | Some r \<Rightarrow> [r])"

definition dst_ok :: "storage_state \<Rightarrow> nat \<Rightarrow> bool" where
  "dst_ok st i \<longleftrightarrow> i < length (st_instrs st) \<and> (\<forall>r \<in> set (dst_reg st i). r < length (st_registers st))"

lemma ok_mark:
  assumes "flags n d S" "r < n"
  shows "(if d ! r then err k i else ok (d[r := True])) = ok d' \<longleftrightarrow> r \<notin> S \<and> flags n d' (insert r S)"
proof -
  have "d ! r \<longleftrightarrow> r \<in> S" using assms by (simp add: flags_def)
  then show ?thesis using flags_mark [OF assms] flags_unique [OF flags_mark [OF assms], of d'] by auto
qed

lemma defining_param: "defining (length (st_registers st)) (define_param st) (param_ok st) (param_reg st)"
  unfolding defining_def
proof (intro allI impI)
  fix x d S d' assume d: "flags (length (st_registers st)) d S"
  then have len: "length d = length (st_registers st)" by (simp add: flags_def)
  show "define_param st x d = ok d' \<longleftrightarrow> param_ok st x \<and> distinct (param_reg st x) \<and> set (param_reg st x) \<inter> S = {}
      \<and> flags (length (st_registers st)) d' (S \<union> set (param_reg st x))"
    using ok_mark [OF d, of "bp_reg (st_block_params st ! x)" RedefinedRegister "bp_reg (st_block_params st ! x)" d']
    by (auto simp: define_param_def param_ok_def param_reg_def len not_le)
qed

lemma defining_dst: "defining (length (st_registers st)) (define_dst st) (dst_ok st) (dst_reg st)"
  unfolding defining_def
proof (intro allI impI)
  fix x d S d' assume d: "flags (length (st_registers st)) d S"
  then have len: "length d = length (st_registers st)" by (simp add: flags_def)
  show "define_dst st x d = ok d' \<longleftrightarrow> dst_ok st x \<and> distinct (dst_reg st x) \<and> set (dst_reg st x) \<inter> S = {}
      \<and> flags (length (st_registers st)) d' (S \<union> set (dst_reg st x))"
  proof (cases "in_dst (st_instrs st ! x)")
    case None
    then show ?thesis using d flags_unique by (auto simp: define_dst_def dst_ok_def dst_reg_def)
  next
    case (Some r)
    then show ?thesis using ok_mark [OF d, of r RedefinedRegister r d']
      by (auto simp: define_dst_def dst_ok_def dst_reg_def len not_le)
  qed
qed


definition block_ok :: "storage_state \<Rightarrow> nat \<Rightarrow> bool" where
  "block_ok st b \<longleftrightarrow> b < length (st_blocks st) \<and> block_bounds st (st_blocks st ! b)"

lemma concat_param_reg: "concat (map (param_reg st) (range_list r)) = map bp_reg (rows (st_block_params st) r)"
  by (simp add: rows_def param_reg_def [abs_def] comp_def concat_map_singleton)

lemma concat_dst_reg: "concat (map (dst_reg st) (range_list r))
    = concat (map (\<lambda>i. case in_dst i of None \<Rightarrow> [] | Some r \<Rightarrow> [r]) (rows (st_instrs st) r))"
  by (simp add: rows_def dst_reg_def [abs_def] comp_def)

lemma block_bounds_iff:
  "block_bounds st b \<longleftrightarrow> range_in_bounds (bl_instrs b) (length (st_instrs st))
     \<and> range_in_bounds (bl_params b) (length (st_block_params st))
     \<and> (\<forall>p \<in> set (range_list (bl_params b)). param_ok st p) \<and> (\<forall>i \<in> set (range_list (bl_instrs b)). dst_ok st i)"
  unfolding block_bounds_def block_regs_def concat_dst_reg [symmetric]
  by (auto simp: param_ok_def dst_ok_def rows_def dest: range_less)

lemma defining_block: "defining (length (st_registers st)) (define_block st) (block_ok st)
    (\<lambda>b. block_regs st (st_blocks st ! b))"
  unfolding defining_def
proof (intro allI impI)
  fix x d S d' assume d: "flags (length (st_registers st)) d S"
  let ?b = "st_blocks st ! x"
  note both = defining_then [OF defining_fold [OF defining_param [of st]] defining_fold [OF defining_dst [of st]],
      where f = "\<lambda>x. range_list (bl_params (st_blocks st ! x))" and g = "\<lambda>x. range_list (bl_instrs (st_blocks st ! x))"]
  show "define_block st x d = ok d' \<longleftrightarrow> block_ok st x \<and> distinct (block_regs st ?b) \<and> set (block_regs st ?b) \<inter> S = {}
      \<and> flags (length (st_registers st)) d' (S \<union> set (block_regs st ?b))"
    using definingD [OF both d, of x d']
    by (auto simp: define_block_def block_ok_def block_bounds_iff block_regs_def concat_param_reg concat_dst_reg)
qed


lemma define_block_safe:
  assumes "flags (length (st_registers st)) d S" "x < length (st_blocks st)"
  shows "safe (define_block st x d)"
proof -
  let ?b = "st_blocks st ! x"
  have len: "length d' = length (st_registers st)" if "flags (length (st_registers st)) d' S'" for d' S'
    using that by (simp add: flags_def)
  have params: "safe (check_fold (define_param st) (range_list (bl_params ?b)) d)"
    if "range_in_bounds (bl_params ?b) (length (st_block_params st))"
    by (rule check_fold_safe [OF defining_param _ assms(1)])
      (auto simp: define_param_def not_le len dest: range_less [OF that])
  have instrs: "safe (check_fold (define_dst st) (range_list (bl_instrs ?b)) m)"
    if bounds: "range_in_bounds (bl_instrs ?b) (length (st_instrs st))"
      and m: "check_fold (define_param st) (range_list (bl_params ?b)) d = ok m" for m
  proof -
    have "flags (length (st_registers st)) m (S \<union> set (concat (map (param_reg st) (range_list (bl_params ?b)))))"
      using m definingD [OF defining_fold [OF defining_param] assms(1)] by simp
    then show ?thesis
      by (rule check_fold_safe [OF defining_dst, rotated])
        (auto simp: define_dst_def not_le len dest: range_less [OF bounds] split: option.split)
  qed
  show ?thesis using assms(2) params instrs by (simp add: define_block_def)
qed

subsection \<open>Instructions\<close>

lemma check_operand_iff:
  assumes "i < length (st_operands st)" "flags (length (st_registers st)) d (set (storage_regs st))"
  shows "check_operand st d i = ok () \<longleftrightarrow> operand_wf st (st_operands st ! i)" "safe (check_operand st d i)"
  using assms
  by (auto simp: check_operand_def operand_wf_def flags_def not_le not_less split: operand_data.split)

lemma operand_at_in:
  "range_in_bounds (in_operands instr) (length (st_operands st)) \<Longrightarrow> j < operand_count instr
    \<Longrightarrow> operand_at st instr j = Some (rows (st_operands st) (in_operands instr) ! j)"
  by (simp add: operand_at_def rows_def range_list_def range_at_def operand_count_def range_in_bounds_def)

lemma length_rows [simp]: "length (rows xs r) = rg_size r"
  by (simp add: rows_def range_list_def)

lemma tag_at_wf: "operand_wf st opd \<Longrightarrow> tag_at st (opd_type opd) = Some (type_tag_of st opd)"
  by (simp add: tag_at_def type_tag_of_def operand_wf_def)

lemma plain_target:
  "operand_wf st opd \<Longrightarrow> check_plain_target st k i opd = ok () \<longleftrightarrow> target_params st opd = Some 0"
  "operand_wf st opd \<Longrightarrow> safe (check_plain_target st k i opd)"
  by (auto simp: check_plain_target_def target_params_def operand_wf_def split: operand_data.split)

text \<open>An instruction whose operands have been checked.\<close>

definition checked :: "storage_state \<Rightarrow> instruction \<Rightarrow> operand list \<Rightarrow> bool" where
  "checked st instr opds \<longleftrightarrow> operand_count instr = length opds
     \<and> (\<forall>j < length opds. operand_at st instr j = Some (opds ! j)) \<and> (\<forall>opd \<in> set opds. operand_wf st opd)"

lemma checkedD:
  assumes "checked st instr opds"
  shows "operand_count instr = length opds" "j < length opds \<Longrightarrow> operand_at st instr j = Some (opds ! j)"
    "j < length opds \<Longrightarrow> operand_wf st (opds ! j)"
  using assms by (auto simp: checked_def)

lemma integer_operand:
  assumes "checked st instr opds" "j < length opds"
  shows "check_integer_operand st k i instr j = ok () \<longleftrightarrow> is_integer_type (type_tag_of st (opds ! j))"
    "safe (check_integer_operand st k i instr j)"
  using assms by (auto simp: check_integer_operand_def checkedD tag_at_wf)

lemma all_from: "(\<forall>j \<in> set [k..<length xs]. P (xs ! j)) \<longleftrightarrow> list_all P (drop k xs)"
proof
  assume all: "\<forall>j \<in> set [k..<length xs]. P (xs ! j)"
  show "list_all P (drop k xs)" using all by (auto simp: list_all_length)
next
  assume "list_all P (drop k xs)"
  then have "P (xs ! j)" if "k \<le> j" "j < length xs" for j
    using that by (auto simp: list_all_length dest!: spec [of _ "j - k"])
  then show "\<forall>j \<in> set [k..<length xs]. P (xs ! j)" by simp
qed

lemma call_shape:
  assumes c: "checked st instr opds" and "\<forall>r \<in> set (st_registers st). rg_type r < length (st_types st)"
    "\<forall>node \<in> set (st_types st). type_wf st node"
  shows "check_call st i instr = ok () \<longleftrightarrow> (\<exists>callee args. opds = callee # args \<and> callee_params st callee = Some (length args))"
    "safe (check_call st i instr)"
proof -
  have reg: "rg_type (st_registers st ! r) < length (st_types st)" if "r < length (st_registers st)" for r
    using assms(2) that by simp
  have sig: "tn_data (st_types st ! t) < length (st_func_types st)" if "t < length (st_types st)" "tn_tag (st_types st ! t) = TyFunc" for t
    using assms(3) nth_mem [OF that(1)] that(2) by (auto simp: type_wf_def Let_def)
  show "check_call st i instr = ok () \<longleftrightarrow> (\<exists>callee args. opds = callee # args \<and> callee_params st callee = Some (length args))"
    using checkedD(1) [OF c] checkedD(2,3) [OF c, of 0]
    by (cases opds) (auto simp: check_call_def callee_params_def operand_wf_def Let_def reg sig split: operand_data.split)
  show "safe (check_call st i instr)"
    using checkedD(1) [OF c] checkedD(2,3) [OF c, of 0]
    by (cases opds) (auto simp: check_call_def operand_wf_def reg sig split: operand_data.split)
qed

lemma br_shape:
  assumes c: "checked st instr opds"
  shows "check_br st i instr = ok () \<longleftrightarrow> (\<exists>target args. opds = target # args \<and> target_params st target = Some (length args))"
    "safe (check_br st i instr)"
  using checkedD(1) [OF c] checkedD(2,3) [OF c, of 0]
  by (cases opds; auto simp: check_br_def target_params_def operand_wf_def split: operand_data.split)+


lemma length3: "length xs = 3 \<longleftrightarrow> (\<exists>a b c. xs = [a, b, c])"
  by (auto simp: numeral_3_eq_3 length_Suc_conv)

lemma length2: "length xs = 2 \<longleftrightarrow> (\<exists>a b. xs = [a, b])"
  by (auto simp: numeral_2_eq_2 length_Suc_conv)

lemma upt_1_3: "[1..<3] = [1, 2 :: nat]" "[Suc 0..<3] = [1, 2]"
  by (simp_all add: upt_rec)

lemma cond_br_shape:
  assumes c: "checked st instr opds"
  shows "check_cond_br st i instr = ok () \<longleftrightarrow> (\<exists>c t f. opds = [c, t, f] \<and> type_tag_of st c = TyI1
      \<and> target_params st t = Some 0 \<and> target_params st f = Some 0)"
    "safe (check_cond_br st i instr)"
proof -
  note at = checkedD(2) [OF c] and wf = checkedD(3) [OF c]
  have "(check_cond_br st i instr = ok () \<longleftrightarrow> (\<exists>c t f. opds = [c, t, f] \<and> type_tag_of st c = TyI1
      \<and> target_params st t = Some 0 \<and> target_params st f = Some 0)) \<and> safe (check_cond_br st i instr)"
  proof (cases "length opds = 3")
    case False
    then show ?thesis using checkedD(1) [OF c] by (auto simp: check_cond_br_def)
  next
    case True
    then obtain a t f where opds: "opds = [a, t, f]" using length3 [of opds] by auto
    have at: "operand_at st instr 0 = Some a" "operand_at st instr 1 = Some t" "operand_at st instr 2 = Some f"
      using at [of 0] at [of 1] at [of 2] by (simp_all add: opds)
    have wf: "operand_wf st a" "operand_wf st t" "operand_wf st f"
      using wf [of 0] wf [of 1] wf [of 2] by (simp_all add: opds)
    have "check_cond_br st i instr = (if type_tag_of st a \<noteq> TyI1 then err InvalidCondBr i
        else and_then (check_plain_target st InvalidCondBr i t)
          (\<lambda>_. and_then (check_plain_target st InvalidCondBr i f) (\<lambda>_. ok ())))"
      unfolding check_cond_br_def upt_1_3 using checkedD(1) [OF c]
      by (simp add: opds at at(2) [simplified] tag_at_wf [OF wf(1)])
    then show ?thesis by (simp add: plain_target wf opds)
  qed
  then show "check_cond_br st i instr = ok () \<longleftrightarrow> (\<exists>c t f. opds = [c, t, f] \<and> type_tag_of st c = TyI1
      \<and> target_params st t = Some 0 \<and> target_params st f = Some 0)" "safe (check_cond_br st i instr)" by auto
qed

lemma cases_wf_iff:
  "cases_wf st xs \<longleftrightarrow> even (length xs)
     \<and> (\<forall>j < length xs. even j \<longrightarrow> is_immutable (xs ! j) \<and> target_params st (xs ! Suc j) = Some 0)"
proof (induction st xs rule: cases_wf.induct)
  case (1 st v t opds)
  have "(\<forall>j < length (v # t # opds). even j \<longrightarrow> is_immutable ((v # t # opds) ! j) \<and> target_params st ((v # t # opds) ! Suc j) = Some 0)
    \<longleftrightarrow> is_immutable v \<and> target_params st t = Some 0
      \<and> (\<forall>j < length opds. even j \<longrightarrow> is_immutable (opds ! j) \<and> target_params st (opds ! Suc j) = Some 0)"
    by (simp add: All_less_Suc2)
  then show ?case using 1 by simp argo
qed simp_all

lemma check_case_iff:
  assumes c: "checked st instr opds" and "Suc j < length opds"
  shows "check_case st i instr j = ok () \<longleftrightarrow> is_immutable (opds ! j) \<and> target_params st (opds ! Suc j) = Some 0"
    "safe (check_case st i instr j)"
  using assms(2) checkedD(2) [OF c, of j] checkedD(2,3) [OF c, of "Suc j"]
  by (auto simp: check_case_def is_immutable_def plain_target split: operand_data.split)

lemma switch_shape:
  assumes c: "checked st instr opds"
  shows "check_switch st i instr = ok () \<longleftrightarrow> (\<exists>v d cases. opds = v # d # cases \<and> is_integer_type (type_tag_of st v)
      \<and> target_params st d = Some 0 \<and> cases_wf st cases)"
    "safe (check_switch st i instr)"
proof -
  note at = checkedD(2) [OF c] and wf = checkedD(3) [OF c]
  have "(check_switch st i instr = ok () \<longleftrightarrow> (\<exists>v d cases. opds = v # d # cases \<and> is_integer_type (type_tag_of st v)
      \<and> target_params st d = Some 0 \<and> cases_wf st cases)) \<and> safe (check_switch st i instr)"
  proof (cases "length opds < 2 \<or> odd (length opds)")
    case True
    then show ?thesis using checkedD(1) [OF c] by (auto simp: check_switch_def cases_wf_iff)
  next
    case False
    then obtain v d cases where opds: "opds = v # d # cases" by (cases opds; cases "tl opds") auto
    have even: "even (length cases)" using False opds by simp
    have offsets: "j \<in> set (case_offsets (length opds)) \<Longrightarrow> Suc j < length opds" for j
      using False by (auto simp: case_offsets_def) (metis Suc_lessI even_Suc)
    have all: "(\<forall>j \<in> set (case_offsets (length opds)). check_case st i instr j = ok ()) \<longleftrightarrow> cases_wf st cases"
    proof -
      have "(\<forall>j \<in> set (case_offsets (length opds)). check_case st i instr j = ok ())
        \<longleftrightarrow> (\<forall>j \<in> set (case_offsets (length opds)). is_immutable (opds ! j) \<and> target_params st (opds ! Suc j) = Some 0)"
        using check_case_iff(1) [OF c] offsets by auto
      also have "\<dots> \<longleftrightarrow> (\<forall>j < length cases. even j \<longrightarrow> is_immutable (cases ! j) \<and> target_params st (cases ! Suc j) = Some 0)"
      proof -
        have "set (case_offsets (length opds)) = (\<lambda>j. Suc (Suc j)) ` {j. j < length cases \<and> even j}"
        proof (rule set_eqI)
          fix n show "n \<in> set (case_offsets (length opds)) \<longleftrightarrow> n \<in> (\<lambda>j. Suc (Suc j)) ` {j. j < length cases \<and> even j}"
            by (cases n; cases "n - 1") (auto simp: case_offsets_def opds)
        qed
        then show ?thesis by (auto simp: opds)
      qed
      finally show ?thesis by (simp add: cases_wf_iff even)
    qed
    have safe: "safe (check_all (check_case st i instr) (case_offsets (length opds)))"
      by (rule check_all_safe) (use check_case_iff(2) [OF c] offsets in blast)
    show ?thesis
      using checkedD(1) [OF c] at [of 0] at [of 1] wf [of 0] wf [of 1] False all safe
      by (simp add: check_switch_def tag_at_wf plain_target opds)
  qed
  then show "check_switch st i instr = ok () \<longleftrightarrow> (\<exists>v d cases. opds = v # d # cases \<and> is_integer_type (type_tag_of st v)
      \<and> target_params st d = Some 0 \<and> cases_wf st cases)" "safe (check_switch st i instr)" by auto
qed


lemma gep_shape:
  assumes c: "checked st instr opds"
  shows "check_get_element_ptr st i instr = ok () \<longleftrightarrow> (\<exists>b i is. opds = b # i # is \<and> is_register b
      \<and> list_all (\<lambda>x. is_integer_type (type_tag_of st x)) (i # is))"
    "safe (check_get_element_ptr st i instr)"
proof -
  let ?P = "\<lambda>x. is_integer_type (type_tag_of st x)"
  have all: "(\<forall>j \<in> set [1..<length opds]. check_integer_operand st InvalidGetElementPtr i instr j = ok ()) \<longleftrightarrow> list_all ?P (drop 1 opds)"
    unfolding all_from [symmetric] using integer_operand(1) [OF c] by auto
  have safe: "safe (check_all (check_integer_operand st InvalidGetElementPtr i instr) [1..<length opds])"
    by (rule check_all_safe) (use integer_operand(2) [OF c] in auto)
  note c0 = checkedD(1) [OF c] checkedD(2) [OF c, of 0]
  show "check_get_element_ptr st i instr = ok () \<longleftrightarrow> (\<exists>b i is. opds = b # i # is \<and> is_register b \<and> list_all ?P (i # is))"
  proof (cases opds rule: remdups_adj.cases)
    case (3 b j js)
    then show ?thesis using c0 all by (simp add: check_get_element_ptr_def)
  qed (use c0 in \<open>simp_all add: check_get_element_ptr_def\<close>)
  show "safe (check_get_element_ptr st i instr)"
    using c0 safe by (cases opds) (auto simp: check_get_element_ptr_def)
qed

lemma elem_offset_shape:
  assumes c: "checked st instr opds"
  shows "check_elem_offset st i instr = ok () \<longleftrightarrow> (\<exists>b i. opds = [b, i] \<and> is_register b
      \<and> is_integer_type (type_tag_of st i) \<and> in_dst instr \<noteq> None)"
    "safe (check_elem_offset st i instr)"
proof -
  note c0 = checkedD(1) [OF c] checkedD(2) [OF c, of 0] integer_operand [OF c, of 1]
  show "check_elem_offset st i instr = ok () \<longleftrightarrow> (\<exists>b i. opds = [b, i] \<and> is_register b
      \<and> is_integer_type (type_tag_of st i) \<and> in_dst instr \<noteq> None)"
  proof (cases "length opds = 2")
    case True
    then obtain b j where "opds = [b, j]" using length2 [of opds] by auto
    then show ?thesis using c0 by (auto simp: check_elem_offset_def)
  qed (use c0(1) in \<open>auto simp: check_elem_offset_def\<close>)
  show "safe (check_elem_offset st i instr)"
    using c0 by (cases opds rule: remdups_adj.cases) (auto simp: check_elem_offset_def)
qed

lemma type_query_shape:
  assumes c: "checked st instr opds"
  shows "check_type_query st i instr = ok () \<longleftrightarrow> opds = [] \<and> in_dst instr \<noteq> None
      \<and> (\<exists>m. in_measure instr = Some m \<and> m < length (st_types st))"
    "safe (check_type_query st i instr)"
  using checkedD(1) [OF c] by (auto simp: check_type_query_def not_le split: option.split)

lemma borrow_shape:
  assumes c: "checked st instr opds"
  shows "check_borrow st i instr = ok () \<longleftrightarrow> (\<exists>p. opds = [p] \<and> is_register p \<and> in_dst instr \<noteq> None)"
    "safe (check_borrow st i instr)"
proof -
  note c0 = checkedD(1) [OF c] checkedD(2) [OF c, of 0]
  show "check_borrow st i instr = ok () \<longleftrightarrow> (\<exists>p. opds = [p] \<and> is_register p \<and> in_dst instr \<noteq> None)"
    using c0 by (cases opds rule: remdups_adj.cases) (auto simp: check_borrow_def)
  show "safe (check_borrow st i instr)" using c0 by (cases opds) (auto simp: check_borrow_def)
qed

lemma upt_0_2: "[0..<2] = [0, 1 :: nat]"
  by (simp add: upt_rec)

lemma memcopy_shape:
  assumes c: "checked st instr opds"
  shows "check_memcopy st i instr = ok () \<longleftrightarrow> (\<exists>d s l. opds = [d, s, l] \<and> in_dst instr = None
      \<and> type_tag_of st d \<in> {TyRef, TyMutRef, TyPtr} \<and> type_tag_of st s \<in> {TyRef, TyMutRef, TyPtr}
      \<and> is_integer_type (type_tag_of st l))"
    "safe (check_memcopy st i instr)"
proof -
  note at = checkedD(2) [OF c] and wf = checkedD(3) [OF c]
  have "(check_memcopy st i instr = ok () \<longleftrightarrow> (\<exists>d s l. opds = [d, s, l] \<and> in_dst instr = None
      \<and> type_tag_of st d \<in> {TyRef, TyMutRef, TyPtr} \<and> type_tag_of st s \<in> {TyRef, TyMutRef, TyPtr}
      \<and> is_integer_type (type_tag_of st l))) \<and> safe (check_memcopy st i instr)"
  proof (cases "length opds = 3 \<and> in_dst instr = None")
    case False
    then show ?thesis using checkedD(1) [OF c] by (auto simp: check_memcopy_def)
  next
    case True
    then obtain a b l where opds: "opds = [a, b, l]" using length3 [of opds] by auto
    have at: "operand_at st instr 0 = Some a" "operand_at st instr (Suc 0) = Some b"
      using at [of 0] at [of 1] by (simp_all add: opds)
    have wf: "operand_wf st a" "operand_wf st b" using wf [of 0] wf [of 1] by (simp_all add: opds)
    have l: "check_integer_operand st InvalidMemcopy i instr 2 = ok () \<longleftrightarrow> is_integer_type (type_tag_of st l)"
      "safe (check_integer_operand st InvalidMemcopy i instr 2)"
      using integer_operand [OF c, of 2] by (simp_all add: opds)
    show ?thesis unfolding check_memcopy_def upt_0_2
      using checkedD(1) [OF c] True by (auto simp: opds at l tag_at_wf wf)
  qed
  then show "check_memcopy st i instr = ok () \<longleftrightarrow> (\<exists>d s l. opds = [d, s, l] \<and> in_dst instr = None
      \<and> type_tag_of st d \<in> {TyRef, TyMutRef, TyPtr} \<and> type_tag_of st s \<in> {TyRef, TyMutRef, TyPtr}
      \<and> is_integer_type (type_tag_of st l))" "safe (check_memcopy st i instr)" by auto
qed

lemma index_operand:
  assumes c: "checked st instr opds" "j < length opds"
  shows "check_index st i instr j = ok () \<longleftrightarrow> is_immutable (opds ! j) \<and> is_integer_type (type_tag_of st (opds ! j))"
    "safe (check_index st i instr j)"
  using checkedD(2) [OF assms] integer_operand [OF assms] by (auto simp: check_index_def)

lemma extract_insert_shape:
  assumes c: "checked st instr opds"
  shows "check_extract_insert st i instr = ok () \<longleftrightarrow> (let k = if in_op instr = OpExtractValue then 1 else 2 in
      k < length opds \<and> list_all (\<lambda>x. is_immutable x \<and> is_integer_type (type_tag_of st x)) (drop k opds))"
    "safe (check_extract_insert st i instr)"
proof -
  have all: "(\<forall>j \<in> set [k..<length opds]. check_index st i instr j = ok ())
      \<longleftrightarrow> list_all (\<lambda>x. is_immutable x \<and> is_integer_type (type_tag_of st x)) (drop k opds)" for k
    unfolding all_from [symmetric] using index_operand(1) [OF c] by auto
  have safe: "safe (check_all (check_index st i instr) [k..<length opds])" for k
    by (rule check_all_safe) (use index_operand(2) [OF c] in auto)
  show "check_extract_insert st i instr = ok () \<longleftrightarrow> (let k = if in_op instr = OpExtractValue then 1 else 2 in
      k < length opds \<and> list_all (\<lambda>x. is_immutable x \<and> is_integer_type (type_tag_of st x)) (drop k opds))"
    using checkedD(1) [OF c] all [of 1] all [of 2] by (auto simp: check_extract_insert_def Let_def)
  show "safe (check_extract_insert st i instr)"
    using checkedD(1) [OF c] safe [of 1] safe [of 2] by (auto simp: check_extract_insert_def Let_def)
qed


lemma extract_shape_wf:
  assumes "shape_of (in_op instr) = ShExtractValue"
  shows "shape_wf st instr opds \<longleftrightarrow> 1 < length opds
    \<and> list_all (\<lambda>x. is_immutable x \<and> is_integer_type (type_tag_of st x)) (drop 1 opds)"
  using assms by (cases opds rule: remdups_adj.cases) (auto simp: shape_wf_def)

lemma insert_shape_wf:
  assumes "shape_of (in_op instr) = ShInsertValue"
  shows "shape_wf st instr opds \<longleftrightarrow> 2 < length opds
    \<and> list_all (\<lambda>x. is_immutable x \<and> is_integer_type (type_tag_of st x)) (drop 2 opds)"
proof (cases opds rule: remdups_adj.cases)
  case (3 a v ixs)
  then show ?thesis using assms by (cases ixs) (auto simp: shape_wf_def)
qed (use assms in \<open>simp_all add: shape_wf_def\<close>)

lemma shape_extract: "shape_of op = ShExtractValue \<longleftrightarrow> op = OpExtractValue"
  by (auto simp: shape_of_def)

lemma shape_insert: "shape_of op = ShInsertValue \<Longrightarrow> op \<noteq> OpExtractValue"
  by (auto simp: shape_of_def)

lemma check_shape_iff:
  assumes c: "checked st instr opds" and regs: "\<forall>r \<in> set (st_registers st). rg_type r < length (st_types st)"
    and types: "\<forall>node \<in> set (st_types st). type_wf st node"
  shows "(check_shape st i instr = ok () \<longleftrightarrow> shape_wf st instr opds) \<and> safe (check_shape st i instr)"
proof (cases "shape_of (in_op instr)")
  case ShExtractValue
  then show ?thesis unfolding extract_shape_wf [OF ShExtractValue]
    using extract_insert_shape [OF c] shape_extract [of "in_op instr"] by (simp add: check_shape_def Let_def)
next
  case ShInsertValue
  then show ?thesis unfolding insert_shape_wf [OF ShInsertValue]
    using extract_insert_shape [OF c] shape_insert [of "in_op instr"] by (simp add: check_shape_def Let_def)
qed (simp_all add: check_shape_def shape_wf_def call_shape [OF c regs types] br_shape [OF c] cond_br_shape [OF c]
    switch_shape [OF c] gep_shape [OF c] elem_offset_shape [OF c] type_query_shape [OF c] borrow_shape [OF c]
    memcopy_shape [OF c] del: not_None_eq)

lemma check_arity_iff: "check_arity i instr = ok () \<longleftrightarrow> arity_wf (in_op instr) (operand_count instr)" "safe (check_arity i instr)"
  by (auto simp: check_arity_def arity_wf_def not_less not_le split: option.split)

lemma check_instr_iff:
  assumes d: "flags (length (st_registers st)) d (set (storage_regs st))" and i: "i < length (st_instrs st)"
    and regs: "\<forall>r \<in> set (st_registers st). rg_type r < length (st_types st)"
    and types: "\<forall>node \<in> set (st_types st). type_wf st node"
  shows "(check_instr st d b e i = ok () \<longleftrightarrow>
      (i + 1 = e \<longleftrightarrow> is_terminator (in_op (st_instrs st ! i))) \<and> instr_wf st (st_instrs st ! i))
    \<and> safe (check_instr st d b e i)"
proof (cases "range_in_bounds (in_operands (st_instrs st ! i)) (length (st_operands st))")
  case False
  then show ?thesis using i by (auto simp: check_instr_def instr_wf_def)
next
  case True
  let ?i = "st_instrs st ! i"
  let ?opds = "rows (st_operands st) (in_operands ?i)"
  note opd = check_operand_iff [OF range_less [OF True] d]
  have all: "(\<forall>o' \<in> set (range_list (in_operands ?i)). check_operand st d o' = ok ()) \<longleftrightarrow> list_all (operand_wf st) ?opds"
    using opd(1) by (simp add: list_all_iff rows_def)
  have safe: "safe (check_all (check_operand st d) (range_list (in_operands ?i)))"
    by (rule check_all_safe) (use opd(2) in blast)
  have checked: "checked st ?i ?opds" if "list_all (operand_wf st) ?opds"
    using that operand_at_in [OF True] by (auto simp: checked_def list_all_iff operand_count_def)
  have shape: "list_all (operand_wf st) ?opds \<Longrightarrow>
      (check_shape st i ?i = ok () \<longleftrightarrow> shape_wf st ?i ?opds) \<and> safe (check_shape st i ?i)"
    by (rule check_shape_iff [OF checked regs types])
  have cnt: "operand_count ?i = length ?opds" by (simp add: operand_count_def)
  show ?thesis using i True all safe shape
    by (auto simp: check_instr_def instr_wf_def Let_def check_arity_iff cnt simp del: length_rows)
qed


lemma rows_Cons: "rg_size r \<noteq> 0 \<Longrightarrow> rows xs r \<noteq> [] \<and> last (rows xs r) = xs ! (rg_head r + rg_size r - 1)
    \<and> butlast (rows xs r) = map ((!) xs) [rg_head r..<rg_head r + rg_size r - 1]"
  by (cases "rg_size r") (simp_all add: rows_def range_list_def)

lemma terminators_iff:
  assumes "rg_size r \<noteq> 0"
  shows "(\<forall>i \<in> set (range_list r). (i + 1 = rg_head r + rg_size r \<longleftrightarrow> P (xs ! i)))
    \<longleftrightarrow> P (last (rows xs r)) \<and> (\<forall>x \<in> set (butlast (rows xs r)). \<not> P x)"
proof -
  obtain n where n: "rg_size r = Suc n" using assms by (cases "rg_size r") auto
  have "set (range_list r) = insert (rg_head r + n) {rg_head r..<rg_head r + n}" by (auto simp: range_list_def n)
  then show ?thesis using rows_Cons [OF assms, of xs] by (auto simp: n)
qed

lemma check_block_iff:
  assumes d: "flags (length (st_registers st)) d (set (storage_regs st))" and b: "b < length (st_blocks st)"
    and bounds: "block_bounds st (st_blocks st ! b)"
    and regs: "\<forall>r \<in> set (st_registers st). rg_type r < length (st_types st)"
    and types: "\<forall>node \<in> set (st_types st). type_wf st node"
  shows "(check_block st d b = ok () \<longleftrightarrow> block_wf st (st_blocks st ! b)) \<and> safe (check_block st d b)"
proof (cases "rg_size (bl_instrs (st_blocks st ! b)) = 0")
  case True
  then show ?thesis using b by (simp add: check_block_def block_wf_def Let_def rows_def range_list_def)
next
  case False
  let ?r = "bl_instrs (st_blocks st ! b)"
  let ?stop = "rg_head ?r + rg_size ?r"
  have less: "i \<in> set (range_list ?r) \<Longrightarrow> i < length (st_instrs st)" for i
    using bounds range_less by (auto simp: block_bounds_def)
  note one = check_instr_iff [OF d less regs types]
  have "(\<forall>i \<in> set (range_list ?r). check_instr st d b ?stop i = ok ())
    \<longleftrightarrow> (\<forall>i \<in> set (range_list ?r). (i + 1 = ?stop \<longleftrightarrow> is_terminator (in_op (st_instrs st ! i))))
      \<and> (\<forall>i \<in> set (range_list ?r). instr_wf st (st_instrs st ! i))"
    using one by blast
  also have "\<dots> \<longleftrightarrow> block_wf st (st_blocks st ! b)"
    using terminators_iff [OF False, of "\<lambda>i. is_terminator (in_op i)" "st_instrs st"] rows_Cons [OF False, of "st_instrs st"]
    by (simp add: block_wf_def Let_def all_rows_range)
  finally have "(\<forall>i \<in> set (range_list ?r). check_instr st d b ?stop i = ok ()) \<longleftrightarrow> block_wf st (st_blocks st ! b)" .
  moreover have "safe (check_all (check_instr st d b ?stop) (range_list ?r))"
    by (rule check_all_safe) (use one in blast)
  ultimately show ?thesis using b False by (simp add: check_block_def)
qed

subsection \<open>The verifier\<close>

lemma check_table_iff:
  assumes "\<And>i. i < length xs \<Longrightarrow> c i = ok () \<longleftrightarrow> P (xs ! i)"
  shows "check_all c [0..<length xs] = ok () \<longleftrightarrow> (\<forall>x \<in> set xs. P x)"
  using assms by (auto simp: all_set_conv_all_nth)

lemma check_table_safe: "(\<And>i. i < length xs \<Longrightarrow> safe (c i)) \<Longrightarrow> safe (check_all c [0..<length xs])"
  by (rule check_all_safe) simp

lemma tables_iff:
  "check_all (check_type st) [0..<length (st_types st)] = ok () \<longleftrightarrow> (\<forall>node \<in> set (st_types st). type_wf st node)"
  "check_all (check_register st) [0..<length (st_registers st)] = ok ()
    \<longleftrightarrow> (\<forall>r \<in> set (st_registers st). rg_type r < length (st_types st))"
  "check_all (check_immutable st) [0..<length (st_immutables st)] = ok ()
    \<longleftrightarrow> (\<forall>im \<in> set (st_immutables st). im_type im < length (st_types st))"
  "check_all (check_function st) [0..<length (st_functions st)] = ok () \<longleftrightarrow> (\<forall>f \<in> set (st_functions st). function_wf st f)"
  "check_all (check_external st) [0..<length (st_external_functions st)] = ok ()
    \<longleftrightarrow> (\<forall>f \<in> set (st_external_functions st). external_wf st f)"
  "check_all (check_body st) [0..<length (st_functions st)] = ok ()
    \<longleftrightarrow> (\<forall>f \<in> set (st_functions st). rg_size (fn_blocks f) \<noteq> 0)"
  by (rule check_table_iff, simp only: check_type_iff check_register_iff check_immutable_iff check_function_iff
      check_external_iff check_body_iff)+

lemmas tables_safe = check_table_safe [OF check_type_safe] check_table_safe [OF row_checks_safe(1)]
  check_table_safe [OF row_checks_safe(2)] check_table_safe [OF row_checks_safe(3)]
  check_table_safe [OF row_checks_safe(4)] check_table_safe [OF row_checks_safe(5)]

abbreviation undefined_regs :: "storage_state \<Rightarrow> bool list" where
  "undefined_regs st \<equiv> replicate (length (st_registers st)) False"

lemma define_all_iff:
  "check_fold (define_block st) [0..<length (st_blocks st)] (undefined_regs st) = ok d
    \<longleftrightarrow> (\<forall>b \<in> set (st_blocks st). block_bounds st b) \<and> distinct (storage_regs st)
      \<and> flags (length (st_registers st)) d (set (storage_regs st))"
proof -
  have start: "flags (length (st_registers st)) (undefined_regs st) {}" by (simp add: flags_def)
  have regs: "map (\<lambda>b. block_regs st (st_blocks st ! b)) [0..<length (st_blocks st)] = map (block_regs st) (st_blocks st)"
    by (rule nth_equalityI) simp_all
  have ok: "(\<forall>b \<in> set [0..<length (st_blocks st)]. block_ok st b) \<longleftrightarrow> (\<forall>b \<in> set (st_blocks st). block_bounds st b)"
    by (auto simp: block_ok_def all_set_conv_all_nth)
  show ?thesis
    using definingD [OF defining_fold [OF defining_block] start, of "[0..<length (st_blocks st)]" d]
    unfolding regs ok storage_regs_def by simp
qed

lemma define_all_safe: "safe (check_fold (define_block st) [0..<length (st_blocks st)] (undefined_regs st))"
proof (rule check_fold_safe [OF defining_block])
  show "flags (length (st_registers st)) (undefined_regs st) {}" by (simp add: flags_def)
qed (auto intro: define_block_safe)

lemma check_blocks:
  assumes "\<forall>b \<in> set (st_blocks st). block_bounds st b" "flags (length (st_registers st)) d (set (storage_regs st))"
    "\<forall>r \<in> set (st_registers st). rg_type r < length (st_types st)" "\<forall>node \<in> set (st_types st). type_wf st node"
  shows "check_all (check_block st d) [0..<length (st_blocks st)] = ok () \<longleftrightarrow> (\<forall>b \<in> set (st_blocks st). block_wf st b)"
    "safe (check_all (check_block st d) [0..<length (st_blocks st)])"
proof -
  have one: "(check_block st d b = ok () \<longleftrightarrow> block_wf st (st_blocks st ! b)) \<and> safe (check_block st d b)"
    if "b < length (st_blocks st)" for b
    by (rule check_block_iff [OF assms(2) that _ assms(3,4)]) (use assms(1) that in simp)
  show "check_all (check_block st d) [0..<length (st_blocks st)] = ok () \<longleftrightarrow> (\<forall>b \<in> set (st_blocks st). block_wf st b)"
    by (rule check_table_iff) (use one in blast)
  show "safe (check_all (check_block st d) [0..<length (st_blocks st)])"
    by (rule check_table_safe) (use one in blast)
qed

text \<open>
  C24. The verifier never reads past a table, on any storage whatsoever: every row it looks at while it checks
  a storage filled from a file exists by the time it looks, so it always answers.
\<close>

theorem verifier_reads_in_bounds: "\<exists>answer. verify_storage st = Some answer"
proof -
  have "safe (verify_storage st)"
    unfolding verify_storage_def using check_blocks(2)
    by (simp add: tables_iff tables_safe define_all_iff define_all_safe del: check_all_ok)
  then show ?thesis by (simp add: safe_def)
qed

lemma verify_storage_iff: "verify_storage st = ok () \<longleftrightarrow> storage_wf st"
proof -
  let ?first = "(\<forall>node \<in> set (st_types st). type_wf st node) \<and> (\<forall>r \<in> set (st_registers st). rg_type r < length (st_types st))"
  let ?bounds = "\<forall>b \<in> set (st_blocks st). block_bounds st b"
  let ?flags = "\<lambda>d. flags (length (st_registers st)) d (set (storage_regs st))"
  have blocks: "check_all (check_block st d) [0..<length (st_blocks st)] = ok () \<longleftrightarrow> (\<forall>b \<in> set (st_blocks st). block_wf st b)"
    if "?first" "?bounds" "?flags d" for d
    using check_blocks(1) [OF that(2,3)] that(1) by blast
  have bodies: "(\<exists>d. (?bounds \<and> distinct (storage_regs st) \<and> ?flags d)
      \<and> check_all (check_block st d) [0..<length (st_blocks st)] = ok ())
    \<longleftrightarrow> ?bounds \<and> distinct (storage_regs st) \<and> (\<forall>b \<in> set (st_blocks st). block_wf st b)" if "?first"
    using blocks [OF that] flags_exist [of "length (st_registers st)" "set (storage_regs st)"] by metis
  let ?rest = "(\<forall>im \<in> set (st_immutables st). im_type im < length (st_types st)) \<and> (\<forall>f \<in> set (st_functions st). function_wf st f)
      \<and> (\<forall>f \<in> set (st_external_functions st). external_wf st f)"
  have "verify_storage st = ok () \<longleftrightarrow> ?first \<and> ?rest \<and> (\<exists>d. (?bounds \<and> distinct (storage_regs st) \<and> ?flags d)
      \<and> check_all (check_block st d) [0..<length (st_blocks st)] = ok ()) \<and> (\<forall>f \<in> set (st_functions st). rg_size (fn_blocks f) \<noteq> 0)"
    unfolding verify_storage_def by (simp add: tables_iff define_all_iff del: check_all_ok) blast
  also have "\<dots> \<longleftrightarrow> storage_wf st" unfolding storage_wf_def using bodies by argo
  finally show ?thesis .
qed

text \<open>
  C3. The verifier accepts exactly the well-formed storages: every index and range stays inside its table,
  no register is defined twice and every register operand is defined, every block ends in its only
  terminator, every instruction has operands of its shape and count, symbol kinds and calling
  conventions are defined ones, and no function is without a block.
\<close>

theorem verifier_exact: "verify_storage st = Some (Inr ()) \<longleftrightarrow> storage_wf st"
  using verify_storage_iff by (simp add: ok_def)

end
