(* ===== verification/Overlay.thy ===== *)
theory Overlay
  imports Comp_Value Ir_Verifier
begin

text \<open>
  \<^verbatim>\<open>src/src/overlay/overlay.h\<close> and \<^verbatim>\<open>overlay.cc\<close>: the checks a build with overflow checks adds to the IR.  A read
  past a table is \<^term>\<open>None\<close>; the values the sources keep in a \<^verbatim>\<open>std::optional\<close> are options inside it.  String
  pool ids are numbers and zero is the empty string's.
\<close>

datatype check_kind = CheckNone | CheckOverflow | CheckShiftRange | CheckMinOverOne

record entry =
  en_kind :: check_kind
  en_operand :: "nat option"
  en_site :: nat

definition EMPTY_STRING_ID :: nat where
  "EMPTY_STRING_ID = 0"

definition blank_entry :: entry where
  "blank_entry = \<lparr>en_kind = CheckNone, en_operand = None, en_site = EMPTY_STRING_ID\<rparr>"

record checks =
  ck_kinds :: "check_kind list"
  ck_raw :: "bool list"

definition keeps_instr :: "checks \<Rightarrow> nat \<Rightarrow> bool option" where
  "keeps_instr c i = do {
     kind \<leftarrow> row (ck_kinds c) i;
     raw \<leftarrow> row (ck_raw c) i;
     Some (kind \<noteq> CheckNone \<or> raw)
   }"

definition integer_bits :: "type_tag \<Rightarrow> u64" where
  "integer_bits tag =
     (if tag = TyI8 \<or> tag = TyU8 then 8
      else if tag = TyI16 \<or> tag = TyU16 then 16
      else if tag = TyI32 \<or> tag = TyU32 then 32
      else 64)"

definition first_operand_tag :: "storage_state \<Rightarrow> instruction \<Rightarrow> type_tag option" where
  "first_operand_tag st instr = do {
     opd \<leftarrow> operand_at st instr 0;
     tag_at st (opd_type opd)
   }"

definition integer_constant :: "storage_state \<Rightarrow> nat \<Rightarrow> u64 option option" where
  "integer_constant st oidx = do {
     op \<leftarrow> row (st_operands st) oidx;
     case opd_data op of
       OpdImmutable i \<Rightarrow> do {
         imm \<leftarrow> row (st_immutables st) i;
         tag \<leftarrow> tag_at st (opd_type op);
         if \<not> is_integer_type tag then Some None else Some (as_u64_integer tag imm)
       }
     | _ \<Rightarrow> Some None
   }"

text \<open>The instruction that defines the register an operand names, when there is one.\<close>

definition defining_instr :: "storage_state \<Rightarrow> nat \<Rightarrow> instruction option option" where
  "defining_instr st oidx = do {
     op \<leftarrow> row (st_operands st) oidx;
     case opd_data op of
       OpdRegister r \<Rightarrow> do {
         reg \<leftarrow> row (st_registers st) r;
         case rg_def reg of
           None \<Rightarrow> Some None
         | Some def \<Rightarrow> do { instr \<leftarrow> row (st_instrs st) def; Some (Some instr) }
       }
     | _ \<Rightarrow> Some None
   }"

definition raw_shift_count :: "storage_state \<Rightarrow> instruction \<Rightarrow> nat option" where
  "raw_shift_count st shift = do {
     let amount = range_at (in_operands shift) 1;
     def \<leftarrow> defining_instr st amount;
     case def of
       None \<Rightarrow> Some amount
     | Some mask' \<Rightarrow>
         if in_op mask' \<noteq> OpAnd \<or> operand_count mask' \<noteq> 2 then Some amount
         else do {
           width_mask \<leftarrow> integer_constant st (range_at (in_operands mask') 1);
           case width_mask of
             None \<Rightarrow> Some amount
           | Some m \<Rightarrow> do {
               tag \<leftarrow> first_operand_tag st shift;
               if m \<noteq> integer_bits tag - 1 then Some amount else Some (range_at (in_operands mask') 0)
             }
         }
   }"

definition raw_divisor :: "storage_state \<Rightarrow> instruction \<Rightarrow> nat option" where
  "raw_divisor st division = do {
     let divisor = range_at (in_operands division) 1;
     def \<leftarrow> defining_instr st divisor;
     case def of
       None \<Rightarrow> Some divisor
     | Some sel \<Rightarrow>
         if in_op sel \<noteq> OpSelect \<or> operand_count sel \<noteq> 3 then Some divisor
         else Some (range_at (in_operands sel) 2)
   }"

definition checked_entry :: "storage_state \<Rightarrow> instruction \<Rightarrow> entry option" where
  "checked_entry st instr =
     (if in_op instr \<in> {OpIntAdd, OpIntSub, OpIntMul} then Some (blank_entry\<lparr>en_kind := CheckOverflow\<rparr>)
      else if in_op instr \<in> {OpShiftLeft, OpArithmeticShiftRight, OpLogicalShiftRight} then do {
        operand \<leftarrow> raw_shift_count st instr;
        Some (blank_entry\<lparr>en_kind := CheckShiftRange, en_operand := Some operand\<rparr>)
      }
      else if in_op instr = OpIntDiv then do {
        tag \<leftarrow> first_operand_tag st instr;
        if is_signed_integer_type tag then do {
          operand \<leftarrow> raw_divisor st instr;
          Some (blank_entry\<lparr>en_kind := CheckMinOverOne, en_operand := Some operand\<rparr>)
        }
        else Some blank_entry
      }
      else Some blank_entry)"

definition signed_minimum :: "type_tag \<Rightarrow> u64" where
  "signed_minimum tag = push_bit (int_bytes tag * 8 - 1) 1"

definition overflows :: "opcode \<Rightarrow> type_tag \<Rightarrow> u64 \<Rightarrow> u64 \<Rightarrow> bool" where
  "overflows op tag left right =
     (if op = OpIntAdd then add_overflows left right tag
      else if op = OpIntSub then sub_overflows left right tag
      else if op = OpIntMul then mul_overflows left right tag
      else False)"

text \<open>The operand of an entry; reading it when it was never set reads past the table.\<close>

definition entry_constant :: "storage_state \<Rightarrow> entry \<Rightarrow> u64 option option" where
  "entry_constant st e = do {
     oidx \<leftarrow> en_operand e;
     integer_constant st oidx
   }"

definition aborts :: "storage_state \<Rightarrow> instruction \<Rightarrow> entry \<Rightarrow> bool option" where
  "aborts st instr e =
     (if en_kind e = CheckNone then Some False
      else do {
        tag \<leftarrow> first_operand_tag st instr;
        case en_kind e of
          CheckOverflow \<Rightarrow> do {
            left \<leftarrow> integer_constant st (range_at (in_operands instr) 0);
            right \<leftarrow> integer_constant st (range_at (in_operands instr) 1);
            case (left, right) of
              (Some l, Some r) \<Rightarrow> Some (overflows (in_op instr) tag l r)
            | _ \<Rightarrow> Some True
          }
        | CheckShiftRange \<Rightarrow> do {
            count \<leftarrow> entry_constant st e;
            case count of None \<Rightarrow> Some True | Some n \<Rightarrow> Some (n \<ge> integer_bits tag)
          }
        | _ \<Rightarrow> do {
            divisor \<leftarrow> entry_constant st e;
            dividend \<leftarrow> integer_constant st (range_at (in_operands instr) 0);
            case (divisor, dividend) of
              (Some d, Some n) \<Rightarrow>
                Some (comp_sign_extend d tag = - 1 \<and> comp_sign_extend n tag = comp_sign_extend (signed_minimum tag) tag)
            | _ \<Rightarrow> Some True
          }
      })"

definition check_one :: "storage_state \<Rightarrow> nat \<Rightarrow> checks \<Rightarrow> checks option" where
  "check_one st at c = do {
     instr \<leftarrow> row (st_instrs st) at;
     e \<leftarrow> checked_entry st instr;
     fires \<leftarrow> aborts st instr e;
     if \<not> fires then Some c
     else do {
       let c1 = c\<lparr>ck_kinds := (ck_kinds c)[at := en_kind e]\<rparr>;
       if en_kind e = CheckOverflow \<or> en_operand e = Some (range_at (in_operands instr) 1) then Some c1
       else do {
         shaped \<leftarrow> operand_at st instr 1;
         case opd_data shaped of
           OpdRegister r \<Rightarrow> do {
             reg \<leftarrow> row (st_registers st) r;
             case rg_def reg of
               None \<Rightarrow> Some c1
             | Some def \<Rightarrow> do { _ \<leftarrow> row (ck_raw c1) def; Some (c1\<lparr>ck_raw := (ck_raw c1)[def := True]\<rparr>) }
           }
         | _ \<Rightarrow> Some c1
       }
     }
   }"

text \<open>A loop over indices in the option monad.\<close>

primrec each :: "(nat \<Rightarrow> 's \<Rightarrow> 's option) \<Rightarrow> nat list \<Rightarrow> 's \<Rightarrow> 's option" where
  "each f [] s = Some s"
| "each f (i # rest) s = Option.bind (f i s) (each f rest)"

definition checked_instructions :: "storage_state \<Rightarrow> checks option" where
  "checked_instructions st =
     (let n = length (st_instrs st) in
      each (check_one st) [0..<n] \<lparr>ck_kinds = replicate n CheckNone, ck_raw = replicate n False\<rparr>)"

definition overlay_one :: "storage_state \<Rightarrow> nat list \<Rightarrow> nat \<Rightarrow> entry list \<Rightarrow> entry list option" where
  "overlay_one st sites at entries = do {
     instr \<leftarrow> row (st_instrs st) at;
     e \<leftarrow> checked_entry st instr;
     if en_kind e = CheckNone then Some entries
     else Some (entries[at := if at < length sites then e\<lparr>en_site := sites ! at\<rparr> else e])
   }"

definition overlay_build :: "storage_state \<Rightarrow> bool \<Rightarrow> nat list \<Rightarrow> entry list option" where
  "overlay_build st overflow_checks sites =
     (let n = length (st_instrs st); entries = replicate n blank_entry in
      if \<not> overflow_checks then Some entries else each (overlay_one st sites) [0..<n] entries)"

end
