(* ===== verification/Opt_Fold.thy ===== *)
theory Opt_Fold
  imports Overlay "HOL-Library.Signed_Division"
begin

text \<open>
  The arithmetic of \<^verbatim>\<open>src/src/opt/opt.cc\<close>: what the constant folder computes on the words of two constants.  It
  is shown to be the operation on the integers the words stand for.
\<close>

definition bit_width :: "type_tag \<Rightarrow> nat" where
  "bit_width tag =
     (if tag = TyI1 then 1
      else if tag = TyI8 \<or> tag = TyU8 then 8
      else if tag = TyI16 \<or> tag = TyU16 then 16
      else if tag = TyI32 \<or> tag = TyU32 then 32
      else 64)"

definition type_mask :: "type_tag \<Rightarrow> u64" where
  "type_mask tag = (let bits = bit_width tag in if bits \<ge> 64 then NOT 0 else push_bit bits 1 - 1)"

definition opt_sign_extend :: "u64 \<Rightarrow> type_tag \<Rightarrow> 64 word" where
  "opt_sign_extend v tag =
     (let bits = bit_width tag in
      if bits \<ge> 64 then v
      else
        let sign = push_bit (bits - 1) 1; masked = v AND (push_bit bits 1 - 1) in
        (masked XOR sign) - sign)"

text \<open>The member of the union that is written, with the other bytes of the eight zero.\<close>

definition integer_immutable :: "nat \<Rightarrow> type_tag \<Rightarrow> u64 \<Rightarrow> immutable" where
  "integer_immutable ty tag bits =
     \<lparr>im_type = ty, im_bits =
        (if tag = TyI1 then (if bits \<noteq> 0 then 1 else 0)
         else if tag = TyI8 \<or> tag = TyU8 then ucast (ucast bits :: 8 word)
         else if tag = TyI16 \<or> tag = TyU16 then ucast (ucast bits :: 16 word)
         else if tag = TyI32 \<or> tag = TyU32 then ucast (ucast bits :: 32 word)
         else bits)\<rparr>"

text \<open>The count of a shift, taken modulo the width.\<close>

definition shift_amount :: "type_tag \<Rightarrow> u64 \<Rightarrow> nat" where
  "shift_amount tag b = unat (b AND of_nat (bit_width tag - 1))"

definition fold_division :: "opcode \<Rightarrow> type_tag \<Rightarrow> u64 \<Rightarrow> u64 \<Rightarrow> u64" where
  "fold_division op tag a b =
     (let sa = opt_sign_extend a tag; sb = opt_sign_extend b tag in
      if sb = - 1 \<and> sint sa = - (2 ^ 63) then (if op = OpIntDiv then sa else 0)
      else if op = OpIntDiv then word_of_int (sint sa sdiv sint sb)
      else word_of_int (sint sa smod sint sb))"

definition fold_binary :: "opcode \<Rightarrow> type_tag \<Rightarrow> u64 \<Rightarrow> u64 \<Rightarrow> u64 option" where
  "fold_binary op tag a b =
     (let m = type_mask tag; signed_type = is_signed_integer_type tag; amount = shift_amount tag b;
          sa = sint (opt_sign_extend a tag); sb = sint (opt_sign_extend b tag) in
      if op = OpIntAdd then Some ((a + b) AND m)
      else if op = OpIntSub then Some ((a - b) AND m)
      else if op = OpIntMul then Some ((a * b) AND m)
      else if op = OpAnd then Some ((a AND b) AND m)
      else if op = OpOr then Some ((a OR b) AND m)
      else if op = OpXor then Some ((a XOR b) AND m)
      else if op = OpShiftLeft then Some (push_bit amount a AND m)
      else if op = OpLogicalShiftRight then Some (drop_bit amount (a AND m))
      else if op = OpArithmeticShiftRight then
        Some (if signed_type then signed_drop_bit amount (opt_sign_extend a tag) AND m else drop_bit amount (a AND m))
      else if op = OpIntDiv \<or> op = OpIntRem then (if b = 0 then None else Some (fold_division op tag a b AND m))
      else if op = OpUintDiv then (if b = 0 then None else Some ((a div b) AND m))
      else if op = OpUintRem then (if b = 0 then None else Some ((a mod b) AND m))
      else if op = OpEq then Some (if a = b then 1 else 0)
      else if op = OpNe then Some (if a \<noteq> b then 1 else 0)
      else if op = OpLt then Some (if (if signed_type then sa < sb else a < b) then 1 else 0)
      else if op = OpLe then Some (if (if signed_type then sa \<le> sb else a \<le> b) then 1 else 0)
      else if op = OpGt then Some (if (if signed_type then sa > sb else a > b) then 1 else 0)
      else if op = OpGe then Some (if (if signed_type then sa \<ge> sb else a \<ge> b) then 1 else 0)
      else if op = OpNot then Some (NOT a AND m)
      else None)"


subsection \<open>Words of a type\<close>

text \<open>The word that stands for an integer at a type: signed types extend their sign to 64 bits.\<close>

definition encode :: "type_tag \<Rightarrow> int \<Rightarrow> u64" where
  "encode tag v = word_of_int (if is_signed tag then signed_take_bit (width tag - 1) v else take_bit (width tag) v)"

definition canonical :: "type_tag \<Rightarrow> u64 \<Rightarrow> bool" where
  "canonical tag bits \<longleftrightarrow> encode tag (uint bits) = bits"

lemma signed_eq: "is_signed_integer_type tag = is_signed tag"
  by (auto simp: is_signed_integer_type_def is_signed_def)

lemma width_eq: "bit_width tag = width tag"
  by (simp add: bit_width_def width_def int_bytes_def)

lemma width_bounds [simp]: "0 < width tag" "width tag \<le> 64"
  using width_cases [of tag] by auto

lemma uint_push_one: "n < 64 \<Longrightarrow> (push_bit n 1 :: u64) = 2 ^ n"
  by (simp add: push_bit_eq_mult)

lemma type_mask_eq: "x AND type_mask tag = take_bit (width tag) x"
proof (cases "width tag < 64")
  case True
  then show ?thesis using low_mask [OF True] by (simp add: type_mask_def Let_def width_eq take_bit_eq_mask)
next
  case False
  then have "width tag = 64" using width_bounds(2) [of tag] by linarith
  then show ?thesis using take_bit_word_eq_self [of 64 x] by (simp add: type_mask_def Let_def width_eq)
qed

lemma encode_mod: "encode tag v = encode tag v'" if "take_bit (width tag) v = take_bit (width tag) v'"
proof (cases "is_signed tag")
  case True
  obtain n where n: "width tag = Suc n" using width_bounds(1) [of tag] by (cases "width tag") auto
  have "signed_take_bit n v = signed_take_bit n v'" using that unfolding n by (simp add: signed_take_bit_eq_iff_take_bit_eq)
  then show ?thesis using True by (simp add: encode_def n)
qed (use that in \<open>simp add: encode_def\<close>)

lemma take_bit_encode: "take_bit (width tag) (uint (encode tag v)) = take_bit (width tag) v"
proof -
  have "uint (encode tag v) = take_bit 64 (if is_signed tag then signed_take_bit (width tag - 1) v else take_bit (width tag) v)"
    by (simp add: encode_def unsigned_of_int)
  then show ?thesis using width_bounds [of tag]
    by (simp add: min_def take_bit_signed_take_bit)
qed

lemma canonical_encode [simp]: "canonical tag (encode tag v)"
  unfolding canonical_def by (rule encode_mod) (rule take_bit_encode)

lemma tag_value_encode: "tag_value tag (encode tag v) = (if is_signed tag then signed_take_bit (width tag - 1) v else take_bit (width tag) v)"
proof -
  obtain n where n: "width tag = Suc n" using width_bounds(1) [of tag] by (cases "width tag") auto
  have "take_bit (Suc n) (uint (encode tag v)) = take_bit (Suc n) v" using take_bit_encode [of tag v] by (simp only: n)
  then show ?thesis by (simp add: tag_value_def n signed_take_bit_eq_iff_take_bit_eq)
qed

lemma encode_tag_value: "canonical tag a \<Longrightarrow> encode tag (tag_value tag a) = a"
proof -
  assume "canonical tag a"
  obtain n where n: "width tag = Suc n" using width_bounds(1) [of tag] by (cases "width tag") auto
  have "take_bit (width tag) (tag_value tag a) = take_bit (width tag) (uint a)"
    by (simp add: tag_value_def n take_bit_signed_take_bit)
  then show ?thesis using encode_mod \<open>canonical tag a\<close> canonical_def by metis
qed

lemma canonical_word: "canonical tag a \<Longrightarrow> a = word_of_int (tag_value tag a)"
  unfolding canonical_def encode_def tag_value_def by (rule sym)

lemma unsigned_word: "canonical tag a \<Longrightarrow> \<not> is_signed tag \<Longrightarrow> uint a = tag_value tag a"
proof -
  assume a: "canonical tag a" "\<not> is_signed tag"
  have "uint a = uint (word_of_int (tag_value tag a) :: u64)" using canonical_word [OF a(1)] by simp
  then show ?thesis using a(2) width_bounds [of tag] by (simp add: tag_value_def unsigned_of_int min_def)
qed

text \<open>The other sign extension: flip the sign bit and take its weight away.\<close>

lemma flip_sign:
  assumes "n < 64"
  shows "((x AND mask (Suc n)) XOR 2 ^ n) - 2 ^ n = signed_take_bit n (x :: u64)"
proof (cases "bit x n")
  case True
  have m: "x AND mask (Suc n) = take_bit n x OR 2 ^ n"
    using True assms by (intro bit_eqI) (auto simp: bit_simps less_Suc_eq)
  have "(x AND mask (Suc n)) XOR 2 ^ n = take_bit n x" unfolding m using assms by (intro bit_eqI) (auto simp: bit_simps)
  moreover have "take_bit n x OR NOT (mask n) = take_bit n x + NOT (mask n)"
    by (rule disjunctive_add [symmetric]) (auto simp: bit_simps)
  ultimately show ?thesis using True by (simp add: signed_take_bit_eq_if_negative minus_exp_eq_not_mask [symmetric])
next
  case False
  have "(x AND mask (Suc n)) XOR 2 ^ n = take_bit n x OR 2 ^ n"
    using False assms by (intro bit_eqI) (auto simp: bit_simps less_Suc_eq)
  also have "\<dots> = take_bit n x + 2 ^ n"
    by (rule disjunctive_add [symmetric]) (auto simp: bit_simps)
  finally show ?thesis using False by (simp add: signed_take_bit_eq_if_positive)
qed

lemma sint_opt_sign_extend: "sint (opt_sign_extend v tag) = signed_take_bit (width tag - 1) (uint v)"
proof (cases "width tag < 64")
  case True
  obtain n where n: "width tag = Suc n" using width_bounds(1) [of tag] by (cases "width tag") auto
  have "opt_sign_extend v tag = signed_take_bit n v"
    using flip_sign [of n v] low_mask [OF True] True n by (simp add: opt_sign_extend_def Let_def width_eq)
  then show ?thesis using True n by (simp add: sint_signed_take_bit)
next
  case False
  then have "width tag = 64" using width_bounds(2) [of tag] by linarith
  then show ?thesis by (simp add: opt_sign_extend_def Let_def width_eq sint_uint)
qed

text \<open>Both sign extensions of the sources agree.\<close>

lemma sign_extends_agree: "tag \<noteq> TyI1 \<Longrightarrow> opt_sign_extend v tag = comp_sign_extend v tag"
proof -
  assume "tag \<noteq> TyI1"
  then have "sint (opt_sign_extend v tag) = sint (comp_sign_extend v tag)"
    by (simp add: sint_opt_sign_extend sint_sign_extend width_def)
  then show ?thesis by (rule signed_word_eqI)
qed

subsection \<open>Immutables\<close>

lemma zero_extend: "ucast (ucast x :: 'a :: len word) = (word_of_int (take_bit LENGTH('a) (uint x)) :: u64)" for x :: u64
  by (rule bit_word_eqI) (simp add: bit_simps)

lemma sign_extend_word:
  "LENGTH('a :: len) \<le> 64 \<Longrightarrow> scast (ucast x :: 'a word) = (word_of_int (signed_take_bit (LENGTH('a) - 1) (uint x)) :: u64)" for x :: u64
  by (rule bit_word_eqI) (auto simp: bit_simps min_def)

lemma as_u64_integer_eq:
  assumes "is_integer_type tag"
  shows "as_u64_integer tag im = Some (encode tag (uint (im_bits im)))"
proof -
  let ?x = "im_bits im"
  have "?x AND 1 = word_of_int (take_bit 1 (uint ?x))"
    using take_bit_of_int [of 1 "uint ?x", where 'a = "64 word"] by (simp add: and_one_eq)
  moreover have "?x = word_of_int (take_bit 64 (uint ?x))" by (rule bit_word_eqI) (simp add: bit_simps)
  moreover have "?x = word_of_int (signed_take_bit 63 (uint ?x))" 
  proof -
    have "sint ?x = sint (word_of_int (signed_take_bit 63 (uint ?x)) :: u64)"
      using sint_uint [of ?x] by (simp add: signed_of_int)
    then show ?thesis by (rule signed_word_eqI)
  qed
  ultimately show ?thesis
    using assms zero_extend [of ?x, where 'a = 8] zero_extend [of ?x, where 'a = 16] zero_extend [of ?x, where 'a = 32]
      sign_extend_word [of ?x, where 'a = 8] sign_extend_word [of ?x, where 'a = 16] sign_extend_word [of ?x, where 'a = 32]
    by (auto simp: is_integer_type_def as_u64_integer_def encode_def width_def int_bytes_def is_signed_def)
qed

lemma integer_immutable_bits:
  assumes "is_integer_type tag" "tag = TyI1 \<Longrightarrow> bits \<le> 1"
  shows "take_bit (width tag) (uint (im_bits (integer_immutable ty tag bits))) = take_bit (width tag) (uint bits)"
proof (cases "tag = TyI1")
  case True
  then have "bits = 0 \<or> bits = 1" using assms(2) by (metis le_less word_less_1)
  then show ?thesis using True by (auto simp: integer_immutable_def)
next
  case False
  then show ?thesis using assms(1)
    by (auto simp: integer_immutable_def is_integer_type_def width_def int_bytes_def unsigned_ucast_eq unsigned_take_bit_eq)
qed

lemma stored_value:
  assumes "is_integer_type tag" "tag = TyI1 \<Longrightarrow> bits \<le> 1"
  shows "as_u64_integer tag (integer_immutable ty tag bits) = Some (encode tag (uint bits))"
  using encode_mod [OF integer_immutable_bits [OF assms]] as_u64_integer_eq [OF assms(1)] by simp


subsection \<open>The meaning of the operations\<close>

text \<open>
  What an operation does to the integers its operands stand for.  The unsigned divisions and the
  logical shift read the bits of a signed operand as an unsigned number, the signed divisions the bits
  of an unsigned one as a signed number; a shift takes its count modulo the width.  A division by zero
  has no value.
\<close>

definition unsigned_view :: "type_tag \<Rightarrow> int \<Rightarrow> int" where
  "unsigned_view tag x = take_bit (width tag) x"

definition signed_view :: "type_tag \<Rightarrow> int \<Rightarrow> int" where
  "signed_view tag x = signed_take_bit (width tag - 1) x"

definition op_meaning :: "opcode \<Rightarrow> type_tag \<Rightarrow> int \<Rightarrow> int \<Rightarrow> int option" where
  "op_meaning op tag x y =
     (let k = nat (y mod int (width tag)); sx = signed_view tag x; sy = signed_view tag y;
          ux = unsigned_view tag x; uy = unsigned_view tag y in
      if op = OpIntAdd then Some (x + y)
      else if op = OpIntSub then Some (x - y)
      else if op = OpIntMul then Some (x * y)
      else if op = OpAnd then Some (x AND y)
      else if op = OpOr then Some (x OR y)
      else if op = OpXor then Some (x XOR y)
      else if op = OpShiftLeft then Some (x * 2 ^ k)
      else if op = OpLogicalShiftRight then Some (ux div 2 ^ k)
      else if op = OpArithmeticShiftRight then Some (x div 2 ^ k)
      else if op = OpIntDiv then (if y = 0 then None else Some (sx sdiv sy))
      else if op = OpIntRem then (if y = 0 then None else Some (sx smod sy))
      else if op = OpUintDiv then (if y = 0 then None else Some (ux div uy))
      else if op = OpUintRem then (if y = 0 then None else Some (ux mod uy))
      else if op = OpEq then Some (of_bool (x = y))
      else if op = OpNe then Some (of_bool (x \<noteq> y))
      else if op = OpLt then Some (of_bool (x < y))
      else if op = OpLe then Some (of_bool (x \<le> y))
      else if op = OpGt then Some (of_bool (x > y))
      else if op = OpGe then Some (of_bool (x \<ge> y))
      else if op = OpNot then Some (NOT x)
      else None)"

text \<open>The result as the masked word that the folder hands on.\<close>

definition masked_word :: "type_tag \<Rightarrow> int \<Rightarrow> u64" where
  "masked_word tag v = word_of_int (take_bit (width tag) v)"

lemma mask_word: "word_of_int v AND type_mask tag = masked_word tag v"
  by (simp add: type_mask_eq masked_word_def take_bit_of_int)

lemma masked_bool [simp]: "masked_word tag (of_bool p) = of_bool p"
  using width_bounds(1) [of tag] by (cases p) (simp_all add: masked_word_def take_bit_eq_mod)

lemma tag_value_range: "take_bit (width tag) (tag_value tag a) = take_bit (width tag) (uint a)"
  using width_bounds(1) [of tag] by (cases "width tag") (simp_all add: tag_value_def take_bit_signed_take_bit)

lemma shift_amount_eq: "shift_amount tag b = nat (tag_value tag b mod int (width tag))"
proof -
  have "width tag = 2 ^ 0 \<or> width tag = 2 ^ 3 \<or> width tag = 2 ^ 4 \<or> width tag = 2 ^ 5 \<or> width tag = 2 ^ 6"
    using width_cases [of tag] by auto
  then obtain j where j: "width tag = 2 ^ j" "j < 64" by (metis less_numeral_extra(1) numeral_less_iff zero_less_numeral semiring_norm(76,78,80,81))
  have jw: "j \<le> width tag" unfolding j(1) by (simp add: less_imp_le)
  have "(of_nat (bit_width tag - 1) :: u64) = mask j"
    by (simp add: width_eq j of_nat_diff mask_eq_exp_minus_1)
  then have "shift_amount tag b = nat (take_bit j (uint b))"
    unfolding shift_amount_def by (simp add: take_bit_eq_mask [symmetric] unsigned_take_bit_eq nat_take_bit_eq flip: nat_uint_eq)
  also have "take_bit j (uint b) = take_bit j (take_bit (width tag) (uint b))"
    using jw by (simp add: min_absorb1)
  also have "\<dots> = take_bit j (tag_value tag b)"
    unfolding tag_value_range [symmetric] using jw by (simp add: min_absorb1)
  finally show ?thesis by (simp add: j(1) take_bit_eq_mod)
qed

lemma signed_view_eq: "signed_view tag (tag_value tag a) = sint (opt_sign_extend a tag)"
proof -
  obtain n where n: "width tag = Suc n" using width_bounds(1) [of tag] by (cases "width tag") auto
  have "take_bit (Suc n) (tag_value tag a) = take_bit (Suc n) (uint a)" using tag_value_range [of tag a] by (simp only: n)
  then show ?thesis by (simp add: signed_view_def sint_opt_sign_extend n signed_take_bit_eq_iff_take_bit_eq)
qed

lemma signed_value: "is_signed tag \<Longrightarrow> sint (opt_sign_extend a tag) = tag_value tag a"
  by (simp add: sint_opt_sign_extend tag_value_def)

lemma unsigned_view_eq: "word_of_int (unsigned_view tag (tag_value tag a)) = a AND type_mask tag"
  by (simp add: unsigned_view_def tag_value_range type_mask_eq take_bit_of_int [symmetric])

lemma uint_unsigned_view: "uint (a AND type_mask tag) = unsigned_view tag (tag_value tag a)"
  by (simp add: unsigned_view_def tag_value_range type_mask_eq unsigned_take_bit_eq)

lemma zero_value: "canonical tag b \<Longrightarrow> b = 0 \<longleftrightarrow> tag_value tag b = 0"
  using canonical_word [of tag b] by (auto simp: tag_value_def)

lemma equal_values: "canonical tag a \<Longrightarrow> canonical tag b \<Longrightarrow> a = b \<longleftrightarrow> tag_value tag a = tag_value tag b"
  using canonical_word by metis

lemma div_word: "uint a = x \<Longrightarrow> uint b = y \<Longrightarrow> a div b = word_of_int (x div y)" "uint a = x \<Longrightarrow> uint b = y \<Longrightarrow> a mod b = word_of_int (x mod y)" for a b :: u64
  by (simp_all add: word_div_def word_mod_def)

lemma drop_word: "drop_bit k a = (word_of_int (uint a div 2 ^ k) :: u64)"
  by (rule bit_word_eqI) (simp add: bit_simps flip: drop_bit_eq_div)

lemma signed_drop_word: "signed_drop_bit k a = (word_of_int (sint a div 2 ^ k) :: u64)"
  by (rule bit_word_eqI) (simp add: bit_simps flip: drop_bit_eq_div)

lemma fold_division_meaning:
  "fold_division OpIntDiv tag a b = word_of_int (signed_view tag (tag_value tag a) sdiv signed_view tag (tag_value tag b))"
  "fold_division OpIntRem tag a b = word_of_int (signed_view tag (tag_value tag a) smod signed_view tag (tag_value tag b))"
proof -
  have m: "sint w = - (2 ^ 63) \<Longrightarrow> w = 0x8000000000000000" for w :: u64
    by (rule signed_word_eqI [where 'a = int]) simp
  show "fold_division OpIntDiv tag a b = word_of_int (signed_view tag (tag_value tag a) sdiv signed_view tag (tag_value tag b))"
    using m by (auto simp: fold_division_def Let_def signed_view_eq)
  show "fold_division OpIntRem tag a b = word_of_int (signed_view tag (tag_value tag a) smod signed_view tag (tag_value tag b))"
    by (auto simp: fold_division_def Let_def signed_view_eq smod_int_alt_def)
qed


subsection \<open>The folder computes the meaning\<close>

text \<open>
  An unsigned division that reads a negative operand.  The operation means the division of the operands' own bits; the
  folder divides the 64-bit words, which a negative operand fills with its sign.  What the folder computes is this
  quotient there, and the meaning of the operation everywhere else.
\<close>

definition wide_division :: "opcode \<Rightarrow> int \<Rightarrow> int \<Rightarrow> bool" where
  "wide_division op x y \<longleftrightarrow> (op = OpUintDiv \<or> op = OpUintRem) \<and> (x < 0 \<or> y < 0)"

definition folder_meaning :: "opcode \<Rightarrow> type_tag \<Rightarrow> int \<Rightarrow> int \<Rightarrow> int option" where
  "folder_meaning op tag x y =
     (if wide_division op x y \<and> y \<noteq> 0
      then Some (if op = OpUintDiv then take_bit 64 x div take_bit 64 y else take_bit 64 x mod take_bit 64 y)
      else op_meaning op tag x y)"

lemma nonneg_word:
  assumes "canonical tag a" "0 \<le> tag_value tag a"
  shows "uint a = tag_value tag a" "unsigned_view tag (tag_value tag a) = tag_value tag a"
proof -
  have "tag_value tag a < 2 ^ width tag"
  proof (cases "is_signed tag")
    case True
    have "tag_value tag a < 2 ^ (width tag - 1)" using True by (simp add: tag_value_def signed_take_bit_int_less_exp)
    also have "\<dots> \<le> 2 ^ width tag" by simp
    finally show ?thesis .
  qed (simp add: tag_value_def)
  then show v: "unsigned_view tag (tag_value tag a) = tag_value tag a"
    using assms(2) by (simp add: unsigned_view_def take_bit_int_eq_self)
  have "tag_value tag a < 2 ^ 64"
    using \<open>tag_value tag a < 2 ^ width tag\<close> width_bounds(2) [of tag] power_increasing [of "width tag" 64 "2 :: int"] by linarith
  then have "uint (word_of_int (tag_value tag a) :: u64) = tag_value tag a"
    using assms(2) by (simp add: unsigned_of_int take_bit_int_eq_self)
  then show "uint a = tag_value tag a" using canonical_word [OF assms(1)] by simp
qed

lemma word_less_values:
  assumes "canonical tag a" "canonical tag b" "\<not> is_signed tag"
  shows "a < b \<longleftrightarrow> tag_value tag a < tag_value tag b" "a \<le> b \<longleftrightarrow> tag_value tag a \<le> tag_value tag b"
  using unsigned_word [OF assms(1,3)] unsigned_word [OF assms(2,3)] by (simp_all add: word_less_def word_le_def)

lemma masked_shifted:
  "drop_bit k (a AND type_mask tag) = masked_word tag (unsigned_view tag (tag_value tag a) div 2 ^ k)"
proof -
  let ?u = "unsigned_view tag (tag_value tag a)"
  have u: "0 \<le> ?u" "?u < 2 ^ width tag" by (simp_all add: unsigned_view_def)
  have "?u div 2 ^ k \<le> ?u" using zdiv_mono2 [of ?u 1 "2 ^ k"] u(1) by simp
  then have "take_bit (width tag) (?u div 2 ^ k) = ?u div 2 ^ k"
    using u by (intro take_bit_int_eq_self) (auto simp: pos_imp_zdiv_nonneg_iff)
  then show ?thesis by (simp add: drop_word uint_unsigned_view masked_word_def)
qed

lemma fold_arith:
  assumes c: "canonical tag a" "canonical tag b"
  defines "x \<equiv> tag_value tag a" and "y \<equiv> tag_value tag b"
  shows "(a + b) AND type_mask tag = masked_word tag (x + y)" "(a - b) AND type_mask tag = masked_word tag (x - y)"
    "(a * b) AND type_mask tag = masked_word tag (x * y)" "(a AND b) AND type_mask tag = masked_word tag (x AND y)"
    "(a OR b) AND type_mask tag = masked_word tag (x OR y)" "(a XOR b) AND type_mask tag = masked_word tag (x XOR y)"
    "push_bit k a AND type_mask tag = masked_word tag (x * 2 ^ k)" "NOT a AND type_mask tag = masked_word tag (NOT x)"
proof -
  have w: "a = word_of_int x" "b = word_of_int y" using c canonical_word by (simp_all add: x_def y_def)
  have n: "NOT a = word_of_int (NOT x)" unfolding w by (simp add: of_int_not_eq)
  show "(a + b) AND type_mask tag = masked_word tag (x + y)" "(a - b) AND type_mask tag = masked_word tag (x - y)"
    "(a * b) AND type_mask tag = masked_word tag (x * y)"
    unfolding mask_word [symmetric] by (simp_all add: w)
  show "(a AND b) AND type_mask tag = masked_word tag (x AND y)" "(a OR b) AND type_mask tag = masked_word tag (x OR y)"
    "(a XOR b) AND type_mask tag = masked_word tag (x XOR y)"
    unfolding mask_word [symmetric] w by (simp_all only: of_int_and_eq of_int_or_eq of_int_xor_eq)
  show "push_bit k a AND type_mask tag = masked_word tag (x * 2 ^ k)"
    unfolding mask_word [symmetric] w push_bit_eq_mult by simp
  show "NOT a AND type_mask tag = masked_word tag (NOT x)" unfolding n mask_word ..
qed

lemma fold_meaning:
  assumes c: "canonical tag a" "canonical tag b"
  shows "fold_binary op tag a b = map_option (masked_word tag) (folder_meaning op tag (tag_value tag a) (tag_value tag b))"
proof -
  define x y where "x = tag_value tag a" and "y = tag_value tag b"
  note [simp] = x_def [symmetric] y_def [symmetric]
  have z: "b = 0 \<longleftrightarrow> y = 0" and e: "a = b \<longleftrightarrow> x = y" using zero_value [OF c(2)] equal_values [OF c] by simp_all
  have sh: "shift_amount tag b = nat (y mod int (width tag))" by (simp add: shift_amount_eq)
  have arith: "signed_drop_bit k (opt_sign_extend a tag) AND type_mask tag = masked_word tag (x div 2 ^ k)" if "is_signed tag" for k
    using signed_value [OF that, of a] by (simp add: signed_drop_word mask_word)
  have logic: "\<not> is_signed tag \<Longrightarrow> unsigned_view tag x = x" by (simp add: unsigned_view_def x_def tag_value_def)
  have less: "(if is_signed tag then sint (opt_sign_extend a tag) < sint (opt_sign_extend b tag) else a < b) \<longleftrightarrow> x < y"
    "(if is_signed tag then sint (opt_sign_extend b tag) < sint (opt_sign_extend a tag) else b < a) \<longleftrightarrow> y < x"
    "(if is_signed tag then sint (opt_sign_extend a tag) \<le> sint (opt_sign_extend b tag) else a \<le> b) \<longleftrightarrow> x \<le> y"
    "(if is_signed tag then sint (opt_sign_extend b tag) \<le> sint (opt_sign_extend a tag) else b \<le> a) \<longleftrightarrow> y \<le> x"
    using word_less_values [OF c] word_less_values [OF c(2,1)] signed_value [of tag] by simp_all
  have udiv: "a div b = word_of_int (unsigned_view tag x div unsigned_view tag y)"
    "a mod b = word_of_int (unsigned_view tag x mod unsigned_view tag y)" if "0 \<le> x" "0 \<le> y"
    using nonneg_word [OF c(1)] nonneg_word [OF c(2)] that by (simp_all add: word_div_def word_mod_def)
  have sdiv: "fold_division OpIntDiv tag a b = word_of_int (signed_view tag x sdiv signed_view tag y)"
    "fold_division OpIntRem tag a b = word_of_int (signed_view tag x smod signed_view tag y)"
    using fold_division_meaning [of tag a b] by simp_all
  have b: "(if p then 1 else 0 :: u64) = masked_word tag (of_bool p)" for p by simp
  note shifted = masked_shifted [of _ a tag]
  note ar = fold_arith [OF c]
  consider (wide) "wide_division op x y" "y \<noteq> 0" | (zero) "op = OpUintDiv \<or> op = OpUintRem" "y = 0"
    | (plain) "(op = OpUintDiv \<or> op = OpUintRem) \<longrightarrow> 0 \<le> x \<and> 0 \<le> y"
    unfolding wide_division_def by (meson not_le)
  then show ?thesis
  proof cases
    case wide
    have u: "uint a = take_bit 64 x" "uint b = take_bit 64 y"
      using arg_cong [OF canonical_word [OF c(1)], of uint] arg_cong [OF canonical_word [OF c(2)], of uint]
      by (simp_all only: x_def y_def unsigned_of_int len_bit0 len_num1) simp_all
    have q: "(a div b) AND type_mask tag = masked_word tag (take_bit 64 x div take_bit 64 y)"
      "(a mod b) AND type_mask tag = masked_word tag (take_bit 64 x mod take_bit 64 y)"
      by (simp_all only: div_word [OF u] mask_word)
    have "b \<noteq> 0" using z wide by simp
    moreover have "op = OpUintDiv \<or> op = OpUintRem" using wide by (simp add: wide_division_def)
    ultimately show ?thesis using wide
      by (elim disjE) (simp_all only: fold_binary_def folder_meaning_def q opcode.distinct Let_def if_True if_False refl option.map simp_thms
          x_def [symmetric] y_def [symmetric])
  next
    case zero
    moreover have "tag_value tag 0 = 0" by (simp add: tag_value_def)
    ultimately show ?thesis using z
      by (elim disjE) (simp_all only: fold_binary_def folder_meaning_def op_meaning_def opcode.distinct Let_def if_True if_False refl
          option.map simp_thms x_def [symmetric] y_def [symmetric])
  next
    case plain
    then have "folder_meaning op tag x y = op_meaning op tag x y" by (auto simp: folder_meaning_def wide_division_def)
    then show ?thesis
    using plain unfolding fold_binary_def op_meaning_def Let_def signed_eq
    by (cases op) (simp_all add: z e sh arith logic less udiv sdiv b shifted ar mask_word del: masked_bool drop_bit_and)
  qed
qed

lemma folder_meaning_plain: "\<not> wide_division op x y \<Longrightarrow> folder_meaning op tag x y = op_meaning op tag x y"
  by (simp add: folder_meaning_def)


definition result_tag :: "opcode \<Rightarrow> type_tag \<Rightarrow> type_tag" where
  "result_tag op tag = (if op \<in> {OpEq, OpNe, OpLt, OpLe, OpGt, OpGe} then TyI1 else tag)"

lemma uint_masked: "uint (masked_word tag v) = take_bit (width tag) v"
  using width_bounds(2) [of tag] by (simp add: masked_word_def unsigned_of_int min_absorb2)

lemma encode_masked: "encode tag (uint (masked_word tag v)) = encode tag v"
  by (rule encode_mod) (simp add: uint_masked)

lemma bool_meaning: "result_tag op tag \<noteq> tag \<Longrightarrow> folder_meaning op tag x y = Some v \<Longrightarrow> v = 0 \<or> v = 1"
  by (auto simp: result_tag_def folder_meaning_def wide_division_def op_meaning_def Let_def split: if_splits)

lemma masked_I1: "masked_word TyI1 v \<le> 1"
  by (simp add: masked_word_def width_def word_le_def unsigned_of_int take_bit_eq_mod)

lemma folded_value:
  assumes t: "is_integer_type tag" and "canonical tag a" "canonical tag b"
    and out: "fold_binary op tag a b = Some out"
  shows "\<exists>v. folder_meaning op tag (tag_value tag a) (tag_value tag b) = Some v \<and>
    as_u64_integer (result_tag op tag) (integer_immutable ty (result_tag op tag) out) = Some (encode (result_tag op tag) v)"
proof -
  obtain v where v: "folder_meaning op tag (tag_value tag a) (tag_value tag b) = Some v" "out = masked_word tag v"
    using fold_meaning [OF assms(2,3), of op] out by (auto simp: map_option_case split: option.splits)
  show ?thesis
  proof (cases "result_tag op tag = tag")
    case True
    have "as_u64_integer tag (integer_immutable ty tag out) = Some (encode tag (uint out))"
      using t masked_I1 [of v] by (intro stored_value) (auto simp: v(2))
    then show ?thesis using v True by (simp add: encode_masked)
  next
    case False
    then have "v = of_bool (v = 1)" "result_tag op tag = TyI1"
      using bool_meaning [OF False v(1)] by (auto simp: result_tag_def split: if_splits)
    then have o: "out = of_bool (v = 1)" "result_tag op tag = TyI1" "int (of_bool (v = 1)) = v"
      using masked_bool [of tag "v = 1"] v(2) by auto
    have "as_u64_integer TyI1 (integer_immutable ty TyI1 out) = Some (encode TyI1 (uint out))"
      by (rule stored_value) (simp_all add: is_integer_type_def o)
    then show ?thesis using v(1) o by (auto simp: of_bool_def split: if_splits)
  qed
qed

subsection \<open>Properties\<close>



text \<open>
  An unsigned division of a negative constant folds on 64 bits and not on the width of the type: it
  differs from the division of the operands' own bits, which is what the backends emit.
\<close>

lemma unsigned_division_misfolds:
  "op_meaning OpUintDiv TyI32 (tag_value TyI32 (encode TyI32 (- 2))) 2 = Some 0x7FFFFFFF \<and>
   fold_binary OpUintDiv TyI32 (encode TyI32 (- 2)) 2 = Some 0xFFFFFFFF"
  by (intro conjI) code_simp+

end
