(* ===== verification/Opt.thy ===== *)
theory Opt
  imports Opt_Fold
begin

text \<open>
  The passes of \<^verbatim>\<open>src/src/opt/opt.cc\<close>: constant folding with propagation, and dead instruction elimination.  A
  read past a table is \<^term>\<open>None\<close>.  Every register reads one value in an execution, so a walk is sound
  when the operands it rewrites keep their value under each assignment of registers that satisfies
  the equations of the instructions.
\<close>

definition INVALID_IDX :: nat where
  "INVALID_IDX = 0xFFFFFFFF"

definition unknown_operand :: operand where
  "unknown_operand = from_register INVALID_IDX INVALID_IDX"

text \<open>What the walk knows of a register.\<close>

definition known_value :: "operand list \<Rightarrow> nat \<Rightarrow> operand option" where
  "known_value known r =
     (if r \<ge> length known \<or> opd_type (known ! r) = INVALID_IDX then None else Some (known ! r))"

definition resolve :: "operand list \<Rightarrow> operand \<Rightarrow> operand option" where
  "resolve known op = (case opd_data op of OpdRegister r \<Rightarrow> known_value known r | _ \<Rightarrow> Some op)"

definition constant_of :: "storage_state \<Rightarrow> operand list \<Rightarrow> operand \<Rightarrow> (u64 \<times> type_tag) option option" where
  "constant_of st known op =
     (case resolve known op of
        None \<Rightarrow> Some None
      | Some resolved \<Rightarrow>
          (case opd_data resolved of
             OpdImmutable i \<Rightarrow> do {
               tag \<leftarrow> tag_at st (opd_type resolved);
               if \<not> is_integer_type tag then Some None
               else do {
                 imm \<leftarrow> row (st_immutables st) i;
                 bits \<leftarrow> as_u64_integer tag imm;
                 Some (Some (bits, tag))
               }
             }
           | _ \<Rightarrow> Some None))"

record fold_state =
  fs_state :: storage_state
  fs_checks :: checks
  fs_known :: "operand list"

definition learn :: "nat \<Rightarrow> operand \<Rightarrow> fold_state \<Rightarrow> fold_state" where
  "learn dst op s = s\<lparr>fs_known := (fs_known s)[dst := op]\<rparr>"

text \<open>A select under a known condition is the operand it chooses.\<close>

definition fold_select :: "instruction \<Rightarrow> nat \<Rightarrow> fold_state \<Rightarrow> fold_state option" where
  "fold_select instr dst s = do {
     cond \<leftarrow> operand_at (fs_state s) instr 0;
     c \<leftarrow> constant_of (fs_state s) (fs_known s) cond;
     case c of
       None \<Rightarrow> Some s
     | Some (bits, _) \<Rightarrow> do {
         op \<leftarrow> operand_at (fs_state s) instr (if bits \<noteq> 0 then 1 else 2);
         _ \<leftarrow> row (fs_known s) dst;
         Some (learn dst op s)
       }
   }"

definition store_folded :: "nat \<Rightarrow> nat \<Rightarrow> type_tag \<Rightarrow> u64 \<Rightarrow> fold_state \<Rightarrow> fold_state option" where
  "store_folded dst dst_type dst_tag out s = do {
     _ \<leftarrow> row (fs_known s) dst;
     let st = fs_state s;
     Some (learn dst (from_immutable (length (st_immutables st)) dst_type)
       (s\<lparr>fs_state := st\<lparr>st_immutables := st_immutables st @ [integer_immutable dst_type dst_tag out]\<rparr>\<rparr>))
   }"

definition fold_two :: "nat \<Rightarrow> check_kind \<Rightarrow> instruction \<Rightarrow> nat \<Rightarrow> nat \<Rightarrow> type_tag \<Rightarrow> fold_state \<Rightarrow> fold_state option" where
  "fold_two i check instr dst dst_type dst_tag s = do {
     left \<leftarrow> operand_at (fs_state s) instr 0;
     ca \<leftarrow> constant_of (fs_state s) (fs_known s) left;
     case ca of
       None \<Rightarrow> Some s
     | Some (a, a_tag) \<Rightarrow> do {
         right \<leftarrow> operand_at (fs_state s) instr 1;
         cb \<leftarrow> constant_of (fs_state s) (fs_known s) right;
         case cb of
           None \<Rightarrow> Some s
         | Some (b, _) \<Rightarrow>
             (case fold_binary (in_op instr) a_tag a b of
                None \<Rightarrow> Some s
              | Some out \<Rightarrow>
                  if check = CheckOverflow then
                    (if overflows (in_op instr) a_tag a b then Some s
                     else store_folded dst dst_type dst_tag out
                       (s\<lparr>fs_checks := (fs_checks s)\<lparr>ck_kinds := (ck_kinds (fs_checks s))[i := CheckNone]\<rparr>\<rparr>))
                  else store_folded dst dst_type dst_tag out s)
       }
   }"

definition fold_instr :: "nat \<Rightarrow> fold_state \<Rightarrow> fold_state option" where
  "fold_instr i s = do {
     raw \<leftarrow> row (ck_raw (fs_checks s)) i;
     if raw then Some s
     else do {
       check \<leftarrow> row (ck_kinds (fs_checks s)) i;
       if check \<noteq> CheckNone \<and> check \<noteq> CheckOverflow then Some s
       else do {
         instr \<leftarrow> row (st_instrs (fs_state s)) i;
         case in_dst instr of
           None \<Rightarrow> Some s
         | Some dst \<Rightarrow> do {
             reg \<leftarrow> row (st_registers (fs_state s)) dst;
             dst_tag \<leftarrow> tag_at (fs_state s) (rg_type reg);
             if \<not> is_integer_type dst_tag then Some s
             else if in_op instr = OpSelect \<and> operand_count instr = 3 then fold_select instr dst s
             else if operand_count instr \<noteq> 2 then Some s
             else fold_two i check instr dst (rg_type reg) dst_tag s
           }
       }
     }
   }"

definition substitute :: "operand list \<Rightarrow> operand \<Rightarrow> operand" where
  "substitute known op =
     (case opd_data op of
        OpdRegister r \<Rightarrow>
          (case known_value known r of
             None \<Rightarrow> op
           | Some replacement \<Rightarrow> replacement\<lparr>opd_type := opd_type op\<rparr>)
      | _ \<Rightarrow> op)"

definition fold_and_propagate :: "storage_state \<Rightarrow> checks \<Rightarrow> (storage_state \<times> checks) option" where
  "fold_and_propagate st checks = do {
     s \<leftarrow> each fold_instr [0..<length (st_instrs st)]
       \<lparr>fs_state = st, fs_checks = checks, fs_known = replicate (length (st_registers st)) unknown_operand\<rparr>;
     Some ((fs_state s)\<lparr>st_operands := map (substitute (fs_known s)) (st_operands (fs_state s))\<rparr>, fs_checks s)
   }"

definition prunable :: "opcode \<Rightarrow> bool" where
  "prunable op \<longleftrightarrow>
     op \<in> {OpIntAdd, OpIntSub, OpIntMul, OpIntDiv, OpUintDiv, OpIntRem, OpUintRem, OpFAdd, OpFSub, OpFMul, OpFDiv,
       OpAnd, OpOr, OpXor, OpShiftLeft, OpArithmeticShiftRight, OpLogicalShiftRight, OpNot, OpBitReverse, OpEq, OpNe,
       OpLe, OpLt, OpGe, OpGt, OpTypeCast, OpTypeSizeOf, OpTypeAlignOf, OpSelect, OpGetElementPtr, OpElemOffset,
       OpExtractValue, OpInsertValue}"

text \<open>Uses are counted over the whole operand table.\<close>

definition count_use :: "operand \<Rightarrow> nat list \<Rightarrow> nat list" where
  "count_use op uses =
     (case opd_data op of
        OpdRegister r \<Rightarrow> if r < length uses then uses[r := uses ! r + 1] else uses
      | _ \<Rightarrow> uses)"

definition count_uses :: "storage_state \<Rightarrow> nat list" where
  "count_uses st = fold count_use (st_operands st) (replicate (length (st_registers st)) 0)"

definition pruned :: "instruction \<Rightarrow> instruction" where
  "pruned instr = instr\<lparr>in_op := OpNoop, in_dst := None, in_measure := None, in_operands := no_range\<rparr>"

definition prune_one :: "checks \<Rightarrow> nat list \<Rightarrow> nat \<Rightarrow> storage_state \<times> bool \<Rightarrow> (storage_state \<times> bool) option" where
  "prune_one checks uses i s = do {
     instr \<leftarrow> row (st_instrs (fst s)) i;
     case in_dst instr of
       None \<Rightarrow> Some s
     | Some dst \<Rightarrow> do {
         n \<leftarrow> row uses dst;
         if n \<noteq> 0 then Some s
         else do {
           kept \<leftarrow> keeps_instr checks i;
           if kept \<or> \<not> prunable (in_op instr) then Some s
           else Some ((fst s)\<lparr>st_instrs := (st_instrs (fst s))[i := pruned instr]\<rparr>, True)
         }
       }
   }"

definition prune_pass :: "checks \<Rightarrow> storage_state \<Rightarrow> (storage_state \<times> bool) option" where
  "prune_pass checks st = each (prune_one checks (count_uses st)) [0..<length (st_instrs st)] (st, False)"

lemma each_upt_invariant:
  assumes "P 0 s" "\<And>i s t. i < n \<Longrightarrow> P i s \<Longrightarrow> f i s = Some t \<Longrightarrow> P (Suc i) t" "each f [0..<n] s = Some t"
  shows "P n t"
proof -
  have "each f [k..<n] s = Some t \<Longrightarrow> k \<le> n \<Longrightarrow> P k s \<Longrightarrow> P n t" for k s
  proof (induction "n - k" arbitrary: k s)
    case (Suc m)
    then have "k < n" by simp
    then have "[k..<n] = k # [Suc k..<n]" by (simp add: upt_conv_Cons)
    then obtain s' where s': "f k s = Some s'" "each f [Suc k..<n] s' = Some t"
      using Suc.prems(1) by (auto simp: bind_eq_Some_conv)
    show ?case by (rule Suc.hyps(1) [OF _ s'(2)]) (use Suc \<open>k < n\<close> s'(1) assms(2) in auto)
  qed simp
  then show ?thesis using assms(1,3) by blast
qed

lemma each_upt_total:
  assumes "P 0 s" "\<And>i s. i < n \<Longrightarrow> P i s \<Longrightarrow> \<exists>t. f i s = Some t \<and> P (Suc i) t"
  shows "\<exists>t. each f [0..<n] s = Some t \<and> P n t"
proof -
  have "k \<le> n \<Longrightarrow> P k s \<Longrightarrow> \<exists>t. each f [k..<n] s = Some t \<and> P n t" for k s
  proof (induction "n - k" arbitrary: k s)
    case (Suc m)
    then have "k < n" by simp
    then obtain s' where s': "f k s = Some s'" "P (Suc k) s'" using assms(2) Suc.prems by blast
    have "m = n - Suc k" "Suc k \<le> n" using Suc.hyps(2) \<open>k < n\<close> by auto
    from Suc.hyps(1) [OF this s'(2)] show ?case using s'(1) \<open>k < n\<close> by (simp add: upt_conv_Cons)
  qed simp
  then show ?thesis using assms(1) by blast
qed

subsection \<open>Dead instructions\<close>

definition prunes :: "checks \<Rightarrow> nat list \<Rightarrow> instruction list \<Rightarrow> nat \<Rightarrow> bool" where
  "prunes checks uses instrs i =
     (case in_dst (instrs ! i) of
        None \<Rightarrow> False
      | Some dst \<Rightarrow> uses ! dst = 0 \<and> \<not> (ck_kinds checks ! i \<noteq> CheckNone \<or> ck_raw checks ! i) \<and> prunable (in_op (instrs ! i)))"

definition after_pruning :: "checks \<Rightarrow> nat list \<Rightarrow> instruction list \<Rightarrow> nat \<Rightarrow> instruction list" where
  "after_pruning checks uses instrs k =
     map (\<lambda>i. if i < k \<and> prunes checks uses instrs i then pruned (instrs ! i) else instrs ! i) [0..<length instrs]"

lemma after_pruning_simps [simp]:
  "length (after_pruning c u instrs k) = length instrs" "after_pruning c u instrs 0 = instrs"
  "i < length instrs \<Longrightarrow> after_pruning c u instrs k ! i = (if i < k \<and> prunes c u instrs i then pruned (instrs ! i) else instrs ! i)"
  by (simp_all add: after_pruning_def map_nth)

lemma after_pruning_Suc:
  "after_pruning c u instrs (Suc i) = (if prunes c u instrs i then (after_pruning c u instrs i)[i := pruned (instrs ! i)]
     else after_pruning c u instrs i)"
  by (rule nth_equalityI) (auto simp: nth_list_update less_Suc_eq)

text \<open>Which reads a step makes.\<close>

definition prune_reads :: "checks \<Rightarrow> nat list \<Rightarrow> instruction list \<Rightarrow> nat \<Rightarrow> bool" where
  "prune_reads checks uses instrs i =
     (case in_dst (instrs ! i) of
        None \<Rightarrow> True
      | Some dst \<Rightarrow> dst < length uses \<and>
          (uses ! dst = 0 \<longrightarrow> i < length (ck_kinds checks) \<and> i < length (ck_raw checks)))"

lemma prune_one_eq:
  assumes "i < length (st_instrs st)" "st_instrs st ! i = instrs ! i"
  shows "prune_one c u i (st, ch) = (if \<not> prune_reads c u instrs i then None
     else if prunes c u instrs i then Some (st\<lparr>st_instrs := (st_instrs st)[i := pruned (instrs ! i)]\<rparr>, True) else Some (st, ch))"
proof (cases "in_dst (instrs ! i)")
  case (Some dst)
  then show ?thesis using assms
    by (auto simp: prune_one_def prune_reads_def prunes_def keeps_instr_def row_def split: if_splits)
qed (use assms in \<open>simp add: prune_one_def prune_reads_def prunes_def\<close>)

lemma prune_pass_Some:
  "prune_pass c st = Some (st', ch) \<longleftrightarrow>
     (\<forall>i < length (st_instrs st). prune_reads c (count_uses st) (st_instrs st) i) \<and>
     st' = st\<lparr>st_instrs := after_pruning c (count_uses st) (st_instrs st) (length (st_instrs st))\<rparr> \<and>
     ch = (\<exists>i < length (st_instrs st). prunes c (count_uses st) (st_instrs st) i)"
proof -
  let ?u = "count_uses st" and ?is = "st_instrs st" and ?n = "length (st_instrs st)"
  define good where "good = (\<lambda>k s. fst s = st\<lparr>st_instrs := after_pruning c ?u ?is k\<rparr> \<and>
    snd s = (\<exists>i < k. prunes c ?u ?is i))"
  have step: "\<exists>t. prune_one c ?u i s = (if \<not> prune_reads c ?u ?is i then None else Some t) \<and> good (Suc i) t"
    if i: "i < ?n" "good i s" for i s
    using prune_one_eq [of i "fst s" ?is c ?u "snd s"] i
    by (cases s) (auto simp: good_def after_pruning_Suc less_Suc_eq)
  have start: "good 0 (st, False)" by (simp add: good_def)
  have all: "\<exists>t. prune_pass c st = Some t \<and> good ?n t" if "\<forall>i < ?n. prune_reads c ?u ?is i"
    unfolding prune_pass_def by (rule each_upt_total [where P = good]) (use start step that in metis)+
  have reads: "\<forall>i < ?n. prune_reads c ?u ?is i" if "prune_pass c st = Some t" for t
  proof -
    have "good ?n t \<and> (\<forall>i < ?n. prune_reads c ?u ?is i)"
      using that unfolding prune_pass_def
      by (rule each_upt_invariant [rotated 2, where P = "\<lambda>k s. good k s \<and> (\<forall>i < k. prune_reads c ?u ?is i)"])
        (use start step in \<open>simp, metis less_Suc_eq option.sel option.simps(3)\<close>)
    then show ?thesis by blast
  qed
  show ?thesis using all reads by (auto simp: good_def)
qed

lemma count_uses_pruned [simp]: "count_uses (st\<lparr>st_instrs := xs\<rparr>) = count_uses st"
  by (simp add: count_uses_def)

lemma in_dst_pruned [simp]: "in_dst (pruned i) = None"
  by (simp add: pruned_def)

function eliminate_dead :: "checks \<Rightarrow> storage_state \<Rightarrow> storage_state option" where
  "eliminate_dead checks st =
     (case prune_pass checks st of
        None \<Rightarrow> None
      | Some (st', changed) \<Rightarrow> if changed then eliminate_dead checks st' else Some st')"
  by pat_completeness auto
termination
proof (relation "measure (\<lambda>(c, st). card {i. i < length (st_instrs st) \<and> in_dst (st_instrs st ! i) \<noteq> None})", simp, goal_cases)
  case (1 c st p st' changed)
  then obtain i where i: "i < length (st_instrs st)" "prunes c (count_uses st) (st_instrs st) i"
    and st': "st_instrs st' = after_pruning c (count_uses st) (st_instrs st) (length (st_instrs st))"
    by (auto simp: prune_pass_Some)
  have "{i. i < length (st_instrs st') \<and> in_dst (st_instrs st' ! i) \<noteq> None}
      \<subset> {i. i < length (st_instrs st) \<and> in_dst (st_instrs st ! i) \<noteq> None}"
  proof (rule psubsetI)
    show "{i. i < length (st_instrs st') \<and> in_dst (st_instrs st' ! i) \<noteq> None}
        \<subseteq> {i. i < length (st_instrs st) \<and> in_dst (st_instrs st ! i) \<noteq> None}"
      by (auto simp: st' split: if_splits)
    have "in_dst (st_instrs st ! i) \<noteq> None" using i(2) by (auto simp: prunes_def split: option.splits)
    then show "{i. i < length (st_instrs st') \<and> in_dst (st_instrs st' ! i) \<noteq> None}
        \<noteq> {i. i < length (st_instrs st) \<and> in_dst (st_instrs st ! i) \<noteq> None}"
      using i by (auto simp: st' set_eq_iff intro!: exI [of _ i])
  qed
  then show ?case by (simp add: psubset_card_mono)
qed

declare eliminate_dead.simps [simp del]

text \<open>The rows of an operand table do not go away with the instructions, so the second pass finds nothing.\<close>

lemma second_pass_idle:
  assumes "prune_pass c st = Some (st', ch)"
  shows "prune_pass c st' = Some (st', False)"
proof -
  let ?u = "count_uses st" and ?is = "st_instrs st" and ?n = "length (st_instrs st)"
  have st': "st' = st\<lparr>st_instrs := after_pruning c ?u ?is ?n\<rparr>" and reads: "\<forall>i < ?n. prune_reads c ?u ?is i"
    using assms by (simp_all add: prune_pass_Some)
  have none: "\<not> prunes c ?u (st_instrs st') i" if "i < ?n" for i
    using that by (auto simp: st' prunes_def split: option.splits)
  have same: "after_pruning c ?u (st_instrs st') ?n = st_instrs st'"
    using none by (intro nth_equalityI) (auto simp: st')
  have "prune_reads c ?u (st_instrs st') i" if "i < ?n" for i
    using reads that by (auto simp: st' prune_reads_def split: option.splits)
  then show ?thesis using none same by (auto simp: prune_pass_Some st')
qed

lemma eliminate_dead_one_pass: "eliminate_dead c st = map_option fst (prune_pass c st)"
proof (cases "prune_pass c st")
  case None
  then show ?thesis by (simp add: eliminate_dead.simps)
next
  case (Some p)
  obtain st' ch where p: "p = (st', ch)" by (cases p)
  have "eliminate_dead c st' = Some st'"
    using second_pass_idle Some p by (subst eliminate_dead.simps) simp
  then show ?thesis using Some p by (subst eliminate_dead.simps) simp
qed

definition reads_register :: "storage_state \<Rightarrow> nat \<Rightarrow> bool" where
  "reads_register st r \<longleftrightarrow> (\<exists>op \<in> set (st_operands st). opd_data op = OpdRegister r)"

lemma length_count_use [simp]: "length (count_use op uses) = length uses"
  by (simp add: count_use_def split: operand_data.split)

lemma count_uses_zero:
  "r < length (st_registers st) \<Longrightarrow> count_uses st ! r = 0 \<longleftrightarrow> \<not> reads_register st r"
proof -
  assume r: "r < length (st_registers st)"
  have "r < length uses \<Longrightarrow> fold count_use ops uses ! r = 0 \<longleftrightarrow>
      uses ! r = 0 \<and> (\<forall>op \<in> set ops. opd_data op \<noteq> OpdRegister r)" for ops uses
  proof (induction ops arbitrary: uses)
    case (Cons op ops)
    have "count_use op uses ! r = 0 \<longleftrightarrow> uses ! r = 0 \<and> opd_data op \<noteq> OpdRegister r"
      using Cons.prems by (auto simp: count_use_def nth_list_update split: operand_data.split)
    then show ?case using Cons by auto
  qed simp
  from this [of "replicate (length (st_registers st)) 0"] show ?thesis
    using r by (simp add: count_uses_def reads_register_def)
qed

lemma length_count_uses [simp]: "length (count_uses st) = length (st_registers st)"
proof -
  have "length (fold count_use ops uses) = length uses" for ops uses by (induction ops arbitrary: uses) auto
  then show ?thesis by (simp add: count_uses_def)
qed

text \<open>An instruction is dead when it may go, no check needs it and no row of the operand table reads its result.\<close>

definition dead :: "checks \<Rightarrow> storage_state \<Rightarrow> nat \<Rightarrow> bool" where
  "dead c st i \<longleftrightarrow> (case in_dst (st_instrs st ! i) of None \<Rightarrow> False | Some d \<Rightarrow> \<not> reads_register st d) \<and>
     ck_kinds c ! i = CheckNone \<and> \<not> ck_raw c ! i \<and> prunable (in_op (st_instrs st ! i))"

lemma eliminate_dead_Some:
  assumes "eliminate_dead c st = Some st'"
  shows "st' = st\<lparr>st_instrs := map (\<lambda>i. if dead c st i then pruned (st_instrs st ! i) else st_instrs st ! i) [0..<length (st_instrs st)]\<rparr>"
proof -
  let ?u = "count_uses st" and ?is = "st_instrs st" and ?n = "length (st_instrs st)"
  obtain ch where "prune_pass c st = Some (st', ch)" using assms by (auto simp: eliminate_dead_one_pass)
  then have st': "st' = st\<lparr>st_instrs := after_pruning c ?u ?is ?n\<rparr>" and reads: "\<forall>i < ?n. prune_reads c ?u ?is i"
    by (simp_all add: prune_pass_Some)
  have "prunes c ?u ?is i \<longleftrightarrow> dead c st i" if "i < ?n" for i
    using reads that by (auto simp: prunes_def dead_def prune_reads_def count_uses_zero split: option.splits)
  then have "after_pruning c ?u ?is ?n = map (\<lambda>i. if dead c st i then pruned (?is ! i) else ?is ! i) [0..<?n]"
    by (intro nth_equalityI) auto
  then show ?thesis using st' by simp
qed

text \<open>The rows the walk reads of an instruction.\<close>

definition elimination_reads :: "checks \<Rightarrow> storage_state \<Rightarrow> nat \<Rightarrow> bool" where
  "elimination_reads c st i \<longleftrightarrow>
     (case in_dst (st_instrs st ! i) of
        None \<Rightarrow> True
      | Some d \<Rightarrow> d < length (st_registers st) \<and> (reads_register st d \<or> i < length (ck_kinds c) \<and> i < length (ck_raw c)))"

lemma eliminate_dead_returns:
  "eliminate_dead c st \<noteq> None \<longleftrightarrow> list_all (elimination_reads c st) [0..<length (st_instrs st)]"
proof -
  have "prune_reads c (count_uses st) (st_instrs st) i \<longleftrightarrow> elimination_reads c st i" for i
    using count_uses_zero [of "the (in_dst (st_instrs st ! i))" st]
    by (auto simp del: neq0_conv simp: prune_reads_def elimination_reads_def split: option.splits)
  then show ?thesis by (auto simp: eliminate_dead_one_pass prune_pass_Some list_all_iff)
qed

subsection \<open>What an operand is worth\<close>

definition reg_tag :: "storage_state \<Rightarrow> nat \<Rightarrow> type_tag" where
  "reg_tag st r = tn_tag (st_types st ! rg_type (st_registers st ! r))"

definition operand_bits :: "storage_state \<Rightarrow> (nat \<Rightarrow> u64) \<Rightarrow> operand \<Rightarrow> u64 option" where
  "operand_bits st env op =
     (case opd_data op of
        OpdRegister r \<Rightarrow> Some (env r)
      | OpdImmutable i \<Rightarrow> (case row (st_immutables st) i of None \<Rightarrow> None | Some im \<Rightarrow> as_u64_integer (type_tag_of st op) im)
      | _ \<Rightarrow> None)"

abbreviation nth_operand :: "storage_state \<Rightarrow> instruction \<Rightarrow> nat \<Rightarrow> operand" where
  "nth_operand st instr k \<equiv> st_operands st ! range_at (in_operands instr) k"

text \<open>
  The typing the lowering keeps and the verifier does not look at: an operand has the type of the
  register it names, the arms of a select have the type of its result, the operands of an arithmetic
  operation have one type and its result that type or a truth value.
\<close>

definition typed_operand :: "storage_state \<Rightarrow> operand \<Rightarrow> bool" where
  "typed_operand st op \<longleftrightarrow> opd_type op < length (st_types st) \<and>
     (case opd_data op of
        OpdRegister r \<Rightarrow> r < length (st_registers st) \<and> type_tag_of st op = reg_tag st r
      | OpdImmutable i \<Rightarrow> i < length (st_immutables st)
      | _ \<Rightarrow> True)"

definition typed_instr :: "storage_state \<Rightarrow> instruction \<Rightarrow> bool" where
  "typed_instr st instr \<longleftrightarrow>
     (case in_dst instr of
        None \<Rightarrow> True
      | Some d \<Rightarrow>
          if in_op instr = OpSelect \<and> operand_count instr = 3 then
            type_tag_of st (nth_operand st instr 1) = reg_tag st d \<and> type_tag_of st (nth_operand st instr 2) = reg_tag st d
          else if operand_count instr = 2 \<and> op_meaning (in_op instr) TyI64 0 1 \<noteq> None then
            (let tag = type_tag_of st (nth_operand st instr 0) in
             type_tag_of st (nth_operand st instr 1) = tag \<and> reg_tag st d = result_tag (in_op instr) tag \<and>
             (in_op instr \<in> {OpIntAdd, OpIntSub, OpIntMul} \<longrightarrow> tag \<noteq> TyI1))
          else True)"

definition typed_storage :: "storage_state \<Rightarrow> bool" where
  "typed_storage st \<longleftrightarrow> list_all (typed_operand st) (st_operands st) \<and> list_all (typed_instr st) (st_instrs st)"

text \<open>The equation an instruction imposes on the values of registers.\<close>

definition instr_holds :: "storage_state \<Rightarrow> (nat \<Rightarrow> u64) \<Rightarrow> instruction \<Rightarrow> bool" where
  "instr_holds st env instr \<longleftrightarrow>
     (case in_dst instr of
        None \<Rightarrow> True
      | Some d \<Rightarrow>
          if in_op instr = OpSelect \<and> operand_count instr = 3 then
            (case operand_bits st env (nth_operand st instr 0) of
               None \<Rightarrow> True
             | Some c \<Rightarrow> operand_bits st env (nth_operand st instr (if c \<noteq> 0 then 1 else 2)) = Some (env d))
          else if operand_count instr = 2 then
            (case (operand_bits st env (nth_operand st instr 0), operand_bits st env (nth_operand st instr 1)) of
               (Some a, Some b) \<Rightarrow>
                 (let tag = type_tag_of st (nth_operand st instr 0); x = tag_value tag a; y = tag_value tag b in
                  (case op_meaning (in_op instr) tag x y of None \<Rightarrow> True | Some v \<Rightarrow> env d = encode (reg_tag st d) v))
             | _ \<Rightarrow> True)
          else True)"

text \<open>
  No unsigned division reads a negative value: such a division means the division of the operands' own bits, while the
  folder divides sign-extended words (\<open>wide_division\<close>).
\<close>

definition divides_plainly :: "storage_state \<Rightarrow> (nat \<Rightarrow> u64) \<Rightarrow> instruction \<Rightarrow> bool" where
  "divides_plainly st env instr \<longleftrightarrow>
     (case (operand_bits st env (nth_operand st instr 0), operand_bits st env (nth_operand st instr 1)) of
        (Some a, Some b) \<Rightarrow>
          (let tag = type_tag_of st (nth_operand st instr 0) in \<not> wide_division (in_op instr) (tag_value tag a) (tag_value tag b))
      | _ \<Rightarrow> True)"

definition no_wide_division :: "storage_state \<Rightarrow> (nat \<Rightarrow> u64) \<Rightarrow> bool" where
  "no_wide_division st env \<longleftrightarrow> list_all (divides_plainly st env) (st_instrs st)"

definition satisfies :: "storage_state \<Rightarrow> (nat \<Rightarrow> u64) \<Rightarrow> bool" where
  "satisfies st env \<longleftrightarrow> list_all (instr_holds st env) (st_instrs st)"


subsection \<open>Folding\<close>

definition with_immutables :: "storage_state \<Rightarrow> immutable list \<Rightarrow> storage_state" where
  "with_immutables st ims = st\<lparr>st_immutables := st_immutables st @ ims\<rparr>"

lemma with_immutables_simps [simp]:
  "st_instrs (with_immutables st ims) = st_instrs st" "st_operands (with_immutables st ims) = st_operands st"
  "st_registers (with_immutables st ims) = st_registers st" "st_types (with_immutables st ims) = st_types st"
  "st_immutables (with_immutables st ims) = st_immutables st @ ims"
  "type_tag_of (with_immutables st ims) = type_tag_of st" "tag_at (with_immutables st ims) = tag_at st"
  "reg_tag (with_immutables st ims) = reg_tag st" "operand_at (with_immutables st ims) = operand_at st"
  "with_immutables st [] = st"
  by (simp_all add: with_immutables_def type_tag_of_def tag_at_def reg_tag_def operand_at_def fun_eq_iff)

lemma operand_bits_grow:
  "operand_bits (with_immutables st ims) env op = Some v \<Longrightarrow> operand_bits (with_immutables st (ims @ ims')) env op = Some v"
  by (auto simp: operand_bits_def nth_append split: operand_data.splits option.splits)

lemma operand_bits_typed: "typed_operand st op \<Longrightarrow> operand_bits (with_immutables st ims) env op = operand_bits st env op"
  by (auto simp: operand_bits_def typed_operand_def row_def nth_append split: operand_data.splits)

text \<open>Everything the walk knows is worth what the register it is known for is worth.\<close>

definition knows :: "storage_state \<Rightarrow> (nat \<Rightarrow> u64) \<Rightarrow> fold_state \<Rightarrow> bool" where
  "knows st env s \<longleftrightarrow> (\<exists>ims. fs_state s = with_immutables st ims) \<and> length (fs_known s) = length (st_registers st) \<and>
     (\<forall>r op. known_value (fs_known s) r = Some op \<longrightarrow>
        operand_bits (fs_state s) env op = Some (env r) \<and> type_tag_of st op = reg_tag st r)"

lemma tag_at_Some: "tag_at st t = Some tag \<longleftrightarrow> t < length (st_types st) \<and> tag = tn_tag (st_types st ! t)"
  by (auto simp: tag_at_def row_def)

lemma constant_of_sound:
  assumes k: "knows st env s" and t: "typed_operand st op" and c: "constant_of (fs_state s) (fs_known s) op = Some (Some (a, tag))"
  shows "operand_bits st env op = Some a" "tag = type_tag_of st op" "is_integer_type tag" "canonical tag a"
proof -
  obtain ims where ims: "fs_state s = with_immutables st ims" using k by (auto simp: knows_def)
  obtain rop i where rop: "resolve (fs_known s) op = Some rop" "opd_data rop = OpdImmutable i"
    using c by (auto simp: constant_of_def split: option.splits operand_data.splits)
  have tag: "tag_at st (opd_type rop) = Some tag" and int: "is_integer_type tag" and i: "i < length (st_immutables (fs_state s))"
    and a: "as_u64_integer tag (st_immutables (fs_state s) ! i) = Some a"
    using c rop ims by (auto simp: constant_of_def bind_eq_Some_conv split: if_splits)
  have tr: "tag = type_tag_of st rop" using tag by (simp add: tag_at_Some type_tag_of_def)
  then have bits: "operand_bits (fs_state s) env rop = Some a" using rop i a ims by (simp add: operand_bits_def)
  show "is_integer_type tag" by (rule int)
  show "canonical tag a" using a by (simp add: as_u64_integer_eq [OF int]) (metis canonical_encode)
  show "operand_bits st env op = Some a" "tag = type_tag_of st op"
  proof -
    have "operand_bits st env op = Some a \<and> tag = type_tag_of st op"
    proof (cases "\<exists>r. opd_data op = OpdRegister r")
      case True
      then obtain r where r: "opd_data op = OpdRegister r" by blast
      then have "known_value (fs_known s) r = Some rop" using rop(1) by (simp add: resolve_def)
      then show ?thesis using k bits tr t r by (auto simp: knows_def operand_bits_def typed_operand_def)
    next
      case False
      then have "rop = op" using rop(1) by (auto simp: resolve_def split: operand_data.splits)
      then show ?thesis using bits tr operand_bits_typed [OF t] ims by simp
    qed
    then show "operand_bits st env op = Some a" "tag = type_tag_of st op" by blast+
  qed
qed

lemma known_learn:
  "known_value (fs_known (learn d op s)) r = Some x \<Longrightarrow>
    (r = d \<and> x = op \<and> d < length (fs_known s)) \<or> (r \<noteq> d \<and> known_value (fs_known s) r = Some x)"
  by (cases "r = d") (auto simp: known_value_def learn_def split: if_splits)

lemma knows_learn:
  assumes "knows st env s" "fs_state s' = with_immutables (fs_state s) ims'" "fs_known s' = fs_known s"
    and "operand_bits (fs_state s') env op = Some (env d)" "type_tag_of st op = reg_tag st d"
  shows "knows st env (learn d op s')"
proof -
  obtain ims where ims: "fs_state s = with_immutables st ims" using assms(1) by (auto simp: knows_def)
  have s': "fs_state s' = with_immutables st (ims @ ims')" using assms(2) ims by (simp add: with_immutables_def)
  have old: "operand_bits (fs_state s') env x = Some (env r) \<and> type_tag_of st x = reg_tag st r"
    if "known_value (fs_known s) r = Some x" for r x
    using that assms(1) operand_bits_grow [of st ims env x _ ims'] unfolding knows_def s' ims by blast
  have "\<exists>ims. fs_state (learn d op s') = with_immutables st ims" using s' by (auto simp: learn_def)
  then show ?thesis unfolding knows_def
    using known_learn [of d op s'] old assms(1,3,4,5) by (auto simp: learn_def knows_def)
qed

lemma operand_at_typed:
  "typed_storage st \<Longrightarrow> operand_at st instr k = Some op \<Longrightarrow> op = nth_operand st instr k \<and> typed_operand st op"
  by (auto simp: operand_at_def typed_storage_def list_all_iff)

lemma foldable_meaning: "op_meaning op tag x y = Some v \<Longrightarrow> op_meaning op TyI64 0 1 \<noteq> None"
  by (auto simp: op_meaning_def Let_def split: if_splits)

lemma knows_state: "knows st env s \<Longrightarrow> operand_at (fs_state s) = operand_at st" "knows st env s \<Longrightarrow> tag_at (fs_state s) = tag_at st"
  "knows st env s \<Longrightarrow> st_instrs (fs_state s) = st_instrs st" "knows st env s \<Longrightarrow> st_registers (fs_state s) = st_registers st"
  by (auto simp: knows_def)

lemma fold_select_knows:
  assumes t: "typed_storage st" and h: "instr_holds st env instr" "typed_instr st instr" and k: "knows st env s"
    and i: "in_dst instr = Some d" "in_op instr = OpSelect" "operand_count instr = 3" and f: "fold_select instr d s = Some s'"
  shows "knows st env s'"
proof -
  note k' = knows_state [OF k]
  obtain c0 c where c0: "operand_at st instr 0 = Some c0" "constant_of (fs_state s) (fs_known s) c0 = Some c"
    using f k' by (auto simp: fold_select_def bind_eq_Some_conv)
  show ?thesis
  proof (cases c)
    case None
    then show ?thesis using f c0 k k' by (simp add: fold_select_def)
  next
    case (Some p)
    obtain bits tag where p: "p = (bits, tag)" by (cases p)
    let ?j = "if bits \<noteq> 0 then 1 else 2 :: nat"
    obtain op where op: "operand_at st instr ?j = Some op" "s' = learn d op s"
      using f c0 Some p k' by (auto simp: fold_select_def bind_eq_Some_conv)
    have c0': "c0 = nth_operand st instr 0" "typed_operand st c0" using operand_at_typed [OF t c0(1)] by blast+
    have op': "op = nth_operand st instr ?j" "typed_operand st op" using operand_at_typed [OF t op(1)] by blast+
    have "operand_bits st env c0 = Some bits" using constant_of_sound(1) [OF k c0'(2)] c0 Some p by simp
    then have "operand_bits st env op = Some (env d)" using h(1) i c0'(1) op'(1) by (auto simp: instr_holds_def)
    then have "operand_bits (fs_state s) env op = Some (env d)" using operand_bits_typed [OF op'(2)] k by (auto simp: knows_def)
    moreover have "type_tag_of st op = reg_tag st d" using h(2) i op'(1) by (auto simp: typed_instr_def)
    ultimately show ?thesis unfolding op(2) by (intro knows_learn [OF k, of _ "[]"]) simp_all
  qed
qed

text \<open>What a successful fold of two operands rests on.\<close>

lemma fold_two_cases:
  assumes t: "typed_storage st" and k: "knows st env s" and f: "fold_two i check instr d dt dtag s = Some s'" and ne: "s' \<noteq> s"
  obtains a b tag out s1 where
    "operand_bits st env (nth_operand st instr 0) = Some a" "operand_bits st env (nth_operand st instr 1) = Some b"
    "tag = type_tag_of st (nth_operand st instr 0)" "is_integer_type tag" "canonical tag a"
    "canonical (type_tag_of st (nth_operand st instr 1)) b" "fold_binary (in_op instr) tag a b = Some out"
    "store_folded d dt dtag out s1 = Some s'"
    "s1 = (if check = CheckOverflow then s\<lparr>fs_checks := (fs_checks s)\<lparr>ck_kinds := (ck_kinds (fs_checks s))[i := CheckNone]\<rparr>\<rparr> else s)"
    "check = CheckOverflow \<Longrightarrow> \<not> overflows (in_op instr) tag a b"
proof -
  note k' = knows_state [OF k]
  obtain l ca where l: "operand_at st instr 0 = Some l" "constant_of (fs_state s) (fs_known s) l = Some ca"
    using f k' by (auto simp: fold_two_def bind_eq_Some_conv)
  obtain a tag where ca: "ca = Some (a, tag)" using f l k' ne by (cases ca) (auto simp: fold_two_def)
  obtain r cb where r: "operand_at st instr 1 = Some r" "constant_of (fs_state s) (fs_known s) r = Some cb"
    using f l ca k' by (auto simp: fold_two_def bind_eq_Some_conv)
  obtain b btag where cb: "cb = Some (b, btag)" using f l ca r k' ne by (cases cb) (auto simp: fold_two_def)
  have l': "l = nth_operand st instr 0" "typed_operand st l" using operand_at_typed [OF t l(1)] by blast+
  have r': "r = nth_operand st instr 1" "typed_operand st r" using operand_at_typed [OF t r(1)] by blast+
  note sl = constant_of_sound [OF k l'(2), of a tag, unfolded l(2) ca, OF refl]
  note sr = constant_of_sound [OF k r'(2), of b btag, unfolded r(2) cb, OF refl]
  obtain out where out: "fold_binary (in_op instr) tag a b = Some out" using f l ca r cb k' ne by (auto simp: fold_two_def split: option.splits)
  show thesis
  proof (rule that)
    show "operand_bits st env (nth_operand st instr 0) = Some a" "tag = type_tag_of st (nth_operand st instr 0)"
      using sl l' by simp_all
    show "operand_bits st env (nth_operand st instr 1) = Some b" "canonical (type_tag_of st (nth_operand st instr 1)) b"
      using sr r' by simp_all
    show "is_integer_type tag" "canonical tag a" using sl by simp_all
    show "fold_binary (in_op instr) tag a b = Some out" by (rule out)
    show "check = CheckOverflow \<Longrightarrow> \<not> overflows (in_op instr) tag a b"
      using f l ca r cb k' ne out by (auto simp: fold_two_def)
    show "store_folded d dt dtag out (if check = CheckOverflow then s\<lparr>fs_checks := (fs_checks s)\<lparr>ck_kinds := (ck_kinds (fs_checks s))[i := CheckNone]\<rparr>\<rparr> else s) = Some s'"
      using f l ca r cb k' ne out by (auto simp: fold_two_def split: if_splits)
  qed (rule refl)
qed

lemma typed_two:
  assumes "typed_instr st instr" "in_dst instr = Some d" "operand_count instr = 2" "in_op instr \<noteq> OpSelect"
    and "op_meaning (in_op instr) TyI64 0 1 \<noteq> None"
  shows "type_tag_of st (nth_operand st instr 1) = type_tag_of st (nth_operand st instr 0)"
    "reg_tag st d = result_tag (in_op instr) (type_tag_of st (nth_operand st instr 0))"
    "in_op instr \<in> {OpIntAdd, OpIntSub, OpIntMul} \<Longrightarrow> type_tag_of st (nth_operand st instr 0) \<noteq> TyI1"
  using assms by (auto simp: typed_instr_def Let_def)

lemma fold_binary_known: "fold_binary op tag a b = Some out \<Longrightarrow> op_meaning op TyI64 0 1 \<noteq> None \<and> op \<noteq> OpSelect"
  by (auto simp: fold_binary_def op_meaning_def Let_def split: if_splits)

lemma fold_two_knows:
  assumes t: "typed_storage st" and h: "instr_holds st env instr" "typed_instr st instr" and w: "divides_plainly st env instr"
    and k: "knows st env s"
    and i: "in_dst instr = Some d" "operand_count instr = 2"
    and d: "d < length (st_registers st)" "dt = rg_type (st_registers st ! d)" "dtag = reg_tag st d"
    and f: "fold_two i check instr d dt dtag s = Some s'"
  shows "knows st env s'"
proof (cases "s' = s")
  case False
  obtain a b tag out s1 where ab: "operand_bits st env (nth_operand st instr 0) = Some a"
    "operand_bits st env (nth_operand st instr 1) = Some b" and tag: "tag = type_tag_of st (nth_operand st instr 0)"
    "is_integer_type tag" and c: "canonical tag a" "canonical (type_tag_of st (nth_operand st instr 1)) b"
    and out: "fold_binary (in_op instr) tag a b = Some out" "store_folded d dt dtag out s1 = Some s'"
    and s1: "s1 = (if check = CheckOverflow then s\<lparr>fs_checks := (fs_checks s)\<lparr>ck_kinds := (ck_kinds (fs_checks s))[i := CheckNone]\<rparr>\<rparr> else s)"
    by (rule fold_two_cases [OF t k f False])
  note ty = typed_two [OF h(2) i conjunct2 conjunct1, OF fold_binary_known fold_binary_known, OF out(1) out(1)]
  have cb: "canonical tag b" and dtag: "dtag = result_tag (in_op instr) tag" using c ty tag d by simp_all
  have "folder_meaning (in_op instr) tag (tag_value tag a) (tag_value tag b) = op_meaning (in_op instr) tag (tag_value tag a) (tag_value tag b)"
    using w ab tag(1) by (intro folder_meaning_plain) (simp add: divides_plainly_def Let_def)
  moreover have "case op_meaning (in_op instr) tag (tag_value tag a) (tag_value tag b) of None \<Rightarrow> True | Some v \<Rightarrow> env d = encode dtag v"
    unfolding d(3) tag(1) using h(1) i ab fold_binary_known [OF out(1)] by (simp add: instr_holds_def Let_def)
  moreover obtain v where "folder_meaning (in_op instr) tag (tag_value tag a) (tag_value tag b) = Some v"
    "as_u64_integer dtag (integer_immutable dt dtag out) = Some (encode dtag v)"
    using folded_value [OF tag(2) c(1) cb out(1), of dt] dtag by auto
  ultimately have val: "as_u64_integer dtag (integer_immutable dt dtag out) = Some (env d)" by (simp split: option.splits)
  let ?im = "integer_immutable dt dtag out" and ?op = "from_immutable (length (st_immutables (fs_state s))) dt"
  let ?s2 = "s1\<lparr>fs_state := with_immutables (fs_state s) [?im]\<rparr>"
  have s1': "fs_state s1 = fs_state s" "fs_known s1 = fs_known s" using s1 by auto
  have s': "s' = learn d ?op ?s2"
    using out(2) s1' by (auto simp: store_folded_def bind_eq_Some_conv with_immutables_def learn_def Let_def)
  have tt: "type_tag_of st ?op = reg_tag st d" by (simp add: type_tag_of_def from_immutable_def reg_tag_def d)
  have "type_tag_of (with_immutables (fs_state s) [?im]) ?op = dtag"
    using tt k d by (auto simp: knows_def)
  then have "operand_bits (with_immutables (fs_state s) [?im]) env ?op = Some (env d)"
    using val by (simp add: operand_bits_def from_immutable_def)
  then show ?thesis unfolding s' using tt s1' by (intro knows_learn [OF k]) simp_all
qed (use k in simp)

text \<open>A step of the walk leaves everything as it is, resolves a select or folds two constants.\<close>

lemma fold_instr_cases:
  assumes k: "knows st env s" and f: "fold_instr i s = Some s'"
  obtains (same) "s' = s"
  | (sel) instr d where "i < length (st_instrs st)" "instr = st_instrs st ! i" "in_dst instr = Some d"
      "in_op instr = OpSelect" "operand_count instr = 3" "fold_select instr d s = Some s'"
  | (two) instr d check where "i < length (st_instrs st)" "instr = st_instrs st ! i" "in_dst instr = Some d"
      "operand_count instr = 2" "d < length (st_registers st)" "check = ck_kinds (fs_checks s) ! i"
      "i < length (ck_kinds (fs_checks s))" "\<not> ck_raw (fs_checks s) ! i" "check = CheckNone \<or> check = CheckOverflow"
      "is_integer_type (reg_tag st d)" "fold_two i check instr d (rg_type (st_registers st ! d)) (reg_tag st d) s = Some s'"
proof (cases "s' = s")
  case False
  note k' = knows_state [OF k]
  obtain raw where raw: "row (ck_raw (fs_checks s)) i = Some raw" using f by (auto simp: fold_instr_def bind_eq_Some_conv)
  with f False have nraw: "\<not> raw" by (auto simp: fold_instr_def)
  obtain check where check: "row (ck_kinds (fs_checks s)) i = Some check"
    using f raw nraw by (auto simp: fold_instr_def bind_eq_Some_conv)
  have nc: "\<not> (check \<noteq> CheckNone \<and> check \<noteq> CheckOverflow)"
    using f raw nraw False check by (cases check) (auto simp: fold_instr_def)
  obtain instr where instr: "row (st_instrs st) i = Some instr"
    using f raw nraw check nc k' by (auto simp: fold_instr_def bind_eq_Some_conv)
  obtain d where d: "in_dst instr = Some d" using f raw nraw check nc instr k' False by (cases "in_dst instr") (auto simp: fold_instr_def)
  note base = f raw nraw check nc instr k' d
  obtain reg where reg: "row (st_registers st) d = Some reg" using base by (auto simp: fold_instr_def bind_eq_Some_conv)
  obtain dtag where dtag: "tag_at st (rg_type reg) = Some dtag" using base reg by (auto simp: fold_instr_def bind_eq_Some_conv)
  have dt: "d < length (st_registers st)" "rg_type reg = rg_type (st_registers st ! d)" "dtag = reg_tag st d"
    using reg dtag by (auto simp: tag_at_Some reg_tag_def)
  have int: "is_integer_type dtag" using base reg dtag False by (auto simp: fold_instr_def split: if_splits)
  show thesis
  proof (cases "in_op instr = OpSelect \<and> operand_count instr = 3")
    case True
    then have "fold_select instr d s = Some s'" using base reg dtag int by (auto simp: fold_instr_def)
    then show thesis using sel instr d True by auto
  next
    case no: False
    then have count: "operand_count instr = 2" using base reg dtag int False by (auto simp: fold_instr_def split: if_splits)
    then have "fold_two i check instr d (rg_type reg) dtag s = Some s'" using base reg dtag int no by (auto simp: fold_instr_def)
    then show thesis using two [of instr d check] instr d count dt raw nraw check nc int by auto
  qed
qed (rule same)

lemma fold_instr_knows:
  assumes t: "typed_storage st" and h: "satisfies st env" and w: "no_wide_division st env" and k: "knows st env s"
    and f: "fold_instr i s = Some s'"
  shows "knows st env s'"
  using k f
proof (cases rule: fold_instr_cases)
  case same
  then show ?thesis using k by simp
next
  case (sel instr d)
  then have "instr_holds st env instr" "typed_instr st instr" using t h by (auto simp: typed_storage_def satisfies_def list_all_iff)
  then show ?thesis using fold_select_knows [OF t _ _ k] sel by blast
next
  case (two instr d check)
  then have "instr_holds st env instr" "typed_instr st instr" "divides_plainly st env instr"
    using t h w by (auto simp: typed_storage_def satisfies_def no_wide_division_def list_all_iff)
  then show ?thesis using fold_two_knows [OF t _ _ _ k] two by blast
qed

lemma knows_start:
  "knows st env \<lparr>fs_state = st, fs_checks = c, fs_known = replicate (length (st_registers st)) unknown_operand\<rparr>"
proof -
  have "\<exists>ims. st = with_immutables st ims" by (rule exI [of _ "[]"]) simp
  then show ?thesis by (auto simp: knows_def known_value_def unknown_operand_def from_register_def split: if_splits)
qed

lemma fold_loop_knows:
  assumes "typed_storage st" "satisfies st env" "no_wide_division st env"
    and "each fold_instr [0..<n] \<lparr>fs_state = st, fs_checks = c, fs_known = replicate (length (st_registers st)) unknown_operand\<rparr> = Some s"
  shows "knows st env s"
  by (rule each_upt_invariant [where P = "\<lambda>_. knows st env", OF knows_start _ assms(4)])
    (rule fold_instr_knows [OF assms(1-3)])

lemma substitute_bits:
  assumes k: "knows st env s" and t: "typed_operand st op" and f: "st' = (fs_state s)\<lparr>st_operands := ops\<rparr>"
  shows "operand_bits st' env (substitute (fs_known s) op) = operand_bits st env op"
    "opd_type (substitute (fs_known s) op) = opd_type op"
proof -
  have same: "operand_bits st' env x = operand_bits (fs_state s) env x" for x
    by (simp add: operand_bits_def f type_tag_of_def split: operand_data.split option.split)
  have retyped: "operand_bits (fs_state s) env (x\<lparr>opd_type := ty\<rparr>) = operand_bits (fs_state s) env x"
    if "tn_tag (st_types (fs_state s) ! ty) = type_tag_of (fs_state s) x" for x ty
    using that by (simp add: operand_bits_def type_tag_of_def split: operand_data.split option.split)
  obtain ims where ims: "fs_state s = with_immutables st ims" using k by (auto simp: knows_def)
  show "operand_bits st' env (substitute (fs_known s) op) = operand_bits st env op"
  proof (cases "\<exists>r x. opd_data op = OpdRegister r \<and> known_value (fs_known s) r = Some x")
    case True
    then obtain r x where r: "opd_data op = OpdRegister r" "known_value (fs_known s) r = Some x" by blast
    then have x: "operand_bits (fs_state s) env x = Some (env r)" "type_tag_of st x = reg_tag st r"
      using k by (auto simp: knows_def)
    have "tn_tag (st_types (fs_state s) ! opd_type op) = type_tag_of (fs_state s) x"
      using t r x(2) by (auto simp: typed_operand_def ims type_tag_of_def)
    then show ?thesis using r x(1) retyped by (simp add: substitute_def same operand_bits_def [of st])
  next
    case False
    then have "substitute (fs_known s) op = op"
      by (auto simp: substitute_def split: operand_data.split option.split)
    then show ?thesis using operand_bits_typed [OF t] by (simp add: same ims)
  qed
  show "opd_type (substitute (fs_known s) op) = opd_type op"
    by (auto simp: substitute_def split: operand_data.split option.split)
qed


subsection \<open>Checks that folding takes away\<close>

definition overflow_aborts :: "storage_state \<Rightarrow> (nat \<Rightarrow> u64) \<Rightarrow> instruction \<Rightarrow> bool" where
  "overflow_aborts st env instr \<longleftrightarrow> in_op instr \<in> {OpIntAdd, OpIntSub, OpIntMul} \<and>
     (let tag = type_tag_of st (nth_operand st instr 0) in
      case (operand_bits st env (nth_operand st instr 0), operand_bits st env (nth_operand st instr 1)) of
        (Some a, Some b) \<Rightarrow>
          (case op_meaning (in_op instr) tag (tag_value tag a) (tag_value tag b) of None \<Rightarrow> False | Some v \<Rightarrow> \<not> in_range tag v)
      | _ \<Rightarrow> False)"

lemma canonical_masked:
  assumes "canonical tag a" "is_integer_type tag" "tag \<noteq> TyI1" "\<not> is_signed tag"
  shows "a \<le> comp_mask tag"
proof -
  have "uint a = take_bit (width tag) (uint a)" using unsigned_word [OF assms(1,4)] assms(4) by (simp add: tag_value_def)
  then have "uint a < 2 ^ width tag" by (metis take_bit_int_less_exp)
  then show ?thesis using assms(2-4)
    by (auto simp: comp_mask_def word_le_def is_integer_type_def is_signed_def width_def int_bytes_def uint_minus_one)
qed

lemma overflows_exact:
  assumes "canonical tag a" "canonical tag b" "is_integer_type tag" "tag \<noteq> TyI1" "op \<in> {OpIntAdd, OpIntSub, OpIntMul}"
  shows "\<exists>v. op_meaning op tag (tag_value tag a) (tag_value tag b) = Some v \<and> (overflows op tag a b \<longleftrightarrow> \<not> in_range tag v)"
proof -
  have m: "is_signed tag \<or> a \<le> comp_mask tag \<and> b \<le> comp_mask tag" using canonical_masked assms by blast
  show ?thesis using assms(5) overflow_unmasked [OF assms(3,4) m] by (auto simp: overflows_def op_meaning_def Let_def)
qed

lemma fold_two_silent:
  assumes t: "typed_storage st" and ti: "typed_instr st instr" and k: "knows st env s"
    and i: "in_dst instr = Some d" "operand_count instr = 2"
    and f: "fold_two i CheckOverflow instr d dt dtag s = Some s'" and ne: "s' \<noteq> s"
  shows "\<not> overflow_aborts st env instr"
proof -
  obtain a b tag out where ab: "operand_bits st env (nth_operand st instr 0) = Some a"
    "operand_bits st env (nth_operand st instr 1) = Some b" and tag: "tag = type_tag_of st (nth_operand st instr 0)"
    "is_integer_type tag" and c: "canonical tag a" "canonical (type_tag_of st (nth_operand st instr 1)) b"
    and out: "fold_binary (in_op instr) tag a b = Some out" and no: "\<not> overflows (in_op instr) tag a b"
    by (rule fold_two_cases [OF t k f ne]) auto
  note ty = typed_two [OF ti i conjunct2 conjunct1, OF fold_binary_known fold_binary_known, OF out(1) out(1)]
  have cb: "canonical tag b" using c(2) ty(1) tag by simp
  show ?thesis
  proof (cases "in_op instr \<in> {OpIntAdd, OpIntSub, OpIntMul}")
    case True
    then have "tag \<noteq> TyI1" using ty(3) tag by simp
    then show ?thesis using overflows_exact [OF c(1) cb tag(2) _ True] no ab tag(1) by (auto simp: overflow_aborts_def Let_def)
  qed (simp add: overflow_aborts_def)
qed

definition checks_kept :: "storage_state \<Rightarrow> (nat \<Rightarrow> u64) \<Rightarrow> checks \<Rightarrow> checks \<Rightarrow> bool" where
  "checks_kept st env c c' \<longleftrightarrow> ck_raw c' = ck_raw c \<and> length (ck_kinds c') = length (ck_kinds c) \<and>
     list_all (\<lambda>i. ck_kinds c' ! i = ck_kinds c ! i \<or>
        ck_kinds c ! i = CheckOverflow \<and> ck_kinds c' ! i = CheckNone \<and> \<not> overflow_aborts st env (st_instrs st ! i))
       [0..<length (ck_kinds c)]"

lemma checks_keptD:
  "checks_kept st env c c' \<Longrightarrow> i < length (ck_kinds c) \<Longrightarrow> ck_kinds c' ! i = ck_kinds c ! i \<or>
     ck_kinds c ! i = CheckOverflow \<and> ck_kinds c' ! i = CheckNone \<and> \<not> overflow_aborts st env (st_instrs st ! i)"
  by (simp add: checks_kept_def list_all_iff)

lemma checks_kept_refl: "checks_kept st env c c"
  by (simp add: checks_kept_def list_all_iff)

lemma store_folded_checks: "store_folded d dt dtag out s = Some s' \<Longrightarrow> fs_checks s' = fs_checks s"
  by (auto simp: store_folded_def bind_eq_Some_conv Let_def learn_def)

lemma fold_instr_checks:
  assumes t: "typed_storage st" and k: "knows st env s" and f: "fold_instr i s = Some s'" and c: "checks_kept st env c (fs_checks s)"
  shows "checks_kept st env c (fs_checks s')"
  using k f
proof (cases rule: fold_instr_cases)
  case same
  then show ?thesis using c by simp
next
  case (sel instr d)
  then have "fs_checks s' = fs_checks s" by (auto simp: fold_select_def bind_eq_Some_conv learn_def split: option.splits)
  then show ?thesis using c by simp
next
  case (two instr d check)
  have ti: "typed_instr st instr" using t two by (auto simp: typed_storage_def list_all_iff)
  show ?thesis
  proof (cases "s' = s")
    case False
    obtain out s1 where s1: "store_folded d (rg_type (st_registers st ! d)) (reg_tag st d) out s1 = Some s'"
      "s1 = (if check = CheckOverflow then s\<lparr>fs_checks := (fs_checks s)\<lparr>ck_kinds := (ck_kinds (fs_checks s))[i := CheckNone]\<rparr>\<rparr> else s)"
      by (rule fold_two_cases [OF t k two(11) False])
    show ?thesis
    proof (cases "check = CheckOverflow")
      case True
      have "\<not> overflow_aborts st env (st_instrs st ! i)"
        using fold_two_silent [OF t ti k two(3,4) _ False] two(2,11) True by blast
      moreover have "fs_checks s' = (fs_checks s)\<lparr>ck_kinds := (ck_kinds (fs_checks s))[i := CheckNone]\<rparr>"
        using store_folded_checks [OF s1(1)] s1(2) True by simp
      moreover have "ck_kinds c ! i = CheckOverflow" using checks_keptD [OF c, of i] two(6,7) True c by (auto simp: checks_kept_def)
      ultimately show ?thesis using c two(7) by (auto simp: checks_kept_def list_all_iff nth_list_update)
    next
      case no: False
      then show ?thesis using store_folded_checks [OF s1(1)] s1(2) c by simp
    qed
  qed (use c in simp)
qed

lemma fold_loop_checks:
  assumes "typed_storage st" "satisfies st env" "no_wide_division st env"
    and "each fold_instr [0..<n] \<lparr>fs_state = st, fs_checks = c, fs_known = replicate (length (st_registers st)) unknown_operand\<rparr> = Some s"
  shows "checks_kept st env c (fs_checks s)"
proof -
  have "knows st env s \<and> checks_kept st env c (fs_checks s)"
    by (rule each_upt_invariant [where P = "\<lambda>_ s. knows st env s \<and> checks_kept st env c (fs_checks s)", OF _ _ assms(4)])
      (use knows_start checks_kept_refl fold_instr_knows [OF assms(1-3)] fold_instr_checks [OF assms(1)] in \<open>simp, blast\<close>)
  then show ?thesis ..
qed


subsection \<open>Properties\<close>

text \<open>A function that returns (3 + 4) * 4 and computes one product nobody reads.\<close>

definition sample_program :: storage_state where
  "sample_program = empty_state\<lparr>
     st_types := [plain_node TyI32],
     st_registers := [\<lparr>rg_type = 0, rg_def = Some 0\<rparr>, \<lparr>rg_type = 0, rg_def = Some 1\<rparr>, \<lparr>rg_type = 0, rg_def = Some 2\<rparr>],
     st_immutables := [\<lparr>im_type = 0, im_bits = 3\<rparr>, \<lparr>im_type = 0, im_bits = 4\<rparr>],
     st_operands := [from_immutable 0 0, from_immutable 1 0, from_register 0 0, from_immutable 1 0, from_register 1 0,
       from_register 0 0, from_register 0 0],
     st_instrs := [
       \<lparr>in_op = OpIntAdd, in_flags = \<lparr>fl_rmw_op = RmwAdd, fl_inbounds = False\<rparr>, in_dst = Some 0, in_measure = None, in_operands = \<lparr>rg_head = 0, rg_size = 2\<rparr>\<rparr>,
       \<lparr>in_op = OpIntMul, in_flags = \<lparr>fl_rmw_op = RmwAdd, fl_inbounds = False\<rparr>, in_dst = Some 1, in_measure = None, in_operands = \<lparr>rg_head = 2, rg_size = 2\<rparr>\<rparr>,
       \<lparr>in_op = OpIntMul, in_flags = \<lparr>fl_rmw_op = RmwAdd, fl_inbounds = False\<rparr>, in_dst = Some 2, in_measure = None, in_operands = \<lparr>rg_head = 5, rg_size = 2\<rparr>\<rparr>,
       \<lparr>in_op = OpRet, in_flags = \<lparr>fl_rmw_op = RmwAdd, fl_inbounds = False\<rparr>, in_dst = None, in_measure = None, in_operands = \<lparr>rg_head = 4, rg_size = 1\<rparr>\<rparr>]\<rparr>"

definition sample_checks :: checks where
  "sample_checks = \<lparr>ck_kinds = [CheckOverflow, CheckOverflow, CheckNone, CheckNone], ck_raw = [False, False, False, False]\<rparr>"

definition sample_env :: "nat \<Rightarrow> u64" where
  "sample_env r = (if r = 0 then 7 else if r = 1 then 28 else 49)"

text \<open>Arithmetic of the sample, evaluated once.\<close>

lemma sample_arith:
  "fold_binary OpIntAdd TyI32 3 4 = Some 7" "fold_binary OpIntMul TyI32 7 4 = Some 28" "fold_binary OpIntMul TyI32 7 7 = Some 49"
  "\<not> overflows OpIntAdd TyI32 3 4" "\<not> overflows OpIntMul TyI32 7 4"
  "integer_immutable 0 TyI32 7 = \<lparr>im_type = 0, im_bits = 7\<rparr>" "integer_immutable 0 TyI32 28 = \<lparr>im_type = 0, im_bits = 28\<rparr>"
  "as_u64_integer TyI32 \<lparr>im_type = 0, im_bits = 3\<rparr> = Some 3" "as_u64_integer TyI32 \<lparr>im_type = 0, im_bits = 4\<rparr> = Some 4"
  "as_u64_integer TyI32 \<lparr>im_type = 0, im_bits = 7\<rparr> = Some 7" "is_integer_type TyI32"
  by code_simp+

lemma sample_folded:
  "\<exists>st' c'. fold_and_propagate sample_program sample_checks = Some (st', c') \<and> st_operands st' ! 4 = from_immutable 3 0 \<and>
     ck_kinds c' = [CheckNone, CheckNone, CheckNone, CheckNone]"
  by (simp add: fold_and_propagate_def sample_program_def sample_checks_def fold_instr_def fold_two_def operand_at_def
      constant_of_def resolve_def known_value_def INVALID_IDX_def unknown_operand_def from_register_def from_immutable_def
      tag_at_def plain_node_def operand_count_def range_at_def store_folded_def learn_def substitute_def sample_arith
      empty_state_def upt_rec row_def numeral_2_eq_2 numeral_3_eq_3)

lemma sample_typed: "typed_storage sample_program" "satisfies sample_program sample_env" "no_wide_division sample_program sample_env"
  by code_simp+





text \<open>
  Without that condition an abort is deleted: \<^verbatim>\<open>x = -2 / 2\<close> as an unsigned division of \<^verbatim>\<open>i32\<close> is 0x7FFFFFFF, and adding
  one overflows; the folder takes it for -1 and clears the check.
\<close>

definition wide_program :: storage_state where
  "wide_program = empty_state\<lparr>
     st_types := [plain_node TyI32],
     st_registers := [\<lparr>rg_type = 0, rg_def = Some 0\<rparr>, \<lparr>rg_type = 0, rg_def = Some 1\<rparr>],
     st_immutables := [\<lparr>im_type = 0, im_bits = encode TyI32 (- 2)\<rparr>, \<lparr>im_type = 0, im_bits = 2\<rparr>, \<lparr>im_type = 0, im_bits = 1\<rparr>],
     st_operands := [from_immutable 0 0, from_immutable 1 0, from_register 0 0, from_immutable 2 0],
     st_instrs := [
       \<lparr>in_op = OpUintDiv, in_flags = \<lparr>fl_rmw_op = RmwAdd, fl_inbounds = False\<rparr>, in_dst = Some 0, in_measure = None, in_operands = \<lparr>rg_head = 0, rg_size = 2\<rparr>\<rparr>,
       \<lparr>in_op = OpIntAdd, in_flags = \<lparr>fl_rmw_op = RmwAdd, fl_inbounds = False\<rparr>, in_dst = Some 1, in_measure = None, in_operands = \<lparr>rg_head = 2, rg_size = 2\<rparr>\<rparr>]\<rparr>"

definition wide_env :: "nat \<Rightarrow> u64" where
  "wide_env r = (if r = 0 then 0x7FFFFFFF else encode TyI32 (- (2 ^ 31)))"

lemma wide_arith:
  "fold_binary OpUintDiv TyI32 (encode TyI32 (- 2)) 2 = Some 0xFFFFFFFF" "fold_binary OpIntAdd TyI32 (encode TyI32 (- 1)) 1 = Some 0"
  "\<not> overflows OpIntAdd TyI32 (encode TyI32 (- 1)) 1" "\<not> overflows OpUintDiv TyI32 (encode TyI32 (- 2)) 2"
  "as_u64_integer TyI32 \<lparr>im_type = 0, im_bits = encode TyI32 (- 2)\<rparr> = Some (encode TyI32 (- 2))"
  "as_u64_integer TyI32 \<lparr>im_type = 0, im_bits = 2\<rparr> = Some 2" "as_u64_integer TyI32 \<lparr>im_type = 0, im_bits = 1\<rparr> = Some 1"
  "as_u64_integer TyI32 (integer_immutable 0 TyI32 0xFFFFFFFF) = Some (encode TyI32 (- 1))" "is_integer_type TyI32"
  by code_simp+

lemma wide_division_clears_check:
  "typed_storage wide_program \<and> satisfies wide_program wide_env \<and> overflow_aborts wide_program wide_env (st_instrs wide_program ! 1) \<and>
   (\<exists>st' c'. fold_and_propagate wide_program \<lparr>ck_kinds = [CheckNone, CheckOverflow], ck_raw = [False, False]\<rparr> = Some (st', c') \<and>
      ck_kinds c' = [CheckNone, CheckNone])"
proof (intro conjI)
  show "typed_storage wide_program" "satisfies wide_program wide_env"
    "overflow_aborts wide_program wide_env (st_instrs wide_program ! 1)" by code_simp+
  show "\<exists>st' c'. fold_and_propagate wide_program \<lparr>ck_kinds = [CheckNone, CheckOverflow], ck_raw = [False, False]\<rparr> = Some (st', c') \<and>
      ck_kinds c' = [CheckNone, CheckNone]"
    by (simp add: fold_and_propagate_def wide_program_def fold_instr_def fold_two_def operand_at_def
      constant_of_def resolve_def known_value_def INVALID_IDX_def unknown_operand_def from_register_def from_immutable_def
      tag_at_def plain_node_def operand_count_def range_at_def store_folded_def learn_def substitute_def wide_arith
      empty_state_def upt_rec row_def numeral_2_eq_2 numeral_3_eq_3)
qed

text \<open>
  C26. Dead instruction elimination is exact and always ends.  It returns exactly when every row it reads is there:
  each result register has a row and, where no operand reads the register, the instruction has a row in both check
  tables.  Then the instructions it turned into no-ops are those it may remove, that carry no check and whose result
  no row of the operand table reads; nothing else changes.
\<close>

theorem elimination_exact:
  "eliminate_dead c st =
     (if list_all (elimination_reads c st) [0..<length (st_instrs st)]
      then Some (st\<lparr>st_instrs := map (\<lambda>i. if dead c st i then pruned (st_instrs st ! i) else st_instrs st ! i)
        [0..<length (st_instrs st)]\<rparr>)
      else None)"
proof (cases "eliminate_dead c st")
  case None
  then show ?thesis using eliminate_dead_returns [of c st] by simp
next
  case (Some st')
  then show ?thesis using eliminate_dead_returns [of c st] eliminate_dead_Some [OF Some] by simp
qed

theorem elimination_exact_witness:
  "\<exists>st'. eliminate_dead sample_checks sample_program = Some st' \<and> dead sample_checks sample_program 2 \<and>
    st' = sample_program\<lparr>st_instrs := map (\<lambda>i. if dead sample_checks sample_program i then pruned (st_instrs sample_program ! i)
      else st_instrs sample_program ! i) [0..<4]\<rparr>"
proof -
  have "list_all (elimination_reads sample_checks sample_program) [0..<length (st_instrs sample_program)]"
    "dead sample_checks sample_program 2" by code_simp+
  moreover have "length (st_instrs sample_program) = 4" by (simp add: sample_program_def)
  ultimately show ?thesis using elimination_exact [of sample_checks sample_program] by simp
qed

text \<open>
  The operands of a removed instruction stay in the table and still count as reads, so a chain of dead
  instructions loses its last link only: the repeated passes of the loop never find more than the first.
\<close>

lemma dead_chain_kept:
  "eliminate_dead c st = Some st' \<Longrightarrow> eliminate_dead c st' = Some st'"
  using second_pass_idle by (auto simp: eliminate_dead_one_pass)

end
