(* ===== verification/Ir_Copy.thy ===== *)
theory Ir_Copy
  imports Ir_Layout
begin

text \<open>
  The structural walks of \<^verbatim>\<open>src/src/ir/storage.h\<close>: whether a value of a type may be copied, and whether
  it may be moved.  Both follow the types a value holds and remember the ones they are inside, so they
  end on tables in which a type holds itself.  The locale \<open>structural_walk\<close> is their common
  contract: it shows that such a walk ends within as many levels as there are types and answers
  exactly whether a forbidden type is reachable; both operations are interpretations of it.
\<close>

subsection \<open>Copying and moving\<close>

text \<open>\<^verbatim>\<open>for (field : fields) if (!walk(field)) return false; return true;\<close>\<close>

fun all_of :: "(nat \<Rightarrow> bool option) \<Rightarrow> nat list \<Rightarrow> bool option" where
  "all_of walk [] = Some True"
| "all_of walk (x # xs) = do { ok \<leftarrow> walk x; if ok then all_of walk xs else Some False }"

definition marked :: "u8 list \<Rightarrow> nat \<Rightarrow> bool" where
  "marked marks idx \<longleftrightarrow> idx < length marks \<and> marks ! idx \<noteq> 0"

fun all_variants :: "(nat \<Rightarrow> bool option) \<Rightarrow> storage_state \<Rightarrow> nat list \<Rightarrow> bool option" where
  "all_variants walk st [] = Some True"
| "all_variants walk st (v # vs) = do {
     variant \<leftarrow> row (st_enum_variant_types st) v;
     ok \<leftarrow> all_of walk (range_list (ev_fields variant));
     if ok then all_variants walk st vs else Some False
   }"

text \<open>The part of both switches that descends into a node; the other tags hold no value.\<close>

definition all_held :: "(nat \<Rightarrow> bool option) \<Rightarrow> storage_state \<Rightarrow> type_node \<Rightarrow> bool option" where
  "all_held walk st node =
     (let tag = tn_tag node in
      if tag = TyStruct then do { s \<leftarrow> row (st_struct_types st) (tn_data node); all_of walk (range_list (sty_fields s)) }
      else if tag = TyArray then do { a \<leftarrow> row (st_array_types st) (tn_data node); walk (aty_element a) }
      else if tag = TySlice then do { s \<leftarrow> row (st_slice_types st) (tn_data node); walk (lty_element s) }
      else if tag = TyEnum then do {
        et \<leftarrow> row (st_enum_types st) (tn_data node);
        all_variants walk st (range_list (ety_variants et))
      }
      else if tag = TyTuple then do { t \<leftarrow> row (st_tuple_types st) (tn_data node); all_of walk (range_list (tty_elements t)) }
      else Some True)"

fun is_movable_type ::
    "nat \<Rightarrow> storage_state \<Rightarrow> u8 list \<Rightarrow> (nat \<Rightarrow> nat) \<Rightarrow> nat list \<Rightarrow> nat \<Rightarrow> bool option" where
  "is_movable_type 0 st not_movable origin inside idx0 = None"
| "is_movable_type (Suc fuel) st not_movable origin inside idx0 =
     (let idx = origin idx0 in
      if marked not_movable idx then Some False
      else if idx \<in> set inside then Some True
      else do {
        node \<leftarrow> row (st_types st) idx;
        if tn_tag node = TyConst then None
        else all_held (is_movable_type fuel st not_movable origin (inside @ [idx])) st node
      })"

fun is_copy_type :: "nat \<Rightarrow> storage_state \<Rightarrow> u8 list \<Rightarrow> u8 list \<Rightarrow> nat list \<Rightarrow> nat \<Rightarrow> bool option" where
  "is_copy_type 0 st has_drop not_movable inside idx = None"
| "is_copy_type (Suc fuel) st has_drop not_movable inside idx =
     (if marked has_drop idx then Some False
      else if marked not_movable idx then Some False
      else if idx \<in> set inside then Some True
      else do {
        node \<leftarrow> row (st_types st) idx;
        if tn_tag node \<in> {TyMutRef, TyParam} then Some False
        else if tn_tag node = TyConst then None
        else all_held (is_copy_type fuel st has_drop not_movable (inside @ [idx])) st node
      })"



subsection \<open>The contract of a structural walk\<close>

text \<open>
  \<open>walk fuel inside idx\<close> looks at \<open>norm idx\<close>; \<open>refused\<close> is asked before the record of enclosing types,
  \<open>rejected\<close> after it, and \<open>held\<close> lists the types to descend into where the tables are well formed.
\<close>

locale structural_walk =
  fixes walk :: "nat \<Rightarrow> nat list \<Rightarrow> nat \<Rightarrow> bool option"
    and norm :: "nat \<Rightarrow> nat"
    and refused :: "nat \<Rightarrow> bool"
    and rejected :: "nat \<Rightarrow> bool"
    and held :: "nat \<Rightarrow> nat list option"
  assumes step: "held (norm idx) = Some hs \<Longrightarrow> walk (Suc fuel) inside idx =
      (if refused (norm idx) then Some False
       else if norm idx \<in> set inside then Some True
       else if rejected (norm idx) then Some False
       else all_of (walk fuel (inside @ [norm idx])) hs)"
begin

definition bad :: "nat \<Rightarrow> bool" where
  "bad i \<longleftrightarrow> refused i \<or> rejected i"

definition descends :: "nat \<Rightarrow> nat \<Rightarrow> bool" where
  "descends i j \<longleftrightarrow> (\<exists>hs. held i = Some hs \<and> (\<exists>h \<in> set hs. j = norm h))"

definition closed_in :: "nat set \<Rightarrow> bool" where
  "closed_in U \<longleftrightarrow> finite U \<and> (\<forall>i \<in> U. \<exists>hs. held i = Some hs \<and> (\<forall>h \<in> set hs. norm h \<in> U))"

text \<open>Descending without entering a type of the set.\<close>

inductive avoiding :: "nat set \<Rightarrow> nat \<Rightarrow> nat \<Rightarrow> bool" for S where
  here: "i \<notin> S \<Longrightarrow> avoiding S i i"
| down: "i \<notin> S \<Longrightarrow> descends i j \<Longrightarrow> avoiding S j k \<Longrightarrow> avoiding S i k"

lemma avoiding_empty: "avoiding {} i j \<longleftrightarrow> descends\<^sup>*\<^sup>* i j"
proof
  show "avoiding {} i j \<Longrightarrow> descends\<^sup>*\<^sup>* i j"
    by (induction rule: avoiding.induct) (auto intro: converse_rtranclp_into_rtranclp)
  show "descends\<^sup>*\<^sup>* i j \<Longrightarrow> avoiding {} i j"
    by (induction rule: converse_rtranclp_induct) (auto intro: avoiding.intros)
qed

lemma avoiding_more: "avoiding S i k \<Longrightarrow> T \<subseteq> S \<Longrightarrow> avoiding T i k"
  by (induction rule: avoiding.induct) (auto intro: avoiding.intros)

lemma avoiding_last_visit:
  "avoiding S z y \<Longrightarrow> y = x \<or> avoiding (insert x S) z y \<or> (\<exists>j. descends x j \<and> avoiding (insert x S) j y)"
proof (induction rule: avoiding.induct)
  case (here i)
  then show ?case by (cases "i = x") (auto intro: avoiding.here)
next
  case (down i j k)
  then show ?case by (cases "i = x") (auto intro: avoiding.down)
qed

lemma avoiding_split:
  assumes "x \<notin> S"
  shows "(\<forall>y. avoiding S x y \<longrightarrow> \<not> bad y)
    \<longleftrightarrow> \<not> bad x \<and> (\<forall>j. descends x j \<longrightarrow> (\<forall>y. avoiding (insert x S) j y \<longrightarrow> \<not> bad y))"
proof
  assume all: "\<forall>y. avoiding S x y \<longrightarrow> \<not> bad y"
  have "avoiding S x y" if "descends x j" "avoiding (insert x S) j y" for j y
    by (rule avoiding.down [OF assms that(1) avoiding_more [OF that(2)]]) auto
  then show "\<not> bad x \<and> (\<forall>j. descends x j \<longrightarrow> (\<forall>y. avoiding (insert x S) j y \<longrightarrow> \<not> bad y))"
    using all avoiding.here [OF assms] by blast
next
  assume "\<not> bad x \<and> (\<forall>j. descends x j \<longrightarrow> (\<forall>y. avoiding (insert x S) j y \<longrightarrow> \<not> bad y))"
  moreover have "\<not> avoiding (insert x S) x y" for y by (auto elim: avoiding.cases)
  ultimately show "\<forall>y. avoiding S x y \<longrightarrow> \<not> bad y" using avoiding_last_visit [of S x _ x] by blast
qed

lemma all_of_answers:
  assumes "\<forall>x \<in> set xs. \<exists>b. w x = Some b \<and> (b \<longleftrightarrow> P x)"
  shows "all_of w xs = Some (\<forall>x \<in> set xs. P x)"
  using assms by (induction xs) auto

lemma walk_answers_inside:
  assumes "closed_in U"
  shows "norm idx \<in> U \<Longrightarrow> distinct inside \<Longrightarrow> set inside \<subseteq> U \<Longrightarrow> \<forall>i \<in> set inside. \<not> bad i
    \<Longrightarrow> card U < fuel + length inside
    \<Longrightarrow> walk fuel inside idx = Some (\<forall>y. avoiding (set inside) (norm idx) y \<longrightarrow> \<not> bad y)"
proof (induction fuel arbitrary: inside idx)
  case 0
  have "length inside = card (set inside)" using 0 by (simp add: distinct_card)
  also have "\<dots> \<le> card U" using 0 assms card_mono [of U "set inside"] by (simp add: closed_in_def)
  finally show ?case using 0 by simp
next
  case (Suc fuel)
  let ?i = "norm idx"
  obtain hs where hs: "held ?i = Some hs" "\<forall>h \<in> set hs. norm h \<in> U"
    using assms Suc.prems(1) by (auto simp: closed_in_def)
  note walk = step [OF hs(1), of fuel inside]
  consider (inside) "?i \<in> set inside" | (bad) "?i \<notin> set inside" "bad ?i" | (down) "?i \<notin> set inside" "\<not> bad ?i"
    by blast
  then show ?case
  proof cases
    case inside
    then have "\<not> avoiding (set inside) ?i y" for y by (auto elim: avoiding.cases)
    then show ?thesis using walk inside Suc.prems(4) by (auto simp: bad_def)
  next
    case bad
    then show ?thesis using walk avoiding.here [of ?i "set inside"] by (auto simp: bad_def)
  next
    case down
    have "walk fuel (inside @ [?i]) h = Some (\<forall>y. avoiding (set (inside @ [?i])) (norm h) y \<longrightarrow> \<not> bad y)"
      if "h \<in> set hs" for h
      using Suc.IH [of h "inside @ [?i]"] hs(2) that Suc.prems down by auto
    then have "all_of (walk fuel (inside @ [?i])) hs
        = Some (\<forall>h \<in> set hs. \<forall>y. avoiding (insert ?i (set inside)) (norm h) y \<longrightarrow> \<not> bad y)"
      by (intro all_of_answers) auto
    also have "(\<forall>h \<in> set hs. \<forall>y. avoiding (insert ?i (set inside)) (norm h) y \<longrightarrow> \<not> bad y)
        \<longleftrightarrow> (\<forall>y. avoiding (set inside) ?i y \<longrightarrow> \<not> bad y)"
      using avoiding_split [OF down(1)] down(2) hs(1) by (auto simp: descends_def)
    finally show ?thesis using walk down by (simp add: bad_def)
  qed
qed

theorem walk_answers:
  assumes "closed_in U" "norm idx \<in> U" "card U < fuel"
  shows "walk fuel [] idx = Some (\<forall>y. descends\<^sup>*\<^sup>* (norm idx) y \<longrightarrow> \<not> bad y)"
  using walk_answers_inside [OF assms(1,2), of "[]" fuel] assms(3) by (simp add: avoiding_empty)

end

subsection \<open>The walks of the code keep the contract\<close>

definition value_types :: "storage_state \<Rightarrow> nat \<Rightarrow> nat list option" where
  "value_types st idx = do {
     node \<leftarrow> row (st_types st) idx;
     if tn_tag node = TyConst then None else held_types st node
   }"

lemma all_of_append: "all_of w (xs @ ys) = do { ok \<leftarrow> all_of w xs; if ok then all_of w ys else Some False }"
  by (induction xs) (auto split: bind_splits)

lemma all_variants_rows:
  "concat_rows (variant_fields st) vs = Some hs \<Longrightarrow> all_variants w st vs = all_of w hs"
  by (induction vs arbitrary: hs) (auto simp: variant_fields_Some all_of_append split: bind_splits)

lemma all_of_single: "all_of w [x] = w x"
  by (cases "w x") auto

lemma all_held_types: "held_types st node = Some hs \<Longrightarrow> all_held w st node = all_of w hs"
  by (auto simp: held_types_def all_held_def Let_def all_variants_rows all_of_single simp del: all_of.simps(2)
      split: if_splits bind_splits)

definition never_copied :: "storage_state \<Rightarrow> nat \<Rightarrow> bool" where
  "never_copied st idx \<longleftrightarrow> (case row (st_types st) idx of None \<Rightarrow> False | Some node \<Rightarrow> tn_tag node \<in> {TyMutRef, TyParam})"

interpretation copy: structural_walk "\<lambda>fuel. is_copy_type fuel st has_drop not_movable" id
    "\<lambda>i. marked has_drop i \<or> marked not_movable i" "never_copied st" "value_types st"
  for st has_drop not_movable
proof
  fix idx hs fuel inside
  assume "value_types st (id idx) = Some hs"
  then obtain node where "row (st_types st) idx = Some node" "tn_tag node \<noteq> TyConst" "held_types st node = Some hs"
    by (auto simp: value_types_def split: bind_splits if_splits)
  then show "is_copy_type (Suc fuel) st has_drop not_movable inside idx =
      (if marked has_drop (id idx) \<or> marked not_movable (id idx) then Some False
       else if id idx \<in> set inside then Some True
       else if never_copied st (id idx) then Some False
       else all_of (is_copy_type fuel st has_drop not_movable (inside @ [id idx])) hs)"
    by (simp add: all_held_types never_copied_def)
qed

interpretation move: structural_walk "\<lambda>fuel. is_movable_type fuel st not_movable origin" origin
    "marked not_movable" "\<lambda>_. False" "value_types st"
  for st not_movable origin
proof
  fix idx hs fuel inside
  assume "value_types st (origin idx) = Some hs"
  then obtain node where "row (st_types st) (origin idx) = Some node" "tn_tag node \<noteq> TyConst" "held_types st node = Some hs"
    by (auto simp: value_types_def split: bind_splits if_splits)
  then show "is_movable_type (Suc fuel) st not_movable origin inside idx =
      (if marked not_movable (origin idx) then Some False
       else if origin idx \<in> set inside then Some True
       else if False then Some False
       else all_of (is_movable_type fuel st not_movable origin (inside @ [origin idx])) hs)"
    by (simp add: all_held_types)
qed


definition holds_value :: "storage_state \<Rightarrow> nat \<Rightarrow> nat \<Rightarrow> bool" where
  "holds_value st i j \<longleftrightarrow> (case value_types st i of None \<Rightarrow> False | Some hs \<Rightarrow> j \<in> set hs)"

text \<open>The types a value can have, and a table in which each of them names its rows and holds only such types.\<close>

definition is_value_type :: "storage_state \<Rightarrow> nat \<Rightarrow> bool" where
  "is_value_type st i \<longleftrightarrow> i < length (st_types st) \<and> tn_tag (st_types st ! i) \<noteq> TyConst"

definition tables_closed :: "storage_state \<Rightarrow> bool" where
  "tables_closed st \<longleftrightarrow>
     list_all (\<lambda>i. is_value_type st i \<longrightarrow>
         (case value_types st i of None \<Rightarrow> False | Some hs \<Rightarrow> list_all (is_value_type st) hs))
       [0..<length (st_types st)]"

lemma tables_closedD:
  "tables_closed st \<Longrightarrow> is_value_type st i
    \<Longrightarrow> \<exists>hs. value_types st i = Some hs \<and> (\<forall>h \<in> set hs. is_value_type st h)"
  by (fastforce simp: tables_closed_def list_all_iff is_value_type_def split: option.splits)

lemma value_types_few: "finite {i. is_value_type st i}" "card {i. is_value_type st i} \<le> length (st_types st)"
proof -
  have "{i. is_value_type st i} \<subseteq> {..<length (st_types st)}" by (auto simp: is_value_type_def)
  from finite_subset [OF this] card_mono [OF _ this]
  show "finite {i. is_value_type st i}" "card {i. is_value_type st i} \<le> length (st_types st)" by auto
qed

lemma copy_closed: "tables_closed st \<Longrightarrow> copy.closed_in st {i. is_value_type st i}"
  using tables_closedD value_types_few(1) by (simp add: copy.closed_in_def)

lemma move_closed:
  "tables_closed st \<Longrightarrow> (\<And>i. is_value_type st i \<Longrightarrow> is_value_type st (origin i))
    \<Longrightarrow> move.closed_in origin st {i. is_value_type st i}"
  unfolding move.closed_in_def
  using value_types_few(1) by (auto dest!: tables_closedD)

lemma copy_descends: "copy.descends st = holds_value st"
  by (intro ext) (auto simp: copy.descends_def holds_value_def split: option.split)

lemma move_descends: "move.descends id st = holds_value st"
  by (intro ext) (auto simp: move.descends_def holds_value_def split: option.split)

text \<open>
  C21. The Copy question comes to an answer for every type of a value on every well-formed type table, also
  on one in which a type holds itself, within one level of nesting per type; and the answer is exactly whether no type a
  value holds, at any depth, has a destructor, is marked unmovable, is an exclusive reference or is
  a type parameter.
\<close>

theorem copy_walk_exact:
  assumes "tables_closed st" "is_value_type st idx" "length (st_types st) < fuel"
  shows "is_copy_type fuel st has_drop not_movable [] idx =
    Some (\<nexists>j. (holds_value st)\<^sup>*\<^sup>* idx j \<and> (marked has_drop j \<or> marked not_movable j \<or> never_copied st j))"
  using copy.walk_answers [OF copy_closed [OF assms(1)], of idx fuel] assms(2,3) value_types_few(2) [of st]
  by (auto simp: copy.bad_def copy_descends)

text \<open>A struct that holds an integer and itself.\<close>

definition recursive_table :: storage_state where
  "recursive_table = empty_state
     \<lparr>st_types := [\<lparr>tn_tag = TyStruct, tn_data = 0\<rparr>, plain_node TyI32, \<lparr>tn_tag = TyStruct, tn_data = 0\<rparr>],
      st_struct_types := [\<lparr>sty_name = 0, sty_fields = \<lparr>rg_head = 1, rg_size = 2\<rparr>, sty_params = no_range\<rparr>]\<rparr>"

lemma recursive_table_simps [simp]:
  "length (st_types recursive_table) = 3" "tables_closed recursive_table" "is_value_type recursive_table 0"
  by (simp_all add: recursive_table_def tables_closed_def is_value_type_def value_types_def held_types_def plain_node_def
      range_list_def row_def upt_rec)

theorem copy_walk_exact_witness:
  "is_copy_type 4 recursive_table [] [] [] 0 =
    Some (\<nexists>j. (holds_value recursive_table)\<^sup>*\<^sup>* 0 j
      \<and> (marked [] j \<or> marked [] j \<or> never_copied recursive_table j))
   \<and> is_copy_type 4 recursive_table [] [] [] 0 = Some True
   \<and> is_copy_type 4 recursive_table [0, 1] [] [] 0 =
    Some (\<nexists>j. (holds_value recursive_table)\<^sup>*\<^sup>* 0 j
      \<and> (marked [0, 1] j \<or> marked [] j \<or> never_copied recursive_table j))
   \<and> is_copy_type 4 recursive_table [0, 1] [] [] 0 = Some False"
proof (intro conjI)
  show "is_copy_type 4 recursive_table [] [] [] 0 =
    Some (\<nexists>j. (holds_value recursive_table)\<^sup>*\<^sup>* 0 j
      \<and> (marked [] j \<or> marked [] j \<or> never_copied recursive_table j))"
    by (rule copy_walk_exact) simp_all
  show "is_copy_type 4 recursive_table [0, 1] [] [] 0 =
    Some (\<nexists>j. (holds_value recursive_table)\<^sup>*\<^sup>* 0 j
      \<and> (marked [0, 1] j \<or> marked [] j \<or> never_copied recursive_table j))"
    by (rule copy_walk_exact) simp_all
qed (simp_all add: recursive_table_def marked_def plain_node_def all_held_def range_list_def row_def
      upt_rec eval_nat_numeral)

text \<open>
  Whatever may be copied may be moved: on a well-formed type table, a type whose values the Copy
  question accepts is one the movability question accepts, for the same table of unmovable types.
\<close>

theorem copy_implies_movable:
  assumes "tables_closed st" "is_value_type st idx" "length (st_types st) < fuel"
    "is_copy_type fuel st has_drop not_movable [] idx = Some True"
  shows "is_movable_type fuel st not_movable id [] idx = Some True"
proof -
  have "\<not> marked not_movable j" if "(holds_value st)\<^sup>*\<^sup>* idx j" for j
    using copy.walk_answers [OF copy_closed [OF assms(1)], of idx fuel has_drop not_movable] assms(2-4) that
      value_types_few(2) [of st]
    by (auto simp: copy.bad_def copy_descends)
  then show ?thesis
    using move.walk_answers [OF move_closed [OF assms(1)], of id idx fuel not_movable] assms(2,3) value_types_few(2) [of st]
    by (auto simp: move.bad_def move_descends)
qed

theorem copy_implies_movable_witness:
  "is_copy_type 4 recursive_table [] [0] [] 0 = Some True
   \<and> is_movable_type 4 recursive_table [0] id [] 0 = Some True"
proof -
  have copy: "is_copy_type 4 recursive_table [] [0] [] 0 = Some True"
    by (simp add: recursive_table_def marked_def plain_node_def all_held_def range_list_def row_def
      upt_rec eval_nat_numeral)
  with copy_implies_movable [OF recursive_table_simps(2) _ _ copy] show ?thesis by simp
qed

end
