(* ===== verification/Ir_Builder.thy ===== *)
theory Ir_Builder
  imports Ir_Types
begin

text \<open>
  \<^verbatim>\<open>src/src/ir/storage_builder.h\<close>: the builder of the IR tables.  Its type factories intern: asking twice
  for one shape gives one index, so that type equality is index equality.  The interning tables are
  maps; \<open>emplace\<close> keeps the entry that is there.  An operation that would write past a table, which
  the code guards with a \<^verbatim>\<open>DCHECK\<close>, has no result.
\<close>

record storage_builder =
  bd_state :: storage_state
  bd_never :: "nat option"
  bd_error :: "nat option"
  bd_ref_by_pointee :: "nat \<rightharpoonup> nat"
  bd_mut_ref_by_pointee :: "nat \<rightharpoonup> nat"
  bd_raw_ptr_by_pointee :: "nat \<rightharpoonup> nat"
  bd_raw_mut_ptr_by_pointee :: "nat \<rightharpoonup> nat"
  bd_tuple_by_key :: "u64 \<rightharpoonup> nat list"
  bd_const_by_value :: "u64 \<rightharpoonup> nat"
  bd_param_by_index :: "nat \<rightharpoonup> nat"

definition emplace :: "'k \<Rightarrow> 'v \<Rightarrow> ('k \<rightharpoonup> 'v) \<Rightarrow> 'k \<rightharpoonup> 'v" where
  "emplace k v m = (case m k of None \<Rightarrow> m(k \<mapsto> v) | Some _ \<Rightarrow> m)"

definition on_state :: "(storage_state \<Rightarrow> storage_state) \<Rightarrow> storage_builder \<Rightarrow> storage_builder" where
  "on_state f b = b\<lparr>bd_state := f (bd_state b)\<rparr>"

subsection \<open>Whole tables\<close>

definition sb_functions :: "ir_function list \<Rightarrow> storage_builder \<Rightarrow> storage_builder" where
  "sb_functions xs = on_state (\<lambda>st. st\<lparr>st_functions := xs\<rparr>)"

definition sb_blocks :: "block list \<Rightarrow> storage_builder \<Rightarrow> storage_builder" where
  "sb_blocks xs = on_state (\<lambda>st. st\<lparr>st_blocks := xs\<rparr>)"

definition sb_block_params :: "block_param list \<Rightarrow> storage_builder \<Rightarrow> storage_builder" where
  "sb_block_params xs = on_state (\<lambda>st. st\<lparr>st_block_params := xs\<rparr>)"

definition sb_instrs :: "instruction list \<Rightarrow> storage_builder \<Rightarrow> storage_builder" where
  "sb_instrs xs = on_state (\<lambda>st. st\<lparr>st_instrs := xs\<rparr>)"

definition sb_immutables :: "immutable list \<Rightarrow> storage_builder \<Rightarrow> storage_builder" where
  "sb_immutables xs = on_state (\<lambda>st. st\<lparr>st_immutables := xs\<rparr>)"

definition sb_registers :: "ir_register list \<Rightarrow> storage_builder \<Rightarrow> storage_builder" where
  "sb_registers xs = on_state (\<lambda>st. st\<lparr>st_registers := xs\<rparr>)"

definition sb_external_functions :: "external_function list \<Rightarrow> storage_builder \<Rightarrow> storage_builder" where
  "sb_external_functions xs = on_state (\<lambda>st. st\<lparr>st_external_functions := xs\<rparr>)"

definition sb_operands :: "operand list \<Rightarrow> storage_builder \<Rightarrow> storage_builder" where
  "sb_operands xs = on_state (\<lambda>st. st\<lparr>st_operands := xs\<rparr>)"

subsection \<open>One row at a time\<close>

definition sb_function :: "ir_function \<Rightarrow> storage_builder \<Rightarrow> nat \<times> storage_builder" where
  "sb_function f b = (length (st_functions (bd_state b)), on_state (\<lambda>st. st\<lparr>st_functions := st_functions st @ [f]\<rparr>) b)"

definition sb_block :: "block \<Rightarrow> storage_builder \<Rightarrow> nat \<times> storage_builder" where
  "sb_block bl b = (length (st_blocks (bd_state b)), on_state (\<lambda>st. st\<lparr>st_blocks := st_blocks st @ [bl]\<rparr>) b)"

definition set_block_instrs :: "nat \<Rightarrow> idx_range \<Rightarrow> storage_builder \<Rightarrow> storage_builder option" where
  "set_block_instrs idx instrs b =
     (if idx < length (st_blocks (bd_state b))
      then Some (on_state (\<lambda>st. st\<lparr>st_blocks := (st_blocks st)[idx := (st_blocks st ! idx)\<lparr>bl_instrs := instrs\<rparr>]\<rparr>) b)
      else None)"

definition set_block_params :: "nat \<Rightarrow> idx_range \<Rightarrow> storage_builder \<Rightarrow> storage_builder option" where
  "set_block_params idx params b =
     (if idx < length (st_blocks (bd_state b))
      then Some (on_state (\<lambda>st. st\<lparr>st_blocks := (st_blocks st)[idx := (st_blocks st ! idx)\<lparr>bl_params := params\<rparr>]\<rparr>) b)
      else None)"

definition sb_block_param :: "block_param \<Rightarrow> storage_builder \<Rightarrow> nat \<times> storage_builder" where
  "sb_block_param p b =
     (length (st_block_params (bd_state b)), on_state (\<lambda>st. st\<lparr>st_block_params := st_block_params st @ [p]\<rparr>) b)"

definition sb_instr :: "instruction \<Rightarrow> storage_builder \<Rightarrow> nat \<times> storage_builder" where
  "sb_instr i b = (length (st_instrs (bd_state b)), on_state (\<lambda>st. st\<lparr>st_instrs := st_instrs st @ [i]\<rparr>) b)"

definition sb_immutable :: "immutable \<Rightarrow> storage_builder \<Rightarrow> nat \<times> storage_builder" where
  "sb_immutable i b =
     (length (st_immutables (bd_state b)), on_state (\<lambda>st. st\<lparr>st_immutables := st_immutables st @ [i]\<rparr>) b)"

definition sb_reg :: "ir_register \<Rightarrow> storage_builder \<Rightarrow> nat \<times> storage_builder" where
  "sb_reg r b = (length (st_registers (bd_state b)), on_state (\<lambda>st. st\<lparr>st_registers := st_registers st @ [r]\<rparr>) b)"

definition sb_external_function :: "external_function \<Rightarrow> storage_builder \<Rightarrow> nat \<times> storage_builder" where
  "sb_external_function f b =
     (length (st_external_functions (bd_state b)),
      on_state (\<lambda>st. st\<lparr>st_external_functions := st_external_functions st @ [f]\<rparr>) b)"

definition sb_operand :: "operand \<Rightarrow> storage_builder \<Rightarrow> nat \<times> storage_builder" where
  "sb_operand o' b = (length (st_operands (bd_state b)), on_state (\<lambda>st. st\<lparr>st_operands := st_operands st @ [o']\<rparr>) b)"

subsection \<open>Types\<close>

definition primitive :: "type_tag \<Rightarrow> nat option" where
  "primitive tag =
     (if tag \<in> {TyStruct, TyArray, TyEnum, TyNever, TyTuple, TyError, TySlice, TyFunc, TyConst}
      then None else Some (primitive_idx tag))"

definition push_type :: "type_tag \<Rightarrow> nat \<Rightarrow> storage_state \<Rightarrow> storage_state" where
  "push_type tag data st = st\<lparr>st_types := st_types st @ [\<lparr>tn_tag = tag, tn_data = data\<rparr>]\<rparr>"

definition type_count :: "storage_builder \<Rightarrow> nat" where
  "type_count b = length (st_types (bd_state b))"

definition sb_struct_type :: "nat \<Rightarrow> idx_range \<Rightarrow> idx_range \<Rightarrow> storage_builder \<Rightarrow> nat \<times> storage_builder" where
  "sb_struct_type name flds params b =
     (type_count b,
      on_state (\<lambda>st. push_type TyStruct (length (st_struct_types st))
        (st\<lparr>st_struct_types := st_struct_types st @ [\<lparr>sty_name = name, sty_fields = flds, sty_params = params\<rparr>]\<rparr>)) b)"

definition sb_param_type :: "nat \<Rightarrow> storage_builder \<Rightarrow> nat \<times> storage_builder" where
  "sb_param_type index b =
     (case bd_param_by_index b index of
        Some idx \<Rightarrow> (idx, b)
      | None \<Rightarrow> (type_count b,
          (on_state (push_type TyParam index) b)\<lparr>bd_param_by_index := emplace index (type_count b) (bd_param_by_index b)\<rparr>))"

definition reserve_struct :: "nat \<Rightarrow> storage_builder \<Rightarrow> nat \<times> storage_builder" where
  "reserve_struct name b =
     (type_count b,
      on_state (\<lambda>st. push_type TyStruct (length (st_struct_types st))
        (st\<lparr>st_struct_types := st_struct_types st @ [\<lparr>sty_name = name, sty_fields = no_range, sty_params = no_range\<rparr>]\<rparr>)) b)"

definition fill_struct :: "nat \<Rightarrow> idx_range \<Rightarrow> idx_range \<Rightarrow> storage_builder \<Rightarrow> storage_builder option" where
  "fill_struct idx flds params b = do {
     node \<leftarrow> row (st_types (bd_state b)) idx;
     s \<leftarrow> row (st_struct_types (bd_state b)) (tn_data node);
     if tn_tag node \<noteq> TyStruct then None
     else Some (on_state (\<lambda>st. st\<lparr>st_struct_types :=
       (st_struct_types st)[tn_data node := s\<lparr>sty_fields := flds, sty_params := params\<rparr>]\<rparr>) b)
   }"

text \<open>The scans start past the pre-interned block.\<close>

definition scan_types :: "(type_node \<Rightarrow> bool) \<Rightarrow> storage_state \<Rightarrow> nat option" where
  "scan_types p st = find (\<lambda>idx. p (st_types st ! idx)) [PRIMITIVE_TYPE_COUNT + 1..<length (st_types st)]"

definition sb_slice_type :: "nat \<Rightarrow> storage_builder \<Rightarrow> nat \<times> storage_builder" where
  "sb_slice_type element b =
     (case scan_types (\<lambda>node. tn_tag node = TySlice
             \<and> tn_data node < length (st_slice_types (bd_state b))
             \<and> lty_element (st_slice_types (bd_state b) ! tn_data node) = element) (bd_state b) of
        Some idx \<Rightarrow> (idx, b)
      | None \<Rightarrow> (type_count b,
          on_state (\<lambda>st. push_type TySlice (length (st_slice_types st))
            (st\<lparr>st_slice_types := st_slice_types st @ [\<lparr>lty_element = element\<rparr>]\<rparr>)) b))"

definition sb_array_type :: "nat \<Rightarrow> u64 \<Rightarrow> storage_builder \<Rightarrow> nat \<times> storage_builder" where
  "sb_array_type element cnt b =
     (case scan_types (\<lambda>node. tn_tag node = TyArray
             \<and> tn_data node < length (st_array_types (bd_state b))
             \<and> aty_element (st_array_types (bd_state b) ! tn_data node) = element
             \<and> aty_count (st_array_types (bd_state b) ! tn_data node) = cnt) (bd_state b) of
        Some idx \<Rightarrow> (idx, b)
      | None \<Rightarrow> (type_count b,
          on_state (\<lambda>st. push_type TyArray (length (st_array_types st))
            (st\<lparr>st_array_types := st_array_types st @ [\<lparr>aty_element = element, aty_count = cnt\<rparr>]\<rparr>)) b))"

definition sb_const_type :: "u64 \<Rightarrow> storage_builder \<Rightarrow> nat \<times> storage_builder" where
  "sb_const_type v b =
     (case bd_const_by_value b v of
        Some idx \<Rightarrow> (idx, b)
      | None \<Rightarrow> (type_count b,
          (on_state (\<lambda>st. push_type TyConst (length (st_const_types st))
             (st\<lparr>st_const_types := st_const_types st @ [\<lparr>cty_value = v\<rparr>]\<rparr>)) b)
          \<lparr>bd_const_by_value := emplace v (type_count b) (bd_const_by_value b)\<rparr>))"

text \<open>\<open>pointer_table\<close> selects one of four tables; writing through the pointer is \<open>set_pointer_table\<close>.\<close>

definition pointer_table :: "type_tag \<Rightarrow> storage_builder \<Rightarrow> (nat \<rightharpoonup> nat) option" where
  "pointer_table tag b =
     (if tag = TyRef then Some (bd_ref_by_pointee b)
      else if tag = TyMutRef then Some (bd_mut_ref_by_pointee b)
      else if tag = TyRawPtr then Some (bd_raw_ptr_by_pointee b)
      else if tag = TyRawMutPtr then Some (bd_raw_mut_ptr_by_pointee b)
      else None)"

definition set_pointer_table :: "type_tag \<Rightarrow> (nat \<rightharpoonup> nat) \<Rightarrow> storage_builder \<Rightarrow> storage_builder" where
  "set_pointer_table tag m b =
     (if tag = TyRef then b\<lparr>bd_ref_by_pointee := m\<rparr>
      else if tag = TyMutRef then b\<lparr>bd_mut_ref_by_pointee := m\<rparr>
      else if tag = TyRawPtr then b\<lparr>bd_raw_ptr_by_pointee := m\<rparr>
      else if tag = TyRawMutPtr then b\<lparr>bd_raw_mut_ptr_by_pointee := m\<rparr>
      else b)"

definition pointer_type :: "type_tag \<Rightarrow> nat \<Rightarrow> storage_builder \<Rightarrow> (nat \<times> storage_builder) option" where
  "pointer_type tag pointee b = do {
     interned \<leftarrow> pointer_table tag b;
     Some (case interned pointee of
        Some idx \<Rightarrow> (idx, b)
      | None \<Rightarrow> (type_count b,
          set_pointer_table tag (emplace pointee (type_count b) interned)
            (on_state (\<lambda>st. push_type tag (length (st_ref_types st))
               (st\<lparr>st_ref_types := st_ref_types st @ [\<lparr>rty_pointee = pointee\<rparr>]\<rparr>)) b)))
   }"

definition reference_type :: "nat \<Rightarrow> bool \<Rightarrow> storage_builder \<Rightarrow> (nat \<times> storage_builder) option" where
  "reference_type pointee is_mut = pointer_type (if is_mut then TyMutRef else TyRef) pointee"

definition raw_pointer_type :: "nat \<Rightarrow> bool \<Rightarrow> storage_builder \<Rightarrow> (nat \<times> storage_builder) option" where
  "raw_pointer_type pointee is_mut = pointer_type (if is_mut then TyRawMutPtr else TyRawPtr) pointee"

definition elements_key :: "idx_range \<Rightarrow> u64" where
  "elements_key elements =
     fold (\<lambda>element key. key XOR (of_nat element + 0x9E3779B97F4A7C15 + push_bit 6 key + drop_bit 2 key))
       (range_list elements) (of_nat (rg_size elements))"

text \<open>Comparing a candidate of the bucket with the elements asked for.\<close>

definition tuple_matches :: "storage_state \<Rightarrow> idx_range \<Rightarrow> nat \<Rightarrow> bool" where
  "tuple_matches st elements candidate \<longleftrightarrow>
     (case row (st_types st) candidate of
        None \<Rightarrow> False
      | Some node \<Rightarrow>
          (case row (st_tuple_types st) (tn_data node) of
             None \<Rightarrow> False
           | Some tuple \<Rightarrow> rg_size (tty_elements tuple) = rg_size elements
               \<and> list_all (\<lambda>i. range_at (tty_elements tuple) i = range_at elements i) [0..<rg_size elements]))"

definition sb_tuple_type :: "idx_range \<Rightarrow> storage_builder \<Rightarrow> nat \<times> storage_builder" where
  "sb_tuple_type elements b =
     (let key = elements_key elements;
          bucket = (case bd_tuple_by_key b key of None \<Rightarrow> [] | Some is \<Rightarrow> is) in
      case find (tuple_matches (bd_state b) elements) bucket of
        Some idx \<Rightarrow> (idx, b)
      | None \<Rightarrow> (type_count b,
          (on_state (\<lambda>st. push_type TyTuple (length (st_tuple_types st))
             (st\<lparr>st_tuple_types := st_tuple_types st @ [\<lparr>tty_elements = elements\<rparr>]\<rparr>)) b)
          \<lparr>bd_tuple_by_key := (bd_tuple_by_key b)(key \<mapsto> bucket @ [type_count b])\<rparr>))"

definition sb_func_type :: "idx_range \<Rightarrow> nat \<Rightarrow> storage_builder \<Rightarrow> nat \<times> storage_builder" where
  "sb_func_type params ret b =
     (type_count b,
      on_state (\<lambda>st. push_type TyFunc (length (st_func_types st))
        (st\<lparr>st_func_types := st_func_types st @ [\<lparr>fty_params = params, fty_ret = ret\<rparr>]\<rparr>)) b)"

definition never_type :: "storage_builder \<Rightarrow> nat \<times> storage_builder" where
  "never_type b =
     (case bd_never b of
        Some idx \<Rightarrow> (idx, b)
      | None \<Rightarrow>
          (case scan_types (\<lambda>node. tn_tag node = TyNever) (bd_state b) of
             Some idx \<Rightarrow> (idx, b\<lparr>bd_never := Some idx\<rparr>)
           | None \<Rightarrow> (type_count b, (on_state (push_type TyNever 0) b)\<lparr>bd_never := Some (type_count b)\<rparr>)))"

definition error_type :: "storage_builder \<Rightarrow> nat \<times> storage_builder" where
  "error_type b =
     (case bd_error b of
        Some idx \<Rightarrow> (idx, b)
      | None \<Rightarrow>
          (case scan_types (\<lambda>node. tn_tag node = TyError) (bd_state b) of
             Some idx \<Rightarrow> (idx, b\<lparr>bd_error := Some idx\<rparr>)
           | None \<Rightarrow> (type_count b, (on_state (push_type TyError 0) b)\<lparr>bd_error := Some (type_count b)\<rparr>)))"

definition enum_variant :: "nat \<Rightarrow> idx_range \<Rightarrow> storage_builder \<Rightarrow> nat \<times> storage_builder" where
  "enum_variant name flds b =
     (length (st_enum_variant_types (bd_state b)),
      on_state (\<lambda>st. st\<lparr>st_enum_variant_types := st_enum_variant_types st @ [\<lparr>ev_name = name, ev_fields = flds\<rparr>]\<rparr>) b)"

definition sb_enum_type :: "nat \<Rightarrow> idx_range \<Rightarrow> idx_range \<Rightarrow> storage_builder \<Rightarrow> nat \<times> storage_builder" where
  "sb_enum_type name variants params b =
     (type_count b,
      on_state (\<lambda>st. push_type TyEnum (length (st_enum_types st))
        (st\<lparr>st_enum_types := st_enum_types st @ [\<lparr>ety_name = name, ety_variants = variants, ety_params = params\<rparr>]\<rparr>)) b)"

definition reserve_enum :: "nat \<Rightarrow> storage_builder \<Rightarrow> nat \<times> storage_builder" where
  "reserve_enum name b =
     (type_count b,
      on_state (\<lambda>st. push_type TyEnum (length (st_enum_types st))
        (st\<lparr>st_enum_types := st_enum_types st @ [\<lparr>ety_name = name, ety_variants = no_range, ety_params = no_range\<rparr>]\<rparr>)) b)"

definition fill_enum :: "nat \<Rightarrow> idx_range \<Rightarrow> idx_range \<Rightarrow> storage_builder \<Rightarrow> storage_builder option" where
  "fill_enum idx variants params b = do {
     node \<leftarrow> row (st_types (bd_state b)) idx;
     e \<leftarrow> row (st_enum_types (bd_state b)) (tn_data node);
     if tn_tag node \<noteq> TyEnum then None
     else Some (on_state (\<lambda>st. st\<lparr>st_enum_types :=
       (st_enum_types st)[tn_data node := e\<lparr>ety_variants := variants, ety_params := params\<rparr>]\<rparr>) b)
   }"

definition sb_ref_type :: "nat \<Rightarrow> storage_builder \<Rightarrow> (nat \<times> storage_builder) option" where
  "sb_ref_type idx b = do {
     node \<leftarrow> row (st_types (bd_state b)) idx;
     Some (type_count b, on_state (push_type (tn_tag node) (tn_data node)) b)
   }"

subsection \<open>Making a builder\<close>

definition no_builder :: "storage_state \<Rightarrow> storage_builder" where
  "no_builder st = \<lparr>bd_state = st, bd_never = None, bd_error = None, bd_ref_by_pointee = Map.empty,
     bd_mut_ref_by_pointee = Map.empty, bd_raw_ptr_by_pointee = Map.empty, bd_raw_mut_ptr_by_pointee = Map.empty,
     bd_tuple_by_key = Map.empty, bd_const_by_value = Map.empty, bd_param_by_index = Map.empty\<rparr>"

definition intern_primitives :: "storage_builder \<Rightarrow> storage_builder" where
  "intern_primitives b = on_state (\<lambda>st. st\<lparr>st_types := st_types st
     @ map (\<lambda>i. plain_node (ALL_TAGS ! i)) [0..<PRIMITIVE_TYPE_COUNT] @ [plain_node TyFunction]\<rparr>) b"

definition new_builder :: storage_builder where
  "new_builder = intern_primitives (no_builder empty_state)"

definition index_one :: "nat \<Rightarrow> storage_builder \<Rightarrow> storage_builder" where
  "index_one idx b =
     (let node = st_types (bd_state b) ! idx in
      if tn_tag node = TyParam then b\<lparr>bd_param_by_index := emplace (tn_data node) idx (bd_param_by_index b)\<rparr>
      else case pointer_table (tn_tag node) b of
        None \<Rightarrow> b
      | Some interned \<Rightarrow>
          if length (st_ref_types (bd_state b)) \<le> tn_data node then b
          else set_pointer_table (tn_tag node)
            (emplace (rty_pointee (st_ref_types (bd_state b) ! tn_data node)) idx interned) b)"

definition index_interned :: "storage_builder \<Rightarrow> storage_builder" where
  "index_interned b =
     fold index_one [PRIMITIVE_TYPE_COUNT + 1..<type_count b]
       (b\<lparr>bd_ref_by_pointee := Map.empty, bd_mut_ref_by_pointee := Map.empty, bd_raw_ptr_by_pointee := Map.empty,
         bd_raw_mut_ptr_by_pointee := Map.empty, bd_param_by_index := Map.empty\<rparr>)"

definition builder_from :: "storage_state \<Rightarrow> storage_builder" where
  "builder_from st = index_interned (no_builder st)"

definition parameter_types :: "type_node list \<Rightarrow> storage_builder \<Rightarrow> storage_builder" where
  "parameter_types types b = index_interned (on_state (\<lambda>st. st\<lparr>st_types := types\<rparr>) b)"

definition take_state :: "storage_builder \<Rightarrow> storage_state" where
  "take_state b = bd_state b"


subsection \<open>What an interned index stands for\<close>

text \<open>The shapes that intern, and the shape of a node past the pre-interned block.\<close>

datatype type_key =
  KPointer type_tag nat | KConst u64 | KParam nat | KSlice nat | KArray nat u64 | KTuple idx_range | KNever | KError

definition canon :: "type_key \<Rightarrow> type_key" where
  "canon k = (case k of KTuple r \<Rightarrow> if rg_size r = 0 then KTuple no_range else k | _ \<Rightarrow> k)"

definition node_key :: "storage_state \<Rightarrow> type_node \<Rightarrow> type_key option" where
  "node_key st node =
     (let tag = tn_tag node; data = tn_data node in
      if tag \<in> {TyRef, TyMutRef, TyRawPtr, TyRawMutPtr} then map_option (\<lambda>r. KPointer tag (rty_pointee r)) (row (st_ref_types st) data)
      else if tag = TyConst then map_option (\<lambda>c. KConst (cty_value c)) (row (st_const_types st) data)
      else if tag = TyParam then Some (KParam data)
      else if tag = TySlice then map_option (\<lambda>s. KSlice (lty_element s)) (row (st_slice_types st) data)
      else if tag = TyArray then map_option (\<lambda>a. KArray (aty_element a) (aty_count a)) (row (st_array_types st) data)
      else if tag = TyTuple then map_option (\<lambda>t. canon (KTuple (tty_elements t))) (row (st_tuple_types st) data)
      else if tag = TyNever then Some KNever
      else if tag = TyError then Some KError
      else None)"

definition key_of :: "storage_state \<Rightarrow> nat \<Rightarrow> type_key option" where
  "key_of st idx = (if idx \<le> PRIMITIVE_TYPE_COUNT then None else do { node \<leftarrow> row (st_types st) idx; node_key st node })"

text \<open>Asking the builder for a shape.\<close>

definition intern_key :: "type_key \<Rightarrow> storage_builder \<Rightarrow> (nat \<times> storage_builder) option" where
  "intern_key k b =
     (case k of
        KPointer tag pointee \<Rightarrow> pointer_type tag pointee b
      | KConst v \<Rightarrow> Some (sb_const_type v b)
      | KParam index \<Rightarrow> Some (sb_param_type index b)
      | KSlice element \<Rightarrow> Some (sb_slice_type element b)
      | KArray element n \<Rightarrow> Some (sb_array_type element n b)
      | KTuple elements \<Rightarrow> Some (sb_tuple_type elements b)
      | KNever \<Rightarrow> Some (never_type b)
      | KError \<Rightarrow> Some (error_type b))"

text \<open>The index the builder already has for a shape.\<close>

definition scan_key :: "type_key \<Rightarrow> storage_state \<Rightarrow> nat option" where
  "scan_key k st = scan_types (\<lambda>node. node_key st node = Some k) st"

definition known :: "storage_builder \<Rightarrow> type_key \<Rightarrow> nat option" where
  "known b k =
     (case k of
        KPointer tag pointee \<Rightarrow> do { m \<leftarrow> pointer_table tag b; m pointee }
      | KConst v \<Rightarrow> bd_const_by_value b v
      | KParam index \<Rightarrow> bd_param_by_index b index
      | KSlice element \<Rightarrow> scan_key k (bd_state b)
      | KArray element n \<Rightarrow> scan_key k (bd_state b)
      | KTuple elements \<Rightarrow>
          find (tuple_matches (bd_state b) elements)
            (case bd_tuple_by_key b (elements_key elements) of None \<Rightarrow> [] | Some is \<Rightarrow> is)
      | KNever \<Rightarrow> (case bd_never b of None \<Rightarrow> scan_key KNever (bd_state b) | some \<Rightarrow> some)
      | KError \<Rightarrow> (case bd_error b of None \<Rightarrow> scan_key KError (bd_state b) | some \<Rightarrow> some))"

subsection \<open>The contract of an interning factory\<close>

text \<open>
  A state evolves along \<open>later\<close>; \<open>shape\<close> reads what an index stands for, \<open>have_idx\<close> the index the state
  would answer without making a new one.
\<close>

locale interner =
  fixes intern :: "'k \<Rightarrow> 's \<Rightarrow> (nat \<times> 's) option"
    and have_idx :: "'s \<Rightarrow> 'k \<Rightarrow> nat option"
    and shape :: "'s \<Rightarrow> nat \<Rightarrow> 'c option"
    and can :: "'k \<Rightarrow> 'c"
    and step :: "'s \<Rightarrow> 's \<Rightarrow> bool"
    and inv :: "'s \<Rightarrow> bool"
  assumes hit: "inv s \<Longrightarrow> have_idx s k = Some i \<Longrightarrow> intern k s = Some (j, s') \<Longrightarrow> j = i"
    and made: "inv s \<Longrightarrow> intern k s = Some (i, s') \<Longrightarrow> inv s' \<and> have_idx s' k = Some i"
    and reads: "inv s \<Longrightarrow> have_idx s k = Some i \<Longrightarrow> shape s i = Some (can k)"
    and keeps_inv: "inv s \<Longrightarrow> step s s' \<Longrightarrow> inv s'"
    and keeps_idx: "inv s \<Longrightarrow> step s s' \<Longrightarrow> have_idx s k = Some i \<Longrightarrow> have_idx s' k = Some i"
    and keeps_shape: "inv s \<Longrightarrow> step s s' \<Longrightarrow> shape s i = Some c \<Longrightarrow> shape s' i = Some c"
    and intern_step: "intern k s = Some (i, s') \<Longrightarrow> step s s'"
    and same_shape: "can k = can k' \<Longrightarrow> have_idx s k = have_idx s k'"
begin

lemma later_inv: "step\<^sup>*\<^sup>* s s' \<Longrightarrow> inv s \<Longrightarrow> inv s'"
  by (induction rule: rtranclp_induct) (auto intro: keeps_inv)

lemma later_idx: "step\<^sup>*\<^sup>* s s' \<Longrightarrow> inv s \<Longrightarrow> have_idx s k = Some i \<Longrightarrow> have_idx s' k = Some i"
  by (induction rule: rtranclp_induct) (auto intro: keeps_idx later_inv)

lemma later_shape: "step\<^sup>*\<^sup>* s s' \<Longrightarrow> inv s \<Longrightarrow> shape s i = Some c \<Longrightarrow> shape s' i = Some c"
  by (induction rule: rtranclp_induct) (auto intro: keeps_shape later_inv)

theorem index_equality:
  assumes "inv s" "intern k s = Some (i, s1)" "step\<^sup>*\<^sup>* s1 s2" "intern k' s2 = Some (j, s3)"
  shows "i = j \<longleftrightarrow> can k = can k'"
proof -
  have inv1: "inv s1" and i: "have_idx s1 k = Some i" using made [OF assms(1,2)] by auto
  have inv2: "inv s2" and i2: "have_idx s2 k = Some i"
    using later_inv [OF assms(3) inv1] later_idx [OF assms(3) inv1 i] by auto
  have j: "have_idx s3 k' = Some j" and inv3: "inv s3" using made [OF inv2 assms(4)] by auto
  have "shape s3 i = Some (can k)"
    using keeps_shape [OF inv2 intern_step [OF assms(4)] reads [OF inv2 i2]] .
  moreover have "shape s3 j = Some (can k')" using reads [OF inv3 j] .
  moreover have "i = j" if "can k = can k'"
    using hit [OF inv2 _ assms(4), of i] i2 same_shape [OF that, of s2] by simp
  ultimately show ?thesis by auto
qed

end


subsection \<open>Steps of a builder\<close>

text \<open>
  Every operation that keeps the type table.  The one left out is \<open>parameter_types\<close>, which replaces the table that
  indices point into: on a new builder it only sets the table the builder starts from (\<open>parameter_types_starts\<close>), and
  on a used one the indices given out before are stale (\<open>replaced_table_is_stale\<close>).
\<close>

inductive builder_step :: "storage_builder \<Rightarrow> storage_builder \<Rightarrow> bool" where
  Intern: "intern_key k b = Some (i, b') \<Longrightarrow> builder_step b b'"
| Copy_Node: "sb_ref_type idx b = Some (i, b') \<Longrightarrow> builder_step b b'"
| Struct_Type: "builder_step b (snd (sb_struct_type name flds params b))"
| Reserve_Struct: "builder_step b (snd (reserve_struct name b))"
| Fill_Struct: "fill_struct idx flds params b = Some b' \<Longrightarrow> builder_step b b'"
| Func_Type: "builder_step b (snd (sb_func_type params ret b))"
| Enum_Variant: "builder_step b (snd (enum_variant name flds b))"
| Enum_Type: "builder_step b (snd (sb_enum_type name variants params b))"
| Reserve_Enum: "builder_step b (snd (reserve_enum name b))"
| Fill_Enum: "fill_enum idx variants params b = Some b' \<Longrightarrow> builder_step b b'"
| Function: "builder_step b (snd (sb_function f b))"
| Block: "builder_step b (snd (sb_block bl b))"
| Set_Block_Instrs: "set_block_instrs idx r b = Some b' \<Longrightarrow> builder_step b b'"
| Set_Block_Params: "set_block_params idx r b = Some b' \<Longrightarrow> builder_step b b'"
| Block_Param: "builder_step b (snd (sb_block_param p b))"
| Instr: "builder_step b (snd (sb_instr ins b))"
| Immutable: "builder_step b (snd (sb_immutable im b))"
| Reg: "builder_step b (snd (sb_reg r' b))"
| External_Function: "builder_step b (snd (sb_external_function xf b))"
| Operand: "builder_step b (snd (sb_operand opd b))"
| Functions: "builder_step b (sb_functions fs b)"
| Blocks: "builder_step b (sb_blocks bls b)"
| Block_Params: "builder_step b (sb_block_params ps b)"
| Instrs: "builder_step b (sb_instrs inss b)"
| Immutables: "builder_step b (sb_immutables ims b)"
| Registers: "builder_step b (sb_registers regs b)"
| External_Functions: "builder_step b (sb_external_functions xfs b)"
| Operands: "builder_step b (sb_operands opds b)"

text \<open>The tables the shapes are read from only grow.\<close>

definition grows :: "'a list \<Rightarrow> 'a list \<Rightarrow> bool" where
  "grows xs ys \<longleftrightarrow> (\<exists>zs. ys = xs @ zs)"

lemma grows_refl [simp]: "grows xs xs" and grows_append [simp]: "grows xs (xs @ zs)"
  by (auto simp: grows_def)

lemma row_grows: "grows xs ys \<Longrightarrow> row xs i = Some x \<Longrightarrow> row ys i = Some x"
  by (auto simp: grows_def nth_append)

definition extends :: "storage_state \<Rightarrow> storage_state \<Rightarrow> bool" where
  "extends st st' \<longleftrightarrow> grows (st_types st) (st_types st') \<and> grows (st_ref_types st) (st_ref_types st')
     \<and> grows (st_const_types st) (st_const_types st') \<and> grows (st_slice_types st) (st_slice_types st')
     \<and> grows (st_array_types st) (st_array_types st') \<and> grows (st_tuple_types st) (st_tuple_types st')"

lemma node_key_extends: "extends st st' \<Longrightarrow> node_key st node = Some k \<Longrightarrow> node_key st' node = Some k"
  unfolding extends_def node_key_def Let_def
  by (auto split: if_splits simp: row_grows simp del: row_Some_iff)

lemma key_of_extends: "extends st st' \<Longrightarrow> key_of st i = Some k \<Longrightarrow> key_of st' i = Some k"
proof -
  assume ext: "extends st st'" and k: "key_of st i = Some k"
  then obtain node where node: "row (st_types st) i = Some node" "node_key st node = Some k" "\<not> i \<le> PRIMITIVE_TYPE_COUNT"
    by (auto simp: key_of_def bind_eq_Some_conv split: if_splits)
  have "row (st_types st') i = Some node" using row_grows [OF _ node(1)] ext by (simp add: extends_def)
  then show ?thesis using node_key_extends [OF ext node(2)] node(3) by (simp add: key_of_def)
qed

text \<open>The invariant: what the interning tables say is what the nodes are, and slices and arrays have their rows.\<close>

definition rows_present :: "storage_state \<Rightarrow> type_node \<Rightarrow> bool" where
  "rows_present st node \<longleftrightarrow> (tn_tag node = TySlice \<longrightarrow> tn_data node < length (st_slice_types st))
     \<and> (tn_tag node = TyArray \<longrightarrow> tn_data node < length (st_array_types st))"

definition is_tuple_idx :: "storage_state \<Rightarrow> nat \<Rightarrow> bool" where
  "is_tuple_idx st i \<longleftrightarrow> (\<exists>r. key_of st i = Some (KTuple r))"

definition map_inv :: "storage_state \<Rightarrow> ('x \<rightharpoonup> nat) \<Rightarrow> ('x \<Rightarrow> type_key) \<Rightarrow> bool" where
  "map_inv st m f \<longleftrightarrow> (\<forall>x i. m x = Some i \<longrightarrow> key_of st i = Some (f x))"

definition idx_inv :: "storage_state \<Rightarrow> nat option \<Rightarrow> type_key \<Rightarrow> bool" where
  "idx_inv st idx k \<longleftrightarrow> (\<forall>i. idx = Some i \<longrightarrow> key_of st i = Some k)"

definition buckets_inv :: "storage_state \<Rightarrow> (u64 \<rightharpoonup> nat list) \<Rightarrow> bool" where
  "buckets_inv st m \<longleftrightarrow> (\<forall>key is i. m key = Some is \<longrightarrow> i \<in> set is \<longrightarrow> is_tuple_idx st i)"

definition types_inv :: "storage_state \<Rightarrow> bool" where
  "types_inv st \<longleftrightarrow> PRIMITIVE_TYPE_COUNT < length (st_types st) \<and> (\<forall>node \<in> set (st_types st). rows_present st node)"

definition builder_inv :: "storage_builder \<Rightarrow> bool" where
  "builder_inv b \<longleftrightarrow> (let st = bd_state b in
     types_inv st
     \<and> map_inv st (bd_ref_by_pointee b) (KPointer TyRef)
     \<and> map_inv st (bd_mut_ref_by_pointee b) (KPointer TyMutRef)
     \<and> map_inv st (bd_raw_ptr_by_pointee b) (KPointer TyRawPtr)
     \<and> map_inv st (bd_raw_mut_ptr_by_pointee b) (KPointer TyRawMutPtr)
     \<and> map_inv st (bd_const_by_value b) KConst
     \<and> map_inv st (bd_param_by_index b) KParam
     \<and> buckets_inv st (bd_tuple_by_key b)
     \<and> idx_inv st (bd_never b) KNever
     \<and> idx_inv st (bd_error b) KError)"

lemma rows_present_extends: "extends st st' \<Longrightarrow> rows_present st node \<Longrightarrow> rows_present st' node"
  by (auto simp: extends_def rows_present_def grows_def)

lemma is_tuple_extends: "extends st st' \<Longrightarrow> is_tuple_idx st i \<Longrightarrow> is_tuple_idx st' i"
  unfolding is_tuple_idx_def using key_of_extends by blast

text \<open>Scans find the same index in a longer table.\<close>

lemma find_prefix: "find P xs = Some i \<Longrightarrow> (\<And>x. x \<in> set xs \<Longrightarrow> Q x = P x) \<Longrightarrow> find Q (xs @ ys) = Some i"
  by (induction xs) (auto split: if_splits)

lemma find_append: "find P (xs @ ys) = (case find P xs of None \<Rightarrow> find P ys | Some i \<Rightarrow> Some i)"
  by (induction xs) auto

definition scannable :: "type_key \<Rightarrow> bool" where
  "scannable k \<longleftrightarrow> (case k of KSlice _ \<Rightarrow> True | KArray _ _ \<Rightarrow> True | KNever \<Rightarrow> True | KError \<Rightarrow> True | _ \<Rightarrow> False)"

lemma scannable_tag:
  "node_key st node = Some k \<Longrightarrow> scannable k \<Longrightarrow> tn_tag node \<in> {TySlice, TyArray, TyNever, TyError}"
  by (cases "tn_tag node") (auto simp: node_key_def scannable_def canon_def split: if_splits)

lemma scannable_present:
  "tn_tag node \<in> {TySlice, TyArray, TyNever, TyError} \<Longrightarrow> rows_present st node \<Longrightarrow> \<exists>k. node_key st node = Some k"
  by (auto simp: node_key_def rows_present_def)

lemma node_key_scannable:
  assumes "extends st st'" "rows_present st node" "scannable k"
  shows "node_key st' node = Some k \<longleftrightarrow> node_key st node = Some k"
proof
  assume k: "node_key st' node = Some k"
  obtain k0 where k0: "node_key st node = Some k0"
    using scannable_present [OF scannable_tag [OF k assms(3)] assms(2)] by blast
  then show "node_key st node = Some k" using node_key_extends [OF assms(1) k0] k by simp
qed (rule node_key_extends [OF assms(1)])

lemma scan_key_extends:
  assumes "extends st st'" "\<forall>node \<in> set (st_types st). rows_present st node" "scannable k" "scan_key k st = Some i"
  shows "scan_key k st' = Some i"
proof -
  obtain zs where zs: "st_types st' = st_types st @ zs" using assms(1) by (auto simp: extends_def grows_def)
  have found: "find (\<lambda>i. node_key st (st_types st ! i) = Some k) [PRIMITIVE_TYPE_COUNT + 1..<length (st_types st)] = Some i"
    using assms(4) by (simp add: scan_key_def scan_types_def)
  then have "PRIMITIVE_TYPE_COUNT + 1 \<le> length (st_types st)"
    by (auto simp: find_Some_iff)
  then have split: "[PRIMITIVE_TYPE_COUNT + 1..<length (st_types st')]
      = [PRIMITIVE_TYPE_COUNT + 1..<length (st_types st)] @ [length (st_types st)..<length (st_types st')]"
    unfolding zs length_append by (rule upt_add_eq_append)
  have same: "(node_key st' (st_types st' ! j) = Some k) = (node_key st (st_types st ! j) = Some k)"
    if "j \<in> set [PRIMITIVE_TYPE_COUNT + 1..<length (st_types st)]" for j
    using node_key_scannable [OF assms(1) _ assms(3), of "st_types st ! j"] assms(2) that zs by (simp add: nth_append)
  show ?thesis unfolding scan_key_def scan_types_def split by (rule find_prefix [OF found same])
qed

lemma scan_key_reads: "scan_key k st = Some i \<Longrightarrow> key_of st i = Some k"
  by (auto simp: scan_key_def scan_types_def find_Some_iff key_of_def)


subsection \<open>Keeping the invariant\<close>

lemma map_inv_extends: "extends st st' \<Longrightarrow> map_inv st m f \<Longrightarrow> map_inv st' m f"
  unfolding map_inv_def using key_of_extends by blast

lemma idx_inv_extends: "extends st st' \<Longrightarrow> idx_inv st i k \<Longrightarrow> idx_inv st' i k"
  unfolding idx_inv_def using key_of_extends by blast

lemma buckets_inv_extends: "extends st st' \<Longrightarrow> buckets_inv st m \<Longrightarrow> buckets_inv st' m"
  unfolding buckets_inv_def using is_tuple_extends by blast

lemmas inv_extends = map_inv_extends idx_inv_extends buckets_inv_extends

lemma map_inv_emplace: "map_inv st m f \<Longrightarrow> key_of st i = Some (f x) \<Longrightarrow> map_inv st (emplace x i m) f"
  by (auto simp: map_inv_def emplace_def split: option.splits if_splits)

lemma buckets_inv_push:
  "buckets_inv st m \<Longrightarrow> is_tuple_idx st i
    \<Longrightarrow> buckets_inv st (m(key \<mapsto> (case m key of None \<Rightarrow> [] | Some is \<Rightarrow> is) @ [i]))"
  by (cases "m key") (auto simp: buckets_inv_def split: if_splits)

lemma idx_inv_Some [simp]: "idx_inv st (Some i) k \<longleftrightarrow> key_of st i = Some k"
  by (auto simp: idx_inv_def)

text \<open>A new node.\<close>

lemma extends_refl [simp]: "extends st st"
  by (simp add: extends_def)

lemma types_push:
  "types_inv st \<Longrightarrow> extends st st' \<Longrightarrow> st_types st' = st_types st @ [node] \<Longrightarrow> rows_present st' node \<Longrightarrow> types_inv st'"
  by (auto simp: types_inv_def intro: rows_present_extends)

lemma key_of_push:
  "types_inv st \<Longrightarrow> st_types st' = st_types st @ [node] \<Longrightarrow> node_key st' node = Some k
    \<Longrightarrow> key_of st' (length (st_types st)) = Some k"
  by (simp add: key_of_def types_inv_def)

lemma bd_state_on_state [simp]: "bd_state (on_state f b) = f (bd_state b)"
  by (simp add: on_state_def)

lemma on_state_tables [simp]:
  "bd_never (on_state f b) = bd_never b" "bd_error (on_state f b) = bd_error b"
  "bd_ref_by_pointee (on_state f b) = bd_ref_by_pointee b"
  "bd_mut_ref_by_pointee (on_state f b) = bd_mut_ref_by_pointee b"
  "bd_raw_ptr_by_pointee (on_state f b) = bd_raw_ptr_by_pointee b"
  "bd_raw_mut_ptr_by_pointee (on_state f b) = bd_raw_mut_ptr_by_pointee b"
  "bd_tuple_by_key (on_state f b) = bd_tuple_by_key b"
  "bd_const_by_value (on_state f b) = bd_const_by_value b"
  "bd_param_by_index (on_state f b) = bd_param_by_index b"
  by (simp_all add: on_state_def)

text \<open>Operations that make no interned shape.\<close>

definition frame :: "storage_builder \<Rightarrow> storage_builder \<Rightarrow> bool" where
  "frame b b' \<longleftrightarrow> (\<exists>f. b' = on_state f b \<and> extends (bd_state b) (f (bd_state b))
     \<and> (types_inv (bd_state b) \<longrightarrow> types_inv (f (bd_state b))))"

lemma frame_inv: "builder_inv b \<Longrightarrow> frame b b' \<Longrightarrow> builder_inv b'"
  by (auto simp: builder_inv_def frame_def Let_def intro: inv_extends)

lemma tuple_matches_key:
  assumes "is_tuple_idx st i"
  shows "tuple_matches st r i \<longleftrightarrow> key_of st i = Some (canon (KTuple r))"
proof -
  obtain node where node: "row (st_types st) i = Some node" "tn_tag node = TyTuple"
    "tn_data node < length (st_tuple_types st)" "\<not> i \<le> PRIMITIVE_TYPE_COUNT"
    using assms by (auto simp: is_tuple_idx_def key_of_def bind_eq_Some_conv node_key_def Let_def split: if_splits)
  let ?e = "tty_elements (st_tuple_types st ! tn_data node)"
  have key: "key_of st i = Some (canon (KTuple ?e))" using node by (auto simp: key_of_def node_key_def)
  have "tuple_matches st r i \<longleftrightarrow> rg_size ?e = rg_size r \<and> (\<forall>j < rg_size r. rg_head ?e = rg_head r)"
    using node by (auto simp: tuple_matches_def list_all_iff range_at_def)
  also have "\<dots> \<longleftrightarrow> canon (KTuple ?e) = canon (KTuple r)"
    by (cases r; cases ?e) (auto simp: canon_def no_range_def)
  finally show ?thesis using key by simp
qed

lemma find_tuple_extends:
  assumes "extends st st'" "buckets_inv st m"
  shows "find (tuple_matches st' r) (case m key of None \<Rightarrow> [] | Some is \<Rightarrow> is)
    = find (tuple_matches st r) (case m key of None \<Rightarrow> [] | Some is \<Rightarrow> is)"
proof (rule find_cong)
  fix i assume "i \<in> set (case m key of None \<Rightarrow> [] | Some is \<Rightarrow> is)"
  then have t: "is_tuple_idx st i" using assms(2) by (cases "m key") (auto simp: buckets_inv_def)
  then have "key_of st' i = key_of st i" using key_of_extends [OF assms(1)] by (auto simp: is_tuple_idx_def)
  then show "tuple_matches st' r i = tuple_matches st r i"
    using tuple_matches_key t is_tuple_extends [OF assms(1) t] by simp
qed simp


lemma map_le_Some: "m \<subseteq>\<^sub>m m' \<Longrightarrow> m x = Some v \<Longrightarrow> m' x = Some v"
  by (auto simp: map_le_def dom_def)

lemma known_extends:
  assumes "builder_inv b" "extends (bd_state b) (bd_state b')" "known b k = Some i"
    "case k of
        KPointer tag p \<Rightarrow> pointer_table tag b \<noteq> None \<longrightarrow> the (pointer_table tag b) \<subseteq>\<^sub>m the (pointer_table tag b')
      | KConst v \<Rightarrow> bd_const_by_value b \<subseteq>\<^sub>m bd_const_by_value b'
      | KParam n \<Rightarrow> bd_param_by_index b \<subseteq>\<^sub>m bd_param_by_index b'
      | KTuple r \<Rightarrow> (\<forall>is. bd_tuple_by_key b (elements_key r) = Some is
          \<longrightarrow> (\<exists>more. bd_tuple_by_key b' (elements_key r) = Some (is @ more)))
      | KNever \<Rightarrow> bd_never b' = bd_never b \<or> bd_never b' = known b KNever
      | KError \<Rightarrow> bd_error b' = bd_error b \<or> bd_error b' = known b KError
      | _ \<Rightarrow> True"
  shows "known b' k = Some i"
proof -
  have rows: "\<forall>node \<in> set (st_types (bd_state b)). rows_present (bd_state b) node"
    and buckets: "buckets_inv (bd_state b) (bd_tuple_by_key b)"
    using assms(1) by (auto simp: builder_inv_def Let_def types_inv_def)
  note scan = scan_key_extends [OF assms(2) rows]
  show ?thesis
  proof (cases k)
    case (KPointer tag p)
    then show ?thesis using assms(3,4)
      by (auto simp: known_def pointer_table_def split: if_splits dest: map_le_Some)
  next
    case (KConst v)
    then show ?thesis using assms(3,4) by (auto simp: known_def dest: map_le_Some)
  next
    case (KParam n)
    then show ?thesis using assms(3,4) by (auto simp: known_def dest: map_le_Some)
  next
    case (KTuple r)
    then obtain "is" where found: "bd_tuple_by_key b (elements_key r) = Some is" "find (tuple_matches (bd_state b) r) is = Some i"
      using assms(3) by (cases "bd_tuple_by_key b (elements_key r)") (auto simp: known_def)
    moreover obtain more where "bd_tuple_by_key b' (elements_key r) = Some (is @ more)"
      using assms(4) found(1) KTuple by auto
    moreover have "find (tuple_matches (bd_state b') r) is = Some i"
      using find_tuple_extends [OF assms(2) buckets, of r "elements_key r"] found by simp
    ultimately show ?thesis using KTuple find_prefix [of "tuple_matches (bd_state b') r" "is" i] by (simp add: known_def)
  next
    case KNever
    then show ?thesis using assms(3,4) scan [of KNever i] by (auto simp: known_def scannable_def split: option.splits)
  next
    case KError
    then show ?thesis using assms(3,4) scan [of KError i] by (auto simp: known_def scannable_def split: option.splits)
  qed (use assms(3) scan in \<open>auto simp: known_def scannable_def\<close>)
qed

lemma known_frame: "builder_inv b \<Longrightarrow> frame b b' \<Longrightarrow> known b k = Some i \<Longrightarrow> known b' k = Some i"
  by (rule known_extends [of b b']) (auto simp: frame_def pointer_table_def split: type_key.split)

lemma known_reads:
  assumes "builder_inv b" "known b k = Some i"
  shows "key_of (bd_state b) i = Some (canon k)"
proof (cases k)
  case (KTuple r)
  then obtain "is" where "bd_tuple_by_key b (elements_key r) = Some is" "find (tuple_matches (bd_state b) r) is = Some i"
    using assms(2) by (cases "bd_tuple_by_key b (elements_key r)") (auto simp: known_def)
  moreover from this have "i \<in> set is" "tuple_matches (bd_state b) r i" by (auto simp: find_Some_iff)
  ultimately show ?thesis using assms(1) tuple_matches_key KTuple by (auto simp: builder_inv_def Let_def buckets_inv_def)
qed (use assms in \<open>auto simp: known_def builder_inv_def Let_def map_inv_def idx_inv_def pointer_table_def canon_def
    scan_key_reads split: if_splits option.splits\<close>)


subsection \<open>Interning keeps the contract\<close>

definition interned_to :: "storage_builder \<Rightarrow> type_key \<Rightarrow> nat \<Rightarrow> storage_builder \<Rightarrow> bool" where
  "interned_to b k i b' \<longleftrightarrow> builder_inv b' \<and> extends (bd_state b) (bd_state b') \<and> known b' k = Some i
     \<and> (\<forall>j. known b k = Some j \<longrightarrow> j = i) \<and> (\<forall>k' j. known b k' = Some j \<longrightarrow> known b' k' = Some j)"

lemma interned_hit: "builder_inv b \<Longrightarrow> known b k = Some i \<Longrightarrow> interned_to b k i b"
  by (simp add: interned_to_def)

lemma emplace_new [simp]: "m x = None \<Longrightarrow> emplace x i m = m(x \<mapsto> i)"
  by (simp add: emplace_def)

lemma map_le_new: "m x = None \<Longrightarrow> m \<subseteq>\<^sub>m m(x \<mapsto> i)"
  by (auto simp: map_le_def)

lemma interned_miss:
  assumes "builder_inv b" "known b k = None" "builder_inv b'" "extends (bd_state b) (bd_state b')" "known b' k = Some i"
    "\<And>k' j. known b k' = Some j \<Longrightarrow> known b' k' = Some j"
  shows "interned_to b k i b'"
  using assms by (simp add: interned_to_def)

lemma push_key:
  assumes "builder_inv b" "st_types st' = st_types (bd_state b) @ [node]" "extends (bd_state b) st'"
    "node_key st' node = Some c"
  shows "key_of st' (type_count b) = Some c"
  using key_of_push [of "bd_state b" st' node c] assms by (simp add: builder_inv_def Let_def type_count_def)

lemma map_inv_kept: "extends st st' \<Longrightarrow> m' = m \<or> map_inv st' m' f \<Longrightarrow> map_inv st m f \<Longrightarrow> map_inv st' m' f"
  using map_inv_extends by blast

lemma idx_inv_kept: "extends st st' \<Longrightarrow> m' = m \<or> idx_inv st' m' f \<Longrightarrow> idx_inv st m f \<Longrightarrow> idx_inv st' m' f"
  using idx_inv_extends by blast

lemma buckets_inv_kept: "extends st st' \<Longrightarrow> m' = m \<or> buckets_inv st' m' \<Longrightarrow> buckets_inv st m \<Longrightarrow> buckets_inv st' m'"
  using buckets_inv_extends by blast

lemma builder_inv_kept:
  assumes "builder_inv b" "extends (bd_state b) (bd_state b')" "types_inv (bd_state b')"
    "bd_ref_by_pointee b' = bd_ref_by_pointee b \<or> map_inv (bd_state b') (bd_ref_by_pointee b') (KPointer TyRef)"
    "bd_mut_ref_by_pointee b' = bd_mut_ref_by_pointee b \<or> map_inv (bd_state b') (bd_mut_ref_by_pointee b') (KPointer TyMutRef)"
    "bd_raw_ptr_by_pointee b' = bd_raw_ptr_by_pointee b \<or> map_inv (bd_state b') (bd_raw_ptr_by_pointee b') (KPointer TyRawPtr)"
    "bd_raw_mut_ptr_by_pointee b' = bd_raw_mut_ptr_by_pointee b \<or> map_inv (bd_state b') (bd_raw_mut_ptr_by_pointee b') (KPointer TyRawMutPtr)"
    "bd_const_by_value b' = bd_const_by_value b \<or> map_inv (bd_state b') (bd_const_by_value b') KConst"
    "bd_param_by_index b' = bd_param_by_index b \<or> map_inv (bd_state b') (bd_param_by_index b') KParam"
    "bd_tuple_by_key b' = bd_tuple_by_key b \<or> buckets_inv (bd_state b') (bd_tuple_by_key b')"
    "bd_never b' = bd_never b \<or> idx_inv (bd_state b') (bd_never b') KNever"
    "bd_error b' = bd_error b \<or> idx_inv (bd_state b') (bd_error b') KError"
  shows "builder_inv b'"
proof -
  note old = assms(1) [unfolded builder_inv_def Let_def]
  note kept = map_inv_kept [OF assms(2)]
  show ?thesis unfolding builder_inv_def Let_def
    using old assms(3) kept [OF assms(4)] kept [OF assms(5)] kept [OF assms(6)] kept [OF assms(7)]
      map_inv_kept [OF assms(2) assms(8)] kept [OF assms(9)] buckets_inv_kept [OF assms(2,10)]
      idx_inv_kept [OF assms(2,11)] idx_inv_kept [OF assms(2,12)]
    by simp
qed

lemma pointer_interns:
  assumes inv: "builder_inv b" and run: "pointer_type tag p b = Some (i, b')"
  shows "interned_to b (KPointer tag p) i b'"
proof -
  obtain m where m: "pointer_table tag b = Some m" using run by (auto simp: pointer_type_def bind_eq_Some_conv)
  then have tag: "tag \<in> {TyRef, TyMutRef, TyRawPtr, TyRawMutPtr}" by (auto simp: pointer_table_def split: if_splits)
  show ?thesis
  proof (cases "m p")
    case (Some j)
    then show ?thesis using run m inv by (auto simp: pointer_type_def known_def intro!: interned_hit)
  next
    case None
    let ?f = "\<lambda>st. push_type tag (length (st_ref_types st)) (st\<lparr>st_ref_types := st_ref_types st @ [\<lparr>rty_pointee = p\<rparr>]\<rparr>)"
    have b': "b' = set_pointer_table tag (m(p \<mapsto> type_count b)) (on_state ?f b)" and i: "i = type_count b"
      using run m None by (auto simp: pointer_type_def)
    have st': "bd_state b' = ?f (bd_state b)" by (simp add: b' set_pointer_table_def)
    have ext: "extends (bd_state b) (bd_state b')" by (simp add: st' extends_def push_type_def)
    have key: "key_of (bd_state b') i = Some (KPointer tag p)"
      unfolding i by (rule push_key [OF inv _ ext, of "\<lparr>tn_tag = tag, tn_data = length (st_ref_types (bd_state b))\<rparr>"])
        (use tag in \<open>auto simp: st' push_type_def node_key_def\<close>)
    have types: "types_inv (bd_state b')"
      by (rule types_push [OF _ ext, of "\<lparr>tn_tag = tag, tn_data = length (st_ref_types (bd_state b))\<rparr>"])
        (use inv tag in \<open>auto simp: st' push_type_def builder_inv_def Let_def rows_present_def\<close>)
    have upd: "map_inv (bd_state b') (m(p \<mapsto> i)) (KPointer tag)" if "map_inv (bd_state b) m (KPointer tag)"
      using map_inv_emplace [OF map_inv_extends [OF ext that] key] None by simp
    have inv': "builder_inv b'"
      by (rule builder_inv_kept [OF inv ext types])
        (use inv tag m upd in \<open>auto simp: b' i set_pointer_table_def pointer_table_def builder_inv_def Let_def\<close>)
    show ?thesis
    proof (rule interned_miss [OF inv _ inv' ext])
      show "known b (KPointer tag p) = None" using m None by (simp add: known_def)
      show "known b' (KPointer tag p) = Some i" using tag by (auto simp: known_def b' i set_pointer_table_def pointer_table_def)
      show "known b' k' = Some j" if "known b k' = Some j" for k' j
        by (rule known_extends [OF inv ext that])
          (use m None tag in \<open>auto simp: b' set_pointer_table_def pointer_table_def map_le_new split: type_key.split\<close>)
    qed
  qed
qed


text \<open>What every factory has in common when it makes a node.\<close>

lemma pushed:
  assumes "builder_inv b" "st_types st' = st_types (bd_state b) @ [node]" "extends (bd_state b) st'"
    "rows_present st' node" "node_key st' node = Some c"
  shows "types_inv st'" "key_of st' (type_count b) = Some c"
  using types_push [OF _ assms(3,2,4)] push_key [OF assms(1,2,3,5)] assms(1) by (auto simp: builder_inv_def Let_def)

lemma inv_tables:
  assumes "builder_inv b"
  shows "map_inv (bd_state b) (bd_const_by_value b) KConst" "map_inv (bd_state b) (bd_param_by_index b) KParam"
    "buckets_inv (bd_state b) (bd_tuple_by_key b)"
  using assms by (auto simp: builder_inv_def Let_def)

lemma pointer_table_on_state [simp]:
  "pointer_table tag (on_state f b) = pointer_table tag b"
  "pointer_table tag (b\<lparr>bd_const_by_value := mc\<rparr>) = pointer_table tag b"
  "pointer_table tag (b\<lparr>bd_param_by_index := mp\<rparr>) = pointer_table tag b"
  "pointer_table tag (b\<lparr>bd_tuple_by_key := mt\<rparr>) = pointer_table tag b"
  "pointer_table tag (b\<lparr>bd_never := n\<rparr>) = pointer_table tag b"
  "pointer_table tag (b\<lparr>bd_error := n\<rparr>) = pointer_table tag b"
  by (simp_all add: pointer_table_def)

lemma const_interns:
  assumes inv: "builder_inv b" and run: "sb_const_type v b = (i, b')"
  shows "interned_to b (KConst v) i b'"
proof (cases "bd_const_by_value b v")
  case (Some j)
  then show ?thesis using run inv by (auto simp: sb_const_type_def known_def intro!: interned_hit)
next
  case None
  let ?node = "\<lparr>tn_tag = TyConst, tn_data = length (st_const_types (bd_state b))\<rparr>"
  let ?f = "\<lambda>st. push_type TyConst (length (st_const_types st)) (st\<lparr>st_const_types := st_const_types st @ [\<lparr>cty_value = v\<rparr>]\<rparr>)"
  have b': "b' = (on_state ?f b)\<lparr>bd_const_by_value := (bd_const_by_value b)(v \<mapsto> i)\<rparr>" and i: "i = type_count b"
    using run None by (auto simp: sb_const_type_def)
  have ext: "extends (bd_state b) (bd_state b')" by (simp add: b' extends_def push_type_def)
  note new = pushed [OF inv _ ext, of ?node "KConst v"]
  have types: "types_inv (bd_state b')" and key: "key_of (bd_state b') i = Some (KConst v)"
    unfolding i by (rule new; simp add: b' push_type_def rows_present_def node_key_def)+
  have "map_inv (bd_state b') ((bd_const_by_value b)(v \<mapsto> i)) KConst"
    using map_inv_emplace [OF map_inv_extends [OF ext inv_tables(1) [OF inv]] key] None by simp
  then have inv': "builder_inv b'" by (intro builder_inv_kept [OF inv ext types]) (simp_all add: b')
  show ?thesis
  proof (rule interned_miss [OF inv _ inv' ext])
    show "known b' k' = Some j" if "known b k' = Some j" for k' j
      by (rule known_extends [OF inv ext that]) (auto simp: b' None map_le_new split: type_key.split)
  qed (simp_all add: known_def None b')
qed

lemma param_interns:
  assumes inv: "builder_inv b" and run: "sb_param_type n b = (i, b')"
  shows "interned_to b (KParam n) i b'"
proof (cases "bd_param_by_index b n")
  case (Some j)
  then show ?thesis using run inv by (auto simp: sb_param_type_def known_def intro!: interned_hit)
next
  case None
  let ?node = "\<lparr>tn_tag = TyParam, tn_data = n\<rparr>"
  have b': "b' = (on_state (push_type TyParam n) b)\<lparr>bd_param_by_index := (bd_param_by_index b)(n \<mapsto> i)\<rparr>" and i: "i = type_count b"
    using run None by (auto simp: sb_param_type_def)
  have ext: "extends (bd_state b) (bd_state b')" by (simp add: b' extends_def push_type_def)
  note new = pushed [OF inv _ ext, of ?node "KParam n"]
  have types: "types_inv (bd_state b')" and key: "key_of (bd_state b') i = Some (KParam n)"
    unfolding i by (rule new; simp add: b' push_type_def rows_present_def node_key_def)+
  have "map_inv (bd_state b') ((bd_param_by_index b)(n \<mapsto> i)) KParam"
    using map_inv_emplace [OF map_inv_extends [OF ext inv_tables(2) [OF inv]] key] None by simp
  then have inv': "builder_inv b'" by (intro builder_inv_kept [OF inv ext types]) (simp_all add: b')
  show ?thesis
  proof (rule interned_miss [OF inv _ inv' ext])
    show "known b' k' = Some j" if "known b k' = Some j" for k' j
      by (rule known_extends [OF inv ext that]) (auto simp: b' None map_le_new split: type_key.split)
  qed (simp_all add: known_def None b')
qed

text \<open>The scanned shapes.\<close>

lemma slice_scan: "scan_types (\<lambda>node. tn_tag node = TySlice \<and> tn_data node < length (st_slice_types st)
    \<and> lty_element (st_slice_types st ! tn_data node) = e) st = scan_key (KSlice e) st"
proof -
  have "(tn_tag node = TySlice \<and> tn_data node < length (st_slice_types st)
      \<and> lty_element (st_slice_types st ! tn_data node) = e) = (node_key st node = Some (KSlice e))" for node
    by (cases "tn_tag node") (auto simp: node_key_def canon_def)
  then show ?thesis by (simp add: scan_key_def)
qed

lemma array_scan: "scan_types (\<lambda>node. tn_tag node = TyArray \<and> tn_data node < length (st_array_types st)
    \<and> aty_element (st_array_types st ! tn_data node) = e \<and> aty_count (st_array_types st ! tn_data node) = n) st
  = scan_key (KArray e n) st"
proof -
  have "(tn_tag node = TyArray \<and> tn_data node < length (st_array_types st)
      \<and> aty_element (st_array_types st ! tn_data node) = e \<and> aty_count (st_array_types st ! tn_data node) = n)
      = (node_key st node = Some (KArray e n))" for node
    by (cases "tn_tag node") (auto simp: node_key_def canon_def)
  then show ?thesis by (simp add: scan_key_def)
qed

lemma never_scan: "scan_types (\<lambda>node. tn_tag node = TyNever) st = scan_key KNever st"
proof -
  have "(tn_tag node = TyNever) = (node_key st node = Some KNever)" for node
    by (cases "tn_tag node") (auto simp: node_key_def canon_def)
  then show ?thesis by (simp add: scan_key_def)
qed

lemma error_scan: "scan_types (\<lambda>node. tn_tag node = TyError) st = scan_key KError st"
proof -
  have "(tn_tag node = TyError) = (node_key st node = Some KError)" for node
    by (cases "tn_tag node") (auto simp: node_key_def canon_def)
  then show ?thesis by (simp add: scan_key_def)
qed

lemma scan_key_new:
  assumes "builder_inv b" "extends (bd_state b) st'" "scan_key k (bd_state b) = None" "scannable k"
    "st_types st' = st_types (bd_state b) @ [node]" "node_key st' node = Some k"
  shows "scan_key k st' = Some (type_count b)"
proof -
  have n: "PRIMITIVE_TYPE_COUNT + 1 \<le> length (st_types (bd_state b))"
    and rows: "\<forall>node \<in> set (st_types (bd_state b)). rows_present (bd_state b) node"
    using assms(1) by (auto simp: builder_inv_def Let_def types_inv_def)
  have "\<not> node_key st' (st_types st' ! j) = Some k"
    if "j \<in> set [PRIMITIVE_TYPE_COUNT + 1..<length (st_types (bd_state b))]" for j
    using node_key_scannable [OF assms(2) _ assms(4), of "st_types (bd_state b) ! j"] rows that assms(3,5)
    by (auto simp: scan_key_def scan_types_def find_None_iff nth_append)
  then have "find (\<lambda>j. node_key st' (st_types st' ! j) = Some k) [PRIMITIVE_TYPE_COUNT + 1..<length (st_types (bd_state b))] = None"
    by (simp add: find_None_iff)
  then show ?thesis
    using n assms(5,6) by (simp add: scan_key_def scan_types_def type_count_def find_append)
qed


lemma slice_interns:
  assumes inv: "builder_inv b" and run: "sb_slice_type e b = (i, b')"
  shows "interned_to b (KSlice e) i b'"
proof (cases "scan_key (KSlice e) (bd_state b)")
  case (Some j)
  then show ?thesis using run inv by (auto simp: sb_slice_type_def slice_scan known_def intro!: interned_hit)
next
  case None
  let ?node = "\<lparr>tn_tag = TySlice, tn_data = length (st_slice_types (bd_state b))\<rparr>"
  let ?f = "\<lambda>st. push_type TySlice (length (st_slice_types st)) (st\<lparr>st_slice_types := st_slice_types st @ [\<lparr>lty_element = e\<rparr>]\<rparr>)"
  have b': "b' = on_state ?f b" and i: "i = type_count b"
    using run None by (auto simp: sb_slice_type_def slice_scan)
  have ext: "extends (bd_state b) (bd_state b')" by (simp add: b' extends_def push_type_def)
  note new = pushed [OF inv _ ext, of ?node "KSlice e"]
  have types: "types_inv (bd_state b')" by (rule new; simp add: b' push_type_def rows_present_def node_key_def)
  then have inv': "builder_inv b'" by (intro builder_inv_kept [OF inv ext]) (simp_all add: b')
  have found: "scan_key (KSlice e) (bd_state b') = Some i"
    unfolding i by (rule scan_key_new [OF inv ext None, of ?node]) (simp_all add: b' push_type_def node_key_def scannable_def)
  show ?thesis
  proof (rule interned_miss [OF inv _ inv' ext])
    show "known b' k' = Some j" if "known b k' = Some j" for k' j
      by (rule known_extends [OF inv ext that]) (auto simp: b' split: type_key.split)
  qed (simp_all add: known_def None found)
qed

lemma array_interns:
  assumes inv: "builder_inv b" and run: "sb_array_type e n b = (i, b')"
  shows "interned_to b (KArray e n) i b'"
proof (cases "scan_key (KArray e n) (bd_state b)")
  case (Some j)
  then show ?thesis using run inv by (auto simp: sb_array_type_def array_scan known_def intro!: interned_hit)
next
  case None
  let ?node = "\<lparr>tn_tag = TyArray, tn_data = length (st_array_types (bd_state b))\<rparr>"
  let ?f = "\<lambda>st. push_type TyArray (length (st_array_types st)) (st\<lparr>st_array_types := st_array_types st @ [\<lparr>aty_element = e, aty_count = n\<rparr>]\<rparr>)"
  have b': "b' = on_state ?f b" and i: "i = type_count b"
    using run None by (auto simp: sb_array_type_def array_scan)
  have ext: "extends (bd_state b) (bd_state b')" by (simp add: b' extends_def push_type_def)
  note new = pushed [OF inv _ ext, of ?node "KArray e n"]
  have types: "types_inv (bd_state b')" by (rule new; simp add: b' push_type_def rows_present_def node_key_def)
  then have inv': "builder_inv b'" by (intro builder_inv_kept [OF inv ext]) (simp_all add: b')
  have found: "scan_key (KArray e n) (bd_state b') = Some i"
    unfolding i by (rule scan_key_new [OF inv ext None, of ?node]) (simp_all add: b' push_type_def node_key_def scannable_def)
  show ?thesis
  proof (rule interned_miss [OF inv _ inv' ext])
    show "known b' k' = Some j" if "known b k' = Some j" for k' j
      by (rule known_extends [OF inv ext that]) (auto simp: b' split: type_key.split)
  qed (simp_all add: known_def None found)
qed

lemma never_interns:
  assumes inv: "builder_inv b" and run: "never_type b = (i, b')"
  shows "interned_to b KNever i b'"
proof (cases "known b KNever")
  case (Some j)
  then have b': "b' = b\<lparr>bd_never := Some j\<rparr>" and i: "i = j"
    using run by (auto simp: never_type_def never_scan known_def split: option.splits)
  have key: "key_of (bd_state b) j = Some KNever" using known_reads [OF inv Some] by (simp add: canon_def)
  have inv': "builder_inv b'"
    by (rule builder_inv_kept [OF inv]) (use inv key in \<open>simp_all add: b' builder_inv_def Let_def\<close>)
  have keep: "known b' k' = Some m" if "known b k' = Some m" for k' m
    by (rule known_extends [OF inv _ that]) (auto simp: b' Some split: type_key.split)
  show ?thesis unfolding interned_to_def using inv' keep Some i by (simp add: b')
next
  case None
  have b': "b' = (on_state (push_type TyNever 0) b)\<lparr>bd_never := Some (type_count b)\<rparr>" and i: "i = type_count b"
    and unset: "bd_never b = None"
    using run None by (auto simp: never_type_def never_scan known_def split: option.splits)
  have ext: "extends (bd_state b) (bd_state b')" by (simp add: b' extends_def push_type_def)
  note new = pushed [OF inv _ ext, of "\<lparr>tn_tag = TyNever, tn_data = 0\<rparr>" KNever]
  have types: "types_inv (bd_state b')" and key: "key_of (bd_state b') (type_count b) = Some KNever"
    by (rule new; simp add: b' push_type_def rows_present_def node_key_def)+
  have inv': "builder_inv b'"
    by (rule builder_inv_kept [OF inv ext types]) (use key in \<open>simp_all add: b'\<close>)
  have keep: "known b' k' = Some m" if k: "known b k' = Some m" for k' m
  proof (cases "k' = KNever")
    case True
    then show ?thesis using k None by simp
  next
    case False
    then show ?thesis by (intro known_extends [OF inv ext k]) (auto simp: b' split: type_key.split)
  qed
  show ?thesis unfolding interned_to_def using inv' ext keep None i by (simp add: b' known_def)
qed

lemma error_interns:
  assumes inv: "builder_inv b" and run: "error_type b = (i, b')"
  shows "interned_to b KError i b'"
proof (cases "known b KError")
  case (Some j)
  then have b': "b' = b\<lparr>bd_error := Some j\<rparr>" and i: "i = j"
    using run by (auto simp: error_type_def error_scan known_def split: option.splits)
  have key: "key_of (bd_state b) j = Some KError" using known_reads [OF inv Some] by (simp add: canon_def)
  have inv': "builder_inv b'"
    by (rule builder_inv_kept [OF inv]) (use inv key in \<open>simp_all add: b' builder_inv_def Let_def\<close>)
  have keep: "known b' k' = Some m" if "known b k' = Some m" for k' m
    by (rule known_extends [OF inv _ that]) (auto simp: b' Some split: type_key.split)
  show ?thesis unfolding interned_to_def using inv' keep Some i by (simp add: b')
next
  case None
  have b': "b' = (on_state (push_type TyError 0) b)\<lparr>bd_error := Some (type_count b)\<rparr>" and i: "i = type_count b"
    and unset: "bd_error b = None"
    using run None by (auto simp: error_type_def error_scan known_def split: option.splits)
  have ext: "extends (bd_state b) (bd_state b')" by (simp add: b' extends_def push_type_def)
  note new = pushed [OF inv _ ext, of "\<lparr>tn_tag = TyError, tn_data = 0\<rparr>" KError]
  have types: "types_inv (bd_state b')" and key: "key_of (bd_state b') (type_count b) = Some KError"
    by (rule new; simp add: b' push_type_def rows_present_def node_key_def)+
  have inv': "builder_inv b'"
    by (rule builder_inv_kept [OF inv ext types]) (use key in \<open>simp_all add: b'\<close>)
  have keep: "known b' k' = Some m" if k: "known b k' = Some m" for k' m
  proof (cases "k' = KError")
    case True
    then show ?thesis using k None by simp
  next
    case False
    then show ?thesis by (intro known_extends [OF inv ext k]) (auto simp: b' split: type_key.split)
  qed
  show ?thesis unfolding interned_to_def using inv' ext keep None i by (simp add: b' known_def)
qed

lemma tuple_interns:
  assumes inv: "builder_inv b" and run: "sb_tuple_type r b = (i, b')"
  shows "interned_to b (KTuple r) i b'"
proof (cases "known b (KTuple r)")
  case (Some j)
  then show ?thesis using run inv by (auto simp: sb_tuple_type_def Let_def known_def intro!: interned_hit)
next
  case None
  let ?bucket = "case bd_tuple_by_key b (elements_key r) of None \<Rightarrow> [] | Some is \<Rightarrow> is"
  let ?node = "\<lparr>tn_tag = TyTuple, tn_data = length (st_tuple_types (bd_state b))\<rparr>"
  let ?f = "\<lambda>st. push_type TyTuple (length (st_tuple_types st)) (st\<lparr>st_tuple_types := st_tuple_types st @ [\<lparr>tty_elements = r\<rparr>]\<rparr>)"
  have b': "b' = (on_state ?f b)\<lparr>bd_tuple_by_key := (bd_tuple_by_key b)(elements_key r \<mapsto> ?bucket @ [i])\<rparr>"
    and i: "i = type_count b"
    using run None by (auto simp: sb_tuple_type_def Let_def known_def)
  have ext: "extends (bd_state b) (bd_state b')" by (simp add: b' extends_def push_type_def)
  note new = pushed [OF inv _ ext, of ?node "canon (KTuple r)"]
  have types: "types_inv (bd_state b')" and key: "key_of (bd_state b') i = Some (canon (KTuple r))"
    unfolding i by (rule new; simp add: b' push_type_def rows_present_def node_key_def)+
  then have tup: "is_tuple_idx (bd_state b') i" by (auto simp: is_tuple_idx_def canon_def split: if_splits)
  have "buckets_inv (bd_state b') ((bd_tuple_by_key b)(elements_key r \<mapsto> ?bucket @ [i]))"
    by (rule buckets_inv_push [OF buckets_inv_extends [OF ext inv_tables(3) [OF inv]] tup])
  then have inv': "builder_inv b'" by (intro builder_inv_kept [OF inv ext types]) (simp_all add: b')
  have "find (tuple_matches (bd_state b') r) ?bucket = None"
    using find_tuple_extends [OF ext inv_tables(3) [OF inv], of r "elements_key r"] None by (simp add: known_def)
  then have found: "known b' (KTuple r) = Some i"
    using tuple_matches_key [OF tup] key by (simp add: known_def b' find_append)
  show ?thesis
  proof (rule interned_miss [OF inv None inv' ext found])
    show "known b' k' = Some j" if "known b k' = Some j" for k' j
      by (rule known_extends [OF inv ext that]) (auto simp: b' split: type_key.split)
  qed
qed

lemma intern_key_interns:
  assumes "builder_inv b" "intern_key k b = Some (i, b')"
  shows "interned_to b k i b'"
  using assms(2) pointer_interns [OF assms(1)] const_interns [OF assms(1)] param_interns [OF assms(1)]
    slice_interns [OF assms(1)] array_interns [OF assms(1)] tuple_interns [OF assms(1)]
    never_interns [OF assms(1)] error_interns [OF assms(1)]
  by (cases k) (simp_all add: intern_key_def)


subsection \<open>Every other operation frames the shapes\<close>

lemma frame_same_tables:
  assumes "\<And>st. st_types (f st) = st_types st \<and> st_ref_types (f st) = st_ref_types st \<and> st_const_types (f st) = st_const_types st
    \<and> st_slice_types (f st) = st_slice_types st \<and> st_array_types (f st) = st_array_types st \<and> st_tuple_types (f st) = st_tuple_types st"
  shows "frame b (on_state f b)"
  unfolding frame_def using assms
  by (intro exI [of _ f]) (simp add: extends_def types_inv_def rows_present_def)

lemma frame_push:
  assumes "\<And>st. st_ref_types (g st) = st_ref_types st \<and> st_const_types (g st) = st_const_types st
    \<and> st_slice_types (g st) = st_slice_types st \<and> st_array_types (g st) = st_array_types st
    \<and> st_tuple_types (g st) = st_tuple_types st \<and> st_types (g st) = st_types st"
    "types_inv (bd_state b) \<Longrightarrow> rows_present (bd_state b) \<lparr>tn_tag = tag, tn_data = data (bd_state b)\<rparr>"
  shows "frame b (on_state (\<lambda>st. push_type tag (data st) (g st)) b)"
  unfolding frame_def using assms
  by (intro exI [of _ "\<lambda>st. push_type tag (data st) (g st)"]) (auto simp: extends_def push_type_def types_inv_def rows_present_def)

lemma row_mem: "row xs i = Some x \<Longrightarrow> x \<in> set xs"
  by auto

lemma step_cases:
  assumes "builder_step b b'"
  shows "(\<exists>k i. intern_key k b = Some (i, b')) \<or> frame b b'"
  using assms
proof cases
  case (Copy_Node idx i)
  then obtain node where node: "row (st_types (bd_state b)) idx = Some node"
    "b' = on_state (push_type (tn_tag node) (tn_data node)) b" by (auto simp: sb_ref_type_def bind_eq_Some_conv)
  have "frame b (on_state (\<lambda>st. push_type (tn_tag node) (tn_data node) st) b)"
    by (rule frame_push) (use row_mem [OF node(1)] in \<open>auto simp: types_inv_def rows_present_def\<close>)
  then show ?thesis using node(2) by simp
next
  case Struct_Type
  then show ?thesis unfolding sb_struct_type_def snd_conv by (intro disjI2) (auto simp: rows_present_def intro!: frame_push)
next
  case Reserve_Struct
  then show ?thesis unfolding reserve_struct_def snd_conv by (intro disjI2) (auto simp: rows_present_def intro!: frame_push)
next
  case Func_Type
  then show ?thesis unfolding sb_func_type_def snd_conv by (intro disjI2) (auto simp: rows_present_def intro!: frame_push)
next
  case Enum_Type
  then show ?thesis unfolding sb_enum_type_def snd_conv by (intro disjI2) (auto simp: rows_present_def intro!: frame_push)
next
  case Reserve_Enum
  then show ?thesis unfolding reserve_enum_def snd_conv by (intro disjI2) (auto simp: rows_present_def intro!: frame_push)
qed (auto simp: fill_struct_def fill_enum_def enum_variant_def sb_function_def sb_block_def set_block_instrs_def
    set_block_params_def sb_block_param_def sb_instr_def sb_immutable_def sb_reg_def sb_external_function_def
    sb_operand_def sb_functions_def sb_blocks_def sb_block_params_def sb_instrs_def sb_immutables_def sb_registers_def
    sb_external_functions_def sb_operands_def bind_eq_Some_conv split: if_splits intro: frame_same_tables)

lemma step_facts:
  assumes "builder_inv b" "builder_step b b'"
  shows "builder_inv b' \<and> extends (bd_state b) (bd_state b') \<and> (\<forall>k i. known b k = Some i \<longrightarrow> known b' k = Some i)"
  using step_cases [OF assms(2)]
proof
  assume "\<exists>k i. intern_key k b = Some (i, b')"
  then obtain k i where "intern_key k b = Some (i, b')" by blast
  from intern_key_interns [OF assms(1) this] show ?thesis by (simp add: interned_to_def)
next
  assume f: "frame b b'"
  then have "extends (bd_state b) (bd_state b')" by (auto simp: frame_def)
  then show ?thesis using frame_inv [OF assms(1) f] known_frame [OF assms(1) f] by simp
qed

lemma step_inv: "builder_inv b \<Longrightarrow> builder_step b b' \<Longrightarrow> builder_inv b'"
  using step_facts by blast

lemma step_known: "builder_inv b \<Longrightarrow> builder_step b b' \<Longrightarrow> known b k = Some i \<Longrightarrow> known b' k = Some i"
  using step_facts by blast

lemma step_extends: "builder_inv b \<Longrightarrow> builder_step b b' \<Longrightarrow> extends (bd_state b) (bd_state b')"
  using step_facts by blast

lemma canon_known: "canon k = canon k' \<Longrightarrow> known b k = known b k'"
proof (cases "\<exists>r r'. k = KTuple r \<and> k' = KTuple r' \<and> rg_size r = 0 \<and> rg_size r' = 0")
  case True
  then obtain r r' where r: "k = KTuple r" "k' = KTuple r'" "rg_size r = 0" "rg_size r' = 0" by blast
  moreover have "tuple_matches (bd_state b) r = tuple_matches (bd_state b) r'"
    by (rule ext) (simp add: tuple_matches_def r(3,4) split: option.split)
  moreover have "elements_key r = elements_key r'" by (simp add: elements_key_def range_list_def r(3,4))
  ultimately show ?thesis by (simp add: known_def)
next
  case False
  assume "canon k = canon k'"
  then have "k = k'" using False by (cases k; cases k') (auto simp: canon_def no_range_def split: if_splits)
  then show ?thesis by simp
qed

interpretation types: interner intern_key known "\<lambda>b. key_of (bd_state b)" canon builder_step builder_inv
proof
  fix b k i j b' assume "builder_inv b" "known b k = Some i" "intern_key k b = Some (j, b')"
  then show "j = i" using intern_key_interns [of b k j b'] by (auto simp: interned_to_def)
next
  fix b k i b' assume "builder_inv b" "intern_key k b = Some (i, b')"
  then show "builder_inv b' \<and> known b' k = Some i" using intern_key_interns [of b k i b'] by (auto simp: interned_to_def)
next
  fix b k i assume "builder_inv b" "known b k = Some i"
  then show "key_of (bd_state b) i = Some (canon k)" by (rule known_reads)
next
  fix b b' assume "builder_inv b" "builder_step b b'"
  then show "builder_inv b'" by (rule step_inv)
next
  fix b b' k i assume "builder_inv b" "builder_step b b'" "known b k = Some i"
  then show "known b' k = Some i" by (rule step_known)
next
  fix b b' i c assume "builder_inv b" "builder_step b b'" "key_of (bd_state b) i = Some c"
  then show "key_of (bd_state b') i = Some c" using key_of_extends [OF step_extends [of b b']] by simp
next
  fix k b i b' assume "intern_key k b = Some (i, b')"
  then show "builder_step b b'" by (rule builder_step.Intern)
next
  fix k k' b assume "canon k = canon k'"
  then show "known b k = known b k'" by (rule canon_known)
qed


subsection \<open>A builder over existing tables\<close>

lemma index_one_state [simp]: "bd_state (index_one idx b) = bd_state b"
  by (simp add: index_one_def Let_def set_pointer_table_def split: option.split)

lemma fold_index_state [simp]: "bd_state (fold index_one js b) = bd_state b"
  by (induction js arbitrary: b) simp_all

lemma index_one_tables [simp]:
  "bd_const_by_value (index_one idx b) = bd_const_by_value b" "bd_tuple_by_key (index_one idx b) = bd_tuple_by_key b"
  "bd_never (index_one idx b) = bd_never b" "bd_error (index_one idx b) = bd_error b"
  by (simp_all add: index_one_def Let_def set_pointer_table_def split: option.split)

lemma fold_index_tables [simp]:
  "bd_const_by_value (fold index_one js b) = bd_const_by_value b" "bd_tuple_by_key (fold index_one js b) = bd_tuple_by_key b"
  "bd_never (fold index_one js b) = bd_never b" "bd_error (fold index_one js b) = bd_error b"
  by (induction js arbitrary: b) simp_all

definition pointer_tag :: "type_tag \<Rightarrow> bool" where
  "pointer_tag tag \<longleftrightarrow> tag \<in> {TyRef, TyMutRef, TyRawPtr, TyRawMutPtr}"

definition indexed :: "type_key \<Rightarrow> bool" where
  "indexed k \<longleftrightarrow> (case k of KPointer tag _ \<Rightarrow> pointer_tag tag | KParam _ \<Rightarrow> True | _ \<Rightarrow> False)"

lemma index_one_known:
  assumes "indexed k"
  shows "known (index_one idx b) k =
    (case known b k of
       Some i \<Rightarrow> Some i
     | None \<Rightarrow> if node_key (bd_state b) (st_types (bd_state b) ! idx) = Some k then Some idx else None)"
  using assms
  by (cases "tn_tag (st_types (bd_state b) ! idx)"; cases k)
    (auto simp: indexed_def pointer_tag_def index_one_def Let_def known_def pointer_table_def set_pointer_table_def
      node_key_def emplace_def canon_def row_def split: option.split)

lemma fold_index_known:
  "indexed k \<Longrightarrow> known (fold index_one js b) k =
     (case known b k of
        Some i \<Rightarrow> Some i
      | None \<Rightarrow> find (\<lambda>j. node_key (bd_state b) (st_types (bd_state b) ! j) = Some k) js)"
  by (induction js arbitrary: b) (auto simp: index_one_known split: option.split)


lemma builder_from_known:
  "known (builder_from st) k =
     (case k of
        KConst _ \<Rightarrow> None
      | KTuple _ \<Rightarrow> None
      | KPointer tag _ \<Rightarrow> if pointer_tag tag then scan_key k st else None
      | _ \<Rightarrow> scan_key k st)"
proof -
  let ?b = "(no_builder st)\<lparr>bd_ref_by_pointee := Map.empty, bd_mut_ref_by_pointee := Map.empty,
    bd_raw_ptr_by_pointee := Map.empty, bd_raw_mut_ptr_by_pointee := Map.empty, bd_param_by_index := Map.empty\<rparr>"
  have from_fold: "builder_from st = fold index_one [PRIMITIVE_TYPE_COUNT + 1..<length (st_types st)] ?b"
    by (simp add: builder_from_def index_interned_def type_count_def no_builder_def)
  have state: "bd_state ?b = st" by (simp add: no_builder_def)
  show ?thesis
  proof (cases "indexed k")
    case True
    then have "known ?b k = None" by (cases k) (auto simp: indexed_def known_def pointer_table_def no_builder_def)
    then have "known (builder_from st) k = scan_key k st"
      unfolding from_fold fold_index_known [OF True] state by (simp add: scan_key_def scan_types_def)
    then show ?thesis using True by (cases k) (auto simp: indexed_def)
  next
    case False
    then show ?thesis unfolding from_fold
      by (cases k) (auto simp: indexed_def pointer_tag_def known_def pointer_table_def no_builder_def)
  qed
qed

lemma known_from_reads:
  assumes "known (builder_from st) k = Some i"
  shows "key_of st i = Some k"
proof -
  have "scan_key k st = Some i"
    using assms builder_from_known [of st k] by (simp split: type_key.splits if_splits)
  then show ?thesis by (rule scan_key_reads)
qed


lemma builder_from_state [simp]: "bd_state (builder_from st) = st"
  by (simp add: builder_from_def index_interned_def no_builder_def)

lemma builder_from_tables:
  "bd_tuple_by_key (builder_from st) = Map.empty" "bd_const_by_value (builder_from st) = Map.empty"
  "bd_never (builder_from st) = None" "bd_error (builder_from st) = None"
  by (simp_all add: builder_from_def index_interned_def no_builder_def)

lemma builder_from_inv:
  assumes "types_inv st"
  shows "builder_inv (builder_from st)"
  unfolding builder_inv_def Let_def builder_from_state
proof (intro conjI)
  let ?b = "builder_from st"
  note reads = known_from_reads [of st]
  show "types_inv st" by (rule assms)
  show "map_inv st (bd_ref_by_pointee ?b) (KPointer TyRef)"
    using reads [of "KPointer TyRef x" for x] by (simp add: map_inv_def known_def pointer_table_def)
  show "map_inv st (bd_mut_ref_by_pointee ?b) (KPointer TyMutRef)"
    using reads [of "KPointer TyMutRef x" for x] by (simp add: map_inv_def known_def pointer_table_def)
  show "map_inv st (bd_raw_ptr_by_pointee ?b) (KPointer TyRawPtr)"
    using reads [of "KPointer TyRawPtr x" for x] by (simp add: map_inv_def known_def pointer_table_def)
  show "map_inv st (bd_raw_mut_ptr_by_pointee ?b) (KPointer TyRawMutPtr)"
    using reads [of "KPointer TyRawMutPtr x" for x] by (simp add: map_inv_def known_def pointer_table_def)
  show "map_inv st (bd_param_by_index ?b) KParam"
    using reads [of "KParam x" for x] by (simp add: map_inv_def known_def)
qed (simp_all add: builder_from_tables map_inv_def buckets_inv_def idx_inv_def)

lemma new_builder_types: "st_types (bd_state new_builder) = map plain_node
    [TyVoid, TyI1, TyI8, TyI16, TyI32, TyI64, TyU8, TyU16, TyU32, TyU64, TyF32, TyF64, TyStr, TyPtr, TyRef,
     TyMutRef, TyRawPtr, TyRawMutPtr, TyFunction]"
  by (simp add: new_builder_def intern_primitives_def on_state_def no_builder_def empty_state_def upt_rec ALL_TAGS_def)

lemma new_builder_inv: "builder_inv new_builder"
proof -
  have "types_inv (bd_state new_builder)"
    by (simp add: types_inv_def new_builder_types rows_present_def plain_node_def)
  then show ?thesis
    unfolding builder_inv_def Let_def
    by (simp add: new_builder_def intern_primitives_def no_builder_def map_inv_def buckets_inv_def idx_inv_def)
qed

subsection \<open>Properties\<close>

text \<open>How a builder starts: empty, or over tables whose slices and arrays have their rows.\<close>

definition fresh_builder :: "storage_builder \<Rightarrow> bool" where
  "fresh_builder b \<longleftrightarrow> b = new_builder \<or> (\<exists>st. types_inv st \<and> b = builder_from st)"

text \<open>Replacing the table of a builder that has interned nothing is starting from that table.\<close>

lemma parameter_types_starts:
  "parameter_types types new_builder = builder_from ((bd_state new_builder)\<lparr>st_types := types\<rparr>)"
  by (simp add: parameter_types_def builder_from_def new_builder_def intern_primitives_def on_state_def no_builder_def)

text \<open>After a replacement on a used builder, never, error, tuples and compile-time values answer rows of the table that is gone.\<close>

lemma index_one_keeps:
  "bd_never (index_one i b) = bd_never b" "bd_error (index_one i b) = bd_error b" "bd_tuple_by_key (index_one i b) = bd_tuple_by_key b"
  "bd_const_by_value (index_one i b) = bd_const_by_value b"
  by (auto simp: index_one_def Let_def set_pointer_table_def split: option.split)

lemma replaced_table_is_stale:
  "bd_never b = Some i \<Longrightarrow> known (parameter_types types b) KNever = Some i"
  "bd_error b = Some i \<Longrightarrow> known (parameter_types types b) KError = Some i"
  "known (parameter_types types b) (KConst v) = known b (KConst v)"
proof -
  have "bd_never (fold index_one is c) = bd_never c \<and> bd_error (fold index_one is c) = bd_error c
      \<and> bd_const_by_value (fold index_one is c) = bd_const_by_value c" for "is" c
    by (induction "is" arbitrary: c) (simp_all add: index_one_keeps)
  then show "bd_never b = Some i \<Longrightarrow> known (parameter_types types b) KNever = Some i"
    "bd_error b = Some i \<Longrightarrow> known (parameter_types types b) KError = Some i"
    "known (parameter_types types b) (KConst v) = known b (KConst v)"
    by (simp_all add: known_def parameter_types_def index_interned_def on_state_def)
qed

lemma reachable_inv: "fresh_builder b0 \<Longrightarrow> builder_step\<^sup>*\<^sup>* b0 b \<Longrightarrow> builder_inv b"
  using types.later_inv builder_from_inv new_builder_inv by (auto simp: fresh_builder_def)



text \<open>
  A builder made over existing tables answers a pointer, a parameter, a slice, an array, the never and
  the error type with the first node of that shape, as a scan of the table would; it has no answer for
  any compile-time value and any tuple, whatever the table holds.
\<close>

theorem reseeded_builder_knows:
  "known (builder_from st) k =
     (case k of
        KConst _ \<Rightarrow> None
      | KTuple _ \<Rightarrow> None
      | KPointer tag _ \<Rightarrow> if pointer_tag tag then scan_key k st else None
      | _ \<Rightarrow> scan_key k st)"
  by (rule builder_from_known)

text \<open>
  A compile-time value interned before the tables change hands is interned again afterwards: when a
  builder has an index for a value, a builder made from its tables gives the same value another
  index, while both nodes carry the value.
\<close>

theorem reseeded_const_duplicated:
  assumes "fresh_builder b0" "builder_step\<^sup>*\<^sup>* b0 b" "known b (KConst v) = Some i"
  shows "\<exists>j b'. intern_key (KConst v) (builder_from (take_state b)) = Some (j, b') \<and> j \<noteq> i
    \<and> key_of (bd_state b') i = Some (KConst v) \<and> key_of (bd_state b') j = Some (KConst v)"
proof -
  have inv: "builder_inv b" by (rule reachable_inv [OF assms(1,2)])
  let ?r = "builder_from (take_state b)"
  have inv': "builder_inv ?r" using inv by (intro builder_from_inv) (simp add: take_state_def builder_inv_def Let_def)
  have i: "key_of (bd_state b) i = Some (KConst v)" using known_reads [OF inv assms(3)] by (simp add: canon_def)
  then have "i < type_count b" by (auto simp: key_of_def type_count_def bind_eq_Some_conv split: if_splits)
  moreover obtain j b' where run: "sb_const_type v ?r = (j, b')" by fastforce
  moreover have "j = type_count b"
    using run by (auto simp: sb_const_type_def builder_from_tables type_count_def take_state_def)
  moreover have "interned_to ?r (KConst v) j b'" by (rule const_interns [OF inv' run])
  moreover from this have "key_of (bd_state b') j = Some (KConst v)" "key_of (bd_state b') i = Some (KConst v)"
    using known_reads [of b' "KConst v" j] key_of_extends [of "bd_state b" "bd_state b'" i] i
    by (auto simp: interned_to_def canon_def take_state_def)
  ultimately show ?thesis by (auto simp: intern_key_def)
qed

theorem reseeded_const_duplicated_witness:
  "\<exists>j b'. intern_key (KConst 7) (builder_from (take_state (snd (sb_const_type 7 new_builder)))) = Some (j, b')
    \<and> j \<noteq> 19 \<and> key_of (bd_state b') 19 = Some (KConst 7) \<and> key_of (bd_state b') j = Some (KConst 7)"
proof (rule reseeded_const_duplicated)
  show "fresh_builder new_builder" by (simp add: fresh_builder_def)
  show "builder_step\<^sup>*\<^sup>* new_builder (snd (sb_const_type 7 new_builder))"
    by (rule r_into_rtranclp, rule builder_step.Intern [of "KConst 7"]) (simp add: intern_key_def prod_eq_iff)
  have "type_count new_builder = 19" by (simp add: type_count_def new_builder_types)
  then show "known (snd (sb_const_type 7 new_builder)) (KConst 7) = Some 19"
    by (simp add: known_def sb_const_type_def new_builder_def intern_primitives_def no_builder_def)
qed

end
