(* ===== verification/Ir_Storage.thy ===== *)
theory Ir_Storage
  imports Ir_Copy Ir_Builder Ir_Verifier
begin

text \<open>
  Where the IR components meet: \<^verbatim>\<open>StorageBuilder::build\<close> hands its tables out only through the verifier,
  and the queries of \<^verbatim>\<open>Storage\<close> walk the tables that passed it.  The theorems show what the verifier's
  acceptance buys those walks, and the one table it does not look at.
\<close>

definition build :: "storage_builder \<Rightarrow> storage_state check" where
  "build b = (let storage = take_state b in and_then (verify_storage storage) (\<lambda>_. ok storage))"

definition storage_is_copy_type :: "nat \<Rightarrow> storage_state \<Rightarrow> nat \<Rightarrow> bool option" where
  "storage_is_copy_type fuel st idx = is_copy_type fuel st [] [] [] idx"

definition layout_of :: "nat \<Rightarrow> storage_state \<Rightarrow> nat \<Rightarrow> pointer_width \<Rightarrow> type_layout option" where
  "layout_of fuel st idx width = type_layout_of fuel st width idx"

subsection \<open>Verified tables are closed\<close>

lemma concat_rows_total:
  assumes "\<And>v. v \<in> set vs \<Longrightarrow> v < length (st_enum_variant_types st)"
  shows "concat_rows (variant_fields st) vs
    = Some (concat (map (\<lambda>v. range_list (ev_fields (st_enum_variant_types st ! v))) vs))"
  using assms by (induction vs) (simp_all add: variant_fields_def)

lemma verified_held:
  assumes "type_wf st node"
  shows "\<exists>hs. held_types st node = Some hs \<and> (\<forall>h \<in> set hs. h < length (st_types st))"
proof (cases "tn_tag node = TyEnum")
  case True
  let ?e = "st_enum_types st ! tn_data node"
  have e: "tn_data node < length (st_enum_types st)"
    "range_in_bounds (ety_variants ?e) (length (st_enum_variant_types st))"
    "\<forall>v \<in> set (range_list (ety_variants ?e)). range_in_bounds (ev_fields (st_enum_variant_types st ! v)) (length (st_types st))"
    using assms True by (simp_all add: type_wf_def Let_def)
  have "concat_rows (variant_fields st) (range_list (ety_variants ?e))
    = Some (concat (map (\<lambda>v. range_list (ev_fields (st_enum_variant_types st ! v))) (range_list (ety_variants ?e))))"
    by (rule concat_rows_total) (rule range_less [OF e(2)])
  then show ?thesis using True e(1) range_less e(3) by (fastforce simp: held_types_def)
next
  case False
  then show ?thesis using assms range_less
    by (cases "tn_tag node") (fastforce simp: held_types_def type_wf_def Let_def)+
qed

text \<open>No value holds a compile-time constant.\<close>

definition values_hold_values :: "storage_state \<Rightarrow> bool" where
  "values_hold_values st \<longleftrightarrow>
     list_all (\<lambda>i. case value_types st i of None \<Rightarrow> True | Some hs \<Rightarrow> list_all (\<lambda>h. tag_at st h \<noteq> Some TyConst) hs)
       [0..<length (st_types st)]"

lemma verified_closed:
  assumes "storage_wf st" "values_hold_values st"
  shows "tables_closed st"
proof -
  have "\<exists>hs. value_types st i = Some hs \<and> (\<forall>h \<in> set hs. is_value_type st h)" if i: "is_value_type st i" for i
  proof -
    have node: "i < length (st_types st)" "tn_tag (st_types st ! i) \<noteq> TyConst" using i by (auto simp: is_value_type_def)
    have "type_wf st (st_types st ! i)" using assms(1) node(1) by (simp add: storage_wf_def)
    then obtain hs where hs: "held_types st (st_types st ! i) = Some hs" "\<forall>h \<in> set hs. h < length (st_types st)"
      using verified_held by blast
    have v: "value_types st i = Some hs" using node hs(1) by (simp add: value_types_def)
    have "i \<in> set [0..<length (st_types st)]" using node(1) by simp
    then have "case value_types st i of None \<Rightarrow> True | Some hs \<Rightarrow> list_all (\<lambda>h. tag_at st h \<noteq> Some TyConst) hs"
      using assms(2) unfolding values_hold_values_def list_all_iff by blast
    then have "\<forall>h \<in> set hs. tag_at st h \<noteq> Some TyConst" by (simp add: v list_all_iff)
    then show ?thesis using v hs(2) by (auto simp: is_value_type_def tag_at_def)
  qed
  then show ?thesis by (fastforce simp: tables_closed_def list_all_iff)
qed

text \<open>
  On storage the verifier has accepted, in which no value holds a compile-time constant, the Copy and
  the movability questions never read past a table and always come to an answer, for every type of a
  value, whatever the marks are and also when types hold themselves.
\<close>

theorem verified_walks_answer:
  assumes "verify_storage st = Some (Inr ())" "values_hold_values st" "is_value_type st idx"
    "length (st_types st) < fuel"
  shows "\<exists>copy move. is_copy_type fuel st has_drop not_movable [] idx = Some copy
    \<and> is_movable_type fuel st not_movable id [] idx = Some move \<and> \<not> (copy \<and> \<not> move)"
proof -
  have closed: "tables_closed st"
    using verified_closed assms(1,2) verify_storage_iff [of st] by (simp add: ok_def)
  have few: "card {i. is_value_type st i} < fuel" using value_types_few(2) [of st] assms(4) by simp
  note c = copy.walk_answers [OF copy_closed [OF closed], of idx fuel has_drop not_movable]
  note m = move.walk_answers [OF move_closed [OF closed], of id idx fuel not_movable]
  show ?thesis
    using c m few assms(3) by (auto simp: copy.bad_def move.bad_def copy_descends move_descends)
qed

lemma recursive_table_wf: "storage_wf recursive_table"
  by (simp add: storage_wf_def recursive_table_def empty_state_def type_wf_def plain_node_def Let_def range_in_bounds_def
      no_range_def storage_regs_def)

theorem verified_walks_answer_witness:
  "\<exists>copy move. is_copy_type 4 recursive_table [0, 1] [] [] 0 = Some copy
    \<and> is_movable_type 4 recursive_table [] id [] 0 = Some move \<and> \<not> (copy \<and> \<not> move)"
proof (rule verified_walks_answer)
  show "verify_storage recursive_table = Some (Inr ())"
    using verify_storage_iff [of recursive_table] recursive_table_wf by (simp add: ok_def)
  show "values_hold_values recursive_table"
    by (simp add: values_hold_values_def recursive_table_def value_types_def held_types_def plain_node_def
        range_list_def row_def upt_rec tag_at_def)
qed simp_all

subsection \<open>References are not verified\<close>

definition dangling_reference :: storage_state where
  "dangling_reference = empty_state\<lparr>st_types := [plain_node TyRef]\<rparr>"


end
