(* ===== verification/Opt_Storage.thy ===== *)
theory Opt_Storage
  imports Opt Ir_Storage "HOL-Library.Sublist"
begin

text \<open>
  \<^verbatim>\<open>optimize\<close> of \<^verbatim>\<open>src/src/opt/opt.cc\<close>, which takes verified storage apart, runs the passes and builds verified
  storage again.  The theorem shows that the second verification never fails.
\<close>

definition optimize :: "storage_state \<Rightarrow> storage_state check" where
  "optimize st = do {
     checks \<leftarrow> checked_instructions st;
     (st1, checks1) \<leftarrow> fold_and_propagate st checks;
     st2 \<leftarrow> eliminate_dead checks1 st1;
     build (builder_from st2)
   }"

subsection \<open>What the passes rely on beyond verification\<close>

text \<open>
  Every instruction of the table belongs to a block, the defining instruction of a register exists, and
  the place that an address computation or a borrow starts from is not the result of an arithmetic
  operation or a select.  The builder of the lowering keeps all three; the verifier looks at none.
\<close>

definition in_some_block :: "storage_state \<Rightarrow> nat \<Rightarrow> bool" where
  "in_some_block st i \<longleftrightarrow> list_ex (\<lambda>b. i \<in> set (range_list (bl_instrs b))) (st_blocks st)"

definition foldable :: "instruction \<Rightarrow> bool" where
  "foldable instr \<longleftrightarrow> in_op instr = OpSelect \<or> op_meaning (in_op instr) TyI64 0 1 \<noteq> None"

definition place_stands :: "storage_state \<Rightarrow> instruction \<Rightarrow> bool" where
  "place_stands st instr \<longleftrightarrow>
     (shape_of (in_op instr) \<in> {ShGetElementPtr, ShElemOffset, ShBorrow} \<longrightarrow>
        (case opd_data (nth_operand st instr 0) of
           OpdRegister r \<Rightarrow> list_all (\<lambda>j. in_dst j = Some r \<longrightarrow> \<not> foldable j) (st_instrs st)
         | _ \<Rightarrow> True))"

definition lowered :: "storage_state \<Rightarrow> bool" where
  "lowered st \<longleftrightarrow>
     list_all (in_some_block st) [0..<length (st_instrs st)] \<and>
     list_all (\<lambda>r. case rg_def r of None \<Rightarrow> True | Some d \<Rightarrow> d < length (st_instrs st)) (st_registers st) \<and>
     list_all (place_stands st) (st_instrs st)"


subsection \<open>Reads of well-formed instructions\<close>

lemma table_instr_wf:
  assumes "storage_wf st" "lowered st" "i < length (st_instrs st)"
  shows "instr_wf st (st_instrs st ! i)" "in_dst (st_instrs st ! i) = Some d \<Longrightarrow> d < length (st_registers st)"
proof -
  obtain b where b: "b \<in> set (st_blocks st)" "i \<in> set (range_list (bl_instrs b))"
    using assms(2,3) unfolding lowered_def in_some_block_def list_all_iff list_ex_iff set_upt by fastforce
  have r: "st_instrs st ! i \<in> set (rows (st_instrs st) (bl_instrs b))" using b(2) by (auto simp: rows_def)
  show "instr_wf st (st_instrs st ! i)" using assms(1) b(1) r by (auto simp: storage_wf_def block_wf_def Let_def)
  assume "in_dst (st_instrs st ! i) = Some d"
  then have "d \<in> set (block_regs st b)" using r by (auto simp: block_regs_def intro!: bexI [of _ "st_instrs st ! i"])
  then show "d < length (st_registers st)" using assms(1) b(1) by (auto simp: storage_wf_def block_bounds_def)
qed

lemma operand_reads:
  assumes "instr_wf st instr" "k < operand_count instr"
  shows "range_at (in_operands instr) k < length (st_operands st)" "operand_at st instr k = Some (nth_operand st instr k)"
    "operand_wf st (nth_operand st instr k)"
proof -
  show r: "range_at (in_operands instr) k < length (st_operands st)"
    using assms by (auto simp: instr_wf_def range_in_bounds_def range_at_def operand_count_def)
  then show "operand_at st instr k = Some (nth_operand st instr k)" by (simp add: operand_at_def)
  have "nth_operand st instr k \<in> set (rows (st_operands st) (in_operands instr))"
    using assms(2) by (auto simp: rows_def range_list_def range_at_def operand_count_def)
  then show "operand_wf st (nth_operand st instr k)" using assms(1) by (auto simp: instr_wf_def Let_def list_all_iff)
qed

lemma integer_constant_total:
  assumes "oidx < length (st_operands st)" "operand_wf st (st_operands st ! oidx)"
  shows "\<exists>c. integer_constant st oidx = Some c"
  using assms by (auto simp: integer_constant_def operand_wf_def tag_at_def split: operand_data.splits)

lemma defining_instr_total:
  assumes "lowered st" "oidx < length (st_operands st)" "operand_wf st (st_operands st ! oidx)"
  shows "\<exists>c. defining_instr st oidx = Some c \<and> (\<forall>j. c = Some j \<longrightarrow> j \<in> set (st_instrs st))"
  using assms
  by (auto simp: defining_instr_def operand_wf_def lowered_def list_all_iff bind_eq_Some_conv
      split: operand_data.splits option.splits) (metis nth_mem option.inject option.simps(5))


lemma mem_instr_wf: "storage_wf st \<Longrightarrow> lowered st \<Longrightarrow> j \<in> set (st_instrs st) \<Longrightarrow> instr_wf st j"
  by (metis in_set_conv_nth table_instr_wf(1))

lemma arity_two:
  assumes "instr_wf st instr"
  shows "op_meaning (in_op instr) TyI64 0 1 \<noteq> None \<Longrightarrow> in_op instr \<noteq> OpNot \<Longrightarrow> operand_count instr = 2"
    "in_op instr = OpSelect \<Longrightarrow> operand_count instr = 3" "in_op instr = OpNot \<Longrightarrow> operand_count instr = 1"
  using assms
  by (auto simp: instr_wf_def arity_wf_def operand_arity_def operand_count_def Let_def op_meaning_def split: if_splits)

lemma first_tag_total: "instr_wf st instr \<Longrightarrow> 0 < operand_count instr \<Longrightarrow> \<exists>tag. first_operand_tag st instr = Some tag"
  using operand_reads [of st instr 0] by (auto simp: first_operand_tag_def tag_at_def operand_wf_def)

lemma raw_operand_total:
  assumes w: "storage_wf st" "lowered st" "instr_wf st instr" "operand_count instr = 2"
  shows "\<exists>o'. raw_shift_count st instr = Some o' \<and> o' < length (st_operands st) \<and> operand_wf st (st_operands st ! o')"
    "\<exists>o'. raw_divisor st instr = Some o' \<and> o' < length (st_operands st) \<and> operand_wf st (st_operands st ! o')"
proof -
  let ?a = "range_at (in_operands instr) 1"
  have a: "?a < length (st_operands st)" "operand_wf st (st_operands st ! ?a)" using operand_reads [OF w(3), of 1] w(4) by auto
  obtain c where c: "defining_instr st ?a = Some c" "\<And>j. c = Some j \<Longrightarrow> j \<in> set (st_instrs st)"
    using defining_instr_total [OF w(2) a] by blast
  have j: "instr_wf st j" if "c = Some j" for j using mem_instr_wf [OF w(1,2)] c(2) that by blast
  show "\<exists>o'. raw_divisor st instr = Some o' \<and> o' < length (st_operands st) \<and> operand_wf st (st_operands st ! o')"
    using a c(1) operand_reads(1,3) [OF j, of _ 2] by (cases c) (auto simp: raw_divisor_def Let_def)
  show "\<exists>o'. raw_shift_count st instr = Some o' \<and> o' < length (st_operands st) \<and> operand_wf st (st_operands st ! o')"
  proof (cases "\<exists>m. c = Some m \<and> in_op m = OpAnd \<and> operand_count m = 2")
    case True
    then obtain m where m: "c = Some m" "in_op m = OpAnd" "operand_count m = 2" by blast
    note o0 = operand_reads [OF j [OF m(1)], of 0] and o1 = operand_reads [OF j [OF m(1)], of 1]
    obtain k where k: "integer_constant st (range_at (in_operands m) 1) = Some k"
      using integer_constant_total o1 m(3) by (metis one_less_numeral_iff semiring_norm(76))
    obtain tag where "first_operand_tag st instr = Some tag" using first_tag_total [OF w(3)] w(4) by auto
    then show ?thesis using a c(1) m k o0 by (cases k) (auto simp: raw_shift_count_def Let_def)
  next
    case False
    then show ?thesis using a c(1) by (cases c) (auto simp: raw_shift_count_def Let_def)
  qed
qed

lemma entry_total:
  assumes w: "storage_wf st" "lowered st" "instr_wf st instr"
  shows "\<exists>e. checked_entry st instr = Some e \<and> (en_kind e \<noteq> CheckNone \<longrightarrow> operand_count instr = 2) \<and>
    (en_kind e \<in> {CheckShiftRange, CheckMinOverOne} \<longrightarrow>
      (\<exists>o'. en_operand e = Some o' \<and> o' < length (st_operands st) \<and> operand_wf st (st_operands st ! o')))"
proof (cases "in_op instr \<in> {OpIntAdd, OpIntSub, OpIntMul, OpShiftLeft, OpArithmeticShiftRight, OpLogicalShiftRight, OpIntDiv}")
  case True
  then have two: "operand_count instr = 2" by (intro arity_two(1) [OF w(3)]) (auto simp: op_meaning_def)
  obtain tag where tag: "first_operand_tag st instr = Some tag" using first_tag_total [OF w(3)] two by auto
  obtain o1 where o1: "raw_shift_count st instr = Some o1" "o1 < length (st_operands st)" "operand_wf st (st_operands st ! o1)"
    using raw_operand_total(1) [OF w two] by blast
  obtain o2 where o2: "raw_divisor st instr = Some o2" "o2 < length (st_operands st)" "operand_wf st (st_operands st ! o2)"
    using raw_operand_total(2) [OF w two] by blast
  show ?thesis using True two tag o1 o2 by (auto simp: checked_entry_def blank_entry_def)
qed (auto simp: checked_entry_def blank_entry_def)

lemma aborts_total:
  assumes w: "instr_wf st instr" and two: "en_kind e \<noteq> CheckNone \<longrightarrow> operand_count instr = 2"
    and op: "en_kind e \<in> {CheckShiftRange, CheckMinOverOne} \<longrightarrow>
      (\<exists>o'. en_operand e = Some o' \<and> o' < length (st_operands st) \<and> operand_wf st (st_operands st ! o'))"
  shows "\<exists>b. aborts st instr e = Some b"
proof (cases "en_kind e = CheckNone")
  case False
  then have two: "operand_count instr = 2" using two by blast
  obtain tag where tag: "first_operand_tag st instr = Some tag" using first_tag_total [OF w] two by auto
  obtain l where l: "integer_constant st (range_at (in_operands instr) 0) = Some l"
    using integer_constant_total [OF operand_reads(1,3) [OF w, of 0]] two by auto
  obtain r where r: "integer_constant st (range_at (in_operands instr) 1) = Some r"
    using integer_constant_total [OF operand_reads(1,3) [OF w, of 1]] two by auto
  have c: "\<exists>k. entry_constant st e = Some k" if "en_kind e \<in> {CheckShiftRange, CheckMinOverOne}"
    using op that integer_constant_total by (auto simp: entry_constant_def)
  show ?thesis
  proof (cases "en_kind e")
    case CheckOverflow
    then show ?thesis using tag l r by (cases l; cases r) (auto simp: aborts_def)
  next
    case CheckShiftRange
    then obtain k where "entry_constant st e = Some k" using c by auto
    then show ?thesis using tag CheckShiftRange by (cases k) (auto simp: aborts_def)
  next
    case CheckMinOverOne
    then obtain k where "entry_constant st e = Some k" using c by auto
    then show ?thesis using tag l CheckMinOverOne by (cases k; cases l) (auto simp: aborts_def)
  qed (use False in simp)
qed (auto simp: aborts_def)

definition checks_sized :: "storage_state \<Rightarrow> checks \<Rightarrow> bool" where
  "checks_sized st c \<longleftrightarrow> length (ck_kinds c) = length (st_instrs st) \<and> length (ck_raw c) = length (st_instrs st)"

lemma check_one_total:
  assumes w: "storage_wf st" "lowered st" and i: "i < length (st_instrs st)" and c: "checks_sized st c"
  shows "\<exists>c'. check_one st i c = Some c' \<and> checks_sized st c'"
proof -
  let ?instr = "st_instrs st ! i"
  have wi: "instr_wf st ?instr" by (rule table_instr_wf(1) [OF w i])
  obtain e where e: "checked_entry st ?instr = Some e" "en_kind e \<noteq> CheckNone \<longrightarrow> operand_count ?instr = 2"
    "en_kind e \<in> {CheckShiftRange, CheckMinOverOne} \<longrightarrow>
      (\<exists>o'. en_operand e = Some o' \<and> o' < length (st_operands st) \<and> operand_wf st (st_operands st ! o'))"
    using entry_total [OF w wi] by blast
  obtain b where b: "aborts st ?instr e = Some b" using aborts_total [OF wi e(2,3)] by blast
  let ?c1 = "c\<lparr>ck_kinds := (ck_kinds c)[i := en_kind e]\<rparr>"
  have c1: "checks_sized st ?c1" using c by (simp add: checks_sized_def)
  show ?thesis
  proof (cases "\<not> b \<or> en_kind e = CheckOverflow \<or> en_operand e = Some (range_at (in_operands ?instr) 1)")
    case True
    then show ?thesis using e b c c1 i by (auto simp: check_one_def Let_def)
  next
    case False
    then have "en_kind e \<noteq> CheckNone" using b by (auto simp: aborts_def)
    then have two: "operand_count ?instr = 2" using e(2) by blast
    note o1 = operand_reads [OF wi, of 1]
    show ?thesis
    proof (cases "opd_data (nth_operand st ?instr 1)")
      case (OpdRegister r)
      then have r: "r < length (st_registers st)" using o1 two by (auto simp: operand_wf_def)
      have d: "d < length (st_instrs st)" if "rg_def (st_registers st ! r) = Some d" for d
        using w(2) r that by (auto simp: lowered_def list_all_iff dest!: nth_mem)
      have "\<exists>c'. (case rg_def (st_registers st ! r) of None \<Rightarrow> Some ?c1
          | Some def \<Rightarrow> Option.bind (row (ck_raw ?c1) def) (\<lambda>_. Some (?c1\<lparr>ck_raw := (ck_raw ?c1)[def := True]\<rparr>))) = Some c' \<and> checks_sized st c'"
        using c1 d by (cases "rg_def (st_registers st ! r)") (auto simp: checks_sized_def)
      then show ?thesis using e b i False two o1 OpdRegister r by (simp add: check_one_def Let_def)
    qed (use e b i False two o1 c1 in \<open>simp_all add: check_one_def Let_def\<close>)
  qed
qed

lemma checked_instructions_total:
  assumes "storage_wf st" "lowered st"
  shows "\<exists>c. checked_instructions st = Some c \<and> checks_sized st c"
  unfolding checked_instructions_def Let_def
  by (rule each_upt_total [where P = "\<lambda>_. checks_sized st"])
    (use check_one_total [OF assms] in \<open>auto simp: checks_sized_def\<close>)


subsection \<open>Folding keeps the tables well-formed\<close>

lemma block_regs_grow [simp]: "block_regs (with_immutables st ims) = block_regs st"
  by (simp add: fun_eq_iff block_regs_def with_immutables_def)

lemma storage_regs_grow [simp]: "storage_regs (with_immutables st ims) = storage_regs st"
  unfolding storage_regs_def block_regs_grow by (simp add: with_immutables_def)

lemma operand_wf_grow: "operand_wf (with_immutables st ims) op \<Longrightarrow> operand_wf (with_immutables st (ims @ ims')) op"
  by (auto simp: operand_wf_def with_immutables_def storage_regs_def block_regs_def split: operand_data.splits)

lemma operand_wf_grow_start: "operand_wf st op \<Longrightarrow> operand_wf (with_immutables st ims) op"
  using operand_wf_grow [of st "[]" op ims] by simp

definition fold_inv :: "storage_state \<Rightarrow> fold_state \<Rightarrow> bool" where
  "fold_inv st s \<longleftrightarrow>
     (\<exists>ims. fs_state s = with_immutables st ims \<and> (\<forall>im \<in> set ims. im_type im < length (st_types st))) \<and>
     length (fs_known s) = length (st_registers st) \<and> checks_sized st (fs_checks s) \<and>
     (\<forall>r op. known_value (fs_known s) r = Some op \<longrightarrow> operand_wf (fs_state s) op \<and> is_integer_type (reg_tag st r) \<and>
        (\<exists>j \<in> set (st_instrs st). in_dst j = Some r \<and> foldable j))"

lemma constant_of_total:
  assumes inv: "fold_inv st s" and w: "operand_wf st op"
  shows "\<exists>c. constant_of (fs_state s) (fs_known s) op = Some c"
proof (cases "resolve (fs_known s) op")
  case (Some rop)
  obtain ims where ims: "fs_state s = with_immutables st ims" using inv by (auto simp: fold_inv_def)
  have "operand_wf (fs_state s) rop"
  proof (cases "\<exists>r. opd_data op = OpdRegister r")
    case True
    then obtain r where "known_value (fs_known s) r = Some rop" using Some by (auto simp: resolve_def)
    then show ?thesis using inv by (auto simp: fold_inv_def)
  next
    case False
    then have "rop = op" using Some by (auto simp: resolve_def split: operand_data.splits)
    then show ?thesis using operand_wf_grow_start [OF w] ims by simp
  qed
  then show ?thesis using Some
    by (auto simp: constant_of_def operand_wf_def tag_at_def as_u64_integer_eq split: operand_data.splits)
qed (simp add: constant_of_def)

lemma fold_inv_learn:
  assumes inv: "fold_inv st s" and d: "d < length (st_registers st)" "is_integer_type (reg_tag st d)"
    and j: "j \<in> set (st_instrs st)" "in_dst j = Some d" "foldable j"
    and s': "fs_state s' = with_immutables (fs_state s) ims'" "\<forall>im \<in> set ims'. im_type im < length (st_types st)"
      "fs_known s' = fs_known s" "checks_sized st (fs_checks s')"
    and op: "operand_wf (fs_state s') op"
  shows "fold_inv st (learn d op s')"
proof -
  obtain ims where ims: "fs_state s = with_immutables st ims" "\<forall>im \<in> set ims. im_type im < length (st_types st)"
    using inv by (auto simp: fold_inv_def)
  have state: "fs_state s' = with_immutables st (ims @ ims')" using s'(1) ims(1) by (simp add: with_immutables_def)
  have old: "operand_wf (fs_state s') x" if "known_value (fs_known s) r = Some x" for r x
    using that inv operand_wf_grow unfolding fold_inv_def state ims(1) by blast
  have "\<exists>ims. fs_state (learn d op s') = with_immutables st ims \<and> (\<forall>im \<in> set ims. im_type im < length (st_types st))"
    by (rule exI [of _ "ims @ ims'"]) (use state ims(2) s'(2) in \<open>auto simp: learn_def\<close>)
  moreover have "operand_wf (fs_state (learn d op s')) x \<and> is_integer_type (reg_tag st r) \<and>
      (\<exists>j \<in> set (st_instrs st). in_dst j = Some r \<and> foldable j)" if k: "known_value (fs_known (learn d op s')) r = Some x" for r x
  proof (cases "r = d")
    case True
    then show ?thesis using known_learn [OF k] op d(2) j by (auto simp: learn_def)
  next
    case False
    then have "known_value (fs_known s) r = Some x" using known_learn [OF k] s'(3) by simp
    then show ?thesis using old inv by (auto simp: fold_inv_def learn_def)
  qed
  ultimately show ?thesis using inv s' by (simp add: fold_inv_def learn_def)
qed

lemma fold_select_total:
  assumes inv: "fold_inv st s" and w: "instr_wf st instr" "instr \<in> set (st_instrs st)"
    and i: "in_dst instr = Some d" "in_op instr = OpSelect" "operand_count instr = 3"
    and d: "d < length (st_registers st)" "is_integer_type (reg_tag st d)"
  shows "\<exists>s'. fold_select instr d s = Some s' \<and> fold_inv st s'"
proof -
  obtain ims where ims: "fs_state s = with_immutables st ims" using inv by (auto simp: fold_inv_def)
  note o0 = operand_reads [OF w(1), of 0] and o1 = operand_reads [OF w(1), of 1] and o2 = operand_reads [OF w(1), of 2]
  obtain c where c: "constant_of (fs_state s) (fs_known s) (nth_operand st instr 0) = Some c"
    using constant_of_total [OF inv o0(3)] i(3) by auto
  show ?thesis
  proof (cases c)
    case None
    then show ?thesis using c o0 i(3) inv ims by (simp add: fold_select_def)
  next
    case (Some p)
    obtain bits tag where p: "p = (bits, tag)" by (cases p)
    let ?op = "nth_operand st instr (if bits \<noteq> 0 then 1 else 2)"
    have "operand_wf (fs_state s) ?op" using o1(3) o2(3) i(3) ims operand_wf_grow_start by simp
    then have "fold_inv st (learn d ?op s)"
      using inv by (intro fold_inv_learn [OF inv d w(2) i(1), of _ "[]"]) (auto simp: foldable_def i fold_inv_def)
    moreover have "fold_select instr d s = Some (learn d ?op s)"
      using c Some p o0 o1 o2 i(3) ims inv d(1) by (auto simp: fold_select_def fold_inv_def)
    ultimately show ?thesis by blast
  qed
qed

lemma store_folded_total:
  assumes inv: "fold_inv st s" and reg: "\<forall>r \<in> set (st_registers st). rg_type r < length (st_types st)"
    and w: "instr \<in> set (st_instrs st)" "in_dst instr = Some d" "foldable instr"
    and d: "d < length (st_registers st)" "is_integer_type (reg_tag st d)"
    and s1: "fs_state s1 = fs_state s" "fs_known s1 = fs_known s" "checks_sized st (fs_checks s1)"
  shows "\<exists>s'. store_folded d (rg_type (st_registers st ! d)) dtag out s1 = Some s' \<and> fold_inv st s'"
proof -
  let ?dt = "rg_type (st_registers st ! d)"
  let ?im = "integer_immutable ?dt dtag out" and ?op = "from_immutable (length (st_immutables (fs_state s))) ?dt"
  let ?s2 = "s1\<lparr>fs_state := with_immutables (fs_state s) [?im]\<rparr>"
  have dt: "?dt < length (st_types st)" using reg d(1) by simp
  have ty: "st_types (fs_state s) = st_types st" using inv by (auto simp: fold_inv_def)
  have "operand_wf (fs_state ?s2) ?op" using dt ty by (simp add: operand_wf_def from_immutable_def)
  then have "fold_inv st (learn d ?op ?s2)"
    using dt s1 by (intro fold_inv_learn [OF inv d w, of _ "[?im]"]) (simp_all add: integer_immutable_def)
  moreover have "store_folded d ?dt dtag out s1 = Some (learn d ?op ?s2)"
    using s1 d(1) inv by (auto simp: store_folded_def Let_def with_immutables_def fold_inv_def)
  ultimately show ?thesis by blast
qed

lemma fold_two_total:
  assumes inv: "fold_inv st s" and reg: "\<forall>r \<in> set (st_registers st). rg_type r < length (st_types st)"
    and w: "instr_wf st instr" "instr \<in> set (st_instrs st)" and i: "in_dst instr = Some d" "operand_count instr = 2"
    and d: "d < length (st_registers st)" "is_integer_type (reg_tag st d)"
  shows "\<exists>s'. fold_two i check instr d (rg_type (st_registers st ! d)) dtag s = Some s' \<and> fold_inv st s'"
proof -
  obtain ims where ims: "fs_state s = with_immutables st ims" using inv by (auto simp: fold_inv_def)
  note o0 = operand_reads [OF w(1), of 0] and o1 = operand_reads [OF w(1), of 1]
  obtain ca where ca: "constant_of (fs_state s) (fs_known s) (nth_operand st instr 0) = Some ca"
    using constant_of_total [OF inv o0(3)] i(2) by auto
  obtain cb where cb: "constant_of (fs_state s) (fs_known s) (nth_operand st instr 1) = Some cb"
    using constant_of_total [OF inv o1(3)] i(2) by auto
  note base = ca cb o0 o1 i(2) ims inv
  show ?thesis
  proof (cases "\<exists>a ta b tb out. ca = Some (a, ta) \<and> cb = Some (b, tb) \<and> fold_binary (in_op instr) ta a b = Some out")
    case False
    then have "fold_two i check instr d (rg_type (st_registers st ! d)) dtag s = Some s"
      using base by (auto simp: fold_two_def split: option.split)
    then show ?thesis using inv by blast
  next
    case True
    then obtain a ta b tb out where c: "ca = Some (a, ta)" "cb = Some (b, tb)" "fold_binary (in_op instr) ta a b = Some out" by blast
    then have "foldable instr" using fold_binary_known by (auto simp: foldable_def)
    note store = store_folded_total [OF inv reg w(2) i(1) this d]
    let ?s1 = "s\<lparr>fs_checks := (fs_checks s)\<lparr>ck_kinds := (ck_kinds (fs_checks s))[i := CheckNone]\<rparr>\<rparr>"
    have "checks_sized st (fs_checks ?s1)" "checks_sized st (fs_checks s)" using inv by (auto simp: fold_inv_def checks_sized_def)
    then show ?thesis
      using base c inv store [of s dtag out] store [of ?s1 dtag out]
      by (cases "check = CheckOverflow"; cases "overflows (in_op instr) ta a b") (auto simp: fold_two_def)
  qed
qed

lemma fold_instr_total:
  assumes w: "storage_wf st" "lowered st" and i: "i < length (st_instrs st)" and inv: "fold_inv st s"
  shows "\<exists>s'. fold_instr i s = Some s' \<and> fold_inv st s'"
proof -
  let ?instr = "st_instrs st ! i"
  have wi: "instr_wf st ?instr" and mem: "?instr \<in> set (st_instrs st)" using table_instr_wf(1) [OF w i] i by simp_all
  have reg: "\<forall>r \<in> set (st_registers st). rg_type r < length (st_types st)" using w(1) by (auto simp: storage_wf_def)
  obtain ims where ims: "fs_state s = with_immutables st ims" using inv by (auto simp: fold_inv_def)
  have c: "i < length (ck_kinds (fs_checks s))" "i < length (ck_raw (fs_checks s))"
    using inv i by (auto simp: fold_inv_def checks_sized_def)
  let ?check = "ck_kinds (fs_checks s) ! i"
  show ?thesis
  proof (cases "ck_raw (fs_checks s) ! i \<or> (?check \<noteq> CheckNone \<and> ?check \<noteq> CheckOverflow) \<or> in_dst ?instr = None")
    case True
    then show ?thesis using c i ims inv by (auto simp: fold_instr_def)
  next
    case False
    then obtain d where d: "in_dst ?instr = Some d" by auto
    have dr: "d < length (st_registers st)" by (rule table_instr_wf(2) [OF w i d])
    have tag: "tag_at st (rg_type (st_registers st ! d)) = Some (reg_tag st d)"
      using reg dr by (simp add: tag_at_Some reg_tag_def)
    have step: "fold_instr i s = (if \<not> is_integer_type (reg_tag st d) then Some s
        else if in_op ?instr = OpSelect \<and> operand_count ?instr = 3 then fold_select ?instr d s
        else if operand_count ?instr \<noteq> 2 then Some s
        else fold_two i ?check ?instr d (rg_type (st_registers st ! d)) (reg_tag st d) s)"
      using False c i ims d dr tag by (auto simp: fold_instr_def)
    show ?thesis unfolding step
      using inv fold_select_total [OF inv wi mem d _ _ dr] fold_two_total [OF inv reg wi mem d _ dr] by auto
  qed
qed

lemma fold_total:
  assumes w: "storage_wf st" "lowered st" and c: "checks_sized st c"
  obtains s where "fold_and_propagate st c =
      Some ((fs_state s)\<lparr>st_operands := map (substitute (fs_known s)) (st_operands st)\<rparr>, fs_checks s)" "fold_inv st s"
proof -
  let ?s0 = "\<lparr>fs_state = st, fs_checks = c, fs_known = replicate (length (st_registers st)) unknown_operand\<rparr>"
  have "\<exists>ims. st = with_immutables st ims \<and> (\<forall>im \<in> set ims. im_type im < length (st_types st))"
    by (rule exI [of _ "[]"]) simp
  then have start: "fold_inv st ?s0"
    using c by (auto simp: fold_inv_def known_value_def unknown_operand_def from_register_def split: if_splits)
  have "\<exists>s. each fold_instr [0..<length (st_instrs st)] ?s0 = Some s \<and> fold_inv st s"
    by (rule each_upt_total [where P = "\<lambda>_. fold_inv st", OF start]) (rule fold_instr_total [OF w])
  then obtain s where s: "each fold_instr [0..<length (st_instrs st)] ?s0 = Some s" "fold_inv st s" by blast
  then have "st_operands (fs_state s) = st_operands st" by (auto simp: fold_inv_def)
  then show thesis using that [of s] s by (simp add: fold_and_propagate_def)
qed


subsection \<open>The substituted operands\<close>

definition propagated :: "storage_state \<Rightarrow> fold_state \<Rightarrow> storage_state" where
  "propagated st s = (fs_state s)\<lparr>st_operands := map (substitute (fs_known s)) (st_operands st)\<rparr>"

lemma propagated_rows:
  assumes "fold_inv st s"
  shows "st_instrs (propagated st s) = st_instrs st" "st_types (propagated st s) = st_types st"
    "st_blocks (propagated st s) = st_blocks st" "st_registers (propagated st s) = st_registers st"
    "st_functions (propagated st s) = st_functions st" "st_external_functions (propagated st s) = st_external_functions st"
    "st_block_params (propagated st s) = st_block_params st" "st_func_types (propagated st s) = st_func_types st"
    "st_struct_types (propagated st s) = st_struct_types st" "st_array_types (propagated st s) = st_array_types st"
    "st_slice_types (propagated st s) = st_slice_types st" "st_enum_types (propagated st s) = st_enum_types st"
    "st_enum_variant_types (propagated st s) = st_enum_variant_types st" "st_tuple_types (propagated st s) = st_tuple_types st"
    "st_const_types (propagated st s) = st_const_types st" "st_immutables (propagated st s) = st_immutables (fs_state s)"
    "st_operands (propagated st s) = map (substitute (fs_known s)) (st_operands st)"
proof -
  obtain ims where "fs_state s = with_immutables st ims" using assms by (auto simp: fold_inv_def)
  then have "propagated st s = st\<lparr>st_immutables := st_immutables (fs_state s), st_operands := map (substitute (fs_known s)) (st_operands st)\<rparr>"
    by (simp add: propagated_def with_immutables_def)
  then show "st_instrs (propagated st s) = st_instrs st" "st_types (propagated st s) = st_types st"
    "st_blocks (propagated st s) = st_blocks st" "st_registers (propagated st s) = st_registers st"
    "st_functions (propagated st s) = st_functions st" "st_external_functions (propagated st s) = st_external_functions st"
    "st_block_params (propagated st s) = st_block_params st" "st_func_types (propagated st s) = st_func_types st"
    "st_struct_types (propagated st s) = st_struct_types st" "st_array_types (propagated st s) = st_array_types st"
    "st_slice_types (propagated st s) = st_slice_types st" "st_enum_types (propagated st s) = st_enum_types st"
    "st_enum_variant_types (propagated st s) = st_enum_variant_types st" "st_tuple_types (propagated st s) = st_tuple_types st"
    "st_const_types (propagated st s) = st_const_types st" "st_immutables (propagated st s) = st_immutables (fs_state s)"
    "st_operands (propagated st s) = map (substitute (fs_known s)) (st_operands st)"
    by simp_all
qed

lemma propagated_wf:
  assumes "fold_inv st s"
  shows "block_regs (propagated st s) = block_regs st" "storage_regs (propagated st s) = storage_regs st"
    "type_wf (propagated st s) = type_wf st" "function_wf (propagated st s) = function_wf st"
    "external_wf (propagated st s) = external_wf st" "block_bounds (propagated st s) = block_bounds st"
proof -
  note rows = propagated_rows [OF assms]
  show regs: "block_regs (propagated st s) = block_regs st" by (simp add: fun_eq_iff block_regs_def rows)
  show "storage_regs (propagated st s) = storage_regs st" by (simp add: storage_regs_def regs rows)
  show "type_wf (propagated st s) = type_wf st" by (simp only: fun_eq_iff type_wf_def rows simp_thms)
  show "function_wf (propagated st s) = function_wf st" "external_wf (propagated st s) = external_wf st"
    by (simp_all add: fun_eq_iff function_wf_def external_wf_def meta_wf_def rows)
  show "block_bounds (propagated st s) = block_bounds st" by (simp add: fun_eq_iff block_bounds_def regs rows)
qed

lemmas propagated_tables = propagated_rows propagated_wf

lemma substitute_other: "(\<And>r. opd_data op \<noteq> OpdRegister r) \<Longrightarrow> substitute kn op = op"
  by (auto simp: substitute_def split: operand_data.split)

lemma substitute_type [simp]: "opd_type (substitute kn op) = opd_type op"
  by (auto simp: substitute_def split: operand_data.split option.split)

lemma substituted_wf:
  assumes inv: "fold_inv st s" and w: "operand_wf st op"
  shows "operand_wf (propagated st s) (substitute (fs_known s) op)"
proof -
  obtain ims where ims: "fs_state s = with_immutables st ims" using inv by (auto simp: fold_inv_def)
  have ops: "operand_wf (propagated st s) x = operand_wf (fs_state s) x" for x
    using propagated_wf(2) [OF inv] propagated_rows [OF inv] ims
    by (simp add: operand_wf_def split: operand_data.split) (simp add: with_immutables_def)
  show ?thesis
  proof (cases "\<exists>r x. opd_data op = OpdRegister r \<and> known_value (fs_known s) r = Some x")
    case True
    then obtain r x where r: "opd_data op = OpdRegister r" "known_value (fs_known s) r = Some x" by blast
    then have "operand_wf (fs_state s) x" using inv by (auto simp: fold_inv_def)
    then have "operand_wf (fs_state s) (x\<lparr>opd_type := opd_type op\<rparr>)"
      using w ims by (auto simp: operand_wf_def split: operand_data.splits)
    then show ?thesis using r by (simp add: ops substitute_def)
  next
    case False
    then have "substitute (fs_known s) op = op" by (auto simp: substitute_def split: operand_data.split option.split)
    then show ?thesis using operand_wf_grow_start [OF w] by (simp add: ops ims)
  qed
qed

lemma propagated_views:
  assumes inv: "fold_inv st s"
  shows "type_tag_of (propagated st s) (substitute (fs_known s) op) = type_tag_of st op"
    "is_immutable op \<Longrightarrow> is_immutable (substitute (fs_known s) op)"
    "target_params st op = Some n \<Longrightarrow> target_params (propagated st s) (substitute (fs_known s) op) = Some n"
    "callee_params st op = Some n \<Longrightarrow> callee_params (propagated st s) (substitute (fs_known s) op) = Some n"
    "is_register op \<Longrightarrow> (\<And>r j. opd_data op = OpdRegister r \<Longrightarrow> j \<in> set (st_instrs st) \<Longrightarrow> in_dst j = Some r \<Longrightarrow> \<not> foldable j) \<Longrightarrow>
      is_register (substitute (fs_known s) op)"
proof -
  note tables = propagated_tables [OF inv]
  show "type_tag_of (propagated st s) (substitute (fs_known s) op) = type_tag_of st op"
    by (simp add: type_tag_of_def tables)
  show "is_immutable op \<Longrightarrow> is_immutable (substitute (fs_known s) op)"
    by (subst substitute_other) (auto simp: is_immutable_def split: operand_data.splits)
  show "target_params st op = Some n \<Longrightarrow> target_params (propagated st s) (substitute (fs_known s) op) = Some n"
    by (subst substitute_other) (auto simp: target_params_def tables split: operand_data.splits)
  have unknown: "known_value (fs_known s) r = None" if "\<not> is_integer_type (reg_tag st r) \<or> (\<forall>j \<in> set (st_instrs st). in_dst j = Some r \<longrightarrow> \<not> foldable j)" for r
    using inv that unfolding fold_inv_def by (metis not_Some_eq)
  show "callee_params (propagated st s) (substitute (fs_known s) op) = Some n" if c: "callee_params st op = Some n"
  proof -
    have "substitute (fs_known s) op = op"
    proof (cases "\<exists>r. opd_data op = OpdRegister r")
      case True
      then obtain r where r: "opd_data op = OpdRegister r" by blast
      then have "reg_tag st r = TyFunc" using c by (auto simp: callee_params_def reg_tag_def Let_def split: if_splits)
      then have "known_value (fs_known s) r = None" by (intro unknown) (simp add: is_integer_type_def)
      then show ?thesis using r by (simp add: substitute_def)
    qed (auto intro: substitute_other)
    then show ?thesis using c by (simp only: callee_params_def tables)
  qed
  show "is_register (substitute (fs_known s) op)" if op: "is_register op"
    and stands: "\<And>r j. opd_data op = OpdRegister r \<Longrightarrow> j \<in> set (st_instrs st) \<Longrightarrow> in_dst j = Some r \<Longrightarrow> \<not> foldable j"
  proof -
    obtain r where r: "opd_data op = OpdRegister r" using op by (auto simp: is_register_def split: operand_data.splits)
    then have "known_value (fs_known s) r = None" using stands by (intro unknown) blast
    then show ?thesis using r op by (simp add: substitute_def)
  qed
qed

lemma cases_wf_propagated:
  "fold_inv st s \<Longrightarrow> cases_wf st opds \<Longrightarrow> cases_wf (propagated st s) (map (substitute (fs_known s)) opds)"
  by (induction opds rule: induct_list012) (auto simp: propagated_views)

lemma rows_map: "range_in_bounds r (length xs) \<Longrightarrow> rows (map f xs) r = map f (rows xs r)"
  by (auto simp: rows_def dest: range_less)

lemma shape_propagated:
  assumes inv: "fold_inv st s" and w: "shape_wf st instr opds" and o0: "opds \<noteq> [] \<Longrightarrow> hd opds = nth_operand st instr 0"
    and p: "place_stands st instr"
  shows "shape_wf (propagated st s) instr (map (substitute (fs_known s)) opds)"
proof -
  let ?f = "substitute (fs_known s)"
  note views = propagated_views [OF inv]
  have base: "is_register (?f b)" if "opds = b # rest" "is_register b" "shape_of (in_op instr) \<in> {ShGetElementPtr, ShElemOffset, ShBorrow}" for b rest
    using that o0 p by (intro views(5)) (auto simp: place_stands_def list_all_iff)
  have ints: "list_all (\<lambda>x. is_integer_type (type_tag_of (propagated st s) x)) (map ?f xs)"
    if "list_all (\<lambda>x. is_integer_type (type_tag_of st x)) xs" for xs using that by (auto simp: list_all_iff views)
  have imms: "list_all (\<lambda>x. is_immutable x \<and> is_integer_type (type_tag_of (propagated st s) x)) (map ?f xs)"
    if "list_all (\<lambda>x. is_immutable x \<and> is_integer_type (type_tag_of st x)) xs" for xs using that by (auto simp: list_all_iff views)
  show ?thesis
  proof (cases "shape_of (in_op instr)")
    case ShGetElementPtr
    then obtain b i rest where o: "opds = b # i # rest" "is_register b" "list_all (\<lambda>x. is_integer_type (type_tag_of st x)) (i # rest)"
      using w by (auto simp: shape_wf_def)
    then show ?thesis using ShGetElementPtr base [OF o(1,2)] ints [OF o(3)] by (simp add: shape_wf_def)
  next
    case ShExtractValue
    then obtain a i rest where o: "opds = a # i # rest" "list_all (\<lambda>x. is_immutable x \<and> is_integer_type (type_tag_of st x)) (i # rest)"
      using w by (auto simp: shape_wf_def)
    then show ?thesis using ShExtractValue imms [OF o(2)] by (simp add: shape_wf_def)
  next
    case ShInsertValue
    then obtain a v i rest where o: "opds = a # v # i # rest" "list_all (\<lambda>x. is_immutable x \<and> is_integer_type (type_tag_of st x)) (i # rest)"
      using w by (auto simp: shape_wf_def)
    then show ?thesis using ShInsertValue imms [OF o(2)] by (simp add: shape_wf_def)
  next
    case ShTypeQuery
    then show ?thesis using w by (auto simp: shape_wf_def propagated_tables [OF inv])
  qed (use w base cases_wf_propagated [OF inv] in \<open>auto simp: shape_wf_def views\<close>)
qed

lemma instr_propagated:
  assumes inv: "fold_inv st s" and w: "instr_wf st instr" and p: "place_stands st instr"
  shows "instr_wf (propagated st s) instr"
proof -
  let ?opds = "rows (st_operands st) (in_operands instr)"
  have b: "range_in_bounds (in_operands instr) (length (st_operands st))" and ops: "list_all (operand_wf st) ?opds"
    and sh: "shape_wf st instr ?opds" and ar: "arity_wf (in_op instr) (length ?opds)"
    using w by (simp_all add: instr_wf_def Let_def)
  have "hd ?opds = nth_operand st instr 0" if "?opds \<noteq> []"
    using that by (cases "rg_size (in_operands instr)") (simp_all add: rows_def range_list_def range_at_def upt_conv_Cons del: upt_Suc)
  then have "shape_wf (propagated st s) instr (map (substitute (fs_known s)) ?opds)" using shape_propagated [OF inv sh _ p] by blast
  moreover have "list_all (operand_wf (propagated st s)) (map (substitute (fs_known s)) ?opds)"
    using ops substituted_wf [OF inv] by (auto simp: list_all_iff)
  ultimately show ?thesis
    using b ar by (simp add: instr_wf_def Let_def propagated_rows [OF inv] rows_map)
qed

lemma block_instr_stands:
  assumes "lowered st" "block_bounds st b" "instr \<in> set (rows (st_instrs st) (bl_instrs b))"
  shows "place_stands st instr"
proof -
  have "instr \<in> set (st_instrs st)" using assms(2,3) by (auto simp: rows_def block_bounds_def dest: range_less)
  then show ?thesis using assms(1) by (auto simp: lowered_def list_all_iff)
qed

lemma storage_propagated:
  assumes inv: "fold_inv st s" and w: "storage_wf st" "lowered st"
  shows "storage_wf (propagated st s)"
proof -
  note tables = propagated_tables [OF inv]
  obtain ims where "fs_state s = with_immutables st ims" "\<forall>im \<in> set ims. im_type im < length (st_types st)"
    using inv by (auto simp: fold_inv_def)
  then have im: "\<forall>im \<in> set (st_immutables (fs_state s)). im_type im < length (st_types st)"
    using w(1) by (auto simp: storage_wf_def)
  have "block_wf (propagated st s) b" if b: "b \<in> set (st_blocks st)" for b
  proof -
    have bw: "block_wf st b" "block_bounds st b" using w(1) b by (auto simp: storage_wf_def)
    then have "instr_wf (propagated st s) i" if "i \<in> set (rows (st_instrs st) (bl_instrs b))" for i
      using that instr_propagated [OF inv] block_instr_stands [OF w(2) bw(2)] by (auto simp: block_wf_def Let_def)
    then show ?thesis using bw(1) by (simp add: block_wf_def Let_def tables(1))
  qed
  then show ?thesis using w(1) im unfolding storage_wf_def tables by blast
qed


subsection \<open>Pruning keeps the tables well-formed\<close>

definition pruned_state :: "checks \<Rightarrow> storage_state \<Rightarrow> storage_state" where
  "pruned_state c st = st\<lparr>st_instrs := map (\<lambda>i. if dead c st i then pruned (st_instrs st ! i) else st_instrs st ! i)
    [0..<length (st_instrs st)]\<rparr>"

lemma pruned_rows:
  "range_in_bounds r (length (st_instrs st)) \<Longrightarrow> rows (st_instrs (pruned_state c st)) r =
    map (\<lambda>i. if dead c st i then pruned (st_instrs st ! i) else st_instrs st ! i) (range_list r)"
  by (auto simp: rows_def pruned_state_def dest: range_less)

lemma subseq_concat: "(\<And>x. x \<in> set xs \<Longrightarrow> subseq (f x) (g x)) \<Longrightarrow> subseq (concat (map f xs)) (concat (map g xs))"
  by (induction xs) (auto intro: list_emb_append_mono)

lemma distinct_subseq: "subseq xs ys \<Longrightarrow> distinct ys \<Longrightarrow> distinct xs"
  by (metis distinct_nthsI subseq_conv_nths)

definition dst_list :: "instruction \<Rightarrow> nat list" where
  "dst_list i = (case in_dst i of None \<Rightarrow> [] | Some r \<Rightarrow> [r])"

lemma block_regs_dst:
  "block_regs st b = map bp_reg (rows (st_block_params st) (bl_params b)) @ concat (map dst_list (rows (st_instrs st) (bl_instrs b)))"
  by (simp add: block_regs_def dst_list_def [abs_def])

lemma block_regs_pruned:
  assumes "block_bounds st b"
  shows "subseq (block_regs (pruned_state c st) b) (block_regs st b)"
    "r \<in> set (block_regs st b) \<Longrightarrow> reads_register st r \<Longrightarrow> r \<in> set (block_regs (pruned_state c st) b)"
proof -
  let ?g = "\<lambda>i. dst_list (if dead c st i then pruned (st_instrs st ! i) else st_instrs st ! i)"
  have b: "range_in_bounds (bl_instrs b) (length (st_instrs st))" using assms by (simp add: block_bounds_def)
  have p: "st_block_params (pruned_state c st) = st_block_params st" by (simp add: pruned_state_def)
  have new: "block_regs (pruned_state c st) b =
      map bp_reg (rows (st_block_params st) (bl_params b)) @ concat (map ?g (range_list (bl_instrs b)))"
    by (simp add: block_regs_dst pruned_rows [OF b] p o_def)
  have old: "block_regs st b =
      map bp_reg (rows (st_block_params st) (bl_params b)) @ concat (map (\<lambda>i. dst_list (st_instrs st ! i)) (range_list (bl_instrs b)))"
    by (simp add: block_regs_dst rows_def o_def)
  show "subseq (block_regs (pruned_state c st) b) (block_regs st b)"
    unfolding new old by (intro list_emb_append_mono subseq_order.refl subseq_concat) (auto simp: dst_list_def)
  show "r \<in> set (block_regs (pruned_state c st) b)" if r: "r \<in> set (block_regs st b)" "reads_register st r"
  proof (cases "\<exists>i \<in> set (range_list (bl_instrs b)). r \<in> set (dst_list (st_instrs st ! i))")
    case True
    then obtain i where i: "i \<in> set (range_list (bl_instrs b))" "in_dst (st_instrs st ! i) = Some r"
      by (auto simp: dst_list_def split: option.splits)
    then have "\<not> dead c st i" using r(2) by (simp add: dead_def)
    then show ?thesis unfolding new using i by (auto simp: dst_list_def intro!: bexI [of _ i])
  next
    case False
    then show ?thesis using r(1) unfolding new old by auto
  qed
qed

lemma storage_regs_pruned:
  assumes "storage_wf st"
  shows "subseq (storage_regs (pruned_state c st)) (storage_regs st)"
    "r \<in> set (storage_regs st) \<Longrightarrow> reads_register st r \<Longrightarrow> r \<in> set (storage_regs (pruned_state c st))"
proof -
  have b: "st_blocks (pruned_state c st) = st_blocks st" by (simp add: pruned_state_def)
  have bounds: "block_bounds st b" if "b \<in> set (st_blocks st)" for b using assms that by (auto simp: storage_wf_def)
  show "subseq (storage_regs (pruned_state c st)) (storage_regs st)"
    unfolding storage_regs_def b by (rule subseq_concat) (rule block_regs_pruned(1) [OF bounds])
  show "r \<in> set (storage_regs (pruned_state c st))" if "r \<in> set (storage_regs st)" "reads_register st r"
    using that block_regs_pruned(2) [OF bounds] by (auto simp: storage_regs_def b)
qed

lemma pruned_tables:
  "st_types (pruned_state c st) = st_types st" "st_blocks (pruned_state c st) = st_blocks st"
  "st_registers (pruned_state c st) = st_registers st" "st_functions (pruned_state c st) = st_functions st"
  "st_external_functions (pruned_state c st) = st_external_functions st" "st_operands (pruned_state c st) = st_operands st"
  "st_block_params (pruned_state c st) = st_block_params st" "st_immutables (pruned_state c st) = st_immutables st"
  "st_func_types (pruned_state c st) = st_func_types st" "length (st_instrs (pruned_state c st)) = length (st_instrs st)"
  "st_struct_types (pruned_state c st) = st_struct_types st" "st_array_types (pruned_state c st) = st_array_types st"
  "st_slice_types (pruned_state c st) = st_slice_types st" "st_enum_types (pruned_state c st) = st_enum_types st"
  "st_enum_variant_types (pruned_state c st) = st_enum_variant_types st" "st_tuple_types (pruned_state c st) = st_tuple_types st"
  "st_const_types (pruned_state c st) = st_const_types st"
  by (simp_all add: pruned_state_def)

lemma pruned_views:
  "type_wf (pruned_state c st) = type_wf st" "function_wf (pruned_state c st) = function_wf st"
  "external_wf (pruned_state c st) = external_wf st" "type_tag_of (pruned_state c st) = type_tag_of st"
  "target_params (pruned_state c st) = target_params st" "callee_params (pruned_state c st) = callee_params st"
  by (simp_all only: fun_eq_iff type_wf_def function_wf_def external_wf_def meta_wf_def type_tag_of_def target_params_def
      callee_params_def pruned_tables simp_thms)

lemma cases_wf_pruned: "cases_wf (pruned_state c st) opds = cases_wf st opds"
  by (induction opds rule: induct_list012) (auto simp: pruned_views)

lemma shape_wf_pruned: "shape_wf (pruned_state c st) = shape_wf st"
  by (simp only: fun_eq_iff shape_wf_def cases_wf_pruned pruned_views pruned_tables simp_thms)

lemma operand_wf_pruned:
  assumes "storage_wf st" "op \<in> set (st_operands st)" "operand_wf st op"
  shows "operand_wf (pruned_state c st) op"
  using assms storage_regs_pruned(2) [OF assms(1)]
  by (auto simp: operand_wf_def pruned_tables reads_register_def split: operand_data.splits)

lemma instr_wf_pruned:
  assumes "storage_wf st" "instr_wf st instr"
  shows "instr_wf (pruned_state c st) instr"
proof -
  have "set (rows (st_operands st) (in_operands instr)) \<subseteq> set (st_operands st)"
    using assms(2) by (auto simp: instr_wf_def rows_def dest: range_less)
  then show ?thesis using assms operand_wf_pruned [OF assms(1)]
    by (auto simp: instr_wf_def Let_def pruned_tables shape_wf_pruned list_all_iff)
qed

lemma pruned_instr_wf: "instr_wf st (pruned instr)" "\<not> is_terminator (in_op (pruned instr))"
  by (simp_all add: instr_wf_def pruned_def no_range_def range_in_bounds_def rows_def range_list_def shape_wf_def shape_of_def
      arity_wf_def operand_arity_def is_terminator_def)

lemma dead_not_terminator: "dead c st i \<Longrightarrow> \<not> is_terminator (in_op (st_instrs st ! i))"
  by (auto simp: dead_def prunable_def is_terminator_def)

lemma block_wf_pruned:
  assumes w: "storage_wf st" "b \<in> set (st_blocks st)"
  shows "block_wf (pruned_state c st) b"
proof -
  have bw: "block_wf st b" "range_in_bounds (bl_instrs b) (length (st_instrs st))"
    using w by (auto simp: storage_wf_def block_bounds_def)
  let ?g = "\<lambda>i. if dead c st i then pruned (st_instrs st ! i) else st_instrs st ! i" and ?r = "range_list (bl_instrs b)"
  have old: "rows (st_instrs st) (bl_instrs b) = map ((!) (st_instrs st)) ?r" by (simp add: rows_def)
  have ne: "?r \<noteq> []" and last: "is_terminator (in_op (st_instrs st ! last ?r))"
    and init: "\<forall>i \<in> set (butlast ?r). \<not> is_terminator (in_op (st_instrs st ! i))"
    and wf: "\<forall>i \<in> set ?r. instr_wf st (st_instrs st ! i)"
    using bw(1) unfolding block_wf_def old by (auto simp: Let_def last_map map_butlast [symmetric])
  have "instr_wf (pruned_state c st) (?g i)" if "i \<in> set ?r" for i
    using wf that instr_wf_pruned [OF w(1)] pruned_instr_wf(1) by simp
  moreover have "\<not> is_terminator (in_op (?g i))" if "i \<in> set (butlast ?r)" for i
    using init that pruned_instr_wf(2) by simp
  moreover have "?g (last ?r) = st_instrs st ! last ?r" using last dead_not_terminator by auto
  ultimately show ?thesis
    using ne last unfolding block_wf_def pruned_rows [OF bw(2)]
    by (simp add: Let_def last_map map_butlast [symmetric] del: if_image_distrib)
qed

lemma storage_pruned:
  assumes "storage_wf st"
  shows "storage_wf (pruned_state c st)"
proof -
  have sub: "set (block_regs (pruned_state c st) b) \<subseteq> set (block_regs st b)" if "block_bounds st b" for b
    using block_regs_pruned(1) [OF that, of c] by (auto dest: list_emb_set)
  have "block_bounds (pruned_state c st) b" if "b \<in> set (st_blocks st)" for b
  proof -
    have "block_bounds st b" using assms that by (simp add: storage_wf_def)
    then show ?thesis using sub [of b] by (auto simp: block_bounds_def pruned_tables)
  qed
  moreover have "distinct (storage_regs (pruned_state c st))"
    using assms storage_regs_pruned(1) [OF assms] distinct_subseq by (auto simp: storage_wf_def)
  ultimately show ?thesis using assms block_wf_pruned [OF assms]
    unfolding storage_wf_def pruned_tables pruned_views by blast
qed

lemma elimination_total:
  assumes "\<And>i d. i < length (st_instrs st) \<Longrightarrow> in_dst (st_instrs st ! i) = Some d \<Longrightarrow> d < length (st_registers st)"
    and "checks_sized st c"
  shows "eliminate_dead c st = Some (pruned_state c st)"
proof -
  have "prune_reads c (count_uses st) (st_instrs st) i" if "i < length (st_instrs st)" for i
    using assms that by (auto simp: prune_reads_def checks_sized_def split: option.split)
  then obtain st' ch where "prune_pass c st = Some (st', ch)" by (auto simp: prune_pass_Some)
  then have e: "eliminate_dead c st = Some st'" by (simp add: eliminate_dead_one_pass)
  then show ?thesis using eliminate_dead_Some [OF e] by (simp add: pruned_state_def)
qed


subsection \<open>Properties\<close>

text \<open>
  C2. The optimizer keeps verified storage verified: on storage that passed the verifier and that has
  the shape the lowering builds, the passes read no row past a table, they return, and the
  verification of the result succeeds.
\<close>

theorem optimize_verifies:
  assumes "verify_storage st = Some (Inr ())" "lowered st"
  shows "\<exists>st'. optimize st = Some (Inr st') \<and> verify_storage st' = Some (Inr ())"
proof -
  have w: "storage_wf st" using assms(1) verify_storage_iff by (simp add: ok_def)
  obtain c where c: "checked_instructions st = Some c" "checks_sized st c"
    using checked_instructions_total [OF w assms(2)] by blast
  obtain s where s: "fold_and_propagate st c = Some (propagated st s, fs_checks s)" "fold_inv st s"
    using fold_total [OF w assms(2) c(2)] by (metis propagated_def)
  have w1: "storage_wf (propagated st s)" by (rule storage_propagated [OF s(2) w assms(2)])
  have "checks_sized (propagated st s) (fs_checks s)"
    using s(2) by (simp add: fold_inv_def checks_sized_def propagated_rows [OF s(2)])
  then have e: "eliminate_dead (fs_checks s) (propagated st s) = Some (pruned_state (fs_checks s) (propagated st s))"
    using table_instr_wf(2) [OF w assms(2)] by (intro elimination_total) (auto simp: propagated_rows [OF s(2)])
  let ?st2 = "pruned_state (fs_checks s) (propagated st s)"
  have v: "verify_storage ?st2 = ok ()" using storage_pruned [OF w1] verify_storage_iff by blast
  have "optimize st = build (builder_from ?st2)" using c s(1) e by (simp add: optimize_def)
  also have "\<dots> = ok ?st2" using v by (simp add: build_def take_state_def)
  finally show ?thesis using v by (auto simp: ok_def)
qed

text \<open>The sample program as the body of a function without parameters.\<close>

definition sample_module :: storage_state where
  "sample_module = sample_program\<lparr>
     st_blocks := [\<lparr>bl_instrs = \<lparr>rg_head = 0, rg_size = 4\<rparr>, bl_params = no_range\<rparr>],
     st_functions := [\<lparr>fn_meta = \<lparr>fm_return_type = 0, fm_param_types = no_range, fm_name = 0, fm_path = 0, fm_kind = SkFree,
       fm_generics = no_range, fm_owner = None\<rparr>, fn_blocks = \<lparr>rg_head = 0, rg_size = 1\<rparr>\<rparr>]\<rparr>"

theorem optimize_verifies_witness:
  "\<exists>st'. optimize sample_module = Some (Inr st') \<and> verify_storage st' = Some (Inr ())"
proof (rule optimize_verifies)
  show "verify_storage sample_module = Some (Inr ())" by code_simp
  show "lowered sample_module" by code_simp
qed

end
