(* ===== verification/Symbol_Mangle.thy ===== *)
theory Symbol_Mangle
  imports Ir_Types Base_Digest
begin

text \<open>
  \<^verbatim>\<open>src/src/symbol/mangle.h\<close> and \<^verbatim>\<open>mangle.cc\<close>: the encoding of a linkable symbol and its decoder.  What the encoder
  appends to its string is the value of the encoding functions; the decoder's cursor is the text that is
  left.  The type table may be cyclic, so the encoder runs on fuel, and a read past a table is
  \<^term>\<open>None\<close> too.  The string table is a function from ids to texts.
\<close>

datatype sym_kind = SyForeign | SyFree | SyAssoc | SyMethod

record signature =
  sg_path :: bytes
  sg_name :: bytes
  sg_owner :: nat
  sg_kind :: sym_kind
  sg_generics :: "nat list"

datatype decoded_kind =
  DkPrim | DkStr | DkSlice | DkRef | DkMutRef | DkPtr | DkRawPtr | DkRawMutPtr | DkArray | DkTuple | DkNominal | DkConst
| DkUnit | DkNever | DkError | DkFunction | DkFunc | DkParam

datatype decoded_type =
  DecodedType (dt_kind: decoded_kind) (dt_spelling: bytes) (dt_parts: "decoded_type list") (dt_count: u64)
    (dt_path: "bytes list") (dt_args: "decoded_type list")

text \<open>A decoded type as its default constructor makes it, with the fields one kind sets.\<close>

definition simple_type :: "decoded_kind \<Rightarrow> decoded_type" where
  "simple_type k = DecodedType k [] [] 0 [] []"

definition prim_type :: "bytes \<Rightarrow> decoded_type" where
  "prim_type s = DecodedType DkPrim s [] 0 [] []"

definition parts_type :: "decoded_kind \<Rightarrow> decoded_type list \<Rightarrow> u64 \<Rightarrow> decoded_type" where
  "parts_type k ps n = DecodedType k [] ps n [] []"

definition nominal_type :: "bytes list \<Rightarrow> decoded_type list \<Rightarrow> decoded_type" where
  "nominal_type path args = DecodedType DkNominal [] [] 0 path args"

record demangled =
  dm_kind :: sym_kind
  dm_path :: "bytes list"
  dm_name :: bytes
  dm_generics :: "decoded_type list"
  dm_owner :: "decoded_type option"

datatype demangle_error = NotAlcySymbol | UnknownVersion | Malformed

definition PREFIX :: bytes where "PREFIX = ''_A''"
definition VERSION :: bytes where "VERSION = ''1''"
definition LIST_END :: char where "LIST_END = CHR ''.''"
definition LENGTH_END :: char where "LENGTH_END = CHR '':''"

subsection \<open>Primitives\<close>

definition PRIMITIVES :: "(char \<times> bytes) list" where
  "PRIMITIVES =
     [(CHR ''b'', ''bool''), (CHR ''h'', ''i8''), (CHR ''H'', ''i16''), (CHR ''i'', ''i32''), (CHR ''I'', ''i64''),
      (CHR ''t'', ''u8''), (CHR ''T'', ''u16''), (CHR ''U'', ''u32''), (CHR ''L'', ''u64''), (CHR ''f'', ''f32''),
      (CHR ''F'', ''f64'')]"

definition primitive_spelling :: "char \<Rightarrow> bytes" where
  "primitive_spelling tag = (case map_of PRIMITIVES tag of Some s \<Rightarrow> s | None \<Rightarrow> [])"

definition primitive_tag :: "type_tag \<Rightarrow> char" where
  "primitive_tag tag =
     (if tag = TyI1 then CHR ''b'' else if tag = TyI8 then CHR ''h'' else if tag = TyI16 then CHR ''H''
      else if tag = TyI32 then CHR ''i'' else if tag = TyI64 then CHR ''I'' else if tag = TyU8 then CHR ''t''
      else if tag = TyU16 then CHR ''T'' else if tag = TyU32 then CHR ''U'' else if tag = TyU64 then CHR ''L''
      else if tag = TyF32 then CHR ''f'' else if tag = TyF64 then CHR ''F'' else CHR 0x00)"

definition kind_tag :: "sym_kind \<Rightarrow> char" where
  "kind_tag k = (case k of SyFree \<Rightarrow> CHR ''f'' | SyAssoc \<Rightarrow> CHR ''a'' | SyMethod \<Rightarrow> CHR ''m'' | SyForeign \<Rightarrow> CHR 0x00)"

subsection \<open>Encoding\<close>

text \<open>The buffer of digits, last digit first, and then the digits in reading order.\<close>

function digit_buffer :: "u64 \<Rightarrow> bytes" where
  "digit_buffer v =
     char_of (48 + unat v mod 10) # (if v div 10 \<noteq> 0 then digit_buffer (v div 10) else [])"
  by pat_completeness auto
termination
proof (relation "measure unat", simp, goal_cases)
  case (1 v)
  then have "unat (v div 10) \<noteq> 0" by (simp add: unat_eq_0)
  then have "0 < unat v div 10" by (simp add: unat_div_distrib)
  then show ?case by (simp add: unat_div_distrib)
qed

declare digit_buffer.simps [simp del]

definition append_u64 :: "u64 \<Rightarrow> bytes" where
  "append_u64 v = rev (digit_buffer v)"

definition append_length :: "nat \<Rightarrow> bytes" where
  "append_length n = append_u64 (of_nat n) @ [LENGTH_END]"

text \<open>The text before the first separator and the text after it.\<close>

fun find_separator :: "bytes \<Rightarrow> (bytes \<times> bytes) option" where
  "find_separator (a # b # cs) =
     (if a = CHR '':'' \<and> b = CHR '':'' then Some ([], cs)
      else map_option (\<lambda>(x, y). (a # x, y)) (find_separator (b # cs)))"
| "find_separator [a] = None"
| "find_separator [] = None"

lemma find_separator_Some: "find_separator p = Some (seg, rest) \<Longrightarrow> p = seg @ ''::'' @ rest"
  by (induction p arbitrary: seg rest rule: find_separator.induct) (auto split: if_splits)

function path_segments :: "bytes \<Rightarrow> bytes list" where
  "path_segments path =
     (case find_separator path of None \<Rightarrow> [path] | Some (segment, rest) \<Rightarrow> segment # path_segments rest)"
  by pat_completeness auto
termination
  by (relation "measure length") (auto dest!: find_separator_Some)

declare path_segments.simps [simp del]

definition append_name :: "bytes \<Rightarrow> bytes" where
  "append_name name = append_length (length name) @ name"

definition append_path :: "bytes \<Rightarrow> bytes" where
  "append_path path = concat (map append_name (path_segments path)) @ [LIST_END]"

primrec all_encoded :: "('a \<Rightarrow> 'b option) \<Rightarrow> 'a list \<Rightarrow> 'b list option" where
  "all_encoded f [] = Some []"
| "all_encoded f (x # xs) = do { y \<leftarrow> f x; ys \<leftarrow> all_encoded f xs; Some (y # ys) }"

definition encode_list :: "(nat \<Rightarrow> bytes option) \<Rightarrow> nat list \<Rightarrow> bytes option" where
  "encode_list enc tys = map_option concat (all_encoded enc tys)"

definition encode_nominal :: "(nat \<Rightarrow> bytes option) \<Rightarrow> (nat \<Rightarrow> bytes) \<Rightarrow> nat \<Rightarrow> idx_range \<Rightarrow> bytes option" where
  "encode_nominal enc strings name params = do {
     args \<leftarrow> encode_list enc (range_list params);
     Some (CHR ''n'' # append_path (strings name) @ append_length (rg_size params) @ args)
   }"

definition encode_pointee :: "(nat \<Rightarrow> bytes option) \<Rightarrow> storage_state \<Rightarrow> char \<Rightarrow> nat \<Rightarrow> bytes option" where
  "encode_pointee enc st tag d = do {
     r \<leftarrow> row (st_ref_types st) d;
     e \<leftarrow> enc (rty_pointee r);
     Some (tag # e)
   }"

definition encode_node :: "(nat \<Rightarrow> bytes option) \<Rightarrow> storage_state \<Rightarrow> (nat \<Rightarrow> bytes) \<Rightarrow> type_node \<Rightarrow> bytes option" where
  "encode_node enc st strings node =
     (let d = tn_data node in
      if primitive_tag (tn_tag node) \<noteq> CHR 0x00 then Some [primitive_tag (tn_tag node)]
      else case tn_tag node of
        TyStr \<Rightarrow> Some ''z''
      | TyRef \<Rightarrow> encode_pointee enc st CHR ''r'' d
      | TyMutRef \<Rightarrow> encode_pointee enc st CHR ''w'' d
      | TyRawPtr \<Rightarrow> encode_pointee enc st CHR ''P'' d
      | TyRawMutPtr \<Rightarrow> encode_pointee enc st CHR ''M'' d
      | TyPtr \<Rightarrow> Some ''p''
      | TySlice \<Rightarrow> do { s \<leftarrow> row (st_slice_types st) d; e \<leftarrow> enc (lty_element s); Some (CHR ''v'' # e) }
      | TyArray \<Rightarrow> do {
          a \<leftarrow> row (st_array_types st) d;
          e \<leftarrow> enc (aty_element a);
          Some (CHR ''y'' # append_length (unat (aty_count a)) @ e)
        }
      | TyConst \<Rightarrow> do { k \<leftarrow> row (st_const_types st) d; Some (CHR ''c'' # append_length (unat (cty_value k))) }
      | TyTuple \<Rightarrow> do {
          t \<leftarrow> row (st_tuple_types st) d;
          es \<leftarrow> encode_list enc (range_list (tty_elements t));
          Some (CHR ''u'' # append_length (rg_size (tty_elements t)) @ es)
        }
      | TyStruct \<Rightarrow> do { s \<leftarrow> row (st_struct_types st) d; encode_nominal enc strings (sty_name s) (sty_params s) }
      | TyEnum \<Rightarrow> do { s \<leftarrow> row (st_enum_types st) d; encode_nominal enc strings (ety_name s) (ety_params s) }
      | TyParam \<Rightarrow> Some (CHR ''D'' # append_length d)
      | TyVoid \<Rightarrow> Some ''o''
      | TyNever \<Rightarrow> Some ''x''
      | TyError \<Rightarrow> Some ''e''
      | TyFunction \<Rightarrow> Some ''k''
      | TyFunc \<Rightarrow> do {
          f \<leftarrow> row (st_func_types st) d;
          ps \<leftarrow> encode_list enc (range_list (fty_params f));
          r \<leftarrow> enc (fty_ret f);
          Some (CHR ''g'' # append_length (rg_size (fty_params f)) @ ps @ r)
        }
      | _ \<Rightarrow> Some [])"

fun encode_type :: "nat \<Rightarrow> storage_state \<Rightarrow> (nat \<Rightarrow> bytes) \<Rightarrow> nat \<Rightarrow> bytes option" where
  "encode_type 0 st strings ty = None"
| "encode_type (Suc fuel) st strings ty =
     Option.bind (row (st_types st) ty) (encode_node (encode_type fuel st strings) st strings)"

definition mangle :: "nat \<Rightarrow> storage_state \<Rightarrow> (nat \<Rightarrow> bytes) \<Rightarrow> signature \<Rightarrow> bytes option" where
  "mangle fuel st strings sg =
     (if sg_kind sg = SyForeign then Some (sg_name sg)
      else do {
        owner \<leftarrow> (if sg_kind sg = SyAssoc \<or> sg_kind sg = SyMethod then encode_type fuel st strings (sg_owner sg) else Some []);
        generics \<leftarrow> encode_list (encode_type fuel st strings) (sg_generics sg);
        Some (PREFIX @ VERSION @ [kind_tag (sg_kind sg)] @ append_path (sg_path sg) @ append_name (sg_name sg) @ owner @ generics)
      })"

subsection \<open>Decoding\<close>

text \<open>Every read takes the text that is left and gives what it read and the text after it.\<close>

fun read_char :: "bytes \<Rightarrow> (char \<times> bytes) option" where
  "read_char [] = None"
| "read_char (c # cs) = Some (c, cs)"

definition is_decimal :: "char \<Rightarrow> bool" where
  "is_decimal c \<longleftrightarrow> 48 \<le> (of_char c :: nat) \<and> (of_char c :: nat) \<le> 57"

fun read_digits :: "u64 \<Rightarrow> bytes \<Rightarrow> u64 \<times> bytes" where
  "read_digits v [] = (v, [])"
| "read_digits v (c # cs) =
     (if is_decimal c then read_digits (v * 10 + of_nat (of_char c - 48)) cs else (v, c # cs))"

definition read_u64 :: "bytes \<Rightarrow> (u64 \<times> bytes) option" where
  "read_u64 t = (case read_digits 0 t of (v, rest) \<Rightarrow> if length rest = length t then None else Some (v, rest))"

definition read_length :: "bytes \<Rightarrow> (u64 \<times> bytes) option" where
  "read_length t = do {
     (v, t1) \<leftarrow> read_u64 t;
     (c, t2) \<leftarrow> read_char t1;
     if c = LENGTH_END then Some (v, t2) else None
   }"

definition read_sized_name :: "bytes \<Rightarrow> (bytes \<times> bytes) option" where
  "read_sized_name t = do {
     (n, t1) \<leftarrow> read_length t;
     if length t1 < unat n then None else Some (take (unat n) t1, drop (unat n) t1)
   }"

lemma read_digits_length: "read_digits v t = (w, rest) \<Longrightarrow> length rest \<le> length t"
  by (induction v t arbitrary: w rest rule: read_digits.induct) (auto split: if_splits intro: le_SucI)

lemma read_length_shorter: "read_length t = Some (v, rest) \<Longrightarrow> length rest < length t"
  by (auto simp: read_length_def read_u64_def bind_eq_Some_conv split: prod.splits if_splits dest!: read_digits_length
      elim!: read_char.elims)

lemma read_sized_name_shorter: "read_sized_name t = Some (n, rest) \<Longrightarrow> length rest < length t"
  by (auto simp: read_sized_name_def bind_eq_Some_conv split: if_splits dest!: read_length_shorter)

function read_segments :: "bytes \<Rightarrow> (bytes list \<times> bytes) option" where
  "read_segments t =
     (case t of
        [] \<Rightarrow> None
      | c # cs \<Rightarrow>
          if c = LIST_END then Some ([], cs)
          else (case read_sized_name t of
                  None \<Rightarrow> None
                | Some (seg, t1) \<Rightarrow> map_option (\<lambda>(segs, t2). (seg # segs, t2)) (read_segments t1)))"
  by pat_completeness auto
termination
  by (relation "measure length") (auto dest!: read_sized_name_shorter)

declare read_segments.simps [simp del]

definition type_list_ended :: "bytes \<Rightarrow> bool" where
  "type_list_ended t \<longleftrightarrow> (case t of [] \<Rightarrow> True | c # _ \<Rightarrow> is_decimal c)"

definition plausible_count :: "u64 \<Rightarrow> bytes \<Rightarrow> bool" where
  "plausible_count count t \<longleftrightarrow> unat count \<le> length t"

text \<open>The loops that decode a counted list; \<^verbatim>\<open>dec\<close> is the decoder of one type.\<close>

type_synonym type_decoder = "bytes \<Rightarrow> (decoded_type \<times> bytes) option"

primrec decode_count :: "type_decoder \<Rightarrow> nat \<Rightarrow> bytes \<Rightarrow> (decoded_type list \<times> bytes) option" where
  "decode_count dec 0 t = Some ([], t)"
| "decode_count dec (Suc n) t = do {
     (d, t1) \<leftarrow> dec t;
     (ds, t2) \<leftarrow> decode_count dec n t1;
     Some (d # ds, t2)
   }"

definition decode_counted :: "type_decoder \<Rightarrow> bytes \<Rightarrow> (decoded_type list \<times> bytes) option" where
  "decode_counted dec t = do {
     (count, t1) \<leftarrow> read_length t;
     if plausible_count count t1 then decode_count dec (unat count) t1 else None
   }"

definition decode_part :: "type_decoder \<Rightarrow> decoded_kind \<Rightarrow> u64 \<Rightarrow> bytes \<Rightarrow> (decoded_type \<times> bytes) option" where
  "decode_part dec kind count t = do {
     (d, t1) \<leftarrow> dec t;
     Some (parts_type kind [d] count, t1)
   }"

definition decode_number :: "decoded_kind \<Rightarrow> bytes \<Rightarrow> (decoded_type \<times> bytes) option" where
  "decode_number kind t = do {
     (v, t1) \<leftarrow> read_length t;
     Some (parts_type kind [] v, t1)
   }"

definition decode_type_inner :: "type_decoder \<Rightarrow> bytes \<Rightarrow> (decoded_type \<times> bytes) option" where
  "decode_type_inner dec t = do {
     (tag, t1) \<leftarrow> read_char t;
     if primitive_spelling tag \<noteq> [] then Some (prim_type (primitive_spelling tag), t1)
     else if tag = CHR ''z'' then Some (simple_type DkStr, t1)
     else if tag = CHR ''v'' then decode_part dec DkSlice 0 t1
     else if tag = CHR ''p'' then Some (simple_type DkPtr, t1)
     else if tag = CHR ''r'' then decode_part dec DkRef 0 t1
     else if tag = CHR ''w'' then decode_part dec DkMutRef 0 t1
     else if tag = CHR ''P'' then decode_part dec DkRawPtr 0 t1
     else if tag = CHR ''M'' then decode_part dec DkRawMutPtr 0 t1
     else if tag = CHR ''y'' then do { (n, t2) \<leftarrow> read_length t1; decode_part dec DkArray n t2 }
     else if tag = CHR ''c'' then decode_number DkConst t1
     else if tag = CHR ''D'' then decode_number DkParam t1
     else if tag = CHR ''o'' then Some (simple_type DkUnit, t1)
     else if tag = CHR ''x'' then Some (simple_type DkNever, t1)
     else if tag = CHR ''e'' then Some (simple_type DkError, t1)
     else if tag = CHR ''k'' then Some (simple_type DkFunction, t1)
     else if tag = CHR ''g'' then do {
       (ps, t2) \<leftarrow> decode_counted dec t1;
       (r, t3) \<leftarrow> dec t2;
       Some (parts_type DkFunc (ps @ [r]) 0, t3)
     }
     else if tag = CHR ''u'' then do {
       (es, t2) \<leftarrow> decode_counted dec t1;
       Some (parts_type DkTuple es 0, t2)
     }
     else if tag = CHR ''n'' then do {
       (path, t2) \<leftarrow> read_segments t1;
       (args, t3) \<leftarrow> decode_counted dec t2;
       Some (nominal_type path args, t3)
     }
     else None
   }"

function decode_type :: "nesting_guard \<Rightarrow> bytes \<Rightarrow> (decoded_type \<times> bytes) option" where
  "decode_type g t = (if exhausted g then None else decode_type_inner (\<lambda>t1. decode_type (enter g) t1) t)"
  by pat_completeness auto
termination
proof (relation "measure (\<lambda>(g, t). unat (ng_limit g) - unat (ng_depth g))", simp, goal_cases)
  case (1 g t t1)
  then have less: "unat (ng_depth g) < unat (ng_limit g)" by (simp add: exhausted_def word_less_nat_alt not_le)
  then have "unat (ng_depth g + 1) = unat (ng_depth g) + 1"
    using unsigned_less [of "ng_limit g", where 'a = nat] by (simp add: unat_word_ariths)
  then show ?case using less by (simp add: enter_def)
qed

declare decode_type.simps [simp del]

text \<open>A decoded type costs at least one byte, which is what ends the loop over the type arguments.\<close>

definition consuming :: "type_decoder \<Rightarrow> bool" where
  "consuming dec \<longleftrightarrow> (\<forall>t d rest. dec t = Some (d, rest) \<longrightarrow> length rest < length t)"

lemma consumingD: "consuming dec \<Longrightarrow> dec t = Some (d, rest) \<Longrightarrow> length rest < length t"
  by (simp add: consuming_def)

lemma read_char_Some [simp]: "read_char t = Some (c, rest) \<longleftrightarrow> t = c # rest"
  by (cases t) auto

lemma read_segments_Nil [simp]: "read_segments [] = None"
  by (simp add: read_segments.simps)

lemma read_segments_end [simp]: "read_segments (LIST_END # cs) = Some ([], cs)"
  by (simp add: read_segments.simps)

lemma read_segments_Cons:
  "c \<noteq> LIST_END \<Longrightarrow> read_segments (c # cs) =
     (case read_sized_name (c # cs) of
        None \<Rightarrow> None
      | Some (seg, t1) \<Rightarrow> map_option (\<lambda>(segs, t2). (seg # segs, t2)) (read_segments t1))"
  by (subst read_segments.simps) simp

lemma read_segments_shorter: "read_segments t = Some (segs, rest) \<Longrightarrow> length rest < length t"
proof (induction t arbitrary: segs rest rule: length_induct)
  case (1 t)
  show ?case
  proof (cases t)
    case (Cons c cs)
    show ?thesis
    proof (cases "c = LIST_END")
      case False
      with 1 Cons obtain seg t1 segs1 where "read_sized_name t = Some (seg, t1)" "read_segments t1 = Some (segs1, rest)"
        by (auto simp: read_segments_Cons split: option.splits)
      then show ?thesis using "1.IH" read_sized_name_shorter by (meson less_trans)
    qed (use 1 Cons in simp)
  qed (use 1 in simp)
qed

lemma decode_count_length:
  assumes "consuming dec"
  shows "decode_count dec n t = Some (ds, rest) \<Longrightarrow> length rest \<le> length t \<and> length ds = n"
  by (induction n arbitrary: t ds rest) (fastforce simp: bind_eq_Some_conv dest: consumingD [OF assms])+

lemma decode_counted_shorter:
  "consuming dec \<Longrightarrow> decode_counted dec t = Some (ds, rest) \<Longrightarrow> length rest < length t"
  by (auto simp: decode_counted_def bind_eq_Some_conv split: if_splits dest!: decode_count_length read_length_shorter)

lemma decode_part_shorter:
  "consuming dec \<Longrightarrow> decode_part dec k n t = Some (d, rest) \<Longrightarrow> length rest < length t"
  by (auto simp: decode_part_def bind_eq_Some_conv dest!: consumingD)

lemma decode_number_shorter: "decode_number k t = Some (d, rest) \<Longrightarrow> length rest < length t"
  by (auto simp: decode_number_def bind_eq_Some_conv dest!: read_length_shorter)

lemma decode_type_inner_consuming:
  assumes dec: "consuming dec" shows "consuming (decode_type_inner dec)"
  unfolding consuming_def
proof (intro allI impI)
  fix t d rest assume "decode_type_inner dec t = Some (d, rest)"
  then show "length rest < length t"
    using dec unfolding decode_type_inner_def
    by (auto simp: bind_eq_Some_conv split: if_splits
        dest!: decode_part_shorter [OF dec] decode_counted_shorter [OF dec] decode_number_shorter consumingD [OF dec]
          read_segments_shorter read_length_shorter)
qed

lemma decode_type_consuming: "consuming (decode_type g)"
proof (induction g rule: measure_induct_rule [of "\<lambda>g. unat (ng_limit g) - unat (ng_depth g)"])
  case (less g)
  show ?case
  proof (cases "exhausted g")
    case True
    then show ?thesis by (simp add: consuming_def decode_type.simps [of g])
  next
    case False
    then have deep: "unat (ng_depth g) < unat (ng_limit g)" by (simp add: exhausted_def word_less_nat_alt not_le)
    then have "unat (ng_depth g + 1) = unat (ng_depth g) + 1"
      using unsigned_less [of "ng_limit g", where 'a = nat] by (simp add: unat_word_ariths)
    then have "consuming (decode_type (enter g))" using less deep by (simp add: enter_def)
    moreover have "decode_type g = decode_type_inner (decode_type (enter g))"
      using False by (simp add: decode_type.simps [of g] fun_eq_iff)
    ultimately show ?thesis by (simp add: decode_type_inner_consuming)
  qed
qed

function decode_generics :: "nesting_guard \<Rightarrow> bytes \<Rightarrow> (decoded_type list \<times> bytes) option" where
  "decode_generics g t =
     (if type_list_ended t then Some ([], t)
      else case decode_type g t of
             None \<Rightarrow> None
           | Some (d, t1) \<Rightarrow> map_option (\<lambda>(ds, t2). (d # ds, t2)) (decode_generics g t1))"
  by pat_completeness auto
termination
  by (relation "measure (\<lambda>(g, t). length t)") (auto dest: consumingD [OF decode_type_consuming])

declare decode_generics.simps [simp del]

definition tag_kind :: "char \<Rightarrow> sym_kind option" where
  "tag_kind c =
     (if c = CHR ''f'' then Some SyFree else if c = CHR ''a'' then Some SyAssoc
      else if c = CHR ''m'' then Some SyMethod else None)"

definition member_kind :: "sym_kind \<Rightarrow> bool" where
  "member_kind k \<longleftrightarrow> k = SyAssoc \<or> k = SyMethod"

definition demangle_body :: "bytes \<Rightarrow> demangled option" where
  "demangle_body t = do {
     (c, t1) \<leftarrow> read_char t;
     kind \<leftarrow> tag_kind c;
     (path, t2) \<leftarrow> read_segments t1;
     (name, t3) \<leftarrow> read_sized_name t2;
     (owner, t4) \<leftarrow> (if member_kind kind
                     then map_option (\<lambda>(d, t'). (Some d, t')) (decode_type (new_guard MAX_NESTING) t3)
                     else Some (None, t3));
     (generics, t5) \<leftarrow> decode_generics (new_guard MAX_NESTING) t4;
     if t5 = [] then Some \<lparr>dm_kind = kind, dm_path = path, dm_name = name, dm_generics = generics, dm_owner = owner\<rparr>
     else None
   }"

definition demangle :: "bytes \<Rightarrow> demangle_error + demangled" where
  "demangle txt =
     (if take (length PREFIX) txt \<noteq> PREFIX then Inl NotAlcySymbol
      else case drop (length PREFIX) txt of
             [] \<Rightarrow> Inl UnknownVersion
           | v # body \<Rightarrow>
               if v \<noteq> hd VERSION then Inl UnknownVersion
               else (case demangle_body body of None \<Rightarrow> Inl Malformed | Some d \<Rightarrow> Inr d))"

subsection \<open>Display\<close>

primrec join_texts :: "bytes \<Rightarrow> bytes list \<Rightarrow> bytes" where
  "join_texts sep [] = []"
| "join_texts sep (x # xs) = x @ (if xs = [] then [] else sep @ join_texts sep xs)"

text \<open>\<^verbatim>\<open>parts.at(0)\<close> of a list with no parts does not return.\<close>

definition first_shown :: "bytes option list \<Rightarrow> bytes option" where
  "first_shown shown = (case shown of [] \<Rightarrow> None | s # _ \<Rightarrow> s)"

definition display_kind ::
  "decoded_kind \<Rightarrow> bytes \<Rightarrow> bytes option list \<Rightarrow> u64 \<Rightarrow> bytes list \<Rightarrow> bytes option list \<Rightarrow> bytes option" where
  "display_kind k spelling parts count path args =
     (case k of
        DkPrim \<Rightarrow> Some spelling
      | DkStr \<Rightarrow> Some ''str''
      | DkSlice \<Rightarrow> map_option (\<lambda>s. ''['' @ s @ '']'') (first_shown parts)
      | DkPtr \<Rightarrow> Some ''ptr''
      | DkRef \<Rightarrow> map_option (\<lambda>s. ''&'' @ s) (first_shown parts)
      | DkMutRef \<Rightarrow> map_option (\<lambda>s. ''&mut '' @ s) (first_shown parts)
      | DkRawPtr \<Rightarrow> map_option (\<lambda>s. ''*'' @ s) (first_shown parts)
      | DkRawMutPtr \<Rightarrow> map_option (\<lambda>s. ''*mut '' @ s) (first_shown parts)
      | DkArray \<Rightarrow> map_option (\<lambda>s. ''['' @ s @ ''; '' @ append_u64 count @ '']'') (first_shown parts)
      | DkConst \<Rightarrow> Some (append_u64 count)
      | DkParam \<Rightarrow> Some (''T'' @ append_u64 count)
      | DkTuple \<Rightarrow> map_option (\<lambda>ss. ''('' @ join_texts '','' ss @ '')'') (all_encoded (\<lambda>s. s) parts)
      | DkNominal \<Rightarrow>
          map_option (\<lambda>ss. join_texts ''::'' path @ ''<'' @ join_texts '','' ss @ ''>'') (all_encoded (\<lambda>s. s) args)
      | DkUnit \<Rightarrow> Some ''()''
      | DkNever \<Rightarrow> Some ''!''
      | DkError \<Rightarrow> Some ''error''
      | DkFunction \<Rightarrow> Some ''fn''
      | DkFunc \<Rightarrow>
          (if parts = [] then Some ''fn''
           else map_option (\<lambda>ss. ''fn('' @ join_texts '','' (butlast ss) @ '') -> '' @ last ss) (all_encoded (\<lambda>s. s) parts)))"

fun display :: "decoded_type \<Rightarrow> bytes option" where
  "display (DecodedType k spelling parts count path args) =
     display_kind k spelling (map display parts) count path (map display args)"

subsection \<open>Reading back what was appended\<close>

lemma digit_value: "(of_char (char_of (48 + unat (v :: u64) mod 10) :: char) :: nat) = 48 + unat v mod 10"
proof -
  have "unat v mod 10 < 10" by simp
  then have "48 + unat v mod 10 < 256" by linarith
  then show ?thesis by (simp only: of_char_of mod_less)
qed

lemma is_decimal_digit: "is_decimal (char_of (48 + unat (v :: u64) mod 10))"
proof -
  have "unat v mod 10 \<le> 9" using mod_less_divisor [of 10 "unat v"] by simp
  then show ?thesis by (simp add: is_decimal_def digit_value)
qed

lemma word_div_mod_10: "(v div 10) * 10 + of_nat (unat v mod 10) = (v :: u64)"
proof -
  have "of_nat (unat v mod 10) = v mod 10"
    by (simp add: word_eq_iff_unsigned [where 'a = nat] unat_mod_distrib unat_of_nat)
  then show ?thesis by (simp only: div_mult_mod_eq)
qed

lemma read_digits_buffer: "read_digits 0 (rev (digit_buffer v) @ t) = read_digits v t"
proof (induction v arbitrary: t rule: digit_buffer.induct)
  case (1 v)
  let ?d = "char_of (48 + unat v mod 10)"
  show ?case
  proof (cases "v div 10 = 0")
    case True
    have "of_nat (unat v mod 10) = v" using word_div_mod_10 [of v] True by simp
    then show ?thesis by (simp add: digit_buffer.simps [of v] True is_decimal_digit digit_value)
  next
    case False
    have "read_digits 0 (rev (digit_buffer v) @ t) = read_digits (v div 10) (?d # t)"
      using "1.IH" [OF False, of "?d # t"] False by (simp add: digit_buffer.simps [of v])
    then show ?thesis using word_div_mod_10 [of v] by (simp add: is_decimal_digit digit_value)
  qed
qed

lemma append_u64_Cons: "\<exists>c cs. append_u64 v = c # cs \<and> is_decimal c"
proof (induction v rule: digit_buffer.induct)
  case (1 v)
  then show ?case
    by (cases "v div 10 = 0") (auto simp: append_u64_def digit_buffer.simps [of v] is_decimal_digit)
qed

lemma length_end_not_digit [simp]: "\<not> is_decimal LENGTH_END"
  by (simp add: is_decimal_def LENGTH_END_def)

lemma list_end_not_digit [simp]: "\<not> is_decimal LIST_END"
  by (simp add: is_decimal_def LIST_END_def)

lemma read_length_append [simp]: "read_length (append_length n @ t) = Some (of_nat n, t)"
proof -
  have "read_digits 0 (append_u64 (of_nat n) @ LENGTH_END # t) = (of_nat n, LENGTH_END # t)"
    by (simp add: append_u64_def read_digits_buffer)
  moreover have "append_u64 (of_nat n) \<noteq> []" using append_u64_Cons [of "of_nat n"] by auto
  ultimately show ?thesis by (simp add: read_length_def read_u64_def append_length_def)
qed

lemma read_sized_name_append [simp]: "length nm < 2 ^ 64 \<Longrightarrow> read_sized_name (append_name nm @ t) = Some (nm, t)"
  by (simp add: read_sized_name_def append_name_def unat_of_nat)

lemma append_name_Cons: "\<exists>c cs. append_name nm = c # cs \<and> is_decimal c"
  using append_u64_Cons [of "of_nat (length nm)"] by (auto simp: append_name_def append_length_def)

lemma read_segments_append:
  "list_all (\<lambda>nm. length nm < 2 ^ 64) segs \<Longrightarrow>
   read_segments (concat (map append_name segs) @ LIST_END # t) = Some (segs, t)"
proof (induction segs)
  case (Cons nm segs)
  obtain c cs where c: "append_name nm = c # cs" "is_decimal c" using append_name_Cons by blast
  then have "c \<noteq> LIST_END" by auto
  moreover have "read_sized_name (append_name nm @ u) = Some (nm, u)" for u using Cons.prems by simp
  then have "read_sized_name (c # cs @ u) = Some (nm, u)" for u by (simp add: c)
  ultimately show ?case using Cons by (simp add: c read_segments_Cons)
qed simp

lemma path_segments_joined: "join_texts ''::'' (path_segments p) = p"
proof (induction p rule: path_segments.induct)
  case (1 p)
  show ?case
  proof (cases "find_separator p")
    case (Some a)
    then obtain seg rest where a: "find_separator p = Some (seg, rest)" by (cases a) auto
    moreover have "path_segments rest \<noteq> []" by (subst path_segments.simps) (auto split: option.splits)
    moreover have "join_texts ''::'' (path_segments p) = join_texts ''::'' (seg # path_segments rest)"
      using a by (simp add: path_segments.simps [of p])
    ultimately show ?thesis using "1.IH" [OF a refl] find_separator_Some [OF a] by simp
  qed (simp add: path_segments.simps [of p])
qed

lemma joined_lengths: "x \<in> set xs \<Longrightarrow> length x \<le> length (join_texts sep xs)"
  by (induction xs) auto

lemma read_path_append [simp]:
  "length p < 2 ^ 64 \<Longrightarrow> read_segments (append_path p @ t) = Some (path_segments p, t)"
proof -
  assume "length p < 2 ^ 64"
  then have "list_all (\<lambda>nm. length nm < 2 ^ 64) (path_segments p)"
    unfolding list_all_iff using joined_lengths [of _ "path_segments p" "''::''"] path_segments_joined [of p]
    by (metis le_less_trans)
  then show ?thesis by (simp add: append_path_def read_segments_append)
qed

subsection \<open>What a symbol says\<close>

text \<open>
  The description of a type of the table, read off the table and not off an encoding: this is the
  specification that a decoded symbol is held against.
\<close>

definition source_spelling :: "type_tag \<Rightarrow> bytes" where
  "source_spelling tag =
     (case tag of TyI1 \<Rightarrow> ''bool'' | TyI8 \<Rightarrow> ''i8'' | TyI16 \<Rightarrow> ''i16'' | TyI32 \<Rightarrow> ''i32'' | TyI64 \<Rightarrow> ''i64''
      | TyU8 \<Rightarrow> ''u8'' | TyU16 \<Rightarrow> ''u16'' | TyU32 \<Rightarrow> ''u32'' | TyU64 \<Rightarrow> ''u64'' | TyF32 \<Rightarrow> ''f32'' | TyF64 \<Rightarrow> ''f64''
      | _ \<Rightarrow> [])"

definition describe_node ::
  "(nat \<Rightarrow> decoded_type option) \<Rightarrow> storage_state \<Rightarrow> (nat \<Rightarrow> bytes) \<Rightarrow> type_node \<Rightarrow> decoded_type option" where
  "describe_node desc st strings node =
     (let d = tn_data node;
          one = (\<lambda>k n ty. map_option (\<lambda>e. parts_type k [e] n) (desc ty));
          pointee = (\<lambda>k. Option.bind (row (st_ref_types st) d) (\<lambda>r. one k 0 (rty_pointee r)));
          nominal = (\<lambda>name ps. map_option (nominal_type (path_segments (strings name))) (all_encoded desc (range_list ps)))
      in case tn_tag node of
        TyStr \<Rightarrow> Some (simple_type DkStr)
      | TyRef \<Rightarrow> pointee DkRef
      | TyMutRef \<Rightarrow> pointee DkMutRef
      | TyRawPtr \<Rightarrow> pointee DkRawPtr
      | TyRawMutPtr \<Rightarrow> pointee DkRawMutPtr
      | TyPtr \<Rightarrow> Some (simple_type DkPtr)
      | TySlice \<Rightarrow> Option.bind (row (st_slice_types st) d) (\<lambda>s. one DkSlice 0 (lty_element s))
      | TyArray \<Rightarrow> Option.bind (row (st_array_types st) d) (\<lambda>a. one DkArray (aty_count a) (aty_element a))
      | TyConst \<Rightarrow> map_option (\<lambda>k. parts_type DkConst [] (cty_value k)) (row (st_const_types st) d)
      | TyTuple \<Rightarrow> do {
          t \<leftarrow> row (st_tuple_types st) d;
          es \<leftarrow> all_encoded desc (range_list (tty_elements t));
          Some (parts_type DkTuple es 0)
        }
      | TyStruct \<Rightarrow> Option.bind (row (st_struct_types st) d) (\<lambda>s. nominal (sty_name s) (sty_params s))
      | TyEnum \<Rightarrow> Option.bind (row (st_enum_types st) d) (\<lambda>s. nominal (ety_name s) (ety_params s))
      | TyParam \<Rightarrow> Some (parts_type DkParam [] (of_nat d))
      | TyVoid \<Rightarrow> Some (simple_type DkUnit)
      | TyNever \<Rightarrow> Some (simple_type DkNever)
      | TyError \<Rightarrow> Some (simple_type DkError)
      | TyFunction \<Rightarrow> Some (simple_type DkFunction)
      | TyFunc \<Rightarrow> do {
          f \<leftarrow> row (st_func_types st) d;
          ps \<leftarrow> all_encoded desc (range_list (fty_params f));
          r \<leftarrow> desc (fty_ret f);
          Some (parts_type DkFunc (ps @ [r]) 0)
        }
      | prim \<Rightarrow> Some (prim_type (source_spelling prim)))"

fun describe_type :: "nat \<Rightarrow> storage_state \<Rightarrow> (nat \<Rightarrow> bytes) \<Rightarrow> nat \<Rightarrow> decoded_type option" where
  "describe_type 0 st strings ty = None"
| "describe_type (Suc fuel) st strings ty =
     Option.bind (row (st_types st) ty) (describe_node (describe_type fuel st strings) st strings)"

text \<open>Counts and lengths are 32 and 64 bits wide in the source.\<close>

definition sizes_fit :: "storage_state \<Rightarrow> (nat \<Rightarrow> bytes) \<Rightarrow> bool" where
  "sizes_fit st strings \<longleftrightarrow>
     (\<forall>i. length (strings i) < 2 ^ 64)
     \<and> list_all (\<lambda>s. rg_size (sty_params s) < 2 ^ 32) (st_struct_types st)
     \<and> list_all (\<lambda>s. rg_size (ety_params s) < 2 ^ 32) (st_enum_types st)
     \<and> list_all (\<lambda>s. rg_size (tty_elements s) < 2 ^ 32) (st_tuple_types st)
     \<and> list_all (\<lambda>s. rg_size (fty_params s) < 2 ^ 32) (st_func_types st)"

text \<open>
  An encoder and a description agree on a decoder: what the first writes is not empty, the
  second is defined where the first is, and the decoder gives the second back and stops where the first did.
\<close>

definition reads_back :: "type_decoder \<Rightarrow> bytes \<Rightarrow> decoded_type \<Rightarrow> bool" where
  "reads_back dec bs d \<longleftrightarrow> bs \<noteq> [] \<and> (\<forall>t. dec (bs @ t) = Some (d, t))"

definition codec :: "(nat \<Rightarrow> bytes option) \<Rightarrow> (nat \<Rightarrow> decoded_type option) \<Rightarrow> type_decoder \<Rightarrow> bool" where
  "codec enc desc dec \<longleftrightarrow> (\<forall>ty bs. enc ty = Some bs \<longrightarrow> (\<exists>d. desc ty = Some d \<and> reads_back dec bs d))"

lemma codecE:
  assumes "codec enc desc dec" "enc ty = Some bs"
  obtains d where "desc ty = Some d" "bs \<noteq> []" "\<forall>t. dec (bs @ t) = Some (d, t)"
  using assms unfolding codec_def reads_back_def by blast

lemma encode_list_reads_back:
  assumes "codec enc desc dec" "encode_list enc tys = Some bs"
  obtains ds where "all_encoded desc tys = Some ds" "length tys \<le> length bs"
    "\<forall>t. decode_count dec (length tys) (bs @ t) = Some (ds, t)"
proof -
  obtain bss where bss: "all_encoded enc tys = Some bss" "bs = concat bss"
    using assms(2) by (auto simp: encode_list_def)
  have "\<exists>ds. all_encoded desc tys = Some ds \<and> length tys \<le> length (concat bss)
      \<and> (\<forall>t. decode_count dec (length tys) (concat bss @ t) = Some (ds, t))"
    using bss(1)
  proof (induction tys arbitrary: bss)
    case (Cons ty tys)
    then obtain b bs' where b: "enc ty = Some b" "all_encoded enc tys = Some bs'" "bss = b # bs'"
      by (auto simp: bind_eq_Some_conv)
    obtain d where "desc ty = Some d" "b \<noteq> []" "\<forall>t. dec (b @ t) = Some (d, t)" using codecE [OF assms(1) b(1)] .
    moreover from Cons.IH [OF b(2)] obtain ds where "all_encoded desc tys = Some ds"
      "length tys \<le> length (concat bs')" "\<forall>t. decode_count dec (length tys) (concat bs' @ t) = Some (ds, t)" by blast
    ultimately show ?case using b(3) by (cases b) auto
  qed simp
  then show thesis using that bss(2) by blast
qed

lemma decode_counted_append:
  assumes "codec enc desc dec" "encode_list enc (range_list r) = Some bs" "rg_size r < 2 ^ 32"
  obtains ds where "all_encoded desc (range_list r) = Some ds"
    "\<forall>t. decode_counted dec (append_length (rg_size r) @ bs @ t) = Some (ds, t)"
proof -
  obtain ds where ds: "all_encoded desc (range_list r) = Some ds" "length (range_list r) \<le> length bs"
    "\<forall>t. decode_count dec (length (range_list r)) (bs @ t) = Some (ds, t)"
    using encode_list_reads_back [OF assms(1,2)] .
  moreover have "rg_size r < 2 ^ 64" using assms(3) by simp
  then have "unat (of_nat (rg_size r) :: u64) = rg_size r" by (simp add: unat_of_nat)
  ultimately have "decode_counted dec (append_length (rg_size r) @ bs @ t) = Some (ds, t)" for t
    by (simp add: decode_counted_def plausible_count_def range_list_def)
  then show thesis using that ds(1) by blast
qed

lemma primitive_spelling_tags [simp]:
  "primitive_spelling CHR ''z'' = []" "primitive_spelling CHR ''v'' = []" "primitive_spelling CHR ''p'' = []"
  "primitive_spelling CHR ''r'' = []" "primitive_spelling CHR ''w'' = []" "primitive_spelling CHR ''P'' = []"
  "primitive_spelling CHR ''M'' = []" "primitive_spelling CHR ''y'' = []" "primitive_spelling CHR ''c'' = []"
  "primitive_spelling CHR ''D'' = []" "primitive_spelling CHR ''o'' = []" "primitive_spelling CHR ''x'' = []"
  "primitive_spelling CHR ''e'' = []" "primitive_spelling CHR ''k'' = []" "primitive_spelling CHR ''g'' = []"
  "primitive_spelling CHR ''u'' = []" "primitive_spelling CHR ''n'' = []"
  by (simp_all add: primitive_spelling_def PRIMITIVES_def)

lemma decode_type_inner_tags [simp]:
  "decode_type_inner dec (CHR ''z'' # t) = Some (simple_type DkStr, t)"
  "decode_type_inner dec (CHR ''v'' # t) = decode_part dec DkSlice 0 t"
  "decode_type_inner dec (CHR ''p'' # t) = Some (simple_type DkPtr, t)"
  "decode_type_inner dec (CHR ''r'' # t) = decode_part dec DkRef 0 t"
  "decode_type_inner dec (CHR ''w'' # t) = decode_part dec DkMutRef 0 t"
  "decode_type_inner dec (CHR ''P'' # t) = decode_part dec DkRawPtr 0 t"
  "decode_type_inner dec (CHR ''M'' # t) = decode_part dec DkRawMutPtr 0 t"
  "decode_type_inner dec (CHR ''y'' # t) = do { (n, t2) \<leftarrow> read_length t; decode_part dec DkArray n t2 }"
  "decode_type_inner dec (CHR ''c'' # t) = decode_number DkConst t"
  "decode_type_inner dec (CHR ''D'' # t) = decode_number DkParam t"
  "decode_type_inner dec (CHR ''o'' # t) = Some (simple_type DkUnit, t)"
  "decode_type_inner dec (CHR ''x'' # t) = Some (simple_type DkNever, t)"
  "decode_type_inner dec (CHR ''e'' # t) = Some (simple_type DkError, t)"
  "decode_type_inner dec (CHR ''k'' # t) = Some (simple_type DkFunction, t)"
  "decode_type_inner dec (CHR ''g'' # t) = do {
     (ps, t2) \<leftarrow> decode_counted dec t; (r, t3) \<leftarrow> dec t2; Some (parts_type DkFunc (ps @ [r]) 0, t3) }"
  "decode_type_inner dec (CHR ''u'' # t) = do { (es, t2) \<leftarrow> decode_counted dec t; Some (parts_type DkTuple es 0, t2) }"
  "decode_type_inner dec (CHR ''n'' # t) = do {
     (path, t2) \<leftarrow> read_segments t; (args, t3) \<leftarrow> decode_counted dec t2; Some (nominal_type path args, t3) }"
  by (simp_all add: decode_type_inner_def)

lemma decode_type_inner_prim:
  "primitive_spelling c \<noteq> [] \<Longrightarrow> decode_type_inner dec (c # t) = Some (prim_type (primitive_spelling c), t)"
  by (simp add: decode_type_inner_def)

lemma primitive_tag_none [simp]:
  "primitive_tag TyStr = CHR 0x00" "primitive_tag TyPtr = CHR 0x00" "primitive_tag TyRef = CHR 0x00"
  "primitive_tag TyMutRef = CHR 0x00" "primitive_tag TyRawPtr = CHR 0x00" "primitive_tag TyRawMutPtr = CHR 0x00"
  "primitive_tag TyStruct = CHR 0x00" "primitive_tag TyArray = CHR 0x00" "primitive_tag TyFunction = CHR 0x00"
  "primitive_tag TyEnum = CHR 0x00" "primitive_tag TySlice = CHR 0x00" "primitive_tag TyNever = CHR 0x00"
  "primitive_tag TyTuple = CHR 0x00" "primitive_tag TyError = CHR 0x00" "primitive_tag TyFunc = CHR 0x00"
  "primitive_tag TyConst = CHR 0x00" "primitive_tag TyParam = CHR 0x00" "primitive_tag TyVoid = CHR 0x00"
  by (simp_all add: primitive_tag_def)

lemma primitive_tag_spelling:
  "primitive_tag tag \<noteq> CHR 0x00 \<Longrightarrow>
   primitive_spelling (primitive_tag tag) = source_spelling tag \<and> source_spelling tag \<noteq> []"
  by (cases tag) (simp_all add: primitive_tag_def primitive_spelling_def PRIMITIVES_def source_spelling_def)

lemma describe_primitive:
  "primitive_tag (tn_tag node) \<noteq> CHR 0x00 \<Longrightarrow>
   describe_node desc st strings node = Some (prim_type (source_spelling (tn_tag node)))"
  by (cases "tn_tag node") (simp_all add: describe_node_def)

lemma row_in_set: "row xs i = Some x \<Longrightarrow> x \<in> set xs"
  by (auto simp: row_def split: if_splits)

lemma sizes_fitD:
  assumes "sizes_fit st strings"
  shows "row (st_struct_types st) i = Some s \<Longrightarrow> rg_size (sty_params s) < 2 ^ 32"
    and "row (st_enum_types st) i = Some en \<Longrightarrow> rg_size (ety_params en) < 2 ^ 32"
    and "row (st_tuple_types st) i = Some tu \<Longrightarrow> rg_size (tty_elements tu) < 2 ^ 32"
    and "row (st_func_types st) i = Some fu \<Longrightarrow> rg_size (fty_params fu) < 2 ^ 32"
    and "length (strings i) < 2 ^ 64"
  using assms unfolding sizes_fit_def list_all_iff by (auto dest!: row_in_set)

lemma encode_pointee_reads_back:
  assumes "codec enc desc dec" "encode_pointee enc st tag d = Some bs"
    and tag: "\<And>t. decode_type_inner dec (tag # t) = decode_part dec k 0 t"
  shows "\<exists>x. Option.bind (row (st_ref_types st) d) (\<lambda>r. map_option (\<lambda>e. parts_type k [e] 0) (desc (rty_pointee r))) = Some x
      \<and> reads_back (decode_type_inner dec) bs x"
proof -
  obtain r e where r: "row (st_ref_types st) d = Some r" "enc (rty_pointee r) = Some e" "bs = tag # e"
    using assms(2) by (auto simp: encode_pointee_def bind_eq_Some_conv)
  obtain x where "desc (rty_pointee r) = Some x" "\<forall>t. dec (e @ t) = Some (x, t)" using codecE [OF assms(1) r(2)] .
  then show ?thesis using r by (simp add: reads_back_def tag decode_part_def)
qed

lemma encode_nominal_reads_back:
  assumes "codec enc desc dec" "encode_nominal enc strings name r = Some bs"
    and "rg_size r < 2 ^ 32" "length (strings name) < 2 ^ 64"
  shows "\<exists>x. map_option (nominal_type (path_segments (strings name))) (all_encoded desc (range_list r)) = Some x
      \<and> reads_back (decode_type_inner dec) bs x"
proof -
  obtain e where e: "encode_list enc (range_list r) = Some e"
    "bs = CHR ''n'' # append_path (strings name) @ append_length (rg_size r) @ e"
    using assms(2) by (auto simp: encode_nominal_def bind_eq_Some_conv)
  obtain ds where "all_encoded desc (range_list r) = Some ds"
    "\<forall>t. decode_counted dec (append_length (rg_size r) @ e @ t) = Some (ds, t)"
    using decode_counted_append [OF assms(1) e(1) assms(3)] .
  then show ?thesis using e(2) assms(4) by (simp add: reads_back_def)
qed

lemma encode_tuple_reads_back:
  assumes "codec enc desc dec" "encode_list enc (range_list r) = Some e" "rg_size r < 2 ^ 32"
  shows "\<exists>es. all_encoded desc (range_list r) = Some es
      \<and> reads_back (decode_type_inner dec) (CHR ''u'' # append_length (rg_size r) @ e) (parts_type DkTuple es 0)"
proof -
  obtain ds where "all_encoded desc (range_list r) = Some ds"
    "\<forall>t. decode_counted dec (append_length (rg_size r) @ e @ t) = Some (ds, t)"
    using decode_counted_append [OF assms] .
  then show ?thesis by (simp add: reads_back_def)
qed

lemma encode_func_reads_back:
  assumes "codec enc desc dec" "encode_list enc (range_list r) = Some e" "rg_size r < 2 ^ 32" "enc ret = Some b"
  shows "\<exists>ps x. all_encoded desc (range_list r) = Some ps \<and> desc ret = Some x
      \<and> reads_back (decode_type_inner dec) (CHR ''g'' # append_length (rg_size r) @ e @ b) (parts_type DkFunc (ps @ [x]) 0)"
proof -
  obtain ds where "all_encoded desc (range_list r) = Some ds"
    "\<forall>t. decode_counted dec (append_length (rg_size r) @ e @ t) = Some (ds, t)"
    using decode_counted_append [OF assms(1-3)] .
  moreover obtain x where "desc ret = Some x" "\<forall>t. dec (b @ t) = Some (x, t)" using codecE [OF assms(1,4)] .
  ultimately show ?thesis by (simp add: reads_back_def)
qed

lemma encode_node_reads_back:
  assumes c: "codec enc desc dec" and fit: "sizes_fit st strings" and e: "encode_node enc st strings node = Some bs"
  shows "\<exists>d. describe_node desc st strings node = Some d \<and> reads_back (decode_type_inner dec) bs d"
proof (cases "primitive_tag (tn_tag node) = CHR 0x00")
  case False
  then have "bs = [primitive_tag (tn_tag node)]" using e by (simp add: encode_node_def)
  then show ?thesis
    using False primitive_tag_spelling [OF False] by (simp add: describe_primitive reads_back_def decode_type_inner_prim)
next
  case True
  note defs = encode_node_def describe_node_def Let_def
  show ?thesis
  proof (cases "tn_tag node")
    case TyRef
    then show ?thesis using e encode_pointee_reads_back [OF c] by (simp add: defs)
  next
    case TyMutRef
    then show ?thesis using e encode_pointee_reads_back [OF c] by (simp add: defs)
  next
    case TyRawPtr
    then show ?thesis using e encode_pointee_reads_back [OF c] by (simp add: defs)
  next
    case TyRawMutPtr
    then show ?thesis using e encode_pointee_reads_back [OF c] by (simp add: defs)
  next
    case TySlice
    with e obtain s b where s: "row (st_slice_types st) (tn_data node) = Some s" "enc (lty_element s) = Some b" "bs = CHR ''v'' # b"
      by (auto simp: defs bind_eq_Some_conv)
    obtain x where "desc (lty_element s) = Some x" "\<forall>t. dec (b @ t) = Some (x, t)" using codecE [OF c s(2)] .
    then show ?thesis using TySlice s by (simp add: defs reads_back_def decode_part_def)
  next
    case TyArray
    with e obtain a b where a: "row (st_array_types st) (tn_data node) = Some a" "enc (aty_element a) = Some b"
      "bs = CHR ''y'' # append_length (unat (aty_count a)) @ b"
      by (auto simp: defs bind_eq_Some_conv)
    obtain x where "desc (aty_element a) = Some x" "\<forall>t. dec (b @ t) = Some (x, t)" using codecE [OF c a(2)] .
    then show ?thesis using TyArray a by (simp add: defs reads_back_def decode_part_def)
  next
    case TyStruct
    with e obtain s where s: "row (st_struct_types st) (tn_data node) = Some s"
      "encode_nominal enc strings (sty_name s) (sty_params s) = Some bs"
      by (auto simp: defs bind_eq_Some_conv)
    then have "rg_size (sty_params s) < 2 ^ 32" using sizes_fitD [OF fit] by blast
    from encode_nominal_reads_back [OF c s(2) this sizes_fitD(5) [OF fit]] show ?thesis using s TyStruct by (simp add: defs)
  next
    case TyEnum
    with e obtain s where s: "row (st_enum_types st) (tn_data node) = Some s"
      "encode_nominal enc strings (ety_name s) (ety_params s) = Some bs"
      by (auto simp: defs bind_eq_Some_conv)
    then have "rg_size (ety_params s) < 2 ^ 32" using sizes_fitD [OF fit] by blast
    from encode_nominal_reads_back [OF c s(2) this sizes_fitD(5) [OF fit]] show ?thesis using s TyEnum by (simp add: defs)
  next
    case TyTuple
    with e obtain s b where s: "row (st_tuple_types st) (tn_data node) = Some s"
      "encode_list enc (range_list (tty_elements s)) = Some b" "bs = CHR ''u'' # append_length (rg_size (tty_elements s)) @ b"
      by (auto simp: defs bind_eq_Some_conv)
    then have "rg_size (tty_elements s) < 2 ^ 32" using sizes_fitD [OF fit] by blast
    from encode_tuple_reads_back [OF c s(2) this] show ?thesis using s TyTuple by (auto simp: defs)
  next
    case TyFunc
    with e obtain s b r where s: "row (st_func_types st) (tn_data node) = Some s"
      "encode_list enc (range_list (fty_params s)) = Some b" "enc (fty_ret s) = Some r"
      "bs = CHR ''g'' # append_length (rg_size (fty_params s)) @ b @ r"
      by (auto simp: defs bind_eq_Some_conv)
    then have "rg_size (fty_params s) < 2 ^ 32" using sizes_fitD [OF fit] by blast
    from encode_func_reads_back [OF c s(2) this s(3)] show ?thesis using s TyFunc by (auto simp: defs)
  qed (use e True in \<open>auto simp: defs reads_back_def decode_number_def bind_eq_Some_conv primitive_tag_def\<close>)
qed

text \<open>The budget that is left; a type that nests no deeper decodes.\<close>

definition budget :: "nesting_guard \<Rightarrow> nat" where
  "budget g = unat (ng_limit g) - unat (ng_depth g)"

lemma budget_enter: "0 < budget g \<Longrightarrow> \<not> exhausted g \<and> budget (enter g) = budget g - 1"
proof -
  assume "0 < budget g"
  then have deep: "unat (ng_depth g) < unat (ng_limit g)" by (simp add: budget_def)
  then have "unat (ng_depth g + 1) = unat (ng_depth g) + 1"
    using unsigned_less [of "ng_limit g", where 'a = nat] by (simp add: unat_word_ariths)
  then show ?thesis using deep by (simp add: budget_def exhausted_def enter_def word_less_nat_alt not_le)
qed

lemma budget_new: "budget (new_guard MAX_NESTING) = 256"
  by (simp add: budget_def new_guard_def MAX_NESTING_def)

lemma decode_type_unfold: "\<not> exhausted g \<Longrightarrow> decode_type g = decode_type_inner (decode_type (enter g))"
  by (simp add: decode_type.simps [of g] fun_eq_iff)

lemma type_codec:
  "sizes_fit st strings \<Longrightarrow> n \<le> budget g \<Longrightarrow>
   codec (encode_type n st strings) (describe_type n st strings) (decode_type g)"
proof (induction n arbitrary: g)
  case (Suc n)
  then have g: "\<not> exhausted g" "n \<le> budget (enter g)" using budget_enter [of g] by simp_all
  have inner: "codec (encode_type n st strings) (describe_type n st strings) (decode_type (enter g))"
    using Suc g(2) by simp
  have "\<exists>d. describe_type (Suc n) st strings ty = Some d \<and> reads_back (decode_type g) bs d"
    if enc: "encode_type (Suc n) st strings ty = Some bs" for ty bs
  proof -
    obtain node where node: "row (st_types st) ty = Some node"
      "encode_node (encode_type n st strings) st strings node = Some bs"
      using enc by (auto simp: bind_eq_Some_conv)
    then show ?thesis using encode_node_reads_back [OF inner Suc.prems(1) node(2)] g(1) by (simp add: decode_type_unfold)
  qed
  then show ?case by (simp add: codec_def)
qed (simp add: codec_def)

lemma digit_begins_no_type: "is_decimal c \<Longrightarrow> decode_type g (c # t) = None"
proof -
  assume "is_decimal c"
  then have ne:
    "c \<noteq> CHR ''z''" "c \<noteq> CHR ''v''" "c \<noteq> CHR ''p''" "c \<noteq> CHR ''r''" "c \<noteq> CHR ''w''"
    "c \<noteq> CHR ''P''" "c \<noteq> CHR ''M''" "c \<noteq> CHR ''y''" "c \<noteq> CHR ''c''" "c \<noteq> CHR ''D''"
    "c \<noteq> CHR ''o''" "c \<noteq> CHR ''x''" "c \<noteq> CHR ''e''" "c \<noteq> CHR ''k''" "c \<noteq> CHR ''g''"
    "c \<noteq> CHR ''u''" "c \<noteq> CHR ''n''" "c \<noteq> CHR ''b''" "c \<noteq> CHR ''h''" "c \<noteq> CHR ''H''"
    "c \<noteq> CHR ''i''" "c \<noteq> CHR ''I''" "c \<noteq> CHR ''t''" "c \<noteq> CHR ''T''" "c \<noteq> CHR ''U''"
    "c \<noteq> CHR ''L''" "c \<noteq> CHR ''f''" "c \<noteq> CHR ''F''"
    by (auto simp: is_decimal_def)
  then have "primitive_spelling c = []" by (simp add: primitive_spelling_def PRIMITIVES_def)
  then have "decode_type_inner dec (c # t) = None" for dec using ne by (simp add: decode_type_inner_def)
  then show ?thesis by (simp add: decode_type.simps [of g])
qed

lemma decode_generics_append:
  assumes "codec enc desc (decode_type g)" "encode_list enc tys = Some bs"
  shows "\<exists>ds. all_encoded desc tys = Some ds \<and> decode_generics g bs = Some (ds, [])"
  using assms(2)
proof (induction tys arbitrary: bs)
  case Nil
  then show ?case by (simp add: encode_list_def decode_generics.simps type_list_ended_def)
next
  case (Cons ty tys)
  then obtain b bs' where b: "enc ty = Some b" "encode_list enc tys = Some bs'" "bs = b @ bs'"
    by (auto simp: encode_list_def bind_eq_Some_conv)
  obtain d where d: "desc ty = Some d" "b \<noteq> []" "\<forall>t. decode_type g (b @ t) = Some (d, t)" using codecE [OF assms(1) b(1)] .
  then have "\<not> type_list_ended (b @ bs')"
    using digit_begins_no_type [of "hd b" g "tl b @ bs'"] by (cases b) (auto simp: type_list_ended_def)
  moreover obtain ds where "all_encoded desc tys = Some ds" "decode_generics g bs' = Some (ds, [])" using Cons.IH [OF b(2)] by blast
  ultimately show ?case using d b(3) by (simp add: decode_generics.simps [of g "b @ bs'"])
qed

definition describe_signature :: "nat \<Rightarrow> storage_state \<Rightarrow> (nat \<Rightarrow> bytes) \<Rightarrow> signature \<Rightarrow> demangled option" where
  "describe_signature fuel st strings sg = do {
     owner \<leftarrow> (if member_kind (sg_kind sg) then map_option Some (describe_type fuel st strings (sg_owner sg)) else Some None);
     generics \<leftarrow> all_encoded (describe_type fuel st strings) (sg_generics sg);
     Some \<lparr>dm_kind = sg_kind sg, dm_path = path_segments (sg_path sg), dm_name = sg_name sg, dm_generics = generics,
           dm_owner = owner\<rparr>
   }"

definition names_fit :: "signature \<Rightarrow> bool" where
  "names_fit sg \<longleftrightarrow> length (sg_path sg) < 2 ^ 64 \<and> length (sg_name sg) < 2 ^ 64"

lemma tag_kind_kind_tag: "k \<noteq> SyForeign \<Longrightarrow> tag_kind (kind_tag k) = Some k"
  by (cases k) (simp_all add: kind_tag_def tag_kind_def)

lemma demangle_header: "demangle (PREFIX @ VERSION @ body) = (case demangle_body body of None \<Rightarrow> Inl Malformed | Some d \<Rightarrow> Inr d)"
  by (simp add: demangle_def PREFIX_def VERSION_def)

lemma mangle_demangle:
  assumes fit: "sizes_fit st strings" "names_fit sg" "fuel \<le> 256" and kind: "sg_kind sg \<noteq> SyForeign"
    and m: "mangle fuel st strings sg = Some sy"
  shows "\<exists>d. describe_signature fuel st strings sg = Some d \<and> demangle sy = Inr d"
proof -
  let ?g = "new_guard MAX_NESTING" and ?enc = "encode_type fuel st strings" and ?desc = "describe_type fuel st strings"
  have c: "codec ?enc ?desc (decode_type ?g)" using type_codec [OF fit(1)] fit(3) by (simp add: budget_new)
  let ?ow = "if member_kind (sg_kind sg) then ?enc (sg_owner sg) else Some []"
  obtain ow ge where parts: "?ow = Some ow" "encode_list ?enc (sg_generics sg) = Some ge"
    and sy: "sy = PREFIX @ VERSION @ [kind_tag (sg_kind sg)] @ append_path (sg_path sg) @ append_name (sg_name sg) @ ow @ ge"
    using m kind by (auto simp: mangle_def member_kind_def bind_eq_Some_conv split: if_splits)
  obtain ds where ds: "all_encoded ?desc (sg_generics sg) = Some ds" "decode_generics ?g ge = Some (ds, [])"
    using decode_generics_append [OF c parts(2)] by blast
  have names: "read_segments (append_path (sg_path sg) @ t) = Some (path_segments (sg_path sg), t)"
    "read_sized_name (append_name (sg_name sg) @ t) = Some (sg_name sg, t)" for t
    using fit(2) by (simp_all add: names_fit_def)
  show ?thesis
  proof (cases "member_kind (sg_kind sg)")
    case True
    then have "?enc (sg_owner sg) = Some ow" using parts(1) by simp
    then obtain d where "?desc (sg_owner sg) = Some d" "\<forall>t. decode_type ?g (ow @ t) = Some (d, t)" using codecE [OF c] by blast
    then show ?thesis
      using True ds names kind
      by (simp add: sy demangle_header demangle_body_def describe_signature_def tag_kind_kind_tag)
  next
    case False
    then show ?thesis
      using parts(1) ds names kind
      by (simp add: sy demangle_header demangle_body_def describe_signature_def tag_kind_kind_tag)
  qed
qed

lemma digit_buffer_length: "unat v < 10 ^ Suc k \<Longrightarrow> length (digit_buffer v) \<le> Suc k"
proof (induction k arbitrary: v)
  case 0
  then have "v div 10 = 0" by (simp add: word_eq_iff_unsigned [where 'a = nat] unat_div_distrib)
  then show ?case by (simp add: digit_buffer.simps [of v])
next
  case (Suc k)
  have "unat (v div 10) < 10 ^ Suc k" using Suc.prems by (simp add: unat_div_distrib less_mult_imp_div_less)
  then show ?case using Suc.IH by (simp add: digit_buffer.simps [of v])
qed

lemma encode_list_append:
  "encode_list enc (xs @ ys) = do { a \<leftarrow> encode_list enc xs; b \<leftarrow> encode_list enc ys; Some (a @ b) }"
proof -
  have "all_encoded enc (xs @ ys) = do { a \<leftarrow> all_encoded enc xs; b \<leftarrow> all_encoded enc ys; Some (a @ b) }"
    by (induction xs) (simp_all split: Option.bind_splits)
  then show ?thesis by (simp add: encode_list_def split: Option.bind_splits) 
qed

text \<open>A decoded type can be shown: \<^verbatim>\<open>parts.at(0)\<close> is only read where the decoder made a part.\<close>

lemma all_encoded_id: "list_all (\<lambda>x. x \<noteq> None) xs \<Longrightarrow> \<exists>ys. all_encoded (\<lambda>s. s) xs = Some ys"
  by (induction xs) auto

definition shown :: "decoded_type \<Rightarrow> bool" where
  "shown d \<longleftrightarrow> display d \<noteq> None"

definition shows_all :: "type_decoder \<Rightarrow> bool" where
  "shows_all dec \<longleftrightarrow> (\<forall>t d rest. dec t = Some (d, rest) \<longrightarrow> shown d)"

lemma shows_allD: "shows_all dec \<Longrightarrow> dec t = Some (d, rest) \<Longrightarrow> shown d"
  by (auto simp: shows_all_def)

lemma shown_simple: "k \<in> {DkStr, DkPtr, DkUnit, DkNever, DkError, DkFunction} \<Longrightarrow> shown (simple_type k)"
  by (auto simp: shown_def simple_type_def display_kind_def)

lemma shown_prim: "shown (prim_type s)"
  by (simp add: shown_def prim_type_def display_kind_def)

lemma shown_number: "k \<in> {DkConst, DkParam} \<Longrightarrow> shown (parts_type k [] n)"
  by (auto simp: shown_def parts_type_def display_kind_def)

lemma shown_part:
  "k \<in> {DkSlice, DkRef, DkMutRef, DkRawPtr, DkRawMutPtr, DkArray} \<Longrightarrow> shown d \<Longrightarrow> shown (parts_type k [d] n)"
  by (auto simp: shown_def parts_type_def display_kind_def first_shown_def)

lemma shown_parts: "k \<in> {DkTuple, DkFunc} \<Longrightarrow> list_all shown ds \<Longrightarrow> shown (parts_type k ds n)"
  using all_encoded_id [of "map display ds"]
  by (auto simp: shown_def parts_type_def display_kind_def list.pred_map comp_def list_all_iff)

lemma shown_nominal: "list_all shown ds \<Longrightarrow> shown (nominal_type path ds)"
  using all_encoded_id [of "map display ds"]
  by (auto simp: shown_def nominal_type_def display_kind_def list.pred_map comp_def list_all_iff)

lemma decode_count_shown: "shows_all dec \<Longrightarrow> decode_count dec n t = Some (ds, rest) \<Longrightarrow> list_all shown ds"
  by (induction n arbitrary: t ds) (auto simp: bind_eq_Some_conv dest: shows_allD)

lemma decode_counted_shown: "shows_all dec \<Longrightarrow> decode_counted dec t = Some (ds, rest) \<Longrightarrow> list_all shown ds"
  by (auto simp: decode_counted_def bind_eq_Some_conv split: if_splits dest: decode_count_shown)

lemma decode_part_shown:
  "shows_all dec \<Longrightarrow> k \<in> {DkSlice, DkRef, DkMutRef, DkRawPtr, DkRawMutPtr, DkArray} \<Longrightarrow>
   decode_part dec k n t = Some (d, rest) \<Longrightarrow> shown d"
  unfolding decode_part_def by (auto simp: bind_eq_Some_conv intro!: shown_part dest: shows_allD)

lemma decode_number_shown: "k \<in> {DkConst, DkParam} \<Longrightarrow> decode_number k t = Some (d, rest) \<Longrightarrow> shown d"
  unfolding decode_number_def by (auto simp: bind_eq_Some_conv intro!: shown_number)

lemma decode_type_inner_shown:
  assumes dec: "shows_all dec" and d: "decode_type_inner dec t = Some (d, rest)"
  shows "shown d"
  using d unfolding decode_type_inner_def
  by (auto simp: bind_eq_Some_conv list_all_append shows_allD [OF dec] split: if_splits
      intro!: shown_prim shown_simple shown_parts shown_nominal
      dest!: decode_part_shown [OF dec, rotated] decode_number_shown [rotated] decode_counted_shown [OF dec])

lemma decode_type_shows_all: "shows_all (decode_type g)"
proof (induction "budget g" arbitrary: g)
  case 0
  then have "exhausted g" by (simp add: budget_def exhausted_def word_le_nat_alt)
  then show ?case by (simp add: shows_all_def decode_type.simps [of g])
next
  case (Suc n)
  then have "\<not> exhausted g" "shows_all (decode_type (enter g))" using budget_enter [of g] by simp_all
  then have "shows_all (decode_type_inner (decode_type (enter g)))"
    using decode_type_inner_shown unfolding shows_all_def [of "decode_type_inner _"] by blast
  then show ?case using \<open>\<not> exhausted g\<close> by (simp add: decode_type_unfold)
qed

subsection \<open>Properties\<close>

text \<open>A table with \<^verbatim>\<open>i32\<close>, \<^verbatim>\<open>[i32; 3]\<close> and the nominal \<^verbatim>\<open>std::Vec\<close> of the first.\<close>

definition example_table :: storage_state where
  "example_table = empty_state
     \<lparr>st_types := [\<lparr>tn_tag = TyI32, tn_data = 0\<rparr>, \<lparr>tn_tag = TyArray, tn_data = 0\<rparr>, \<lparr>tn_tag = TyStruct, tn_data = 0\<rparr>],
      st_array_types := [\<lparr>aty_element = 0, aty_count = 3\<rparr>],
      st_struct_types := [\<lparr>sty_name = 0, sty_fields = no_range, sty_params = \<lparr>rg_head = 0, rg_size = 1\<rparr>\<rparr>]\<rparr>"

definition example_method :: signature where
  "example_method = \<lparr>sg_path = ''std'', sg_name = ''push'', sg_owner = 2, sg_kind = SyMethod, sg_generics = [1]\<rparr>"

lemma example_fits: "sizes_fit example_table (\<lambda>_. ''std::Vec'')" "names_fit example_method"
  by (simp_all add: sizes_fit_def example_table_def empty_state_def names_fit_def example_method_def)

lemma example_mangled:
  "mangle 3 example_table (\<lambda>_. ''std::Vec'') example_method = Some ''_A1m3:std.4:pushn3:std3:Vec.1:iy3:i''"
  by code_simp

text \<open>
  C18. A symbol decodes to what it was made from.  Where the types of a signature nest no deeper
  than the budget of 256, demangling the symbol returns exactly the kind, the path segments, the name, the
  owner and the type arguments of the signature, each type as the table describes it.
\<close>

theorem mangle_roundtrip:
  assumes "sizes_fit st strings" "names_fit sg" "sg_kind sg \<noteq> SyForeign" "fuel \<le> 256"
    and "mangle fuel st strings sg = Some txt"
  shows "\<exists>d. describe_signature fuel st strings sg = Some d \<and> demangle txt = Inr d"
  using mangle_demangle [OF assms(1,2,4,3,5)] .

lemma mangle_roundtrip_witness:
  "sizes_fit example_table (\<lambda>_. ''std::Vec'') \<and> names_fit example_method \<and> sg_kind example_method \<noteq> SyForeign
   \<and> mangle 3 example_table (\<lambda>_. ''std::Vec'') example_method = Some ''_A1m3:std.4:pushn3:std3:Vec.1:iy3:i''
   \<and> (\<exists>d. describe_signature 3 example_table (\<lambda>_. ''std::Vec'') example_method = Some d
          \<and> demangle ''_A1m3:std.4:pushn3:std3:Vec.1:iy3:i'' = Inr d)"
proof -
  have kind: "sg_kind example_method \<noteq> SyForeign" by (simp add: example_method_def)
  then show ?thesis
    using mangle_roundtrip [OF example_fits kind _ example_mangled] example_fits example_mangled by simp
qed

text \<open>
  Mangling is injective.  Two signatures with one symbol, even over different programs, have
  the same kind, module path and name, and owners and type arguments with the same description.
\<close>

theorem mangle_injective:
  assumes "sizes_fit st strings" "names_fit a" "sg_kind a \<noteq> SyForeign" "n \<le> 256" "mangle n st strings a = Some txt"
    and "sizes_fit st' strings'" "names_fit b" "sg_kind b \<noteq> SyForeign" "m \<le> 256" "mangle m st' strings' b = Some txt"
  shows "sg_kind a = sg_kind b \<and> sg_path a = sg_path b \<and> sg_name a = sg_name b
    \<and> describe_signature n st strings a = describe_signature m st' strings' b
    \<and> describe_signature n st strings a \<noteq> None"
proof -
  obtain d where d: "describe_signature n st strings a = Some d" "demangle txt = Inr d"
    using mangle_demangle [OF assms(1,2,4,3,5)] by blast
  moreover obtain e where "describe_signature m st' strings' b = Some e" "demangle txt = Inr e"
    using mangle_demangle [OF assms(6,7,9,8,10)] by blast
  ultimately have e: "describe_signature m st' strings' b = Some d" by simp
  have "sg_kind a = dm_kind d" "sg_name a = dm_name d" "path_segments (sg_path a) = dm_path d"
    "sg_kind b = dm_kind d" "sg_name b = dm_name d" "path_segments (sg_path b) = dm_path d"
    using d(1) e by (auto simp: describe_signature_def bind_eq_Some_conv)
  then show ?thesis
    using d(1) e path_segments_joined [of "sg_path a"] path_segments_joined [of "sg_path b"] by simp
qed

lemma mangle_injective_witness:
  "sg_path example_method = ''std'' \<and> mangle 3 example_table (\<lambda>_. ''std::Vec'') example_method
     = mangle 7 example_table (\<lambda>_. ''std::Vec'') example_method
   \<and> describe_signature 3 example_table (\<lambda>_. ''std::Vec'') example_method
     = describe_signature 7 example_table (\<lambda>_. ''std::Vec'') example_method"
proof -
  have kind: "sg_kind example_method \<noteq> SyForeign" by (simp add: example_method_def)
  have deep: "mangle 7 example_table (\<lambda>_. ''std::Vec'') example_method = Some ''_A1m3:std.4:pushn3:std3:Vec.1:iy3:i''"
    by code_simp
  show ?thesis
    using mangle_injective [OF example_fits kind _ example_mangled example_fits kind _ deep] deep example_mangled
    by (simp add: example_method_def)
qed

text \<open>
  Cutting a symbol off between two type arguments leaves a symbol.  The encoding of fewer
  type arguments is the beginning of the encoding of more, so the text that is left decodes without an error,
  to the instantiation with fewer arguments.
\<close>

theorem truncated_symbol_decodes:
  assumes "sizes_fit st strings" "names_fit sg" "sg_kind sg \<noteq> SyForeign" "fuel \<le> 256"
    and "mangle fuel st strings (sg\<lparr>sg_generics := xs @ ys\<rparr>) = Some txt"
  shows "\<exists>cut dropped d. txt = cut @ dropped \<and> length ys \<le> length dropped \<and> demangle cut = Inr d
    \<and> describe_signature fuel st strings (sg\<lparr>sg_generics := xs\<rparr>) = Some d"
proof -
  let ?enc = "encode_type fuel st strings"
  obtain ow a b where parts: "(if member_kind (sg_kind sg) then ?enc (sg_owner sg) else Some []) = Some ow"
    "encode_list ?enc xs = Some a" "encode_list ?enc ys = Some b"
    and whole: "txt = PREFIX @ VERSION @ [kind_tag (sg_kind sg)] @ append_path (sg_path sg) @ append_name (sg_name sg) @ ow @ a @ b"
    using assms(3,5) by (auto simp: mangle_def member_kind_def encode_list_append bind_eq_Some_conv split: if_splits)
  have cut: "mangle fuel st strings (sg\<lparr>sg_generics := xs\<rparr>) =
      Some (PREFIX @ VERSION @ [kind_tag (sg_kind sg)] @ append_path (sg_path sg) @ append_name (sg_name sg) @ ow @ a)"
    using parts assms(3) by (auto simp: mangle_def member_kind_def split: if_splits)
  have "codec ?enc (describe_type fuel st strings) (decode_type (new_guard MAX_NESTING))"
    using type_codec [OF assms(1)] assms(4) by (simp add: budget_new)
  then have "length ys \<le> length b" using encode_list_reads_back parts(3) by blast
  moreover have "names_fit (sg\<lparr>sg_generics := xs\<rparr>)" using assms(2) by (simp add: names_fit_def)
  moreover from this obtain d where "describe_signature fuel st strings (sg\<lparr>sg_generics := xs\<rparr>) = Some d"
    "demangle (PREFIX @ VERSION @ [kind_tag (sg_kind sg)] @ append_path (sg_path sg) @ append_name (sg_name sg) @ ow @ a) = Inr d"
    using mangle_demangle [OF assms(1) _ assms(4) _ cut] assms(3) by auto
  moreover have "txt = (PREFIX @ VERSION @ [kind_tag (sg_kind sg)] @ append_path (sg_path sg) @ append_name (sg_name sg) @ ow @ a) @ b"
    using whole by simp
  ultimately show ?thesis by blast
qed

lemma truncated_symbol_decodes_witness:
  "\<exists>cut dropped d. ''_A1m3:std.4:pushn3:std3:Vec.1:iy3:i'' = cut @ dropped \<and> 1 \<le> length dropped \<and> demangle cut = Inr d
    \<and> describe_signature 3 example_table (\<lambda>_. ''std::Vec'') (example_method\<lparr>sg_generics := []\<rparr>) = Some d"
proof -
  have kind: "sg_kind example_method \<noteq> SyForeign" by (simp add: example_method_def)
  have same: "example_method\<lparr>sg_generics := [] @ [1]\<rparr> = example_method" by (simp add: example_method_def)
  show ?thesis
    using truncated_symbol_decodes [OF example_fits kind, of 3 "[]" "[1]"] example_mangled unfolding same by simp
qed

text \<open>
  A number is written into the buffer of twenty digits without overrunning it, and what is
  written reads back as the number; every type that any text decodes to can be shown.
\<close>

theorem symbol_text_safe:
  "length (digit_buffer v) \<le> 20 \<and> read_length (append_u64 v @ [LENGTH_END] @ t) = Some (v, t)
   \<and> (decode_type g txt = Some (d, rest) \<longrightarrow> (\<exists>s. display d = Some s))"
proof -
  have "unat v < 10 ^ Suc 19" using unsigned_less [of v, where 'a = nat] by simp
  then have "length (digit_buffer v) \<le> 20" using digit_buffer_length [of v 19] by simp
  moreover have "read_length (append_u64 v @ [LENGTH_END] @ t) = Some (v, t)"
    using read_length_append [of "unat v" t] by (simp add: append_length_def)
  ultimately show ?thesis using shows_allD [OF decode_type_shows_all] by (auto simp: shown_def)
qed

lemma symbol_text_safe_witness:
  "decode_type (new_guard MAX_NESTING) ''u2:iy3:b?'' =
     Some (parts_type DkTuple [prim_type ''i32'', parts_type DkArray [prim_type ''bool''] 3] 0, ''?'')
   \<and> (\<exists>s. display (parts_type DkTuple [prim_type ''i32'', parts_type DkArray [prim_type ''bool''] 3] 0) = Some s)"
proof -
  have "decode_type (new_guard MAX_NESTING) ''u2:iy3:b?'' =
     Some (parts_type DkTuple [prim_type ''i32'', parts_type DkArray [prim_type ''bool''] 3] 0, ''?'')" by code_simp
  then show ?thesis using symbol_text_safe [of 0 "[]" "new_guard MAX_NESTING" "''u2:iy3:b?''"] by blast
qed

end
