(* ===== verification/Ir_Interp.thy ===== *)
theory Ir_Interp
  imports Ir_Layout Comp_Value "HOL-Library.Signed_Division"
begin

text \<open>
  \<^verbatim>\<open>src/src/comp/ir_interpreter.h\<close> and \<^verbatim>\<open>ir_interpreter.cc\<close>: the engine that runs a lowered function at
  compile time.  What the engine mutates (memory, quota, depth) is the record \<open>interp\<close>; what it only reads is
  \<open>engine\<close>.  A failure is a value, and a read past a table, which the source leaves undefined, is the value
  \<open>Undefined\<close>.  Nothing bounds a cycle of conditional branches, so blocks run on fuel, and \<^term>\<open>None\<close> is a run
  that has not returned yet.
\<close>

subsection \<open>Data\<close>

datatype run_error_kind = Unsupported | Internal | Quota | Depth | Overflow

record run_error =
  re_kind :: run_error_kind
  re_instr :: "nat option"
  re_what :: bytes

datatype stop = Failed run_error | Undefined

type_synonym 'a step = "stop + 'a"

definition COMP_BRANCH_QUOTA :: u64 where "COMP_BRANCH_QUOTA = 1000000"
definition COMP_MAX_CALL_DEPTH :: u32 where "COMP_MAX_CALL_DEPTH = 64"
definition MEMORY_LIMIT :: u64 where "MEMORY_LIMIT = push_bit 28 1"

datatype slot_kind = SlScalar | SlAddress

record reg_slot =
  rs_kind :: slot_kind
  rs_bits :: u64
  rs_address :: u64

definition scalar_slot :: "u64 \<Rightarrow> reg_slot" where
  "scalar_slot b = \<lparr>rs_kind = SlScalar, rs_bits = b, rs_address = 0\<rparr>"

definition address_slot :: "u64 \<Rightarrow> reg_slot" where
  "address_slot a = \<lparr>rs_kind = SlAddress, rs_bits = 0, rs_address = a\<rparr>"

definition blank_slot :: reg_slot where
  "blank_slot = scalar_slot 0"

type_synonym reg_frame = "reg_slot list"

record returned =
  rt_slot :: reg_slot
  rt_type :: nat

record engine =
  ie_storage :: storage_state
  ie_strings :: "nat \<Rightarrow> bytes"
  ie_width :: pointer_width

record interp =
  ip_memory :: "u8 list"
  ip_quota :: u64
  ip_depth :: u32

definition int_width_bits :: "type_tag \<Rightarrow> nat" where
  "int_width_bits tag = (if tag = TyI1 then 1 else int_bytes tag * 8)"

definition int_mask :: "type_tag \<Rightarrow> u64" where
  "int_mask tag = (if tag = TyI1 then 1 else comp_mask tag)"

subsection \<open>Steps\<close>

text \<open>The rest of a step runs when the first part returned a value.\<close>

definition run_then :: "'a step \<Rightarrow> ('a \<Rightarrow> 'b step) \<Rightarrow> 'b step" where
  "run_then m f = (case m of Inl s \<Rightarrow> Inl s | Inr x \<Rightarrow> f x)"

definition need :: "'a option \<Rightarrow> 'a step" where
  "need m = (case m of None \<Rightarrow> Inl Undefined | Some x \<Rightarrow> Inr x)"

definition fail :: "run_error_kind \<Rightarrow> nat option \<Rightarrow> bytes \<Rightarrow> 'a step" where
  "fail k at w = Inl (Failed \<lparr>re_kind = k, re_instr = at, re_what = w\<rparr>)"

definition require :: "bool \<Rightarrow> run_error_kind \<Rightarrow> nat option \<Rightarrow> bytes \<Rightarrow> unit step" where
  "require p k at w = (if p then Inr () else fail k at w)"

lemma run_then_simps [simp]:
  "run_then (Inl s) f = Inl s" "run_then (Inr x) f = f x"
  by (simp_all add: run_then_def)

lemma need_simps [simp]: "need None = Inl Undefined" "need (Some x) = Inr x"
  by (simp_all add: need_def)

lemma run_then_Inr: "run_then m f = Inr y \<longleftrightarrow> (\<exists>x. m = Inr x \<and> f x = Inr y)"
  by (cases m) simp_all

lemma need_Inr: "need m = Inr x \<longleftrightarrow> m = Some x"
  by (cases m) simp_all

lemma fail_not_Inr [simp]: "fail k at w \<noteq> Inr x"
  by (simp add: fail_def)

lemma require_Inr: "require p k at w = Inr u \<longleftrightarrow> p"
  by (simp add: require_def)

subsection \<open>Reading the tables\<close>

definition engine_instr :: "engine \<Rightarrow> nat \<Rightarrow> instruction step" where
  "engine_instr e i = need (row (st_instrs (ie_storage e)) i)"

definition engine_operand :: "engine \<Rightarrow> nat \<Rightarrow> nat \<Rightarrow> operand step" where
  "engine_operand e i k =
     run_then (engine_instr e i) (\<lambda>ins.
     need (row (st_operands (ie_storage e)) (rg_head (in_operands ins) + k)))"

definition tag_of :: "engine \<Rightarrow> nat \<Rightarrow> type_tag step" where
  "tag_of e ty = need (map_option tn_tag (row (st_types (ie_storage e)) ty))"

definition reg_type :: "engine \<Rightarrow> nat \<Rightarrow> nat step" where
  "reg_type e r = need (map_option rg_type (row (st_registers (ie_storage e)) r))"

text \<open>
  The layout of a type, run on the number of types as fuel.  Where no type holds itself by value that is enough
  (\<open>layout_fuel_enough\<close>): no answer then means a missing row or an unreachable case.  The recursion of the sources
  does not end on a type that holds itself by value; the theorems that say a run returns exclude such tables.
\<close>

definition engine_layout :: "engine \<Rightarrow> nat \<Rightarrow> type_layout option" where
  "engine_layout e ty = type_layout_of (length (st_types (ie_storage e))) (ie_storage e) (ie_width e) ty"

definition engine_layout_of :: "engine \<Rightarrow> nat \<Rightarrow> type_layout step" where
  "engine_layout_of e ty = need (engine_layout e ty)"

definition pointee_of :: "engine \<Rightarrow> nat \<Rightarrow> nat step" where
  "pointee_of e ty =
     run_then (need (row (st_types (ie_storage e)) ty)) (\<lambda>node.
     need (map_option rty_pointee (row (st_ref_types (ie_storage e)) (tn_data node))))"

definition set_reg :: "reg_frame \<Rightarrow> nat \<Rightarrow> reg_slot \<Rightarrow> reg_frame step" where
  "set_reg fr r v = (if r < length fr then Inr (fr[r := v]) else Inl Undefined)"

definition set_dst :: "reg_frame \<Rightarrow> nat option \<Rightarrow> reg_slot \<Rightarrow> reg_frame step" where
  "set_dst fr d v = (case d of None \<Rightarrow> Inr fr | Some r \<Rightarrow> set_reg fr r v)"

subsection \<open>Budget and memory\<close>

definition spend :: "nat option \<Rightarrow> interp \<Rightarrow> unit step \<times> interp" where
  "spend at ip =
     (if ip_quota ip = 0 then (fail Quota at ''comp evaluation quota exhausted'', ip)
      else (Inr (), ip\<lparr>ip_quota := ip_quota ip - 1\<rparr>))"

definition resize :: "nat \<Rightarrow> u8 list \<Rightarrow> u8 list" where
  "resize n mem = take n mem @ replicate (n - length mem) 0"

definition interp_alloc :: "engine \<Rightarrow> nat \<Rightarrow> u64 \<Rightarrow> nat option \<Rightarrow> interp \<Rightarrow> (u64 \<times> interp) step" where
  "interp_alloc e ty count at ip =
     run_then (engine_layout_of e ty) (\<lambda>layout.
     let align = (if ly_align layout = 0 then 1 else ly_align layout) in
     run_then (require (count = 0 \<or> ly_size layout \<le> MEMORY_LIMIT div count) Quota at ''comp evaluation memory exhausted'') (\<lambda>_.
     let room = ly_size layout * count; start = align_up (of_nat (length (ip_memory ip))) align in
     run_then (require (start \<le> MEMORY_LIMIT \<and> room \<le> MEMORY_LIMIT - start) Quota at ''comp evaluation memory exhausted'') (\<lambda>_.
     Inr (start, ip\<lparr>ip_memory := resize (unat (start + room)) (ip_memory ip)\<rparr>))))"

definition access_ok :: "u64 \<Rightarrow> u64 \<Rightarrow> u8 list \<Rightarrow> bool" where
  "access_ok address len mem \<longleftrightarrow>
     (let available = of_nat (length mem) in address \<le> available \<and> len \<le> available - address)"

definition read_bytes :: "u64 \<Rightarrow> u64 \<Rightarrow> nat option \<Rightarrow> interp \<Rightarrow> u64 step" where
  "read_bytes address len at ip =
     run_then (require (access_ok address len (ip_memory ip)) Internal at ''memory access out of bounds'') (\<lambda>_.
     Inr (fold (\<lambda>i v. v OR push_bit (8 * i) (ucast (ip_memory ip ! (unat address + i)))) [0..<unat len] 0))"

definition write_bytes :: "u64 \<Rightarrow> u64 \<Rightarrow> u64 \<Rightarrow> nat option \<Rightarrow> interp \<Rightarrow> interp step" where
  "write_bytes address len v at ip =
     run_then (require (access_ok address len (ip_memory ip)) Internal at ''memory access out of bounds'') (\<lambda>_.
     Inr (ip\<lparr>ip_memory :=
       fold (\<lambda>i mem. mem[unat address + i := ucast (drop_bit (8 * i) v)]) [0..<unat len] (ip_memory ip)\<rparr>))"

definition interp_read :: "engine \<Rightarrow> nat \<Rightarrow> u64 \<Rightarrow> nat option \<Rightarrow> interp \<Rightarrow> reg_slot step" where
  "interp_read e ty address at ip =
     run_then (tag_of e ty) (\<lambda>tag.
     if is_integer_type tag then
       run_then (engine_layout_of e ty) (\<lambda>layout.
       run_then (read_bytes address (ly_size layout) at ip) (\<lambda>b. Inr (scalar_slot (b AND int_mask tag))))
     else if is_pointer_type tag then
       run_then (engine_layout_of e ty) (\<lambda>layout.
       run_then (require (ly_size layout = word_bytes (ie_width e)) Unsupported at ''fat reference load in comp evaluation'') (\<lambda>_.
       run_then (read_bytes address (word_bytes (ie_width e)) at ip) (\<lambda>w. Inr (address_slot w))))
     else if is_float_type tag then fail Unsupported at ''float load in comp evaluation''
     else fail Unsupported at ''aggregate load in comp evaluation'')"

definition interp_write :: "engine \<Rightarrow> nat \<Rightarrow> reg_slot \<Rightarrow> u64 \<Rightarrow> nat option \<Rightarrow> interp \<Rightarrow> interp step" where
  "interp_write e ty v address at ip =
     run_then (tag_of e ty) (\<lambda>tag.
     if is_integer_type tag then
       run_then (require (rs_kind v = SlScalar) Internal at ''integer store of a non-scalar'') (\<lambda>_.
       run_then (engine_layout_of e ty) (\<lambda>layout.
       write_bytes address (ly_size layout) (rs_bits v AND int_mask tag) at ip))
     else if is_pointer_type tag then
       run_then (engine_layout_of e ty) (\<lambda>layout.
       run_then (require (ly_size layout = word_bytes (ie_width e)) Unsupported at ''fat reference store in comp evaluation'') (\<lambda>_.
       run_then (require (rs_kind v = SlAddress) Internal at ''reference store of a non-address'') (\<lambda>_.
       write_bytes address (word_bytes (ie_width e)) (rs_address v) at ip)))
     else if is_float_type tag then fail Unsupported at ''float store in comp evaluation''
     else fail Unsupported at ''aggregate store in comp evaluation'')"

subsection \<open>Operands and bindings\<close>

definition resolve_operand :: "engine \<Rightarrow> operand \<Rightarrow> nat option \<Rightarrow> reg_frame \<Rightarrow> reg_slot step" where
  "resolve_operand e opd at fr =
     (case opd_data opd of
        OpdRegister r \<Rightarrow> need (row fr r)
      | OpdImmutable i \<Rightarrow>
          run_then (need (row (st_immutables (ie_storage e)) i)) (\<lambda>im.
          run_then (tag_of e (im_type im)) (\<lambda>tag.
          run_then (require (is_integer_type tag) Unsupported at ''non-integer constant in comp evaluation'') (\<lambda>_.
          run_then (need (as_u64_integer tag im)) (\<lambda>b. Inr (scalar_slot (b AND int_mask tag))))))
      | _ \<Rightarrow> fail Internal at ''operand without a value'')"

definition resolve_at :: "engine \<Rightarrow> nat \<Rightarrow> nat \<Rightarrow> reg_frame \<Rightarrow> reg_slot step" where
  "resolve_at e i k fr =
     run_then (engine_instr e i) (\<lambda>ins.
     run_then (require (k < rg_size (in_operands ins)) Internal (Some i) ''instruction is missing an operand'') (\<lambda>_.
     run_then (engine_operand e i k) (\<lambda>opd. resolve_operand e opd (Some i) fr)))"

definition resolve_int_at :: "engine \<Rightarrow> nat \<Rightarrow> nat \<Rightarrow> reg_frame \<Rightarrow> u64 step" where
  "resolve_int_at e i k fr =
     run_then (resolve_at e i k fr) (\<lambda>s.
     run_then (require (rs_kind s = SlScalar) Internal (Some i) ''integer operand is not a scalar'') (\<lambda>_.
     run_then (engine_operand e i k) (\<lambda>opd.
     run_then (tag_of e (opd_type opd)) (\<lambda>tag. Inr (rs_bits s AND int_mask tag)))))"

definition bind_slot :: "engine \<Rightarrow> nat \<Rightarrow> reg_slot \<Rightarrow> nat option \<Rightarrow> reg_slot step" where
  "bind_slot e ty from at =
     run_then (tag_of e ty) (\<lambda>tag.
     if tag = TyVoid then Inr blank_slot
     else if is_integer_type tag then
       run_then (require (rs_kind from = SlScalar) Internal at ''integer value of a non-scalar'') (\<lambda>_.
       Inr (scalar_slot (rs_bits from AND int_mask tag)))
     else if is_pointer_type tag then
       run_then (require (rs_kind from = SlAddress) Internal at ''reference value of a non-address'') (\<lambda>_. Inr from)
     else if is_float_type tag then fail Unsupported at ''float value in comp evaluation''
     else fail Unsupported at ''aggregate value in comp evaluation'')"

definition comp_val_to_slot :: "engine \<Rightarrow> nat \<Rightarrow> comp_val \<Rightarrow> reg_slot step" where
  "comp_val_to_slot e ty v =
     run_then (tag_of e ty) (\<lambda>tag.
     if tag = TyVoid then Inr blank_slot
     else if is_integer_type tag then
       (if cv_tag (cl_value v) = CtBool then Inr (scalar_slot (if cv_bool (cl_value v) then 1 else 0))
        else if cv_tag (cl_value v) = CtInt then Inr (scalar_slot (cv_int (cl_value v) AND int_mask tag))
        else fail Unsupported None ''comp argument is not an integer'')
     else if is_pointer_type tag then fail Unsupported None ''reference argument in comp evaluation''
     else if is_float_type tag then fail Unsupported None ''float argument in comp evaluation''
     else fail Unsupported None ''aggregate argument in comp evaluation'')"

subsection \<open>Arithmetic\<close>

text \<open>The amount of a shift is taken modulo the width.\<close>

definition engine_shift :: "type_tag \<Rightarrow> u64 \<Rightarrow> nat" where
  "engine_shift tag right = unat (right AND (of_nat (int_bytes tag) * 8 - 1))"

definition MIN64 :: u64 where "MIN64 = push_bit 63 1"

definition overflow_error :: "nat \<Rightarrow> 'a step" where
  "overflow_error i = fail Overflow (Some i) ''integer overflow in comp evaluation''"

definition engine_division :: "opcode \<Rightarrow> type_tag \<Rightarrow> u64 \<Rightarrow> u64 \<Rightarrow> nat \<Rightarrow> u64 step" where
  "engine_division op tag left right i =
     run_then (require (right \<noteq> 0) Unsupported (Some i) ''division by zero in comp evaluation'') (\<lambda>_.
     if op = OpUintDiv then Inr (left div right)
     else if op = OpUintRem then Inr (left mod right)
     else
       let signed_left = comp_sign_extend left tag; signed_right = comp_sign_extend right tag in
       if signed_left = MIN64 \<and> signed_right = - 1 \<and> int_bytes tag = 8 then Inr (if op = OpIntDiv then MIN64 else 0)
       else Inr (if op = OpIntDiv then word_of_int (sint signed_left sdiv sint signed_right)
                 else word_of_int (sint signed_left smod sint signed_right)))"

definition engine_arith :: "opcode \<Rightarrow> type_tag \<Rightarrow> u64 \<Rightarrow> u64 \<Rightarrow> nat \<Rightarrow> u64 step" where
  "engine_arith op tag left right i =
     (if op = OpIntAdd then (if add_overflows left right tag then overflow_error i else Inr (left + right))
      else if op = OpIntAddWrap then Inr (left + right)
      else if op = OpIntSub then (if sub_overflows left right tag then overflow_error i else Inr (left - right))
      else if op = OpIntSubWrap then Inr (left - right)
      else if op = OpIntMul then (if mul_overflows left right tag then overflow_error i else Inr (left * right))
      else if op = OpIntMulWrap then Inr (left * right)
      else if op = OpAnd then Inr (left AND right)
      else if op = OpOr then Inr (left OR right)
      else if op = OpXor then Inr (left XOR right)
      else if op = OpShiftLeft then Inr (push_bit (engine_shift tag right) left)
      else if op = OpLogicalShiftRight then Inr (drop_bit (engine_shift tag right) left)
      else if op = OpArithmeticShiftRight then
        Inr (if is_signed tag then signed_drop_bit (engine_shift tag right) (comp_sign_extend left tag)
             else drop_bit (engine_shift tag right) left)
      else if op = OpIntDiv \<or> op = OpIntRem \<or> op = OpUintDiv \<or> op = OpUintRem then engine_division op tag left right i
      else fail Internal (Some i) ''opcode is not a binary operation'')"

definition execute_binary :: "engine \<Rightarrow> nat \<Rightarrow> reg_frame \<Rightarrow> reg_frame step" where
  "execute_binary e i fr =
     run_then (engine_instr e i) (\<lambda>ins.
     run_then (resolve_at e i 0 fr) (\<lambda>lhs.
     run_then (resolve_at e i 1 fr) (\<lambda>rhs.
     run_then (engine_operand e i 0) (\<lambda>opd.
     run_then (tag_of e (opd_type opd)) (\<lambda>tag.
     run_then (require (is_integer_type tag) Unsupported (Some i) ''arithmetic on a non-integer in comp evaluation'') (\<lambda>_.
     run_then (require (rs_kind lhs = SlScalar \<and> rs_kind rhs = SlScalar) Internal (Some i) ''integer operand is not a scalar'') (\<lambda>_.
     run_then (engine_arith (in_op ins) tag (rs_bits lhs AND int_mask tag) (rs_bits rhs AND int_mask tag) i) (\<lambda>result.
     set_dst fr (in_dst ins) (scalar_slot (result AND int_mask tag))))))))))"

definition unary_operand :: "engine \<Rightarrow> nat \<Rightarrow> reg_frame \<Rightarrow> bytes \<Rightarrow> (reg_slot \<times> type_tag) step" where
  "unary_operand e i fr what =
     run_then (resolve_at e i 0 fr) (\<lambda>v.
     run_then (engine_operand e i 0) (\<lambda>opd.
     run_then (tag_of e (opd_type opd)) (\<lambda>tag.
     run_then (require (is_integer_type tag) Unsupported (Some i) what) (\<lambda>_.
     run_then (require (rs_kind v = SlScalar) Internal (Some i) ''integer operand is not a scalar'') (\<lambda>_.
     Inr (v, tag))))))"

definition execute_not :: "engine \<Rightarrow> nat \<Rightarrow> reg_frame \<Rightarrow> reg_frame step" where
  "execute_not e i fr =
     run_then (unary_operand e i fr ''bitwise not on a non-integer in comp evaluation'') (\<lambda>(v, tag).
     run_then (engine_instr e i) (\<lambda>ins.
     set_dst fr (in_dst ins) (scalar_slot (NOT (rs_bits v) AND int_mask tag))))"

definition reverse_bits :: "nat \<Rightarrow> u64 \<Rightarrow> u64" where
  "reverse_bits w b =
     fold (\<lambda>i acc. if drop_bit i b AND 1 \<noteq> 0 then acc OR push_bit (w - 1 - i) 1 else acc) [0..<w] 0"

definition execute_bit_reverse :: "engine \<Rightarrow> nat \<Rightarrow> reg_frame \<Rightarrow> reg_frame step" where
  "execute_bit_reverse e i fr =
     run_then (unary_operand e i fr ''bit reverse on a non-integer in comp evaluation'') (\<lambda>(v, tag).
     run_then (engine_instr e i) (\<lambda>ins.
     set_dst fr (in_dst ins) (scalar_slot (reverse_bits (int_width_bits tag) (rs_bits v AND int_mask tag)))))"

definition engine_ordering :: "opcode \<Rightarrow> type_tag \<Rightarrow> u64 \<Rightarrow> u64 \<Rightarrow> nat \<Rightarrow> bool step" where
  "engine_ordering op tag left right i =
     (if op = OpEq then Inr (left = right)
      else if op = OpNe then Inr (left \<noteq> right)
      else if op = OpLe \<or> op = OpLt \<or> op = OpGe \<or> op = OpGt then
        (if is_signed tag then
           let l = sint (comp_sign_extend left tag); r = sint (comp_sign_extend right tag) in
           Inr (if op = OpLe then l \<le> r else if op = OpLt then l < r else if op = OpGe then l \<ge> r else l > r)
         else Inr (if op = OpLe then left \<le> right else if op = OpLt then left < right
                   else if op = OpGe then left \<ge> right else left > right))
      else fail Internal (Some i) ''opcode is not a comparison'')"

definition engine_compare :: "opcode \<Rightarrow> type_tag \<Rightarrow> reg_slot \<Rightarrow> reg_slot \<Rightarrow> nat \<Rightarrow> bool step" where
  "engine_compare op tag lhs rhs i =
     (if is_integer_type tag then
        run_then (require (rs_kind lhs = SlScalar \<and> rs_kind rhs = SlScalar) Internal (Some i) ''integer operand is not a scalar'') (\<lambda>_.
        engine_ordering op tag (rs_bits lhs AND int_mask tag) (rs_bits rhs AND int_mask tag) i)
      else if is_pointer_type tag then
        run_then (require (op = OpEq \<or> op = OpNe) Unsupported (Some i) ''ordering of references in comp evaluation'') (\<lambda>_.
        run_then (require (rs_kind lhs = SlAddress \<and> rs_kind rhs = SlAddress) Internal (Some i) ''reference operand is not an address'') (\<lambda>_.
        Inr (if op = OpEq then rs_address lhs = rs_address rhs else rs_address lhs \<noteq> rs_address rhs)))
      else if is_float_type tag then fail Unsupported (Some i) ''float comparison in comp evaluation''
      else fail Unsupported (Some i) ''comparison of a non-integer in comp evaluation'')"

definition execute_compare :: "engine \<Rightarrow> nat \<Rightarrow> reg_frame \<Rightarrow> reg_frame step" where
  "execute_compare e i fr =
     run_then (resolve_at e i 0 fr) (\<lambda>lhs.
     run_then (resolve_at e i 1 fr) (\<lambda>rhs.
     run_then (engine_instr e i) (\<lambda>ins.
     run_then (engine_operand e i 0) (\<lambda>opd.
     run_then (tag_of e (opd_type opd)) (\<lambda>tag.
     run_then (engine_compare (in_op ins) tag lhs rhs i) (\<lambda>outcome.
     set_dst fr (in_dst ins) (scalar_slot (if outcome then 1 else 0))))))))"

definition cast_bits :: "type_tag \<Rightarrow> type_tag \<Rightarrow> u64 \<Rightarrow> u64" where
  "cast_bits source target b =
     (let bits = b AND int_mask source;
          wide = (if is_signed source then comp_sign_extend bits source else bits) in
      if target = TyI1 then (if wide \<noteq> 0 then 1 else 0) else wide AND int_mask target)"

definition execute_cast :: "engine \<Rightarrow> nat \<Rightarrow> reg_frame \<Rightarrow> reg_frame step" where
  "execute_cast e i fr =
     run_then (engine_instr e i) (\<lambda>ins.
     case in_dst ins of
       None \<Rightarrow> fail Internal (Some i) ''cast without a destination''
     | Some dst \<Rightarrow>
         run_then (resolve_at e i 0 fr) (\<lambda>source.
         run_then (engine_operand e i 0) (\<lambda>opd.
         run_then (reg_type e dst) (\<lambda>target_type.
         run_then (tag_of e (opd_type opd)) (\<lambda>source_tag.
         run_then (tag_of e target_type) (\<lambda>target_tag.
         if source_tag = target_tag then set_reg fr dst source
         else if is_integer_type source_tag \<and> is_integer_type target_tag then
           run_then (require (rs_kind source = SlScalar) Internal (Some i) ''integer operand is not a scalar'') (\<lambda>_.
           set_reg fr dst (scalar_slot (cast_bits source_tag target_tag (rs_bits source))))
         else if is_pointer_type source_tag \<and> is_pointer_type target_tag then
           run_then (require (rs_kind source = SlAddress) Internal (Some i) ''reference operand is not an address'') (\<lambda>_.
           run_then (engine_layout_of e (opd_type opd)) (\<lambda>source_layout.
           run_then (engine_layout_of e target_type) (\<lambda>target_layout.
           run_then (require (ly_size source_layout = word_bytes (ie_width e) \<and> ly_size target_layout = word_bytes (ie_width e))
             Unsupported (Some i) ''cast of a fat reference in comp evaluation'') (\<lambda>_.
           set_reg fr dst source))))
         else if is_float_type source_tag \<or> is_float_type target_tag
         then fail Unsupported (Some i) ''float cast in comp evaluation''
         else if is_pointer_type source_tag \<or> is_pointer_type target_tag
         then fail Unsupported (Some i) ''cast between a reference and an integer in comp evaluation''
         else fail Unsupported (Some i) ''cast between these types in comp evaluation''))))))"

definition execute_select :: "engine \<Rightarrow> nat \<Rightarrow> reg_frame \<Rightarrow> reg_frame step" where
  "execute_select e i fr =
     run_then (resolve_at e i 0 fr) (\<lambda>condition.
     run_then (resolve_at e i 1 fr) (\<lambda>on_true.
     run_then (resolve_at e i 2 fr) (\<lambda>on_false.
     run_then (require (rs_kind condition = SlScalar) Internal (Some i) ''select condition is not a scalar'') (\<lambda>_.
     run_then (require (rs_kind on_true = rs_kind on_false) Internal (Some i) ''select of different value kinds'') (\<lambda>_.
     run_then (engine_instr e i) (\<lambda>ins.
     set_dst fr (in_dst ins) (if rs_bits condition \<noteq> 0 then on_true else on_false)))))))"

subsection \<open>Addresses\<close>

definition is_address :: "nat \<Rightarrow> reg_slot \<Rightarrow> bytes \<Rightarrow> unit step" where
  "is_address i s what = require (rs_kind s = SlAddress) Internal (Some i) what"

definition gep_field :: "engine \<Rightarrow> nat \<Rightarrow> idx_range \<Rightarrow> u64 \<Rightarrow> bytes \<Rightarrow> nat \<times> u64 \<Rightarrow> (nat \<times> u64) step" where
  "gep_field e i flds index what acc =
     run_then (require (unat index < rg_size flds) Internal (Some i) what) (\<lambda>_.
     run_then (need (field_offset (engine_layout e) flds (unat index))) (\<lambda>off.
     Inr (range_at flds (unat index), snd acc + off)))"

definition gep_step :: "engine \<Rightarrow> nat \<Rightarrow> reg_frame \<Rightarrow> nat \<Rightarrow> nat \<times> u64 \<Rightarrow> (nat \<times> u64) step" where
  "gep_step e i fr k acc =
     run_then (resolve_int_at e i k fr) (\<lambda>index.
     if k = 1 then
       run_then (engine_layout_of e (fst acc)) (\<lambda>layout. Inr (fst acc, snd acc + index * ly_size layout))
     else
       run_then (need (row (st_types (ie_storage e)) (fst acc))) (\<lambda>node.
       if tn_tag node = TyStruct then
         run_then (need (row (st_struct_types (ie_storage e)) (tn_data node))) (\<lambda>s.
         gep_field e i (sty_fields s) index ''getelementptr field out of range'' acc)
       else if tn_tag node = TyTuple then
         run_then (need (row (st_tuple_types (ie_storage e)) (tn_data node))) (\<lambda>t.
         gep_field e i (tty_elements t) index ''getelementptr element out of range'' acc)
       else if tn_tag node = TyArray then
         run_then (need (row (st_array_types (ie_storage e)) (tn_data node))) (\<lambda>a.
         run_then (engine_layout_of e (aty_element a)) (\<lambda>layout.
         Inr (aty_element a, snd acc + index * ly_size layout)))
       else fail Unsupported (Some i) ''getelementptr through a non-aggregate in comp evaluation''))"

fun gep_walk :: "engine \<Rightarrow> nat \<Rightarrow> reg_frame \<Rightarrow> nat list \<Rightarrow> nat \<times> u64 \<Rightarrow> (nat \<times> u64) step" where
  "gep_walk e i fr [] acc = Inr acc"
| "gep_walk e i fr (k # ks) acc = run_then (gep_step e i fr k acc) (gep_walk e i fr ks)"

definition gep_start :: "engine \<Rightarrow> nat \<Rightarrow> nat step" where
  "gep_start e ty = run_then (tag_of e ty) (\<lambda>tag. if is_pointer_type tag then pointee_of e ty else Inr ty)"

definition execute_gep :: "engine \<Rightarrow> nat \<Rightarrow> reg_frame \<Rightarrow> reg_frame step" where
  "execute_gep e i fr =
     run_then (engine_instr e i) (\<lambda>ins.
     run_then (require (2 \<le> rg_size (in_operands ins)) Internal (Some i) ''getelementptr without an index'') (\<lambda>_.
     run_then (resolve_at e i 0 fr) (\<lambda>base.
     run_then (is_address i base ''getelementptr of a non-address'') (\<lambda>_.
     run_then (engine_operand e i 0) (\<lambda>opd.
     run_then (gep_start e (opd_type opd)) (\<lambda>current.
     run_then (gep_walk e i fr [1..<rg_size (in_operands ins)] (current, rs_address base)) (\<lambda>acc.
     set_dst fr (in_dst ins) (address_slot (snd acc)))))))))"

definition enum_place :: "engine \<Rightarrow> nat \<Rightarrow> reg_frame \<Rightarrow> bytes \<Rightarrow> reg_slot step" where
  "enum_place e i fr what =
     run_then (resolve_at e i 0 fr) (\<lambda>place. run_then (is_address i place what) (\<lambda>_. Inr place))"

definition place_niche :: "engine \<Rightarrow> nat \<Rightarrow> (nat \<times> enum_niche) step" where
  "place_niche e i =
     run_then (engine_operand e i 0) (\<lambda>opd.
     run_then (need (enum_place_type (ie_storage e) (opd_type opd))) (\<lambda>ty.
     run_then (need (enum_niche_of (ie_storage e) ty)) (\<lambda>niche. Inr (ty, niche))))"

definition load_discriminant :: "engine \<Rightarrow> nat \<Rightarrow> u64 \<Rightarrow> enum_niche \<Rightarrow> interp \<Rightarrow> u64 step" where
  "load_discriminant e i address niche ip =
     (if \<not> ni_has niche then read_bytes address 4 (Some i) ip
      else
        run_then (interp_read e (ni_slot niche) address (Some i) ip) (\<lambda>payload.
        let fieldless = (if ni_slot niche = ni_payload niche then rs_kind payload = SlAddress \<and> rs_address payload = 0
                         else rs_bits payload > ucast (ni_sentinel niche) - 1) in
        Inr (of_nat (if fieldless then ni_fieldless niche else ni_carrying niche))))"

definition execute_enum_tag_load :: "engine \<Rightarrow> nat \<Rightarrow> reg_frame \<Rightarrow> interp \<Rightarrow> reg_frame step" where
  "execute_enum_tag_load e i fr ip =
     run_then (engine_instr e i) (\<lambda>ins.
     case in_dst ins of
       None \<Rightarrow> fail Internal (Some i) ''enum tag load without a destination''
     | Some dst \<Rightarrow>
         run_then (enum_place e i fr ''enum tag load of a non-address'') (\<lambda>place.
         run_then (place_niche e i) (\<lambda>(_, niche).
         run_then (load_discriminant e i (rs_address place) niche ip) (\<lambda>disc.
         set_reg fr dst (scalar_slot disc)))))"

definition store_discriminant :: "engine \<Rightarrow> nat \<Rightarrow> u64 \<Rightarrow> enum_niche \<Rightarrow> u64 \<Rightarrow> interp \<Rightarrow> interp step" where
  "store_discriminant e i address niche tag ip =
     (if \<not> ni_has niche then write_bytes address 4 tag (Some i) ip
      else if tag \<noteq> of_nat (ni_fieldless niche) then Inr ip
      else
        run_then (engine_layout_of e (ni_slot niche)) (\<lambda>layout.
        write_bytes address (ly_size layout)
          (if ni_slot niche = ni_payload niche then 0 else ucast (ni_sentinel niche)) (Some i) ip))"

definition execute_enum_tag_set :: "engine \<Rightarrow> nat \<Rightarrow> reg_frame \<Rightarrow> interp \<Rightarrow> interp step" where
  "execute_enum_tag_set e i fr ip =
     run_then (enum_place e i fr ''enum tag set on a non-address'') (\<lambda>place.
     run_then (resolve_int_at e i 1 fr) (\<lambda>tag.
     run_then (place_niche e i) (\<lambda>(_, niche).
     store_discriminant e i (rs_address place) niche tag ip)))"

definition payload_start :: "type_layout \<Rightarrow> u64" where
  "payload_start area =
     (let align_mask = (if ly_align area = 0 then 0 else ly_align area - 1) in (4 + align_mask) AND NOT align_mask)"

definition enum_field_address :: "engine \<Rightarrow> nat \<Rightarrow> u64 \<Rightarrow> nat \<Rightarrow> u64 \<Rightarrow> u64 \<Rightarrow> u64 step" where
  "enum_field_address e i address enum_ty variant field =
     run_then (need (row (st_types (ie_storage e)) enum_ty)) (\<lambda>node.
     run_then (need (row (st_enum_types (ie_storage e)) (tn_data node))) (\<lambda>shape.
     run_then (require (unat variant < rg_size (ety_variants shape)) Internal (Some i) ''enum variant out of range'') (\<lambda>_.
     run_then (need (row (st_enum_variant_types (ie_storage e)) (range_at (ety_variants shape) (unat variant)))) (\<lambda>var.
     run_then (require (unat field < rg_size (ev_fields var)) Internal (Some i) ''enum field out of range'') (\<lambda>_.
     run_then (need (enum_payload_area (engine_layout e) (ie_storage e) enum_ty)) (\<lambda>area.
     run_then (need (field_offset (engine_layout e) (ev_fields var) (unat field))) (\<lambda>off.
     Inr (address + payload_start area + off))))))))"

definition execute_enum_field_addr :: "engine \<Rightarrow> nat \<Rightarrow> reg_frame \<Rightarrow> reg_frame step" where
  "execute_enum_field_addr e i fr =
     run_then (engine_instr e i) (\<lambda>ins.
     case in_dst ins of
       None \<Rightarrow> fail Internal (Some i) ''enum field address without a destination''
     | Some dst \<Rightarrow>
         run_then (enum_place e i fr ''enum field address of a non-address'') (\<lambda>place.
         run_then (resolve_int_at e i 1 fr) (\<lambda>variant.
         run_then (resolve_int_at e i 2 fr) (\<lambda>field.
         run_then (place_niche e i) (\<lambda>(enum_ty, niche).
         if ni_has niche then set_reg fr dst (address_slot (rs_address place))
         else
           run_then (enum_field_address e i (rs_address place) enum_ty variant field) (\<lambda>at.
           set_reg fr dst (address_slot at)))))))"

subsection \<open>Memory instructions\<close>

definition execute_move :: "engine \<Rightarrow> nat \<Rightarrow> reg_frame \<Rightarrow> reg_frame step" where
  "execute_move e i fr =
     run_then (engine_instr e i) (\<lambda>ins.
     case in_dst ins of
       None \<Rightarrow> Inr fr
     | Some dst \<Rightarrow> run_then (resolve_at e i 0 fr) (\<lambda>v. set_reg fr dst v))"

definition execute_alloca :: "engine \<Rightarrow> nat \<Rightarrow> reg_frame \<Rightarrow> interp \<Rightarrow> (reg_frame \<times> interp) step" where
  "execute_alloca e i fr ip =
     run_then (engine_instr e i) (\<lambda>ins.
     case in_dst ins of
       None \<Rightarrow> fail Internal (Some i) ''alloca without a destination''
     | Some dst \<Rightarrow>
         run_then (resolve_int_at e i 0 fr) (\<lambda>count.
         run_then (reg_type e dst) (\<lambda>ty.
         run_then (interp_alloc e ty count (Some i) ip) (\<lambda>(address, ip').
         run_then (set_reg fr dst (address_slot address)) (\<lambda>fr'. Inr (fr', ip'))))))"

definition execute_load :: "engine \<Rightarrow> nat \<Rightarrow> reg_frame \<Rightarrow> interp \<Rightarrow> reg_frame step" where
  "execute_load e i fr ip =
     run_then (engine_instr e i) (\<lambda>ins.
     case in_dst ins of
       None \<Rightarrow> fail Internal (Some i) ''load without a destination''
     | Some dst \<Rightarrow>
         run_then (resolve_at e i 0 fr) (\<lambda>pointer.
         run_then (is_address i pointer ''load from a non-address'') (\<lambda>_.
         run_then (reg_type e dst) (\<lambda>ty.
         run_then (interp_read e ty (rs_address pointer) (Some i) ip) (\<lambda>v.
         set_reg fr dst v)))))"

definition execute_store :: "engine \<Rightarrow> nat \<Rightarrow> reg_frame \<Rightarrow> interp \<Rightarrow> interp step" where
  "execute_store e i fr ip =
     run_then (resolve_at e i 0 fr) (\<lambda>v.
     run_then (resolve_at e i 1 fr) (\<lambda>pointer.
     run_then (is_address i pointer ''store to a non-address'') (\<lambda>_.
     run_then (engine_operand e i 0) (\<lambda>opd.
     interp_write e (opd_type opd) v (rs_address pointer) (Some i) ip))))"

subsection \<open>Control flow\<close>

datatype flow = FlNext | FlJump nat | FlReturn returned

type_synonym 'a run = "'a step \<times> interp"

definition run_on :: "'a run \<Rightarrow> ('a \<Rightarrow> interp \<Rightarrow> 'b run) \<Rightarrow> 'b run" where
  "run_on m f = (case m of (Inl s, ip) \<Rightarrow> (Inl s, ip) | (Inr x, ip) \<Rightarrow> f x ip)"

text \<open>Each parameter of the target is assigned before the next argument is read.\<close>

fun bind_params :: "engine \<Rightarrow> nat \<Rightarrow> nat list \<Rightarrow> nat \<Rightarrow> reg_frame \<Rightarrow> reg_frame step" where
  "bind_params e i [] pos fr = Inr fr"
| "bind_params e i (p # ps) pos fr =
     run_then (need (row (st_block_params (ie_storage e)) p)) (\<lambda>param.
     run_then (resolve_at e i (1 + pos) fr) (\<lambda>v.
     run_then (bind_slot e (bp_type param) v (Some i)) (\<lambda>b.
     run_then (set_reg fr (bp_reg param) b) (bind_params e i ps (Suc pos)))))"

definition branch_target :: "nat \<Rightarrow> operand \<Rightarrow> nat step" where
  "branch_target i opd =
     (case opd_data opd of OpdBlock b \<Rightarrow> Inr b | _ \<Rightarrow> fail Internal (Some i) ''branch without a target'')"

definition execute_br :: "engine \<Rightarrow> nat \<Rightarrow> nat \<Rightarrow> reg_frame \<Rightarrow> interp \<Rightarrow> (reg_frame \<times> flow) run" where
  "execute_br e i blk fr ip =
     run_on (run_then (engine_operand e i 0) (\<lambda>opd.
             run_then (branch_target i opd) (\<lambda>target.
             run_then (need (row (st_blocks (ie_storage e)) target)) (\<lambda>target_block. Inr (target, target_block)))), ip)
     (\<lambda>(target, target_block) ip.
     run_on (if target \<le> blk then spend (Some i) ip else (Inr (), ip))
     (\<lambda>_ ip.
     (run_then (engine_instr e i) (\<lambda>ins.
      run_then (require (rg_size (in_operands ins) = 1 + rg_size (bl_params target_block)) Internal (Some i)
        ''branch arity does not match parameters'') (\<lambda>_.
      run_then (bind_params e i (range_list (bl_params target_block)) 0 fr) (\<lambda>fr'. Inr (fr', FlJump target)))), ip)))"

definition execute_cond_br :: "engine \<Rightarrow> nat \<Rightarrow> reg_frame \<Rightarrow> (reg_frame \<times> flow) step" where
  "execute_cond_br e i fr =
     run_then (resolve_at e i 0 fr) (\<lambda>condition.
     run_then (require (rs_kind condition = SlScalar) Internal (Some i) ''branch condition is not a scalar'') (\<lambda>_.
     run_then (engine_operand e i 1) (\<lambda>true_operand.
     run_then (engine_operand e i 2) (\<lambda>false_operand.
     run_then (branch_target i true_operand) (\<lambda>on_true.
     run_then (branch_target i false_operand) (\<lambda>on_false.
     Inr (fr, FlJump (if rs_bits condition \<noteq> 0 then on_true else on_false))))))))"

definition execute_ret :: "engine \<Rightarrow> nat \<Rightarrow> reg_frame \<Rightarrow> (reg_frame \<times> flow) step" where
  "execute_ret e i fr =
     run_then (engine_instr e i) (\<lambda>ins.
     if rg_size (in_operands ins) = 0
     then Inr (fr, FlReturn \<lparr>rt_slot = blank_slot, rt_type = primitive_idx TyVoid\<rparr>)
     else
       run_then (resolve_at e i 0 fr) (\<lambda>v.
       run_then (engine_operand e i 0) (\<lambda>opd.
       Inr (fr, FlReturn \<lparr>rt_slot = v, rt_type = opd_type opd\<rparr>))))"

definition external_what :: "bytes \<Rightarrow> bytes" where
  "external_what name =
     (if name = ''alcy_panic'' then ''call to panic in comp evaluation''
      else if name = ''alcy_print'' \<or> name = ''alcy_println'' then ''call to print in comp evaluation''
      else if name = ''alcy_alloc'' then ''allocation in comp evaluation''
      else if name = ''alcy_dealloc'' then ''deallocation in comp evaluation''
      else ''call to a runtime function in comp evaluation'')"

fun resolve_all :: "engine \<Rightarrow> nat \<Rightarrow> reg_frame \<Rightarrow> nat list \<Rightarrow> reg_slot list step" where
  "resolve_all e i fr [] = Inr []"
| "resolve_all e i fr (k # ks) =
     run_then (resolve_at e i k fr) (\<lambda>v. run_then (resolve_all e i fr ks) (\<lambda>vs. Inr (v # vs)))"

definition entry_block :: "engine \<Rightarrow> nat \<Rightarrow> block step" where
  "entry_block e fn =
     run_then (need (row (st_functions (ie_storage e)) fn)) (\<lambda>f.
     need (row (st_blocks (ie_storage e)) (rg_head (fn_blocks f))))"

text \<open>The target of a call and its arguments.\<close>

definition call_site :: "engine \<Rightarrow> nat \<Rightarrow> reg_frame \<Rightarrow> (nat \<times> reg_slot list) step" where
  "call_site e i fr =
     run_then (engine_instr e i) (\<lambda>ins.
     run_then (engine_operand e i 0) (\<lambda>callee.
     case opd_data callee of
       OpdExternal x \<Rightarrow>
         run_then (need (row (st_external_functions (ie_storage e)) x)) (\<lambda>external.
         fail Unsupported (Some i) (external_what (ie_strings e (fm_name (xf_meta external)))))
     | OpdFunction target \<Rightarrow>
         run_then (require (target < length (st_functions (ie_storage e))) Unsupported (Some i)
           ''call to a function that is not lowered yet'') (\<lambda>_.
         run_then (entry_block e target) (\<lambda>entry.
         run_then (require (rg_size (in_operands ins) = Suc (rg_size (bl_params entry))) Internal (Some i)
           ''call arity does not match parameters'') (\<lambda>_.
         run_then (resolve_all e i fr [1..<rg_size (in_operands ins)]) (\<lambda>args. Inr (target, args)))))
     | _ \<Rightarrow> fail Unsupported (Some i) ''indirect call in comp evaluation''))"

text \<open>How a function is run: the function, its arguments, the calling instruction and the state.\<close>

type_synonym caller = "nat \<Rightarrow> reg_slot list \<Rightarrow> nat option \<Rightarrow> interp \<Rightarrow> returned run option"

definition execute_call :: "engine \<Rightarrow> caller \<Rightarrow> nat \<Rightarrow> reg_frame \<Rightarrow> interp \<Rightarrow> (reg_frame \<times> flow) run option" where
  "execute_call e call i fr ip =
     (case call_site e i fr of
        Inl s \<Rightarrow> Some (Inl s, ip)
      | Inr (target, args) \<Rightarrow>
          map_option (\<lambda>m. run_on m (\<lambda>ret ip'.
            (run_then (engine_instr e i) (\<lambda>ins.
             run_then (set_dst fr (in_dst ins) (rt_slot ret)) (\<lambda>fr'. Inr (fr', FlNext))), ip')))
            (call target args (Some i) ip))"

definition refused_what :: "opcode \<Rightarrow> run_error_kind \<times> bytes" where
  "refused_what op =
     (if op = OpUnreachable then (Internal, ''reached unreachable code'')
      else if op = OpElemOffset then (Unsupported, ''element offset in comp evaluation'')
      else if op = OpExtractValue then (Unsupported, ''aggregate extraction in comp evaluation'')
      else if op = OpInsertValue then (Unsupported, ''aggregate insertion in comp evaluation'')
      else if op = OpMemcopy then (Unsupported, ''memory copy in comp evaluation'')
      else if op \<in> {OpFAdd, OpFSub, OpFMul, OpFDiv} then (Unsupported, ''float arithmetic in comp evaluation'')
      else if op \<in> {OpTypeSizeOf, OpTypeAlignOf} then (Unsupported, ''type query in comp evaluation'')
      else if op = OpSwitch then (Unsupported, ''switch in comp evaluation'')
      else if op \<in> {OpAtomicLoad, OpAtomicStore, OpAtomicRmw, OpAtomicCompareExchange}
      then (Unsupported, ''atomic operation in comp evaluation'')
      else if op = OpFence then (Unsupported, ''fence in comp evaluation'')
      else (Internal, ''unknown opcode''))"

definition BINARY_OPS :: "opcode list" where
  "BINARY_OPS = [OpIntAdd, OpIntSub, OpIntMul, OpIntAddWrap, OpIntSubWrap, OpIntMulWrap, OpIntDiv, OpUintDiv, OpIntRem,
     OpUintRem, OpAnd, OpOr, OpXor, OpShiftLeft, OpArithmeticShiftRight, OpLogicalShiftRight]"

definition COMPARE_OPS :: "opcode list" where
  "COMPARE_OPS = [OpEq, OpNe, OpLe, OpLt, OpGe, OpGt]"

text \<open>An instruction that only sets a register, and one that changes the memory.\<close>

definition setting :: "reg_frame step \<Rightarrow> interp \<Rightarrow> (reg_frame \<times> flow) run option" where
  "setting r ip = Some (run_then r (\<lambda>fr. Inr (fr, FlNext)), ip)"

definition changing :: "(reg_frame \<times> interp) step \<Rightarrow> interp \<Rightarrow> (reg_frame \<times> flow) run option" where
  "changing r ip = Some (case r of Inl s \<Rightarrow> (Inl s, ip) | Inr (fr, ip') \<Rightarrow> (Inr (fr, FlNext), ip'))"

definition execute_instruction ::
  "engine \<Rightarrow> caller \<Rightarrow> nat \<Rightarrow> nat \<Rightarrow> reg_frame \<Rightarrow> interp \<Rightarrow> (reg_frame \<times> flow) run option" where
  "execute_instruction e call i blk fr ip =
     (case engine_instr e i of
        Inl s \<Rightarrow> Some (Inl s, ip)
      | Inr ins \<Rightarrow>
          let op = in_op ins in
          if op = OpNoop \<or> op = OpDrop then setting (Inr fr) ip
          else if op = OpMove \<or> op = OpBorrow then setting (execute_move e i fr) ip
          else if op = OpAlloca then changing (execute_alloca e i fr ip) ip
          else if op = OpLoad then setting (execute_load e i fr ip) ip
          else if op = OpStore then changing (run_then (execute_store e i fr ip) (\<lambda>ip'. Inr (fr, ip'))) ip
          else if op = OpGetElementPtr then setting (execute_gep e i fr) ip
          else if op = OpEnumTagLoad then setting (execute_enum_tag_load e i fr ip) ip
          else if op = OpEnumTagSet then changing (run_then (execute_enum_tag_set e i fr ip) (\<lambda>ip'. Inr (fr, ip'))) ip
          else if op = OpEnumFieldAddr then setting (execute_enum_field_addr e i fr) ip
          else if op \<in> set BINARY_OPS then setting (execute_binary e i fr) ip
          else if op = OpNot then setting (execute_not e i fr) ip
          else if op = OpBitReverse then setting (execute_bit_reverse e i fr) ip
          else if op \<in> set COMPARE_OPS then setting (execute_compare e i fr) ip
          else if op = OpTypeCast then setting (execute_cast e i fr) ip
          else if op = OpSelect then setting (execute_select e i fr) ip
          else if op = OpBr then Some (execute_br e i blk fr ip)
          else if op = OpCondBr then Some (execute_cond_br e i fr, ip)
          else if op = OpCall then execute_call e call i fr ip
          else if op = OpRet then Some (execute_ret e i fr, ip)
          else Some (fail (fst (refused_what op)) (Some i) (snd (refused_what op)), ip))"

fun run_instrs :: "engine \<Rightarrow> caller \<Rightarrow> nat \<Rightarrow> nat list \<Rightarrow> reg_frame \<Rightarrow> interp \<Rightarrow> (reg_frame \<times> flow) run option" where
  "run_instrs e call blk [] fr ip = Some (Inr (fr, FlNext), ip)"
| "run_instrs e call blk (i # rest) fr ip =
     (case execute_instruction e call i blk fr ip of
        Some (Inr (fr', FlNext), ip') \<Rightarrow> run_instrs e call blk rest fr' ip'
      | r \<Rightarrow> r)"

fun execute_blocks :: "engine \<Rightarrow> caller \<Rightarrow> nat \<Rightarrow> nat \<Rightarrow> reg_frame \<Rightarrow> interp \<Rightarrow> returned run option" where
  "execute_blocks e call 0 blk fr ip = None"
| "execute_blocks e call (Suc n) blk fr ip =
     (case row (st_blocks (ie_storage e)) blk of
        None \<Rightarrow> Some (Inl Undefined, ip)
      | Some b \<Rightarrow>
          (case run_instrs e call blk (range_list (bl_instrs b)) fr ip of
             None \<Rightarrow> None
           | Some (Inl s, ip') \<Rightarrow> Some (Inl s, ip')
           | Some (Inr (fr', FlReturn r), ip') \<Rightarrow> Some (Inr r, ip')
           | Some (Inr (fr', FlJump target), ip') \<Rightarrow> execute_blocks e call n target fr' ip'
           | Some (Inr (fr', FlNext), ip') \<Rightarrow>
               Some (fail Internal (Some (rg_head (bl_instrs b))) ''block without terminator'', ip')))"

fun bind_args :: "engine \<Rightarrow> nat option \<Rightarrow> nat list \<Rightarrow> reg_slot list \<Rightarrow> reg_frame \<Rightarrow> reg_frame step" where
  "bind_args e at (p # ps) (a # args) fr =
     run_then (need (row (st_block_params (ie_storage e)) p)) (\<lambda>param.
     run_then (bind_slot e (bp_type param) a at) (\<lambda>b.
     run_then (set_reg fr (bp_reg param) b) (bind_args e at ps args)))"
| "bind_args e at ps args fr = Inr fr"

definition enter_frame :: "engine \<Rightarrow> nat \<Rightarrow> reg_slot list \<Rightarrow> nat option \<Rightarrow> (nat \<times> reg_frame) step" where
  "enter_frame e fn args at =
     run_then (need (row (st_functions (ie_storage e)) fn)) (\<lambda>f.
     run_then (entry_block e fn) (\<lambda>entry.
     run_then (require (length args = rg_size (bl_params entry)) Internal at ''call arity does not match parameters'') (\<lambda>_.
     run_then (bind_args e at (range_list (bl_params entry)) args
       (replicate (length (st_registers (ie_storage e))) blank_slot)) (\<lambda>fr.
     Inr (rg_head (fn_blocks f), fr)))))"

fun execute_function :: "nat \<Rightarrow> engine \<Rightarrow> caller" where
  "execute_function 0 e fn args at ip = None"
| "execute_function (Suc n) e fn args at ip =
     (case spend at ip of
        (Inl s, ip1) \<Rightarrow> Some (Inl s, ip1)
      | (Inr _, ip1) \<Rightarrow>
          if ip_depth ip1 \<ge> COMP_MAX_CALL_DEPTH then Some (fail Depth at ''comp call depth exhausted'', ip1)
          else
            (case enter_frame e fn args at of
               Inl s \<Rightarrow> Some (Inl s, ip1)
             | Inr (head, fr) \<Rightarrow>
                 map_option (\<lambda>(r, ip2). (r, ip2\<lparr>ip_depth := ip_depth ip2 - 1\<rparr>))
                   (execute_blocks e (execute_function n e) n head fr (ip1\<lparr>ip_depth := ip_depth ip1 + 1\<rparr>))))"

subsection \<open>The entry point\<close>

definition plain_value :: "comp_tag \<Rightarrow> u64 \<Rightarrow> bool \<Rightarrow> comp_value" where
  "plain_value tag n b = CompValue tag n b [] [] 0"

definition to_result :: "engine \<Rightarrow> returned \<Rightarrow> comp_val step" where
  "to_result e ret =
     run_then (tag_of e (rt_type ret)) (\<lambda>tag.
     if tag = TyVoid then Inr \<lparr>cl_value = plain_value CtVoid 0 False, cl_type = Some (rt_type ret)\<rparr>
     else if tag = TyI1 then
       run_then (require (rs_kind (rt_slot ret) = SlScalar) Internal None ''boolean result is not a scalar'') (\<lambda>_.
       Inr \<lparr>cl_value = plain_value CtBool 0 (rs_bits (rt_slot ret) \<noteq> 0), cl_type = Some (rt_type ret)\<rparr>)
     else if is_integer_type tag then
       run_then (require (rs_kind (rt_slot ret) = SlScalar) Internal None ''integer result is not a scalar'') (\<lambda>_.
       Inr \<lparr>cl_value = plain_value CtInt (rs_bits (rt_slot ret) AND int_mask tag) False, cl_type = Some (rt_type ret)\<rparr>)
     else if is_pointer_type tag then fail Unsupported None ''reference result in comp evaluation''
     else if is_float_type tag then fail Unsupported None ''float result in comp evaluation''
     else fail Unsupported None ''aggregate result in comp evaluation'')"

fun slots_of :: "engine \<Rightarrow> nat list \<Rightarrow> comp_val list \<Rightarrow> reg_slot list step" where
  "slots_of e (p # ps) (v # vs) =
     run_then (need (row (st_block_params (ie_storage e)) p)) (\<lambda>param.
     run_then (comp_val_to_slot e (bp_type param) v) (\<lambda>s.
     run_then (slots_of e ps vs) (\<lambda>ss. Inr (s # ss))))"
| "slots_of e ps vs = Inr []"

definition entry_slots :: "engine \<Rightarrow> nat \<Rightarrow> comp_val list \<Rightarrow> reg_slot list step" where
  "entry_slots e fn args =
     run_then (require (fn < length (st_functions (ie_storage e))) Unsupported None ''function that is not lowered yet'') (\<lambda>_.
     run_then (entry_block e fn) (\<lambda>entry.
     run_then (require (length args = rg_size (bl_params entry)) Internal None ''call arity does not match parameters'') (\<lambda>_.
     slots_of e (range_list (bl_params entry)) args)))"

definition run_function :: "nat \<Rightarrow> engine \<Rightarrow> nat \<Rightarrow> comp_val list \<Rightarrow> interp \<Rightarrow> comp_val run option" where
  "run_function fuel e fn args ip =
     (case entry_slots e fn args of
        Inl s \<Rightarrow> Some (Inl s, ip)
      | Inr slots \<Rightarrow>
          map_option (\<lambda>m. run_on m (\<lambda>ret ip'. (to_result e ret, ip'))) (execute_function fuel e fn slots None ip))"

definition new_interp :: "u64 \<Rightarrow> u32 \<Rightarrow> interp" where
  "new_interp quota depth = \<lparr>ip_memory = [0], ip_quota = quota, ip_depth = depth\<rparr>"

definition interpret_function :: "nat \<Rightarrow> engine \<Rightarrow> nat \<Rightarrow> comp_val list \<Rightarrow> u64 \<Rightarrow> u32 \<Rightarrow> comp_val run option" where
  "interpret_function fuel e fn args quota depth = run_function fuel e fn args (new_interp quota depth)"

end
