(* ===== verification/Ir_Interp_Arith.thy ===== *)
theory Ir_Interp_Arith
  imports Ir_Interp Opt
begin

text \<open>
  What the compile-time engine of \<^verbatim>\<open>src/src/comp/ir_interpreter.cc\<close> computes on registers, held against the
  meaning of the operations on integers and against the constant folder of \<^verbatim>\<open>src/src/opt/opt.cc\<close>.
\<close>

subsection \<open>Registers as masked words\<close>

lemma int_mask_eq: "int_mask tag = type_mask tag"
  by (simp add: int_mask_def comp_mask_def type_mask_def width_eq width_def int_bytes_def Let_def)

lemma masked_cong: "take_bit (width tag) u = take_bit (width tag) v \<Longrightarrow> masked_word tag u = masked_word tag v"
  by (simp add: masked_word_def)

lemma register_word: "a AND int_mask tag = word_of_int (unsigned_view tag (tag_value tag a))"
  by (simp add: int_mask_eq unsigned_view_eq)

lemma uint_register: "uint (a AND int_mask tag) = unsigned_view tag (tag_value tag a)"
  by (simp add: int_mask_eq uint_unsigned_view)

lemma register_value: "tag_value tag (a AND int_mask tag) = tag_value tag a"
proof -
  obtain n where n: "width tag = Suc n" using width_bounds(1) [of tag] by (cases "width tag") auto
  have "take_bit (Suc n) (uint (a AND int_mask tag)) = take_bit (Suc n) (uint a)"
    by (simp add: uint_register unsigned_view_def n [symmetric] tag_value_range)
  then show ?thesis by (simp add: tag_value_def n signed_take_bit_eq_iff_take_bit_eq)
qed

lemma masked_and_mask [simp]: "masked_word tag v AND int_mask tag = masked_word tag v"
  by (simp add: int_mask_eq type_mask_eq masked_word_def take_bit_of_int)

lemma word_and_mask: "word_of_int v AND int_mask tag = masked_word tag v"
  by (simp add: int_mask_eq mask_word)

lemma register_le_mask: "a AND int_mask tag \<le> comp_mask tag" if "tag \<noteq> TyI1"
  using that by (simp add: int_mask_def word_and_le1)

lemma register_arith:
  fixes a b :: u64 and tag :: type_tag
  defines "x \<equiv> tag_value tag a" and "y \<equiv> tag_value tag b" and "l \<equiv> a AND int_mask tag" and "r \<equiv> b AND int_mask tag"
  shows "(l + r) AND int_mask tag = masked_word tag (x + y)" "(l - r) AND int_mask tag = masked_word tag (x - y)"
    "(l * r) AND int_mask tag = masked_word tag (x * y)" "(l AND r) AND int_mask tag = masked_word tag (x AND y)"
    "(l OR r) AND int_mask tag = masked_word tag (x OR y)" "(l XOR r) AND int_mask tag = masked_word tag (x XOR y)"
    "push_bit k l AND int_mask tag = masked_word tag (x * 2 ^ k)"
proof -
  let ?u = "unsigned_view tag"
  have w: "l = word_of_int (?u x)" "r = word_of_int (?u y)" by (simp_all add: l_def r_def x_def y_def register_word)
  show "(l + r) AND int_mask tag = masked_word tag (x + y)"
    using word_and_mask [of "?u x + ?u y" tag] by (simp add: w masked_word_def unsigned_view_def take_bit_add)
  show "(l - r) AND int_mask tag = masked_word tag (x - y)"
    using word_and_mask [of "?u x - ?u y" tag] by (simp add: w masked_word_def unsigned_view_def take_bit_diff)
  show "(l * r) AND int_mask tag = masked_word tag (x * y)"
    using word_and_mask [of "?u x * ?u y" tag] by (simp add: w masked_word_def unsigned_view_def take_bit_mult)
  show "(l AND r) AND int_mask tag = masked_word tag (x AND y)"
    using word_and_mask [of "?u x AND ?u y" tag] by (simp add: w masked_word_def unsigned_view_def of_int_and_eq)
  show "(l OR r) AND int_mask tag = masked_word tag (x OR y)"
    using word_and_mask [of "?u x OR ?u y" tag] by (simp add: w masked_word_def unsigned_view_def of_int_or_eq)
  show "(l XOR r) AND int_mask tag = masked_word tag (x XOR y)"
    using word_and_mask [of "?u x XOR ?u y" tag] by (simp add: w masked_word_def unsigned_view_def of_int_xor_eq)
  have "take_bit (width tag) (?u x * 2 ^ k) = take_bit (width tag) (x * 2 ^ k)"
    by (simp add: unsigned_view_def take_bit_eq_mod mod_mult_left_eq)
  then show "push_bit k l AND int_mask tag = masked_word tag (x * 2 ^ k)"
    using word_and_mask [of "?u x * 2 ^ k" tag] by (simp add: w push_bit_eq_mult masked_word_def)
qed

lemma engine_shift_eq: "tag \<noteq> TyI1 \<Longrightarrow> engine_shift tag (b AND int_mask tag) = nat (tag_value tag b mod int (width tag))"
proof -
  assume "tag \<noteq> TyI1"
  then have "of_nat (int_bytes tag) * 8 - 1 = (of_nat (bit_width tag - 1) :: u64)"
    using int_bytes_cases [of tag] by (auto simp: width_eq width_def)
  then have "engine_shift tag (b AND int_mask tag) = shift_amount tag (b AND int_mask tag)"
    by (simp add: engine_shift_def shift_amount_def)
  then show ?thesis by (simp add: shift_amount_eq register_value)
qed

lemma register_zero: "b AND int_mask tag = 0 \<longleftrightarrow> tag_value tag b = 0"
proof -
  have "b AND int_mask tag = 0 \<longleftrightarrow> take_bit (width tag) (uint b) = 0"
    using uint_register [of b tag] by (simp add: word_eq_iff_unsigned [where 'a = int] unsigned_view_def tag_value_range)
  moreover obtain n where n: "width tag = Suc n" using width_bounds(1) [of tag] by (cases "width tag") auto
  moreover have "signed_take_bit n (uint b) = 0 \<longleftrightarrow> take_bit (Suc n) (uint b) = 0"
    using signed_take_bit_eq_iff_take_bit_eq [of n "uint b" 0] by simp
  ultimately show ?thesis by (simp add: tag_value_def)
qed

lemma register_signed: "tag \<noteq> TyI1 \<Longrightarrow> sint (comp_sign_extend (a AND int_mask tag) tag) = signed_view tag (tag_value tag a)"
  using signed_view_eq [of tag "a AND int_mask tag"] sign_extends_agree [of tag "a AND int_mask tag"]
  by (simp add: register_value)

text \<open>The operation that a wrapping operation computes.\<close>

definition base_op :: "opcode \<Rightarrow> opcode" where
  "base_op op = (if op = OpIntAddWrap then OpIntAdd else if op = OpIntSubWrap then OpIntSub
                 else if op = OpIntMulWrap then OpIntMul else op)"

lemma engine_division_meaning:
  assumes "tag \<noteq> TyI1" "op \<in> {OpIntDiv, OpIntRem, OpUintDiv, OpUintRem}"
  shows "case op_meaning op tag (tag_value tag a) (tag_value tag b) of
      None \<Rightarrow> engine_division op tag (a AND int_mask tag) (b AND int_mask tag) i
                = fail Unsupported (Some i) ''division by zero in comp evaluation''
    | Some v \<Rightarrow> \<exists>r. engine_division op tag (a AND int_mask tag) (b AND int_mask tag) i = Inr r
                \<and> r AND int_mask tag = masked_word tag v"
proof (cases "tag_value tag b = 0")
  case True
  then have "b AND int_mask tag = 0" by (simp add: register_zero)
  moreover have "op_meaning op tag (tag_value tag a) (tag_value tag b) = None"
    using True assms(2) by (auto simp: op_meaning_def)
  ultimately show ?thesis by (simp add: engine_division_def require_def fail_def)
next
  case False
  then have nz: "b AND int_mask tag \<noteq> 0" by (simp add: register_zero)
  let ?l = "a AND int_mask tag" and ?r = "b AND int_mask tag"
  have s: "sint (comp_sign_extend ?l tag) = signed_view tag (tag_value tag a)"
    "sint (comp_sign_extend ?r tag) = signed_view tag (tag_value tag b)" using register_signed [OF assms(1)] by simp_all
  have min: "sint MIN64 = - (2 ^ 63)" by (simp add: MIN64_def)
  have u: "?l div ?r = word_of_int (unsigned_view tag (tag_value tag a) div unsigned_view tag (tag_value tag b))"
    "?l mod ?r = word_of_int (unsigned_view tag (tag_value tag a) mod unsigned_view tag (tag_value tag b))"
    by (simp_all add: word_div_def word_mod_def uint_register)
  have div: "engine_division OpIntDiv tag ?l ?r i =
      Inr (word_of_int (signed_view tag (tag_value tag a) sdiv signed_view tag (tag_value tag b)))"
  proof (cases "comp_sign_extend ?l tag = MIN64 \<and> comp_sign_extend ?r tag = - 1")
    case True
    then have "signed_view tag (tag_value tag a) = - (2 ^ 63)" "signed_view tag (tag_value tag b) = - 1"
      using s min by auto
    then show ?thesis using nz by (simp add: engine_division_def require_def s Let_def MIN64_def)
  qed (use nz in \<open>auto simp: engine_division_def require_def s Let_def\<close>)
  have rem: "engine_division OpIntRem tag ?l ?r i =
      Inr (word_of_int (signed_view tag (tag_value tag a) smod signed_view tag (tag_value tag b)))"
  proof (cases "comp_sign_extend ?l tag = MIN64 \<and> comp_sign_extend ?r tag = - 1")
    case True
    then have "signed_view tag (tag_value tag a) = - (2 ^ 63)" "signed_view tag (tag_value tag b) = - 1"
      using s min by auto
    then show ?thesis using nz by (simp add: engine_division_def require_def s Let_def smod_int_alt_def)
  qed (use nz in \<open>auto simp: engine_division_def require_def s Let_def\<close>)
  have "engine_division OpUintDiv tag ?l ?r i = Inr (?l div ?r)" "engine_division OpUintRem tag ?l ?r i = Inr (?l mod ?r)"
    using nz by (simp_all add: engine_division_def require_def)
  then show ?thesis
    using assms(2) False div rem u by (auto simp: op_meaning_def Let_def word_and_mask)
qed

definition checked_op :: "opcode \<Rightarrow> bool" where
  "checked_op op \<longleftrightarrow> op = OpIntAdd \<or> op = OpIntSub \<or> op = OpIntMul"

lemma engine_overflow:
  assumes "is_integer_type tag" "tag \<noteq> TyI1"
  shows "add_overflows (a AND int_mask tag) (b AND int_mask tag) tag \<longleftrightarrow> \<not> in_range tag (tag_value tag a + tag_value tag b)"
    and "sub_overflows (a AND int_mask tag) (b AND int_mask tag) tag \<longleftrightarrow> \<not> in_range tag (tag_value tag a - tag_value tag b)"
    and "mul_overflows (a AND int_mask tag) (b AND int_mask tag) tag \<longleftrightarrow> \<not> in_range tag (tag_value tag a * tag_value tag b)"
  using overflow_unmasked [OF assms, of "a AND int_mask tag" "b AND int_mask tag"] register_le_mask [OF assms(2)]
  by (simp_all add: register_value)

lemma arithmetic_shift:
  assumes "tag \<noteq> TyI1"
  shows "(if is_signed tag then signed_drop_bit k (comp_sign_extend (a AND int_mask tag) tag) else drop_bit k (a AND int_mask tag))
      AND int_mask tag = masked_word tag (tag_value tag a div 2 ^ k)"
proof (cases "is_signed tag")
  case True
  then have "signed_view tag (tag_value tag a) = tag_value tag a"
    using register_signed [OF assms, of a] extended_value [OF True, of "a AND int_mask tag"] by (simp add: register_value)
  then show ?thesis using True register_signed [OF assms, of a] by (simp add: signed_drop_word word_and_mask)
next
  case False
  then have "unsigned_view tag (tag_value tag a) = tag_value tag a" by (simp add: unsigned_view_def tag_value_def)
  then show ?thesis using False masked_shifted [of k a tag] masked_and_mask by (simp add: int_mask_eq)
qed

lemma engine_arith_meaning:
  assumes t: "is_integer_type tag" "tag \<noteq> TyI1" and op: "op \<in> set BINARY_OPS"
  shows "case op_meaning (base_op op) tag (tag_value tag a) (tag_value tag b) of
      None \<Rightarrow> engine_arith op tag (a AND int_mask tag) (b AND int_mask tag) i
                = fail Unsupported (Some i) ''division by zero in comp evaluation''
    | Some v \<Rightarrow>
        if checked_op op \<and> \<not> in_range tag v
        then engine_arith op tag (a AND int_mask tag) (b AND int_mask tag) i = overflow_error i
        else \<exists>r. engine_arith op tag (a AND int_mask tag) (b AND int_mask tag) i = Inr r \<and> r AND int_mask tag = masked_word tag v"
proof -
  note ar = register_arith(1-6) [where a = a and b = b and tag = tag] register_arith(7) [where a = a and tag = tag]
    engine_overflow [OF t, of a b] engine_shift_eq [OF t(2), of b]
  have logic: "drop_bit k (a AND int_mask tag) AND int_mask tag = masked_word tag (unsigned_view tag (tag_value tag a) div 2 ^ k)" for k
    using masked_shifted [of k a tag] masked_and_mask by (simp add: int_mask_eq)
  consider "op \<in> {OpIntDiv, OpIntRem, OpUintDiv, OpUintRem}" | "op = OpArithmeticShiftRight" | "op = OpLogicalShiftRight"
    | "op \<in> {OpIntAdd, OpIntSub, OpIntMul, OpIntAddWrap, OpIntSubWrap, OpIntMulWrap, OpAnd, OpOr, OpXor, OpShiftLeft}"
    using op by (auto simp: BINARY_OPS_def)
  then show ?thesis
  proof cases
    case 1
    then have "base_op op = op" "\<not> checked_op op" "engine_arith op = engine_division op"
      by (auto simp: base_op_def checked_op_def engine_arith_def fun_eq_iff)
    then show ?thesis using engine_division_meaning [OF t(2) 1, of a b i] by (simp split: option.splits)
  next
    case 2
    then show ?thesis using arithmetic_shift [OF t(2), of _ a]
      by (simp add: base_op_def checked_op_def engine_arith_def op_meaning_def Let_def ar)
  next
    case 3
    then show ?thesis using logic
      by (simp add: base_op_def checked_op_def engine_arith_def op_meaning_def Let_def ar)
  next
    case 4
    define l r where "l = a AND int_mask tag" and "r = b AND int_mask tag"
    note lr = ar [folded l_def r_def]
    show ?thesis unfolding l_def [symmetric] r_def [symmetric]
      using 4 by (elim insertE emptyE) (simp_all add: base_op_def checked_op_def engine_arith_def op_meaning_def Let_def lr)
  qed
qed

lemma engine_ordering_meaning:
  assumes op: "op \<in> set COMPARE_OPS"
  shows "\<exists>p. engine_ordering op tag (a AND int_mask tag) (b AND int_mask tag) i = Inr p
    \<and> op_meaning op tag (tag_value tag a) (tag_value tag b) = Some (of_bool p)"
proof -
  let ?l = "a AND int_mask tag" and ?r = "b AND int_mask tag" and ?x = "tag_value tag a" and ?y = "tag_value tag b"
  have v: "sint (comp_sign_extend ?l tag) = ?x" "sint (comp_sign_extend ?r tag) = ?y" if "is_signed tag"
    using extended_value [OF that] by (simp_all add: register_value)
  have eq: "?l = ?r \<longleftrightarrow> ?x = ?y"
    using register_value [of tag a] register_value [of tag b] register_word [of a tag] register_word [of b tag] by metis
  have less: "?l < ?r \<longleftrightarrow> ?x < ?y" "?l \<le> ?r \<longleftrightarrow> ?x \<le> ?y" "?r < ?l \<longleftrightarrow> ?y < ?x" "?r \<le> ?l \<longleftrightarrow> ?y \<le> ?x" if "\<not> is_signed tag"
    using that by (simp_all add: word_less_def word_le_def uint_register unsigned_view_def tag_value_def)
  show ?thesis
    using op eq v less by (auto simp: COMPARE_OPS_def engine_ordering_def op_meaning_def Let_def)
qed

text \<open>A cast keeps the integer where the target has it, and wraps it where not.\<close>

lemma engine_cast_meaning:
  assumes "target \<noteq> TyI1"
  shows "cast_bits source target a = masked_word target (tag_value source a)"
proof -
  let ?l = "a AND int_mask source"
  have "(if is_signed source then comp_sign_extend ?l source else ?l) = word_of_int (tag_value source a)"
  proof (cases "is_signed source")
    case True
    have "word_of_int (sint (comp_sign_extend ?l source)) = comp_sign_extend ?l source" by simp
    then show ?thesis using True extended_value [OF True, of ?l] by (simp add: register_value)
  next
    case False
    then show ?thesis by (simp add: register_word unsigned_view_def tag_value_def)
  qed
  then show ?thesis using assms word_and_mask by (simp add: cast_bits_def Let_def)
qed

lemma bit_reverse_bits: "w \<le> 64 \<Longrightarrow> bit (reverse_bits w b) n \<longleftrightarrow> n < w \<and> bit b (w - 1 - n)"
proof -
  assume w: "w \<le> 64"
  let ?f = "\<lambda>i acc. if drop_bit i b AND 1 \<noteq> 0 then acc OR push_bit (w - 1 - i) 1 else acc :: u64"
  have low: "drop_bit i b AND 1 \<noteq> 0 \<longleftrightarrow> bit b i" for i by (simp add: and_one_eq bit_iff_odd_drop_bit odd_iff_mod_2_eq_one)
  have "m \<le> w \<Longrightarrow> bit (fold ?f [0..<m] 0) n \<longleftrightarrow> n < w \<and> w - 1 - n < m \<and> bit b (w - 1 - n)" for m
  proof (induction m)
    case (Suc m)
    have "bit (push_bit (w - 1 - m) 1 :: u64) n \<longleftrightarrow> n = w - 1 - m" using Suc.prems w by (auto simp: bit_simps)
    then show ?case using Suc by (auto simp: low bit_or_iff less_Suc_eq)
  qed simp
  then show ?thesis by (auto simp: reverse_bits_def)
qed

subsection \<open>Properties\<close>

lemma execute_binary_step:
  assumes "engine_instr e i = Inr ins" "resolve_at e i 0 fr = Inr lhs" "resolve_at e i 1 fr = Inr rhs"
    and "engine_operand e i 0 = Inr opd" "tag_of e (opd_type opd) = Inr tag" "is_integer_type tag"
    and "rs_kind lhs = SlScalar" "rs_kind rhs = SlScalar"
  shows "execute_binary e i fr =
    run_then (engine_arith (in_op ins) tag (rs_bits lhs AND int_mask tag) (rs_bits rhs AND int_mask tag) i)
      (\<lambda>result. set_dst fr (in_dst ins) (scalar_slot (result AND int_mask tag)))"
  using assms by (simp add: execute_binary_def require_def)

text \<open>A program of one block on bytes: \<^verbatim>\<open>r1 = r0 op r0; ret r1\<close>.\<close>

definition plain_instr :: "opcode \<Rightarrow> nat option \<Rightarrow> nat \<Rightarrow> nat \<Rightarrow> instruction" where
  "plain_instr op dst head n = \<lparr>in_op = op, in_flags = \<lparr>fl_rmw_op = RmwAdd, fl_inbounds = False\<rparr>, in_dst = dst,
     in_measure = None, in_operands = \<lparr>rg_head = head, rg_size = n\<rparr>\<rparr>"

definition one_block :: "opcode \<Rightarrow> storage_state" where
  "one_block op = empty_state
     \<lparr>st_types := map plain_node (take 18 ALL_TAGS),
      st_registers := [\<lparr>rg_type = 2, rg_def = None\<rparr>, \<lparr>rg_type = 2, rg_def = None\<rparr>],
      st_operands := [from_register 0 2, from_register 0 2, from_register 1 2],
      st_instrs := [plain_instr op (Some 1) 0 2, plain_instr OpRet None 2 1]\<rparr>"

definition one_block_engine :: "opcode \<Rightarrow> engine" where
  "one_block_engine op = \<lparr>ie_storage = one_block op, ie_strings = (\<lambda>_. []), ie_width = W64\<rparr>"

text \<open>
  C14. The engine computes the operations of the language.  A binary instruction on two integer
  registers leaves in its destination the result on the integers the registers stand for, wrapped to the type;
  it reports an overflow exactly when the operation is a checked one and the result is out of the range of
  the type, and refuses exactly the divisions by zero.
\<close>

theorem engine_binary_exact:
  assumes "engine_instr e i = Inr ins" "in_op ins \<in> set BINARY_OPS" "in_dst ins = Some d" "d < length fr"
    and "resolve_at e i 0 fr = Inr lhs" "resolve_at e i 1 fr = Inr rhs" "rs_kind lhs = SlScalar" "rs_kind rhs = SlScalar"
    and "engine_operand e i 0 = Inr opd" "tag_of e (opd_type opd) = Inr tag" "is_integer_type tag" "tag \<noteq> TyI1"
  shows "case op_meaning (base_op (in_op ins)) tag (tag_value tag (rs_bits lhs)) (tag_value tag (rs_bits rhs)) of
      None \<Rightarrow> execute_binary e i fr = fail Unsupported (Some i) ''division by zero in comp evaluation''
    | Some v \<Rightarrow> execute_binary e i fr =
        (if checked_op (in_op ins) \<and> \<not> in_range tag v then overflow_error i
         else Inr (fr[d := scalar_slot (masked_word tag v)]))"
  using engine_arith_meaning [OF assms(11,12,2), of "rs_bits lhs" "rs_bits rhs" i]
    execute_binary_step [OF assms(1,5,6,9,10,11,7,8)] assms(3,4)
  by (auto simp: set_dst_def set_reg_def fail_def overflow_error_def split: option.splits if_splits)

lemma engine_binary_exact_witness:
  "tag_value TyI8 0x80 = - 128 \<and> op_meaning OpIntDiv TyI8 (- 128) (- 128) = Some 1
   \<and> execute_binary (one_block_engine OpIntDiv) 0 [scalar_slot 0x80, blank_slot] = Inr [scalar_slot 0x80, scalar_slot 1]
   \<and> execute_binary (one_block_engine OpIntAdd) 0 [scalar_slot 0x80, blank_slot] = overflow_error 0
   \<and> execute_binary (one_block_engine OpIntAddWrap) 0 [scalar_slot 0x80, blank_slot] = Inr [scalar_slot 0x80, scalar_slot 0]"
proof -
  have v: "tag_value TyI8 0x80 = - 128" "op_meaning OpIntDiv TyI8 (- 128) (- 128) = Some 1"
    "op_meaning OpIntAdd TyI8 (- 128) (- 128) = Some (- 256)" "\<not> in_range TyI8 (- 256)"
    "masked_word TyI8 1 = 1" "masked_word TyI8 (- 256) = 0" by code_simp+
  have r: "resolve_at (one_block_engine op) 0 k [scalar_slot 0x80, blank_slot] = Inr (scalar_slot 0x80)"
    "engine_operand (one_block_engine op) 0 0 = Inr (from_register 0 2)" "tag_of (one_block_engine op) 2 = Inr TyI8"
    "\<exists>ins. engine_instr (one_block_engine op) 0 = Inr ins \<and> in_op ins = op \<and> in_dst ins = Some 1" if "k < 2" for op k
    using that
    by (auto simp: resolve_at_def engine_instr_def engine_operand_def tag_of_def one_block_engine_def one_block_def row_def
        require_def from_register_def resolve_operand_def plain_instr_def ALL_TAGS_def plain_node_def less_2_cases_iff)
  have ok: "is_integer_type TyI8" "TyI8 \<noteq> TyI1" by (simp_all add: is_integer_type_def)
  have run: "case op_meaning (base_op op) TyI8 (- 128) (- 128) of
      None \<Rightarrow> execute_binary (one_block_engine op) 0 [scalar_slot 0x80, blank_slot] = fail Unsupported (Some 0) ''division by zero in comp evaluation''
    | Some v \<Rightarrow> execute_binary (one_block_engine op) 0 [scalar_slot 0x80, blank_slot] =
        (if checked_op op \<and> \<not> in_range TyI8 v then overflow_error 0
         else Inr ([scalar_slot 0x80, blank_slot][1 := scalar_slot (masked_word TyI8 v)]))"
    if op: "op \<in> set BINARY_OPS" for op
  proof -
    obtain ins where ins: "engine_instr (one_block_engine op) 0 = Inr ins" "in_op ins = op" "in_dst ins = Some 1"
      using r(4) [of 0 op] by auto
    show ?thesis
      using engine_binary_exact [OF ins(1) _ ins(3) _ r(1) r(1) _ _ r(2) _ ok, of 0] op ins(2) r(3) [of 0] v(1)
      by (simp add: scalar_slot_def from_register_def split: option.splits)
  qed
  have "execute_binary (one_block_engine OpIntDiv) 0 [scalar_slot 0x80, blank_slot] = Inr [scalar_slot 0x80, scalar_slot 1]"
    using run [of OpIntDiv] v by (simp add: BINARY_OPS_def base_op_def checked_op_def)
  moreover have "execute_binary (one_block_engine OpIntAdd) 0 [scalar_slot 0x80, blank_slot] = overflow_error 0"
    using run [of OpIntAdd] v by (simp add: BINARY_OPS_def base_op_def checked_op_def)
  moreover have "execute_binary (one_block_engine OpIntAddWrap) 0 [scalar_slot 0x80, blank_slot] = Inr [scalar_slot 0x80, scalar_slot 0]"
    using run [of OpIntAddWrap] v by (simp add: BINARY_OPS_def base_op_def checked_op_def)
  ultimately show ?thesis using v(1,2) by simp
qed



end
