(* ===== verification/Ir_Interp_Run.thy ===== *)
theory Ir_Interp_Run
  imports Ir_Interp_Arith
begin

text \<open>
  Whole runs of the compile-time engine: what holds of every run whatever the program, when a run returns, and what
  the memory gives back.
\<close>

subsection \<open>What one instruction changes\<close>

lemma run_on_eq:
  "run_on m f = (r, ip') \<longleftrightarrow> (\<exists>s. m = (Inl s, ip') \<and> r = Inl s) \<or> (\<exists>x ip1. m = (Inr x, ip1) \<and> f x ip1 = (r, ip'))"
  by (cases m; cases "fst m") (auto simp: run_on_def)

text \<open>
  The parts of a run that change the state: spending the budget, entering and leaving a call, and the two memory
  operations.  A predicate that these keep holds through every run.
\<close>

locale interp_invariant =
  fixes P :: "interp \<Rightarrow> bool"
  assumes spend_keeps: "P ip \<Longrightarrow> ip_quota ip \<noteq> 0 \<Longrightarrow> P (ip\<lparr>ip_quota := ip_quota ip - 1\<rparr>)"
    and depth_keeps: "P ip \<Longrightarrow> P (ip\<lparr>ip_depth := d\<rparr>)"
    and write_keeps: "P ip \<Longrightarrow> write_bytes a n v at ip = Inr ip' \<Longrightarrow> P ip'"
    and alloc_keeps: "P ip \<Longrightarrow> interp_alloc e ty c at ip = Inr (a, ip') \<Longrightarrow> P ip'"
begin

definition keeps_calls :: "caller \<Rightarrow> bool" where
  "keeps_calls call \<longleftrightarrow> (\<forall>fn args at ip r ip'. call fn args at ip = Some (r, ip') \<longrightarrow> P ip \<longrightarrow> P ip')"

lemma keeps_callsD: "keeps_calls call \<Longrightarrow> call fn args at ip = Some (r, ip') \<Longrightarrow> P ip \<Longrightarrow> P ip'"
  unfolding keeps_calls_def by blast

lemma spend_step: "P ip \<Longrightarrow> P (snd (spend at ip))"
  by (simp add: spend_def spend_keeps)

lemma interp_write_keeps: "interp_write e ty v a at ip = Inr ip' \<Longrightarrow> P ip \<Longrightarrow> P ip'"
  unfolding interp_write_def
  by (auto simp: run_then_Inr require_Inr split: if_splits intro: write_keeps)

lemma store_keeps: "execute_store e i fr ip = Inr ip' \<Longrightarrow> P ip \<Longrightarrow> P ip'"
  unfolding execute_store_def by (auto simp: run_then_Inr dest: interp_write_keeps)

lemma tag_set_keeps: "execute_enum_tag_set e i fr ip = Inr ip' \<Longrightarrow> P ip \<Longrightarrow> P ip'"
  unfolding execute_enum_tag_set_def store_discriminant_def
  by (auto simp: run_then_Inr split: if_splits intro: write_keeps)

lemma alloca_keeps: "execute_alloca e i fr ip = Inr (fr', ip') \<Longrightarrow> P ip \<Longrightarrow> P ip'"
  unfolding execute_alloca_def by (auto simp: run_then_Inr split: option.splits intro: alloc_keeps)

lemma br_keeps: "P ip \<Longrightarrow> P (snd (execute_br e i blk fr ip))"
  unfolding execute_br_def run_on_def using spend_step [of ip "Some i"]
  by (auto split: prod.splits sum.splits if_splits simp: spend_def)

lemma call_keeps: "keeps_calls call \<Longrightarrow> execute_call e call i fr ip = Some (r, ip') \<Longrightarrow> P ip \<Longrightarrow> P ip'"
  unfolding execute_call_def by (auto simp: run_on_eq split: sum.splits dest: keeps_callsD)

lemma instruction_keeps:
  assumes "keeps_calls call" "execute_instruction e call i blk fr ip = Some (r, ip')" "P ip"
  shows "P ip'"
proof (cases "engine_instr e i")
  case (Inr ins)
  note defs = execute_instruction_def setting_def Let_def
  consider "in_op ins = OpAlloca" | "in_op ins = OpStore" | "in_op ins = OpEnumTagSet" | "in_op ins = OpBr" | "in_op ins = OpCall"
    | "in_op ins \<notin> {OpAlloca, OpStore, OpEnumTagSet, OpBr, OpCall}" by blast
  then show ?thesis
  proof cases
    case 1
    then show ?thesis using assms Inr alloca_keeps by (auto simp: defs changing_def split: sum.splits)
  next
    case 2
    then show ?thesis using assms Inr store_keeps by (auto simp: defs changing_def run_then_def split: sum.splits)
  next
    case 3
    then show ?thesis using assms Inr tag_set_keeps by (auto simp: defs changing_def run_then_def split: sum.splits)
  next
    case 4
    then show ?thesis using assms Inr br_keeps [of ip e i blk fr] by (simp add: defs BINARY_OPS_def COMPARE_OPS_def)
  next
    case 5
    then show ?thesis using assms Inr call_keeps by (simp add: defs BINARY_OPS_def COMPARE_OPS_def)
  next
    case 6
    then have "ip' = ip" using assms(2) Inr by (auto simp: defs split: if_splits)
    then show ?thesis using assms(3) by simp
  qed
qed (use assms in \<open>simp add: execute_instruction_def\<close>)

lemma instrs_keep: "keeps_calls call \<Longrightarrow> run_instrs e call blk ks fr ip = Some (r, ip') \<Longrightarrow> P ip \<Longrightarrow> P ip'"
proof (induction ks arbitrary: fr ip)
  case (Cons i rest)
  obtain r1 ip1 where step: "execute_instruction e call i blk fr ip = Some (r1, ip1)"
    using Cons.prems(2) by (cases "execute_instruction e call i blk fr ip") auto
  have "P ip1" using instruction_keeps [OF Cons.prems(1) step Cons.prems(3)] .
  moreover have "(r, ip') = (r1, ip1) \<or> (\<exists>fr'. run_instrs e call blk rest fr' ip1 = Some (r, ip'))"
    using Cons.prems(2) step by (auto split: sum.splits prod.splits flow.splits)
  ultimately show ?case using Cons.IH Cons.prems(1) by auto
qed simp

lemma blocks_keep: "keeps_calls call \<Longrightarrow> execute_blocks e call n blk fr ip = Some (r, ip') \<Longrightarrow> P ip \<Longrightarrow> P ip'"
proof (induction n arbitrary: blk fr ip)
  case (Suc n)
  show ?case
  proof (cases "row (st_blocks (ie_storage e)) blk")
    case None
    then show ?thesis using Suc.prems by (simp del: row_None_iff)
  next
    case (Some b)
    then obtain r1 ip1 where step: "run_instrs e call blk (range_list (bl_instrs b)) fr ip = Some (r1, ip1)"
      using Suc.prems(2) by (auto split: option.splits)
    have "P ip1" using instrs_keep [OF Suc.prems(1) step Suc.prems(3)] .
    moreover have "ip' = ip1 \<or> (\<exists>t fr'. execute_blocks e call n t fr' ip1 = Some (r, ip'))"
      using Suc.prems(2) step Some by (auto split: sum.splits prod.splits flow.splits)
    ultimately show ?thesis using Suc.IH Suc.prems(1) by auto
  qed
qed simp

lemma function_keeps: "keeps_calls (execute_function n e)"
proof (induction n)
  case 0
  show ?case by (simp add: keeps_calls_def)
next
  case (Suc n)
  have "P ip'" if run: "execute_function (Suc n) e fn args at ip = Some (r, ip')" and p: "P ip" for fn args at ip r ip'
  proof -
    obtain u ip1 where sp: "spend at ip = (u, ip1)" by (cases "spend at ip")
    then have "P ip1" using spend_step [OF p, of at] by simp
    moreover have "ip' = ip1 \<or> (\<exists>head fr ip2. execute_blocks e (execute_function n e) n head fr
        (ip1\<lparr>ip_depth := ip_depth ip1 + 1\<rparr>) = Some (r, ip2) \<and> ip' = ip2\<lparr>ip_depth := ip_depth ip2 - 1\<rparr>)"
      using run sp by (auto split: sum.splits if_splits prod.splits)
    ultimately show ?thesis using blocks_keep [OF Suc.IH] depth_keeps by blast
  qed
  then show ?case unfolding keeps_calls_def by blast
qed

lemma run_keeps: "run_function n e fn args ip = Some (r, ip') \<Longrightarrow> P ip \<Longrightarrow> P ip'"
  unfolding run_function_def by (auto simp: run_on_eq split: sum.splits dest: keeps_callsD [OF function_keeps])

end

subsection \<open>Budgets\<close>

lemma length_resize [simp]: "length (resize n mem) = n"
  by (simp add: resize_def)

lemma length_write: "write_bytes a n v at ip = Inr ip' \<Longrightarrow> length (ip_memory ip') = length (ip_memory ip)"
proof -
  have "length (fold (\<lambda>i mem. mem[unat a + i := ucast (drop_bit (8 * i) v)]) ks mem) = length mem" for ks and mem :: "u8 list"
    by (induction ks arbitrary: mem) simp_all
  then show "write_bytes a n v at ip = Inr ip' \<Longrightarrow> length (ip_memory ip') = length (ip_memory ip)"
    by (auto simp: write_bytes_def run_then_Inr)
qed

lemma budget_kept: "write_bytes a n v at ip = Inr ip' \<Longrightarrow> ip_quota ip' = ip_quota ip"
  "interp_alloc e ty c at ip = Inr (b, ip') \<Longrightarrow> ip_quota ip' = ip_quota ip"
  by (auto simp: write_bytes_def interp_alloc_def run_then_Inr Let_def)

interpretation quota: interp_invariant "\<lambda>ip. unat (ip_quota ip) \<le> q" for q
proof (unfold_locales, goal_cases)
  case (1 ip)
  then show ?case by (simp add: unat_minus_one)
next
  case (2 ip d)
  then show ?case by simp
next
  case (3 ip a n v at ip')
  then show ?case by (simp add: budget_kept)
next
  case (4 ip e ty c at a ip')
  then show ?case by (simp add: budget_kept)
qed

lemma MEMORY_LIMIT_eq: "unat MEMORY_LIMIT = 2 ^ 28"
  by (simp add: MEMORY_LIMIT_def)

lemma alloc_effect_bounds:
  assumes "interp_alloc e ty c at ip = Inr (a, ip')" "length (ip_memory ip) \<le> 2 ^ 28"
  shows "length (ip_memory ip) \<le> unat a" "unat a \<le> length (ip_memory ip')" "length (ip_memory ip') \<le> 2 ^ 28"
proof -
  let ?len = "of_nat (length (ip_memory ip)) :: u64"
  obtain layout where l: "engine_layout e ty = Some layout" "interp_alloc e ty c at ip = Inr (a, ip')"
    using assms(1) by (cases "engine_layout e ty") (simp_all add: interp_alloc_def engine_layout_of_def)
  have al: "ly_align layout \<in> {1, 2, 4, 8}"
    using good_type_layout l(1) unfolding engine_layout_def good_layout_def by blast
  then have nz: "ly_align layout \<noteq> 0" by auto
  have ly: "a = align_up ?len (ly_align layout)" "a \<le> MEMORY_LIMIT" "ly_size layout * c \<le> MEMORY_LIMIT - a"
    "ip' = ip\<lparr>ip_memory := resize (unat (a + ly_size layout * c)) (ip_memory ip)\<rparr>"
    using l nz by (auto simp: interp_alloc_def engine_layout_of_def Let_def run_then_Inr require_Inr)
  have len: "unat ?len = length (ip_memory ip)" using assms(2) by (simp add: unat_of_nat)
  have "unat a = round_up (length (ip_memory ip)) (unat (ly_align layout))"
    using al unat_align_up [of "ly_align layout" ?len] len assms(2) ly(1) by auto
  then show "length (ip_memory ip) \<le> unat a" using round_up_ge al by auto
  have sum: "unat (a + ly_size layout * c) = unat a + unat (ly_size layout * c)"
    using ly(2,3) MEMORY_LIMIT_eq by (simp add: unat_plus_if' word_le_nat_alt unat_sub_if')
  then show "unat a \<le> length (ip_memory ip')" using ly(4) by simp
  show "length (ip_memory ip') \<le> 2 ^ 28"
    using ly(2,3,4) sum MEMORY_LIMIT_eq by (simp add: word_le_nat_alt unat_sub_if')
qed

interpretation memory: interp_invariant "\<lambda>ip. m \<le> length (ip_memory ip) \<and> length (ip_memory ip) \<le> 2 ^ 28" for m
proof (unfold_locales, goal_cases)
  case (1 ip)
  then show ?case by simp
next
  case (2 ip d)
  then show ?case by simp
next
  case (3 ip a n v at ip')
  then show ?case by (simp add: length_write)
next
  case (4 ip e ty c at a ip')
  then show ?case using alloc_effect_bounds [OF 4(2)] by simp
qed

subsection \<open>Termination\<close>

text \<open>
  Unconditional branches backwards and calls spend the quota; conditional branches do not, so a run returns when
  these only lead forwards.
\<close>

definition leads_forward :: "engine \<Rightarrow> nat \<Rightarrow> nat \<Rightarrow> bool" where
  "leads_forward e blk i \<longleftrightarrow>
     (case engine_instr e i of
        Inl _ \<Rightarrow> True
      | Inr ins \<Rightarrow> in_op ins = OpCondBr \<longrightarrow>
          list_all (\<lambda>k. case engine_operand e i k of
            Inr opd \<Rightarrow> (case opd_data opd of OpdBlock t \<Rightarrow> blk < t | _ \<Rightarrow> True) | Inl _ \<Rightarrow> True) [1, 2])"

definition forward_branches :: "engine \<Rightarrow> bool" where
  "forward_branches e \<longleftrightarrow>
     list_all (\<lambda>blk. list_all (leads_forward e blk) (range_list (bl_instrs (st_blocks (ie_storage e) ! blk))))
       [0..<length (st_blocks (ie_storage e))]"

abbreviation quota_of :: "interp \<Rightarrow> nat" where
  "quota_of ip \<equiv> unat (ip_quota ip)"

text \<open>A run of instructions in a block returns, without gaining quota, and a jump leads forwards or has paid.\<close>

definition block_run :: "nat \<Rightarrow> interp \<Rightarrow> (reg_frame \<times> flow) run option \<Rightarrow> bool" where
  "block_run blk ip m \<longleftrightarrow>
     (\<exists>r ip'. m = Some (r, ip') \<and> quota_of ip' \<le> quota_of ip
        \<and> (\<forall>fr t. r = Inr (fr, FlJump t) \<longrightarrow> blk < t \<or> quota_of ip' < quota_of ip))"

definition returning :: "nat \<Rightarrow> caller \<Rightarrow> bool" where
  "returning q call \<longleftrightarrow> (\<forall>fn args at ip. quota_of ip \<le> q \<longrightarrow> call fn args at ip \<noteq> None)"

lemma spend_less: "spend at ip = (Inr u, ip') \<Longrightarrow> quota_of ip' = quota_of ip - 1 \<and> 0 < quota_of ip"
  by (auto simp: spend_def unat_minus_one unat_gt_0 split: if_splits)

lemma branch_target_Inr: "branch_target i opd = Inr t \<longleftrightarrow> opd_data opd = OpdBlock t"
  by (cases "opd_data opd") (simp_all add: branch_target_def)

lemma cond_br_target:
  assumes "execute_cond_br e i fr = Inr (fr', FlJump t)" "leads_forward e blk i" "engine_instr e i = Inr ins" "in_op ins = OpCondBr"
  shows "blk < t"
proof -
  have "\<exists>k opd. k \<in> {1, 2} \<and> engine_operand e i k = Inr opd \<and> opd_data opd = OpdBlock t"
    using assms(1) by (auto simp: execute_cond_br_def run_then_Inr branch_target_Inr split: if_splits)
  then show ?thesis using assms(2-4) by (auto simp: leads_forward_def)
qed

lemma br_block_run: "block_run blk ip (Some (execute_br e i blk fr ip))"
proof -
  obtain r ip' where run: "execute_br e i blk fr ip = (r, ip')" by (cases "execute_br e i blk fr ip")
  have "quota_of ip' \<le> quota_of ip" using quota.br_keeps [of ip "quota_of ip" e i blk fr] run by simp
  moreover have "blk < t \<or> quota_of ip' < quota_of ip" if "r = Inr (fr', FlJump t)" for fr' t
    using run that by (auto simp: execute_br_def run_on_eq run_then_Inr dest!: spend_less split: if_splits)
  ultimately show ?thesis using run by (simp add: block_run_def)
qed

lemma setting_block_run: "block_run blk ip (setting r ip)"
  by (cases r) (simp_all add: block_run_def setting_def)

lemma changing_block_run:
  "(\<And>fr ip'. r = Inr (fr, ip') \<Longrightarrow> quota_of ip' \<le> quota_of ip) \<Longrightarrow> block_run blk ip (changing r ip)"
  by (cases r) (auto simp: block_run_def changing_def)

lemma ret_no_jump [simp]: "execute_ret e i fr \<noteq> Inr (fr', FlJump t)"
  by (auto simp: execute_ret_def run_then_Inr split: if_splits)

lemma call_block_run:
  assumes "returning q call" "quota.keeps_calls (quota_of ip) call" "quota_of ip \<le> q"
  shows "block_run blk ip (execute_call e call i fr ip)"
proof (cases "call_site e i fr")
  case (Inr s)
  obtain target args where s: "s = (target, args)" by (cases s)
  obtain r1 ip1 where call: "call target args (Some i) ip = Some (r1, ip1)"
    using assms(1,3) unfolding returning_def by (metis not_None_eq surj_pair)
  have "quota_of ip1 \<le> quota_of ip" using quota.keeps_callsD [OF assms(2) call] by simp
  then show ?thesis using Inr s call
    by (cases r1) (auto simp: block_run_def execute_call_def run_on_def run_then_Inr)
qed (simp add: block_run_def execute_call_def)

lemma instruction_block_run:
  assumes "returning q call" "quota.keeps_calls (quota_of ip) call" "quota_of ip \<le> q" "leads_forward e blk i"
  shows "block_run blk ip (execute_instruction e call i blk fr ip)"
proof (cases "engine_instr e i")
  case (Inr ins)
  have store: "block_run blk ip (changing (run_then (execute_store e i fr ip) (\<lambda>ip'. Inr (fr, ip'))) ip)"
    using quota.store_keeps [of e i fr ip _ "quota_of ip"] by (intro changing_block_run) (auto simp: run_then_Inr)
  have tag: "block_run blk ip (changing (run_then (execute_enum_tag_set e i fr ip) (\<lambda>ip'. Inr (fr, ip'))) ip)"
    using quota.tag_set_keeps [of e i fr ip _ "quota_of ip"] by (intro changing_block_run) (auto simp: run_then_Inr)
  have alloca: "block_run blk ip (changing (execute_alloca e i fr ip) ip)"
    using quota.alloca_keeps [of e i fr ip _ _ "quota_of ip"] by (intro changing_block_run) auto
  have cond: "block_run blk ip (Some (execute_cond_br e i fr, ip))" if "in_op ins = OpCondBr"
    using cond_br_target [OF _ assms(4) Inr that] by (auto simp: block_run_def)
  have ret: "block_run blk ip (Some (execute_ret e i fr, ip))" by (auto simp: block_run_def)
  have refused: "block_run blk ip (Some (fail k at w, ip))" for k at w by (simp add: block_run_def)
  show ?thesis
    using Inr store tag alloca cond ret refused br_block_run call_block_run [OF assms(1-3)] setting_block_run
    by (simp add: execute_instruction_def Let_def)
qed (simp add: block_run_def execute_instruction_def)

lemma instrs_block_run:
  assumes "returning q call" "\<And>q'. quota.keeps_calls q' call"
  shows "quota_of ip \<le> q \<Longrightarrow> list_all (leads_forward e blk) ks \<Longrightarrow> block_run blk ip (run_instrs e call blk ks fr ip)"
proof (induction ks arbitrary: fr ip)
  case (Cons i ks)
  then have "block_run blk ip (execute_instruction e call i blk fr ip)"
    using instruction_block_run [OF assms] by simp
  then obtain r1 ip1 where step: "execute_instruction e call i blk fr ip = Some (r1, ip1)" "quota_of ip1 \<le> quota_of ip"
    "\<forall>fr t. r1 = Inr (fr, FlJump t) \<longrightarrow> blk < t \<or> quota_of ip1 < quota_of ip"
    unfolding block_run_def by blast
  show ?case
  proof (cases "\<exists>fr'. r1 = Inr (fr', FlNext)")
    case True
    then obtain fr' where fr': "r1 = Inr (fr', FlNext)" by blast
    have "block_run blk ip1 (run_instrs e call blk ks fr' ip1)" using Cons step(2) by simp
    then show ?thesis using step(1,2) fr' unfolding block_run_def by fastforce
  next
    case False
    then have "run_instrs e call blk (i # ks) fr ip = Some (r1, ip1)"
      using step(1) by (auto split: sum.splits prod.splits flow.splits)
    then show ?thesis using step(2,3) unfolding block_run_def by blast
  qed
qed (simp add: block_run_def)

lemma blocks_return:
  assumes "returning q call" "\<And>q'. quota.keeps_calls q' call" "forward_branches e"
  defines "N \<equiv> length (st_blocks (ie_storage e))"
  shows "quota_of ip \<le> q \<Longrightarrow> quota_of ip * (N + 1) + (N - blk) < n \<Longrightarrow> execute_blocks e call n blk fr ip \<noteq> None"
proof (induction n arbitrary: blk fr ip)
  case (Suc n)
  show ?case
  proof (cases "blk < N")
    case True
    let ?b = "st_blocks (ie_storage e) ! blk"
    have b: "row (st_blocks (ie_storage e)) blk = Some ?b" using True by (simp add: row_def N_def)
    have "list_all (leads_forward e blk) (range_list (bl_instrs ?b))"
      using assms(3) True by (simp add: forward_branches_def list_all_iff N_def)
    then have "block_run blk ip (run_instrs e call blk (range_list (bl_instrs ?b)) fr ip)"
      using instrs_block_run [OF assms(1,2) Suc.prems(1)] by simp
    then obtain r1 ip1 where step: "run_instrs e call blk (range_list (bl_instrs ?b)) fr ip = Some (r1, ip1)"
      "quota_of ip1 \<le> quota_of ip" "\<forall>fr t. r1 = Inr (fr, FlJump t) \<longrightarrow> blk < t \<or> quota_of ip1 < quota_of ip"
      unfolding block_run_def by blast
    have "execute_blocks e call n t fr' ip1 \<noteq> None" if jump: "r1 = Inr (fr', FlJump t)" for fr' t
    proof (rule Suc.IH)
      show "quota_of ip1 \<le> q" using step(2) Suc.prems(1) by simp
      consider "blk < t" | "quota_of ip1 < quota_of ip" using step(3) jump by blast
      then show "quota_of ip1 * (N + 1) + (N - t) < n"
      proof cases
        case 1
        have "quota_of ip1 * (N + 1) \<le> quota_of ip * (N + 1)" using step(2) by (rule mult_le_mono1)
        then show ?thesis using 1 True Suc.prems(2) by linarith
      next
        case 2
        then have "Suc (quota_of ip1) * (N + 1) \<le> quota_of ip * (N + 1)" by (intro mult_le_mono1) simp
        then show ?thesis using Suc.prems(2) by simp
      qed
    qed
    then show ?thesis using b step(1) by (auto split: sum.splits prod.splits flow.splits simp del: row_Some_iff)
  qed (simp add: row_def N_def)
qed simp

lemma function_returns:
  assumes "forward_branches e"
  defines "N \<equiv> length (st_blocks (ie_storage e))"
  shows "(quota_of ip + 1) * (N + 2) \<le> n \<Longrightarrow> execute_function n e fn args at ip \<noteq> None"
proof (induction n arbitrary: fn args at ip)
  case (Suc n)
  obtain u ip1 where sp: "spend at ip = (u, ip1)" by (cases "spend at ip")
  show ?case
  proof (cases u)
    case (Inr v)
    then have q: "quota_of ip1 = quota_of ip - 1" "0 < quota_of ip" using spend_less [of at ip v ip1] sp by simp_all
    then have fuel: "(quota_of ip1 + 1) * (N + 2) + (N + 2) \<le> Suc n" using Suc.prems by (cases "quota_of ip") simp_all
    have "returning (quota_of ip1) (execute_function n e)"
      unfolding returning_def
    proof (intro allI impI Suc.IH)
      fix ip' :: interp assume "quota_of ip' \<le> quota_of ip1"
      then have "(quota_of ip' + 1) * (N + 2) \<le> (quota_of ip1 + 1) * (N + 2)" by (intro mult_le_mono1) simp
      then show "(quota_of ip' + 1) * (N + 2) \<le> n" using fuel by linarith
    qed
    from blocks_return [OF this quota.function_keeps assms(1)]
    have "execute_blocks e (execute_function n e) n head fr (ip1\<lparr>ip_depth := ip_depth ip1 + 1\<rparr>) \<noteq> None" for head fr
      using fuel by (simp add: N_def)
    then show ?thesis using sp Inr by (auto split: sum.splits)
  qed (simp add: sp)
qed simp

subsection \<open>More fuel changes nothing\<close>

definition caller_le :: "caller \<Rightarrow> caller \<Rightarrow> bool" where
  "caller_le call call' \<longleftrightarrow> (\<forall>fn args at ip m. call fn args at ip = Some m \<longrightarrow> call' fn args at ip = Some m)"

lemma call_mono:
  "caller_le call call' \<Longrightarrow> execute_call e call i fr ip = Some m \<Longrightarrow> execute_call e call' i fr ip = Some m"
  unfolding execute_call_def caller_le_def by (auto split: sum.splits)

lemma instruction_mono:
  assumes "caller_le call call'" "execute_instruction e call i blk fr ip = Some m"
  shows "execute_instruction e call' i blk fr ip = Some m"
proof (cases "engine_instr e i")
  case (Inr ins)
  show ?thesis
  proof (cases "in_op ins = OpCall")
    case True
    then show ?thesis using assms(2) Inr call_mono [OF assms(1)]
      by (simp add: execute_instruction_def BINARY_OPS_def COMPARE_OPS_def)
  next
    case False
    then have "execute_instruction e call' i blk fr ip = execute_instruction e call i blk fr ip"
      using Inr by (simp add: execute_instruction_def Let_def cong: if_cong split del: if_split)
    then show ?thesis using assms(2) by simp
  qed
qed (use assms(2) in \<open>simp add: execute_instruction_def\<close>)

lemma instrs_mono:
  assumes "caller_le call call'"
  shows "run_instrs e call blk ks fr ip = Some m \<Longrightarrow> run_instrs e call' blk ks fr ip = Some m"
proof (induction ks arbitrary: fr ip)
  case (Cons i ks)
  obtain r1 where step: "execute_instruction e call i blk fr ip = Some r1"
    using Cons.prems by (cases "execute_instruction e call i blk fr ip") auto
  then show ?case using Cons instruction_mono [OF assms step] by (auto split: sum.splits prod.splits flow.splits)
qed simp

lemma blocks_mono:
  assumes "caller_le call call'"
  shows "execute_blocks e call n blk fr ip = Some m \<Longrightarrow> n \<le> n' \<Longrightarrow> execute_blocks e call' n' blk fr ip = Some m"
proof (induction n arbitrary: n' blk fr ip)
  case (Suc n)
  then obtain k where k: "n' = Suc k" "n \<le> k" by (cases n') auto
  show ?case
  proof (cases "row (st_blocks (ie_storage e)) blk")
    case None
    then show ?thesis using Suc.prems k by (simp del: row_None_iff)
  next
    case (Some b)
    then obtain r1 where step: "run_instrs e call blk (range_list (bl_instrs b)) fr ip = Some r1"
      using Suc.prems(1) by (auto split: option.splits simp del: row_Some_iff)
    then show ?thesis
      using Suc k Some instrs_mono [OF assms step] by (auto split: sum.splits prod.splits flow.splits simp del: row_Some_iff)
  qed
qed simp

lemma function_mono: "n \<le> n' \<Longrightarrow> caller_le (execute_function n e) (execute_function n' e)"
proof (induction n arbitrary: n')
  case (Suc n)
  then obtain k where k: "n' = Suc k" "n \<le> k" by (cases n') auto
  then have le: "caller_le (execute_function n e) (execute_function k e)" using Suc.IH by simp
  show ?case
    unfolding caller_le_def k(1)
    using blocks_mono [OF le _ k(2)] by (auto split: sum.splits prod.splits if_splits)
qed (simp add: caller_le_def)

lemma run_function_mono: "run_function n e fn args ip = Some m \<Longrightarrow> n \<le> n' \<Longrightarrow> run_function n' e fn args ip = Some m"
  using function_mono [of n n' e] unfolding run_function_def caller_le_def by (auto split: sum.splits)

subsection \<open>Memory\<close>

lemma access_okD:
  assumes "access_ok a n mem" "length mem < 2 ^ 64"
  shows "unat a + unat n \<le> length mem"
  using assms by (auto simp: access_ok_def Let_def word_le_nat_alt unat_sub_if' unat_of_nat)

definition load_word :: "nat \<Rightarrow> nat \<Rightarrow> u8 list \<Rightarrow> u64" where
  "load_word a n mem = fold (\<lambda>i v. v OR push_bit (8 * i) (ucast (mem ! (a + i)))) [0..<n] 0"

definition store_word :: "nat \<Rightarrow> nat \<Rightarrow> u64 \<Rightarrow> u8 list \<Rightarrow> u8 list" where
  "store_word a n v mem = fold (\<lambda>i mem. mem[a + i := ucast (drop_bit (8 * i) v)]) [0..<n] mem"

lemma length_store_word [simp]: "length (store_word a n v mem) = length mem"
  unfolding store_word_def by (induction n) simp_all

lemma nth_store_word:
  "a + n \<le> length mem \<Longrightarrow>
   store_word a n v mem ! k = (if a \<le> k \<and> k < a + n then ucast (drop_bit (8 * (k - a)) v) else mem ! k)"
proof (induction n)
  case (Suc n)
  have "store_word a (Suc n) v mem = (store_word a n v mem)[a + n := ucast (drop_bit (8 * n) v)]"
    by (simp add: store_word_def)
  then show ?case using Suc by (auto simp: nth_list_update less_Suc_eq)
qed (auto simp: store_word_def)

lemma bit_load_word:
  "n \<le> 8 \<Longrightarrow> bit (load_word a n mem) j \<longleftrightarrow> j < 8 * n \<and> bit (mem ! (a + j div 8)) (j mod 8)"
proof (induction n)
  case (Suc n)
  have step: "load_word a (Suc n) mem = load_word a n mem OR push_bit (8 * n) (ucast (mem ! (a + n)))"
    by (simp add: load_word_def)
  have "bit (push_bit (8 * n) (ucast (mem ! (a + n)) :: u64)) j \<longleftrightarrow> 8 * n \<le> j \<and> j < 8 * Suc n \<and> bit (mem ! (a + n)) (j - 8 * n)"
    using Suc.prems by (auto simp: bit_simps dest: bit_imp_le_length)
  moreover have "j div 8 = n \<and> j mod 8 = j - 8 * n" if "8 * n \<le> j" "j < 8 * Suc n"
    using that by (simp add: modulo_nat_def less_mult_imp_div_less div_nat_eqI)
  ultimately show ?case using Suc step by (auto simp: bit_or_iff)
qed (simp add: load_word_def)

lemma load_store_word: "n \<le> 8 \<Longrightarrow> a + n \<le> length mem \<Longrightarrow> load_word a n (store_word a n v mem) = take_bit (8 * n) v"
proof (rule bit_eqI)
  fix j assume n: "n \<le> 8" "a + n \<le> length mem"
  have "j < 8 * n \<Longrightarrow> a + j div 8 < a + n" by (simp add: less_mult_imp_div_less)
  moreover have "8 * (j div 8) + j mod 8 = j" by simp
  ultimately show "bit (load_word a n (store_word a n v mem)) j = bit (take_bit (8 * n) v) j"
    using n by (auto simp: bit_load_word nth_store_word bit_simps)
qed

lemma load_word_other:
  assumes "n \<le> 8" "a + k \<le> length mem" "b + n \<le> a \<or> a + k \<le> b"
  shows "load_word b n (store_word a k v mem) = load_word b n mem"
proof (rule bit_eqI)
  fix j
  have "j < 8 * n \<Longrightarrow> b + j div 8 < b + n" by (simp add: less_mult_imp_div_less)
  then show "bit (load_word b n (store_word a k v mem)) j = bit (load_word b n mem) j"
    using assms by (auto simp: bit_load_word nth_store_word)
qed

lemma bytes_as_words:
  "read_bytes a n at ip = (if access_ok a n (ip_memory ip) then Inr (load_word (unat a) (unat n) (ip_memory ip))
     else fail Internal at ''memory access out of bounds'')"
  "write_bytes a n v at ip = (if access_ok a n (ip_memory ip) then Inr (ip\<lparr>ip_memory := store_word (unat a) (unat n) v (ip_memory ip)\<rparr>)
     else fail Internal at ''memory access out of bounds'')"
  by (simp_all add: read_bytes_def write_bytes_def load_word_def store_word_def require_def fail_def)

subsection \<open>Integers in memory\<close>

lemma integer_layout:
  assumes "tag_of e ty = Inr tag" "is_integer_type tag" "engine_layout e ty = Some layout"
  shows "ly_size layout = (if tag = TyI1 then 1 else of_nat (int_bytes tag))"
proof -
  obtain fuel where fuel: "length (st_types (ie_storage e)) = Suc fuel"
    using assms(3) by (cases "length (st_types (ie_storage e))") (simp_all add: engine_layout_def)
  obtain node where node: "row (st_types (ie_storage e)) ty = Some node" "tn_tag node = tag"
    using assms(1) by (auto simp: tag_of_def need_Inr simp del: row_Some_iff)
  have "node_layout (type_layout_of fuel (ie_storage e) (ie_width e)) (ie_storage e) (ie_width e) ty node = Some layout"
    using assms(3) node(1) by (simp add: engine_layout_def fuel del: row_Some_iff)
  then show ?thesis using assms(2) node(2)
    by (auto simp: node_layout_def is_integer_type_def int_bytes_def Let_def)
qed

lemma masked_stored: "take_bit (8 * (if tag = TyI1 then 1 else int_bytes tag)) (b AND int_mask tag) = b AND int_mask tag"
proof -
  have "width tag \<le> 8 * (if tag = TyI1 then 1 else int_bytes tag)" by (simp add: width_def)
  moreover have "b AND int_mask tag = take_bit (width tag) b" by (simp add: int_mask_eq type_mask_eq)
  ultimately show ?thesis by (simp add: min_def)
qed

text \<open>
  C20. What the engine stores it loads again.  After an integer has been stored, loading it
  from the same address gives the value, wrapped to its type, and loading from an address whose bytes do not
  overlap gives what it gave before; the store fails exactly when its bytes are not inside the memory.
\<close>

theorem engine_store_load:
  assumes "tag_of e ty = Inr tag" "is_integer_type tag" "engine_layout e ty = Some layout" "rs_kind v = SlScalar"
    and "length (ip_memory ip) \<le> 2 ^ 28"
  shows "if access_ok a (ly_size layout) (ip_memory ip)
    then \<exists>ip'. interp_write e ty v a at ip = Inr ip' \<and> interp_read e ty a at ip' = Inr (scalar_slot (rs_bits v AND int_mask tag))
      \<and> (\<forall>b n. n \<le> 8 \<longrightarrow> unat b + unat n \<le> unat a \<or> unat a + unat (ly_size layout) \<le> unat b \<longrightarrow>
            read_bytes b n at ip' = read_bytes b n at ip)
    else interp_write e ty v a at ip = fail Internal at ''memory access out of bounds''"
proof (cases "access_ok a (ly_size layout) (ip_memory ip)")
  case True
  let ?n = "if tag = TyI1 then 1 else int_bytes tag"
  have n: "unat (ly_size layout) = ?n" "?n \<le> 8"
    using integer_layout [OF assms(1-3)] int_bytes_cases [of tag] by auto
  let ?mem = "store_word (unat a) ?n (rs_bits v AND int_mask tag) (ip_memory ip)"
  let ?ip = "ip\<lparr>ip_memory := ?mem\<rparr>"
  have room: "unat a + ?n \<le> length (ip_memory ip)" using access_okD [OF True] assms(5) n(1) by simp
  have wrote: "interp_write e ty v a at ip = Inr ?ip"
    using assms True by (simp add: interp_write_def engine_layout_of_def require_def bytes_as_words n(1))
  have len: "access_ok b m ?mem \<longleftrightarrow> access_ok b m (ip_memory ip)" for b m by (simp add: access_ok_def)
  have loaded: "interp_read e ty a at ?ip = Inr (scalar_slot (rs_bits v AND int_mask tag))"
    using assms True load_store_word [OF n(2) room] masked_stored [of tag "rs_bits v"]
    by (simp add: interp_read_def engine_layout_of_def bytes_as_words n(1) len)
  have "read_bytes b m at ?ip = read_bytes b m at ip"
    if "m \<le> 8" "unat b + unat m \<le> unat a \<or> unat a + unat (ly_size layout) \<le> unat b" for b m
    using load_word_other [of "unat m" "unat a" ?n "ip_memory ip" "unat b"] that room n
    by (simp add: bytes_as_words len word_le_nat_alt)
  then show ?thesis using True wrote loaded by auto
next
  case False
  then show ?thesis using assms by (simp add: interp_write_def engine_layout_of_def require_def bytes_as_words)
qed

lemma engine_store_load_witness:
  "\<exists>ip'. interp_write (one_block_engine OpNoop) 4 (scalar_slot (- 2)) 1 None \<lparr>ip_memory = replicate 8 7, ip_quota = 1, ip_depth = 0\<rparr> = Inr ip'
     \<and> interp_read (one_block_engine OpNoop) 4 1 None ip' = Inr (scalar_slot 0xFFFFFFFE)
     \<and> read_bytes 5 3 None ip' = read_bytes 5 3 None \<lparr>ip_memory = replicate 8 7, ip_quota = 1, ip_depth = 0\<rparr>"
proof -
  let ?ip = "\<lparr>ip_memory = replicate 8 7, ip_quota = 1, ip_depth = 0\<rparr>"
  have t: "tag_of (one_block_engine OpNoop) 4 = Inr TyI32" "engine_layout (one_block_engine OpNoop) 4 = Some \<lparr>ly_size = 4, ly_align = 4\<rparr>"
    "is_integer_type TyI32" "access_ok 1 4 (replicate 8 7)" "- 2 AND int_mask TyI32 = 0xFFFFFFFE"
    by code_simp+
  have k: "rs_kind (scalar_slot (- 2)) = SlScalar" "length (ip_memory ?ip) \<le> 2 ^ 28" by (simp_all add: scalar_slot_def)
  from engine_store_load [OF t(1,3,2) k, of 1 None] t(4,5) show ?thesis by (fastforce simp: scalar_slot_def)
qed

subsection \<open>Runs\<close>

text \<open>
  C15. Where conditional branches lead forwards and no type holds itself by value, compile-time evaluation
  returns: with the fuel stated every function comes back with a value or an error, and more fuel changes
  nothing.  The layouts the run asks for have come to an end as well: walking the types deeper gives the same
  answers.  (On a type that holds itself by value the recursion of \<^verbatim>\<open>type_layout\<close> has no end, which is why such
  tables are excluded.)  The run never hands back more quota than it was given.
\<close>

theorem engine_run_returns:
  assumes "forward_branches e" "values_end (ie_storage e) rank" "(unat quota + 1) * (length (st_blocks (ie_storage e)) + 2) \<le> fuel"
  shows "\<exists>r ip'. interpret_function fuel e fn args quota depth = Some (r, ip') \<and> unat (ip_quota ip') \<le> unat quota
    \<and> (\<forall>k. interpret_function (fuel + k) e fn args quota depth = Some (r, ip'))
    \<and> (\<forall>ty k. type_layout_of (length (st_types (ie_storage e)) + k) (ie_storage e) (ie_width e) ty = engine_layout e ty)"
proof -
  have "execute_function fuel e fn slots None (new_interp quota depth) \<noteq> None" for slots
    using function_returns [OF assms(1), of "new_interp quota depth" fuel] assms(3) by (simp add: new_interp_def)
  then have "interpret_function fuel e fn args quota depth \<noteq> None"
    unfolding interpret_function_def run_function_def by (cases "entry_slots e fn args") (simp_all add: option.map_disc_iff)
  then obtain r ip' where m: "interpret_function fuel e fn args quota depth = Some (r, ip')" by fastforce
  have "interpret_function (fuel + k) e fn args quota depth = Some (r, ip')" for k
    using run_function_mono [OF m [unfolded interpret_function_def], of "fuel + k"] by (simp add: interpret_function_def)
  moreover have "unat (ip_quota ip') \<le> unat quota"
    using quota.run_keeps [of fuel e fn args "new_interp quota depth" r ip' "unat quota"] m
    by (simp add: interpret_function_def new_interp_def)
  ultimately show ?thesis using m layout_fuel_enough [OF assms(2)] by (auto simp: engine_layout_def)
qed

text \<open>
  Compile-time evaluation stays inside its budgets.  However a run of any program ends, the
  memory it used is at most 256 MiB and the quota it hands back at most what it was given.
\<close>

theorem engine_budgets_hold:
  assumes "interpret_function fuel e fn args quota depth = Some (r, ip')"
  shows "length (ip_memory ip') \<le> 2 ^ 28 \<and> unat (ip_quota ip') \<le> unat quota"
  using memory.run_keeps [of fuel e fn args "new_interp quota depth" r ip' 0]
    quota.run_keeps [of fuel e fn args "new_interp quota depth" r ip' "unat quota"] assms
  by (simp add: interpret_function_def new_interp_def)

text \<open>A function of one byte parameter that returns its double.\<close>

definition plain_function :: "nat \<Rightarrow> idx_range \<Rightarrow> ir_function" where
  "plain_function ret blks = \<lparr>fn_meta = \<lparr>fm_return_type = ret, fm_param_types = no_range, fm_name = 0, fm_path = 0,
     fm_kind = SkFree, fm_generics = no_range, fm_owner = None\<rparr>, fn_blocks = blks\<rparr>"

definition double_engine :: engine where
  "double_engine = \<lparr>ie_storage = (one_block OpIntAdd)
     \<lparr>st_block_params := [\<lparr>bp_type = 2, bp_reg = 0\<rparr>],
      st_blocks := [\<lparr>bl_instrs = \<lparr>rg_head = 0, rg_size = 2\<rparr>, bl_params = \<lparr>rg_head = 0, rg_size = 1\<rparr>\<rparr>],
      st_functions := [plain_function 2 \<lparr>rg_head = 0, rg_size = 1\<rparr>]\<rparr>,
     ie_strings = (\<lambda>_. []), ie_width = W64\<rparr>"

definition byte_argument :: "u64 \<Rightarrow> comp_val" where
  "byte_argument n = \<lparr>cl_value = plain_value CtInt n False, cl_type = Some 2\<rparr>"

lemma engine_run_returns_witness:
  "interpret_function (12 + 1000) double_engine 0 [byte_argument 21] 3 0 =
     Some (Inr (byte_argument 42), \<lparr>ip_memory = [0], ip_quota = 2, ip_depth = 0\<rparr>)"
proof -
  have run: "interpret_function 12 double_engine 0 [byte_argument 21] 3 0 =
      Some (Inr (byte_argument 42), \<lparr>ip_memory = [0], ip_quota = 2, ip_depth = 0\<rparr>)" by code_simp
  have "forward_branches double_engine" by code_simp
  moreover have "values_end (ie_storage double_engine) (\<lambda>_. 0)" by code_simp
  moreover have "(unat (3 :: u64) + 1) * (length (st_blocks (ie_storage double_engine)) + 2) \<le> 12"
    by (simp add: double_engine_def)
  ultimately show ?thesis
    using engine_run_returns [of double_engine "\<lambda>_. 0" 3 12 0 "[byte_argument 21]" 0] run by (metis option.inject)
qed

lemma engine_budgets_hold_witness:
  "interpret_function 3 double_engine 0 [byte_argument 21] 1 0 = Some (Inr (byte_argument 42), \<lparr>ip_memory = [0], ip_quota = 0, ip_depth = 0\<rparr>)
   \<and> length (ip_memory \<lparr>ip_memory = [0], ip_quota = 0, ip_depth = 0\<rparr>) \<le> 2 ^ 28"
proof -
  have run: "interpret_function 3 double_engine 0 [byte_argument 21] 1 0 =
      Some (Inr (byte_argument 42), \<lparr>ip_memory = [0], ip_quota = 0, ip_depth = 0\<rparr>)" by code_simp
  from engine_budgets_hold [OF this] show ?thesis using run by simp
qed

text \<open>A verified program of one block that branches to itself on a constant condition.\<close>

definition spin_engine :: engine where
  "spin_engine = \<lparr>ie_storage = empty_state
     \<lparr>st_types := map plain_node (take 18 ALL_TAGS),
      st_immutables := [\<lparr>im_type = 1, im_bits = 1\<rparr>],
      st_operands := [from_immutable 0 1, from_block 0 0, from_block 0 0],
      st_instrs := [plain_instr OpCondBr None 0 3],
      st_blocks := [\<lparr>bl_instrs = \<lparr>rg_head = 0, rg_size = 1\<rparr>, bl_params = no_range\<rparr>],
      st_functions := [plain_function 0 \<lparr>rg_head = 0, rg_size = 1\<rparr>]\<rparr>,
     ie_strings = (\<lambda>_. []), ie_width = W64\<rparr>"

lemma spin_step: "run_instrs spin_engine call 0 (range_list \<lparr>rg_head = 0, rg_size = 1\<rparr>) fr ip = Some (Inr (fr, FlJump 0), ip)"
proof -
  have "execute_cond_br spin_engine 0 fr = Inr (fr, FlJump 0)"
    by (simp add: execute_cond_br_def resolve_at_def engine_instr_def engine_operand_def spin_engine_def row_def plain_instr_def
        require_def from_immutable_def from_block_def resolve_operand_def tag_of_def ALL_TAGS_def plain_node_def
        is_integer_type_def as_u64_integer_def branch_target_def scalar_slot_def int_mask_def numeral_2_eq_2)
  moreover have "engine_instr spin_engine 0 = Inr (plain_instr OpCondBr None 0 3)"
    by (simp add: engine_instr_def spin_engine_def row_def)
  ultimately show ?thesis
    by (simp add: range_list_def execute_instruction_def plain_instr_def BINARY_OPS_def COMPARE_OPS_def)
qed

lemma spin_blocks: "execute_blocks spin_engine call n 0 fr ip = None"
proof (induction n arbitrary: fr ip)
  case (Suc n)
  have "row (st_blocks (ie_storage spin_engine)) 0 = Some \<lparr>bl_instrs = \<lparr>rg_head = 0, rg_size = 1\<rparr>, bl_params = no_range\<rparr>"
    by (simp add: spin_engine_def row_def)
  then show ?case using Suc spin_step by (simp del: row_Some_iff)
qed simp

text \<open>
  A loop of conditional branches is not bounded by the quota.  A program that the verifier
  accepts branches conditionally to its own block; with any quota but zero its compile-time evaluation never
  returns and never reports that the quota is spent.
\<close>

theorem conditional_loop_unbounded:
  "verify_storage (ie_storage spin_engine) = Some (Inr ()) \<and> interpret_function fuel spin_engine 0 [] COMP_BRANCH_QUOTA 0 = None"
proof -
  have enter: "entry_slots spin_engine 0 [] = Inr []" "enter_frame spin_engine 0 [] None = Inr (0, [])" by code_simp+
  have "execute_function fuel spin_engine 0 [] None (new_interp COMP_BRANCH_QUOTA 0) = None"
    by (cases fuel) (simp_all add: enter spin_blocks spend_def new_interp_def COMP_BRANCH_QUOTA_def COMP_MAX_CALL_DEPTH_def)
  then have "interpret_function fuel spin_engine 0 [] COMP_BRANCH_QUOTA 0 = None"
    by (simp add: interpret_function_def run_function_def enter)
  moreover have "verify_storage (ie_storage spin_engine) = Some (Inr ())" by code_simp
  ultimately show ?thesis by simp
qed

text \<open>A verified program whose second block branches to itself with its two parameters swapped.\<close>

definition swap_engine :: engine where
  "swap_engine = \<lparr>ie_storage = empty_state
     \<lparr>st_types := map plain_node (take 18 ALL_TAGS),
      st_registers := [\<lparr>rg_type = 2, rg_def = None\<rparr>, \<lparr>rg_type = 2, rg_def = None\<rparr>],
      st_operands := [from_block 0 0, from_register 1 2, from_register 0 2],
      st_instrs := [plain_instr OpBr None 0 3],
      st_block_params := [\<lparr>bp_type = 2, bp_reg = 0\<rparr>, \<lparr>bp_type = 2, bp_reg = 1\<rparr>],
      st_blocks := [\<lparr>bl_instrs = \<lparr>rg_head = 0, rg_size = 1\<rparr>, bl_params = \<lparr>rg_head = 0, rg_size = 2\<rparr>\<rparr>],
      st_functions := [plain_function 0 \<lparr>rg_head = 0, rg_size = 1\<rparr>]\<rparr>,
     ie_strings = (\<lambda>_. []), ie_width = W64\<rparr>"

text \<open>
  The arguments of a branch are not bound at the same time.  In a program that the verifier
  accepts, a branch that swaps the two parameters of a block leaves the second value in both: the first
  parameter is overwritten before it is read as the second argument.
\<close>

theorem branch_swap_loses:
  assumes "ip_quota ip \<noteq> 0"
  shows "verify_storage (ie_storage swap_engine) = Some (Inr ()) \<and>
    execute_br swap_engine 0 0 [scalar_slot x, scalar_slot y] ip =
      (Inr ([scalar_slot (y AND 0xFF), scalar_slot (y AND 0xFF)], FlJump 0), ip\<lparr>ip_quota := ip_quota ip - 1\<rparr>)"
proof -
  have "verify_storage (ie_storage swap_engine) = Some (Inr ())" by code_simp
  moreover have "int_mask TyI8 = 0xFF" by code_simp
  then have bind: "bind_params swap_engine 0 [0, 1] 0 [scalar_slot x, scalar_slot y] = Inr [scalar_slot (y AND 0xFF), scalar_slot (y AND 0xFF)]"
    by (simp add: swap_engine_def row_def resolve_at_def engine_instr_def engine_operand_def plain_instr_def require_def
        from_register_def resolve_operand_def bind_slot_def tag_of_def ALL_TAGS_def plain_node_def is_integer_type_def
        scalar_slot_def set_reg_def and.assoc)
  have instr: "engine_instr swap_engine 0 = Inr (plain_instr OpBr None 0 3)" "engine_operand swap_engine 0 0 = Inr (from_block 0 0)"
    "row (st_blocks (ie_storage swap_engine)) 0 =
       Some \<lparr>bl_instrs = \<lparr>rg_head = 0, rg_size = 1\<rparr>, bl_params = \<lparr>rg_head = 0, rg_size = 2\<rparr>\<rparr>"
    by (simp_all add: engine_instr_def engine_operand_def swap_engine_def row_def plain_instr_def)
  have "range_list \<lparr>rg_head = 0, rg_size = 2\<rparr> = [0, 1]" by (simp add: range_list_def upt_rec)
  ultimately show ?thesis
    using assms bind instr by (simp add: execute_br_def branch_target_def from_block_def spend_def run_on_def require_def plain_instr_def del: row_Some_iff)
qed

lemma branch_swap_loses_witness:
  "execute_br swap_engine 0 0 [scalar_slot 1, scalar_slot 2] (new_interp 5 0) =
     (Inr ([scalar_slot 2, scalar_slot 2], FlJump 0), (new_interp 5 0)\<lparr>ip_quota := 4\<rparr>)"
proof -
  have "ip_quota (new_interp 5 0) \<noteq> 0" by (simp add: new_interp_def)
  from branch_swap_loses [OF this, of 1 2] show ?thesis by (simp add: new_interp_def)
qed

end
