(* ===== verification/Le_Bytes.thy ===== *)
theory Le_Bytes
  imports Alcy_Prelude
begin

text \<open>
  Little-endian integers in byte strings, as \<^verbatim>\<open>ByteWriter\<close> of \<^verbatim>\<open>src/src/ir/serialize.cc\<close> writes them, \<^verbatim>\<open>Cursor\<close> of
  \<^verbatim>\<open>deserialize.cc\<close> reads them and a \<^verbatim>\<open>memcpy\<close> into a word loads them.
\<close>

definition put_le :: "nat \<Rightarrow> 'a::len word \<Rightarrow> u8 list" where
  "put_le n w = map (\<lambda>i. ucast (drop_bit (8 * i) w)) [0..<n]"

definition get_le :: "nat \<Rightarrow> u8 list \<Rightarrow> 'a::len word" where
  "get_le n bs = fold (\<lambda>i out. out OR push_bit (8 * i) (ucast (bs ! i))) [0..<n] 0"

lemma length_put_le [simp]: "length (put_le n w) = n"
  by (simp add: put_le_def)

lemma bit_get_le:
  "bit (get_le n bs :: 'a::len word) k \<longleftrightarrow> k < LENGTH('a) \<and> k < 8 * n \<and> bit (bs ! (k div 8)) (k mod 8)"
proof (induction n)
  case 0
  then show ?case by (simp add: get_le_def)
next
  case (Suc n)
  have step: "(get_le (Suc n) bs :: 'a word) = get_le n bs OR push_bit (8 * n) (ucast (bs ! n))"
    by (simp add: get_le_def)
  have "k div 8 = n \<and> k mod 8 = k - 8 * n" if "8 * n \<le> k" "k < 8 * Suc n"
  proof -
    have "k div 8 = n" using that by (intro div_nat_eqI) auto
    then show ?thesis using that minus_mult_div_eq_mod [of k 8] by simp
  qed
  moreover have "\<not> bit (bs ! n) (k - 8 * n)" if "\<not> k < 8 * Suc n"
    using that bit_imp_le_length [of "bs ! n" "k - 8 * n"] by auto
  ultimately show ?case
    by (auto simp: step bit_simps Suc.IH) force+
qed

lemma get_put_le: "LENGTH('a) \<le> 8 * n \<Longrightarrow> get_le n (put_le n w @ rest) = (w :: 'a::len word)"
  by (rule bit_word_eqI) (auto simp: bit_get_le put_le_def nth_append bit_simps less_mult_imp_div_less)

lemma put_get_le:
  assumes "8 * n \<le> LENGTH('a)" "length bs = n"
  shows "put_le n (get_le n bs :: 'a::len word) = bs"
proof (rule nth_equalityI)
  fix i assume "i < length (put_le n (get_le n bs :: 'a word))"
  then have i: "i < n" by simp
  show "put_le n (get_le n bs :: 'a word) ! i = bs ! i"
    using i assms by (intro bit_word_eqI) (auto simp: put_le_def bit_simps bit_get_le)
qed (simp add: assms)

lemma get_le_take: "get_le n (take n bs @ cs) = get_le n (take n bs @ ds)" if "n \<le> length bs"
  using that by (intro bit_word_eqI) (auto simp: bit_get_le nth_append less_mult_imp_div_less)

text \<open>A text as its bytes and back.\<close>

definition char_bytes :: "bytes \<Rightarrow> u8 list" where
  "char_bytes s = map of_char s"

definition byte_chars :: "u8 list \<Rightarrow> bytes" where
  "byte_chars bs = map (\<lambda>b. char_of (unat b)) bs"

lemma unat_of_char: "unat (of_char c :: u8) = of_char c"
proof -
  have "(of_char c :: u8) = of_nat (of_char c)" by (simp only: of_nat_of_char)
  then show ?thesis by (simp add: unat_of_nat)
qed

lemma byte_chars_char_bytes [simp]: "byte_chars (char_bytes s) = s"
  by (simp add: byte_chars_def char_bytes_def unat_of_char map_idI)

lemma length_char_bytes [simp]: "length (char_bytes s) = length s" "length (byte_chars bs) = length bs"
  by (simp_all add: char_bytes_def byte_chars_def)

lemma char_bytes_inj: "char_bytes s = char_bytes s' \<longleftrightarrow> s = s'"
  by (metis byte_chars_char_bytes)

end
