(* ===== verification/Ir_Symbol_Table.thy ===== *)
theory Ir_Symbol_Table
  imports Le_Bytes Linear_Probing Ir_Builder
begin

text \<open>
  \<^verbatim>\<open>src/src/ir/symbol_table.h\<close> and \<^verbatim>\<open>symbol_table.cc\<close>: the table of names that the ids in the IR stand for.  The names
  are spread over shards; a shard is an open-addressed array of control bytes, each a fingerprint of a hash, beside
  the indices of the names.  A name is the text a view shows, so bytes the table copies and bytes it borrows are the
  same text; the copies are kept beside the names as the sources keep them.  The hash (xxHash) and the offset of the
  empty name's id come from libraries and are parameters.  A loop that looks for a free slot runs on the number
  of slots; \<^term>\<open>None\<close> as the outcome of an operation says that it finds none.
\<close>

subsection \<open>Hashes and names\<close>

definition SHARD_MIN_SLOTS :: nat where
  "SHARD_MIN_SLOTS = 16"

definition NUM_SHARDS :: nat where
  "NUM_SHARDS = 64"

definition MAX_NAMES :: nat where
  "MAX_NAMES = 2 ^ 24"

definition bucket_of :: "u64 \<Rightarrow> u64" where
  "bucket_of hash = hash XOR drop_bit 6 hash"

definition CONTROL_PUBLISHED :: u8 where
  "CONTROL_PUBLISHED = 0x80"

definition control_of :: "u64 \<Rightarrow> u8" where
  "control_of hash = ucast (drop_bit 56 hash AND 0x7F) OR CONTROL_PUBLISHED"

definition shard_of :: "u64 \<Rightarrow> nat" where
  "shard_of hash = unat (hash mod of_nat NUM_SHARDS)"

text \<open>The word a \<^verbatim>\<open>memcpy\<close> of eight bytes loads.\<close>

definition name_word :: "bytes \<Rightarrow> u64" where
  "name_word s = get_le 8 (char_bytes (take 8 s))"

function same_words :: "bytes \<Rightarrow> bytes \<Rightarrow> bool" where
  "same_words lhs rhs =
     (if 8 \<le> length lhs
      then (if name_word lhs \<noteq> name_word rhs then False else same_words (drop 8 lhs) (drop 8 rhs))
      else list_all2 (=) lhs rhs)"
  by pat_completeness auto
termination by (relation "measure (\<lambda>(lhs, rhs). length lhs)") auto

declare same_words.simps [simp del]

definition same_name :: "bytes \<Rightarrow> bytes \<Rightarrow> bool" where
  "same_name lhs rhs = (if length lhs \<noteq> length rhs then False else same_words lhs rhs)"

subsection \<open>Shards\<close>

record shard =
  sh_control :: "u8 list"
  sh_indices :: "nat list"
  sh_size :: nat

definition empty_shard :: shard where
  "empty_shard = \<lparr>sh_control = [], sh_indices = [], sh_size = 0\<rparr>"

record symbol_table =
  sy_names :: "bytes list"
  sy_owned :: "bytes list"
  sy_shards :: "shard list"
  sy_max_names :: nat
  sy_empty_id :: nat

definition blank_slots :: "nat \<Rightarrow> shard \<Rightarrow> shard" where
  "blank_slots n sh = sh\<lparr>sh_control := replicate n 0, sh_indices := replicate n 0\<rparr>"

definition publish :: "nat \<Rightarrow> nat \<Rightarrow> u64 \<Rightarrow> shard \<Rightarrow> shard" where
  "publish at index hash sh =
     sh\<lparr>sh_indices := (sh_indices sh)[at := index], sh_control := (sh_control sh)[at := control_of hash]\<rparr>"

definition new_symbol_table :: "(bytes \<Rightarrow> u64) \<Rightarrow> nat \<Rightarrow> nat \<Rightarrow> symbol_table" where
  "new_symbol_table xxh3 empty_id max_names =
     (let hash = xxh3 [];
          sh = blank_slots SHARD_MIN_SLOTS empty_shard;
          at = unat (bucket_of hash AND of_nat (SHARD_MIN_SLOTS - 1))
      in \<lparr>sy_names = replicate empty_id [] @ [[]], sy_owned = [],
          sy_shards = (replicate NUM_SHARDS empty_shard)
             [shard_of hash := (publish at empty_id hash sh)\<lparr>sh_size := 1\<rparr>],
          sy_max_names = (if max_names = 0 then MAX_NAMES else max_names), sy_empty_id = empty_id\<rparr>)"

definition name_count :: "symbol_table \<Rightarrow> nat" where
  "name_count t = length (sy_names t) - sy_empty_id t"

definition sym_get :: "symbol_table \<Rightarrow> nat \<Rightarrow> bytes" where
  "sym_get t i = (if length (sy_names t) \<le> i then [] else sy_names t ! i)"

fun find_steps :: "bytes list \<Rightarrow> shard \<Rightarrow> u64 \<Rightarrow> bytes \<Rightarrow> nat list \<Rightarrow> nat option" where
  "find_steps names sh hash name [] = None"
| "find_steps names sh hash name (step # steps) =
     (let at = unat ((bucket_of hash + of_nat step) AND of_nat (length (sh_control sh) - 1));
          published = sh_control sh ! at
      in if published = 0 then None
         else if published = control_of hash \<and> same_name (names ! (sh_indices sh ! at)) name
         then Some (sh_indices sh ! at)
         else find_steps names sh hash name steps)"

definition shard_find :: "bytes list \<Rightarrow> shard \<Rightarrow> u64 \<Rightarrow> bytes \<Rightarrow> nat option" where
  "shard_find names sh hash name =
     (if sh_control sh = [] then None
      else find_steps names sh hash name [0..<Suc (length (sh_control sh) - 1)])"

fun free_from :: "nat \<Rightarrow> u8 list \<Rightarrow> nat \<Rightarrow> nat option" where
  "free_from 0 control at = None"
| "free_from (Suc fuel) control at =
     (if control ! at \<noteq> 0 then free_from fuel control ((at + 1) AND (length control - 1)) else Some at)"

definition first_free_slot :: "u64 \<Rightarrow> u8 list \<Rightarrow> nat option" where
  "first_free_slot hash control =
     free_from (length control) control (unat (bucket_of hash AND of_nat (length control - 1)))"

fun regrow :: "(bytes \<Rightarrow> u64) \<Rightarrow> bytes list \<Rightarrow> shard \<Rightarrow> nat list \<Rightarrow> shard \<Rightarrow> shard option" where
  "regrow xxh3 names old [] sh = Some sh"
| "regrow xxh3 names old (at # rest) sh =
     (if sh_control old ! at = 0 then regrow xxh3 names old rest sh
      else let hash = xxh3 (names ! (sh_indices old ! at)) in
           (case first_free_slot hash (sh_control sh) of
              None \<Rightarrow> None
            | Some grown \<Rightarrow> regrow xxh3 names old rest (publish grown (sh_indices old ! at) hash sh)))"

definition grow_shard :: "(bytes \<Rightarrow> u64) \<Rightarrow> bytes list \<Rightarrow> shard \<Rightarrow> shard option" where
  "grow_shard xxh3 names sh =
     regrow xxh3 names sh [0..<length (sh_control sh)] (blank_slots (length (sh_control sh) * 2) sh)"

subsection \<open>Interning\<close>

definition room_in_shard :: "(bytes \<Rightarrow> u64) \<Rightarrow> bytes list \<Rightarrow> shard \<Rightarrow> shard option" where
  "room_in_shard xxh3 names sh =
     (if sh_control sh = [] then Some (blank_slots SHARD_MIN_SLOTS sh)
      else if length (sh_control sh) * 1 < (sh_size sh + 1) * 2 then grow_shard xxh3 names sh
      else Some sh)"

definition sym_insert ::
  "(bytes \<Rightarrow> u64) \<Rightarrow> bytes \<Rightarrow> u64 \<Rightarrow> nat \<Rightarrow> symbol_table \<Rightarrow> (nat option \<times> symbol_table) option" where
  "sym_insert xxh3 name hash x t =
     (if sy_max_names t \<le> name_count t then Some (None, t)
      else let index = length (sy_names t) mod 2 ^ 32 in
        (case room_in_shard xxh3 (sy_names t) (sy_shards t ! x) of
           None \<Rightarrow> None
         | Some sh \<Rightarrow>
             (case first_free_slot hash (sh_control sh) of
                None \<Rightarrow> None
              | Some at \<Rightarrow>
                  Some (Some index,
                    t\<lparr>sy_shards := (sy_shards t)
                        [x := (publish at index hash sh)\<lparr>sh_size := sh_size sh + 1\<rparr>],
                      sy_names := sy_names t @ [name]\<rparr>))))"

definition intern_hashed ::
  "(bytes \<Rightarrow> u64) \<Rightarrow> bytes \<Rightarrow> u64 \<Rightarrow> bool \<Rightarrow> symbol_table \<Rightarrow> (nat option \<times> symbol_table) option" where
  "intern_hashed xxh3 name hash copy t =
     (let x = shard_of hash in
      case shard_find (sy_names t) (sy_shards t ! x) hash name of
        Some found \<Rightarrow> Some (Some found, t)
      | None \<Rightarrow>
          if \<not> copy then sym_insert xxh3 name hash x t
          else sym_insert xxh3 name hash x (t\<lparr>sy_owned := sy_owned t @ [name]\<rparr>))"

definition try_intern :: "(bytes \<Rightarrow> u64) \<Rightarrow> bytes \<Rightarrow> symbol_table \<Rightarrow> (nat option \<times> symbol_table) option" where
  "try_intern xxh3 name t = intern_hashed xxh3 name (xxh3 name) False t"

definition intern_copied :: "(bytes \<Rightarrow> u64) \<Rightarrow> bytes \<Rightarrow> symbol_table \<Rightarrow> (nat option \<times> symbol_table) option" where
  "intern_copied xxh3 name t = intern_hashed xxh3 name (xxh3 name) True t"

text \<open>\<^verbatim>\<open>intern\<close> stops the process where the table is full.\<close>

definition sym_intern :: "(bytes \<Rightarrow> u64) \<Rightarrow> bytes \<Rightarrow> symbol_table \<Rightarrow> (nat \<times> symbol_table) option" where
  "sym_intern xxh3 name t =
     (case try_intern xxh3 name t of
        Some (Some i, t') \<Rightarrow> Some (i, t')
      | _ \<Rightarrow> None)"

subsection \<open>Recording and gathering\<close>

record pending_name =
  pd_hash :: u64
  pd_name :: bytes
  pd_key :: nat
  pd_stable :: bool
  pd_handle :: "nat option"

type_synonym bins = "pending_name list list"

definition record_name :: "(bytes \<Rightarrow> u64) \<Rightarrow> bytes \<Rightarrow> bool \<Rightarrow> nat \<Rightarrow> bins \<Rightarrow> bins" where
  "record_name xxh3 name lasting key bns =
     (let shards = (if bns = [] then replicate NUM_SHARDS [] else bns);
          hash = xxh3 name;
          x = shard_of hash
      in shards[x := shards ! x @ [\<lparr>pd_hash = hash, pd_name = name, pd_key = key, pd_stable = lasting,
                                    pd_handle = None\<rparr>]])"

fun gather_run :: "(bytes \<Rightarrow> u64) \<Rightarrow> pending_name list \<Rightarrow> symbol_table \<Rightarrow> (pending_name list \<times> symbol_table) option" where
  "gather_run xxh3 [] t = Some ([], t)"
| "gather_run xxh3 (p # ps) t =
     (case intern_hashed xxh3 (pd_name p) (pd_hash p) (\<not> pd_stable p) t of
        None \<Rightarrow> None
      | Some (handle, t1) \<Rightarrow>
          (case gather_run xxh3 ps t1 of
             None \<Rightarrow> None
           | Some (ps', t2) \<Rightarrow> Some (p\<lparr>pd_handle := handle\<rparr> # ps', t2)))"

fun gather_shard :: "(bytes \<Rightarrow> u64) \<Rightarrow> nat \<Rightarrow> bins list \<Rightarrow> symbol_table \<Rightarrow> (bins list \<times> symbol_table) option" where
  "gather_shard xxh3 x [] t = Some ([], t)"
| "gather_shard xxh3 x (producer # bns) t =
     (if length producer \<le> x
      then (case gather_shard xxh3 x bns t of
              None \<Rightarrow> None
            | Some (bns', t') \<Rightarrow> Some (producer # bns', t'))
      else (case gather_run xxh3 (producer ! x) t of
              None \<Rightarrow> None
            | Some (ps, t1) \<Rightarrow>
                (case gather_shard xxh3 x bns t1 of
                   None \<Rightarrow> None
                 | Some (bns', t2) \<Rightarrow> Some (producer[x := ps] # bns', t2))))"

fun gather_shards :: "(bytes \<Rightarrow> u64) \<Rightarrow> nat list \<Rightarrow> bins list \<Rightarrow> symbol_table \<Rightarrow> (bins list \<times> symbol_table) option" where
  "gather_shards xxh3 [] bns t = Some (bns, t)"
| "gather_shards xxh3 (x # xs) bns t =
     (case gather_shard xxh3 x bns t of
        None \<Rightarrow> None
      | Some (bns', t') \<Rightarrow> gather_shards xxh3 xs bns' t')"

definition gather :: "(bytes \<Rightarrow> u64) \<Rightarrow> bins list \<Rightarrow> symbol_table \<Rightarrow> (bins list \<times> symbol_table) option" where
  "gather xxh3 bns t = gather_shards xxh3 [0..<NUM_SHARDS] bns t"

subsection \<open>Names are compared exactly\<close>

lemma name_word_eq:
  assumes "8 \<le> length l" "8 \<le> length r"
  shows "name_word l = name_word r \<longleftrightarrow> take 8 l = take 8 r"
proof
  assume "name_word l = name_word r"
  then have "put_le 8 (name_word l) = put_le 8 (name_word r)" by simp
  then have "char_bytes (take 8 l) = char_bytes (take 8 r)"
    using assms by (simp add: name_word_def put_get_le)
  then show "take 8 l = take 8 r" by (simp add: char_bytes_inj)
qed (simp add: name_word_def)

lemma same_words_eq: "length l = length r \<Longrightarrow> same_words l r \<longleftrightarrow> l = r"
proof (induction l r rule: same_words.induct)
  case (1 l r)
  show ?case
  proof (cases "8 \<le> length l")
    case True
    have "l = r \<longleftrightarrow> take 8 l = take 8 r \<and> drop 8 l = drop 8 r" by (metis append_take_drop_id)
    with 1 True show ?thesis by (subst same_words.simps) (auto simp: name_word_eq)
  next
    case False
    then show ?thesis by (subst same_words.simps) (simp add: list.rel_eq)
  qed
qed

lemma same_name_eq [simp]: "same_name l r \<longleftrightarrow> l = r"
  using same_words_eq by (auto simp: same_name_def)

lemma control_of_nonzero [simp]: "control_of hash \<noteq> 0"
proof -
  have "bit (control_of hash) 7"
    by (simp add: control_of_def CONTROL_PUBLISHED_def bit_simps)
  then show ?thesis by auto
qed

lemma shard_of_less [simp]: "shard_of hash < 64"
  by (simp add: shard_of_def NUM_SHARDS_def unat_mod)

subsection \<open>The loops are probes\<close>

text \<open>The name a slot holds, and the indices a shard holds.\<close>

definition slot_name :: "bytes list \<Rightarrow> shard \<Rightarrow> nat \<Rightarrow> bytes option" where
  "slot_name names sh i = (if sh_control sh ! i = 0 then None else Some (names ! (sh_indices sh ! i)))"

definition held :: "shard \<Rightarrow> nat set" where
  "held sh = {sh_indices sh ! i |i. i < length (sh_control sh) \<and> sh_control sh ! i \<noteq> 0}"

definition taken :: "shard \<Rightarrow> nat" where
  "taken sh = length (filter (\<lambda>c. c \<noteq> 0) (sh_control sh))"

definition name_home :: "(bytes \<Rightarrow> u64) \<Rightarrow> nat \<Rightarrow> bytes \<Rightarrow> nat" where
  "name_home h b n = unat (bucket_of (h n)) mod 2 ^ b"

definition slots_ok :: "(bytes \<Rightarrow> u64) \<Rightarrow> bytes list \<Rightarrow> nat \<Rightarrow> shard \<Rightarrow> bool" where
  "slots_ok h names b sh \<longleftrightarrow> length (sh_control sh) = 2 ^ b \<and> length (sh_indices sh) = 2 ^ b \<and> b < 64
     \<and> reachable_keys (2 ^ b) (name_home h b) (slot_name names sh)
     \<and> distinct_keys (2 ^ b) (slot_name names sh)
     \<and> (\<forall>i < 2 ^ b. sh_control sh ! i \<noteq> 0 \<longrightarrow> sh_control sh ! i = control_of (h (names ! (sh_indices sh ! i))))"

lemma slots_ok_size [simp]:
  "slots_ok h names b (sh\<lparr>sh_size := k\<rparr>) \<longleftrightarrow> slots_ok h names b sh"
  "held (sh\<lparr>sh_size := k\<rparr>) = held sh" "taken (sh\<lparr>sh_size := k\<rparr>) = taken sh"
proof -
  have "slot_name names (sh\<lparr>sh_size := k\<rparr>) = slot_name names sh" by (auto simp: slot_name_def fun_eq_iff)
  then show "slots_ok h names b (sh\<lparr>sh_size := k\<rparr>) \<longleftrightarrow> slots_ok h names b sh" by (simp add: slots_ok_def)
qed (simp_all add: held_def taken_def)

interpretation sym: probing "2 ^ b" "name_home h b" for b h
  by unfold_locales (simp_all add: name_home_def)

lemma slot_address:
  assumes "b < 64"
  shows "unat ((w + of_nat s) AND of_nat (2 ^ b - 1) :: u64) = (unat w + s) mod 2 ^ b"
proof -
  have "(of_nat (2 ^ b - 1) :: u64) = mask b" by (simp add: mask_eq_exp_minus_1 of_nat_diff)
  then have "unat ((w + of_nat s) AND of_nat (2 ^ b - 1) :: u64) = unat (w + of_nat s) mod 2 ^ b"
    by (simp only: take_bit_eq_mask [symmetric] unsigned_take_bit_eq) (simp only: take_bit_eq_mod)
  also have "unat (w + of_nat s) = (unat w + s) mod 2 ^ 64"
    by (simp add: unat_word_ariths unat_of_nat mod_simps)
  also have "(unat w + s) mod 2 ^ 64 mod 2 ^ b = (unat w + s) mod 2 ^ b"
    using assms by (intro mod_mod_cancel le_imp_power_dvd) simp
  finally show ?thesis .
qed

lemma find_steps_scan:
  assumes ok: "slots_ok h names b sh"
  shows "find_steps names sh (h n) n [s..<s + k] =
    (case scan_from k (slot_name names sh) (2 ^ b) n ((name_home h b n + s) mod 2 ^ b) of
       None \<Rightarrow> None | Some j \<Rightarrow> if sh_control sh ! j = 0 then None else Some (sh_indices sh ! j))"
proof (induction k arbitrary: s)
  case 0
  then show ?case by simp
next
  case (Suc k)
  let ?at = "(name_home h b n + s) mod 2 ^ b"
  have at: "unat ((bucket_of (h n) + of_nat s) AND of_nat (length (sh_control sh) - 1)) = ?at"
    using ok slot_address [of b "bucket_of (h n)" s] by (simp add: slots_ok_def name_home_def mod_simps)
  have cong: "sh_control sh ! ?at = control_of (h n)" if "sh_control sh ! ?at \<noteq> 0" "names ! (sh_indices sh ! ?at) = n"
    using ok that unfolding slots_ok_def by (metis mod_less_divisor zero_less_numeral zero_less_power)
  have nxt: "(?at + 1) mod 2 ^ b = (name_home h b n + Suc s) mod 2 ^ b" by (simp add: mod_simps)
  have upt: "[s..<s + Suc k] = s # [Suc s..<Suc s + k]" by (simp add: upt_rec)
  have found: "find_steps names sh (h n) n [s..<s + Suc k] =
      (if sh_control sh ! ?at = 0 then None
       else if sh_control sh ! ?at = control_of (h n) \<and> names ! (sh_indices sh ! ?at) = n then Some (sh_indices sh ! ?at)
       else find_steps names sh (h n) n [Suc s..<Suc s + k])"
    by (simp only: upt find_steps.simps Let_def at same_name_eq)
  have scan: "scan_from (Suc k) (slot_name names sh) (2 ^ b) n ?at =
      (if sh_control sh ! ?at = 0 \<or> names ! (sh_indices sh ! ?at) = n then Some ?at
       else scan_from k (slot_name names sh) (2 ^ b) n ((name_home h b n + Suc s) mod 2 ^ b))"
    unfolding scan_from.simps nxt by (simp add: slot_name_def)
  consider "sh_control sh ! ?at = 0" | "sh_control sh ! ?at \<noteq> 0" "names ! (sh_indices sh ! ?at) = n"
    | "sh_control sh ! ?at \<noteq> 0" "names ! (sh_indices sh ! ?at) \<noteq> n" by blast
  then show ?case
  proof cases
    case 1
    then show ?thesis by (simp only: found scan) simp
  next
    case 2
    then show ?thesis using cong by (simp only: found scan) simp
  next
    case 3
    then show ?thesis by (simp only: found scan Suc.IH) simp
  qed
qed

lemma shard_find_scan:
  assumes ok: "slots_ok h names b sh"
  shows "shard_find names sh (h n) n =
    (case scan_from (2 ^ b) (slot_name names sh) (2 ^ b) n (name_home h b n) of
       None \<Rightarrow> None | Some j \<Rightarrow> if sh_control sh ! j = 0 then None else Some (sh_indices sh ! j))"
proof -
  have n: "length (sh_control sh) = 2 ^ b" using ok by (simp add: slots_ok_def)
  then have ne: "sh_control sh \<noteq> []" by auto
  have "Suc (2 ^ b - 1) = (0 :: nat) + 2 ^ b" by simp
  then show ?thesis
    using find_steps_scan [OF ok, of n 0 "2 ^ b"] ne
    by (simp only: shard_find_def n if_False add_0_right name_home_def mod_mod_trivial)
qed

lemma free_from_scan:
  assumes "\<forall>j < 2 ^ b. slot_name names sh j \<noteq> Some n" "length (sh_control sh) = 2 ^ b" "i < 2 ^ b"
  shows "free_from k (sh_control sh) i = scan_from k (slot_name names sh) (2 ^ b) n i"
  using assms
proof (induction k arbitrary: i)
  case (Suc k)
  have "slot_name names sh i \<noteq> Some n" using Suc.prems by blast
  with Suc show ?case by (auto simp: slot_name_def)
qed simp

lemma first_free_slot_scan:
  assumes "\<forall>j < 2 ^ b. slot_name names sh j \<noteq> Some n" "slots_ok h names b sh"
  shows "first_free_slot (h n) (sh_control sh) = scan_from (2 ^ b) (slot_name names sh) (2 ^ b) n (name_home h b n)"
proof -
  have n: "length (sh_control sh) = 2 ^ b" "b < 64" using assms(2) by (simp_all add: slots_ok_def)
  have "unat (bucket_of (h n) AND of_nat (2 ^ b - 1)) = name_home h b n"
    using slot_address [OF n(2), of "bucket_of (h n)" 0] by (simp add: name_home_def)
  then show ?thesis
    using free_from_scan [OF assms(1) n(1), of "name_home h b n"]
    by (simp add: first_free_slot_def n(1) sym.home_in)
qed

subsection \<open>Lookups and publications\<close>

lemma free_slot_ex: "taken sh < length (sh_control sh) \<Longrightarrow> \<exists>j < length (sh_control sh). slot_name names sh j = None"
  unfolding taken_def by (drule filter_length_less_ex) (auto simp: slot_name_def)

lemma shard_find_hit:
  assumes "slots_ok h names b sh" "j < 2 ^ b" "sh_control sh ! j \<noteq> 0" "names ! (sh_indices sh ! j) = n"
  shows "shard_find names sh (h n) n = Some (sh_indices sh ! j)"
proof -
  have "slot_name names sh j = Some n" using assms(3,4) by (simp add: slot_name_def)
  then have "scan_from (2 ^ b) (slot_name names sh) (2 ^ b) n (name_home h b n) = Some j"
    using assms(1,2) by (intro sym.scan_hit) (simp_all add: slots_ok_def)
  then show ?thesis using assms(3) by (simp add: shard_find_scan [OF assms(1)])
qed

lemma shard_find_miss:
  assumes ok: "slots_ok h names b sh" and new: "\<forall>j < 2 ^ b. slot_name names sh j \<noteq> Some n"
  shows "shard_find names sh (h n) n = None"
proof (cases "scan_from (2 ^ b) (slot_name names sh) (2 ^ b) n (name_home h b n)")
  case (Some j)
  then have "j < 2 ^ b" "slot_name names sh j = None \<or> slot_name names sh j = Some n"
    using scan_from_Some_iff [OF sym.home_in [of h b n], of "2 ^ b" "slot_name names sh" n j] by auto
  with new have "sh_control sh ! j = 0" by (auto simp: slot_name_def split: if_splits)
  with Some show ?thesis by (simp add: shard_find_scan [OF ok])
qed (simp add: shard_find_scan [OF ok])

lemma publish_ok:
  assumes ok: "slots_ok h names b sh" and room: "taken sh < 2 ^ b"
    and new: "\<forall>j < 2 ^ b. slot_name names sh j \<noteq> Some (names ! idx)"
  shows "\<exists>at. first_free_slot (h (names ! idx)) (sh_control sh) = Some at
     \<and> slots_ok h names b (publish at idx (h (names ! idx)) sh)
     \<and> held (publish at idx (h (names ! idx)) sh) = insert idx (held sh)
     \<and> taken (publish at idx (h (names ! idx)) sh) = Suc (taken sh)"
proof -
  let ?n = "names ! idx" and ?occ = "slot_name names sh"
  have len: "length (sh_control sh) = 2 ^ b" "length (sh_indices sh) = 2 ^ b" using ok by (simp_all add: slots_ok_def)
  obtain j where "j < 2 ^ b" "?occ j = None" using free_slot_ex [of sh names] room len by auto
  with sym.scan_miss [OF new, of j h] obtain at where at: "at < 2 ^ b" "?occ at = None"
    "scan_from (2 ^ b) ?occ (2 ^ b) ?n (name_home h b ?n) = Some at" by blast
  let ?sh = "publish at idx (h ?n) sh"
  have zero: "sh_control sh ! at = 0" using at(2) by (simp add: slot_name_def split: if_splits)
  have occ: "slot_name names ?sh = ?occ(at := Some ?n)"
    using at(1) len by (auto simp: slot_name_def publish_def fun_eq_iff nth_list_update)
  have "slots_ok h names b ?sh"
    using ok at len new unfolding slots_ok_def occ
    by (auto simp: publish_def nth_list_update intro: sym.insert_reachable sym.insert_distinct)
  moreover have "held ?sh = insert idx (held sh)"
    using at(1) len zero by (auto simp: held_def publish_def nth_list_update)
  moreover have "taken ?sh = Suc (taken sh)"
    using length_filter_update [of at "sh_control sh" "\<lambda>c. c \<noteq> 0" "control_of (h ?n)"] at(1) len zero
    by (simp add: taken_def publish_def)
  ultimately show ?thesis
    using at(3) first_free_slot_scan [OF new ok] by auto
qed

subsection \<open>Growing a shard\<close>

lemma slot_name_iff_held:
  assumes "inj_on ((!) names) I" "held sh \<subseteq> I" "idx \<in> I" "length (sh_control sh) = 2 ^ b"
  shows "(\<forall>j < 2 ^ b. slot_name names sh j \<noteq> Some (names ! idx)) \<longleftrightarrow> idx \<notin> held sh"
proof -
  have "names ! (sh_indices sh ! j) = names ! idx \<longleftrightarrow> sh_indices sh ! j = idx"
    if "j < 2 ^ b" "sh_control sh ! j \<noteq> 0" for j
    using that assms by (intro inj_on_eq_iff [OF assms(1)]) (auto simp: held_def)
  with assms(4) show ?thesis by (auto simp: slot_name_def held_def)
qed

lemma regrow_ok:
  assumes "inj_on ((!) names) I" "slots_ok h names b sh" "held sh \<union> held old \<subseteq> I"
    "distinct ats" "set ats \<subseteq> {..<length (sh_control old)}" "distinct_keys (length (sh_control old)) (slot_name names old)"
    "\<forall>at \<in> set ats. sh_control old ! at \<noteq> 0 \<longrightarrow> sh_indices old ! at \<notin> held sh"
    "taken sh + length (filter (\<lambda>at. sh_control old ! at \<noteq> 0) ats) \<le> 2 ^ b"
  shows "\<exists>sh'. regrow h names old ats sh = Some sh' \<and> slots_ok h names b sh'
     \<and> held sh' = held sh \<union> {sh_indices old ! at |at. at \<in> set ats \<and> sh_control old ! at \<noteq> 0}
     \<and> taken sh' = taken sh + length (filter (\<lambda>at. sh_control old ! at \<noteq> 0) ats)
     \<and> sh_size sh' = sh_size sh"
  using assms
proof (induction ats arbitrary: sh)
  case Nil
  then show ?case by simp
next
  case (Cons at ats)
  show ?case
  proof (cases "sh_control old ! at = 0")
    case True
    have "\<exists>sh'. regrow h names old ats sh = Some sh' \<and> slots_ok h names b sh'
     \<and> held sh' = held sh \<union> {sh_indices old ! at |at. at \<in> set ats \<and> sh_control old ! at \<noteq> 0}
     \<and> taken sh' = taken sh + length (filter (\<lambda>at. sh_control old ! at \<noteq> 0) ats)
     \<and> sh_size sh' = sh_size sh"
      by (rule Cons.IH) (use Cons.prems True in auto)
    moreover have "{sh_indices old ! a |a. a \<in> set (at # ats) \<and> sh_control old ! a \<noteq> 0}
      = {sh_indices old ! a |a. a \<in> set ats \<and> sh_control old ! a \<noteq> 0}" using True by auto
    ultimately show ?thesis using True by (simp del: set_simps)
  next
    case False
    let ?idx = "sh_indices old ! at"
    let ?n = "names ! ?idx"
    have at: "at < length (sh_control old)" and inI: "?idx \<in> I"
      using Cons.prems(3,5) False by (auto simp: held_def)
    have "\<forall>j < 2 ^ b. slot_name names sh j \<noteq> Some ?n"
      using Cons.prems slot_name_iff_held [OF Cons.prems(1) _ inI, of sh b] False by (auto simp: slots_ok_def)
    moreover have "taken sh < 2 ^ b" using Cons.prems(8) False by simp
    ultimately obtain g where g: "first_free_slot (h ?n) (sh_control sh) = Some g"
      "slots_ok h names b (publish g ?idx (h ?n) sh)" "held (publish g ?idx (h ?n) sh) = insert ?idx (held sh)"
      "taken (publish g ?idx (h ?n) sh) = Suc (taken sh)"
      using publish_ok [OF Cons.prems(2), of ?idx] by blast
    let ?sh = "publish g ?idx (h ?n) sh"
    have other: "sh_indices old ! a \<noteq> ?idx" if "a \<in> set ats" "sh_control old ! a \<noteq> 0" for a
    proof
      assume "sh_indices old ! a = ?idx"
      moreover have "a < length (sh_control old)" "a \<noteq> at" using Cons.prems(4,5) that by auto
      ultimately show False using Cons.prems(6) at False that by (auto simp: distinct_keys_def slot_name_def)
    qed
    have "\<exists>sh'. regrow h names old ats ?sh = Some sh' \<and> slots_ok h names b sh'
     \<and> held sh' = held ?sh \<union> {sh_indices old ! at |at. at \<in> set ats \<and> sh_control old ! at \<noteq> 0}
     \<and> taken sh' = taken ?sh + length (filter (\<lambda>at. sh_control old ! at \<noteq> 0) ats)
     \<and> sh_size sh' = sh_size ?sh"
      by (rule Cons.IH) (use Cons.prems False g other inI in auto)
    moreover have "{sh_indices old ! a |a. a \<in> set (at # ats) \<and> sh_control old ! a \<noteq> 0}
      = insert ?idx {sh_indices old ! a |a. a \<in> set ats \<and> sh_control old ! a \<noteq> 0}" using False by auto
    moreover have "sh_size ?sh = sh_size sh" by (simp add: publish_def)
    ultimately show ?thesis using False g by (auto simp add: Let_def simp del: set_simps)
  qed
qed

lemma blank_slots_ok:
  "b < 64 \<Longrightarrow> slots_ok h names b (blank_slots (2 ^ b) sh)"
  "held (blank_slots n sh) = {}" "taken (blank_slots n sh) = 0" "sh_size (blank_slots n sh) = sh_size sh"
  by (simp_all add: slots_ok_def blank_slots_def reachable_keys_def distinct_keys_def slot_name_def held_def taken_def)

lemma length_filter_upt: "length (filter (\<lambda>i. P (xs ! i)) [0..<length xs]) = length (filter P xs)"
  by (simp add: length_filter_conv_card cong: conj_cong)

lemma grow_shard_ok:
  assumes "inj_on ((!) names) I" "slots_ok h names b sh" "held sh \<subseteq> I" "b + 1 < 64"
  shows "\<exists>sh'. grow_shard h names sh = Some sh' \<and> slots_ok h names (b + 1) sh' \<and> held sh' = held sh
     \<and> taken sh' = taken sh \<and> sh_size sh' = sh_size sh"
proof -
  let ?blank = "blank_slots (length (sh_control sh) * 2) sh"
  have len: "length (sh_control sh) * 2 = 2 ^ (b + 1)" using assms(2) by (simp add: slots_ok_def)
  have cnt: "length (filter (\<lambda>at. sh_control sh ! at \<noteq> 0) [0..<length (sh_control sh)]) = taken sh"
    unfolding taken_def by (rule length_filter_upt)
  have fit: "taken sh \<le> 2 ^ (b + 1)"
    using len length_filter_le [of "\<lambda>c. c \<noteq> 0" "sh_control sh"] by (simp add: taken_def)
  have "\<exists>sh'. regrow h names sh [0..<length (sh_control sh)] ?blank = Some sh' \<and> slots_ok h names (b + 1) sh'
     \<and> held sh' = held ?blank \<union> {sh_indices sh ! at |at. at \<in> set [0..<length (sh_control sh)] \<and> sh_control sh ! at \<noteq> 0}
     \<and> taken sh' = taken ?blank + length (filter (\<lambda>at. sh_control sh ! at \<noteq> 0) [0..<length (sh_control sh)])
     \<and> sh_size sh' = sh_size ?blank"
  proof (rule regrow_ok [OF assms(1)])
    show "slots_ok h names (b + 1) ?blank" unfolding len by (rule blank_slots_ok(1) [OF assms(4)])
    show "distinct_keys (length (sh_control sh)) (slot_name names sh)" using assms(2) by (simp add: slots_ok_def)
  qed (use assms(3) fit in \<open>auto simp: blank_slots_ok cnt\<close>)
  moreover have "{sh_indices sh ! at |at. at \<in> set [0..<length (sh_control sh)] \<and> sh_control sh ! at \<noteq> 0} = held sh"
    by (auto simp: held_def)
  ultimately show ?thesis by (simp only: grow_shard_def blank_slots_ok cnt) auto
qed

subsection \<open>The invariant of a table\<close>

definition shard_inv :: "(bytes \<Rightarrow> u64) \<Rightarrow> bytes list \<Rightarrow> nat set \<Rightarrow> shard \<Rightarrow> bool" where
  "shard_inv h names I sh \<longleftrightarrow> held sh = I \<and> sh_size sh \<le> length names \<and> sh_size sh = taken sh
     \<and> (sh_control sh = [] \<or> (\<exists>b. slots_ok h names b sh \<and> sh_size sh * 2 \<le> 2 ^ b \<and> 2 ^ b \<le> 16 + 4 * sh_size sh))"

definition in_shard :: "(bytes \<Rightarrow> u64) \<Rightarrow> nat \<Rightarrow> bytes list \<Rightarrow> nat \<Rightarrow> nat set" where
  "in_shard h e names x = {i. e \<le> i \<and> i < length names \<and> shard_of (h (names ! i)) = x}"

definition table_inv :: "(bytes \<Rightarrow> u64) \<Rightarrow> symbol_table \<Rightarrow> bool" where
  "table_inv h t \<longleftrightarrow> sy_empty_id t < length (sy_names t) \<and> sy_names t ! sy_empty_id t = []
     \<and> inj_on ((!) (sy_names t)) {sy_empty_id t..<length (sy_names t)}
     \<and> length (sy_shards t) = NUM_SHARDS
     \<and> (\<forall>x < NUM_SHARDS. shard_inv h (sy_names t) (in_shard h (sy_empty_id t) (sy_names t) x) (sy_shards t ! x))
     \<and> name_count t \<le> sy_max_names t \<and> sy_empty_id t + sy_max_names t \<le> 2 ^ 32"

text \<open>A longer list of names leaves what the slots say.\<close>

lemma nth_append_old: "i < length names \<Longrightarrow> (names @ [n]) ! i = names ! i"
  by (simp add: nth_append)

lemma slots_ok_append:
  assumes "slots_ok h names b sh" "held sh \<subseteq> {..<length names}"
  shows "slots_ok h (names @ [n]) b sh"
proof -
  have idx: "sh_indices sh ! i < length names" if "i < 2 ^ b" "sh_control sh ! i \<noteq> 0" for i
    using assms that by (auto simp: held_def slots_ok_def)
  have "reachable_keys (2 ^ b) (name_home h b) (slot_name (names @ [n]) sh) \<longleftrightarrow> reachable_keys (2 ^ b) (name_home h b) (slot_name names sh)"
    using idx unfolding reachable_keys_def by (auto simp: slot_name_def nth_append_old split: if_splits)
  moreover have "distinct_keys (2 ^ b) (slot_name (names @ [n]) sh) \<longleftrightarrow> distinct_keys (2 ^ b) (slot_name names sh)"
    using idx unfolding distinct_keys_def by (auto simp: slot_name_def nth_append_old split: if_splits)
  ultimately show ?thesis using assms(1) idx by (auto simp: slots_ok_def nth_append_old)
qed

lemma shard_inv_append:
  assumes "shard_inv h names I sh" "I \<subseteq> {..<length names}"
  shows "shard_inv h (names @ [n]) I sh"
  using assms slots_ok_append unfolding shard_inv_def by fastforce

lemma room_in_shard_ok:
  assumes inv: "shard_inv h names I sh" and inj: "inj_on ((!) names) I" and few: "length names < 2 ^ 32"
  shows "\<exists>sh' b. room_in_shard h names sh = Some sh' \<and> slots_ok h names b sh' \<and> held sh' = I
     \<and> taken sh' = sh_size sh \<and> sh_size sh' = sh_size sh
     \<and> Suc (sh_size sh) * 2 \<le> 2 ^ b \<and> 2 ^ b \<le> 16 + 4 * Suc (sh_size sh)"
proof (cases "sh_control sh = []")
  case True
  then have "taken sh = 0" "held sh = {}" by (simp_all add: taken_def held_def)
  with inv have "sh_size sh = 0" "I = {}" by (simp_all add: shard_inv_def)
  moreover have "slots_ok h names 4 (blank_slots SHARD_MIN_SLOTS sh)"
    using blank_slots_ok(1) [of 4 h names sh] by (simp add: SHARD_MIN_SLOTS_def)
  ultimately show ?thesis using True
    by (intro exI [of _ "blank_slots SHARD_MIN_SLOTS sh"] exI [of _ 4]) (simp add: room_in_shard_def blank_slots_ok)
next
  case False
  with inv obtain b where b: "slots_ok h names b sh" "sh_size sh * 2 \<le> 2 ^ b" "2 ^ b \<le> 16 + 4 * sh_size sh"
    "held sh = I" "sh_size sh = taken sh" "sh_size sh \<le> length names" unfolding shard_inv_def by blast
  have len: "length (sh_control sh) = 2 ^ b" using b(1) by (simp add: slots_ok_def)
  show ?thesis
  proof (cases "2 ^ b < Suc (sh_size sh) * 2")
    case True
    have "(2 :: nat) ^ (b + 1) < 2 ^ 64" using True b(6) few by simp
    then have "b + 1 < 64" by (rule power_less_imp_less_exp [rotated]) simp
    from grow_shard_ok [OF inj b(1) _ this] b(4)
    obtain sh' where sh': "grow_shard h names sh = Some sh'" "slots_ok h names (b + 1) sh'" "held sh' = I"
      "taken sh' = taken sh" "sh_size sh' = sh_size sh" by auto
    have "room_in_shard h names sh = grow_shard h names sh"
      using False True by (simp add: room_in_shard_def len)
    moreover have "s * 2 \<le> m \<Longrightarrow> 1 \<le> m \<Longrightarrow> Suc s * 2 \<le> 2 * m" for s m :: nat by presburger
    then have "Suc (sh_size sh) * 2 \<le> 2 ^ (b + 1)" using b(2) by simp
    moreover have "2 ^ (b + 1) \<le> 16 + 4 * Suc (sh_size sh)" using True by simp
    ultimately show ?thesis using b(5) sh' by (intro exI [of _ sh'] exI [of _ "b + 1"]) simp
  next
    case False': False
    then have "room_in_shard h names sh = Some sh" using False by (simp add: room_in_shard_def len)
    with b False' show ?thesis by (intro exI [of _ sh] exI [of _ b]) simp
  qed
qed

definition name_index :: "symbol_table \<Rightarrow> bytes \<Rightarrow> nat option" where
  "name_index t n = List.find (\<lambda>i. sy_names t ! i = n) [sy_empty_id t..<length (sy_names t)]"

lemma name_index_Some:
  assumes "table_inv h t"
  shows "name_index t n = Some i \<longleftrightarrow> sy_empty_id t \<le> i \<and> i < length (sy_names t) \<and> sy_names t ! i = n"
proof
  assume "name_index t n = Some i"
  then obtain k where "k < length (sy_names t) - sy_empty_id t" "i = [sy_empty_id t..<length (sy_names t)] ! k"
    "sy_names t ! i = n" unfolding name_index_def find_Some_iff by auto
  then show "sy_empty_id t \<le> i \<and> i < length (sy_names t) \<and> sy_names t ! i = n" by auto
next
  assume i: "sy_empty_id t \<le> i \<and> i < length (sy_names t) \<and> sy_names t ! i = n"
  then have "name_index t n \<noteq> None" unfolding name_index_def find_None_iff by auto
  then obtain j where j: "name_index t n = Some j" by blast
  then have "sy_empty_id t \<le> j \<and> j < length (sy_names t) \<and> sy_names t ! j = n"
    unfolding name_index_def find_Some_iff by auto
  with i assms have "j = i" unfolding table_inv_def by (auto dest: inj_onD)
  with j show "name_index t n = Some i" by simp
qed

lemma name_index_None:
  "name_index t n = None \<longleftrightarrow> (\<forall>i. sy_empty_id t \<le> i \<longrightarrow> i < length (sy_names t) \<longrightarrow> sy_names t ! i \<noteq> n)"
  by (auto simp: name_index_def find_None_iff)

lemma shard_find_index:
  assumes inv: "table_inv h t"
  shows "shard_find (sy_names t) (sy_shards t ! shard_of (h n)) (h n) n = name_index t n"
proof -
  let ?x = "shard_of (h n)" and ?names = "sy_names t" and ?e = "sy_empty_id t"
  let ?sh = "sy_shards t ! ?x"
  have sinv: "shard_inv h ?names (in_shard h ?e ?names ?x) ?sh" using inv by (simp add: table_inv_def NUM_SHARDS_def)
  show ?thesis
  proof (cases "name_index t n")
    case None
    then have new: "slot_name ?names ?sh j \<noteq> Some n" if "j < length (sh_control ?sh)" for j
      using sinv that unfolding name_index_None shard_inv_def
      by (auto simp: slot_name_def held_def in_shard_def split: if_splits)
    show ?thesis
    proof (cases "sh_control ?sh = []")
      case False
      with sinv obtain b where b: "slots_ok h ?names b ?sh" by (auto simp: shard_inv_def)
      moreover have "length (sh_control ?sh) = 2 ^ b" using b by (simp add: slots_ok_def)
      ultimately show ?thesis using new None by (simp add: shard_find_miss)
    qed (simp add: shard_find_def None)
  next
    case (Some i)
    then have i: "?e \<le> i" "i < length ?names" "?names ! i = n" by (simp_all add: name_index_Some [OF inv])
    then have "i \<in> held ?sh" using sinv by (simp add: shard_inv_def in_shard_def)
    then obtain j where j: "j < length (sh_control ?sh)" "sh_control ?sh ! j \<noteq> 0" "sh_indices ?sh ! j = i"
      by (auto simp: held_def)
    then have "sh_control ?sh \<noteq> []" by auto
    with sinv obtain b where b: "slots_ok h ?names b ?sh" by (auto simp: shard_inv_def)
    then have "j < 2 ^ b" using j(1) by (simp add: slots_ok_def)
    with shard_find_hit [OF b] j i Some show ?thesis by metis
  qed
qed

lemma in_shard_append:
  assumes "e \<le> length names"
  shows "in_shard h e (names @ [n]) x =
    (if x = shard_of (h n) then insert (length names) (in_shard h e names x) else in_shard h e names x)"
  using assms by (auto simp: in_shard_def nth_append less_Suc_eq)

lemma in_shard_sub: "in_shard h e names x \<subseteq> {e..<length names}"
  by (auto simp: in_shard_def)

lemma sym_insert_ok:
  assumes inv: "table_inv h t" and new: "name_index t n = None" and room: "name_count t < sy_max_names t"
  shows "\<exists>t'. sym_insert h n (h n) (shard_of (h n)) t = Some (Some (length (sy_names t)), t')
     \<and> table_inv h t' \<and> sy_names t' = sy_names t @ [n] \<and> sy_empty_id t' = sy_empty_id t
     \<and> sy_max_names t' = sy_max_names t"
proof -
  let ?x = "shard_of (h n)" and ?names = "sy_names t" and ?e = "sy_empty_id t"
  let ?sh = "sy_shards t ! ?x" and ?I = "in_shard h ?e ?names ?x" and ?names' = "?names @ [n]"
  have e: "?e < length ?names" and inj: "inj_on ((!) ?names) {?e..<length ?names}"
    and shards: "length (sy_shards t) = NUM_SHARDS"
    and invs: "\<forall>x < NUM_SHARDS. shard_inv h ?names (in_shard h ?e ?names x) (sy_shards t ! x)"
    using inv by (simp_all add: table_inv_def)
  have few: "length ?names < 2 ^ 32" using room inv by (auto simp: table_inv_def name_count_def)
  have x: "?x < NUM_SHARDS" by (simp add: NUM_SHARDS_def)
  have inj': "inj_on ((!) ?names') {?e..<length ?names'}"
    using inj new unfolding inj_on_def name_index_None by (auto simp: nth_append less_Suc_eq)
  obtain sh b where sh: "room_in_shard h ?names ?sh = Some sh" "slots_ok h ?names b sh" "held sh = ?I"
    "taken sh = sh_size ?sh" "sh_size sh = sh_size ?sh" "Suc (sh_size ?sh) * 2 \<le> 2 ^ b" "2 ^ b \<le> 16 + 4 * Suc (sh_size ?sh)"
    using room_in_shard_ok [OF invs [rule_format, OF x] inj_on_subset [OF inj in_shard_sub] few] by auto
  have ok': "slots_ok h ?names' b sh"
    by (rule slots_ok_append [OF sh(2)]) (use sh(3) in_shard_sub [of h ?e ?names ?x] in auto)
  have n: "?names' ! length ?names = n" by simp
  have fresh: "\<forall>j < 2 ^ b. slot_name ?names' sh j \<noteq> Some (?names' ! length ?names)"
  proof (subst slot_name_iff_held [OF inj'])
    show "length (sh_control sh) = 2 ^ b" using ok' by (simp add: slots_ok_def)
  qed (use sh(3) in_shard_sub [of h ?e ?names ?x] e in auto)
  have "taken sh < 2 ^ b" using sh(4,6) by simp
  from publish_ok [OF ok' this fresh] obtain at where at: "first_free_slot (h n) (sh_control sh) = Some at"
    "slots_ok h ?names' b (publish at (length ?names) (h n) sh)"
    "held (publish at (length ?names) (h n) sh) = insert (length ?names) ?I"
    "taken (publish at (length ?names) (h n) sh) = Suc (taken sh)" unfolding n sh(3) by blast
  let ?new = "(publish at (length ?names) (h n) sh)\<lparr>sh_size := sh_size sh + 1\<rparr>"
  let ?t = "t\<lparr>sy_shards := (sy_shards t)[?x := ?new], sy_names := ?names'\<rparr>"
  have size: "sh_size ?sh \<le> length ?names" using invs [rule_format, OF x] unfolding shard_inv_def by blast
  have pub: "slots_ok h ?names' b ?new" "held ?new = insert (length ?names) ?I" "taken ?new = Suc (taken sh)"
    using at(2-4) by simp_all
  have new_inv: "shard_inv h ?names' (in_shard h ?e ?names' ?x) ?new"
    using pub sh(4-7) size e by (auto simp: shard_inv_def in_shard_append)
  have "shard_inv h ?names' (in_shard h ?e ?names' y) (sy_shards ?t ! y)" if y: "y < NUM_SHARDS" for y
  proof (cases "y = ?x")
    case True
    with new_inv x shards show ?thesis by simp
  next
    case False
    with e have "in_shard h ?e ?names' y = in_shard h ?e ?names y" by (simp add: in_shard_append)
    moreover have "in_shard h ?e ?names y \<subseteq> {..<length ?names}" using in_shard_sub [of h ?e ?names y] by auto
    ultimately show ?thesis using invs y False shard_inv_append [of h ?names "in_shard h ?e ?names y"] by simp
  qed
  then have "table_inv h ?t"
    using inv e inj' shards room by (auto simp: table_inv_def nth_append name_count_def)
  moreover have "sym_insert h n (h n) ?x t = Some (Some (length ?names), ?t)"
    using room sh(1) at(1) few by (simp add: sym_insert_def Let_def)
  ultimately show ?thesis by (intro exI [of _ ?t]) simp
qed

subsection \<open>Interning answers the index of the name\<close>

text \<open>A later table has the names of the earlier one first.  A name is settled when it has an index or can get none
  any more.\<close>

definition continues :: "symbol_table \<Rightarrow> symbol_table \<Rightarrow> bool" where
  "continues t t' \<longleftrightarrow> (\<exists>more. sy_names t' = sy_names t @ more) \<and> sy_empty_id t' = sy_empty_id t
     \<and> sy_max_names t' = sy_max_names t"

definition settled :: "symbol_table \<Rightarrow> bytes \<Rightarrow> bool" where
  "settled t n \<longleftrightarrow> name_index t n \<noteq> None \<or> sy_max_names t \<le> name_count t"

lemma continues_refl [simp]: "continues t t"
  by (simp add: continues_def)

lemma continues_trans: "continues t t' \<Longrightarrow> continues t' t'' \<Longrightarrow> continues t t''"
  by (auto simp: continues_def)

lemma settled_index:
  assumes "table_inv h t" "table_inv h t'" "continues t t'" "settled t n"
  shows "name_index t' n = name_index t n \<and> settled t' n"
proof (cases "name_index t n")
  case None
  from assms(3) obtain more where more: "sy_names t' = sy_names t @ more" "sy_empty_id t' = sy_empty_id t"
    "sy_max_names t' = sy_max_names t" by (auto simp: continues_def)
  have "sy_max_names t \<le> name_count t" using assms(4) None by (simp add: settled_def)
  moreover have "name_count t' \<le> sy_max_names t" "sy_empty_id t < length (sy_names t)"
    using assms(1,2) more(3) by (simp_all add: table_inv_def)
  ultimately have "more = []" using more(1,2) by (cases more) (auto simp: name_count_def)
  with more assms(4) show ?thesis by (simp add: name_index_def settled_def name_count_def)
next
  case (Some i)
  with assms(3) have "name_index t' n = Some i"
    by (auto simp: name_index_Some [OF assms(1)] name_index_Some [OF assms(2)] continues_def nth_append)
  with Some show ?thesis by (simp add: settled_def)
qed

lemma table_inv_owned [simp]: "table_inv h (t\<lparr>sy_owned := o'\<rparr>) \<longleftrightarrow> table_inv h t"
  by (simp add: table_inv_def name_count_def)

lemma intern_hashed_ok:
  assumes inv: "table_inv h t"
  shows "\<exists>t'. intern_hashed h n (h n) copy t = Some (name_index t' n, t') \<and> table_inv h t' \<and> continues t t' \<and> settled t' n
     \<and> sy_names t' = (if name_index t n = None \<and> name_count t < sy_max_names t then sy_names t @ [n] else sy_names t)"
proof (cases "name_index t n")
  case (Some i)
  then show ?thesis using shard_find_index [OF inv, of n] inv by (simp add: intern_hashed_def Let_def settled_def)
next
  case None
  let ?t = "if copy then t\<lparr>sy_owned := sy_owned t @ [n]\<rparr> else t"
  have inv': "table_inv h ?t" using inv by simp
  have same: "sy_names ?t = sy_names t" "sy_empty_id ?t = sy_empty_id t" "sy_max_names ?t = sy_max_names t"
    by simp_all
  then have none: "name_index ?t n = None" and cnt: "name_count ?t = name_count t"
    using None by (simp_all add: name_index_def name_count_def)
  have step: "intern_hashed h n (h n) copy t = sym_insert h n (h n) (shard_of (h n)) ?t"
    using shard_find_index [OF inv, of n] None by (simp add: intern_hashed_def Let_def)
  show ?thesis
  proof (cases "name_count t < sy_max_names t")
    case True
    then have "name_count ?t < sy_max_names ?t" by (simp add: cnt same)
    from sym_insert_ok [OF inv' none this] obtain t'
      where t': "sym_insert h n (h n) (shard_of (h n)) ?t = Some (Some (length (sy_names ?t)), t')"
      "table_inv h t'" "sy_names t' = sy_names ?t @ [n]" "sy_empty_id t' = sy_empty_id ?t"
      "sy_max_names t' = sy_max_names ?t" by blast
    have "sy_empty_id t < length (sy_names t)" using inv by (simp add: table_inv_def)
    then have "name_index t' n = Some (length (sy_names t))"
      using t'(3,4) same by (simp add: name_index_Some [OF t'(2)])
    with t' same step None True show ?thesis by (intro exI [of _ t']) (simp add: continues_def settled_def)
  next
    case False
    then have "sym_insert h n (h n) (shard_of (h n)) ?t = Some (name_index ?t n, ?t)"
      unfolding none by (simp add: sym_insert_def name_count_def same)
    moreover have "continues t ?t" "settled ?t n" using False same cnt by (simp_all add: continues_def settled_def)
    ultimately show ?thesis using step inv' same None False by (intro exI [of _ ?t]) simp
  qed
qed

lemma intern_room:
  assumes inv: "table_inv h t" and room: "name_count t < sy_max_names t"
  shows "\<exists>i t'. intern_hashed h n (h n) copy t = Some (Some i, t') \<and> table_inv h t' \<and> continues t t'
     \<and> name_index t' n = Some i \<and> name_count t' \<le> Suc (name_count t)"
proof -
  from intern_hashed_ok [OF inv, of n copy] obtain t'
    where t': "intern_hashed h n (h n) copy t = Some (name_index t' n, t')" "table_inv h t'" "continues t t'" "settled t' n"
      "sy_names t' = (if name_index t n = None \<and> name_count t < sy_max_names t then sy_names t @ [n] else sy_names t)" by blast
  have e: "sy_empty_id t < length (sy_names t)" "sy_empty_id t' = sy_empty_id t"
    using inv t'(3) by (simp_all add: table_inv_def continues_def)
  have "\<exists>i. name_index t' n = Some i"
  proof (cases "name_index t n")
    case None
    with room t'(5) e have "name_index t' n = Some (length (sy_names t))" by (simp add: name_index_Some [OF t'(2)])
    then show ?thesis ..
  next
    case (Some i)
    then show ?thesis using settled_index [OF inv t'(2,3), of n] by (simp add: settled_def)
  qed
  moreover have "name_count t' \<le> Suc (name_count t)" using t'(5) e by (auto simp: name_count_def)
  ultimately show ?thesis using t' by auto
qed

lemma free_from_hit: "0 < fuel \<Longrightarrow> control ! at = 0 \<Longrightarrow> free_from fuel control at = Some at"
  by (cases fuel) simp_all

lemma new_table_inv:
  assumes "empty_id + (if max_names = 0 then MAX_NAMES else max_names) \<le> 2 ^ 32"
  shows "table_inv h (new_symbol_table h empty_id max_names)"
proof -
  let ?t = "new_symbol_table h empty_id max_names"
  let ?x = "shard_of (h [])" and ?names = "replicate empty_id [] @ [[]]"
  let ?blank = "blank_slots SHARD_MIN_SLOTS empty_shard"
  let ?at = "unat (bucket_of (h []) AND of_nat (SHARD_MIN_SLOTS - 1))"
  let ?sh = "(publish ?at empty_id (h []) ?blank)\<lparr>sh_size := 1\<rparr>"
  have ok: "slots_ok h ?names 4 ?blank"
    using blank_slots_ok(1) [of 4 h ?names empty_shard] by (simp add: SHARD_MIN_SLOTS_def)
  have nm: "?names ! empty_id = []" by (simp add: nth_append)
  have blank: "\<forall>j < 2 ^ 4. slot_name ?names ?blank j \<noteq> Some (?names ! empty_id)"
    by (simp add: slot_name_def blank_slots_def SHARD_MIN_SLOTS_def)
  have len: "length (sh_control ?blank) = 2 ^ 4" by (simp add: blank_slots_def SHARD_MIN_SLOTS_def)
  have at: "?at < 2 ^ 4" using slot_address [of 4 "bucket_of (h [])" 0] by (simp add: SHARD_MIN_SLOTS_def)
  have first: "first_free_slot (h []) (sh_control ?blank) = Some ?at"
    using at free_from_hit [of SHARD_MIN_SLOTS "sh_control ?blank" ?at]
    by (simp add: first_free_slot_def blank_slots_def SHARD_MIN_SLOTS_def)
  have "taken ?blank < 2 ^ 4" by (simp add: blank_slots_ok)
  from publish_ok [OF ok this blank, unfolded nm first blank_slots_ok] have sh: "slots_ok h ?names 4 ?sh"
    "held ?sh = {empty_id}" "taken ?sh = 1" by auto
  have all: "in_shard h empty_id ?names x = (if x = ?x then {empty_id} else {})" for x
    by (auto simp: in_shard_def nth_append less_Suc_eq)
  have "shard_inv h ?names (in_shard h empty_id ?names x) (sy_shards ?t ! x)" if "x < NUM_SHARDS" for x
  proof (cases "x = ?x")
    case True
    have "shard_inv h ?names {empty_id} ?sh"
      using sh by (auto simp: shard_inv_def intro!: exI [of _ 4])
    with True that show ?thesis by (simp add: new_symbol_table_def Let_def all)
  next
    case False
    with that have "sy_shards ?t ! x = empty_shard" by (simp add: new_symbol_table_def Let_def)
    with False show ?thesis by (simp add: all shard_inv_def empty_shard_def held_def taken_def)
  qed
  then show ?thesis
    using assms by (auto simp: table_inv_def new_symbol_table_def Let_def name_count_def inj_on_def nth_append MAX_NAMES_def)
qed

subsection \<open>Any history of requests\<close>

fun intern_all :: "(bytes \<Rightarrow> u64) \<Rightarrow> (bytes \<times> bool) list \<Rightarrow> symbol_table \<Rightarrow> (nat option list \<times> symbol_table) option" where
  "intern_all h [] t = Some ([], t)"
| "intern_all h ((n, copy) # reqs) t =
     (case intern_hashed h n (h n) copy t of
        None \<Rightarrow> None
      | Some (r, t1) \<Rightarrow>
          (case intern_all h reqs t1 of None \<Rightarrow> None | Some (rs, t2) \<Rightarrow> Some (r # rs, t2)))"

lemma intern_all_ok:
  "table_inv h t \<Longrightarrow> \<exists>t'. intern_all h reqs t = Some (map (\<lambda>(n, c). name_index t' n) reqs, t')
     \<and> table_inv h t' \<and> continues t t' \<and> (\<forall>(n, c) \<in> set reqs. settled t' n)"
proof (induction reqs arbitrary: t)
  case Nil
  then show ?case by simp
next
  case (Cons nc reqs)
  obtain n c where nc: "nc = (n, c)" by fastforce
  from intern_hashed_ok [OF Cons.prems, of n c] obtain t1
    where t1: "intern_hashed h n (h n) c t = Some (name_index t1 n, t1)" "table_inv h t1" "continues t t1" "settled t1 n" by blast
  from Cons.IH [OF t1(2)] obtain t2 where t2: "intern_all h reqs t1 = Some (map (\<lambda>(n, c). name_index t2 n) reqs, t2)"
    "table_inv h t2" "continues t1 t2" "\<forall>(n, c) \<in> set reqs. settled t2 n" by blast
  have "name_index t2 n = name_index t1 n \<and> settled t2 n" by (rule settled_index [OF t1(2) t2(2,3) t1(4)])
  with t1 t2 nc continues_trans [OF t1(3) t2(3)] show ?case by (intro exI [of _ t2]) simp
qed

lemma sym_get_index:
  assumes "table_inv h t"
  shows "name_index t n = Some i \<longleftrightarrow> sy_empty_id t \<le> i \<and> i < sy_empty_id t + name_count t \<and> sym_get t i = n"
  using assms by (auto simp: name_index_Some [OF assms] sym_get_def name_count_def table_inv_def)

subsection \<open>Gathering\<close>

text \<open>What recording leaves: every entry in the shard of its hash, under the hash of its name.\<close>

definition recorded :: "(bytes \<Rightarrow> u64) \<Rightarrow> bins \<Rightarrow> bool" where
  "recorded h bns \<longleftrightarrow> length bns \<le> NUM_SHARDS
     \<and> (\<forall>x < length bns. list_all (\<lambda>p. pd_hash p = h (pd_name p) \<and> shard_of (pd_hash p) = x) (bns ! x))"

lemma recorded_empty [simp]: "recorded h []"
  by (simp add: recorded_def)

lemma record_name_recorded:
  assumes "recorded h bns" "bns = [] \<or> length bns = NUM_SHARDS"
  shows "recorded h (record_name h n lasting key bns) \<and> length (record_name h n lasting key bns) = NUM_SHARDS"
  using assms by (auto simp: recorded_def record_name_def Let_def nth_list_update NUM_SHARDS_def)

definition answered :: "symbol_table \<Rightarrow> pending_name \<Rightarrow> pending_name \<Rightarrow> bool" where
  "answered t p p' \<longleftrightarrow> p' = p\<lparr>pd_handle := name_index t (pd_name p)\<rparr> \<and> settled t (pd_name p)"

lemma answered_later:
  "answered t p p' \<Longrightarrow> table_inv h t \<Longrightarrow> table_inv h t' \<Longrightarrow> continues t t' \<Longrightarrow> answered t' p p'"
  using settled_index [of h t t' "pd_name p"] by (auto simp: answered_def)

lemma answered_all_later:
  "list_all2 (answered t) ps qs \<Longrightarrow> table_inv h t \<Longrightarrow> table_inv h t' \<Longrightarrow> continues t t' \<Longrightarrow> list_all2 (answered t') ps qs"
  using list_all2_mono [of "answered t" ps qs "answered t'"] answered_later by blast

lemma gather_run_ok:
  assumes "table_inv h t" "list_all (\<lambda>p. pd_hash p = h (pd_name p)) ps"
  shows "\<exists>ps' t'. gather_run h ps t = Some (ps', t') \<and> table_inv h t' \<and> continues t t' \<and> list_all2 (answered t') ps ps'"
  using assms
proof (induction ps arbitrary: t)
  case Nil
  then show ?case by simp
next
  case (Cons p ps)
  from intern_hashed_ok [OF Cons.prems(1), of "pd_name p" "\<not> pd_stable p"] obtain t1
    where t1: "intern_hashed h (pd_name p) (h (pd_name p)) (\<not> pd_stable p) t = Some (name_index t1 (pd_name p), t1)"
      "table_inv h t1" "continues t t1" "settled t1 (pd_name p)" by blast
  from Cons.IH [OF t1(2)] Cons.prems(2) obtain ps' t2 where t2: "gather_run h ps t1 = Some (ps', t2)"
    "table_inv h t2" "continues t1 t2" "list_all2 (answered t2) ps ps'" by auto
  have "answered t2 p (p\<lparr>pd_handle := name_index t1 (pd_name p)\<rparr>)"
    using answered_later [OF _ t1(2) t2(2,3)] t1(4) by (simp add: answered_def)
  with t1 t2 Cons.prems(2) continues_trans [OF t1(3) t2(3)] show ?case by simp
qed

text \<open>One producer before and after the shards \<open>X\<close> have been visited.\<close>

definition producer_done :: "symbol_table \<Rightarrow> nat set \<Rightarrow> bins \<Rightarrow> bins \<Rightarrow> bool" where
  "producer_done t X b b' \<longleftrightarrow> length b' = length b
     \<and> (\<forall>x < length b. if x \<in> X then list_all2 (answered t) (b ! x) (b' ! x) else b' ! x = b ! x)"

lemma producer_done_later:
  "producer_done t X b b' \<Longrightarrow> table_inv h t \<Longrightarrow> table_inv h t' \<Longrightarrow> continues t t' \<Longrightarrow> producer_done t' X b b'"
  unfolding producer_done_def using answered_all_later by metis

lemma gather_shard_ok:
  assumes "table_inv h t" "\<forall>b \<in> set bns. recorded h b" "list_all2 (producer_done t X) bns bns1" "x \<notin> X"
  shows "\<exists>bns2 t'. gather_shard h x bns1 t = Some (bns2, t') \<and> table_inv h t' \<and> continues t t'
     \<and> list_all2 (producer_done t' (insert x X)) bns bns2"
  using assms
proof (induction bns arbitrary: bns1 t)
  case Nil
  then show ?case by simp
next
  case (Cons b bns)
  then obtain b1 bs1 where b1: "bns1 = b1 # bs1" "producer_done t X b b1" "list_all2 (producer_done t X) bns bs1"
    by (auto simp: list_all2_Cons1)
  have len: "length b1 = length b" using b1(2) by (simp add: producer_done_def)
  have later: "\<exists>bns2 t2. gather_shard h x bs1 t1 = Some (bns2, t2) \<and> table_inv h t2 \<and> continues t1 t2
     \<and> list_all2 (producer_done t2 (insert x X)) bns bns2" if "table_inv h t1" "continues t t1" for t1
  proof (rule Cons.IH [OF that(1)])
    show "list_all2 (producer_done t1 X) bns bs1"
      using b1(3) producer_done_later [OF _ Cons.prems(1) that] by (rule list_all2_mono)
  qed (use Cons.prems in auto)
  show ?case
  proof (cases "length b \<le> x")
    case True
    from later [OF Cons.prems(1) continues_refl] obtain bns2 t2
      where t2: "gather_shard h x bs1 t = Some (bns2, t2)" "table_inv h t2" "continues t t2"
        "list_all2 (producer_done t2 (insert x X)) bns bns2" by blast
    have "producer_done t2 (insert x X) b b1"
      using producer_done_later [OF b1(2) Cons.prems(1) t2(2,3)] True by (auto simp: producer_done_def)
    with t2 True len b1(1) show ?thesis by simp
  next
    case False
    then have "b1 ! x = b ! x" using b1(2) Cons.prems(4) by (auto simp: producer_done_def)
    moreover have "recorded h b" "x < length b" using Cons.prems(2) False by auto
    then have "list_all (\<lambda>p. pd_hash p = h (pd_name p)) (b ! x)" by (auto simp: recorded_def list_all_iff)
    ultimately obtain ps t1 where t1: "gather_run h (b1 ! x) t = Some (ps, t1)" "table_inv h t1" "continues t t1"
      "list_all2 (answered t1) (b ! x) ps" using gather_run_ok [OF Cons.prems(1), of "b ! x"] by auto
    from later [OF t1(2,3)] obtain bns2 t2
      where t2: "gather_shard h x bs1 t1 = Some (bns2, t2)" "table_inv h t2" "continues t1 t2"
        "list_all2 (producer_done t2 (insert x X)) bns bns2" by blast
    have "producer_done t2 X b b1" by (rule producer_done_later [OF b1(2) Cons.prems(1) t2(2) continues_trans [OF t1(3) t2(3)]])
    then have "producer_done t2 (insert x X) b (b1[x := ps])"
      using answered_all_later [OF t1(4) t1(2) t2(2,3)] False len
      by (auto simp: producer_done_def nth_list_update)
    with t1 t2 False len b1(1) continues_trans [OF t1(3) t2(3)] show ?thesis by simp
  qed
qed

lemma gather_shards_ok:
  assumes "table_inv h t" "\<forall>b \<in> set bns. recorded h b" "list_all2 (producer_done t X) bns bns1"
    "distinct xs" "set xs \<inter> X = {}"
  shows "\<exists>bns2 t'. gather_shards h xs bns1 t = Some (bns2, t') \<and> table_inv h t' \<and> continues t t'
     \<and> list_all2 (producer_done t' (set xs \<union> X)) bns bns2"
  using assms
proof (induction xs arbitrary: bns1 t X)
  case Nil
  then show ?case by simp
next
  case (Cons x xs)
  from gather_shard_ok [OF Cons.prems(1-3), of x] Cons.prems(5) obtain bns2 t1
    where t1: "gather_shard h x bns1 t = Some (bns2, t1)" "table_inv h t1" "continues t t1"
      "list_all2 (producer_done t1 (insert x X)) bns bns2" by auto
  from Cons.IH [OF t1(2) Cons.prems(2) t1(4)] Cons.prems(4,5) obtain bns3 t2
    where t2: "gather_shards h xs bns2 t1 = Some (bns3, t2)" "table_inv h t2" "continues t1 t2"
      "list_all2 (producer_done t2 (set xs \<union> insert x X)) bns bns3" by auto
  with t1 continues_trans [OF t1(3) t2(3)] show ?case by (intro exI [of _ bns3] exI [of _ t2]) simp
qed

subsection \<open>The table as an interner\<close>

inductive symbol_step :: "(bytes \<Rightarrow> u64) \<Rightarrow> symbol_table \<Rightarrow> symbol_table \<Rightarrow> bool" for h where
  Intern: "intern_hashed h n (h n) copy t = Some (r, t') \<Longrightarrow> symbol_step h t t'"
| Gather: "gather h bns t = Some (bns', t') \<Longrightarrow> (\<forall>b \<in> set bns. recorded h b) \<Longrightarrow> symbol_step h t t'"

definition known_name :: "symbol_table \<Rightarrow> nat \<Rightarrow> bytes option" where
  "known_name t i = (if sy_empty_id t \<le> i \<and> i < length (sy_names t) then Some (sym_get t i) else None)"

lemma gather_ok:
  assumes "table_inv h t" "\<forall>b \<in> set bns. recorded h b"
  shows "\<exists>bns' t'. gather h bns t = Some (bns', t') \<and> table_inv h t' \<and> continues t t'
     \<and> list_all2 (producer_done t' {..<NUM_SHARDS}) bns bns'"
proof -
  have "list_all2 (producer_done t {}) bns bns" by (simp add: list_all2_same producer_done_def)
  from gather_shards_ok [OF assms this, of "[0..<NUM_SHARDS]"] show ?thesis
    by (simp add: gather_def lessThan_atLeast0)
qed

lemma symbol_step_ok:
  assumes "symbol_step h t t'" "table_inv h t"
  shows "table_inv h t' \<and> continues t t'"
  using assms(1)
proof cases
  case (Intern n copy r)
  then show ?thesis using intern_hashed_ok [OF assms(2), of n copy] by auto
next
  case (Gather bns bns')
  then show ?thesis using gather_ok [OF assms(2), of bns] by auto
qed

lemma sym_intern_ok:
  assumes "table_inv h t" "sym_intern h n t = Some (i, t')"
  shows "table_inv h t' \<and> continues t t' \<and> name_index t' n = Some i \<and> symbol_step h t t'"
proof -
  from intern_hashed_ok [OF assms(1), of n False] obtain t1
    where t1: "intern_hashed h n (h n) False t = Some (name_index t1 n, t1)" "table_inv h t1" "continues t t1" by blast
  then have "t' = t1" "name_index t1 n = Some i"
    using assms(2) by (auto simp: sym_intern_def try_intern_def split: option.splits)
  with t1 show ?thesis by (auto intro: symbol_step.Intern)
qed

lemma continues_index:
  assumes "table_inv h t" "table_inv h t'" "continues t t'" "name_index t n = Some i"
  shows "name_index t' n = Some i"
  using settled_index [OF assms(1-3), of n] assms(4) by (simp add: settled_def)

interpretation symbols: interner "sym_intern h" name_index known_name "\<lambda>n. n" "symbol_step h" "table_inv h" for h
proof
  fix s s' :: symbol_table and k and i j
  show "table_inv h s \<Longrightarrow> name_index s k = Some i \<Longrightarrow> sym_intern h k s = Some (j, s') \<Longrightarrow> j = i"
    using sym_intern_ok continues_index by (metis option.inject)
  show "table_inv h s \<Longrightarrow> sym_intern h k s = Some (i, s') \<Longrightarrow> table_inv h s' \<and> name_index s' k = Some i"
    using sym_intern_ok by blast
  show "table_inv h s \<Longrightarrow> name_index s k = Some i \<Longrightarrow> known_name s i = Some k"
    by (simp add: name_index_Some known_name_def sym_get_def)
  show "table_inv h s \<Longrightarrow> symbol_step h s s' \<Longrightarrow> table_inv h s'" using symbol_step_ok by blast
  show "table_inv h s \<Longrightarrow> symbol_step h s s' \<Longrightarrow> name_index s k = Some i \<Longrightarrow> name_index s' k = Some i"
    using symbol_step_ok continues_index by blast
next
  fix s s' :: symbol_table and i c
  assume "table_inv h s" "symbol_step h s s'" "known_name s i = Some c"
  then show "known_name s' i = Some c"
    using symbol_step_ok [of h s s'] by (auto simp: known_name_def sym_get_def continues_def nth_append split: if_splits)
next
  fix k s i s'
  assume "sym_intern h k s = Some (i, s')"
  then show "symbol_step h s s'"
    by (auto simp: sym_intern_def try_intern_def intro: symbol_step.Intern split: option.splits)
qed simp

subsection \<open>Properties\<close>

text \<open>
  C6. Whatever names are asked for, in whatever order and whether their bytes are copied or not, every request
  returns and answers the index its name has in the table at the last: an index that the table was asked for stands
  for exactly one name, which \<^verbatim>\<open>get\<close> reads back, and a request is refused only where the table holds as many names as it
  may.
\<close>

theorem symbol_table_history:
  assumes "empty_id + (if max_names = 0 then MAX_NAMES else max_names) \<le> 2 ^ 32"
  shows "\<exists>t. intern_all h reqs (new_symbol_table h empty_id max_names) = Some (map (\<lambda>(n, copy). name_index t n) reqs, t)
     \<and> (\<forall>n i. name_index t n = Some i \<longleftrightarrow> empty_id \<le> i \<and> i < empty_id + name_count t \<and> sym_get t i = n)
     \<and> (\<forall>(n, copy) \<in> set reqs. name_index t n = None \<longrightarrow> name_count t = (if max_names = 0 then MAX_NAMES else max_names))"
proof -
  let ?t0 = "new_symbol_table h empty_id max_names"
  have inv0: "table_inv h ?t0" by (rule new_table_inv [OF assms])
  from intern_all_ok [OF inv0, of reqs] obtain t where t: "intern_all h reqs ?t0 = Some (map (\<lambda>(n, c). name_index t n) reqs, t)"
    "table_inv h t" "continues ?t0 t" "\<forall>(n, c) \<in> set reqs. settled t n" by blast
  have e: "sy_empty_id t = empty_id" "sy_max_names t = (if max_names = 0 then MAX_NAMES else max_names)"
    using t(3) by (simp_all add: continues_def new_symbol_table_def Let_def)
  have "name_count t \<le> sy_max_names t" using t(2) by (simp add: table_inv_def)
  with t(4) e(2) have "\<forall>(n, copy) \<in> set reqs. name_index t n = None \<longrightarrow> name_count t = (if max_names = 0 then MAX_NAMES else max_names)"
    by (fastforce simp: settled_def)
  with t(1) sym_get_index [OF t(2)] e(1) show ?thesis by (intro exI [of _ t]) simp
qed

theorem symbol_table_history_witness:
  "\<exists>t. intern_all (\<lambda>s. of_nat (length s) * 0x9E3779B97F4A7C15) [(''Vec'', True), ([], False), (''Map'', True), (''Vec'', False)]
         (new_symbol_table (\<lambda>s. of_nat (length s) * 0x9E3779B97F4A7C15) 1 3)
       = Some ([name_index t ''Vec'', name_index t [], name_index t ''Map'', name_index t ''Vec''], t)"
  using symbol_table_history [of 1 3 "\<lambda>s. of_nat (length s) * 0x9E3779B97F4A7C15"
      "[(''Vec'', True), ([], False), (''Map'', True), (''Vec'', False)]"] by auto

text \<open>
  Ids are equal exactly when the names are, at any moments of one table: whatever is interned or gathered in
  between.
\<close>

theorem symbol_ids_stand_for_names:
  assumes "table_inv h t" "sym_intern h n t = Some (i, t1)" "(symbol_step h)\<^sup>*\<^sup>* t1 t2" "sym_intern h n' t2 = Some (j, t3)"
  shows "i = j \<longleftrightarrow> n = n'"
  by (rule symbols.index_equality [OF assms])

theorem symbol_ids_stand_for_names_witness:
  "\<exists>i t1 j t3. sym_intern (\<lambda>s. 0) ''a'' (new_symbol_table (\<lambda>s. 0) 1 5) = Some (i, t1)
     \<and> sym_intern (\<lambda>s. 0) ''b'' t1 = Some (j, t3) \<and> i \<noteq> j"
proof -
  have inv: "table_inv (\<lambda>s. 0) (new_symbol_table (\<lambda>s. 0) 1 5)" by (rule new_table_inv) (simp add: MAX_NAMES_def)
  have "name_count (new_symbol_table (\<lambda>s. 0) 1 5) = 1" "sy_max_names (new_symbol_table (\<lambda>s. 0) 1 5) = 5"
    by (simp_all add: name_count_def new_symbol_table_def Let_def)
  with intern_room [OF inv, of "''a''" False] obtain i t1
    where i': "intern_hashed (\<lambda>s. 0) ''a'' 0 False (new_symbol_table (\<lambda>s. 0) 1 5) = Some (Some i, t1)" "table_inv (\<lambda>s. 0) t1"
      "name_count t1 \<le> 2" "sy_max_names t1 = 5" by (auto simp: continues_def)
  with intern_room [OF i'(2), of "''b''" False] obtain j t3
    where "intern_hashed (\<lambda>s. 0) ''b'' 0 False t1 = Some (Some j, t3)" by auto
  with i' have i: "sym_intern (\<lambda>s. 0) ''a'' (new_symbol_table (\<lambda>s. 0) 1 5) = Some (i, t1)"
    and j: "sym_intern (\<lambda>s. 0) ''b'' t1 = Some (j, t3)" by (simp_all add: sym_intern_def try_intern_def)
  have "i = j \<longleftrightarrow> ''a'' = ''b''" by (rule symbol_ids_stand_for_names [OF inv i _ j]) simp
  with i j show ?thesis by auto
qed

text \<open>
  C40. A gather over the names that producers recorded returns, leaves in every entry the id the table answers for
  its name afterwards, changes nothing else of an entry, and keeps the ids given out before.
\<close>

theorem gather_exact:
  assumes "table_inv h t" "\<forall>b \<in> set bns. recorded h b"
  shows "\<exists>bns' t'. gather h bns t = Some (bns', t')
     \<and> bns' = map (map (map (\<lambda>p. p\<lparr>pd_handle := name_index t' (pd_name p)\<rparr>))) bns
     \<and> (\<forall>n i. name_index t n = Some i \<longrightarrow> name_index t' n = Some i)
     \<and> (\<forall>b \<in> set bns. \<forall>ps \<in> set b. \<forall>p \<in> set ps. name_index t' (pd_name p) = None \<longrightarrow> name_count t' = sy_max_names t)"
proof -
  from gather_ok [OF assms] obtain bns' t' where t': "gather h bns t = Some (bns', t')" "table_inv h t'" "continues t t'"
    "list_all2 (producer_done t' {..<NUM_SHARDS}) bns bns'" by blast
  have run: "qs = map (\<lambda>p. p\<lparr>pd_handle := name_index t' (pd_name p)\<rparr>) ps \<and> (\<forall>p \<in> set ps. settled t' (pd_name p))"
    if "list_all2 (answered t') ps qs" for ps qs
    using that by induction (simp_all add: answered_def)
  have prod: "b' = map (map (\<lambda>p. p\<lparr>pd_handle := name_index t' (pd_name p)\<rparr>)) b \<and> (\<forall>ps \<in> set b. \<forall>p \<in> set ps. settled t' (pd_name p))"
    if b: "producer_done t' {..<NUM_SHARDS} b b'" "recorded h b" for b b'
  proof -
    have x: "list_all2 (answered t') (b ! x) (b' ! x)" if "x < length b" for x
      using b that by (auto simp: producer_done_def recorded_def)
    have "length b' = length b" using b(1) by (simp add: producer_done_def)
    then have "b' = map (map (\<lambda>p. p\<lparr>pd_handle := name_index t' (pd_name p)\<rparr>)) b"
      using run [OF x] by (intro nth_equalityI) auto
    moreover have "\<forall>p \<in> set ps. settled t' (pd_name p)" if "ps \<in> set b" for ps
      using run [OF x] that by (auto simp: in_set_conv_nth [of ps b])
    ultimately show ?thesis by blast
  qed
  have all: "bns' = map (map (map (\<lambda>p. p\<lparr>pd_handle := name_index t' (pd_name p)\<rparr>))) bns
      \<and> (\<forall>b \<in> set bns. \<forall>ps \<in> set b. \<forall>p \<in> set ps. settled t' (pd_name p))"
    using t'(4) assms(2)
  proof (induction rule: list_all2_induct)
    case (Cons b bns b' bns')
    then show ?case using prod [of b b'] by simp
  qed simp
  have "name_count t' \<le> sy_max_names t'" "sy_max_names t' = sy_max_names t"
    using t'(2,3) by (simp_all add: table_inv_def continues_def)
  then have "settled t' n \<Longrightarrow> name_index t' n = None \<Longrightarrow> name_count t' = sy_max_names t" for n
    by (simp add: settled_def)
  with all have "\<forall>b \<in> set bns. \<forall>ps \<in> set b. \<forall>p \<in> set ps. name_index t' (pd_name p) = None \<longrightarrow> name_count t' = sy_max_names t"
    by blast
  with all t'(1) continues_index [OF assms(1) t'(2,3)] show ?thesis by (intro exI [of _ bns'] exI [of _ t']) simp
qed

theorem gather_exact_witness:
  "\<exists>bns' t'. gather (\<lambda>s. of_nat (length s)) [record_name (\<lambda>s. of_nat (length s)) ''Vec'' True 7 [], []]
       (new_symbol_table (\<lambda>s. of_nat (length s)) 1 0) = Some (bns', t')"
proof -
  let ?h = "\<lambda>s :: bytes. of_nat (length s) :: u64"
  have inv: "table_inv ?h (new_symbol_table ?h 1 0)" by (rule new_table_inv) (simp add: MAX_NAMES_def)
  have "recorded ?h (record_name ?h ''Vec'' True 7 [])" using record_name_recorded [of ?h "[]"] by simp
  then show ?thesis using gather_exact [OF inv, of "[record_name ?h ''Vec'' True 7 [], []]"] by auto
qed

end
