(* ===== verification/Ir_Serialize.thy ===== *)
theory Ir_Serialize
  imports Ir_Symbol_Table Ir_Layout Base_Digest Lexer_Token
begin

text \<open>
  The writer of the binary form of the IR: \<^verbatim>\<open>src/src/ir/serialize.cc\<close> with \<^verbatim>\<open>binary_format.h\<close>, \<^verbatim>\<open>write_input.h\<close> and
  \<^verbatim>\<open>summary.h\<close>.  A \<^verbatim>\<open>ByteWriter\<close> is the list of bytes written so far; a section is the bytes its writer leaves.
  Counts and indices are written in 32 bits, so a number is reduced to a word where it is written.  An invalid index is
  \<^term>\<open>None\<close>, written as \<^verbatim>\<open>U32_MAX\<close>.  What comes from libraries is gathered in a record: the digest functions, the two
  special ids of the string pool, and the numbers the tagged union of an operand gives its alternatives.
\<close>

record library =
  lib_xxh3 :: "bytes \<Rightarrow> u64"
  lib_xxh128 :: "u8 list \<Rightarrow> u64 \<times> u64"
  lib_empty_id :: nat
  lib_invalid_id :: nat
  lib_tag :: "nat \<Rightarrow> u8"

subsection \<open>Bytes\<close>

definition put_u8 :: "u8 \<Rightarrow> u8 list" where
  "put_u8 v = [v]"

definition put_u16 :: "u16 \<Rightarrow> u8 list" where
  "put_u16 v = put_le 2 v"

definition put_u32 :: "u32 \<Rightarrow> u8 list" where
  "put_u32 v = put_le 4 v"

definition put_u64 :: "u64 \<Rightarrow> u8 list" where
  "put_u64 v = put_le 8 v"

definition zeros :: "nat \<Rightarrow> u8 list" where
  "zeros n = replicate n 0"

definition NONE :: u32 where
  "NONE = - 1"

definition opt_u32 :: "nat option \<Rightarrow> u32" where
  "opt_u32 i = (case i of None \<Rightarrow> NONE | Some j \<Rightarrow> of_nat j)"

definition put_idx :: "nat \<Rightarrow> u8 list" where
  "put_idx i = put_u32 (of_nat i)"

definition put_opt :: "nat option \<Rightarrow> u8 list" where
  "put_opt i = put_u32 (opt_u32 i)"

definition write_range :: "idx_range \<Rightarrow> u8 list" where
  "write_range r = put_idx (rg_head r) @ put_idx (rg_size r)"

definition write_digest :: "digest128 \<Rightarrow> u8 list" where
  "write_digest d = digest_bytes d"

subsection \<open>The numbers of enumerators\<close>

definition ALL_OPCODES :: "opcode list" where
  "ALL_OPCODES =
    [OpNoop, OpAlloca, OpLoad, OpStore, OpGetElementPtr, OpElemOffset, OpExtractValue, OpInsertValue, OpMemcopy, OpIntAdd,
     OpIntSub, OpIntMul, OpIntDiv, OpUintDiv, OpIntRem, OpUintRem, OpFAdd, OpFSub, OpFMul, OpFDiv, OpAnd, OpOr, OpXor,
     OpShiftLeft, OpArithmeticShiftRight, OpLogicalShiftRight, OpNot, OpBitReverse, OpEq, OpNe, OpLe, OpLt, OpGe, OpGt,
     OpTypeCast, OpTypeSizeOf, OpTypeAlignOf, OpSelect, OpBr, OpCondBr, OpSwitch, OpCall, OpRet, OpUnreachable,
     OpAtomicLoad, OpAtomicStore, OpAtomicRmw, OpAtomicCompareExchange, OpFence, OpMove, OpDrop, OpBorrow, OpIntAddWrap,
     OpIntSubWrap, OpIntMulWrap, OpEnumTagLoad, OpEnumTagSet, OpEnumFieldAddr]"

definition position :: "'a list \<Rightarrow> 'a \<Rightarrow> nat" where
  "position xs x = length (takeWhile (\<lambda>y. y \<noteq> x) xs)"

definition opcode_byte :: "opcode \<Rightarrow> u8" where
  "opcode_byte op = (case op of OpUndefined b \<Rightarrow> b | _ \<Rightarrow> of_nat (position ALL_OPCODES op))"

definition ALL_RMW :: "atomic_rmw_op list" where
  "ALL_RMW = [RmwAdd, RmwSub, RmwAnd, RmwOr, RmwXor, RmwExchange]"

definition flags_byte :: "instruction_flags \<Rightarrow> u8" where
  "flags_byte fl = of_nat (position ALL_RMW (fl_rmw_op fl)) OR push_bit 3 (if fl_inbounds fl then 1 else 0)"

definition kind_byte :: "symbol_kind \<Rightarrow> u8" where
  "kind_byte k = (case k of SkForeign \<Rightarrow> 0 | SkFree \<Rightarrow> 1 | SkAssoc \<Rightarrow> 2 | SkMethod \<Rightarrow> 3 | SkUndefined b \<Rightarrow> b)"

definition conv_byte :: "calling_convention \<Rightarrow> u8" where
  "conv_byte c = (case c of CcC \<Rightarrow> 0 | CcUndefined b \<Rightarrow> b)"

datatype summary_kind = SumForeign | SumFree | SumAssoc | SumMethod | SumStruct | SumEnum

definition ALL_SUMMARY_KINDS :: "summary_kind list" where
  "ALL_SUMMARY_KINDS = [SumForeign, SumFree, SumAssoc, SumMethod, SumStruct, SumEnum]"

definition summary_byte :: "summary_kind \<Rightarrow> u8" where
  "summary_byte k = of_nat (position ALL_SUMMARY_KINDS k)"

subsection \<open>What a package is written from\<close>

record file_table =
  ft_names :: "bytes list"
  ft_hashes :: "digest128 list"

definition name_of :: "file_table \<Rightarrow> nat \<Rightarrow> bytes" where
  "name_of files i = (if i < length (ft_names files) then ft_names files ! i else [])"

definition hash_of :: "file_table \<Rightarrow> nat \<Rightarrow> digest128" where
  "hash_of files i = (if i < length (ft_hashes files) then ft_hashes files ! i else \<lparr>dg_low = 0, dg_high = 0\<rparr>)"

record addr_name =
  an_reg :: nat
  an_name :: bytes
  an_is_param :: bool
  an_is_capture :: bool

record summary_field =
  sf_name :: nat
  sf_is_pub :: bool

record summary_entry =
  se_function :: "nat option"
  se_type :: "nat option"
  se_name :: nat
  se_path :: nat
  se_symbol :: nat
  se_fields :: "summary_field list"
  se_owner :: "nat option"
  se_kind :: summary_kind
  se_needs_body :: bool

record write_input =
  wi_storage :: storage_state
  wi_strings :: symbol_table
  wi_spans :: "span list"
  wi_files :: file_table
  wi_addr_names :: "addr_name list"
  wi_summary :: "summary_entry list"
  wi_prelude :: nat
  wi_width :: pointer_width
  wi_version :: bytes

definition identity_digest :: "library \<Rightarrow> file_table \<Rightarrow> pointer_width \<Rightarrow> bytes \<Rightarrow> digest128" where
  "identity_digest L files width version =
     hash128 (lib_xxh128 L)
       (concat (map (\<lambda>i. char_bytes (ft_names files ! i) @ [0] @ digest_bytes (hash_of files i)) [0..<length (ft_names files)])
        @ [if width = W32 then 4 else 8] @ char_bytes version)"

subsection \<open>The string table\<close>

record serializer =
  sr_names :: "bytes list"
  sr_name_index :: "bytes \<Rightarrow> u32 option"
  sr_pool_index :: "nat \<Rightarrow> u32 option"

definition new_serializer :: serializer where
  "new_serializer = \<lparr>sr_names = [], sr_name_index = Map.empty, sr_pool_index = Map.empty\<rparr>"

definition add_name :: "bytes \<Rightarrow> serializer \<Rightarrow> u32 \<times> serializer" where
  "add_name b s =
     (case sr_name_index s b of
        Some i \<Rightarrow> (i, s)
      | None \<Rightarrow>
          let index = of_nat (length (sr_names s)) in
          (index, s\<lparr>sr_names := sr_names s @ [b], sr_name_index := (sr_name_index s)(b \<mapsto> index)\<rparr>))"

definition find_name :: "serializer \<Rightarrow> bytes \<Rightarrow> u32" where
  "find_name s b = (case sr_name_index s b of None \<Rightarrow> NONE | Some i \<Rightarrow> i)"

definition string_index :: "library \<Rightarrow> serializer \<Rightarrow> nat \<Rightarrow> u32" where
  "string_index L s i =
     (if i = lib_invalid_id L then NONE else case sr_pool_index s i of None \<Rightarrow> NONE | Some j \<Rightarrow> j)"

definition collect_pool_id :: "library \<Rightarrow> nat \<Rightarrow> nat list" where
  "collect_pool_id L i = (if i \<noteq> lib_invalid_id L then [i] else [])"

definition meta_ids :: "library \<Rightarrow> function_meta \<Rightarrow> nat list" where
  "meta_ids L meta = collect_pool_id L (fm_name meta) @ collect_pool_id L (fm_path meta)"

text \<open>The id a string immutable holds: the first four bytes of the union.\<close>

definition str_id_value :: "immutable \<Rightarrow> nat" where
  "str_id_value im = unat (ucast (im_bits im) :: u32)"

definition is_str :: "storage_state \<Rightarrow> immutable \<Rightarrow> bool" where
  "is_str st im \<longleftrightarrow> tn_tag (st_types st ! im_type im) = TyStr"

definition summary_ids :: "library \<Rightarrow> summary_entry \<Rightarrow> nat list" where
  "summary_ids L e = collect_pool_id L (se_name e) @ collect_pool_id L (se_path e) @ collect_pool_id L (se_symbol e)
     @ concat (map (\<lambda>f. collect_pool_id L (sf_name f)) (se_fields e))"

definition collected_ids :: "library \<Rightarrow> storage_state \<Rightarrow> summary_entry list \<Rightarrow> nat list" where
  "collected_ids L st summary =
     concat (map (\<lambda>f. meta_ids L (fn_meta f)) (st_functions st))
     @ concat (map (\<lambda>f. meta_ids L (xf_meta f)) (st_external_functions st))
     @ concat (map (\<lambda>s. collect_pool_id L (sty_name s)) (st_struct_types st))
     @ concat (map (\<lambda>e. collect_pool_id L (ety_name e)) (st_enum_types st))
     @ concat (map (\<lambda>v. collect_pool_id L (ev_name v)) (st_enum_variant_types st))
     @ concat (map (\<lambda>im. if is_str st im then collect_pool_id L (str_id_value im) else []) (st_immutables st))
     @ concat (map (summary_ids L) summary)"

definition add_pool_id :: "symbol_table \<Rightarrow> nat \<Rightarrow> serializer \<Rightarrow> serializer" where
  "add_pool_id strings i s =
     (case add_name (sym_get strings i) s of
        (index, s') \<Rightarrow> if sr_pool_index s' i = None then s'\<lparr>sr_pool_index := (sr_pool_index s')(i \<mapsto> index)\<rparr> else s')"

definition collect_strings :: "library \<Rightarrow> write_input \<Rightarrow> serializer" where
  "collect_strings L w =
     (let offsets = remdups_adj (sort (collected_ids L (wi_storage w) (wi_summary w)));
          s1 = fold (add_pool_id (wi_strings w)) offsets new_serializer;
          s2 = fold (\<lambda>a s. snd (add_name (an_name a) s)) (wi_addr_names w) s1
      in fold (\<lambda>f s. snd (add_name f s)) (ft_names (wi_files w)) s2)"

subsection \<open>Rows\<close>

definition immutable_value :: "type_tag \<Rightarrow> immutable \<Rightarrow> u64" where
  "immutable_value tag im =
     (if tag = TyI1 then (if im_bits im AND 1 = 0 then 0 else 1)
      else if tag = TyI8 then ucast (ucast (im_bits im) :: u8)
      else if tag = TyI16 then ucast (ucast (im_bits im) :: u16)
      else if tag = TyI32 then ucast (ucast (im_bits im) :: u32)
      else if tag = TyI64 then im_bits im
      else if tag = TyU8 then ucast (ucast (im_bits im) :: u8)
      else if tag = TyU16 then ucast (ucast (im_bits im) :: u16)
      else if tag = TyU32 then ucast (ucast (im_bits im) :: u32)
      else if tag = TyU64 then im_bits im
      else if tag = TyF32 then ucast (ucast (im_bits im) :: u32)
      else if tag = TyF64 then im_bits im
      else im_bits im)"

text \<open>The tags whose payload is a row of a table, and parameters, whose payload is their own index.\<close>

definition carries_payload :: "type_tag \<Rightarrow> bool" where
  "carries_payload tag \<longleftrightarrow> tag \<in> {TyStruct, TyArray, TySlice, TyEnum, TyRef, TyMutRef, TyRawPtr, TyRawMutPtr, TyTuple,
     TyFunc, TyConst, TyParam}"

definition type_payload :: "type_node \<Rightarrow> u32" where
  "type_payload node = (if carries_payload (tn_tag node) then of_nat (tn_data node) else 0)"

definition type_row :: "type_node \<Rightarrow> u8 list" where
  "type_row node = put_u8 (of_nat (tag_number (tn_tag node))) @ zeros 3 @ put_u32 (type_payload node)"

definition struct_row :: "(nat \<Rightarrow> u32) \<Rightarrow> struct_type \<Rightarrow> u8 list" where
  "struct_row six s = put_u32 (six (sty_name s)) @ write_range (sty_fields s) @ write_range (sty_params s)"

definition array_row :: "array_type \<Rightarrow> u8 list" where
  "array_row a = put_idx (aty_element a) @ put_u32 0 @ put_u64 (aty_count a)"

definition slice_row :: "slice_type \<Rightarrow> u8 list" where
  "slice_row s = put_idx (lty_element s)"

definition enum_row :: "(nat \<Rightarrow> u32) \<Rightarrow> enum_type \<Rightarrow> u8 list" where
  "enum_row six e = put_u32 (six (ety_name e)) @ write_range (ety_variants e) @ write_range (ety_params e)"

definition enum_variant_row :: "(nat \<Rightarrow> u32) \<Rightarrow> enum_variant_type \<Rightarrow> u8 list" where
  "enum_variant_row six v = put_u32 (six (ev_name v)) @ write_range (ev_fields v)"

definition ref_row :: "ref_type \<Rightarrow> u8 list" where
  "ref_row r = put_idx (rty_pointee r)"

definition tuple_row :: "tuple_type \<Rightarrow> u8 list" where
  "tuple_row t = write_range (tty_elements t)"

definition func_row :: "func_type \<Rightarrow> u8 list" where
  "func_row f = put_idx (fty_ret f) @ write_range (fty_params f)"

definition meta_start :: "(nat \<Rightarrow> u32) \<Rightarrow> function_meta \<Rightarrow> u8 list" where
  "meta_start six meta = put_idx (fm_return_type meta) @ write_range (fm_param_types meta) @ put_u32 (six (fm_name meta))
     @ put_u32 (six (fm_path meta)) @ put_opt (fm_owner meta) @ put_u8 (kind_byte (fm_kind meta))"

definition function_row :: "(nat \<Rightarrow> u32) \<Rightarrow> ir_function \<Rightarrow> u8 list" where
  "function_row six f = meta_start six (fn_meta f) @ zeros 3 @ write_range (fm_generics (fn_meta f)) @ write_range (fn_blocks f)"

definition block_row :: "block \<Rightarrow> u8 list" where
  "block_row b = write_range (bl_instrs b) @ write_range (bl_params b)"

definition block_param_row :: "block_param \<Rightarrow> u8 list" where
  "block_param_row p = put_idx (bp_type p) @ put_idx (bp_reg p)"

definition register_row :: "ir_register \<Rightarrow> u8 list" where
  "register_row r = put_idx (rg_type r) @ put_opt (rg_def r)"

definition instruction_row :: "instruction \<Rightarrow> u8 list" where
  "instruction_row i = put_u8 (opcode_byte (in_op i)) @ put_u8 (flags_byte (in_flags i)) @ zeros 2
     @ put_opt (in_dst i) @ put_opt (in_measure i) @ write_range (in_operands i)"

text \<open>The position of an operand's alternative in its tagged union, and its payload.\<close>

definition operand_alternative :: "operand_data \<Rightarrow> nat" where
  "operand_alternative d = (case d of OpdRegister _ \<Rightarrow> 0 | OpdFunction _ \<Rightarrow> 1 | OpdBlock _ \<Rightarrow> 2 | OpdImmutable _ \<Rightarrow> 3
     | OpdExternal _ \<Rightarrow> 4 | OpdNone \<Rightarrow> 5)"

definition operand_payload :: "operand_data \<Rightarrow> nat" where
  "operand_payload d = (case d of OpdRegister i \<Rightarrow> i | OpdFunction i \<Rightarrow> i | OpdBlock i \<Rightarrow> i | OpdImmutable i \<Rightarrow> i
     | OpdExternal i \<Rightarrow> i | OpdNone \<Rightarrow> 0)"

definition operand_row :: "library \<Rightarrow> operand \<Rightarrow> u8 list" where
  "operand_row L opd = put_u8 (lib_tag L (operand_alternative (opd_data opd))) @ zeros 3
     @ put_idx (operand_payload (opd_data opd)) @ put_idx (opd_type opd)"

definition immutable_row :: "(nat \<Rightarrow> u32) \<Rightarrow> storage_state \<Rightarrow> immutable \<Rightarrow> u8 list" where
  "immutable_row six st im = put_idx (im_type im) @ put_u32 (if is_str st im then six (str_id_value im) else 0)
     @ put_u64 (if is_str st im then 0 else immutable_value (tn_tag (st_types st ! im_type im)) im)"

definition external_row :: "(nat \<Rightarrow> u32) \<Rightarrow> external_function \<Rightarrow> u8 list" where
  "external_row six f = meta_start six (xf_meta f) @ put_u8 (conv_byte (xf_conv f)) @ zeros 2
     @ write_range (fm_generics (xf_meta f))"

definition file_row :: "serializer \<Rightarrow> file_table \<Rightarrow> nat \<Rightarrow> u8 list" where
  "file_row s files i = put_u32 (find_name s (ft_names files ! i)) @ put_u32 0 @ write_digest (hash_of files i)"

definition const_row :: "const_type \<Rightarrow> u8 list" where
  "const_row k = put_u64 (cty_value k)"

definition span_row :: "span \<Rightarrow> u8 list" where
  "span_row sp = put_idx (span_file sp) @ put_idx (span_offset sp) @ put_idx (span_length sp)"

definition addr_name_row :: "serializer \<Rightarrow> addr_name \<Rightarrow> u8 list" where
  "addr_name_row s a = put_idx (an_reg a) @ put_u32 (find_name s (an_name a))
     @ put_u8 ((if an_is_param a then 1 else 0) OR (if an_is_capture a then 2 else 0)) @ zeros 3"

definition summary_row :: "(nat \<Rightarrow> u32) \<Rightarrow> summary_entry \<Rightarrow> u8 list" where
  "summary_row six e = put_opt (se_function e) @ put_opt (se_type e) @ put_u32 (six (se_name e)) @ put_u32 (six (se_path e))
     @ put_u32 (six (se_symbol e)) @ put_opt (se_owner e) @ put_u8 (summary_byte (se_kind e))
     @ put_u8 (if se_needs_body e then 1 else 0) @ zeros 2"

definition summary_field_row :: "(nat \<Rightarrow> u32) \<Rightarrow> summary_field \<Rightarrow> u8 list" where
  "summary_field_row six f = put_u32 (six (sf_name f)) @ put_u8 (if sf_is_pub f then 1 else 0) @ zeros 3"

subsection \<open>Sections\<close>

text \<open>Every table is written as its length and its rows.\<close>

definition rows_section :: "('a \<Rightarrow> u8 list) \<Rightarrow> 'a list \<Rightarrow> u8 list" where
  "rows_section put xs = put_idx (length xs) @ concat (map put xs)"

definition strings_section :: "serializer \<Rightarrow> u8 list" where
  "strings_section s = rows_section (\<lambda>n. put_idx (length n) @ char_bytes n) (sr_names s)"

definition types_section :: "storage_state \<Rightarrow> u8 list" where
  "types_section st = rows_section type_row (st_types st)"

definition structs_section :: "(nat \<Rightarrow> u32) \<Rightarrow> storage_state \<Rightarrow> u8 list" where
  "structs_section six st = rows_section (struct_row six) (st_struct_types st)"

definition arrays_section :: "storage_state \<Rightarrow> u8 list" where
  "arrays_section st = rows_section array_row (st_array_types st)"

definition slices_section :: "storage_state \<Rightarrow> u8 list" where
  "slices_section st = rows_section slice_row (st_slice_types st)"

definition enums_section :: "(nat \<Rightarrow> u32) \<Rightarrow> storage_state \<Rightarrow> u8 list" where
  "enums_section six st = rows_section (enum_row six) (st_enum_types st)"

definition enum_variants_section :: "(nat \<Rightarrow> u32) \<Rightarrow> storage_state \<Rightarrow> u8 list" where
  "enum_variants_section six st = rows_section (enum_variant_row six) (st_enum_variant_types st)"

definition refs_section :: "storage_state \<Rightarrow> u8 list" where
  "refs_section st = rows_section ref_row (st_ref_types st)"

definition tuples_section :: "storage_state \<Rightarrow> u8 list" where
  "tuples_section st = rows_section tuple_row (st_tuple_types st)"

definition funcs_section :: "storage_state \<Rightarrow> u8 list" where
  "funcs_section st = rows_section func_row (st_func_types st)"

definition functions_section :: "(nat \<Rightarrow> u32) \<Rightarrow> storage_state \<Rightarrow> u8 list" where
  "functions_section six st = rows_section (function_row six) (st_functions st)"

definition blocks_section :: "storage_state \<Rightarrow> u8 list" where
  "blocks_section st = rows_section block_row (st_blocks st)"

definition block_params_section :: "storage_state \<Rightarrow> u8 list" where
  "block_params_section st = rows_section block_param_row (st_block_params st)"

definition registers_section :: "storage_state \<Rightarrow> u8 list" where
  "registers_section st = rows_section register_row (st_registers st)"

definition instructions_section :: "storage_state \<Rightarrow> u8 list" where
  "instructions_section st = rows_section instruction_row (st_instrs st)"

definition operands_section :: "library \<Rightarrow> storage_state \<Rightarrow> u8 list" where
  "operands_section L st = rows_section (operand_row L) (st_operands st)"

definition immutables_section :: "(nat \<Rightarrow> u32) \<Rightarrow> storage_state \<Rightarrow> u8 list" where
  "immutables_section six st = rows_section (immutable_row six st) (st_immutables st)"

definition externals_section :: "(nat \<Rightarrow> u32) \<Rightarrow> storage_state \<Rightarrow> u8 list" where
  "externals_section six st = rows_section (external_row six) (st_external_functions st)"

definition files_section :: "serializer \<Rightarrow> file_table \<Rightarrow> u8 list" where
  "files_section s files = rows_section (file_row s files) [0..<length (ft_names files)]"

definition consts_section :: "storage_state \<Rightarrow> u8 list" where
  "consts_section st = rows_section const_row (st_const_types st)"

definition spans_section :: "span list \<Rightarrow> u8 list" where
  "spans_section spans = rows_section span_row spans"

definition addr_names_section :: "serializer \<Rightarrow> addr_name list \<Rightarrow> u8 list" where
  "addr_names_section s names = rows_section (addr_name_row s) names"

text \<open>The runs of field names: the row, where its fields start and how many they are.\<close>

fun field_runs :: "nat \<Rightarrow> u32 \<Rightarrow> summary_entry list \<Rightarrow> (u32 \<times> u32 \<times> u32) list" where
  "field_runs i first [] = []"
| "field_runs i first (e # es) =
     (if se_fields e = [] then field_runs (i + 1) first es
      else (of_nat i, first, of_nat (length (se_fields e)))
           # field_runs (i + 1) (first + of_nat (length (se_fields e))) es)"

definition put_run :: "u32 \<times> u32 \<times> u32 \<Rightarrow> u8 list" where
  "put_run r = (case r of (at, first, count) \<Rightarrow> put_u32 at @ put_u32 first @ put_u32 count)"

definition summary_section :: "(nat \<Rightarrow> u32) \<Rightarrow> summary_entry list \<Rightarrow> u8 list" where
  "summary_section six summary =
     rows_section (summary_row six) summary
     @ put_idx (length (filter (\<lambda>e. se_fields e \<noteq> []) summary))
     @ concat (map put_run (field_runs 0 0 summary))
     @ put_idx (sum_list (map (\<lambda>e. length (se_fields e)) summary))
     @ concat (map (\<lambda>e. concat (map (summary_field_row six) (se_fields e))) summary)"

text \<open>The sections of a file with the numbers of their kinds, in the order they are written.\<close>

definition all_sections :: "library \<Rightarrow> write_input \<Rightarrow> (nat \<times> u8 list) list" where
  "all_sections L w =
     (let s = collect_strings L w; st = wi_storage w; six = string_index L s in
      [(1, strings_section s), (2, types_section st), (3, structs_section six st), (4, arrays_section st),
       (5, slices_section st), (6, enums_section six st), (7, enum_variants_section six st), (8, refs_section st),
       (9, tuples_section st), (10, funcs_section st), (11, functions_section six st), (12, blocks_section st),
       (13, block_params_section st), (14, registers_section st), (15, instructions_section st),
       (16, operands_section L st), (17, immutables_section six st), (18, externals_section six st),
       (19, files_section s (wi_files w))]
      @ (if wi_spans w \<noteq> [] then [(20, spans_section (wi_spans w))] else [])
      @ (if wi_addr_names w \<noteq> [] then [(21, addr_names_section s (wi_addr_names w))] else [])
      @ (if wi_prelude w \<noteq> 0 then [(22, put_idx (wi_prelude w))] else [])
      @ (if st_const_types st \<noteq> [] then [(23, consts_section st)] else [])
      @ [(24, write_digest (identity_digest L (wi_files w) (wi_width w) (wi_version w)))]
      @ (if wi_summary w \<noteq> [] then [(25, summary_section six (wi_summary w))] else []))"

subsection \<open>The file\<close>

definition MAGIC :: "u8 list" where
  "MAGIC = [0x41, 0x4C, 0x49, 0x52]"

definition MAJOR :: u16 where
  "MAJOR = 4"

definition MINOR :: u16 where
  "MINOR = 0"

definition FLAG_LITTLE_ENDIAN :: u32 where
  "FLAG_LITTLE_ENDIAN = 1"

definition SECTION_ALIGN :: u64 where
  "SECTION_ALIGN = 8"

text \<open>Where each section starts, and where the footer does.\<close>

fun section_offsets :: "u64 \<Rightarrow> u8 list list \<Rightarrow> u64 list \<times> u64" where
  "section_offsets cursor [] = ([], cursor)"
| "section_offsets cursor (p # ps) =
     (case section_offsets (align_up (cursor + of_nat (length p)) SECTION_ALIGN) ps of
        (offsets, footer_at) \<Rightarrow> (cursor # offsets, footer_at))"

definition pad_to :: "u64 \<Rightarrow> u8 list \<Rightarrow> u8 list" where
  "pad_to at out = (if of_nat (length out) < at then out @ zeros (unat (at - of_nat (length out))) else out)"

fun put_payloads :: "u64 list \<Rightarrow> u8 list list \<Rightarrow> u8 list \<Rightarrow> u8 list" where
  "put_payloads (at # ats) (p # ps) out = put_payloads ats ps (pad_to at out @ p)"
| "put_payloads ats ps out = out"

definition file_header :: "write_input \<Rightarrow> nat \<Rightarrow> u8 list" where
  "file_header w n =
     MAGIC @ put_u16 MAJOR @ put_u16 MINOR @ put_u32 FLAG_LITTLE_ENDIAN @ put_u32 (if wi_width w = W64 then 64 else 32)
     @ put_idx (length (wi_version w)) @ char_bytes (wi_version w) @ put_u64 (of_nat n)"

definition table_row :: "nat \<times> u64 \<times> nat \<Rightarrow> u8 list" where
  "table_row r = (case r of (kind, at, sz) \<Rightarrow> put_idx kind @ put_u32 0 @ put_u64 at @ put_u64 (of_nat sz))"

definition layout_file :: "library \<Rightarrow> write_input \<Rightarrow> (nat \<times> u8 list) list \<Rightarrow> u8 list" where
  "layout_file L w sections =
     (let header_size = 4 + 2 + 2 + 4 + 4 + 4 + length (wi_version w) + 8;
          table_size = length sections * 24;
          payloads = map snd sections;
          start = align_up (of_nat (header_size + table_size)) SECTION_ALIGN;
          offsets = fst (section_offsets start payloads);
          footer_at = snd (section_offsets start payloads);
          table = concat (map table_row (zip (map fst sections) (zip offsets (map length payloads))));
          body = put_payloads offsets payloads (file_header w (length sections) @ table);
          out = pad_to footer_at body
      in out @ write_digest (hash128 (lib_xxh128 L) out))"

definition serialize :: "library \<Rightarrow> write_input \<Rightarrow> u8 list" where
  "serialize L w = layout_file L w (all_sections L w)"

end
