(* ===== verification/Ir_Deserialize.thy ===== *)
theory Ir_Deserialize
  imports Ir_Serialize Ir_Storage
begin

text \<open>
  The reader of the binary form of the IR: \<^verbatim>\<open>src/src/ir/deserialize.h\<close> and \<^verbatim>\<open>deserialize.cc\<close>.  A \<^verbatim>\<open>Cursor\<close> is the bytes it
  has left; a read answers the value and the bytes after it, and \<^term>\<open>None\<close> is the \<^verbatim>\<open>false\<close> of the sources, after
  which nothing more is read.  A byte that no enumerator of a type tag or of an atomic operation has is cast all the
  same; the model notes it in \<open>ps_unnamed\<close> and leaves open what the verifier says to such a table.
\<close>

datatype ir_load_error =
  Truncated | BadMagic | UnsupportedVersion | BadFlags | BadSection | LoadOutOfRange | BadShape | BadChecksum | Verification

subsection \<open>Cursors\<close>

definition next_word :: "nat \<Rightarrow> u8 list \<Rightarrow> ('a::len word \<times> u8 list) option" where
  "next_word n bs = (if length bs < n then None else Some (get_le n (take n bs), drop n bs))"

definition next_u8 :: "u8 list \<Rightarrow> (u8 \<times> u8 list) option" where
  "next_u8 bs = (case bs of [] \<Rightarrow> None | b # bs' \<Rightarrow> Some (b, bs'))"

definition next_u16 :: "u8 list \<Rightarrow> (u16 \<times> u8 list) option" where
  "next_u16 bs = next_word 2 bs"

definition next_u32 :: "u8 list \<Rightarrow> (u32 \<times> u8 list) option" where
  "next_u32 bs = next_word 4 bs"

definition next_u64 :: "u8 list \<Rightarrow> (u64 \<times> u8 list) option" where
  "next_u64 bs = next_word 8 bs"

definition next_digest :: "u8 list \<Rightarrow> (digest128 \<times> u8 list) option" where
  "next_digest bs =
     (if length bs < 16 then None
      else Some (\<lparr>dg_low = get_le 8 (take 8 bs), dg_high = get_le 8 (take 8 (drop 8 bs))\<rparr>, drop 16 bs))"

definition take_bytes :: "nat \<Rightarrow> u8 list \<Rightarrow> (u8 list \<times> u8 list) option" where
  "take_bytes n bs = (if length bs < n then None else Some (take n bs, drop n bs))"

definition read_pad :: "nat \<Rightarrow> u8 list \<Rightarrow> (u8 list \<times> u8 list) option" where
  "read_pad n bs = take_bytes n bs"

definition read_range :: "u8 list \<Rightarrow> (idx_range \<times> u8 list) option" where
  "read_range bs = do {
     (start, bs) \<leftarrow> next_u32 bs;
     (count, bs) \<leftarrow> next_u32 bs;
     Some (\<lparr>rg_head = unat start, rg_size = unat count\<rparr>, bs)
   }"

definition opt_idx :: "u32 \<Rightarrow> nat option" where
  "opt_idx v = (if v = NONE then None else Some (unat v))"

subsection \<open>What a read gathers\<close>

record parsed =
  ps_state :: storage_state
  ps_strings :: symbol_table
  ps_string_ids :: "nat list"
  ps_file_names :: "bytes list"
  ps_file_hashes :: "digest128 list"
  ps_addr_names :: "addr_name list"
  ps_summary :: "summary_entry list"
  ps_summary_fields :: "summary_field list"
  ps_spans :: "span list"
  ps_prelude :: nat
  ps_width :: pointer_width
  ps_version :: bytes
  ps_identity :: digest128
  ps_unnamed :: bool

definition new_parsed :: "library \<Rightarrow> pointer_width \<Rightarrow> bytes \<Rightarrow> parsed" where
  "new_parsed L width version =
     \<lparr>ps_state = empty_state, ps_strings = new_symbol_table (lib_xxh3 L) (lib_empty_id L) 0, ps_string_ids = [],
      ps_file_names = [], ps_file_hashes = [], ps_addr_names = [], ps_summary = [], ps_summary_fields = [], ps_spans = [],
      ps_prelude = 0, ps_width = width, ps_version = version, ps_identity = \<lparr>dg_low = 0, dg_high = 0\<rparr>, ps_unnamed = False\<rparr>"

definition string_id :: "library \<Rightarrow> parsed \<Rightarrow> u32 \<Rightarrow> nat" where
  "string_id L ps i =
     (if i = NONE then lib_invalid_id L
      else if length (ps_string_ids ps) \<le> unat i then lib_invalid_id L
      else ps_string_ids ps ! unat i)"

text \<open>An index into the string table that a row may name: none, or one the table has.\<close>

definition names_string :: "parsed \<Rightarrow> u32 \<Rightarrow> bool" where
  "names_string ps i \<longleftrightarrow> \<not> (i \<noteq> NONE \<and> length (ps_string_ids ps) \<le> unat i)"

definition string_text :: "parsed \<Rightarrow> u32 \<Rightarrow> bytes" where
  "string_text ps i = (if i = NONE then [] else sym_get (ps_strings ps) (ps_string_ids ps ! unat i))"

subsection \<open>Tables of rows\<close>

definition record_count :: "nat \<Rightarrow> nat \<Rightarrow> u32" where
  "record_count payload_size record_size =
     (if record_size = 0 \<or> payload_size < 4 then NONE
      else if (payload_size - 4) mod record_size \<noteq> 0 then NONE
      else if unat NONE < (payload_size - 4) div record_size then NONE
      else of_nat ((payload_size - 4) div record_size))"

fun take_rows :: "(nat \<Rightarrow> u8 list \<Rightarrow> ('a \<times> u8 list) option) \<Rightarrow> nat \<Rightarrow> nat \<Rightarrow> u8 list \<Rightarrow> ('a list \<times> u8 list) option" where
  "take_rows get i 0 bs = Some ([], bs)"
| "take_rows get i (Suc n) bs =
     (case get i bs of
        None \<Rightarrow> None
      | Some (x, bs1) \<Rightarrow>
          (case take_rows get (Suc i) n bs1 of
             None \<Rightarrow> None
           | Some (xs, bs2) \<Rightarrow> Some (x # xs, bs2)))"

definition read_rows :: "nat \<Rightarrow> (nat \<Rightarrow> u8 list \<Rightarrow> ('a \<times> u8 list) option) \<Rightarrow> u8 list \<Rightarrow> 'a list option" where
  "read_rows sz get payload =
     (let count = record_count (length payload) sz in
      if count = NONE then None
      else case next_u32 payload of
        None \<Rightarrow> None
      | Some (read, bs) \<Rightarrow>
          if read \<noteq> count then None else map_option fst (take_rows get 0 (unat count) bs))"

subsection \<open>Strings\<close>

text \<open>The outer \<^term>\<open>None\<close> is the check that stops the process where the table of names is full.\<close>

fun read_string_rows :: "library \<Rightarrow> nat \<Rightarrow> parsed \<Rightarrow> u8 list \<Rightarrow> (parsed \<times> u8 list) option option" where
  "read_string_rows L 0 ps bs = Some (Some (ps, bs))"
| "read_string_rows L (Suc n) ps bs =
     (case next_u32 bs of
        None \<Rightarrow> Some None
      | Some (len, bs1) \<Rightarrow>
          (case take_bytes (unat len) bs1 of
             None \<Rightarrow> Some None
           | Some (txt_bytes, bs2) \<Rightarrow>
               (case intern_copied (lib_xxh3 L) (byte_chars txt_bytes) (ps_strings ps) of
                  Some (Some i, t) \<Rightarrow>
                    read_string_rows L n (ps\<lparr>ps_strings := t, ps_string_ids := ps_string_ids ps @ [i]\<rparr>) bs2
                | _ \<Rightarrow> None)))"

definition read_strings :: "library \<Rightarrow> parsed \<Rightarrow> u8 list \<Rightarrow> parsed option option" where
  "read_strings L ps payload =
     (case next_u32 payload of
        None \<Rightarrow> Some None
      | Some (count, bs) \<Rightarrow>
          if (length payload - 4) div 4 < unat count then Some None
          else (case read_string_rows L (unat count) ps bs of
                  None \<Rightarrow> None
                | Some None \<Rightarrow> Some None
                | Some (Some (ps', rest)) \<Rightarrow> Some (if rest = [] then Some ps' else None)))"

subsection \<open>Types\<close>

text \<open>The tag a byte is cast to; past the enumerators the node is marked.\<close>

definition tag_of_byte :: "u8 \<Rightarrow> type_tag" where
  "tag_of_byte b = (if unat b < length ALL_TAGS then ALL_TAGS ! unat b else TyError)"

text \<open>What the cases of the tag store: the index read for the tags with a payload, the default for the others.\<close>

definition loaded_payload :: "type_tag \<Rightarrow> u32 \<Rightarrow> nat" where
  "loaded_payload tag v =
     (case tag of
        TyStruct \<Rightarrow> unat v
      | TyArray \<Rightarrow> unat v
      | TySlice \<Rightarrow> unat v
      | TyEnum \<Rightarrow> unat v
      | TyRef \<Rightarrow> unat v
      | TyMutRef \<Rightarrow> unat v
      | TyRawPtr \<Rightarrow> unat v
      | TyRawMutPtr \<Rightarrow> unat v
      | TyTuple \<Rightarrow> unat v
      | TyFunc \<Rightarrow> unat v
      | TyConst \<Rightarrow> unat v
      | TyParam \<Rightarrow> unat v
      | _ \<Rightarrow> 0)"

definition read_type :: "nat \<Rightarrow> u8 list \<Rightarrow> ((type_node \<times> bool) \<times> u8 list) option" where
  "read_type i bs = do {
     (tag, bs) \<leftarrow> next_u8 bs;
     (pad, bs) \<leftarrow> read_pad 3 bs;
     (v, bs) \<leftarrow> next_u32 bs;
     if i < PRIMITIVE_TYPE_COUNT \<and> unat tag \<noteq> i then None
     else if i = PRIMITIVE_TYPE_COUNT \<and> unat tag \<noteq> tag_number TyFunction then None
     else Some ((\<lparr>tn_tag = tag_of_byte tag, tn_data = loaded_payload (tag_of_byte tag) v\<rparr>,
                 length ALL_TAGS \<le> unat tag), bs)
   }"

definition on_tables :: "(storage_state \<Rightarrow> storage_state) \<Rightarrow> parsed \<Rightarrow> parsed" where
  "on_tables f ps = ps\<lparr>ps_state := f (ps_state ps)\<rparr>"

definition read_types :: "parsed \<Rightarrow> u8 list \<Rightarrow> parsed option" where
  "read_types ps payload =
     (let count = record_count (length payload) 8 in
      if count = NONE then None
      else if unat count < PRIMITIVE_TYPE_COUNT + 1 then None
      else case read_rows 8 read_type payload of
        None \<Rightarrow> None
      | Some nodes \<Rightarrow>
          Some ((on_tables (\<lambda>st. st\<lparr>st_types := st_types st @ map fst nodes\<rparr>) ps)
            \<lparr>ps_unnamed := ps_unnamed ps \<or> list_ex snd nodes\<rparr>))"

definition read_struct :: "(u32 \<Rightarrow> nat) \<Rightarrow> nat \<Rightarrow> u8 list \<Rightarrow> (struct_type \<times> u8 list) option" where
  "read_struct sid i bs = do {
     (name, bs) \<leftarrow> next_u32 bs;
     (flds, bs) \<leftarrow> read_range bs;
     (params, bs) \<leftarrow> read_range bs;
     Some (\<lparr>sty_name = sid name, sty_fields = flds, sty_params = params\<rparr>, bs)
   }"

definition read_structs :: "library \<Rightarrow> parsed \<Rightarrow> u8 list \<Rightarrow> parsed option" where
  "read_structs L ps payload =
     map_option (\<lambda>rows. on_tables (\<lambda>st. st\<lparr>st_struct_types := st_struct_types st @ rows\<rparr>) ps)
       (read_rows 20 (read_struct (string_id L ps)) payload)"

definition read_array :: "nat \<Rightarrow> u8 list \<Rightarrow> (array_type \<times> u8 list) option" where
  "read_array i bs = do {
     (element, bs) \<leftarrow> next_u32 bs;
     (pad, bs) \<leftarrow> next_u32 bs;
     (len, bs) \<leftarrow> next_u64 bs;
     Some (\<lparr>aty_element = unat element, aty_count = len\<rparr>, bs)
   }"

definition read_arrays :: "parsed \<Rightarrow> u8 list \<Rightarrow> parsed option" where
  "read_arrays ps payload =
     map_option (\<lambda>rows. on_tables (\<lambda>st. st\<lparr>st_array_types := st_array_types st @ rows\<rparr>) ps) (read_rows 16 read_array payload)"

definition read_slice :: "nat \<Rightarrow> u8 list \<Rightarrow> (slice_type \<times> u8 list) option" where
  "read_slice i bs = do {
     (element, bs) \<leftarrow> next_u32 bs;
     Some (\<lparr>lty_element = unat element\<rparr>, bs)
   }"

definition read_slices :: "parsed \<Rightarrow> u8 list \<Rightarrow> parsed option" where
  "read_slices ps payload =
     map_option (\<lambda>rows. on_tables (\<lambda>st. st\<lparr>st_slice_types := st_slice_types st @ rows\<rparr>) ps) (read_rows 4 read_slice payload)"

definition read_enum :: "(u32 \<Rightarrow> nat) \<Rightarrow> nat \<Rightarrow> u8 list \<Rightarrow> (enum_type \<times> u8 list) option" where
  "read_enum sid i bs = do {
     (name, bs) \<leftarrow> next_u32 bs;
     (variants, bs) \<leftarrow> read_range bs;
     (params, bs) \<leftarrow> read_range bs;
     Some (\<lparr>ety_name = sid name, ety_variants = variants, ety_params = params\<rparr>, bs)
   }"

definition read_enums :: "library \<Rightarrow> parsed \<Rightarrow> u8 list \<Rightarrow> parsed option" where
  "read_enums L ps payload =
     map_option (\<lambda>rows. on_tables (\<lambda>st. st\<lparr>st_enum_types := st_enum_types st @ rows\<rparr>) ps)
       (read_rows 20 (read_enum (string_id L ps)) payload)"

definition read_enum_variant :: "(u32 \<Rightarrow> nat) \<Rightarrow> nat \<Rightarrow> u8 list \<Rightarrow> (enum_variant_type \<times> u8 list) option" where
  "read_enum_variant sid i bs = do {
     (name, bs) \<leftarrow> next_u32 bs;
     (flds, bs) \<leftarrow> read_range bs;
     Some (\<lparr>ev_name = sid name, ev_fields = flds\<rparr>, bs)
   }"

definition read_enum_variants :: "library \<Rightarrow> parsed \<Rightarrow> u8 list \<Rightarrow> parsed option" where
  "read_enum_variants L ps payload =
     map_option (\<lambda>rows. on_tables (\<lambda>st. st\<lparr>st_enum_variant_types := st_enum_variant_types st @ rows\<rparr>) ps)
       (read_rows 12 (read_enum_variant (string_id L ps)) payload)"

definition read_ref :: "nat \<Rightarrow> u8 list \<Rightarrow> (ref_type \<times> u8 list) option" where
  "read_ref i bs = do {
     (pointee, bs) \<leftarrow> next_u32 bs;
     Some (\<lparr>rty_pointee = unat pointee\<rparr>, bs)
   }"

definition read_refs :: "parsed \<Rightarrow> u8 list \<Rightarrow> parsed option" where
  "read_refs ps payload =
     map_option (\<lambda>rows. on_tables (\<lambda>st. st\<lparr>st_ref_types := st_ref_types st @ rows\<rparr>) ps) (read_rows 4 read_ref payload)"

definition read_tuple :: "nat \<Rightarrow> u8 list \<Rightarrow> (tuple_type \<times> u8 list) option" where
  "read_tuple i bs = do {
     (elements, bs) \<leftarrow> read_range bs;
     Some (\<lparr>tty_elements = elements\<rparr>, bs)
   }"

definition read_tuples :: "parsed \<Rightarrow> u8 list \<Rightarrow> parsed option" where
  "read_tuples ps payload =
     map_option (\<lambda>rows. on_tables (\<lambda>st. st\<lparr>st_tuple_types := st_tuple_types st @ rows\<rparr>) ps) (read_rows 8 read_tuple payload)"

definition read_func :: "nat \<Rightarrow> u8 list \<Rightarrow> (func_type \<times> u8 list) option" where
  "read_func i bs = do {
     (ret, bs) \<leftarrow> next_u32 bs;
     (params, bs) \<leftarrow> read_range bs;
     Some (\<lparr>fty_params = params, fty_ret = unat ret\<rparr>, bs)
   }"

definition read_funcs :: "parsed \<Rightarrow> u8 list \<Rightarrow> parsed option" where
  "read_funcs ps payload =
     map_option (\<lambda>rows. on_tables (\<lambda>st. st\<lparr>st_func_types := st_func_types st @ rows\<rparr>) ps) (read_rows 12 read_func payload)"

subsection \<open>Functions, blocks and instructions\<close>

definition kind_of_byte :: "u8 \<Rightarrow> symbol_kind" where
  "kind_of_byte b = (if b = 0 then SkForeign else if b = 1 then SkFree else if b = 2 then SkAssoc
     else if b = 3 then SkMethod else SkUndefined b)"

definition conv_of_byte :: "u8 \<Rightarrow> calling_convention" where
  "conv_of_byte b = (if b = 0 then CcC else CcUndefined b)"

definition opcode_of_byte :: "u8 \<Rightarrow> opcode" where
  "opcode_of_byte b = (if unat b < length ALL_OPCODES then ALL_OPCODES ! unat b else OpUndefined b)"

definition read_function :: "(u32 \<Rightarrow> nat) \<Rightarrow> nat \<Rightarrow> u8 list \<Rightarrow> (ir_function \<times> u8 list) option" where
  "read_function sid i bs = do {
     (ret, bs) \<leftarrow> next_u32 bs;
     (params, bs) \<leftarrow> read_range bs;
     (name, bs) \<leftarrow> next_u32 bs;
     (path, bs) \<leftarrow> next_u32 bs;
     (owner, bs) \<leftarrow> next_u32 bs;
     (kind, bs) \<leftarrow> next_u8 bs;
     (pad, bs) \<leftarrow> read_pad 3 bs;
     (generics, bs) \<leftarrow> read_range bs;
     (blocks, bs) \<leftarrow> read_range bs;
     Some (\<lparr>fn_meta = \<lparr>fm_return_type = unat ret, fm_param_types = params, fm_name = sid name, fm_path = sid path,
              fm_kind = kind_of_byte kind, fm_generics = generics, fm_owner = opt_idx owner\<rparr>,
            fn_blocks = blocks\<rparr>, bs)
   }"

definition read_functions :: "library \<Rightarrow> parsed \<Rightarrow> u8 list \<Rightarrow> parsed option" where
  "read_functions L ps payload =
     map_option (\<lambda>rows. on_tables (\<lambda>st. st\<lparr>st_functions := st_functions st @ rows\<rparr>) ps)
       (read_rows 44 (read_function (string_id L ps)) payload)"

definition read_block :: "nat \<Rightarrow> u8 list \<Rightarrow> (block \<times> u8 list) option" where
  "read_block i bs = do {
     (instrs, bs) \<leftarrow> read_range bs;
     (params, bs) \<leftarrow> read_range bs;
     Some (\<lparr>bl_instrs = instrs, bl_params = params\<rparr>, bs)
   }"

definition read_blocks :: "parsed \<Rightarrow> u8 list \<Rightarrow> parsed option" where
  "read_blocks ps payload =
     map_option (\<lambda>rows. on_tables (\<lambda>st. st\<lparr>st_blocks := st_blocks st @ rows\<rparr>) ps) (read_rows 16 read_block payload)"

definition read_block_param :: "nat \<Rightarrow> u8 list \<Rightarrow> (block_param \<times> u8 list) option" where
  "read_block_param i bs = do {
     (ty, bs) \<leftarrow> next_u32 bs;
     (reg, bs) \<leftarrow> next_u32 bs;
     Some (\<lparr>bp_type = unat ty, bp_reg = unat reg\<rparr>, bs)
   }"

definition read_block_params :: "parsed \<Rightarrow> u8 list \<Rightarrow> parsed option" where
  "read_block_params ps payload =
     map_option (\<lambda>rows. on_tables (\<lambda>st. st\<lparr>st_block_params := st_block_params st @ rows\<rparr>) ps)
       (read_rows 8 read_block_param payload)"

definition read_register :: "nat \<Rightarrow> u8 list \<Rightarrow> (ir_register \<times> u8 list) option" where
  "read_register i bs = do {
     (ty, bs) \<leftarrow> next_u32 bs;
     (def, bs) \<leftarrow> next_u32 bs;
     Some (\<lparr>rg_type = unat ty, rg_def = opt_idx def\<rparr>, bs)
   }"

definition read_registers :: "parsed \<Rightarrow> u8 list \<Rightarrow> parsed option" where
  "read_registers ps payload =
     map_option (\<lambda>rows. on_tables (\<lambda>st. st\<lparr>st_registers := st_registers st @ rows\<rparr>) ps) (read_rows 8 read_register payload)"

text \<open>Three bits hold the atomic operation, and two of their values no enumerator has.\<close>

definition rmw_of_byte :: "u8 \<Rightarrow> atomic_rmw_op" where
  "rmw_of_byte b = (if unat (b AND 7) < length ALL_RMW then ALL_RMW ! unat (b AND 7) else RmwAdd)"

definition read_instruction :: "nat \<Rightarrow> u8 list \<Rightarrow> ((instruction \<times> bool) \<times> u8 list) option" where
  "read_instruction i bs = do {
     (op, bs) \<leftarrow> next_u8 bs;
     (flags, bs) \<leftarrow> next_u8 bs;
     (pad, bs) \<leftarrow> read_pad 2 bs;
     (dst, bs) \<leftarrow> next_u32 bs;
     (measured, bs) \<leftarrow> next_u32 bs;
     (operands, bs) \<leftarrow> read_range bs;
     Some ((\<lparr>in_op = opcode_of_byte op,
             in_flags = \<lparr>fl_rmw_op = rmw_of_byte flags, fl_inbounds = (flags AND 8 \<noteq> 0)\<rparr>,
             in_dst = opt_idx dst, in_measure = opt_idx measured, in_operands = operands\<rparr>,
            length ALL_RMW \<le> unat (flags AND 7)), bs)
   }"

definition read_instructions :: "parsed \<Rightarrow> u8 list \<Rightarrow> parsed option" where
  "read_instructions ps payload =
     map_option (\<lambda>rows. (on_tables (\<lambda>st. st\<lparr>st_instrs := st_instrs st @ map fst rows\<rparr>) ps)
         \<lparr>ps_unnamed := ps_unnamed ps \<or> list_ex snd rows\<rparr>)
       (read_rows 20 read_instruction payload)"

definition read_operand :: "library \<Rightarrow> nat \<Rightarrow> u8 list \<Rightarrow> (operand \<times> u8 list) option" where
  "read_operand L i bs = do {
     (tag, bs) \<leftarrow> next_u8 bs;
     (pad, bs) \<leftarrow> read_pad 3 bs;
     (v, bs) \<leftarrow> next_u32 bs;
     (ty, bs) \<leftarrow> next_u32 bs;
     if tag = lib_tag L 0 then Some (from_register (unat v) (unat ty), bs)
     else if tag = lib_tag L 1 then Some (from_function (unat v) (unat ty), bs)
     else if tag = lib_tag L 2 then Some (from_block (unat v) (unat ty), bs)
     else if tag = lib_tag L 3 then Some (from_immutable (unat v) (unat ty), bs)
     else if tag = lib_tag L 4 then Some (from_external_function (unat v) (unat ty), bs)
     else if tag \<noteq> lib_tag L 5 then None
     else Some (invalid_operand\<lparr>opd_type := unat ty\<rparr>, bs)
   }"

definition read_operands :: "library \<Rightarrow> parsed \<Rightarrow> u8 list \<Rightarrow> parsed option" where
  "read_operands L ps payload =
     map_option (\<lambda>rows. on_tables (\<lambda>st. st\<lparr>st_operands := st_operands st @ rows\<rparr>) ps) (read_rows 12 (read_operand L) payload)"

text \<open>The member of the union that the tag of the type names, in eight bytes that were zero before.\<close>

definition loaded_bits :: "(u32 \<Rightarrow> nat) \<Rightarrow> type_tag \<Rightarrow> u32 \<Rightarrow> u64 \<Rightarrow> u64" where
  "loaded_bits sid tag aux v =
     (if tag = TyStr then ucast (of_nat (sid aux) :: u32)
      else if tag = TyI1 then (if v \<noteq> 0 then 1 else 0)
      else if tag = TyI8 then ucast (ucast v :: u8)
      else if tag = TyI16 then ucast (ucast v :: u16)
      else if tag = TyI32 then ucast (ucast v :: u32)
      else if tag = TyI64 then v
      else if tag = TyU8 then ucast (ucast v :: u8)
      else if tag = TyU16 then ucast (ucast v :: u16)
      else if tag = TyU32 then ucast (ucast v :: u32)
      else if tag = TyU64 then v
      else if tag = TyF32 then ucast (ucast v :: u32)
      else if tag = TyF64 then v
      else v)"

definition read_immutable :: "(u32 \<Rightarrow> nat) \<Rightarrow> storage_state \<Rightarrow> nat \<Rightarrow> u8 list \<Rightarrow> (immutable \<times> u8 list) option" where
  "read_immutable sid st i bs = do {
     (ty, bs) \<leftarrow> next_u32 bs;
     (aux, bs) \<leftarrow> next_u32 bs;
     (v, bs) \<leftarrow> next_u64 bs;
     if length (st_types st) \<le> unat ty then None
     else Some (\<lparr>im_type = unat ty, im_bits = loaded_bits sid (tn_tag (st_types st ! unat ty)) aux v\<rparr>, bs)
   }"

definition read_immutables :: "library \<Rightarrow> parsed \<Rightarrow> u8 list \<Rightarrow> parsed option" where
  "read_immutables L ps payload =
     map_option (\<lambda>rows. on_tables (\<lambda>st. st\<lparr>st_immutables := st_immutables st @ rows\<rparr>) ps)
       (read_rows 16 (read_immutable (string_id L ps) (ps_state ps)) payload)"

definition read_external :: "(u32 \<Rightarrow> nat) \<Rightarrow> nat \<Rightarrow> u8 list \<Rightarrow> (external_function \<times> u8 list) option" where
  "read_external sid i bs = do {
     (ret, bs) \<leftarrow> next_u32 bs;
     (params, bs) \<leftarrow> read_range bs;
     (name, bs) \<leftarrow> next_u32 bs;
     (path, bs) \<leftarrow> next_u32 bs;
     (owner, bs) \<leftarrow> next_u32 bs;
     (kind, bs) \<leftarrow> next_u8 bs;
     (cc, bs) \<leftarrow> next_u8 bs;
     (pad, bs) \<leftarrow> read_pad 2 bs;
     (generics, bs) \<leftarrow> read_range bs;
     Some (\<lparr>xf_meta = \<lparr>fm_return_type = unat ret, fm_param_types = params, fm_name = sid name, fm_path = sid path,
              fm_kind = kind_of_byte kind, fm_generics = generics, fm_owner = opt_idx owner\<rparr>,
            xf_conv = conv_of_byte cc\<rparr>, bs)
   }"

definition read_externals :: "library \<Rightarrow> parsed \<Rightarrow> u8 list \<Rightarrow> parsed option" where
  "read_externals L ps payload =
     map_option (\<lambda>rows. on_tables (\<lambda>st. st\<lparr>st_external_functions := st_external_functions st @ rows\<rparr>) ps)
       (read_rows 36 (read_external (string_id L ps)) payload)"

subsection \<open>Side tables\<close>

definition read_file :: "parsed \<Rightarrow> nat \<Rightarrow> u8 list \<Rightarrow> ((bytes \<times> digest128) \<times> u8 list) option" where
  "read_file ps i bs = do {
     (name, bs) \<leftarrow> next_u32 bs;
     (pad, bs) \<leftarrow> next_u32 bs;
     (hash, bs) \<leftarrow> next_digest bs;
     if \<not> names_string ps name then None else Some ((string_text ps name, hash), bs)
   }"

definition read_files :: "parsed \<Rightarrow> u8 list \<Rightarrow> parsed option" where
  "read_files ps payload =
     map_option (\<lambda>rows. ps\<lparr>ps_file_names := ps_file_names ps @ map fst rows, ps_file_hashes := ps_file_hashes ps @ map snd rows\<rparr>)
       (read_rows 24 (read_file ps) payload)"

definition read_const :: "nat \<Rightarrow> u8 list \<Rightarrow> (const_type \<times> u8 list) option" where
  "read_const i bs = do {
     (v, bs) \<leftarrow> next_u64 bs;
     Some (\<lparr>cty_value = v\<rparr>, bs)
   }"

definition read_consts :: "parsed \<Rightarrow> u8 list \<Rightarrow> parsed option" where
  "read_consts ps payload =
     map_option (\<lambda>rows. on_tables (\<lambda>st. st\<lparr>st_const_types := st_const_types st @ rows\<rparr>) ps) (read_rows 8 read_const payload)"

definition read_span :: "parsed \<Rightarrow> nat \<Rightarrow> u8 list \<Rightarrow> (span \<times> u8 list) option" where
  "read_span ps i bs = do {
     (file, bs) \<leftarrow> next_u32 bs;
     (offset, bs) \<leftarrow> next_u32 bs;
     (len, bs) \<leftarrow> next_u32 bs;
     if file \<noteq> NONE \<and> length (ps_file_names ps) \<le> unat file then None
     else Some (\<lparr>span_file = unat file, span_offset = unat offset, span_length = unat len\<rparr>, bs)
   }"

definition read_spans :: "parsed \<Rightarrow> u8 list \<Rightarrow> parsed option" where
  "read_spans ps payload =
     (let count = record_count (length payload) 12 in
      if count = NONE then None
      else if count \<noteq> 0 \<and> unat count \<noteq> length (st_instrs (ps_state ps)) then None
      else map_option (\<lambda>rows. ps\<lparr>ps_spans := ps_spans ps @ rows\<rparr>) (read_rows 12 (read_span ps) payload))"

definition read_addr_name :: "parsed \<Rightarrow> nat \<Rightarrow> u8 list \<Rightarrow> (addr_name \<times> u8 list) option" where
  "read_addr_name ps i bs = do {
     (reg, bs) \<leftarrow> next_u32 bs;
     (name, bs) \<leftarrow> next_u32 bs;
     (flags, bs) \<leftarrow> next_u8 bs;
     (pad, bs) \<leftarrow> read_pad 3 bs;
     if length (st_registers (ps_state ps)) \<le> unat reg then None
     else if \<not> names_string ps name then None
     else Some (\<lparr>an_reg = unat reg, an_name = string_text ps name, an_is_param = (flags AND 1 \<noteq> 0),
                 an_is_capture = (flags AND 2 \<noteq> 0)\<rparr>, bs)
   }"

definition read_addr_names :: "parsed \<Rightarrow> u8 list \<Rightarrow> parsed option" where
  "read_addr_names ps payload =
     map_option (\<lambda>rows. ps\<lparr>ps_addr_names := ps_addr_names ps @ rows\<rparr>) (read_rows 12 (read_addr_name ps) payload)"

definition read_prelude :: "parsed \<Rightarrow> u8 list \<Rightarrow> parsed option" where
  "read_prelude ps payload =
     (if length payload \<noteq> 4 then None
      else map_option (\<lambda>(count, bs). ps\<lparr>ps_prelude := unat count\<rparr>) (next_u32 payload))"

definition read_identity :: "parsed \<Rightarrow> u8 list \<Rightarrow> parsed option" where
  "read_identity ps payload =
     (if length payload \<noteq> 16 then None
      else map_option (\<lambda>(digest, bs). ps\<lparr>ps_identity := digest\<rparr>) (next_digest payload))"

subsection \<open>The summary\<close>

definition is_nominal :: "u8 \<Rightarrow> bool" where
  "is_nominal kind \<longleftrightarrow> kind = summary_byte SumStruct \<or> kind = summary_byte SumEnum"

definition read_summary_row :: "library \<Rightarrow> parsed \<Rightarrow> nat \<Rightarrow> u8 list \<Rightarrow> (summary_entry \<times> u8 list) option" where
  "read_summary_row L ps i bs = do {
     (func, bs) \<leftarrow> next_u32 bs;
     (ty, bs) \<leftarrow> next_u32 bs;
     (name, bs) \<leftarrow> next_u32 bs;
     (path, bs) \<leftarrow> next_u32 bs;
     (symbol, bs) \<leftarrow> next_u32 bs;
     (owner, bs) \<leftarrow> next_u32 bs;
     (kind, bs) \<leftarrow> next_u8 bs;
     (flags, bs) \<leftarrow> next_u8 bs;
     (reserved, bs) \<leftarrow> read_pad 2 bs;
     if \<not> names_string ps name \<or> \<not> names_string ps path \<or> \<not> names_string ps symbol then None
     else if owner \<noteq> NONE \<and> length (st_types (ps_state ps)) \<le> unat owner then None
     else if summary_byte SumEnum < kind then None
     else if func \<noteq> NONE \<and> length (st_functions (ps_state ps)) \<le> unat func then None
     else if ty \<noteq> NONE \<and> length (st_types (ps_state ps)) \<le> unat ty then None
     else if (if is_nominal kind then func \<noteq> NONE else ty \<noteq> NONE) then None
     else Some (\<lparr>se_function = opt_idx func, se_type = opt_idx ty, se_name = string_id L ps name, se_path = string_id L ps path,
                 se_symbol = string_id L ps symbol, se_fields = [], se_owner = opt_idx owner,
                 se_kind = ALL_SUMMARY_KINDS ! unat kind, se_needs_body = (flags AND 1 \<noteq> 0)\<rparr>, bs)
   }"

definition read_run :: "parsed \<Rightarrow> nat \<Rightarrow> u8 list \<Rightarrow> ((nat \<times> nat \<times> nat) \<times> u8 list) option" where
  "read_run ps i bs = do {
     (at, bs) \<leftarrow> next_u32 bs;
     (first, bs) \<leftarrow> next_u32 bs;
     (len, bs) \<leftarrow> next_u32 bs;
     if length (ps_summary ps) \<le> unat at then None else Some ((unat at, unat first, unat len), bs)
   }"

definition read_summary_field :: "library \<Rightarrow> parsed \<Rightarrow> nat \<Rightarrow> u8 list \<Rightarrow> (summary_field \<times> u8 list) option" where
  "read_summary_field L ps i bs = do {
     (name, bs) \<leftarrow> next_u32 bs;
     (flags, bs) \<leftarrow> next_u8 bs;
     (reserved, bs) \<leftarrow> read_pad 3 bs;
     if \<not> names_string ps name then None
     else Some (\<lparr>sf_name = string_id L ps name, sf_is_pub = (flags AND 1 \<noteq> 0)\<rparr>, bs)
   }"

text \<open>The rows borrow their fields from the table of all fields.\<close>

fun apply_runs :: "(nat \<times> nat \<times> nat) list \<Rightarrow> parsed \<Rightarrow> parsed option" where
  "apply_runs [] ps = Some ps"
| "apply_runs ((at, first, count) # runs) ps =
     (if length (ps_summary_fields ps) < first + count then None
      else apply_runs runs (ps\<lparr>ps_summary := (ps_summary ps)
             [at := (ps_summary ps ! at)\<lparr>se_fields := take count (drop first (ps_summary_fields ps))\<rparr>]\<rparr>))"

definition read_summary :: "library \<Rightarrow> parsed \<Rightarrow> u8 list \<Rightarrow> parsed option" where
  "read_summary L ps payload =
     (if length payload < 4 then None
      else do {
        (count, bs) \<leftarrow> next_u32 payload;
        if length payload < 4 + unat count * 28 then None
        else do {
          (entries, bs) \<leftarrow> take_rows (read_summary_row L ps) 0 (unat count) bs;
          let ps1 = ps\<lparr>ps_summary := ps_summary ps @ entries\<rparr>;
          (groups, bs) \<leftarrow> next_u32 bs;
          (runs, bs) \<leftarrow> take_rows (read_run ps1) 0 (unat groups) bs;
          (name_total, bs) \<leftarrow> next_u32 bs;
          (flds, bs) \<leftarrow> take_rows (read_summary_field L ps1) 0 (unat name_total) bs;
          if bs \<noteq> [] then None
          else apply_runs runs (ps1\<lparr>ps_summary_fields := ps_summary_fields ps1 @ flds\<rparr>)
        }
      })"

subsection \<open>Loading a file\<close>

definition read_section :: "library \<Rightarrow> parsed \<Rightarrow> nat \<Rightarrow> u8 list \<Rightarrow> parsed option option" where
  "read_section L ps kind payload =
     (if kind = 1 then read_strings L ps payload
      else Some (
        if kind = 2 then read_types ps payload
        else if kind = 3 then read_structs L ps payload
        else if kind = 4 then read_arrays ps payload
        else if kind = 5 then read_slices ps payload
        else if kind = 6 then read_enums L ps payload
        else if kind = 7 then read_enum_variants L ps payload
        else if kind = 8 then read_refs ps payload
        else if kind = 9 then read_tuples ps payload
        else if kind = 10 then read_funcs ps payload
        else if kind = 11 then read_functions L ps payload
        else if kind = 12 then read_blocks ps payload
        else if kind = 13 then read_block_params ps payload
        else if kind = 14 then read_registers ps payload
        else if kind = 15 then read_instructions ps payload
        else if kind = 16 then read_operands L ps payload
        else if kind = 17 then read_immutables L ps payload
        else if kind = 18 then read_externals L ps payload
        else if kind = 19 then read_files ps payload
        else if kind = 20 then read_spans ps payload
        else if kind = 21 then read_addr_names ps payload
        else if kind = 22 then read_prelude ps payload
        else if kind = 23 then read_consts ps payload
        else if kind = 24 then read_identity ps payload
        else if kind = 25 then read_summary L ps payload
        else Some ps))"

definition MAX_SECTIONS :: nat where
  "MAX_SECTIONS = 32"

definition known_kind :: "u32 \<Rightarrow> bool" where
  "known_kind kind \<longleftrightarrow> 1 \<le> kind \<and> kind \<le> 25"

type_synonym section_ranges = "nat \<Rightarrow> (nat \<times> nat) option"

text \<open>The entries of the section table; a kind this reader does not know is skipped.\<close>

fun read_table :: "nat \<Rightarrow> nat \<Rightarrow> nat \<Rightarrow> section_ranges \<Rightarrow> u8 list \<Rightarrow> (ir_load_error, section_ranges) result" where
  "read_table file_size body_start 0 ranges bs = Inr ranges"
| "read_table file_size body_start (Suc n) ranges bs =
     (case do {
        (kind, bs) \<leftarrow> next_u32 bs;
        (entry_flags, bs) \<leftarrow> next_u32 bs;
        (offset, bs) \<leftarrow> next_u64 bs;
        (sz, bs) \<leftarrow> next_u64 bs;
        Some (kind, offset, sz, bs)
      } of
        None \<Rightarrow> Inl Truncated
      | Some (kind, offset, sz, bs') \<Rightarrow>
          if \<not> known_kind kind then read_table file_size body_start n ranges bs'
          else if ranges (unat kind) \<noteq> None then Inl BadSection
          else if offset mod SECTION_ALIGN \<noteq> 0 \<or> unat offset < body_start \<or> file_size < unat offset \<or> file_size < unat sz
               \<or> file_size - 8 < unat (offset + sz)
          then Inl BadSection
          else read_table file_size body_start n (ranges(unat kind \<mapsto> (unat offset, unat sz))) bs')"

definition disjoint_ranges :: "(nat \<times> nat) option \<Rightarrow> (nat \<times> nat) option \<Rightarrow> bool" where
  "disjoint_ranges a b =
     (case (a, b) of
        (Some (ao, az), Some (bo, bz)) \<Rightarrow> \<not> (ao < bo + bz \<and> bo < ao + az)
      | _ \<Rightarrow> True)"

definition no_overlap :: "section_ranges \<Rightarrow> bool" where
  "no_overlap ranges \<longleftrightarrow>
     list_all (\<lambda>a. list_all (\<lambda>b. disjoint_ranges (ranges a) (ranges b)) [a + 1..<MAX_SECTIONS]) [0..<MAX_SECTIONS]"

fun read_sections :: "library \<Rightarrow> u8 list \<Rightarrow> section_ranges \<Rightarrow> nat list \<Rightarrow> parsed \<Rightarrow> parsed option option" where
  "read_sections L file ranges [] ps = Some (Some ps)"
| "read_sections L file ranges (kind # kinds) ps =
     (case ranges kind of
        None \<Rightarrow> read_sections L file ranges kinds ps
      | Some (offset, sz) \<Rightarrow>
          (case read_section L ps kind (take sz (drop offset file)) of
             None \<Rightarrow> None
           | Some None \<Rightarrow> Some None
           | Some (Some ps') \<Rightarrow> read_sections L file ranges kinds ps'))"

record loaded_ir =
  ld_storage :: storage_state
  ld_strings :: symbol_table
  ld_spans :: "span list"
  ld_file_names :: "bytes list"
  ld_file_hashes :: "digest128 list"
  ld_addr_names :: "addr_name list"
  ld_prelude :: nat
  ld_width :: pointer_width
  ld_version :: bytes
  ld_summary :: "summary_entry list"
  ld_summary_fields :: "summary_field list"
  ld_identity :: digest128

definition assemble :: "storage_state \<Rightarrow> parsed \<Rightarrow> loaded_ir" where
  "assemble st ps =
     \<lparr>ld_storage = st, ld_strings = ps_strings ps, ld_spans = ps_spans ps, ld_file_names = ps_file_names ps,
      ld_file_hashes = ps_file_hashes ps, ld_addr_names = ps_addr_names ps, ld_prelude = ps_prelude ps,
      ld_width = ps_width ps, ld_version = ps_version ps, ld_summary = ps_summary ps,
      ld_summary_fields = ps_summary_fields ps, ld_identity = ps_identity ps\<rparr>"

text \<open>The verifier decides last.  \<^term>\<open>None\<close>: the table of names is full, or a tag no enumerator has was read.\<close>

definition finish_load :: "parsed \<Rightarrow> (ir_load_error, loaded_ir) result option" where
  "finish_load ps =
     (if ps_unnamed ps then None
      else case build (builder_from (ps_state ps)) of
        None \<Rightarrow> None
      | Some (Inl e) \<Rightarrow> Some (Inl Verification)
      | Some (Inr st) \<Rightarrow> Some (Inr (assemble st ps)))"

definition load_body :: "library \<Rightarrow> u8 list \<Rightarrow> parsed \<Rightarrow> u8 list \<Rightarrow> (ir_load_error, loaded_ir) result option" where
  "load_body L file ps bs =
     (case next_u64 bs of
        None \<Rightarrow> Some (Inl Truncated)
      | Some (section_count, bs1) \<Rightarrow>
          if of_nat MAX_SECTIONS < section_count then Some (Inl BadShape)
          else (case read_table (length file) (length file - length bs1) (unat section_count) Map.empty bs1 of
                  Inl e \<Rightarrow> Some (Inl e)
                | Inr ranges \<Rightarrow>
                    if \<not> no_overlap ranges then Some (Inl BadSection)
                    else if \<not> list_all (\<lambda>kind. ranges kind \<noteq> None) [1..<20] then Some (Inl BadSection)
                    else (case read_sections L file ranges [1..<26] ps of
                            None \<Rightarrow> None
                          | Some None \<Rightarrow> Some (Inl BadShape)
                          | Some (Some ps') \<Rightarrow> finish_load ps')))"

definition read_header :: "u8 list \<Rightarrow> ((u16 \<times> u16 \<times> u32 \<times> u32 \<times> u32) \<times> u8 list) option" where
  "read_header bs = do {
     (major, bs) \<leftarrow> next_u16 bs;
     (minor, bs) \<leftarrow> next_u16 bs;
     (flags, bs) \<leftarrow> next_u32 bs;
     (width, bs) \<leftarrow> next_u32 bs;
     (version_len, bs) \<leftarrow> next_u32 bs;
     Some ((major, minor, flags, width, version_len), bs)
   }"

definition load_file :: "library \<Rightarrow> u8 list \<Rightarrow> (ir_load_error, loaded_ir) result option" where
  "load_file L file =
     (if length file < 28 then Some (Inl Truncated)
      else case take_bytes 4 file of
        None \<Rightarrow> Some (Inl Truncated)
      | Some (magic, bs) \<Rightarrow>
          if magic \<noteq> MAGIC then Some (Inl BadMagic)
          else if map_option fst (next_digest (drop (length file - 16) file))
                  \<noteq> Some (hash128 (lib_xxh128 L) (take (length file - 16) file))
          then Some (Inl BadChecksum)
          else (case read_header bs of
                  None \<Rightarrow> Some (Inl Truncated)
                | Some ((major, minor, bits, width, version_len), bs) \<Rightarrow>
                    if major \<noteq> MAJOR then Some (Inl UnsupportedVersion)
                    else if bits AND FLAG_LITTLE_ENDIAN = 0 then Some (Inl BadFlags)
                    else if width \<noteq> 32 \<and> width \<noteq> 64 then Some (Inl BadShape)
                    else (case take_bytes (unat version_len) bs of
                            None \<Rightarrow> Some (Inl Truncated)
                          | Some (version, bs) \<Rightarrow>
                              load_body L file (new_parsed L (if width = 64 then W64 else W32) (byte_chars version)) bs)))"

definition deserialize :: "library \<Rightarrow> u8 list \<Rightarrow> (ir_load_error, loaded_ir) result option" where
  "deserialize L file = load_file L file"

end
