(* ===== verification/Ir_Rows.thy ===== *)
theory Ir_Rows
  imports Ir_Deserialize
begin

text \<open>
  Every row of the binary form reads back.  The locale \<open>row_codec\<close> is the contract between the writer of a table and its
  reader: a row has a fixed width and its bytes, whatever follows them, read as the row's image.  It gives the
  round trip of a whole section once; each table of the format interprets it.
\<close>

named_theorems codec \<open>reads of what was written\<close>

subsection \<open>Values\<close>

lemma next_word_put [codec]:
  "next_u8 (put_u8 b @ rest) = Some (b, rest)"
  "next_u16 (put_u16 h @ rest) = Some (h, rest)"
  "next_u32 (put_u32 w @ rest) = Some (w, rest)"
  "next_u64 (put_u64 d @ rest) = Some (d, rest)"
  using get_put_le [of 2 h "[]"] get_put_le [of 4 w "[]"] get_put_le [of 8 d "[]"]
  by (simp_all add: next_u8_def put_u8_def next_u16_def put_u16_def next_u32_def put_u32_def next_u64_def put_u64_def next_word_def)

lemma take_bytes_append [codec]: "length bs = n \<Longrightarrow> take_bytes n (bs @ rest) = Some (bs, rest)"
  by (simp add: take_bytes_def)

lemma read_pad_zeros [codec]: "read_pad n (zeros n @ rest) = Some (zeros n, rest)"
  by (simp add: read_pad_def take_bytes_append zeros_def)

lemma next_digest_put [codec]: "next_digest (write_digest d @ rest) = Some (d, rest)"
proof -
  have "write_digest d = put_le 8 (dg_low d) @ put_le 8 (dg_high d)"
    by (simp add: write_digest_def digest_bytes_eq put_le_def)
  moreover have "get_le 8 (put_le 8 v) = v" for v :: u64 using get_put_le [of 8 v "[]"] by simp
  ultimately show ?thesis by (simp add: next_digest_def)
qed

definition fits32 :: "nat \<Rightarrow> bool" where
  "fits32 i \<longleftrightarrow> i < 2 ^ 32"

definition opt_fits32 :: "nat option \<Rightarrow> bool" where
  "opt_fits32 i \<longleftrightarrow> (case i of None \<Rightarrow> True | Some j \<Rightarrow> j < 2 ^ 32 - 1)"

definition range_fits32 :: "idx_range \<Rightarrow> bool" where
  "range_fits32 r \<longleftrightarrow> fits32 (rg_head r) \<and> fits32 (rg_size r)"

lemma unat_idx [codec]: "fits32 i \<Longrightarrow> unat (of_nat i :: u32) = i"
  by (simp add: fits32_def unat_of_nat)

lemma unat_NONE: "unat NONE = 2 ^ 32 - 1"
  by (simp add: NONE_def unsigned_minus_1_eq_mask mask_eq_exp_minus_1)

lemma opt_idx_u32 [codec]: "opt_fits32 i \<Longrightarrow> opt_idx (opt_u32 i) = i"
proof (cases i)
  case (Some j)
  assume "opt_fits32 i"
  with Some have j: "j < 2 ^ 32 - 1" by (simp add: opt_fits32_def)
  then have "unat (of_nat j :: u32) = j" by (simp add: unat_of_nat)
  moreover from this j have "(of_nat j :: u32) \<noteq> NONE" using unat_NONE by auto
  ultimately show ?thesis using Some by (simp add: opt_idx_def opt_u32_def)
qed (simp add: opt_idx_def opt_u32_def)

lemma read_range_put [codec]: "range_fits32 r \<Longrightarrow> read_range (write_range r @ rest) = Some (r, rest)"
  by (simp add: read_range_def write_range_def put_idx_def range_fits32_def codec)

lemma length_put [simp]:
  "length (put_u8 b) = 1" "length (put_u16 h) = 2" "length (put_u32 w) = 4" "length (put_u64 d) = 8"
  "length (zeros n) = n" "length (put_idx i) = 4" "length (put_opt o') = 4" "length (write_range r) = 8"
  "length (write_digest g) = 16"
  by (simp_all add: put_u8_def put_u16_def put_u32_def put_u64_def zeros_def put_idx_def put_opt_def write_range_def
      write_digest_def digest_bytes_eq)

subsection \<open>Enumerators\<close>

lemma position_nth: "x \<in> set xs \<Longrightarrow> position xs x < length xs \<and> xs ! position xs x = x"
proof -
  assume x: "x \<in> set xs"
  then have "dropWhile (\<lambda>y. y \<noteq> x) xs \<noteq> []" by (auto simp: dropWhile_eq_Nil_conv)
  moreover have len: "length xs = length (takeWhile (\<lambda>y. y \<noteq> x) xs) + length (dropWhile (\<lambda>y. y \<noteq> x) xs)"
    by (metis length_append takeWhile_dropWhile_id)
  ultimately have "length (takeWhile (\<lambda>y. y \<noteq> x) xs) < length xs" by simp
  then show ?thesis using nth_length_takeWhile [of "\<lambda>y. y \<noteq> x" xs] by (auto simp: position_def)
qed

definition named_opcode :: "opcode \<Rightarrow> bool" where
  "named_opcode op \<longleftrightarrow> (case op of OpUndefined b \<Rightarrow> length ALL_OPCODES \<le> unat b | _ \<Rightarrow> True)"

definition named_kind :: "symbol_kind \<Rightarrow> bool" where
  "named_kind k \<longleftrightarrow> (case k of SkUndefined b \<Rightarrow> 4 \<le> b | _ \<Rightarrow> True)"

definition named_conv :: "calling_convention \<Rightarrow> bool" where
  "named_conv c \<longleftrightarrow> (case c of CcUndefined b \<Rightarrow> b \<noteq> 0 | _ \<Rightarrow> True)"

lemma opcode_byte_back [codec]: "named_opcode op \<Longrightarrow> opcode_of_byte (opcode_byte op) = op"
proof (cases "\<exists>b. op = OpUndefined b")
  case True
  assume "named_opcode op"
  with True show ?thesis by (auto simp: opcode_byte_def opcode_of_byte_def named_opcode_def)
next
  case False
  have mem: "op \<in> set ALL_OPCODES" using False by (cases op) (simp_all add: ALL_OPCODES_def)
  have "length ALL_OPCODES = 58" by (simp add: ALL_OPCODES_def)
  with position_nth [OF mem] have "unat (of_nat (position ALL_OPCODES op) :: u8) = position ALL_OPCODES op"
    by (simp add: unat_of_nat)
  moreover have "opcode_byte op = of_nat (position ALL_OPCODES op)" using False by (cases op) (simp_all add: opcode_byte_def)
  ultimately show ?thesis using position_nth [OF mem] by (simp add: opcode_of_byte_def)
qed

lemma kind_byte_back [codec]: "named_kind k \<Longrightarrow> kind_of_byte (kind_byte k) = k"
  by (cases k) (auto simp: kind_byte_def kind_of_byte_def named_kind_def word_le_nat_alt)

lemma conv_byte_back [codec]: "named_conv c \<Longrightarrow> conv_of_byte (conv_byte c) = c"
  by (cases c) (simp_all add: conv_byte_def conv_of_byte_def named_conv_def)

lemma flags_byte_back [codec]:
  "rmw_of_byte (flags_byte fl) = fl_rmw_op fl" "flags_byte fl AND 8 \<noteq> 0 \<longleftrightarrow> fl_inbounds fl"
  "unat (flags_byte fl AND 7) < length ALL_RMW"
  by (cases "fl_rmw_op fl"; simp add: flags_byte_def rmw_of_byte_def ALL_RMW_def position_def)+

lemma tag_byte [codec]:
  "tag_of_byte (of_nat (tag_number tag)) = tag" "unat (of_nat (tag_number tag) :: u8) = tag_number tag"
  "tag_number tag < length ALL_TAGS"
  by (cases tag; simp add: tag_of_byte_def ALL_TAGS_def)+

lemma summary_byte_back [codec]:
  "ALL_SUMMARY_KINDS ! unat (summary_byte k) = k" "summary_byte k \<le> summary_byte SumEnum"
  "is_nominal (summary_byte k) \<longleftrightarrow> k = SumStruct \<or> k = SumEnum"
  by (cases k; simp add: summary_byte_def ALL_SUMMARY_KINDS_def position_def is_nominal_def)+

subsection \<open>Tables\<close>

text \<open>The rows of a table that fits its section.\<close>

definition table_fits :: "('a \<Rightarrow> bool) \<Rightarrow> 'a list \<Rightarrow> bool" where
  "table_fits P xs \<longleftrightarrow> length xs < 2 ^ 32 - 1 \<and> list_all P xs"

locale row_codec =
  fixes put :: "'a \<Rightarrow> u8 list" and get :: "nat \<Rightarrow> u8 list \<Rightarrow> ('b \<times> u8 list) option" and sz :: nat
    and okay :: "nat \<Rightarrow> 'a \<Rightarrow> bool" and img :: "'a \<Rightarrow> 'b"
  assumes width: "length (put x) = sz"
    and some_bytes: "0 < sz"
    and reads: "okay i x \<Longrightarrow> get i (put x @ rest) = Some (img x, rest)"
begin

lemma take_rows_put:
  "(\<And>k. k < length xs \<Longrightarrow> okay (i + k) (xs ! k)) \<Longrightarrow>
     take_rows get i (length xs) (concat (map put xs) @ rest) = Some (map img xs, rest)"
proof (induction xs arbitrary: i)
  case Nil
  then show ?case by simp
next
  case (Cons x xs)
  have "okay i x" using Cons.prems [of 0] by simp
  moreover have "take_rows get (Suc i) (length xs) (concat (map put xs) @ rest) = Some (map img xs, rest)"
    by (rule Cons.IH) (use Cons.prems [of "Suc k" for k] in auto)
  ultimately show ?case by (simp add: reads)
qed

lemma section_length: "length (rows_section put xs) = 4 + length xs * sz"
proof -
  have "length (concat (map put xs)) = length xs * sz" by (induction xs) (simp_all add: width)
  then show ?thesis by (simp add: rows_section_def)
qed

lemma section_count:
  assumes "length xs < 2 ^ 32 - 1"
  shows "record_count (length (rows_section put xs)) sz = of_nat (length xs)"
    "(of_nat (length xs) :: u32) \<noteq> NONE" "unat (of_nat (length xs) :: u32) = length xs"
proof -
  show n: "unat (of_nat (length xs) :: u32) = length xs" using assms by (simp add: unat_of_nat)
  show "(of_nat (length xs) :: u32) \<noteq> NONE" using n assms unat_NONE by auto
  show "record_count (length (rows_section put xs)) sz = of_nat (length xs)"
    using assms some_bytes by (simp add: record_count_def section_length unat_NONE)
qed

lemma section_reads:
  assumes "length xs < 2 ^ 32 - 1" "\<And>k. k < length xs \<Longrightarrow> okay k (xs ! k)"
  shows "read_rows sz get (rows_section put xs) = Some (map img xs)"
proof -
  have "take_rows get 0 (length xs) (concat (map put xs) @ []) = Some (map img xs, [])"
    by (rule take_rows_put) (use assms(2) in simp)
  then show ?thesis
    using section_count [OF assms(1)]
    by (simp add: read_rows_def Let_def) (simp add: rows_section_def put_idx_def codec)
qed

lemma table_reads:
  assumes "table_fits P xs" "\<And>i x. P x \<Longrightarrow> okay i x"
  shows "read_rows sz get (rows_section put xs) = Some (map img xs)"
  by (rule section_reads) (use assms in \<open>auto simp: table_fits_def list_all_length\<close>)

end

subsection \<open>What a row reads as\<close>

text \<open>
  The tables below say what a package is up to the names, without the writer's or the reader's functions.  A node of a
  type with no parts has no payload; every other node is itself.  Of an immutable, the bits of its type's width are
  its value; the bits above are the unused bytes of the union.
\<close>

definition PLAIN_TAGS :: "type_tag set" where
  "PLAIN_TAGS = {TyVoid, TyI1, TyI8, TyI16, TyI32, TyI64, TyU8, TyU16, TyU32, TyU64, TyF32, TyF64, TyStr, TyPtr, TyFunction,
     TyNever, TyError}"

definition value_width :: "type_tag \<Rightarrow> nat" where
  "value_width tag =
     (case tag of TyI1 \<Rightarrow> 1 | TyI8 \<Rightarrow> 8 | TyU8 \<Rightarrow> 8 | TyI16 \<Rightarrow> 16 | TyU16 \<Rightarrow> 16 | TyI32 \<Rightarrow> 32 | TyU32 \<Rightarrow> 32 | TyF32 \<Rightarrow> 32
      | _ \<Rightarrow> 64)"

definition reload_node :: "type_node \<Rightarrow> type_node" where
  "reload_node n = (if tn_tag n \<in> PLAIN_TAGS then n\<lparr>tn_data := 0\<rparr> else n)"

lemma payload_reads:
  assumes "fits32 (tn_data n)"
  shows "loaded_payload (tn_tag n) (type_payload n) = tn_data (reload_node n)"
  using assms
  by (cases "tn_tag n") (simp_all add: loaded_payload_def type_payload_def carries_payload_def reload_node_def PLAIN_TAGS_def codec)

lemma narrow_wide [simp]:
  "(ucast (ucast (a :: u8) :: u64) :: u8) = a" "(ucast (ucast (b :: u16) :: u64) :: u16) = b"
  "(ucast (ucast (c :: u32) :: u64) :: u32) = c"
  by (rule bit_word_eqI; simp add: bit_simps)+

lemma wide_narrow:
  "(ucast (ucast (x :: u64) :: u8) :: u64) = take_bit 8 x" "(ucast (ucast x :: u16) :: u64) = take_bit 16 x"
  "(ucast (ucast x :: u32) :: u64) = take_bit 32 x"
  by (rule bit_word_eqI; auto simp: bit_simps)+

lemma value_reads:
  assumes "tag \<noteq> TyStr"
  shows "loaded_bits sid tag 0 (immutable_value tag im) = take_bit (value_width tag) (im_bits im)"
proof (cases tag)
  case TyI1
  have "take_bit 1 (im_bits im) = of_bool (odd (im_bits im))" "im_bits im AND 1 = of_bool (odd (im_bits im))"
    by (simp_all add: and_one_eq mod_2_eq_odd take_bit_eq_mod)
  then show ?thesis by (simp only: TyI1) (simp add: loaded_bits_def immutable_value_def value_width_def)
qed (use assms in \<open>simp_all add: loaded_bits_def immutable_value_def value_width_def wide_narrow take_bit_word_eq_self\<close>)

definition rename_meta :: "(nat \<Rightarrow> nat) \<Rightarrow> function_meta \<Rightarrow> function_meta" where
  "rename_meta \<rho> m = m\<lparr>fm_name := \<rho> (fm_name m), fm_path := \<rho> (fm_path m)\<rparr>"

text \<open>A string immutable is the id of its text, in the low half of the union.\<close>

definition text_id :: "immutable \<Rightarrow> nat" where
  "text_id im = unat (take_bit 32 (im_bits im))"

lemma text_id_written [simp]: "str_id_value im = text_id im"
  by (simp add: str_id_value_def text_id_def unsigned_ucast_eq unsigned_take_bit_eq)

definition reload_immutable :: "(nat \<Rightarrow> nat) \<Rightarrow> storage_state \<Rightarrow> immutable \<Rightarrow> immutable" where
  "reload_immutable \<rho> st im = im\<lparr>im_bits :=
     (if tn_tag (st_types st ! im_type im) = TyStr then ucast (of_nat (\<rho> (text_id im)) :: u32)
      else take_bit (value_width (tn_tag (st_types st ! im_type im))) (im_bits im))\<rparr>"

definition meta_fits :: "function_meta \<Rightarrow> bool" where
  "meta_fits m \<longleftrightarrow> fits32 (fm_return_type m) \<and> range_fits32 (fm_param_types m) \<and> range_fits32 (fm_generics m)
     \<and> opt_fits32 (fm_owner m) \<and> named_kind (fm_kind m)"

definition type_okay :: "nat \<Rightarrow> type_node \<Rightarrow> bool" where
  "type_okay i n \<longleftrightarrow> fits32 (tn_data n) \<and> (i < PRIMITIVE_TYPE_COUNT \<longrightarrow> tag_number (tn_tag n) = i)
     \<and> (i = PRIMITIVE_TYPE_COUNT \<longrightarrow> tn_tag n = TyFunction)"

definition instr_fits :: "instruction \<Rightarrow> bool" where
  "instr_fits i \<longleftrightarrow> named_opcode (in_op i) \<and> opt_fits32 (in_dst i) \<and> opt_fits32 (in_measure i) \<and> range_fits32 (in_operands i)"

definition tags_distinct :: "library \<Rightarrow> bool" where
  "tags_distinct L \<longleftrightarrow> distinct (map (lib_tag L) [0..<6])"

definition operand_fits :: "operand \<Rightarrow> bool" where
  "operand_fits opd \<longleftrightarrow> fits32 (operand_payload (opd_data opd)) \<and> fits32 (opd_type opd)"

definition span_okay :: "nat \<Rightarrow> span \<Rightarrow> bool" where
  "span_okay files sp \<longleftrightarrow> fits32 (span_file sp) \<and> fits32 (span_offset sp) \<and> fits32 (span_length sp)
     \<and> (span_file sp = 2 ^ 32 - 1 \<or> span_file sp < files)"

subsection \<open>The tables of the format\<close>

interpretation type_rows: row_codec type_row read_type 8 type_okay "\<lambda>n. (reload_node n, False)"
  by unfold_locales
    (auto simp: type_row_def read_type_def type_okay_def payload_reads reload_node_def codec linorder_not_le)

interpretation struct_rows: row_codec "struct_row six" "read_struct sid" 20
  "\<lambda>i s. range_fits32 (sty_fields s) \<and> range_fits32 (sty_params s)" "\<lambda>s. s\<lparr>sty_name := sid (six (sty_name s))\<rparr>" for six sid
  by unfold_locales (simp_all add: struct_row_def read_struct_def codec)

interpretation array_rows: row_codec array_row read_array 16 "\<lambda>i a. fits32 (aty_element a)" "\<lambda>a. a"
  by unfold_locales (simp_all add: array_row_def read_array_def put_idx_def codec)

interpretation slice_rows: row_codec slice_row read_slice 4 "\<lambda>i s. fits32 (lty_element s)" "\<lambda>s. s"
  by unfold_locales (simp_all add: slice_row_def read_slice_def put_idx_def codec)

interpretation enum_rows: row_codec "enum_row six" "read_enum sid" 20
  "\<lambda>i e. range_fits32 (ety_variants e) \<and> range_fits32 (ety_params e)" "\<lambda>e. e\<lparr>ety_name := sid (six (ety_name e))\<rparr>" for six sid
  by unfold_locales (simp_all add: enum_row_def read_enum_def codec)

interpretation variant_rows: row_codec "enum_variant_row six" "read_enum_variant sid" 12
  "\<lambda>i v. range_fits32 (ev_fields v)" "\<lambda>v. v\<lparr>ev_name := sid (six (ev_name v))\<rparr>" for six sid
  by unfold_locales (simp_all add: enum_variant_row_def read_enum_variant_def codec)

interpretation ref_rows: row_codec ref_row read_ref 4 "\<lambda>i r. fits32 (rty_pointee r)" "\<lambda>r. r"
  by unfold_locales (simp_all add: ref_row_def read_ref_def put_idx_def codec)

interpretation tuple_rows: row_codec tuple_row read_tuple 8 "\<lambda>i t. range_fits32 (tty_elements t)" "\<lambda>t. t"
  by unfold_locales (simp_all add: tuple_row_def read_tuple_def codec)

interpretation func_rows: row_codec func_row read_func 12 "\<lambda>i f. fits32 (fty_ret f) \<and> range_fits32 (fty_params f)" "\<lambda>f. f"
  by unfold_locales (simp_all add: func_row_def read_func_def put_idx_def codec)

interpretation function_rows: row_codec "function_row six" "read_function sid" 44
  "\<lambda>i f. meta_fits (fn_meta f) \<and> range_fits32 (fn_blocks f)" "\<lambda>f. f\<lparr>fn_meta := rename_meta (\<lambda>n. sid (six n)) (fn_meta f)\<rparr>" for six sid
  by unfold_locales
    (simp_all add: function_row_def meta_start_def read_function_def put_idx_def put_opt_def meta_fits_def rename_meta_def codec)

interpretation block_rows: row_codec block_row read_block 16 "\<lambda>i b. range_fits32 (bl_instrs b) \<and> range_fits32 (bl_params b)" "\<lambda>b. b"
  by unfold_locales (simp_all add: block_row_def read_block_def codec)

interpretation block_param_rows: row_codec block_param_row read_block_param 8
  "\<lambda>i p. fits32 (bp_type p) \<and> fits32 (bp_reg p)" "\<lambda>p. p"
  by unfold_locales (simp_all add: block_param_row_def read_block_param_def put_idx_def codec)

interpretation register_rows: row_codec register_row read_register 8
  "\<lambda>i r. fits32 (rg_type r) \<and> opt_fits32 (rg_def r)" "\<lambda>r. r"
  by unfold_locales (simp_all add: register_row_def read_register_def put_idx_def put_opt_def codec)

interpretation instruction_rows: row_codec instruction_row read_instruction 20 "\<lambda>i ins. instr_fits ins" "\<lambda>ins. (ins, False)"
  by unfold_locales
    (simp_all add: instruction_row_def read_instruction_def put_opt_def instr_fits_def codec linorder_not_le)

interpretation operand_rows: row_codec "operand_row L" "read_operand L" 12 "\<lambda>i opd. tags_distinct L \<and> operand_fits opd" "\<lambda>opd. opd" for L
proof unfold_locales
  fix i :: nat and opd :: operand and rest
  assume ok: "tags_distinct L \<and> operand_fits opd"
  have "[0..<6] = [0, 1, 2, 3, 4, 5 :: nat]" by (simp add: upt_rec)
  with ok have d: "distinct [lib_tag L 0, lib_tag L 1, lib_tag L 2, lib_tag L 3, lib_tag L 4, lib_tag L 5]"
    by (simp add: tags_distinct_def)
  show "read_operand L i (operand_row L opd @ rest) = Some (opd, rest)"
    using ok d by (cases opd; cases "opd_data opd")
      (auto simp: operand_row_def read_operand_def put_idx_def codec operand_fits_def operand_alternative_def operand_payload_def
        from_register_def from_function_def from_block_def from_immutable_def from_external_function_def invalid_operand_def)
qed (simp_all add: operand_row_def)

interpretation immutable_rows: row_codec "immutable_row six st" "read_immutable sid st'" 16
  "\<lambda>i im. fits32 (im_type im) \<and> im_type im < length (st_types st')
     \<and> tn_tag (st_types st' ! im_type im) = tn_tag (st_types st ! im_type im)"
  "reload_immutable (\<lambda>n. sid (six n)) st" for six sid st st'
proof unfold_locales
  fix i :: nat and im :: immutable and rest
  assume ok: "fits32 (im_type im) \<and> im_type im < length (st_types st')
     \<and> tn_tag (st_types st' ! im_type im) = tn_tag (st_types st ! im_type im)"
  let ?tag = "tn_tag (st_types st ! im_type im)"
  have bits: "loaded_bits sid ?tag (if is_str st im then six (str_id_value im) else 0) (if is_str st im then 0 else immutable_value ?tag im)
      = im_bits (reload_immutable (\<lambda>n. sid (six n)) st im)"
    using value_reads [where tag = ?tag and sid = sid and im = im] by (cases "?tag = TyStr") (simp_all add: reload_immutable_def is_str_def loaded_bits_def)
  show "read_immutable sid st' i (immutable_row six st im @ rest) = Some (reload_immutable (\<lambda>n. sid (six n)) st im, rest)"
    using ok bits by (simp add: read_immutable_def immutable_row_def put_idx_def codec) (simp add: reload_immutable_def)
qed (simp_all add: immutable_row_def)

interpretation external_rows: row_codec "external_row six" "read_external sid" 36
  "\<lambda>i f. meta_fits (xf_meta f) \<and> named_conv (xf_conv f)" "\<lambda>f. f\<lparr>xf_meta := rename_meta (\<lambda>n. sid (six n)) (xf_meta f)\<rparr>" for six sid
  by unfold_locales
    (simp_all add: external_row_def meta_start_def read_external_def put_idx_def put_opt_def meta_fits_def rename_meta_def codec)

interpretation file_rows: row_codec "file_row s files" "read_file ps" 24
  "\<lambda>i k. names_string ps (find_name s (ft_names files ! k))"
  "\<lambda>k. (string_text ps (find_name s (ft_names files ! k)), hash_of files k)" for s files ps
  by unfold_locales (simp_all add: file_row_def read_file_def codec)

interpretation const_rows: row_codec const_row read_const 8 "\<lambda>i k. True" "\<lambda>k. k"
  by unfold_locales (simp_all add: const_row_def read_const_def codec)

interpretation span_rows: row_codec span_row "read_span ps" 12 "\<lambda>i. span_okay (length (ps_file_names ps))" "\<lambda>sp. sp" for ps
proof unfold_locales
  fix i :: nat and sp :: span and rest
  assume ok: "span_okay (length (ps_file_names ps)) sp"
  then have "unat (of_nat (span_file sp) :: u32) = span_file sp" by (simp add: span_okay_def codec)
  then have "\<not> ((of_nat (span_file sp) :: u32) \<noteq> NONE \<and> length (ps_file_names ps) \<le> span_file sp)"
    using ok unat_NONE by (auto simp: span_okay_def word_eq_iff_unsigned [where 'a = nat])
  then show "read_span ps i (span_row sp @ rest) = Some (sp, rest)"
    using ok by (simp add: read_span_def span_row_def put_idx_def codec span_okay_def)
qed (simp_all add: span_row_def)

interpretation addr_rows: row_codec "addr_name_row s" "read_addr_name ps" 12
  "\<lambda>i a. fits32 (an_reg a) \<and> an_reg a < length (st_registers (ps_state ps)) \<and> names_string ps (find_name s (an_name a))"
  "\<lambda>a. a\<lparr>an_name := string_text ps (find_name s (an_name a))\<rparr>" for s ps
  by unfold_locales (simp_all add: addr_name_row_def read_addr_name_def put_idx_def codec)

end
