(* ===== verification/Ir_Strings.thy ===== *)
theory Ir_Strings
  imports Ir_Rows
begin

text \<open>
  The string table of a binary IR file: every name that a package uses is collected once, and after the reader has
  interned the table, the index a row was written with gives the text the writer's id stood for.
\<close>

subsection \<open>The strings a file carries\<close>

lemma position_append:
  "b \<in> set xs \<Longrightarrow> position (xs @ ys) b = position xs b" "b \<notin> set xs \<Longrightarrow> position (xs @ [b]) b = length xs"
  by (simp_all add: position_def takeWhile_append1) (metis (mono_tags, lifting) takeWhile_append2 takeWhile.simps append_Nil2)

definition index_in :: "bytes list \<Rightarrow> bytes \<Rightarrow> u32 option" where
  "index_in names b = (if b \<in> set names then Some (of_nat (position names b)) else None)"

lemma index_in_snoc: "b \<notin> set names \<Longrightarrow> index_in (names @ [b]) = (index_in names)(b \<mapsto> of_nat (length names))"
  by (auto simp: index_in_def position_append fun_eq_iff)

definition ser_inv :: "symbol_table \<Rightarrow> serializer \<Rightarrow> bool" where
  "ser_inv strings s \<longleftrightarrow> distinct (sr_names s) \<and> sr_name_index s = index_in (sr_names s)
     \<and> (\<forall>i j. sr_pool_index s i = Some j \<longrightarrow> sr_name_index s (sym_get strings i) = Some j)"

lemma new_serializer_inv: "ser_inv strings new_serializer"
  by (simp add: ser_inv_def new_serializer_def index_in_def fun_eq_iff)

lemma add_name_ok:
  assumes inv: "ser_inv strings s" and add: "add_name b s = (i, s')"
  shows "ser_inv strings s' \<and> set (sr_names s') = insert b (set (sr_names s)) \<and> sr_name_index s' b = Some i
     \<and> sr_pool_index s' = sr_pool_index s"
proof (cases "sr_name_index s b")
  case (Some k)
  then have "b \<in> set (sr_names s)" using inv by (auto simp: ser_inv_def index_in_def split: if_splits)
  moreover have "s' = s" "i = k" using add Some by (simp_all add: add_name_def)
  ultimately show ?thesis using inv Some by (simp add: insert_absorb)
next
  case None
  then have new: "b \<notin> set (sr_names s)" using inv by (auto simp: ser_inv_def index_in_def split: if_splits)
  have s': "s' = s\<lparr>sr_names := sr_names s @ [b], sr_name_index := (sr_name_index s)(b \<mapsto> of_nat (length (sr_names s)))\<rparr>"
    "i = of_nat (length (sr_names s))" using add None by (auto simp: add_name_def Let_def)
  have pool: "\<forall>k j. sr_pool_index s' k = Some j \<longrightarrow> sr_name_index s' (sym_get strings k) = Some j"
    using inv None by (auto simp: ser_inv_def s'(1))
  have "distinct (sr_names s')" "sr_name_index s' = index_in (sr_names s')"
    using inv new by (simp_all add: ser_inv_def s' index_in_snoc)
  then have "ser_inv strings s'" using pool unfolding ser_inv_def by blast
  then show ?thesis by (simp add: s')
qed

lemma add_pool_id_ok:
  assumes "ser_inv strings s"
  shows "ser_inv strings (add_pool_id strings i s) \<and> sr_pool_index (add_pool_id strings i s) i \<noteq> None
     \<and> (\<forall>k. sr_pool_index s k \<noteq> None \<longrightarrow> sr_pool_index (add_pool_id strings i s) k \<noteq> None)"
proof -
  obtain j s1 where a: "add_name (sym_get strings i) s = (j, s1)" by fastforce
  from add_name_ok [OF assms a] have s1: "ser_inv strings s1" "sr_name_index s1 (sym_get strings i) = Some j"
    "sr_pool_index s1 = sr_pool_index s" by auto
  have "ser_inv strings (s1\<lparr>sr_pool_index := (sr_pool_index s1)(i \<mapsto> j)\<rparr>)"
    using s1(1,2) unfolding ser_inv_def by auto
  then show ?thesis using s1 by (simp add: add_pool_id_def a)
qed

lemma fold_pool_ok:
  assumes "ser_inv strings s"
  shows "ser_inv strings (fold (add_pool_id strings) ids s)
     \<and> (\<forall>k. k \<in> set ids \<or> sr_pool_index s k \<noteq> None \<longrightarrow> sr_pool_index (fold (add_pool_id strings) ids s) k \<noteq> None)"
  using assms
proof (induction ids arbitrary: s)
  case (Cons i ids)
  show ?case using Cons.IH [of "add_pool_id strings i s"] add_pool_id_ok [OF Cons.prems, of i] by auto
qed simp

lemma fold_names_ok:
  assumes "ser_inv strings s"
  shows "ser_inv strings (fold (\<lambda>x s. snd (add_name (f x) s)) xs s)
     \<and> set (sr_names (fold (\<lambda>x s. snd (add_name (f x) s)) xs s)) = set (sr_names s) \<union> f ` set xs
     \<and> sr_pool_index (fold (\<lambda>x s. snd (add_name (f x) s)) xs s) = sr_pool_index s"
  using assms
proof (induction xs arbitrary: s)
  case (Cons x xs)
  obtain j s1 where a: "add_name (f x) s = (j, s1)" by fastforce
  show ?case using Cons.IH [of s1] add_name_ok [OF Cons.prems a] by (simp add: a)
qed simp

lemma collect_strings_ok:
  fixes w :: write_input and L :: library
  defines "s \<equiv> collect_strings L w"
  shows "ser_inv (wi_strings w) s"
    "i \<in> set (collected_ids L (wi_storage w) (wi_summary w)) \<Longrightarrow> sr_pool_index s i \<noteq> None"
    "a \<in> set (wi_addr_names w) \<Longrightarrow> an_name a \<in> set (sr_names s)"
    "set (ft_names (wi_files w)) \<subseteq> set (sr_names s)"
proof -
  let ?ids = "remdups_adj (sort (collected_ids L (wi_storage w) (wi_summary w)))"
  let ?s1 = "fold (add_pool_id (wi_strings w)) ?ids new_serializer"
  let ?s2 = "fold (\<lambda>a s. snd (add_name (an_name a) s)) (wi_addr_names w) ?s1"
  have s: "s = fold (\<lambda>f s. snd (add_name f s)) (ft_names (wi_files w)) ?s2" by (simp add: s_def collect_strings_def Let_def)
  note 1 = fold_pool_ok [OF new_serializer_inv, of "wi_strings w" ?ids]
  note 2 = fold_names_ok [OF 1 [THEN conjunct1], of an_name "wi_addr_names w"]
  note 3 = fold_names_ok [OF 2 [THEN conjunct1], of "\<lambda>f. f" "ft_names (wi_files w)"]
  show "ser_inv (wi_strings w) s" using 3 by (simp add: s)
  show "i \<in> set (collected_ids L (wi_storage w) (wi_summary w)) \<Longrightarrow> sr_pool_index s i \<noteq> None" using 1 2 3 by (simp add: s)
  show "a \<in> set (wi_addr_names w) \<Longrightarrow> an_name a \<in> set (sr_names s)" using 2 3 by (simp add: s)
  show "set (ft_names (wi_files w)) \<subseteq> set (sr_names s)" using 3 by (simp add: s)
qed

subsection \<open>Reading the strings\<close>

definition string_row :: "bytes \<Rightarrow> u8 list" where
  "string_row n = put_idx (length n) @ char_bytes n"

lemma read_string_rows_put:
  assumes "table_inv (lib_xxh3 L) (ps_strings ps)" "\<forall>n \<in> set ns. fits32 (length n)"
    "name_count (ps_strings ps) + length ns \<le> sy_max_names (ps_strings ps)"
  shows "\<exists>t. read_string_rows L (length ns) ps (concat (map string_row ns) @ rest)
       = Some (Some (ps\<lparr>ps_strings := t, ps_string_ids := ps_string_ids ps @ map (\<lambda>n. the (name_index t n)) ns\<rparr>, rest))
     \<and> table_inv (lib_xxh3 L) t \<and> continues (ps_strings ps) t \<and> (\<forall>n \<in> set ns. name_index t n \<noteq> None)"
  using assms
proof (induction ns arbitrary: ps)
  case Nil
  then show ?case by (intro exI [of _ "ps_strings ps"]) simp
next
  case (Cons n ns)
  have "name_count (ps_strings ps) < sy_max_names (ps_strings ps)" using Cons.prems(3) by simp
  from intern_room [OF Cons.prems(1) this, of n True] obtain i t1 where
    t1: "intern_copied (lib_xxh3 L) n (ps_strings ps) = Some (Some i, t1)" "table_inv (lib_xxh3 L) t1"
      "continues (ps_strings ps) t1" "name_index t1 n = Some i" "name_count t1 \<le> Suc (name_count (ps_strings ps))"
    by (auto simp: intern_copied_def)
  let ?ps = "ps\<lparr>ps_strings := t1, ps_string_ids := ps_string_ids ps @ [i]\<rparr>"
  have "sy_max_names t1 = sy_max_names (ps_strings ps)" using t1(3) by (simp add: continues_def)
  with Cons.IH [of ?ps] Cons.prems t1 obtain t where
    t: "read_string_rows L (length ns) ?ps (concat (map string_row ns) @ rest)
       = Some (Some (?ps\<lparr>ps_strings := t, ps_string_ids := ps_string_ids ?ps @ map (\<lambda>n. the (name_index t n)) ns\<rparr>, rest))"
      "table_inv (lib_xxh3 L) t" "continues t1 t" "\<forall>n \<in> set ns. name_index t n \<noteq> None" by auto
  have n: "name_index t n = Some i" by (rule continues_index [OF t1(2) t(2,3) t1(4)])
  have "read_string_rows L (length (n # ns)) ps (concat (map string_row (n # ns)) @ rest)
      = read_string_rows L (length ns) ?ps (concat (map string_row ns) @ rest)"
    using t1(1) Cons.prems(2) by (simp add: string_row_def put_idx_def codec)
  also have "\<dots> = Some (Some (ps\<lparr>ps_strings := t, ps_string_ids := ps_string_ids ps @ map (\<lambda>n. the (name_index t n)) (n # ns)\<rparr>, rest))"
    using t(1) n by simp
  finally show ?case using t(2,4) n continues_trans [OF t1(3) t(3)] by (intro exI [of _ t]) simp
qed

lemma strings_section_row: "strings_section s = rows_section string_row (sr_names s)"
  by (simp add: strings_section_def string_row_def [abs_def])

lemma read_strings_put:
  assumes "table_inv (lib_xxh3 L) (ps_strings ps)" "\<forall>n \<in> set (sr_names s). fits32 (length n)" "length (sr_names s) < 2 ^ 32"
    "name_count (ps_strings ps) + length (sr_names s) \<le> sy_max_names (ps_strings ps)" "ps_string_ids ps = []"
  shows "\<exists>t. read_strings L ps (strings_section s)
       = Some (Some (ps\<lparr>ps_strings := t, ps_string_ids := map (\<lambda>n. the (name_index t n)) (sr_names s)\<rparr>))
     \<and> table_inv (lib_xxh3 L) t \<and> (\<forall>n \<in> set (sr_names s). name_index t n \<noteq> None)"
proof -
  from read_string_rows_put [OF assms(1,2,4), of "[]"] obtain t where
    t: "read_string_rows L (length (sr_names s)) ps (concat (map string_row (sr_names s)))
       = Some (Some (ps\<lparr>ps_strings := t, ps_string_ids := map (\<lambda>n. the (name_index t n)) (sr_names s)\<rparr>, []))"
      "table_inv (lib_xxh3 L) t" "\<forall>n \<in> set (sr_names s). name_index t n \<noteq> None" using assms(5) by auto
  have "4 * length ns \<le> length (concat (map string_row ns))" for ns by (induction ns) (simp_all add: string_row_def)
  then have "\<not> (length (strings_section s) - 4) div 4 < length (sr_names s)"
    by (simp add: strings_section_row rows_section_def) (metis div_le_mono nonzero_mult_div_cancel_left not_le zero_neq_numeral)
  moreover have "unat (of_nat (length (sr_names s)) :: u32) = length (sr_names s)" using assms(3) by (simp add: unat_of_nat)
  moreover have "next_u32 (strings_section s) = Some (of_nat (length (sr_names s)), concat (map string_row (sr_names s)))"
    by (simp add: strings_section_row rows_section_def put_idx_def codec)
  ultimately show ?thesis using t by (intro exI [of _ t]) (simp add: read_strings_def)
qed

subsection \<open>Names read back\<close>

text \<open>What a reader holds after it has interned the strings the writer collected.\<close>

definition strings_loaded :: "library \<Rightarrow> serializer \<Rightarrow> parsed \<Rightarrow> bool" where
  "strings_loaded L s ps \<longleftrightarrow> table_inv (lib_xxh3 L) (ps_strings ps) \<and> length (sr_names s) < 2 ^ 32 - 1
     \<and> (\<forall>n \<in> set (sr_names s). name_index (ps_strings ps) n \<noteq> None)
     \<and> ps_string_ids ps = map (\<lambda>n. the (name_index (ps_strings ps) n)) (sr_names s)"

lemma collected_name_back:
  assumes s: "ser_inv strings s" "strings_loaded L s ps" and b: "sr_name_index s b = Some j"
  shows "j \<noteq> NONE" "unat j < length (ps_string_ids ps)" "name_index (ps_strings ps) b = Some (ps_string_ids ps ! unat j)"
    "sym_get (ps_strings ps) (ps_string_ids ps ! unat j) = b"
proof -
  have mem: "b \<in> set (sr_names s)" "j = of_nat (position (sr_names s) b)"
    using s(1) b by (auto simp: ser_inv_def index_in_def split: if_splits)
  note at = position_nth [OF mem(1)]
  have len: "length (sr_names s) < 2 ^ 32 - 1" using s(2) by (simp add: strings_loaded_def)
  then have j: "unat j = position (sr_names s) b" using at by (simp add: mem(2) unat_of_nat)
  then show "j \<noteq> NONE" using at len unat_NONE by auto
  show "unat j < length (ps_string_ids ps)" using s(2) at j by (simp add: strings_loaded_def)
  have "ps_string_ids ps ! unat j = the (name_index (ps_strings ps) b)" using s(2) at j by (simp add: strings_loaded_def)
  moreover have "name_index (ps_strings ps) b \<noteq> None" using s(2) mem(1) by (simp add: strings_loaded_def)
  ultimately show idx: "name_index (ps_strings ps) b = Some (ps_string_ids ps ! unat j)" by auto
  have "table_inv (lib_xxh3 L) (ps_strings ps)" using s(2) by (simp add: strings_loaded_def)
  then show "sym_get (ps_strings ps) (ps_string_ids ps ! unat j) = b" using idx by (simp add: sym_get_index)
qed

lemma text_back:
  assumes "ser_inv strings s" "strings_loaded L s ps" "b \<in> set (sr_names s)"
  shows "names_string ps (find_name s b)" "string_text ps (find_name s b) = b"
proof -
  obtain j where j: "sr_name_index s b = Some j" using assms(1,3) by (simp add: ser_inv_def index_in_def)
  note c = collected_name_back [OF assms(1,2) j]
  show "names_string ps (find_name s b)" using c(2) by (simp add: find_name_def j names_string_def)
  show "string_text ps (find_name s b) = b" using c(1,4) by (simp add: find_name_def j string_text_def)
qed

text \<open>The id a row reads for the id it was written with.\<close>

definition new_id :: "library \<Rightarrow> serializer \<Rightarrow> parsed \<Rightarrow> nat \<Rightarrow> nat" where
  "new_id L s ps i = string_id L ps (string_index L s i)"

lemma id_back:
  assumes "ser_inv strings s" "strings_loaded L s ps" "i \<noteq> lib_invalid_id L" "sr_pool_index s i \<noteq> None"
  shows "names_string ps (string_index L s i)" "name_index (ps_strings ps) (sym_get strings i) = Some (new_id L s ps i)"
    "sym_get (ps_strings ps) (new_id L s ps i) = sym_get strings i"
proof -
  obtain j where j: "sr_pool_index s i = Some j" using assms(4) by blast
  then have "sr_name_index s (sym_get strings i) = Some j" using assms(1) unfolding ser_inv_def by blast
  note c = collected_name_back [OF assms(1,2) this]
  have x: "string_index L s i = j" using assms(3) j by (simp add: string_index_def)
  have n: "new_id L s ps i = ps_string_ids ps ! unat j" using c(1,2) by (simp add: new_id_def x string_id_def)
  show "names_string ps (string_index L s i)" using c(2) by (simp add: x names_string_def)
  show "name_index (ps_strings ps) (sym_get strings i) = Some (new_id L s ps i)" using c(3) n by simp
  show "sym_get (ps_strings ps) (new_id L s ps i) = sym_get strings i" using c(4) n by simp
qed

lemma invalid_back:
  "new_id L s ps (lib_invalid_id L) = lib_invalid_id L" "names_string ps (string_index L s (lib_invalid_id L))"
  by (simp_all add: new_id_def string_index_def string_id_def names_string_def)

end
