(* ===== verification/Ir_Reload.thy ===== *)
theory Ir_Reload
  imports Ir_Strings
begin

text \<open>
  What a storage is after it was written and read back: its names under new ids, the payload of a type that has none
  set to zero, an immutable cut to the width of its type.  The verifier does not see the difference.
\<close>

definition reload :: "(nat \<Rightarrow> nat) \<Rightarrow> storage_state \<Rightarrow> storage_state" where
  "reload \<rho> st =
     \<lparr>st_functions = map (\<lambda>f. f\<lparr>fn_meta := rename_meta \<rho> (fn_meta f)\<rparr>) (st_functions st),
      st_blocks = st_blocks st, st_block_params = st_block_params st, st_instrs = st_instrs st,
      st_immutables = map (reload_immutable \<rho> st) (st_immutables st),
      st_registers = st_registers st,
      st_external_functions = map (\<lambda>f. f\<lparr>xf_meta := rename_meta \<rho> (xf_meta f)\<rparr>) (st_external_functions st),
      st_operands = st_operands st, st_types = map reload_node (st_types st),
      st_struct_types = map (\<lambda>s. s\<lparr>sty_name := \<rho> (sty_name s)\<rparr>) (st_struct_types st),
      st_array_types = st_array_types st, st_slice_types = st_slice_types st,
      st_enum_types = map (\<lambda>e. e\<lparr>ety_name := \<rho> (ety_name e)\<rparr>) (st_enum_types st),
      st_enum_variant_types = map (\<lambda>v. v\<lparr>ev_name := \<rho> (ev_name v)\<rparr>) (st_enum_variant_types st),
      st_ref_types = st_ref_types st, st_tuple_types = st_tuple_types st, st_func_types = st_func_types st,
      st_const_types = st_const_types st\<rparr>"

lemma reload_tables [simp]:
  "st_blocks (reload \<rho> st) = st_blocks st" "st_block_params (reload \<rho> st) = st_block_params st"
  "st_instrs (reload \<rho> st) = st_instrs st" "st_registers (reload \<rho> st) = st_registers st"
  "st_operands (reload \<rho> st) = st_operands st" "st_array_types (reload \<rho> st) = st_array_types st"
  "st_slice_types (reload \<rho> st) = st_slice_types st" "st_tuple_types (reload \<rho> st) = st_tuple_types st"
  "st_func_types (reload \<rho> st) = st_func_types st"
  "length (st_types (reload \<rho> st)) = length (st_types st)" "length (st_immutables (reload \<rho> st)) = length (st_immutables st)"
  "length (st_functions (reload \<rho> st)) = length (st_functions st)"
  "length (st_external_functions (reload \<rho> st)) = length (st_external_functions st)"
  "length (st_struct_types (reload \<rho> st)) = length (st_struct_types st)"
  "length (st_enum_types (reload \<rho> st)) = length (st_enum_types st)"
  "length (st_enum_variant_types (reload \<rho> st)) = length (st_enum_variant_types st)"
  "st_types (reload \<rho> st) = map reload_node (st_types st)"
  by (simp_all add: reload_def)

lemma reload_renamed:
  "st_functions (reload \<rho> st) = map (\<lambda>f. f\<lparr>fn_meta := rename_meta \<rho> (fn_meta f)\<rparr>) (st_functions st)"
  "st_external_functions (reload \<rho> st) = map (\<lambda>f. f\<lparr>xf_meta := rename_meta \<rho> (xf_meta f)\<rparr>) (st_external_functions st)"
  "st_immutables (reload \<rho> st) = map (reload_immutable \<rho> st) (st_immutables st)"
  by (simp_all add: reload_def)

lemma reload_node_tag [simp]: "tn_tag (reload_node n) = tn_tag n"
  by (simp add: reload_node_def)

lemma reload_node_data: "tn_tag n \<notin> PLAIN_TAGS \<Longrightarrow> reload_node n = n"
  by (simp add: reload_node_def)

lemma reload_type_wf:
  assumes "type_wf st n"
  shows "type_wf (reload \<rho> st) (reload_node n)"
proof (cases "tn_tag n \<notin> PLAIN_TAGS")
  case True
  have v: "v < length (st_enum_variant_types st)"
    if "v \<in> set (range_list r)" "range_in_bounds r (length (st_enum_variant_types st))" for v r
    using that range_less by blast
  show ?thesis using assms v unfolding type_wf_def Let_def reload_node_data [OF True]
    by (auto simp: reload_def)
next
  case False
  then show ?thesis by (auto simp: type_wf_def Let_def PLAIN_TAGS_def)
qed

lemma reload_block_regs [simp]: "block_regs (reload \<rho> st) = block_regs st"
  by (simp add: block_regs_def fun_eq_iff)

lemma reload_storage_regs [simp]: "storage_regs (reload \<rho> st) = storage_regs st"
  by (simp add: storage_regs_def)

lemma reload_meta_wf: "meta_wf st m \<Longrightarrow> meta_wf (reload \<rho> st) (rename_meta \<rho> m)"
  by (simp add: meta_wf_def rename_meta_def)

lemma reload_operand_wf [simp]: "operand_wf (reload \<rho> st) opd = operand_wf st opd"
  by (simp add: operand_wf_def split: operand_data.splits)

lemma reload_operand_wf_all [simp]: "operand_wf (reload \<rho> st) = operand_wf st"
  by (simp add: fun_eq_iff)

lemma reload_tag_of: "operand_wf st opd \<Longrightarrow> type_tag_of (reload \<rho> st) opd = type_tag_of st opd"
  by (simp add: type_tag_of_def operand_wf_def)

lemma reload_target [simp]: "target_params (reload \<rho> st) opd = target_params st opd"
  by (simp add: target_params_def split: operand_data.splits)

lemma reload_cases [simp]: "cases_wf (reload \<rho> st) opds = cases_wf st opds"
  by (induction st opds rule: cases_wf.induct) simp_all

lemma reload_callee:
  assumes "operand_wf st opd" "\<forall>r \<in> set (st_registers st). rg_type r < length (st_types st)"
  shows "callee_params (reload \<rho> st) opd = callee_params st opd"
proof (cases "opd_data opd")
  case (OpdRegister r)
  then have "rg_type (st_registers st ! r) < length (st_types st)" using assms by (simp add: operand_wf_def)
  then show ?thesis using OpdRegister by (simp add: callee_params_def reload_node_def Let_def PLAIN_TAGS_def)
next
  case (OpdFunction f)
  then show ?thesis using assms by (simp add: callee_params_def operand_wf_def reload_def rename_meta_def)
next
  case (OpdExternal f)
  then show ?thesis using assms by (simp add: callee_params_def operand_wf_def reload_def rename_meta_def)
qed (simp_all add: callee_params_def)

lemma reload_shape:
  assumes "list_all (operand_wf st) opds" "\<forall>r \<in> set (st_registers st). rg_type r < length (st_types st)"
  shows "shape_wf (reload \<rho> st) i opds = shape_wf st i opds"
proof -
  have t: "opd \<in> set opds \<Longrightarrow> type_tag_of (reload \<rho> st) opd = type_tag_of st opd"
    and c: "opd \<in> set opds \<Longrightarrow> callee_params (reload \<rho> st) opd = callee_params st opd" for opd
    using assms reload_tag_of reload_callee by (auto simp: list_all_iff)
  show ?thesis using t c unfolding shape_wf_def
    by (cases "shape_of (in_op i)"; simp; (auto simp: list_all_iff)?)
qed

lemma reload_block_wf:
  assumes "block_wf st b" "\<forall>r \<in> set (st_registers st). rg_type r < length (st_types st)"
  shows "block_wf (reload \<rho> st) b"
proof -
  have "instr_wf st i \<Longrightarrow> instr_wf (reload \<rho> st) i" for i
    using reload_shape [OF _ assms(2)] by (auto simp: instr_wf_def Let_def)
  then show ?thesis using assms(1) by (simp add: block_wf_def Let_def)
qed

lemma reload_wf:
  assumes "storage_wf st"
  shows "storage_wf (reload \<rho> st)"
proof -
  have r: "\<forall>r \<in> set (st_registers st). rg_type r < length (st_types st)" using assms by (simp add: storage_wf_def)
  show ?thesis using assms reload_type_wf reload_block_wf [OF _ r]
    unfolding storage_wf_def by (auto simp: reload_renamed function_wf_def external_wf_def block_bounds_def reload_meta_wf reload_immutable_def)
qed

end
