(* ===== verification/Ir_Summary_Rows.thy ===== *)
theory Ir_Summary_Rows
  imports Ir_Rows
begin

text \<open>
  The summary section reads back: its rows, the runs that say which row has fields, and the fields themselves, which a
  run lends to its row.
\<close>

definition rename_field :: "(nat \<Rightarrow> nat) \<Rightarrow> summary_field \<Rightarrow> summary_field" where
  "rename_field \<rho> f = f\<lparr>sf_name := \<rho> (sf_name f)\<rparr>"

definition bare_entry :: "(nat \<Rightarrow> nat) \<Rightarrow> summary_entry \<Rightarrow> summary_entry" where
  "bare_entry \<rho> e = e\<lparr>se_name := \<rho> (se_name e), se_path := \<rho> (se_path e), se_symbol := \<rho> (se_symbol e), se_fields := []\<rparr>"

definition rename_entry :: "(nat \<Rightarrow> nat) \<Rightarrow> summary_entry \<Rightarrow> summary_entry" where
  "rename_entry \<rho> e = (bare_entry \<rho> e)\<lparr>se_fields := map (rename_field \<rho>) (se_fields e)\<rparr>"

text \<open>What the reader asks of an entry: names it can find, rows that exist, and a type or a function by its kind.\<close>

definition entry_fits :: "storage_state \<Rightarrow> summary_entry \<Rightarrow> bool" where
  "entry_fits st e \<longleftrightarrow> opt_fits32 (se_function e) \<and> opt_fits32 (se_type e) \<and> opt_fits32 (se_owner e)
     \<and> (\<forall>f. se_function e = Some f \<longrightarrow> f < length (st_functions st)) \<and> (\<forall>t. se_type e = Some t \<longrightarrow> t < length (st_types st))
     \<and> (\<forall>t. se_owner e = Some t \<longrightarrow> t < length (st_types st))
     \<and> (if se_kind e = SumStruct \<or> se_kind e = SumEnum then se_function e = None else se_type e = None)"

definition entry_names :: "parsed \<Rightarrow> (nat \<Rightarrow> u32) \<Rightarrow> summary_entry \<Rightarrow> bool" where
  "entry_names ps six e \<longleftrightarrow> names_string ps (six (se_name e)) \<and> names_string ps (six (se_path e)) \<and> names_string ps (six (se_symbol e))"

lemma opt_u32_NONE: "opt_fits32 i \<Longrightarrow> opt_u32 i = NONE \<longleftrightarrow> i = None"
  by (metis opt_idx_u32 opt_idx_def option.distinct(1))

lemma unat_opt_u32: "opt_fits32 (Some j) \<Longrightarrow> unat (opt_u32 (Some j)) = j"
  by (metis opt_idx_u32 opt_idx_def option.distinct(1) option.inject)

interpretation summary_rows: row_codec "summary_row six" "read_summary_row L ps" 28
  "\<lambda>i e. entry_fits (ps_state ps) e \<and> entry_names ps six e" "bare_entry (\<lambda>n. string_id L ps (six n))" for six L ps
proof unfold_locales
  fix i :: nat and e rest
  assume ok: "entry_fits (ps_state ps) e \<and> entry_names ps six e"
  have o: "opt_fits32 (se_function e)" "opt_fits32 (se_type e)" "opt_fits32 (se_owner e)" using ok by (simp_all add: entry_fits_def)
  have b: "\<not> (opt_u32 v \<noteq> NONE \<and> n \<le> unat (opt_u32 v))" if "opt_fits32 v" "\<forall>j. v = Some j \<longrightarrow> j < n" for v n
    using that unat_opt_u32 by (cases v) (auto simp: opt_u32_NONE)
  have f: "\<not> (opt_u32 (se_owner e) \<noteq> NONE \<and> length (st_types (ps_state ps)) \<le> unat (opt_u32 (se_owner e)))"
    "\<not> (opt_u32 (se_function e) \<noteq> NONE \<and> length (st_functions (ps_state ps)) \<le> unat (opt_u32 (se_function e)))"
    "\<not> (opt_u32 (se_type e) \<noteq> NONE \<and> length (st_types (ps_state ps)) \<le> unat (opt_u32 (se_type e)))"
    using ok by (intro b; simp add: entry_fits_def)+
  have k: "\<not> (if is_nominal (summary_byte (se_kind e)) then opt_u32 (se_function e) \<noteq> NONE else opt_u32 (se_type e) \<noteq> NONE)"
    using ok o by (auto simp: entry_fits_def summary_byte_back opt_u32_NONE)
  have n: "names_string ps (six (se_name e))" "names_string ps (six (se_path e))" "names_string ps (six (se_symbol e))"
    using ok by (simp_all add: entry_names_def)
  have s: "\<not> summary_byte SumEnum < summary_byte (se_kind e)" using summary_byte_back(2) [of "se_kind e"] by simp
  show "read_summary_row L ps i (summary_row six e @ rest) = Some (bare_entry (\<lambda>n. string_id L ps (six n)) e, rest)"
    using o by (simp add: read_summary_row_def summary_row_def put_opt_def codec f k n s del: not_less summary_byte_back(3)) (simp add: bare_entry_def)
qed (simp_all add: summary_row_def)

interpretation run_rows: row_codec put_run "read_run ps" 12 "\<lambda>i r. unat (fst r) < length (ps_summary ps)"
  "\<lambda>(at, first, count). (unat at, unat first, unat count)" for ps
  by unfold_locales (auto simp: put_run_def read_run_def codec split: prod.splits)

interpretation field_rows: row_codec "summary_field_row six" "read_summary_field L ps" 8 "\<lambda>i f. names_string ps (six (sf_name f))"
  "rename_field (\<lambda>n. string_id L ps (six n))" for six L ps
  by unfold_locales (simp_all add: summary_field_row_def read_summary_field_def codec rename_field_def)

subsection \<open>Runs lend the fields\<close>

definition all_fields :: "summary_entry list \<Rightarrow> summary_field list" where
  "all_fields es = concat (map se_fields es)"

lemma all_fields_simps [simp]:
  "all_fields [] = []" "all_fields (e # es) = se_fields e @ all_fields es" "all_fields (ds @ es) = all_fields ds @ all_fields es"
  by (simp_all add: all_fields_def)

definition unat_run :: "u32 \<times> u32 \<times> u32 \<Rightarrow> nat \<times> nat \<times> nat" where
  "unat_run r = (case r of (at, first, count) \<Rightarrow> (unat at, unat first, unat count))"

lemma bare_no_fields: "se_fields e = [] \<Longrightarrow> bare_entry \<rho> e = rename_entry \<rho> e"
  by (simp add: rename_entry_def bare_entry_def)

lemma field_runs_at:
  "i + length es < 2 ^ 32 \<Longrightarrow> r \<in> set (field_runs i first es) \<Longrightarrow> unat (fst r) < i + length es"
proof (induction i first es rule: field_runs.induct)
  case (2 i first e es)
  then show ?case by (auto simp: unat_of_nat split: if_splits)
qed simp

lemma apply_field_runs:
  assumes "ps_summary ps = map (rename_entry \<rho>) ds @ map (bare_entry \<rho>) es"
    "ps_summary_fields ps = map (rename_field \<rho>) (all_fields (ds @ es))"
    "length ds + length es < 2 ^ 32" "length (all_fields (ds @ es)) < 2 ^ 32"
  shows "apply_runs (map unat_run (field_runs (length ds) (of_nat (length (all_fields ds))) es)) ps
       = Some (ps\<lparr>ps_summary := map (rename_entry \<rho>) (ds @ es)\<rparr>)"
  using assms
proof (induction es arbitrary: ds ps)
  case Nil
  then show ?case by simp
next
  case (Cons e es)
  show ?case
  proof (cases "se_fields e = []")
    case True
    then show ?thesis using Cons.IH [of ps "ds @ [e]"] Cons.prems by (simp add: bare_no_fields)
  next
    case False
    let ?ps = "ps\<lparr>ps_summary := map (rename_entry \<rho>) (ds @ [e]) @ map (bare_entry \<rho>) es\<rparr>"
    have u: "unat (of_nat (length ds) :: u32) = length ds" "unat (of_nat (length (all_fields ds)) :: u32) = length (all_fields ds)"
      "unat (of_nat (length (se_fields e)) :: u32) = length (se_fields e)" using Cons.prems by (simp_all add: unat_of_nat)
    have "(ps_summary ps)[length ds := (ps_summary ps ! length ds)\<lparr>se_fields := map (rename_field \<rho>) (se_fields e)\<rparr>]
        = map (rename_entry \<rho>) (ds @ [e]) @ map (bare_entry \<rho>) es"
      using Cons.prems(1) by (simp add: list_update_append nth_append rename_entry_def)
    moreover have "take (length (se_fields e)) (drop (length (all_fields ds)) (ps_summary_fields ps)) = map (rename_field \<rho>) (se_fields e)"
      using Cons.prems(2) by simp
    moreover have "\<not> length (ps_summary_fields ps) < length (all_fields ds) + length (se_fields e)" using Cons.prems(2) by simp
    ultimately have "apply_runs (map unat_run (field_runs (length ds) (of_nat (length (all_fields ds))) (e # es))) ps
        = apply_runs (map unat_run (field_runs (length (ds @ [e])) (of_nat (length (all_fields (ds @ [e])))) es)) ?ps"
      using False u by (simp add: unat_run_def)
    also have "\<dots> = Some (?ps\<lparr>ps_summary := map (rename_entry \<rho>) ((ds @ [e]) @ es)\<rparr>)"
      by (rule Cons.IH) (use Cons.prems in simp_all)
    finally show ?thesis by simp
  qed
qed

lemma length_field_runs: "length (field_runs i first es) = length (filter (\<lambda>e. se_fields e \<noteq> []) es)"
  by (induction i first es rule: field_runs.induct) simp_all

subsection \<open>The whole section\<close>

definition summary_fits :: "storage_state \<Rightarrow> summary_entry list \<Rightarrow> bool" where
  "summary_fits st es \<longleftrightarrow> length es < 2 ^ 32 \<and> length (all_fields es) < 2 ^ 32 \<and> list_all (entry_fits st) es"

definition summary_named :: "parsed \<Rightarrow> (nat \<Rightarrow> u32) \<Rightarrow> summary_entry list \<Rightarrow> bool" where
  "summary_named ps six es \<longleftrightarrow> list_all (entry_names ps six) es \<and> list_all (\<lambda>f. names_string ps (six (sf_name f))) (all_fields es)"

lemma read_summary_put:
  assumes fits: "summary_fits (ps_state ps) es" "summary_named ps six es" and ps: "ps_summary ps = []" "ps_summary_fields ps = []"
  shows "read_summary L ps (summary_section six es) =
    Some (ps\<lparr>ps_summary := map (rename_entry (\<lambda>n. string_id L ps (six n))) es,
             ps_summary_fields := map (rename_field (\<lambda>n. string_id L ps (six n))) (all_fields es)\<rparr>)"
proof -
  let ?\<rho> = "\<lambda>n. string_id L ps (six n)"
  let ?runs = "field_runs 0 0 es" and ?n = "length (filter (\<lambda>e. se_fields e \<noteq> []) es)"
  let ?ps1 = "ps\<lparr>ps_summary := ps_summary ps @ map (bare_entry ?\<rho>) es\<rparr>"
  let ?ps2 = "?ps1\<lparr>ps_summary_fields := ps_summary_fields ?ps1 @ map (rename_field ?\<rho>) (all_fields es)\<rparr>"
  have few: "?n < 2 ^ 32" using length_filter_le [of "\<lambda>e. se_fields e \<noteq> []" es] fits(1) unfolding summary_fits_def by linarith
  have u: "unat (of_nat (length es) :: u32) = length es" "unat (of_nat (length (all_fields es)) :: u32) = length (all_fields es)"
    "unat (of_nat ?n :: u32) = ?n" using fits(1) few by (simp_all add: summary_fits_def unat_of_nat)
  let ?fields = "concat (map (summary_field_row six) (all_fields es))"
  let ?third = "put_idx (length (all_fields es)) @ ?fields"
  let ?second = "put_idx ?n @ concat (map put_run ?runs) @ ?third"
  have sum: "sum_list (map (\<lambda>e. length (se_fields e)) es) = length (all_fields es)"
    by (simp add: all_fields_def length_concat comp_def)
  have flat: "concat (map (\<lambda>e. concat (map (summary_field_row six) (se_fields e))) es) = ?fields"
    by (induction es) simp_all
  have payload: "summary_section six es = put_idx (length es) @ concat (map (summary_row six) es) @ ?second"
    by (simp add: summary_section_def rows_section_def sum flat)
  have rows: "take_rows (read_summary_row L ps) 0 (length es) (concat (map (summary_row six) es) @ ?second)
      = Some (map (bare_entry ?\<rho>) es, ?second)"
    by (rule summary_rows.take_rows_put) (use fits in \<open>simp add: summary_fits_def summary_named_def list_all_length\<close>)
  have runs: "take_rows (read_run ?ps1) 0 ?n (concat (map put_run ?runs) @ ?third) = Some (map unat_run ?runs, ?third)"
  proof -
    have "unat (fst (?runs ! k)) < length (ps_summary ?ps1)" if "k < length ?runs" for k
      using field_runs_at [of 0 es "?runs ! k" 0] nth_mem [OF that] fits(1) by (simp add: summary_fits_def)
    then have "take_rows (read_run ?ps1) 0 (length ?runs) (concat (map put_run ?runs) @ ?third)
        = Some (map (\<lambda>(at, first, count). (unat at, unat first, unat count)) ?runs, ?third)"
      by (intro run_rows.take_rows_put) simp
    then show ?thesis by (simp add: length_field_runs unat_run_def [abs_def])
  qed
  have fields: "take_rows (read_summary_field L ?ps1) 0 (length (all_fields es)) (?fields @ []) = Some (map (rename_field ?\<rho>) (all_fields es), [])"
  proof -
    have "string_id L ?ps1 = string_id L ps" "names_string ?ps1 = names_string ps"
      by (simp_all add: string_id_def names_string_def fun_eq_iff)
    then show ?thesis using field_rows.take_rows_put [where xs = "all_fields es" and ps = ?ps1 and six = six and i = 0 and L = L and rest = "[]"] fits(2)
      by (simp add: summary_named_def list_all_length)
  qed
  have lend: "apply_runs (map unat_run ?runs) ?ps2 = Some (?ps2\<lparr>ps_summary := map (rename_entry ?\<rho>) es\<rparr>)"
    using apply_field_runs [of ?ps2 ?\<rho> "[]" es] fits(1) ps by (simp add: summary_fits_def)
  have len: "length (concat (map (summary_row six) es)) = length es * 28"
    using summary_rows.section_length [of six es] by (simp add: rows_section_def)
  show ?thesis
    using u rows runs fields lend ps
    by (simp add: read_summary_def payload len put_idx_def codec)
qed

end
