(* ===== verification/Ir_Sections.thy ===== *)
theory Ir_Sections
  imports Ir_Reload Ir_Summary_Rows
begin

text \<open>
  Section by section, what the reader makes of the sections the writer wrote: after the section of kind \<open>k\<close> the tables
  are those of the reloaded storage up to that kind.  Each step is the table's instance of \<open>row_codec\<close>.
\<close>

definition loaded :: "(nat \<Rightarrow> nat) \<Rightarrow> storage_state \<Rightarrow> nat \<Rightarrow> storage_state" where
  "loaded \<rho> st k =
     \<lparr>st_functions = (if k < 11 then [] else st_functions (reload \<rho> st)),
      st_blocks = (if k < 12 then [] else st_blocks (reload \<rho> st)),
      st_block_params = (if k < 13 then [] else st_block_params (reload \<rho> st)),
      st_instrs = (if k < 15 then [] else st_instrs (reload \<rho> st)),
      st_immutables = (if k < 17 then [] else st_immutables (reload \<rho> st)),
      st_registers = (if k < 14 then [] else st_registers (reload \<rho> st)),
      st_external_functions = (if k < 18 then [] else st_external_functions (reload \<rho> st)),
      st_operands = (if k < 16 then [] else st_operands (reload \<rho> st)),
      st_types = (if k < 2 then [] else st_types (reload \<rho> st)),
      st_struct_types = (if k < 3 then [] else st_struct_types (reload \<rho> st)),
      st_array_types = (if k < 4 then [] else st_array_types (reload \<rho> st)),
      st_slice_types = (if k < 5 then [] else st_slice_types (reload \<rho> st)),
      st_enum_types = (if k < 6 then [] else st_enum_types (reload \<rho> st)),
      st_enum_variant_types = (if k < 7 then [] else st_enum_variant_types (reload \<rho> st)),
      st_ref_types = (if k < 8 then [] else st_ref_types (reload \<rho> st)),
      st_tuple_types = (if k < 9 then [] else st_tuple_types (reload \<rho> st)),
      st_func_types = (if k < 10 then [] else st_func_types (reload \<rho> st)),
      st_const_types = (if k < 23 then [] else st_const_types (reload \<rho> st))\<rparr>"

lemma loaded_none: "loaded \<rho> st 1 = empty_state"
  by (simp add: loaded_def empty_state_def Let_def)

lemma loaded_all: "loaded \<rho> st 23 = reload \<rho> st"
  by (simp add: loaded_def reload_def Let_def)

lemma loaded_no_consts: "st_const_types st = [] \<Longrightarrow> loaded \<rho> st 18 = reload \<rho> st"
  by (simp add: loaded_def reload_def Let_def)

lemma loaded_before_consts: "loaded \<rho> st 22 = loaded \<rho> st 18"
  by (simp add: loaded_def Let_def)

lemma string_id_state [simp]: "string_id L (ps\<lparr>ps_state := st\<rparr>) = string_id L ps"
  by (simp add: string_id_def fun_eq_iff)

subsection \<open>Bounds of the format\<close>

text \<open>Indices, counts and the numbers of enumerators fit the fields they are written to.\<close>

definition types_fit :: "type_node list \<Rightarrow> bool" where
  "types_fit ts \<longleftrightarrow> PRIMITIVE_TYPE_COUNT < length ts \<and> length ts < 2 ^ 32 - 1
     \<and> list_all (\<lambda>i. type_okay i (ts ! i)) [0..<length ts]"

definition type_tables_fit :: "storage_state \<Rightarrow> bool" where
  "type_tables_fit st \<longleftrightarrow> types_fit (st_types st)
     \<and> table_fits (\<lambda>s. range_fits32 (sty_fields s) \<and> range_fits32 (sty_params s)) (st_struct_types st)
     \<and> table_fits (\<lambda>a. fits32 (aty_element a)) (st_array_types st)
     \<and> table_fits (\<lambda>s. fits32 (lty_element s)) (st_slice_types st)
     \<and> table_fits (\<lambda>e. range_fits32 (ety_variants e) \<and> range_fits32 (ety_params e)) (st_enum_types st)
     \<and> table_fits (\<lambda>v. range_fits32 (ev_fields v)) (st_enum_variant_types st)
     \<and> table_fits (\<lambda>r. fits32 (rty_pointee r)) (st_ref_types st)
     \<and> table_fits (\<lambda>t. range_fits32 (tty_elements t)) (st_tuple_types st)
     \<and> table_fits (\<lambda>f. fits32 (fty_ret f) \<and> range_fits32 (fty_params f)) (st_func_types st)
     \<and> table_fits (\<lambda>c. True) (st_const_types st)"

definition code_tables_fit :: "storage_state \<Rightarrow> bool" where
  "code_tables_fit st \<longleftrightarrow>
     table_fits (\<lambda>f. meta_fits (fn_meta f) \<and> range_fits32 (fn_blocks f)) (st_functions st)
     \<and> table_fits (\<lambda>b. range_fits32 (bl_instrs b) \<and> range_fits32 (bl_params b)) (st_blocks st)
     \<and> table_fits (\<lambda>p. fits32 (bp_type p) \<and> fits32 (bp_reg p)) (st_block_params st)
     \<and> table_fits (\<lambda>r. fits32 (rg_type r) \<and> opt_fits32 (rg_def r)) (st_registers st)
     \<and> table_fits instr_fits (st_instrs st) \<and> table_fits operand_fits (st_operands st)
     \<and> table_fits (\<lambda>im. im_type im < length (st_types st)) (st_immutables st)
     \<and> table_fits (\<lambda>f. meta_fits (xf_meta f) \<and> named_conv (xf_conv f)) (st_external_functions st)"

subsection \<open>The tables of types\<close>

lemma types_step:
  assumes "type_tables_fit st" "ps_state ps = loaded \<rho> st 1" "\<not> ps_unnamed ps"
  shows "read_types ps (types_section st) = Some (ps\<lparr>ps_state := loaded \<rho> st 2\<rparr>)"
proof -
  have f: "PRIMITIVE_TYPE_COUNT < length (st_types st)" "length (st_types st) < 2 ^ 32 - 1"
    "k < length (st_types st) \<Longrightarrow> type_okay k (st_types st ! k)" for k
    using assms(1) by (auto simp: type_tables_fit_def types_fit_def list_all_iff)
  have rows: "read_rows 8 read_type (types_section st) = Some (map (\<lambda>n. (reload_node n, False)) (st_types st))"
    unfolding types_section_def by (rule type_rows.section_reads) (use f in auto)
  note n = type_rows.section_count [OF f(2)]
  have "\<not> list_ex snd (map (\<lambda>n. (reload_node n, False)) (st_types st))" by (simp add: list_ex_iff)
  then show ?thesis using rows n f(1) assms(2,3)
    by (simp add: read_types_def types_section_def Let_def on_tables_def loaded_def reload_def comp_def)
qed

lemma structs_step:
  assumes "type_tables_fit st" "ps_state ps = loaded \<rho> st 2" "\<And>n. string_id L ps (six n) = \<rho> n"
  shows "read_structs L ps (structs_section six st) = Some (ps\<lparr>ps_state := loaded \<rho> st 3\<rparr>)"
  using assms struct_rows.table_reads [of "\<lambda>s. range_fits32 (sty_fields s) \<and> range_fits32 (sty_params s)" "st_struct_types st"]
  by (simp add: type_tables_fit_def read_structs_def structs_section_def on_tables_def loaded_def reload_def)

lemma arrays_step:
  assumes "type_tables_fit st" "ps_state ps = loaded \<rho> st 3"
  shows "read_arrays ps (arrays_section st) = Some (ps\<lparr>ps_state := loaded \<rho> st 4\<rparr>)"
  using assms array_rows.table_reads [of "\<lambda>a. fits32 (aty_element a)" "st_array_types st"]
  by (simp add: type_tables_fit_def read_arrays_def arrays_section_def on_tables_def loaded_def reload_def)

lemma slices_step:
  assumes "type_tables_fit st" "ps_state ps = loaded \<rho> st 4"
  shows "read_slices ps (slices_section st) = Some (ps\<lparr>ps_state := loaded \<rho> st 5\<rparr>)"
  using assms slice_rows.table_reads [of "\<lambda>s. fits32 (lty_element s)" "st_slice_types st"]
  by (simp add: type_tables_fit_def read_slices_def slices_section_def on_tables_def loaded_def reload_def)

lemma enums_step:
  assumes "type_tables_fit st" "ps_state ps = loaded \<rho> st 5" "\<And>n. string_id L ps (six n) = \<rho> n"
  shows "read_enums L ps (enums_section six st) = Some (ps\<lparr>ps_state := loaded \<rho> st 6\<rparr>)"
  using assms enum_rows.table_reads [of "\<lambda>e. range_fits32 (ety_variants e) \<and> range_fits32 (ety_params e)" "st_enum_types st"]
  by (simp add: type_tables_fit_def read_enums_def enums_section_def on_tables_def loaded_def reload_def)

lemma variants_step:
  assumes "type_tables_fit st" "ps_state ps = loaded \<rho> st 6" "\<And>n. string_id L ps (six n) = \<rho> n"
  shows "read_enum_variants L ps (enum_variants_section six st) = Some (ps\<lparr>ps_state := loaded \<rho> st 7\<rparr>)"
  using assms variant_rows.table_reads [of "\<lambda>v. range_fits32 (ev_fields v)" "st_enum_variant_types st"]
  by (simp add: type_tables_fit_def read_enum_variants_def enum_variants_section_def on_tables_def loaded_def reload_def)

lemma refs_step:
  assumes "type_tables_fit st" "ps_state ps = loaded \<rho> st 7"
  shows "read_refs ps (refs_section st) = Some (ps\<lparr>ps_state := loaded \<rho> st 8\<rparr>)"
  using assms ref_rows.table_reads [of "\<lambda>r. fits32 (rty_pointee r)" "st_ref_types st"]
  by (simp add: type_tables_fit_def read_refs_def refs_section_def on_tables_def loaded_def reload_def)

lemma tuples_step:
  assumes "type_tables_fit st" "ps_state ps = loaded \<rho> st 8"
  shows "read_tuples ps (tuples_section st) = Some (ps\<lparr>ps_state := loaded \<rho> st 9\<rparr>)"
  using assms tuple_rows.table_reads [of "\<lambda>t. range_fits32 (tty_elements t)" "st_tuple_types st"]
  by (simp add: type_tables_fit_def read_tuples_def tuples_section_def on_tables_def loaded_def reload_def)

lemma funcs_step:
  assumes "type_tables_fit st" "ps_state ps = loaded \<rho> st 9"
  shows "read_funcs ps (funcs_section st) = Some (ps\<lparr>ps_state := loaded \<rho> st 10\<rparr>)"
  using assms func_rows.table_reads [of "\<lambda>f. fits32 (fty_ret f) \<and> range_fits32 (fty_params f)" "st_func_types st"]
  by (simp add: type_tables_fit_def read_funcs_def funcs_section_def on_tables_def loaded_def reload_def)

lemma consts_step:
  assumes "type_tables_fit st" "ps_state ps = loaded \<rho> st 22"
  shows "read_consts ps (consts_section st) = Some (ps\<lparr>ps_state := loaded \<rho> st 23\<rparr>)"
  using assms const_rows.table_reads [of "\<lambda>c. True" "st_const_types st"]
  by (simp add: type_tables_fit_def read_consts_def consts_section_def on_tables_def loaded_def reload_def)

subsection \<open>The tables of code\<close>

lemma functions_step:
  assumes "code_tables_fit st" "ps_state ps = loaded \<rho> st 10" "\<And>n. string_id L ps (six n) = \<rho> n"
  shows "read_functions L ps (functions_section six st) = Some (ps\<lparr>ps_state := loaded \<rho> st 11\<rparr>)"
  using assms function_rows.table_reads [of "\<lambda>f. meta_fits (fn_meta f) \<and> range_fits32 (fn_blocks f)" "st_functions st"]
  by (simp add: code_tables_fit_def read_functions_def functions_section_def on_tables_def loaded_def reload_def rename_meta_def)

lemma blocks_step:
  assumes "code_tables_fit st" "ps_state ps = loaded \<rho> st 11"
  shows "read_blocks ps (blocks_section st) = Some (ps\<lparr>ps_state := loaded \<rho> st 12\<rparr>)"
  using assms block_rows.table_reads [of "\<lambda>b. range_fits32 (bl_instrs b) \<and> range_fits32 (bl_params b)" "st_blocks st"]
  by (simp add: code_tables_fit_def read_blocks_def blocks_section_def on_tables_def loaded_def reload_def)

lemma block_params_step:
  assumes "code_tables_fit st" "ps_state ps = loaded \<rho> st 12"
  shows "read_block_params ps (block_params_section st) = Some (ps\<lparr>ps_state := loaded \<rho> st 13\<rparr>)"
  using assms block_param_rows.table_reads [of "\<lambda>p. fits32 (bp_type p) \<and> fits32 (bp_reg p)" "st_block_params st"]
  by (simp add: code_tables_fit_def read_block_params_def block_params_section_def on_tables_def loaded_def reload_def)

lemma registers_step:
  assumes "code_tables_fit st" "ps_state ps = loaded \<rho> st 13"
  shows "read_registers ps (registers_section st) = Some (ps\<lparr>ps_state := loaded \<rho> st 14\<rparr>)"
  using assms register_rows.table_reads [of "\<lambda>r. fits32 (rg_type r) \<and> opt_fits32 (rg_def r)" "st_registers st"]
  by (simp add: code_tables_fit_def read_registers_def registers_section_def on_tables_def loaded_def reload_def)

lemma instructions_step:
  assumes "code_tables_fit st" "ps_state ps = loaded \<rho> st 14" "\<not> ps_unnamed ps"
  shows "read_instructions ps (instructions_section st) = Some (ps\<lparr>ps_state := loaded \<rho> st 15\<rparr>)"
proof -
  have "\<not> list_ex snd (map (\<lambda>ins. (ins, False)) (st_instrs st))" by (simp add: list_ex_iff)
  then show ?thesis using assms instruction_rows.table_reads [of instr_fits "st_instrs st"]
    by (simp add: code_tables_fit_def read_instructions_def instructions_section_def on_tables_def loaded_def reload_def comp_def)
qed

lemma operands_step:
  assumes "code_tables_fit st" "ps_state ps = loaded \<rho> st 15" "tags_distinct L"
  shows "read_operands L ps (operands_section L st) = Some (ps\<lparr>ps_state := loaded \<rho> st 16\<rparr>)"
  using assms operand_rows.table_reads [of operand_fits "st_operands st" L]
  by (simp add: code_tables_fit_def read_operands_def operands_section_def on_tables_def loaded_def reload_def)

lemma immutables_step:
  assumes "code_tables_fit st" "types_fit (st_types st)" "ps_state ps = loaded \<rho> st 16" "\<And>n. string_id L ps (six n) = \<rho> n"
  shows "read_immutables L ps (immutables_section six st) = Some (ps\<lparr>ps_state := loaded \<rho> st 17\<rparr>)"
proof -
  let ?st = "loaded \<rho> st 16"
  have t: "st_types ?st = map reload_node (st_types st)" by (simp add: loaded_def Let_def)
  have "read_rows 16 (read_immutable (string_id L ps) ?st) (immutables_section six st)
      = Some (map (reload_immutable (\<lambda>n. string_id L ps (six n)) st) (st_immutables st))"
    unfolding immutables_section_def
    by (rule immutable_rows.table_reads [of "\<lambda>im. im_type im < length (st_types st)"])
      (use assms(1,2) in \<open>auto simp: code_tables_fit_def types_fit_def t fits32_def\<close>)
  then show ?thesis using assms(3,4) by (simp add: read_immutables_def on_tables_def loaded_def reload_def)
qed

lemma external_step:
  assumes "code_tables_fit st" "ps_state ps = loaded \<rho> st 17" "\<And>n. string_id L ps (six n) = \<rho> n"
  shows "read_externals L ps (externals_section six st) = Some (ps\<lparr>ps_state := loaded \<rho> st 18\<rparr>)"
  using assms external_rows.table_reads [of "\<lambda>f. meta_fits (xf_meta f) \<and> named_conv (xf_conv f)" "st_external_functions st"]
  by (simp add: code_tables_fit_def read_externals_def externals_section_def on_tables_def loaded_def reload_def rename_meta_def)

end
