(* ===== verification/Ir_File.thy ===== *)
theory Ir_File
  imports Ir_Rows
begin

text \<open>
  The frame of a binary IR file: what the writer lays out, the reader finds.  Whatever the sections hold, every
  payload is where the section table says, no two overlap, and the checks of the header, the checksum and the table
  pass.
\<close>

subsection \<open>Where payloads are\<close>

definition room_for :: "u8 list list \<Rightarrow> nat" where
  "room_for ps = (\<Sum>p \<leftarrow> ps. length p + 8)"

lemma room_for_simps [simp]: "room_for [] = 0" "room_for (p # ps) = length p + 8 + room_for ps"
  by (simp_all add: room_for_def)

lemma align_up_8:
  assumes "unat v < 2 ^ 63"
  shows "8 dvd unat (align_up v SECTION_ALIGN)" "unat v \<le> unat (align_up v SECTION_ALIGN)"
    "unat (align_up v SECTION_ALIGN) < unat v + 8"
proof -
  have "unat (align_up v 8) = round_up (unat v) 8" using unat_align_up [of 8 v] assms by simp
  then show "8 dvd unat (align_up v SECTION_ALIGN)" "unat v \<le> unat (align_up v SECTION_ALIGN)"
    "unat (align_up v SECTION_ALIGN) < unat v + 8"
    by (simp_all add: SECTION_ALIGN_def round_up_def)
qed

lemma length_pad_to:
  assumes "length out \<le> unat at"
  shows "length (pad_to at out) = unat at" "take (length out) (pad_to at out) = out"
proof -
  have "unat at < 2 ^ LENGTH(64)" by (rule unsigned_less)
  then have n: "unat (of_nat (length out) :: u64) = length out" using assms by (simp add: unat_of_nat)
  have "unat (at - of_nat (length out)) = unat at - length out"
    using assms n by (simp add: unat_sub word_le_nat_alt)
  then show "length (pad_to at out) = unat at" "take (length out) (pad_to at out) = out"
    using assms n by (auto simp: pad_to_def word_less_nat_alt)
qed

lemma slice_append:
  "take n (drop k xs) = p \<Longrightarrow> length p = n \<Longrightarrow> take n (drop k (xs @ ys)) = p"
  by (cases "n = 0") auto

lemma slice_in_prefix: "take (k + length p) xs = ys @ p \<Longrightarrow> length ys = k \<Longrightarrow> take (length p) (drop k xs) = p"
  by (metis append_eq_conv_conj drop_take add_diff_cancel_left')

text \<open>What the layout promises of the section at a position.\<close>

definition laid_out :: "u64 \<Rightarrow> u64 \<Rightarrow> u64 list \<Rightarrow> u8 list list \<Rightarrow> u8 list \<Rightarrow> bool" where
  "laid_out c f os ps R \<longleftrightarrow> length os = length ps
     \<and> (\<forall>i < length ps. 8 dvd unat (os ! i) \<and> unat c \<le> unat (os ! i) \<and> unat (os ! i) + length (ps ! i) \<le> unat f
          \<and> take (length (ps ! i)) (drop (unat (os ! i)) R) = ps ! i)
     \<and> (\<forall>j < length ps. \<forall>i < j. unat (os ! i) + length (ps ! i) \<le> unat (os ! j))"

lemma laid_out_Cons:
  assumes tl: "laid_out c' f os ps R" and c: "8 dvd unat c" "unat c + length p \<le> unat c'" "unat c' \<le> unat f"
    and at: "take (length p) (drop (unat c) R) = p"
  shows "laid_out c f (c # os) (p # ps) R"
  unfolding laid_out_def
proof (intro conjI allI impI)
  show "length (c # os) = length (p # ps)" using tl by (simp add: laid_out_def)
next
  fix i assume "i < length (p # ps)"
  then show "8 dvd unat ((c # os) ! i)" "unat c \<le> unat ((c # os) ! i)"
    "unat ((c # os) ! i) + length ((p # ps) ! i) \<le> unat f"
    "take (length ((p # ps) ! i)) (drop (unat ((c # os) ! i)) R) = (p # ps) ! i"
    using tl c at unfolding laid_out_def by (cases i; fastforce)+
next
  fix j i assume "j < length (p # ps)" "i < j"
  then show "unat ((c # os) ! i) + length ((p # ps) ! i) \<le> unat ((c # os) ! j)"
    using tl c unfolding laid_out_def by (cases j; cases i; fastforce)
qed

lemma layout_body:
  assumes "8 dvd unat c" "unat c + room_for ps < 2 ^ 63" "length out \<le> unat c"
  shows "laid_out c (snd (section_offsets c ps)) (fst (section_offsets c ps)) ps (put_payloads (fst (section_offsets c ps)) ps out)
     \<and> take (length out) (put_payloads (fst (section_offsets c ps)) ps out) = out
     \<and> length out \<le> length (put_payloads (fst (section_offsets c ps)) ps out)
     \<and> length (put_payloads (fst (section_offsets c ps)) ps out) \<le> unat (snd (section_offsets c ps))
     \<and> unat c \<le> unat (snd (section_offsets c ps)) \<and> unat (snd (section_offsets c ps)) \<le> unat c + room_for ps"
  using assms
proof (induction ps arbitrary: c out)
  case Nil
  then show ?case by (simp add: laid_out_def)
next
  case (Cons p ps)
  let ?e = "c + of_nat (length p)"
  let ?c = "align_up ?e SECTION_ALIGN" and ?out = "pad_to c out @ p"
  have e: "unat ?e = unat c + length p"
    using Cons.prems(2) by (simp add: unat_word_ariths unat_of_nat)
  then have small: "unat ?e < 2 ^ 63" using Cons.prems(2) by simp
  note al = align_up_8 [OF small]
  note pad = length_pad_to [OF Cons.prems(3)]
  have IH: "laid_out ?c (snd (section_offsets ?c ps)) (fst (section_offsets ?c ps)) ps (put_payloads (fst (section_offsets ?c ps)) ps ?out)
     \<and> take (length ?out) (put_payloads (fst (section_offsets ?c ps)) ps ?out) = ?out
     \<and> length ?out \<le> length (put_payloads (fst (section_offsets ?c ps)) ps ?out)
     \<and> length (put_payloads (fst (section_offsets ?c ps)) ps ?out) \<le> unat (snd (section_offsets ?c ps))
     \<and> unat ?c \<le> unat (snd (section_offsets ?c ps)) \<and> unat (snd (section_offsets ?c ps)) \<le> unat ?c + room_for ps"
    by (rule Cons.IH) (use al e pad Cons.prems(2) in auto)
  let ?R = "put_payloads (fst (section_offsets ?c ps)) ps ?out"
  have so: "section_offsets c (p # ps) = (c # fst (section_offsets ?c ps), snd (section_offsets ?c ps))"
    by (simp add: case_prod_beta)
  have "take (unat c + length p) ?R = pad_to c out @ p" using IH pad(1) by simp
  then have at: "take (length p) (drop (unat c) ?R) = p" by (rule slice_in_prefix) (rule pad(1))
  have "laid_out c (snd (section_offsets ?c ps)) (c # fst (section_offsets ?c ps)) (p # ps) ?R"
    by (rule laid_out_Cons [OF _ Cons.prems(1) _ _ at]) (use IH al(2) e in auto)
  moreover have "take (length out) ?R = out"
  proof -
    have "take (length out) ?R = take (length out) (take (length ?out) ?R)"
      using pad(1) Cons.prems(3) by (simp add: take_take min_absorb1)
    also have "\<dots> = take (length out) (pad_to c out)" using IH pad(1) Cons.prems(3) by simp
    finally show ?thesis using pad(2) by simp
  qed
  moreover have "length out \<le> length ?R" using IH pad(1) Cons.prems(3) by simp
  moreover have "unat c \<le> unat (snd (section_offsets ?c ps))" using IH al(2) e by simp
  moreover have "unat (snd (section_offsets ?c ps)) \<le> unat c + room_for (p # ps)" using IH al(3) e by simp
  ultimately show ?case using IH unfolding so by (simp only: fst_conv snd_conv put_payloads.simps)
qed

subsection \<open>The section table\<close>

definition entry_okay :: "nat \<Rightarrow> nat \<Rightarrow> nat \<times> u64 \<times> nat \<Rightarrow> bool" where
  "entry_okay fs body_start e \<longleftrightarrow> (case e of (k, at, sz) \<Rightarrow>
     1 \<le> k \<and> k \<le> 25 \<and> 8 dvd unat at \<and> body_start \<le> unat at \<and> unat at + sz + 16 \<le> fs)"

definition entry_range :: "nat \<times> u64 \<times> nat \<Rightarrow> nat \<times> nat \<times> nat" where
  "entry_range e = (case e of (k, at, sz) \<Rightarrow> (k, unat at, sz))"

lemma read_entry:
  assumes ok: "entry_okay fs body_start (k, at, sz)" and fs: "fs < 2 ^ 63" and new: "ranges k = None"
  shows "read_table fs body_start (Suc n) ranges (table_row (k, at, sz) @ rest)
       = read_table fs body_start n (ranges(k \<mapsto> (unat at, sz))) rest"
proof -
  have k: "unat (of_nat k :: u32) = k" "known_kind (of_nat k)"
    using ok by (simp_all add: entry_okay_def unat_of_nat known_kind_def word_le_nat_alt)
  have z: "unat (of_nat sz :: u64) = sz" using ok fs by (simp add: entry_okay_def unat_of_nat)
  have m: "at mod SECTION_ALIGN = 0"
    using ok by (simp add: entry_okay_def SECTION_ALIGN_def word_eq_iff_unsigned [where 'a = nat] unat_mod dvd_eq_mod_eq_0)
  have "unat (at + of_nat sz) = unat at + sz" using ok fs z by (simp add: entry_okay_def unat_word_ariths)
  moreover have "\<not> fs - 8 < unat at + sz" "\<not> fs < unat at" "\<not> fs < sz" "\<not> unat at < body_start"
    using ok by (auto simp: entry_okay_def)
  ultimately show ?thesis using k z m new by (simp add: table_row_def put_idx_def codec)
qed

lemma read_table_put:
  assumes "list_all (entry_okay fs body_start) es" "fs < 2 ^ 63" "distinct (map fst es)" "\<forall>k \<in> set (map fst es). ranges k = None"
  shows "read_table fs body_start (length es) ranges (concat (map table_row es) @ rest)
       = Inr (ranges ++ map_of (map entry_range es))"
  using assms
proof (induction es arbitrary: ranges)
  case Nil
  then show ?case by simp
next
  case (Cons e es)
  obtain k at sz where e: "e = (k, at, sz)" by (cases e)
  have "read_table fs body_start (Suc (length es)) ranges (table_row e @ concat (map table_row es) @ rest)
      = read_table fs body_start (length es) (ranges(k \<mapsto> (unat at, sz))) (concat (map table_row es) @ rest)"
    using read_entry [of fs body_start k at sz ranges] Cons.prems e by simp
  also have "\<dots> = Inr (ranges(k \<mapsto> (unat at, sz)) ++ map_of (map entry_range es))"
    by (rule Cons.IH) (use Cons.prems e in auto)
  also have "ranges(k \<mapsto> (unat at, sz)) ++ map_of (map entry_range es) = ranges ++ map_of (map entry_range (e # es))"
  proof -
    have "fst ` set (map entry_range es) = fst ` set es" by (force simp: entry_range_def image_iff split: prod.splits)
    then have "map_of (map entry_range es) k = None" using Cons.prems(3) e by (simp add: map_of_eq_None_iff)
    then show ?thesis by (auto simp: e entry_range_def map_add_def fun_eq_iff split: option.splits)
  qed
  finally show ?case by (simp only: list.map concat.simps append_assoc length_Cons)
qed

subsection \<open>The whole file\<close>

text \<open>A file holds the sections it was laid out from.\<close>

definition holds_sections :: "u8 list \<Rightarrow> section_ranges \<Rightarrow> (nat \<times> u8 list) list \<Rightarrow> bool" where
  "holds_sections file ranges sections \<longleftrightarrow>
     (\<forall>k. case map_of sections k of
        None \<Rightarrow> ranges k = None
      | Some p \<Rightarrow> \<exists>off. ranges k = Some (off, length p) \<and> take (length p) (drop off file) = p)"

definition framed :: "write_input \<Rightarrow> (nat \<times> u8 list) list \<Rightarrow> bool" where
  "framed w sections \<longleftrightarrow> distinct (map fst sections) \<and> set (map fst sections) \<subseteq> {1..25} \<and> {1..19} \<subseteq> set (map fst sections)
     \<and> fits32 (length (wi_version w)) \<and> 28 + length (wi_version w) + 24 * length sections + 8 + room_for (map snd sections) + 16 < 2 ^ 63"

lemma framed_count: "framed w sections \<Longrightarrow> length sections \<le> 25"
proof -
  assume f: "framed w sections"
  then have "length sections = card (set (map fst sections))" using distinct_card [of "map fst sections"] by (simp add: framed_def)
  also have "\<dots> \<le> card {1..25 :: nat}" using f by (intro card_mono) (simp_all add: framed_def)
  finally show ?thesis by simp
qed

lemma length_file_header [simp]: "length (file_header w n) = 28 + length (wi_version w)"
  by (simp add: file_header_def MAGIC_def)

definition section_entries :: "u64 list \<Rightarrow> (nat \<times> u8 list) list \<Rightarrow> (nat \<times> u64 \<times> nat) list" where
  "section_entries os sections = zip (map fst sections) (zip os (map length (map snd sections)))"

lemma section_entries_nth:
  assumes "length os = length sections"
  shows "length (section_entries os sections) = length sections" "map fst (section_entries os sections) = map fst sections"
    "i < length sections \<Longrightarrow> section_entries os sections ! i = (fst (sections ! i), os ! i, length (snd (sections ! i)))"
  using assms by (simp_all add: section_entries_def)

lemma entries_range_iff:
  assumes "length os = length sections" "distinct (map fst sections)"
  shows "map_of (map entry_range (section_entries os sections)) k = Some (o', z) \<longleftrightarrow>
    (\<exists>i < length sections. k = fst (sections ! i) \<and> o' = unat (os ! i) \<and> z = length (snd (sections ! i)))"
proof -
  let ?es = "section_entries os sections"
  have "map fst (map entry_range ?es) = map fst sections"
    using section_entries_nth(2) [OF assms(1)] by (simp add: entry_range_def case_prod_beta comp_def)
  then have d: "distinct (map fst (map entry_range ?es))" using assms(2) by simp
  have l: "length (map entry_range ?es) = length sections"
    and at: "i < length sections \<Longrightarrow> map entry_range ?es ! i = (fst (sections ! i), unat (os ! i), length (snd (sections ! i)))" for i
    using section_entries_nth [OF assms(1)] by (simp_all add: entry_range_def)
  show ?thesis
    unfolding map_of_eq_Some_iff [OF d] in_set_conv_nth l using at by (metis prod.inject)
qed

lemma entries_no_overlap:
  assumes "laid_out c f os (map snd sections) R" "distinct (map fst sections)"
  shows "no_overlap (map_of (map entry_range (section_entries os sections)))"
proof -
  let ?m = "map_of (map entry_range (section_entries os sections))"
  have len: "length os = length sections" using assms(1) by (simp add: laid_out_def)
  have "disjoint_ranges (?m a) (?m b)" if "a \<noteq> b" for a b
  proof (cases "?m a"; cases "?m b")
    fix x y assume xy: "?m a = Some x" "?m b = Some y"
    obtain ao az bo bz where p: "x = (ao, az)" "y = (bo, bz)" by fastforce
    with xy entries_range_iff [OF len assms(2)] obtain i j where
      i: "i < length sections" "a = fst (sections ! i)" "ao = unat (os ! i)" "az = length (snd (sections ! i))" and
      j: "j < length sections" "b = fst (sections ! j)" "bo = unat (os ! j)" "bz = length (snd (sections ! j))" by auto
    from i j \<open>a \<noteq> b\<close> have "i < j \<or> j < i" by (metis nat_neq_iff)
    with assms(1) i j have "ao + az \<le> bo \<or> bo + bz \<le> ao" unfolding laid_out_def by auto
    then show ?thesis using xy p by (auto simp: disjoint_ranges_def)
  qed (simp_all add: disjoint_ranges_def)
  then show ?thesis by (auto simp: no_overlap_def list_all_iff)
qed

lemma entries_hold:
  assumes lay: "laid_out c f os (map snd sections) R" and d: "distinct (map fst sections)" and whole: "file = R @ tail"
  shows "holds_sections file (map_of (map entry_range (section_entries os sections))) sections"
proof -
  let ?m = "map_of (map entry_range (section_entries os sections))"
  have len: "length os = length sections" using lay by (simp add: laid_out_def)
  show ?thesis unfolding holds_sections_def
  proof
    fix k
    show "case map_of sections k of None \<Rightarrow> ?m k = None
      | Some p \<Rightarrow> \<exists>off. ?m k = Some (off, length p) \<and> take (length p) (drop off file) = p"
    proof (cases "map_of sections k")
      case None
      then have "k \<noteq> fst (sections ! i)" if "i < length sections" for i
        using that nth_mem [OF that] by (auto simp: map_of_eq_None_iff)
      then have "?m k = None" using entries_range_iff [OF len d, of k] by (cases "?m k") auto
      with None show ?thesis by simp
    next
      case (Some p)
      then have "(k, p) \<in> set sections" using d by simp
      then obtain i where i: "i < length sections" "sections ! i = (k, p)" by (auto simp: in_set_conv_nth)
      then have "?m k = Some (unat (os ! i), length p)" using entries_range_iff [OF len d, of k] by auto
      moreover have "take (length p) (drop (unat (os ! i)) R) = p" using lay i unfolding laid_out_def by force
      ultimately show ?thesis using Some slice_append [of "length p" "unat (os ! i)" R p tail] by (auto simp: whole)
    qed
  qed
qed

lemma length_table: "length (concat (map table_row es)) = 24 * length es"
  by (induction es) (auto simp: table_row_def)

lemma layout_finds:
  fixes L :: library
  assumes f: "framed w sections"
  defines "file \<equiv> layout_file L w sections"
  shows "\<exists>out es rest. file = out @ write_digest (hash128 (lib_xxh128 L) out)
     \<and> out = file_header w (length sections) @ concat (map table_row es) @ rest \<and> length es = length sections
     \<and> list_all (entry_okay (length file) (28 + length (wi_version w))) es \<and> map fst es = map fst sections
     \<and> length file < 2 ^ 63 \<and> holds_sections file (map_of (map entry_range es)) sections
     \<and> no_overlap (map_of (map entry_range es))"
proof -
  define n where "n = 28 + length (wi_version w) + length sections * 24"
  define c where "c = align_up (of_nat n) SECTION_ALIGN"
  define ps where "ps = map snd sections"
  define os where "os = fst (section_offsets c ps)"
  define foot where "foot = snd (section_offsets c ps)"
  define es where "es = section_entries os sections"
  define T where "T = file_header w (length sections) @ concat (map table_row es)"
  define R where "R = put_payloads os ps T"
  define out where "out = pad_to foot R"
  have d: "distinct (map fst sections)" and small: "n + 24 + room_for ps < 2 ^ 63"
    using f by (simp_all add: framed_def n_def ps_def)
  have un: "unat (of_nat n :: u64) = n" using small by (simp add: unat_of_nat)
  have al: "8 dvd unat c" "n \<le> unat c" "unat c < n + 8"
    using align_up_8 [of "of_nat n"] small un by (simp_all add: c_def)
  have len0: "length (fst (section_offsets x qs)) = length qs" for x qs
    by (induction qs arbitrary: x) (simp_all add: case_prod_beta)
  then have len: "length os = length sections" by (simp add: os_def ps_def)
  have lT: "length T = n" using section_entries_nth(1) [OF len] by (simp add: T_def length_table es_def n_def)
  have body: "laid_out c foot os ps R" "take (length T) R = T" "length R \<le> unat foot" "unat foot \<le> unat c + room_for ps"
    using layout_body [of c ps T] al small lT by (simp_all add: os_def foot_def R_def)
  have out: "length out = unat foot" "take (length R) out = R" using length_pad_to [OF body(3)] by (simp_all add: out_def)
  then obtain tail where tail: "out = R @ tail" by (metis append_take_drop_id)
  have whole: "file = out @ write_digest (hash128 (lib_xxh128 L) out)"
    by (simp add: file_def layout_file_def Let_def out_def R_def T_def es_def foot_def os_def c_def n_def ps_def section_entries_def)
  have lf: "length file = unat foot + 16" by (simp add: whole out(1))
  have "entry_okay (length file) (28 + length (wi_version w)) (es ! i)" if i: "i < length sections" for i
  proof -
    have "fst (sections ! i) \<in> set (map fst sections)" using i by simp
    then have "fst (sections ! i) \<in> {1..25}" using f unfolding framed_def by blast
    moreover have "8 dvd unat (os ! i)" "unat c \<le> unat (os ! i)" "unat (os ! i) + length (snd (sections ! i)) \<le> unat foot"
      using body(1) i by (simp_all add: laid_out_def ps_def)
    ultimately show ?thesis
      using al(2) lf i by (simp add: es_def section_entries_nth [OF len] entry_okay_def n_def)
  qed
  then have ok: "list_all (entry_okay (length file) (28 + length (wi_version w))) es"
    by (simp add: list_all_length es_def section_entries_nth [OF len])
  obtain rest where rest: "R = T @ rest" using body(2) by (metis append_take_drop_id)
  have "length file < 2 ^ 63" using lf body(4) al(3) small by simp
  moreover have "holds_sections file (map_of (map entry_range es)) sections"
    unfolding es_def by (rule entries_hold [OF body(1) [unfolded ps_def] d, of _ "tail @ write_digest (hash128 (lib_xxh128 L) out)"])
      (simp add: whole, simp add: tail)
  moreover have "no_overlap (map_of (map entry_range es))"
    using entries_no_overlap [OF body(1) [unfolded ps_def] d] by (simp add: es_def)
  moreover have "out = file_header w (length sections) @ concat (map table_row es) @ rest @ tail"
    by (simp add: tail rest T_def)
  ultimately show ?thesis using whole ok section_entries_nth [OF len] es_def by blast
qed

subsection \<open>Loading what was laid out\<close>

definition load_sections :: "library \<Rightarrow> u8 list \<Rightarrow> section_ranges \<Rightarrow> parsed \<Rightarrow> (ir_load_error, loaded_ir) result option" where
  "load_sections L file ranges ps =
     (case read_sections L file ranges [1..<26] ps of
        None \<Rightarrow> None
      | Some None \<Rightarrow> Some (Inl BadShape)
      | Some (Some ps') \<Rightarrow> finish_load ps')"

lemma load_body_put:
  assumes es: "list_all (entry_okay (length file) (28 + length v)) es" "length es \<le> 25" "length file < 2 ^ 63"
    "distinct (map fst es)" "no_overlap (map_of (map entry_range es))" "{1..19} \<subseteq> set (map fst es)"
    and at: "length file = 28 + length v + 24 * length es + length rest"
  shows "load_body L file ps (put_u64 (of_nat (length es)) @ concat (map table_row es) @ rest)
       = load_sections L file (map_of (map entry_range es)) ps"
proof -
  have n: "unat (of_nat (length es) :: u64) = length es" "\<not> (of_nat MAX_SECTIONS :: u64) < of_nat (length es)"
    using es(2) by (simp_all add: unat_of_nat MAX_SECTIONS_def word_less_nat_alt)
  have first: "next_u64 (put_u64 (of_nat (length es)) @ concat (map table_row es) @ rest)
      = Some (of_nat (length es), concat (map table_row es) @ rest)" by (rule next_word_put)
  have start: "length file - length (concat (map table_row es) @ rest) = 28 + length v" using at by (simp add: length_table)
  have table: "read_table (length file) (28 + length v) (length es) Map.empty (concat (map table_row es) @ rest)
      = Inr (map_of (map entry_range es))"
    using read_table_put [OF es(1,3,4), of Map.empty rest] by simp
  have core: "list_all (\<lambda>kind. map_of (map entry_range es) kind \<noteq> None) [1..<20]"
  proof -
    have "map fst (map entry_range es) = map fst es" by (simp add: entry_range_def case_prod_beta comp_def)
    then have "map_of (map entry_range es) k \<noteq> None" if "k \<in> set (map fst es)" for k
      using that unfolding map_of_eq_None_iff set_map [symmetric] by simp
    moreover have "k \<in> set (map fst es)" if "k \<in> set [1..<20]" for k using that es(6) by (intro subsetD [OF es(6)]) simp
    ultimately show ?thesis unfolding list_all_iff by blast
  qed
  show ?thesis
    by (simp only: load_body_def load_sections_def first option.case prod.case sum.case start table core n es(5)
        not_True_eq_False if_False)
qed

lemma load_finds:
  assumes f: "framed w sections"
  shows "\<exists>ranges. holds_sections (layout_file L w sections) ranges sections
     \<and> load_file L (layout_file L w sections)
       = load_sections L (layout_file L w sections) ranges (new_parsed L (wi_width w) (wi_version w))"
proof -
  let ?file = "layout_file L w sections" and ?n = "length sections" and ?v = "wi_version w"
  obtain out es rest where o: "?file = out @ write_digest (hash128 (lib_xxh128 L) out)"
    "out = file_header w ?n @ concat (map table_row es) @ rest" "length es = ?n"
    "list_all (entry_okay (length ?file) (28 + length ?v)) es" "map fst es = map fst sections"
    "length ?file < 2 ^ 63" "holds_sections ?file (map_of (map entry_range es)) sections"
    "no_overlap (map_of (map entry_range es))" using layout_finds [OF f, of L] by blast
  define d where "d = write_digest (hash128 (lib_xxh128 L) out)"
  have ld: "length d = 16" by (simp add: d_def)
  have len: "length ?file = 28 + length ?v + 24 * length es + length (rest @ d)"
    using o(1,2) by (simp add: length_table ld d_def)
  let ?body = "put_u64 (of_nat (length es)) @ concat (map table_row es) @ rest @ d"
  let ?head = "put_u16 MAJOR @ put_u16 MINOR @ put_u32 FLAG_LITTLE_ENDIAN @ put_u32 (if wi_width w = W64 then 64 else 32)
     @ put_idx (length ?v) @ char_bytes ?v @ ?body"
  have "?file = out @ d" using o(1) by (simp add: d_def)
  also have "\<dots> = MAGIC @ ?head" by (subst o(2)) (simp add: file_header_def o(3))
  finally have whole: "?file = MAGIC @ ?head" .
  have magic: "take_bytes 4 ?file = Some (MAGIC, ?head)" unfolding whole by (rule take_bytes_append) (simp add: MAGIC_def)
  have sum: "map_option fst (next_digest (drop (length ?file - 16) ?file)) = Some (hash128 (lib_xxh128 L) (take (length ?file - 16) ?file))"
    unfolding o(1) using next_digest_put [of "hash128 (lib_xxh128 L) out" "[]"] by simp
  have head: "read_header ?head = Some ((MAJOR, MINOR, FLAG_LITTLE_ENDIAN, if wi_width w = W64 then 64 else 32, of_nat (length ?v)),
      char_bytes ?v @ ?body)"
    by (simp add: read_header_def put_idx_def codec del: append_assoc)
  have ver: "take_bytes (unat (of_nat (length ?v) :: u32)) (char_bytes ?v @ ?body) = Some (char_bytes ?v, ?body)"
    using f by (simp add: framed_def codec)
  have "load_body L ?file (new_parsed L (wi_width w) ?v) ?body
      = load_sections L ?file (map_of (map entry_range es)) (new_parsed L (wi_width w) ?v)"
    by (rule load_body_put [OF o(4) _ o(6) _ o(8) _ len]) (use f framed_count [OF f] o(3,5) in \<open>auto simp: framed_def\<close>)
  moreover have "load_file L ?file = load_body L ?file (new_parsed L (wi_width w) ?v) ?body"
    using len magic sum head ver
    by (cases "wi_width w") (simp_all add: load_file_def FLAG_LITTLE_ENDIAN_def)
  ultimately show ?thesis using o(7) by auto
qed

end
