(* ===== verification/Ir_Roundtrip.thy ===== *)
theory Ir_Roundtrip
  imports Ir_Sections Ir_File
begin

text \<open>
  A package that is written and read back is the package: the tables with their names renumbered, the side tables as
  they were, and every name under its new id the text it was under its old one.
\<close>

subsection \<open>What a file can carry\<close>

text \<open>
  The bounds of the format.  Everything here is a matter of sizes and of references inside the package; the storage
  itself is one the verifier accepts.
\<close>

definition side_tables_fit :: "write_input \<Rightarrow> bool" where
  "side_tables_fit w \<longleftrightarrow>
     length (ft_names (wi_files w)) < 2 ^ 32 - 1
     \<and> table_fits (span_okay (length (ft_names (wi_files w)))) (wi_spans w)
     \<and> (wi_spans w = [] \<or> length (wi_spans w) = length (st_instrs (wi_storage w)))
     \<and> table_fits (\<lambda>a. fits32 (an_reg a) \<and> an_reg a < length (st_registers (wi_storage w))) (wi_addr_names w)
     \<and> fits32 (wi_prelude w) \<and> summary_fits (wi_storage w) (wi_summary w)"

definition strings_fit :: "library \<Rightarrow> write_input \<Rightarrow> bool" where
  "strings_fit L w \<longleftrightarrow> length (sr_names (collect_strings L w)) < MAX_NAMES
     \<and> list_all (\<lambda>n. fits32 (length n)) (sr_names (collect_strings L w)) \<and> lib_empty_id L + MAX_NAMES \<le> 2 ^ 32"

definition file_fits :: "library \<Rightarrow> write_input \<Rightarrow> bool" where
  "file_fits L w \<longleftrightarrow> fits32 (length (wi_version w))
     \<and> length (wi_version w) + 676 + room_for (map snd (all_sections L w)) < 2 ^ 63"

definition writable :: "library \<Rightarrow> write_input \<Rightarrow> bool" where
  "writable L w \<longleftrightarrow> storage_wf (wi_storage w) \<and> type_tables_fit (wi_storage w) \<and> code_tables_fit (wi_storage w)
     \<and> side_tables_fit w \<and> strings_fit L w \<and> file_fits L w \<and> tags_distinct L"

subsection \<open>The sections of a package\<close>

lemma all_sections_framed: "file_fits L w \<Longrightarrow> framed w (all_sections L w)"
proof -
  assume f: "file_fits L w"
  have k: "map fst (all_sections L w) = [1..<20] @ (if wi_spans w \<noteq> [] then [20] else [])
      @ (if wi_addr_names w \<noteq> [] then [21] else []) @ (if wi_prelude w \<noteq> 0 then [22] else [])
      @ (if st_const_types (wi_storage w) \<noteq> [] then [23] else []) @ [24] @ (if wi_summary w \<noteq> [] then [25] else [])"
    by (simp add: all_sections_def Let_def upt_rec)
  have "length (all_sections L w) = length (map fst (all_sections L w))" by simp
  then have "length (all_sections L w) \<le> 25" unfolding k by simp
  then show ?thesis using f unfolding framed_def k by (auto simp: file_fits_def)
qed

lemma section_payloads:
  fixes L :: library and w :: write_input
  defines "s \<equiv> collect_strings L w" and "st \<equiv> wi_storage w"
  defines "six \<equiv> string_index L s"
  shows "map_of (all_sections L w) 1 = Some (strings_section s)" "map_of (all_sections L w) 2 = Some (types_section st)"
    "map_of (all_sections L w) 3 = Some (structs_section six st)" "map_of (all_sections L w) 4 = Some (arrays_section st)"
    "map_of (all_sections L w) 5 = Some (slices_section st)" "map_of (all_sections L w) 6 = Some (enums_section six st)"
    "map_of (all_sections L w) 7 = Some (enum_variants_section six st)" "map_of (all_sections L w) 8 = Some (refs_section st)"
    "map_of (all_sections L w) 9 = Some (tuples_section st)" "map_of (all_sections L w) 10 = Some (funcs_section st)"
    "map_of (all_sections L w) 11 = Some (functions_section six st)" "map_of (all_sections L w) 12 = Some (blocks_section st)"
    "map_of (all_sections L w) 13 = Some (block_params_section st)" "map_of (all_sections L w) 14 = Some (registers_section st)"
    "map_of (all_sections L w) 15 = Some (instructions_section st)" "map_of (all_sections L w) 16 = Some (operands_section L st)"
    "map_of (all_sections L w) 17 = Some (immutables_section six st)" "map_of (all_sections L w) 18 = Some (externals_section six st)"
    "map_of (all_sections L w) 19 = Some (files_section s (wi_files w))"
    "map_of (all_sections L w) 20 = (if wi_spans w = [] then None else Some (spans_section (wi_spans w)))"
    "map_of (all_sections L w) 21 = (if wi_addr_names w = [] then None else Some (addr_names_section s (wi_addr_names w)))"
    "map_of (all_sections L w) 22 = (if wi_prelude w = 0 then None else Some (put_idx (wi_prelude w)))"
    "map_of (all_sections L w) 23 = (if st_const_types st = [] then None else Some (consts_section st))"
    "map_of (all_sections L w) 24 = Some (write_digest (identity_digest L (wi_files w) (wi_width w) (wi_version w)))"
    "map_of (all_sections L w) 25 = (if wi_summary w = [] then None else Some (summary_section six (wi_summary w)))"
  unfolding s_def st_def six_def all_sections_def Let_def by (simp_all del: One_nat_def)

lemma section_read:
  assumes "holds_sections whole ranges sections" "map_of sections k = Some p"
  shows "read_sections L whole ranges (k # ks) ps =
    (case read_section L ps k p of None \<Rightarrow> None | Some None \<Rightarrow> Some None | Some (Some ps') \<Rightarrow> read_sections L whole ranges ks ps')"
proof -
  obtain off where "ranges k = Some (off, length p)" "take (length p) (drop off whole) = p"
    using assms(1) [unfolded holds_sections_def, THEN spec, of k] by (auto simp: assms(2))
  then show ?thesis by simp
qed

lemma section_skipped:
  assumes "holds_sections whole ranges sections" "map_of sections k = None"
  shows "read_sections L whole ranges (k # ks) ps = read_sections L whole ranges ks ps"
proof -
  have "ranges k = None" using assms(1) [unfolded holds_sections_def, THEN spec, of k] by (simp add: assms(2))
  then show ?thesis by simp
qed

lemma type_sections_read:
  assumes h: "holds_sections whole ranges (all_sections L w)" and st: "st = wi_storage w" and fits: "type_tables_fit st"
    and ps: "ps_state ps = loaded \<rho> st 1" "\<not> ps_unnamed ps"
    and ids: "\<And>n. string_id L ps (string_index L (collect_strings L w) n) = \<rho> n"
  shows "read_sections L whole ranges (2 # 3 # 4 # 5 # 6 # 7 # 8 # 9 # 10 # ks) ps
       = read_sections L whole ranges ks (ps\<lparr>ps_state := loaded \<rho> st 10\<rparr>)"
  using ps ids
  by (simp add: section_read [OF h section_payloads(2)] section_read [OF h section_payloads(3)] section_read [OF h section_payloads(4)]
      section_read [OF h section_payloads(5)] section_read [OF h section_payloads(6)] section_read [OF h section_payloads(7)]
      section_read [OF h section_payloads(8)] section_read [OF h section_payloads(9)] section_read [OF h section_payloads(10)]
      st [symmetric] read_section_def types_step [OF fits, where \<rho> = \<rho>] structs_step [OF fits, where \<rho> = \<rho>]
      arrays_step [OF fits, where \<rho> = \<rho>] slices_step [OF fits, where \<rho> = \<rho>] enums_step [OF fits, where \<rho> = \<rho>]
      variants_step [OF fits, where \<rho> = \<rho>] refs_step [OF fits, where \<rho> = \<rho>] tuples_step [OF fits, where \<rho> = \<rho>]
      funcs_step [OF fits, where \<rho> = \<rho>] del: read_sections.simps One_nat_def)

lemma code_sections_read:
  assumes h: "holds_sections whole ranges (all_sections L w)" and st: "st = wi_storage w" and fits: "code_tables_fit st"
    and types: "types_fit (st_types st)" and tags: "tags_distinct L"
    and ps: "ps_state ps = loaded \<rho> st 10" "\<not> ps_unnamed ps"
    and ids: "\<And>n. string_id L ps (string_index L (collect_strings L w) n) = \<rho> n"
  shows "read_sections L whole ranges (11 # 12 # 13 # 14 # 15 # 16 # 17 # 18 # ks) ps
       = read_sections L whole ranges ks (ps\<lparr>ps_state := loaded \<rho> st 18\<rparr>)"
  using ps ids tags types
  by (simp add: section_read [OF h section_payloads(11)] section_read [OF h section_payloads(12)] section_read [OF h section_payloads(13)]
      section_read [OF h section_payloads(14)] section_read [OF h section_payloads(15)] section_read [OF h section_payloads(16)]
      section_read [OF h section_payloads(17)] section_read [OF h section_payloads(18)]
      st [symmetric] read_section_def functions_step [OF fits, where \<rho> = \<rho>] blocks_step [OF fits, where \<rho> = \<rho>]
      block_params_step [OF fits, where \<rho> = \<rho>] registers_step [OF fits, where \<rho> = \<rho>] instructions_step [OF fits, where \<rho> = \<rho>]
      operands_step [OF fits, where \<rho> = \<rho>] immutables_step [OF fits, where \<rho> = \<rho>] external_step [OF fits, where \<rho> = \<rho>] del: read_sections.simps)

subsection \<open>The side tables\<close>

lemma files_step:
  assumes "length (ft_names files) < 2 ^ 32 - 1" "ser_inv strings s" "strings_loaded L s ps" "set (ft_names files) \<subseteq> set (sr_names s)"
    "ps_file_names ps = []" "ps_file_hashes ps = []"
  shows "read_files ps (files_section s files) =
    Some (ps\<lparr>ps_file_names := ft_names files, ps_file_hashes := map (hash_of files) [0..<length (ft_names files)]\<rparr>)"
proof -
  let ?is = "[0..<length (ft_names files)]"
  have t: "names_string ps (find_name s (ft_names files ! k))" "string_text ps (find_name s (ft_names files ! k)) = ft_names files ! k"
    if "k < length (ft_names files)" for k
    using text_back [OF assms(2,3) subsetD [OF assms(4) nth_mem [OF that]]] by simp_all
  have "read_rows 24 (read_file ps) (files_section s files)
      = Some (map (\<lambda>k. (string_text ps (find_name s (ft_names files ! k)), hash_of files k)) ?is)"
    unfolding files_section_def by (rule file_rows.section_reads) (use assms(1) t in auto)
  also have "\<dots> = Some (map (\<lambda>k. (ft_names files ! k, hash_of files k)) ?is)" using t by simp
  finally show ?thesis using assms(5,6) by (simp add: read_files_def comp_def map_nth)
qed

lemma spans_step:
  assumes "table_fits (span_okay (length (ps_file_names ps))) spans" "length spans = length (st_instrs (ps_state ps))" "ps_spans ps = []"
  shows "read_spans ps (spans_section spans) = Some (ps\<lparr>ps_spans := spans\<rparr>)"
proof -
  have few: "length spans < 2 ^ 32 - 1" using assms(1) by (simp add: table_fits_def)
  have "read_rows 12 (read_span ps) (spans_section spans) = Some (map (\<lambda>sp. sp) spans)"
    unfolding spans_section_def by (rule span_rows.table_reads [OF assms(1)]) simp
  then show ?thesis using span_rows.section_count [OF few] assms(2,3)
    by (simp add: read_spans_def spans_section_def Let_def)
qed

lemma addr_names_step:
  assumes "table_fits (\<lambda>a. fits32 (an_reg a) \<and> an_reg a < length (st_registers (ps_state ps))) names"
    "ser_inv strings s" "strings_loaded L s ps" "\<And>a. a \<in> set names \<Longrightarrow> an_name a \<in> set (sr_names s)" "ps_addr_names ps = []"
  shows "read_addr_names ps (addr_names_section s names) = Some (ps\<lparr>ps_addr_names := names\<rparr>)"
proof -
  have t: "names_string ps (find_name s (an_name a))" "string_text ps (find_name s (an_name a)) = an_name a" if "a \<in> set names" for a
    using text_back [OF assms(2,3)] that assms(4) by auto
  have "read_rows 12 (read_addr_name ps) (addr_names_section s names)
      = Some (map (\<lambda>a. a\<lparr>an_name := string_text ps (find_name s (an_name a))\<rparr>) names)"
    unfolding addr_names_section_def
    by (rule addr_rows.section_reads) (use assms(1) t in \<open>auto simp: table_fits_def list_all_length\<close>)
  also have "map (\<lambda>a. a\<lparr>an_name := string_text ps (find_name s (an_name a))\<rparr>) names = map (\<lambda>a. a) names"
    by (rule map_cong [OF refl]) (simp add: t(2))
  finally show ?thesis using assms(5) by (simp add: read_addr_names_def)
qed

lemma prelude_step: "fits32 n \<Longrightarrow> read_prelude ps (put_idx n) = Some (ps\<lparr>ps_prelude := n\<rparr>)"
  using next_word_put(3) [of "of_nat n" "[]"] by (simp add: read_prelude_def put_idx_def codec)

lemma identity_step: "read_identity ps (write_digest d) = Some (ps\<lparr>ps_identity := d\<rparr>)"
  using next_digest_put [of d "[]"] by (simp add: read_identity_def)

subsection \<open>The whole package\<close>

lemma room_for_names: "table_inv h (new_symbol_table h e 0) \<Longrightarrow> name_count (new_symbol_table h e 0) = 1
    \<and> sy_max_names (new_symbol_table h e 0) = MAX_NAMES"
  by (simp add: name_count_def new_symbol_table_def Let_def)

lemma strings_section_read:
  assumes h: "holds_sections whole ranges (all_sections L w)" and fits: "strings_fit L w"
  defines "s \<equiv> collect_strings L w"
  shows "\<exists>t ids. (\<forall>ks. read_sections L whole ranges (1 # ks) (new_parsed L width version)
       = read_sections L whole ranges ks ((new_parsed L width version)\<lparr>ps_strings := t, ps_string_ids := ids\<rparr>))
     \<and> strings_loaded L s ((new_parsed L width version)\<lparr>ps_strings := t, ps_string_ids := ids\<rparr>)"
proof -
  let ?ps = "new_parsed L width version"
  have inv: "table_inv (lib_xxh3 L) (new_symbol_table (lib_xxh3 L) (lib_empty_id L) 0)"
    by (rule new_table_inv) (use fits in \<open>simp add: strings_fit_def\<close>)
  have few: "length (sr_names s) < MAX_NAMES" "\<forall>n \<in> set (sr_names s). fits32 (length n)"
    using fits by (simp_all add: strings_fit_def s_def list_all_iff)
  then have few32: "length (sr_names s) < 2 ^ 32 - 1" by (simp add: MAX_NAMES_def)
  obtain t where t: "read_strings L ?ps (strings_section s)
       = Some (Some (?ps\<lparr>ps_strings := t, ps_string_ids := map (\<lambda>n. the (name_index t n)) (sr_names s)\<rparr>))"
      "table_inv (lib_xxh3 L) t" "\<forall>n \<in> set (sr_names s). name_index t n \<noteq> None"
    using read_strings_put [of L ?ps s] inv few few32 room_for_names [OF inv] by (auto simp: new_parsed_def)
  then show ?thesis
    using few32 section_read [OF h section_payloads(1), where ps = ?ps and L = L]
    by (intro exI [of _ t] exI [of _ "map (\<lambda>n. the (name_index t n)) (sr_names s)"])
      (simp add: read_section_def strings_loaded_def s_def)
qed

lemma strings_loaded_more [simp]:
  "strings_loaded L s (ps\<lparr>ps_state := a\<rparr>) = strings_loaded L s ps"
  "strings_loaded L s (ps\<lparr>ps_file_names := b\<rparr>) = strings_loaded L s ps"
  "strings_loaded L s (ps\<lparr>ps_file_hashes := c\<rparr>) = strings_loaded L s ps"
  "strings_loaded L s (ps\<lparr>ps_spans := d\<rparr>) = strings_loaded L s ps"
  by (simp_all add: strings_loaded_def)

lemma entry_fits_reload [simp]: "entry_fits (reload \<rho> st) = entry_fits st"
  by (simp add: entry_fits_def fun_eq_iff)

lemma side_sections_read:
  assumes h: "holds_sections whole ranges (all_sections L w)" and st: "st = wi_storage w" and s: "s = collect_strings L w"
    and fits: "side_tables_fit w" "type_tables_fit st"
    and str: "ser_inv (wi_strings w) s" "strings_loaded L s ps"
    and ids: "\<And>n. string_id L ps (string_index L s n) = \<rho> n"
    and named: "summary_named ps (string_index L s) (wi_summary w)"
    and ps: "ps = (new_parsed L width version)\<lparr>ps_strings := t, ps_string_ids := sids, ps_state := loaded \<rho> st 18\<rparr>"
  shows "read_sections L whole ranges [19, 20, 21, 22, 23, 24, 25] ps
       = Some (Some (ps\<lparr>ps_state := reload \<rho> st, ps_file_names := ft_names (wi_files w),
           ps_file_hashes := map (hash_of (wi_files w)) [0..<length (ft_names (wi_files w))], ps_spans := wi_spans w,
           ps_addr_names := wi_addr_names w, ps_prelude := wi_prelude w,
           ps_summary := map (rename_entry \<rho>) (wi_summary w),
           ps_summary_fields := map (rename_field \<rho>) (all_fields (wi_summary w)),
           ps_identity := identity_digest L (wi_files w) (wi_width w) (wi_version w)\<rparr>))"
proof -
  note none = section_skipped [OF h]
  note pay = section_payloads [where L = L and w = w, folded s st]
  let ?p1 = "ps\<lparr>ps_file_names := ft_names (wi_files w), ps_file_hashes := map (hash_of (wi_files w)) [0..<length (ft_names (wi_files w))]\<rparr>"
  let ?p2 = "?p1\<lparr>ps_spans := wi_spans w\<rparr>"
  let ?p3 = "?p2\<lparr>ps_addr_names := wi_addr_names w\<rparr>"
  let ?p4 = "?p3\<lparr>ps_prelude := wi_prelude w\<rparr>"
  let ?p5 = "?p4\<lparr>ps_state := reload \<rho> st\<rparr>"
  let ?p6 = "?p5\<lparr>ps_identity := identity_digest L (wi_files w) (wi_width w) (wi_version w)\<rparr>"
  let ?p7 = "?p6\<lparr>ps_summary := map (rename_entry \<rho>) (wi_summary w), ps_summary_fields := map (rename_field \<rho>) (all_fields (wi_summary w))\<rparr>"
  note col = collect_strings_ok [where w = w and L = L, folded s]
  have new: "ps_file_names ps = []" "ps_file_hashes ps = []" "ps_spans ps = []" "ps_addr_names ps = []" "ps_prelude ps = 0"
    "ps_summary ps = []" "ps_summary_fields ps = []" "ps_state ps = loaded \<rho> st 18"
    by (simp_all add: ps new_parsed_def)
  have 1: "read_sections L whole ranges (19 # ks) ps = read_sections L whole ranges ks ?p1" for ks
    using files_step [OF _ str, of "wi_files w"] fits(1) col(4) new
    by (simp add: section_read [OF h pay(19)] read_section_def side_tables_fit_def del: read_sections.simps)
  have 2: "read_sections L whole ranges (20 # ks) ?p1 = read_sections L whole ranges ks ?p2" for ks
  proof (cases "wi_spans w = []")
    case True
    then have "?p2 = ?p1" using new by simp
    then show ?thesis using none [where k = 20] pay(20) True by simp
  next
    case False
    have n: "length (wi_spans w) = length (st_instrs (ps_state ?p1))"
      using fits(1) False new st by (simp add: side_tables_fit_def loaded_def)
    have "read_spans ?p1 (spans_section (wi_spans w)) = Some ?p2"
      by (rule spans_step [OF _ n]) (use fits(1) new in \<open>simp_all add: side_tables_fit_def\<close>)
    then show ?thesis using section_read [OF h, where k = 20] pay(20) False by (simp add: read_section_def del: read_sections.simps)
  qed
  have 3: "read_sections L whole ranges (21 # ks) ?p2 = read_sections L whole ranges ks ?p3" for ks
  proof (cases "wi_addr_names w = []")
    case True
    then have "?p3 = ?p2" using new by simp
    then show ?thesis using none [where k = 21] pay(21) True by simp
  next
    case False
    have "read_addr_names ?p2 (addr_names_section s (wi_addr_names w)) = Some ?p3"
      by (rule addr_names_step [OF _ str(1) _ col(3)]) (use fits(1) new str(2) st in \<open>simp_all add: side_tables_fit_def loaded_def\<close>)
    then show ?thesis using section_read [OF h, where k = 21] pay(21) False by (simp add: read_section_def del: read_sections.simps)
  qed
  have 4: "read_sections L whole ranges (22 # ks) ?p3 = read_sections L whole ranges ks ?p4" for ks
  proof (cases "wi_prelude w = 0")
    case True
    then have "?p4 = ?p3" using new by simp
    then show ?thesis using none [where k = 22] pay(22) True by simp
  next
    case False
    have "read_prelude ?p3 (put_idx (wi_prelude w)) = Some ?p4"
      by (rule prelude_step) (use fits(1) in \<open>simp add: side_tables_fit_def\<close>)
    then show ?thesis using section_read [OF h, where k = 22] pay(22) False by (simp add: read_section_def del: read_sections.simps)
  qed
  have 5: "read_sections L whole ranges (23 # ks) ?p4 = read_sections L whole ranges ks ?p5" for ks
  proof (cases "st_const_types st = []")
    case True
    then have "?p5 = ?p4" using new by (simp add: loaded_no_consts [symmetric])
    then show ?thesis using none [where k = 23] pay(23) True by simp
  next
    case False
    have "read_consts ?p4 (consts_section st) = Some ?p5"
      using consts_step [OF fits(2), of ?p4 \<rho>] new by (simp add: loaded_before_consts loaded_all)
    then show ?thesis using section_read [OF h, where k = 23] pay(23) False by (simp add: read_section_def del: read_sections.simps)
  qed
  have 6: "read_sections L whole ranges (24 # ks) ?p5 = read_sections L whole ranges ks ?p6" for ks
    using section_read [OF h pay(24)] identity_step [of ?p5] by (simp add: read_section_def del: read_sections.simps)
  have 7: "read_sections L whole ranges [25] ?p6 = Some (Some ?p7)"
  proof (cases "wi_summary w = []")
    case True
    then have "?p7 = ?p6" using new by simp
    then show ?thesis using none [where k = 25] pay(25) True by simp
  next
    case False
    have "summary_fits (ps_state ?p6) (wi_summary w)"
      using fits(1) by (simp add: side_tables_fit_def summary_fits_def st)
    moreover have "names_string ?p6 = names_string ps" "string_id L ?p6 = string_id L ps"
      by (simp_all add: names_string_def string_id_def fun_eq_iff)
    moreover from this have "summary_named ?p6 (string_index L s) (wi_summary w)"
      using named by (simp add: summary_named_def entry_names_def [abs_def])
    ultimately have "read_summary L ?p6 (summary_section (string_index L s) (wi_summary w)) = Some ?p7"
      using read_summary_put [of ?p6 "wi_summary w" "string_index L s" L] new by (simp add: ids)
    then show ?thesis using section_read [OF h, where k = 25] pay(25) False by (simp add: read_section_def)
  qed
  show ?thesis by (simp only: 1 2 3 4 5 6 7) simp
qed

lemma ids_named:
  assumes "ser_inv (wi_strings w) s" "strings_loaded L s ps" "s = collect_strings L w"
  shows "summary_named ps (string_index L s) (wi_summary w)"
proof -
  let ?ids = "collected_ids L (wi_storage w) (wi_summary w)"
  have n: "names_string ps (string_index L s i)" if "i = lib_invalid_id L \<or> i \<in> set ?ids" for i
    using that id_back(1) [OF assms(1,2), of i] collect_strings_ok(2) [of i L w] invalid_back(2) assms(3) by (cases "i = lib_invalid_id L") auto
  have e: "i = lib_invalid_id L \<or> i \<in> set ?ids"
    if "e \<in> set (wi_summary w)" "i \<in> {se_name e, se_path e, se_symbol e} \<union> sf_name ` set (se_fields e)" for e i
    using that by (auto simp: collected_ids_def summary_ids_def collect_pool_id_def)
  show ?thesis
    using n [OF e] unfolding summary_named_def list_all_iff entry_names_def all_fields_def by fastforce
qed

text \<open>
  The package as a reader answers it, stated without the functions of the writer: under new ids for its names, every
  other part what was written.  A file without a recorded hash has the hash zero.
\<close>

definition recorded_hashes :: "file_table \<Rightarrow> digest128 list" where
  "recorded_hashes files =
     (let n = length (ft_names files) in take n (ft_hashes files @ replicate n \<lparr>dg_low = 0, dg_high = 0\<rparr>))"

lemma recorded_hashes_eq: "recorded_hashes files = map (hash_of files) [0..<length (ft_names files)]"
  by (rule nth_equalityI) (auto simp: recorded_hashes_def Let_def hash_of_def nth_append)

definition read_back :: "library \<Rightarrow> write_input \<Rightarrow> (nat \<Rightarrow> nat) \<Rightarrow> symbol_table \<Rightarrow> loaded_ir" where
  "read_back L w \<rho> t =
     \<lparr>ld_storage = reload \<rho> (wi_storage w), ld_strings = t, ld_spans = wi_spans w, ld_file_names = ft_names (wi_files w),
      ld_file_hashes = recorded_hashes (wi_files w), ld_addr_names = wi_addr_names w,
      ld_prelude = wi_prelude w, ld_width = wi_width w, ld_version = wi_version w,
      ld_summary = map (rename_entry \<rho>) (wi_summary w),
      ld_summary_fields = map (rename_field \<rho>) (all_fields (wi_summary w)),
      ld_identity = identity_digest L (wi_files w) (wi_width w) (wi_version w)\<rparr>"

text \<open>The ids of names a package holds, table by table.\<close>

definition names_used :: "storage_state \<Rightarrow> summary_entry list \<Rightarrow> nat set" where
  "names_used st summary =
     (\<Union>f \<in> set (st_functions st). {fm_name (fn_meta f), fm_path (fn_meta f)})
     \<union> (\<Union>f \<in> set (st_external_functions st). {fm_name (xf_meta f), fm_path (xf_meta f)})
     \<union> sty_name ` set (st_struct_types st) \<union> ety_name ` set (st_enum_types st) \<union> ev_name ` set (st_enum_variant_types st)
     \<union> text_id ` {im \<in> set (st_immutables st). tn_tag (st_types st ! im_type im) = TyStr}
     \<union> (\<Union>e \<in> set summary. {se_name e, se_path e, se_symbol e} \<union> sf_name ` set (se_fields e))"

lemma collect_pool_id_set [simp]: "set (collect_pool_id L i) = {i} - {lib_invalid_id L}"
  by (auto simp: collect_pool_id_def)

lemma collected_all: "set (collected_ids L st summary) = names_used st summary - {lib_invalid_id L}"
  unfolding names_used_def collected_ids_def
  by (simp add: meta_ids_def summary_ids_def is_str_def if_distrib [of set] Un_Diff UN_extend_simps(1)) (auto split: if_splits)

text \<open>The new ids stand for the texts the old ones stood for.\<close>

definition keeps_texts :: "library \<Rightarrow> write_input \<Rightarrow> (nat \<Rightarrow> nat) \<Rightarrow> symbol_table \<Rightarrow> bool" where
  "keeps_texts L w \<rho> t \<longleftrightarrow> \<rho> (lib_invalid_id L) = lib_invalid_id L
     \<and> (\<forall>i \<in> names_used (wi_storage w) (wi_summary w) - {lib_invalid_id L}.
          sym_get t (\<rho> i) = sym_get (wi_strings w) i \<and> name_index t (sym_get (wi_strings w) i) = Some (\<rho> i))"

lemma package_reads_back:
  assumes "writable L w"
  shows "\<exists>\<rho> t. deserialize L (serialize L w) = Some (Inr (read_back L w \<rho> t)) \<and> keeps_texts L w \<rho> t"
proof -
  define s where "s = collect_strings L w"
  define st where "st = wi_storage w"
  let ?np = "new_parsed L (wi_width w) (wi_version w)" and ?whole = "serialize L w"
  have fits: "storage_wf st" "type_tables_fit st" "code_tables_fit st" "side_tables_fit w" "strings_fit L w" "file_fits L w" "tags_distinct L"
    using assms by (simp_all add: writable_def st_def)
  from load_finds [OF all_sections_framed [OF fits(6)], of L] obtain ranges where
    h: "holds_sections ?whole ranges (all_sections L w)" and
    load: "deserialize L ?whole = load_sections L ?whole ranges ?np" by (auto simp: serialize_def deserialize_def)
  from strings_section_read [OF h fits(5), of "wi_width w" "wi_version w", folded s_def] obtain t sids where
    1: "\<And>ks. read_sections L ?whole ranges (1 # ks) ?np = read_sections L ?whole ranges ks (?np\<lparr>ps_strings := t, ps_string_ids := sids\<rparr>)"
      "strings_loaded L s (?np\<lparr>ps_strings := t, ps_string_ids := sids\<rparr>)" by blast
  define ps where "ps = ?np\<lparr>ps_strings := t, ps_string_ids := sids\<rparr>"
  define \<rho> where "\<rho> = new_id L s ps"
  note col = collect_strings_ok [where w = w and L = L, folded s_def]
  have ids: "string_id L ps (string_index L s n) = \<rho> n" for n by (simp add: \<rho>_def new_id_def)
  have ps: "ps_state ps = loaded \<rho> st 1" "\<not> ps_unnamed ps" "ps_strings ps = t"
    unfolding loaded_none by (simp_all add: ps_def new_parsed_def)
  have str: "strings_loaded L s ps" using 1(2) by (simp add: ps_def)
  let ?p10 = "ps\<lparr>ps_state := loaded \<rho> st 10\<rparr>" and ?p18 = "ps\<lparr>ps_state := loaded \<rho> st 18\<rparr>"
  have 2: "read_sections L ?whole ranges (2 # 3 # 4 # 5 # 6 # 7 # 8 # 9 # 10 # ks) ps = read_sections L ?whole ranges ks ?p10" for ks
    by (rule type_sections_read [OF h st_def fits(2) ps(1,2)]) (use ids in \<open>simp add: s_def\<close>)
  have 3: "read_sections L ?whole ranges (11 # 12 # 13 # 14 # 15 # 16 # 17 # 18 # ks) ?p10 = read_sections L ?whole ranges ks ?p18" for ks
    using code_sections_read [OF h st_def fits(3) _ fits(7), of ?p10 \<rho>] ids fits(2) ps
    by (simp add: s_def type_tables_fit_def)
  have named: "summary_named ?p18 (string_index L s) (wi_summary w)" by (rule ids_named [OF col(1) _ s_def]) (use str in simp)
  define ps' where "ps' = ?p18\<lparr>ps_state := reload \<rho> st, ps_file_names := ft_names (wi_files w),
     ps_file_hashes := map (hash_of (wi_files w)) [0..<length (ft_names (wi_files w))], ps_spans := wi_spans w,
     ps_addr_names := wi_addr_names w, ps_prelude := wi_prelude w, ps_summary := map (rename_entry \<rho>) (wi_summary w),
     ps_summary_fields := map (rename_field \<rho>) (all_fields (wi_summary w)),
     ps_identity := identity_digest L (wi_files w) (wi_width w) (wi_version w)\<rparr>"
  have 4: "read_sections L ?whole ranges [19, 20, 21, 22, 23, 24, 25] ?p18 = Some (Some ps')"
    unfolding ps'_def
    by (rule side_sections_read [OF h st_def s_def fits(4,2) col(1) _ _ named]) (use str ids in \<open>simp_all add: ps_def\<close>)
  have kinds: "[1..<26] = [1, 2, 3, 4, 5, 6, 7, 8, 9, 10, 11, 12, 13, 14, 15, 16, 17, 18, 19, 20, 21, 22, 23, 24, 25]"
    by (simp add: upt_rec)
  have "read_sections L ?whole ranges [1..<26] ?np = Some (Some ps')"
    unfolding kinds 1(1) ps_def [symmetric] 2 3 4 ..
  moreover have "finish_load ps' = Some (Inr (assemble (reload \<rho> st) ps'))"
    using reload_wf [OF fits(1), of \<rho>] ps(2) verify_storage_iff [of "reload \<rho> st"]
    by (simp add: finish_load_def ps'_def build_def Let_def and_then_def ok_def take_state_def)
  ultimately have "deserialize L ?whole = Some (Inr (assemble (reload \<rho> st) ps'))" by (simp add: load load_sections_def)
  moreover have "\<rho> (lib_invalid_id L) = lib_invalid_id L" by (simp add: \<rho>_def invalid_back)
  moreover have "sym_get t (\<rho> i) = sym_get (wi_strings w) i \<and> name_index t (sym_get (wi_strings w) i) = Some (\<rho> i)"
    if i: "i \<in> names_used (wi_storage w) (wi_summary w) - {lib_invalid_id L}" for i
  proof -
    have "i \<in> set (collected_ids L (wi_storage w) (wi_summary w))" using i collected_all by simp
    then show ?thesis using i id_back [OF col(1) str _ col(2)] by (simp add: \<rho>_def ps(3))
  qed
  ultimately show ?thesis
    by (intro exI [of _ \<rho>] exI [of _ t]) (simp add: read_back_def keeps_texts_def recorded_hashes_eq assemble_def ps'_def ps_def new_parsed_def st_def)
qed

subsection \<open>A package\<close>

text \<open>A package with a function that returns nothing and a structure without fields, written from one source file.\<close>

definition sample_library :: library where
  "sample_library = \<lparr>lib_xxh3 = \<lambda>b. of_nat (length b), lib_xxh128 = \<lambda>bs. (of_nat (length bs), 7), lib_empty_id = 1,
     lib_invalid_id = 0, lib_tag = of_nat\<rparr>"

definition sample_storage :: storage_state where
  "sample_storage = empty_state\<lparr>
     st_types := map plain_node (take 18 ALL_TAGS @ [TyFunction]) @ [plain_node TyStruct],
     st_struct_types := [\<lparr>sty_name = 2, sty_fields = \<lparr>rg_head = 0, rg_size = 0\<rparr>, sty_params = \<lparr>rg_head = 0, rg_size = 0\<rparr>\<rparr>],
     st_functions := [\<lparr>fn_meta = \<lparr>fm_return_type = 0, fm_param_types = \<lparr>rg_head = 0, rg_size = 0\<rparr>, fm_name = 3, fm_path = 0,
         fm_kind = SkFree, fm_generics = \<lparr>rg_head = 0, rg_size = 0\<rparr>, fm_owner = None\<rparr>, fn_blocks = \<lparr>rg_head = 0, rg_size = 1\<rparr>\<rparr>],
     st_blocks := [\<lparr>bl_instrs = \<lparr>rg_head = 0, rg_size = 1\<rparr>, bl_params = \<lparr>rg_head = 0, rg_size = 0\<rparr>\<rparr>],
     st_instrs := [\<lparr>in_op = OpRet, in_flags = \<lparr>fl_rmw_op = RmwAdd, fl_inbounds = False\<rparr>, in_dst = None, in_measure = None,
         in_operands = \<lparr>rg_head = 0, rg_size = 0\<rparr>\<rparr>]\<rparr>"

definition sample_package :: write_input where
  "sample_package = \<lparr>wi_storage = sample_storage,
     wi_strings = \<lparr>sy_names = [[], [], ''Pair'', ''main''], sy_owned = [], sy_shards = [], sy_max_names = 9, sy_empty_id = 1\<rparr>,
     wi_spans = [\<lparr>span_file = 0, span_offset = 4, span_length = 6\<rparr>],
     wi_files = \<lparr>ft_names = [''a.al''], ft_hashes = [\<lparr>dg_low = 1, dg_high = 2\<rparr>]\<rparr>, wi_addr_names = [], wi_summary =
       [\<lparr>se_function = Some 0, se_type = None, se_name = 3, se_path = 0, se_symbol = 3, se_fields = [], se_owner = None,
         se_kind = SumFree, se_needs_body = False\<rparr>],
     wi_prelude = 1, wi_width = W64, wi_version = ''0.1''\<rparr>"

lemma package_types: "length (st_types sample_storage) = 20"
  by (simp add: sample_storage_def ALL_TAGS_def)

lemma sample_wf: "storage_wf sample_storage"
  by (simp add: sample_storage_def empty_state_def storage_wf_def ALL_TAGS_def type_wf_def plain_node_def Let_def
      range_in_bounds_def function_wf_def meta_wf_def is_valid_symbol_kind_def block_bounds_def block_wf_def block_regs_def
      storage_regs_def rows_def range_list_def instr_wf_def shape_wf_def shape_of_def arity_wf_def operand_arity_def is_terminator_def)

lemma package_types_fit: "type_tables_fit sample_storage"
  by (simp add: sample_storage_def empty_state_def type_tables_fit_def types_fit_def table_fits_def ALL_TAGS_def upt_rec
      type_okay_def plain_node_def fits32_def range_fits32_def tag_number_def)

lemma sample_code_fits: "code_tables_fit sample_storage"
  by (simp add: sample_storage_def empty_state_def code_tables_fit_def table_fits_def fits32_def range_fits32_def meta_fits_def
      opt_fits32_def named_kind_def instr_fits_def named_opcode_def)

lemma sample_side_fits: "side_tables_fit sample_package"
  by (simp add: sample_package_def side_tables_fit_def package_types sample_storage_def empty_state_def table_fits_def fits32_def
      span_okay_def summary_fits_def all_fields_def entry_fits_def opt_fits32_def)

lemma sample_names: "sr_names (collect_strings sample_library sample_package) = [''Pair'', ''main'', ''a.al'']"
  by (simp add: sample_package_def sample_storage_def empty_state_def collect_strings_def collected_ids_def meta_ids_def
      collect_pool_id_def sample_library_def summary_ids_def add_pool_id_def add_name_def new_serializer_def sym_get_def Let_def)

lemma sample_room: "room_for (map snd (all_sections sample_library sample_package)) < 2000"
  by (simp add: all_sections_def Let_def strings_section_row types_section_def structs_section_def arrays_section_def
      slices_section_def enums_section_def enum_variants_section_def refs_section_def tuples_section_def funcs_section_def
      functions_section_def blocks_section_def block_params_section_def registers_section_def instructions_section_def
      operands_section_def immutables_section_def externals_section_def files_section_def spans_section_def
      summary_section_def type_rows.section_length struct_rows.section_length function_rows.section_length block_rows.section_length
      instruction_rows.section_length file_rows.section_length span_rows.section_length summary_rows.section_length
      sample_names package_types)
    (simp add: sample_package_def sample_storage_def empty_state_def rows_section_def string_row_def)

lemma sample_writable: "writable sample_library sample_package"
proof -
  have "wi_storage sample_package = sample_storage" "wi_version sample_package = ''0.1''" by (simp_all add: sample_package_def)
  moreover have "tags_distinct sample_library" by (simp add: tags_distinct_def sample_library_def upt_rec)
  moreover have "strings_fit sample_library sample_package"
    by (simp add: strings_fit_def sample_names MAX_NAMES_def fits32_def) (simp add: sample_library_def)
  ultimately show ?thesis
    using sample_wf package_types_fit sample_code_fits sample_side_fits sample_room
    by (simp add: writable_def file_fits_def fits32_def)
qed

lemma sample_accepted: "\<exists>\<rho> t. deserialize sample_library (serialize sample_library sample_package)
    = Some (Inr (read_back sample_library sample_package \<rho> t))"
  using package_reads_back [OF sample_writable] by blast

subsection \<open>Properties\<close>

text \<open>
  C1. A package whose numbers fit the format is read back from the bytes it is written to: the reader accepts the
  file, and answers the package itself, its storage under new ids for its names; only bytes that carry nothing are cleared, the
  payload of a type without parts and the bits of a constant above the width of its type.  Every name the package uses is, under
  its new id, the text it was under the old one; file names, hashes, spans, names of registers, the prelude, the
  pointer width, the version, the summary and the digest of the package are what was written.
\<close>

theorem serialize_roundtrip:
  assumes "writable L w"
  shows "\<exists>\<rho> t. deserialize L (serialize L w) = Some (Inr (read_back L w \<rho> t)) \<and> keeps_texts L w \<rho> t"
  by (rule package_reads_back [OF assms])

theorem serialize_roundtrip_witness:
  "\<exists>ld. deserialize sample_library (serialize sample_library sample_package) = Some (Inr ld) \<and> ld_file_names ld = [''a.al'']
     \<and> sym_get (ld_strings ld) (sty_name (st_struct_types (ld_storage ld) ! 0)) = ''Pair''"
proof -
  have ids: "2 \<in> names_used (wi_storage sample_package) (wi_summary sample_package) - {lib_invalid_id sample_library}"
    by (simp add: sample_package_def sample_storage_def empty_state_def names_used_def sample_library_def)
  have "sym_get (wi_strings sample_package) 2 = ''Pair''" "ft_names (wi_files sample_package) = [''a.al'']"
    "st_struct_types (reload \<rho> (wi_storage sample_package)) ! 0 = (st_struct_types sample_storage ! 0)\<lparr>sty_name := \<rho> 2\<rparr>" for \<rho>
    by (simp_all add: sample_package_def sym_get_def reload_def sample_storage_def)
  with serialize_roundtrip [OF sample_writable] ids show ?thesis
    by (fastforce simp: keeps_texts_def read_back_def)
qed

end
