(* ===== verification/Ir_Load_Safety.thy ===== *)
theory Ir_Load_Safety
  imports Ir_Roundtrip
begin

text \<open>
  What a reader accepts, whatever bytes it is given: a storage the verifier accepts, and side tables whose references
  stay inside it.
\<close>

subsection \<open>What each section may change\<close>

definition tables_only :: "parsed \<Rightarrow> parsed \<Rightarrow> bool" where
  "tables_only ps ps' \<longleftrightarrow> ps' = ps\<lparr>ps_state := ps_state ps', ps_unnamed := ps_unnamed ps'\<rparr>"

lemma table_sections_only:
  assumes "read_section L ps k p = Some (Some ps')" "2 \<le> k" "k \<le> 18 \<or> k = 23"
  shows "tables_only ps ps'"
proof -
  have "{2..<19 :: nat} = {2, 3, 4, 5, 6, 7, 8, 9, 10, 11, 12, 13, 14, 15, 16, 17, 18}"
    unfolding atLeastLessThan_upt by (simp add: upt_rec del: set_upt)
  moreover have "k \<in> {2..<19} \<union> {23}" using assms(2,3) by auto
  ultimately have "k \<in> {2, 3, 4, 5, 6, 7, 8, 9, 10, 11, 12, 13, 14, 15, 16, 17, 18, 23}" by blast
  then show ?thesis using assms(1)
    by (auto simp: tables_only_def read_section_def on_tables_def read_types_def read_structs_def read_arrays_def read_slices_def
        read_enums_def read_enum_variants_def read_refs_def read_tuples_def read_funcs_def read_functions_def read_blocks_def
        read_block_params_def read_registers_def read_instructions_def read_operands_def read_immutables_def read_externals_def
        read_consts_def Let_def split: if_splits option.splits)
qed

lemma read_string_rows_only:
  "read_string_rows L n ps bs = Some (Some (ps', rest)) \<Longrightarrow> \<exists>t ids. ps' = ps\<lparr>ps_strings := t, ps_string_ids := ids\<rparr>"
proof (induction L n ps bs rule: read_string_rows.induct)
  case (1 L ps bs)
  then show ?case by (intro exI [of _ "ps_strings ps"] exI [of _ "ps_string_ids ps"]) simp
next
  case (2 L n ps bs)
  then show ?case by (fastforce split: option.splits prod.splits)
qed

lemma strings_only:
  "read_strings L ps p = Some (Some ps') \<Longrightarrow> \<exists>t ids. ps' = ps\<lparr>ps_strings := t, ps_string_ids := ids\<rparr>"
  using read_string_rows_only by (fastforce simp: read_strings_def split: option.splits prod.splits if_splits)

lemma take_rows_all:
  assumes "take_rows get i n bs = Some (xs, rest)" "\<And>i bs x r. get i bs = Some (x, r) \<Longrightarrow> P x"
  shows "\<forall>x \<in> set xs. P x"
  using assms(1)
proof (induction n arbitrary: i bs xs)
  case (Suc n)
  then obtain x bs1 ys where "get i bs = Some (x, bs1)" "take_rows get (Suc i) n bs1 = Some (ys, rest)" "xs = x # ys"
    by (auto split: option.splits)
  then show ?case using assms(2) Suc.IH by auto
qed simp

lemma read_rows_all:
  assumes "read_rows sz get p = Some xs" "\<And>i bs x r. get i bs = Some (x, r) \<Longrightarrow> P x"
  shows "\<forall>x \<in> set xs. P x"
  using assms take_rows_all [of get 0 _ _ xs _ P] by (auto simp: read_rows_def Let_def split: option.splits if_splits)

lemma take_rows_length: "take_rows get i n bs = Some (xs, rest) \<Longrightarrow> length xs = n"
  by (induction get i n bs arbitrary: xs rule: take_rows.induct) (auto split: option.splits)

lemma read_rows_length: "read_rows sz get p = Some xs \<Longrightarrow> length xs = unat (record_count (length p) sz)"
  by (auto simp: read_rows_def Let_def split: option.splits if_splits dest: take_rows_length)

subsection \<open>What the side tables refer to\<close>

definition spans_safe :: "parsed \<Rightarrow> bool" where
  "spans_safe ps \<longleftrightarrow> (ps_spans ps = [] \<or> length (ps_spans ps) = length (st_instrs (ps_state ps)))
     \<and> (\<forall>sp \<in> set (ps_spans ps). span_file sp = unat NONE \<or> span_file sp < length (ps_file_names ps))"

definition addr_names_safe :: "parsed \<Rightarrow> bool" where
  "addr_names_safe ps \<longleftrightarrow> (\<forall>a \<in> set (ps_addr_names ps). an_reg a < length (st_registers (ps_state ps)))"

definition entry_safe :: "storage_state \<Rightarrow> summary_entry \<Rightarrow> bool" where
  "entry_safe st e \<longleftrightarrow> (\<forall>f. se_function e = Some f \<longrightarrow> f < length (st_functions st))
     \<and> (\<forall>t. se_type e = Some t \<longrightarrow> t < length (st_types st)) \<and> (\<forall>t. se_owner e = Some t \<longrightarrow> t < length (st_types st))
     \<and> (se_function e = None \<or> se_type e = None)"

lemma spans_read_safe:
  assumes "read_spans ps p = Some ps'" "ps_spans ps = []"
  shows "\<exists>rows. ps' = ps\<lparr>ps_spans := rows\<rparr> \<and> spans_safe ps'"
proof -
  obtain rows where r: "read_rows 12 (read_span ps) p = Some rows" "ps' = ps\<lparr>ps_spans := rows\<rparr>"
    "record_count (length p) 12 \<noteq> 0 \<longrightarrow> unat (record_count (length p) 12) = length (st_instrs (ps_state ps))"
    using assms by (auto simp: read_spans_def Let_def split: if_splits)
  have "\<forall>sp \<in> set rows. span_file sp = unat NONE \<or> span_file sp < length (ps_file_names ps)"
    by (rule read_rows_all [OF r(1)]) (auto simp: read_span_def split: Option.bind_splits if_splits)
  moreover have "rows = [] \<or> length rows = length (st_instrs (ps_state ps))"
    using read_rows_length [OF r(1)] r(3) by fastforce
  ultimately show ?thesis using r(2) by (auto simp: spans_safe_def)
qed

lemma addr_names_read_safe:
  assumes "read_addr_names ps p = Some ps'" "ps_addr_names ps = []"
  shows "\<exists>rows. ps' = ps\<lparr>ps_addr_names := rows\<rparr> \<and> addr_names_safe ps'"
proof -
  obtain rows where r: "read_rows 12 (read_addr_name ps) p = Some rows" "ps' = ps\<lparr>ps_addr_names := rows\<rparr>"
    using assms by (auto simp: read_addr_names_def)
  have "\<forall>a \<in> set rows. an_reg a < length (st_registers (ps_state ps))"
    by (rule read_rows_all [OF r(1)]) (auto simp: read_addr_name_def split: Option.bind_splits if_splits)
  then show ?thesis using r(2) by (auto simp: addr_names_safe_def)
qed

lemma summary_row_safe: "read_summary_row L ps i bs = Some (e, rest) \<Longrightarrow> entry_safe (ps_state ps) e"
  by (auto simp: read_summary_row_def entry_safe_def opt_idx_def split: Option.bind_splits if_splits)

lemma apply_runs_safe:
  "apply_runs runs ps = Some ps' \<Longrightarrow> \<forall>e \<in> set (ps_summary ps). entry_safe st e \<Longrightarrow>
     (\<exists>es. ps' = ps\<lparr>ps_summary := es\<rparr> \<and> (\<forall>e \<in> set es. entry_safe st e))"
proof (induction runs ps rule: apply_runs.induct)
  case (1 ps)
  then show ?case by (intro exI [of _ "ps_summary ps"]) simp
next
  case (2 at first count runs ps)
  let ?es = "(ps_summary ps)[at := (ps_summary ps ! at)\<lparr>se_fields := take count (drop first (ps_summary_fields ps))\<rparr>]"
  have "\<forall>e \<in> set ?es. entry_safe st e"
  proof (cases "at < length (ps_summary ps)")
    case True
    then have "entry_safe st (ps_summary ps ! at)" using 2(3) by simp
    then have "entry_safe st ((ps_summary ps ! at)\<lparr>se_fields := take count (drop first (ps_summary_fields ps))\<rparr>)"
      by (simp add: entry_safe_def)
    then show ?thesis using 2(3) set_update_subset_insert by fastforce
  qed (use 2(3) in \<open>simp add: list_update_beyond\<close>)
  then show ?case using 2 by (fastforce split: if_splits)
qed

lemma summary_read_safe:
  assumes "read_summary L ps p = Some ps'" "ps_summary ps = []"
  shows "\<exists>es flds. ps' = ps\<lparr>ps_summary_fields := flds, ps_summary := es\<rparr> \<and> (\<forall>e \<in> set es. entry_safe (ps_state ps) e)"
proof -
  obtain n bs entries bs' runs flds where
    e: "take_rows (read_summary_row L ps) 0 n bs = Some (entries, bs')" and
    r: "apply_runs runs (ps\<lparr>ps_summary := entries, ps_summary_fields := flds\<rparr>) = Some ps'"
    using assms by (clarsimp simp: read_summary_def Let_def bind_eq_Some_conv split: if_splits)
  have "\<forall>e \<in> set entries. entry_safe (ps_state ps) e" by (rule take_rows_all [OF e]) (rule summary_row_safe)
  then obtain es where "ps' = ps\<lparr>ps_summary_fields := flds, ps_summary := es\<rparr>" "\<forall>e \<in> set es. entry_safe (ps_state ps) e"
    using apply_runs_safe [OF r, of "ps_state ps"] by auto
  then show ?thesis by blast
qed

subsection \<open>The kinds in their order\<close>

text \<open>Before the sections of kind \<open>k\<close> are read: the side tables that come later are empty, the others refer into the tables.\<close>

definition load_inv :: "nat \<Rightarrow> parsed \<Rightarrow> bool" where
  "load_inv k ps \<longleftrightarrow> (k \<le> 20 \<longrightarrow> ps_spans ps = []) \<and> (k \<le> 21 \<longrightarrow> ps_addr_names ps = []) \<and> (k \<le> 25 \<longrightarrow> ps_summary ps = [])
     \<and> spans_safe ps \<and> addr_names_safe ps \<and> (\<forall>e \<in> set (ps_summary ps). entry_safe (ps_state ps) e)"

lemma section_keeps:
  assumes "read_section L ps k p = Some (Some ps')" "load_inv k ps" "1 \<le> k"
  shows "load_inv (Suc k) ps'"
proof -
  consider "k = 1" | "2 \<le> k \<and> k \<le> 18" | "k = 19" | "k = 20" | "k = 21" | "k = 22" | "k = 23" | "k = 24" | "k = 25" | "25 < k"
    using assms(3) by linarith
  then show ?thesis
  proof cases
    case 1
    then show ?thesis using assms strings_only [of L ps p ps']
      by (auto simp: read_section_def load_inv_def spans_safe_def addr_names_safe_def)
  next
    case 2
    then have "tables_only ps ps'" using table_sections_only [OF assms(1)] by simp
    then have "ps_spans ps' = ps_spans ps" "ps_addr_names ps' = ps_addr_names ps" "ps_summary ps' = ps_summary ps"
      unfolding tables_only_def by (metis parsed.select_convs parsed.update_convs parsed.surjective)+
    then show ?thesis using 2 assms(2) by (simp add: load_inv_def spans_safe_def addr_names_safe_def)
  next
    case 3
    then show ?thesis using assms
      by (auto simp: read_section_def read_files_def load_inv_def spans_safe_def addr_names_safe_def)
  next
    case 4
    then show ?thesis using assms spans_read_safe [of ps p ps']
      by (auto simp: read_section_def load_inv_def addr_names_safe_def)
  next
    case 5
    then show ?thesis using assms addr_names_read_safe [of ps p ps']
      by (auto simp: read_section_def load_inv_def spans_safe_def)
  next
    case 6
    then show ?thesis using assms
      by (auto simp: read_section_def read_prelude_def load_inv_def spans_safe_def addr_names_safe_def split: if_splits)
  next
    case 7
    then show ?thesis using assms
      by (auto simp: read_section_def read_consts_def on_tables_def load_inv_def spans_safe_def addr_names_safe_def entry_safe_def)
  next
    case 8
    then show ?thesis using assms
      by (auto simp: read_section_def read_identity_def load_inv_def spans_safe_def addr_names_safe_def split: if_splits)
  next
    case 9
    then show ?thesis using assms summary_read_safe [of L ps p ps']
      by (auto simp: read_section_def load_inv_def spans_safe_def addr_names_safe_def)
  next
    case 10
    then show ?thesis using assms by (simp add: read_section_def load_inv_def)
  qed
qed

lemma sections_keep:
  "read_sections L whole ranges [k..<n] ps = Some (Some ps') \<Longrightarrow> load_inv k ps \<Longrightarrow> 1 \<le> k \<Longrightarrow> k \<le> n \<Longrightarrow> load_inv n ps'"
proof (induction "n - k" arbitrary: k ps)
  case (Suc d)
  then have k: "[k..<n] = k # [Suc k..<n]" by (simp add: upt_conv_Cons)
  have skip: "load_inv (Suc k) ps" using Suc.prems(2) by (simp add: load_inv_def)
  show ?case
  proof (cases "ranges k")
    case None
    then show ?thesis using Suc.hyps(1) [of "Suc k" ps] Suc.hyps(2) Suc.prems skip by (simp add: k)
  next
    case (Some r)
    obtain off sz where r: "r = (off, sz)" by fastforce
    obtain ps1 where one: "read_section L ps k (take sz (drop off whole)) = Some (Some ps1)"
      "read_sections L whole ranges [Suc k..<n] ps1 = Some (Some ps')"
      using Suc.prems(1) Some r by (auto simp: k split: option.splits)
    show ?thesis
      using Suc.hyps(1) [of "Suc k" ps1] Suc.hyps(2) Suc.prems one section_keeps [OF one(1) Suc.prems(2,3)] by simp
  qed
qed simp

subsection \<open>Accepted files\<close>

lemma next_digest_back:
  assumes "length bs = 16" "next_digest bs = Some (d, rest)"
  shows "bs = write_digest d"
proof -
  have "write_digest d = put_le 8 (dg_low d) @ put_le 8 (dg_high d)"
    by (simp add: write_digest_def digest_bytes_eq put_le_def)
  moreover have "d = \<lparr>dg_low = get_le 8 (take 8 bs), dg_high = get_le 8 (take 8 (drop 8 bs))\<rparr>"
    using assms by (simp add: next_digest_def)
  moreover have "put_le 8 (get_le 8 b :: u64) = b" if "length b = 8" for b
    by (rule put_get_le) (use that in simp_all)
  ultimately show ?thesis using assms(1) by simp
qed

lemma load_inv_new: "load_inv 1 (new_parsed L width version)"
  by (simp add: load_inv_def new_parsed_def spans_safe_def addr_names_safe_def)

lemma loaded_parts:
  assumes "load_body L whole (new_parsed L width version) bs = Some (Inr ld)"
  shows "\<exists>ps. load_inv 26 ps \<and> ld = assemble (ps_state ps) ps \<and> storage_wf (ps_state ps)"
proof -
  obtain ranges ps where r: "read_sections L whole ranges [1..<26] (new_parsed L width version) = Some (Some ps)"
    "finish_load ps = Some (Inr ld)"
    using assms by (auto simp: load_body_def split: option.splits prod.splits if_splits sum.splits)
  have inv: "load_inv 26 ps" by (rule sections_keep [OF r(1) load_inv_new]) simp_all
  have "verify_storage (ps_state ps) = Some (Inr ())" "ld = assemble (ps_state ps) ps"
    using r(2) by (auto simp: finish_load_def build_def and_then_def ok_def take_state_def Let_def split: if_splits option.splits sum.splits)
  then show ?thesis using inv verify_storage_iff [of "ps_state ps"] by (auto simp: ok_def)
qed

text \<open>
  C5. Whatever bytes the reader is given, a file it accepts ends in the digest of all before it, its storage is one
  the verifier accepts, its spans are none or one for each instruction and lie in files it names, the registers it
  names exist, and every row of its summary names a function or a type that exists, never both.
\<close>

theorem accepted_file_safe:
  assumes "deserialize L whole = Some (Inr ld)"
  shows "(\<exists>body. whole = MAGIC @ body) \<and> (\<exists>body. whole = body @ write_digest (hash128 (lib_xxh128 L) body))
    \<and> storage_wf (ld_storage ld)
    \<and> (ld_spans ld = [] \<or> length (ld_spans ld) = length (st_instrs (ld_storage ld)))
    \<and> (\<forall>sp \<in> set (ld_spans ld). span_file sp = 2 ^ 32 - 1 \<or> span_file sp < length (ld_file_names ld))
    \<and> (\<forall>a \<in> set (ld_addr_names ld). an_reg a < length (st_registers (ld_storage ld)))
    \<and> (\<forall>e \<in> set (ld_summary ld). entry_safe (ld_storage ld) e)"
proof -
  obtain magic rest version width bs where m: "take_bytes 4 whole = Some (MAGIC, rest)" and l: "\<not> length whole < 28"
    and d: "map_option fst (next_digest (drop (length whole - 16) whole)) = Some (hash128 (lib_xxh128 L) (take (length whole - 16) whole))"
    and b: "load_body L whole (new_parsed L width version) bs = Some (Inr ld)"
    using assms by (auto simp: deserialize_def load_file_def split: if_splits option.splits prod.splits)
  have "take 4 whole = MAGIC" using m by (simp add: take_bytes_def split: if_splits)
  then have "whole = MAGIC @ drop 4 whole" by (metis append_take_drop_id)
  moreover have "drop (length whole - 16) whole = write_digest (hash128 (lib_xxh128 L) (take (length whole - 16) whole))"
  proof -
    obtain r where "next_digest (drop (length whole - 16) whole) = Some (hash128 (lib_xxh128 L) (take (length whole - 16) whole), r)"
      using d by auto
    then show ?thesis by (rule next_digest_back [rotated]) (use l in simp)
  qed
  then have "whole = take (length whole - 16) whole @ write_digest (hash128 (lib_xxh128 L) (take (length whole - 16) whole))"
    by (metis append_take_drop_id)
  moreover obtain ps where ps: "load_inv 26 ps" "ld = assemble (ps_state ps) ps" "storage_wf (ps_state ps)"
    using loaded_parts [OF b] by blast
  have "ld_storage ld = ps_state ps" "ld_spans ld = ps_spans ps" "ld_file_names ld = ps_file_names ps"
    "ld_addr_names ld = ps_addr_names ps" "ld_summary ld = ps_summary ps" by (simp_all add: ps(2) assemble_def)
  ultimately show ?thesis using ps(1,3) unat_NONE
    by (auto simp: load_inv_def spans_safe_def addr_names_safe_def)
qed

theorem accepted_file_safe_witness:
  "\<exists>ld. deserialize sample_library (serialize sample_library sample_package) = Some (Inr ld) \<and> storage_wf (ld_storage ld)
     \<and> length (ld_spans ld) = 1"
proof -
  obtain ld where ld: "deserialize sample_library (serialize sample_library sample_package) = Some (Inr ld)"
    using sample_accepted by blast
  moreover have "length (ld_spans ld) = 1" using ld sample_accepted by (auto simp: read_back_def sample_package_def)
  ultimately show ?thesis using accepted_file_safe [OF ld] by blast
qed

end
