(* ===== verification/Text_Json.thy ===== *)
theory Text_Json
  imports Base_Digest Map_Interface
begin

text \<open>
  \<^verbatim>\<open>src/src/text/json.h\<close> and \<^verbatim>\<open>json.cc\<close>: JSON values, their reader and their writer.  The reader's position is the text it
  has left; an error keeps the text that was left where it was found.  A double is the word of its bits, with its
  integral values and the conversion from an integer written out.  Formatting (the \<^verbatim>\<open>fmt\<close> library) and the reading of a
  decimal fraction (\<^verbatim>\<open>std::from_chars\<close>) are parameters.  The recursive descent runs on fuel, and
  \<^verbatim>\<open>json_parse_returns\<close> shows the fuel of \<^verbatim>\<open>parse_json\<close> enough.
\<close>

record json_library =
  jl_show_int :: "int \<Rightarrow> bytes"
  jl_show_float :: "u64 \<Rightarrow> bytes"
  jl_escape4 :: "nat \<Rightarrow> bytes"
  jl_parse_float :: "bytes \<Rightarrow> u64 option"

subsection \<open>Values\<close>

datatype json =
    JNull
  | JBool bool
  | JNumber u64
  | JString bytes
  | JArray "json list"
  | JObject "(bytes \<times> json) list"

datatype json_kind = JkNull | JkBool | JkNumber | JkString | JkArray | JkObject

definition json_kind_of :: "json \<Rightarrow> json_kind" where
  "json_kind_of v = (case v of JNull \<Rightarrow> JkNull | JBool _ \<Rightarrow> JkBool | JNumber _ \<Rightarrow> JkNumber | JString _ \<Rightarrow> JkString
     | JArray _ \<Rightarrow> JkArray | JObject _ \<Rightarrow> JkObject)"

definition json_find :: "json \<Rightarrow> bytes \<Rightarrow> json option" where
  "json_find v key = (case v of JObject ms \<Rightarrow> map_option snd (List.find (\<lambda>m. fst m = key) ms) | _ \<Rightarrow> None)"

text \<open>\<^verbatim>\<open>elements_\<close> holds an array's elements and the values of an object's members.\<close>

definition as_array :: "json \<Rightarrow> json list" where
  "as_array v = (case v of JArray es \<Rightarrow> es | JObject ms \<Rightarrow> map snd ms | _ \<Rightarrow> [])"

definition key_at :: "json \<Rightarrow> nat \<Rightarrow> bytes" where
  "key_at v index = (case v of JObject ms \<Rightarrow> if index < length ms then fst (ms ! index) else [] | _ \<Rightarrow> [])"

definition bool_or :: "json \<Rightarrow> bool \<Rightarrow> bool" where
  "bool_or v fallback = (case v of JBool b \<Rightarrow> b | _ \<Rightarrow> fallback)"

definition number_or :: "json \<Rightarrow> u64 \<Rightarrow> u64" where
  "number_or v fallback = (case v of JNumber n \<Rightarrow> n | _ \<Rightarrow> fallback)"

definition string_or :: "json \<Rightarrow> bytes \<Rightarrow> bytes" where
  "string_or v fallback = (case v of JString s \<Rightarrow> s | _ \<Rightarrow> fallback)"

definition json_push :: "json \<Rightarrow> json \<Rightarrow> json" where
  "json_push v element = (case v of JArray es \<Rightarrow> JArray (es @ [element]) | _ \<Rightarrow> v)"

fun set_member :: "(bytes \<times> json) list \<Rightarrow> bytes \<Rightarrow> json \<Rightarrow> (bytes \<times> json) list" where
  "set_member [] key v = [(key, v)]"
| "set_member ((k, old) # ms) key v = (if k = key then (k, v) # ms else (k, old) # set_member ms key v)"

definition json_set :: "json \<Rightarrow> bytes \<Rightarrow> json \<Rightarrow> json" where
  "json_set v key member = (case v of JObject ms \<Rightarrow> JObject (set_member ms key member) | _ \<Rightarrow> v)"

subsection \<open>Doubles\<close>

definition f64_exponent :: "u64 \<Rightarrow> nat" where
  "f64_exponent v = unat (drop_bit 52 v AND 0x7FF)"

definition f64_significand :: "u64 \<Rightarrow> nat" where
  "f64_significand v = unat (v AND mask 52) + (if f64_exponent v = 0 then 0 else 2 ^ 52)"

definition F64_SIGN :: u64 where
  "F64_SIGN = push_bit 63 1"

definition f64_negative :: "u64 \<Rightarrow> bool" where
  "f64_negative v \<longleftrightarrow> bit v 63"

definition f64_finite :: "u64 \<Rightarrow> bool" where
  "f64_finite v \<longleftrightarrow> f64_exponent v \<noteq> 0x7FF"

text \<open>The value as an integer where it is its own floor and less than \<open>2 ^ 53\<close> in size.\<close>

definition small_integer :: "u64 \<Rightarrow> int option" where
  "small_integer v =
     (let e = f64_exponent v; m = f64_significand v; k = 1075 - e in
      if m = 0 then Some 0
      else if 1023 \<le> e \<and> e \<le> 1075 \<and> m mod 2 ^ k = 0
      then Some (if f64_negative v then - int (m div 2 ^ k) else int (m div 2 ^ k))
      else None)"

fun bit_len :: "nat \<Rightarrow> nat" where
  "bit_len n = (if n = 0 then 0 else Suc (bit_len (n div 2)))"

declare bit_len.simps [simp del]

text \<open>\<^verbatim>\<open>static_cast<f64>\<close> of a 64-bit integer: to the nearest double, ties to an even significand.\<close>

definition f64_of_int :: "int \<Rightarrow> u64" where
  "f64_of_int i =
     (if i = 0 then 0
      else let n = nat \<bar>i\<bar>; len = bit_len n; k = len - 53; q = n div 2 ^ k; r = n mod 2 ^ k;
               up = (if k = 0 then 0 else if 2 ^ k < 2 * r \<or> (2 * r = 2 ^ k \<and> odd q) then 1 else 0);
               m = (if k = 0 then n * 2 ^ (53 - len) else q + up);
               e = 1022 + len + (if m = 2 ^ 53 then 1 else 0);
               f = (if m = 2 ^ 53 then 0 else m - 2 ^ 52)
           in (if i < 0 then F64_SIGN else 0) OR push_bit 52 (of_nat e) OR of_nat f)"

subsection \<open>The reader\<close>

record json_fault =
  jf_left :: bytes
  jf_message :: string

type_synonym 'a json_read = "(json_fault, 'a \<times> bytes) result"

definition json_fail :: "bytes \<Rightarrow> string \<Rightarrow> 'a json_read" where
  "json_fail left msg = Inl \<lparr>jf_left = left, jf_message = msg\<rparr>"

definition is_ws :: "char \<Rightarrow> bool" where
  "is_ws c \<longleftrightarrow> c = CHR '' '' \<or> c = CHR 0x09 \<or> c = CHR 0x0A \<or> c = CHR 0x0D"

definition skip_ws :: "bytes \<Rightarrow> bytes" where
  "skip_ws cs = dropWhile is_ws cs"

definition json_eat :: "char \<Rightarrow> bytes \<Rightarrow> bytes option" where
  "json_eat c cs = (case cs of [] \<Rightarrow> None | d # ds \<Rightarrow> if d = c then Some ds else None)"

definition consume_word :: "bytes \<Rightarrow> json \<Rightarrow> bytes \<Rightarrow> json json_read" where
  "consume_word w v cs =
     (if take (length w) cs \<noteq> w then json_fail cs ''invalid literal'' else Inr (v, drop (length w) cs))"

definition json_utf8 :: "u32 \<Rightarrow> bytes" where
  "json_utf8 code =
     (let chr = \<lambda>w :: u32. char_of (unat (ucast w :: u8)) :: char in
      if code \<le> 0x7F then [chr code]
      else if code \<le> 0x7FF then [chr (0xC0 OR drop_bit 6 code), chr (0x80 OR (code AND 0x3F))]
      else if code \<le> 0xFFFF
      then [chr (0xE0 OR drop_bit 12 code), chr (0x80 OR (drop_bit 6 code AND 0x3F)), chr (0x80 OR (code AND 0x3F))]
      else [chr (0xF0 OR drop_bit 18 code), chr (0x80 OR (drop_bit 12 code AND 0x3F)),
            chr (0x80 OR (drop_bit 6 code AND 0x3F)), chr (0x80 OR (code AND 0x3F))])"

definition HEX_MESSAGE :: string where
  "HEX_MESSAGE = ''a '' @ CHR 0x5C # ''u escape needs four hex digits''"

definition hex_digit :: "char \<Rightarrow> u32 option" where
  "hex_digit c =
     (let n = of_char c :: nat in
      if 48 \<le> n \<and> n \<le> 57 then Some (of_nat (n - 48))
      else if 97 \<le> n \<and> n \<le> 102 then Some (of_nat (n - 97) + 10)
      else if 65 \<le> n \<and> n \<le> 70 then Some (of_nat (n - 65) + 10)
      else None)"

fun hex_digits :: "nat \<Rightarrow> u32 \<Rightarrow> bytes \<Rightarrow> u32 json_read" where
  "hex_digits 0 v cs = Inr (v, cs)"
| "hex_digits (Suc n) v cs =
     (case cs of
        [] \<Rightarrow> json_fail cs HEX_MESSAGE
      | c # cs' \<Rightarrow>
          (case hex_digit c of
             None \<Rightarrow> json_fail cs HEX_MESSAGE
           | Some d \<Rightarrow> hex_digits n (push_bit 4 v OR d) cs'))"

definition read_hex4 :: "bytes \<Rightarrow> u32 json_read" where
  "read_hex4 cs =
     (if length cs < 4 then json_fail cs HEX_MESSAGE else hex_digits 4 0 cs)"

definition read_unicode_escape :: "bytes \<Rightarrow> bytes json_read" where
  "read_unicode_escape cs =
     (case read_hex4 cs of
        Inl e \<Rightarrow> Inl e
      | Inr (code, rest) \<Rightarrow>
          if 0xD800 \<le> code \<and> code \<le> 0xDBFF
          then (if take 2 rest = [CHR 0x5C, CHR ''u'']
                then (case read_hex4 (drop 2 rest) of
                        Inl e \<Rightarrow> Inl e
                      | Inr (low, rest') \<Rightarrow>
                          if 0xDC00 \<le> low \<and> low \<le> 0xDFFF
                          then Inr (json_utf8 (0x10000 + push_bit 10 (code - 0xD800) + (low - 0xDC00)), rest')
                          else Inr (json_utf8 0xFFFD, rest))
                else Inr (json_utf8 0xFFFD, rest))
          else if 0xDC00 \<le> code \<and> code \<le> 0xDFFF then Inr (json_utf8 0xFFFD, rest)
          else Inr (json_utf8 code, rest))"

definition read_escape :: "bytes \<Rightarrow> bytes json_read" where
  "read_escape cs =
     (case cs of
        [] \<Rightarrow> json_fail cs ''unterminated escape''
      | c # rest \<Rightarrow>
          if c = CHR 0x22 then Inr ([CHR 0x22], rest)
          else if c = CHR 0x5C then Inr ([CHR 0x5C], rest)
          else if c = CHR ''/'' then Inr ([CHR ''/''], rest)
          else if c = CHR ''b'' then Inr ([CHR 0x08], rest)
          else if c = CHR ''f'' then Inr ([CHR 0x0C], rest)
          else if c = CHR ''n'' then Inr ([CHR 0x0A], rest)
          else if c = CHR ''r'' then Inr ([CHR 0x0D], rest)
          else if c = CHR ''t'' then Inr ([CHR 0x09], rest)
          else if c = CHR ''u'' then read_unicode_escape rest
          else json_fail cs ''unknown escape in a string'')"

lemma hex_digits_shorter: "hex_digits n v cs = Inr (w, rest) \<Longrightarrow> length rest + n = length cs"
  by (induction n v cs rule: hex_digits.induct) (auto simp: json_fail_def split: list.splits option.splits)

lemma read_hex4_shorter: "read_hex4 cs = Inr (w, rest) \<Longrightarrow> length rest + 4 = length cs"
  by (auto simp: read_hex4_def json_fail_def dest: hex_digits_shorter split: if_splits)

lemma read_escape_shorter: "read_escape cs = Inr (w, rest) \<Longrightarrow> length rest < length cs"
  by (auto simp: read_escape_def read_unicode_escape_def json_fail_def dest!: read_hex4_shorter
      split: list.splits if_splits sum.splits)

function read_chars :: "bytes \<Rightarrow> bytes \<Rightarrow> bytes json_read" where
  "read_chars out cs =
     (case cs of
        [] \<Rightarrow> json_fail cs ''unterminated string''
      | c # rest \<Rightarrow>
          if c = CHR 0x22 then Inr (out, rest)
          else if c = CHR 0x5C
          then (case read_escape rest of Inl e \<Rightarrow> Inl e | Inr (enc, rest') \<Rightarrow> read_chars (out @ enc) rest')
          else if (of_char c :: u8) < 0x20 then json_fail cs ''a control byte is not allowed in a string''
          else read_chars (out @ [c]) rest)"
  by pat_completeness auto
termination by (relation "measure (\<lambda>(out, cs). length cs)") (auto dest: read_escape_shorter)

declare read_chars.simps [simp del]

definition read_json_string :: "bytes \<Rightarrow> bytes json_read" where
  "read_json_string cs =
     (case json_eat (CHR 0x22) cs of None \<Rightarrow> json_fail cs ''expected a string'' | Some rest \<Rightarrow> read_chars [] rest)"

text \<open>The part of a number after \<^verbatim>\<open>eat('-')\<close> and its digits: whether it is an integer literal, and what follows.\<close>

definition json_digit :: "char \<Rightarrow> bool" where
  "json_digit c \<longleftrightarrow> (let n = of_char c :: nat in 48 \<le> n \<and> n \<le> 57)"

definition starts_digit :: "bytes \<Rightarrow> bool" where
  "starts_digit cs \<longleftrightarrow> (case cs of [] \<Rightarrow> False | c # _ \<Rightarrow> json_digit c)"

definition scan_exponent :: "bool \<Rightarrow> bytes \<Rightarrow> bool json_read" where
  "scan_exponent integral cs =
     (case cs of
        [] \<Rightarrow> Inr (integral, cs)
      | c # rest \<Rightarrow>
          if c = CHR ''e'' \<or> c = CHR ''E''
          then (let ds = (case rest of [] \<Rightarrow> rest | d # ds \<Rightarrow> if d = CHR ''+'' \<or> d = CHR ''-'' then ds else rest) in
                if \<not> starts_digit ds then json_fail ds ''expected a digit in the exponent''
                else Inr (False, dropWhile json_digit ds))
          else Inr (integral, cs))"

definition scan_fraction :: "bytes \<Rightarrow> bool json_read" where
  "scan_fraction cs =
     (case cs of
        [] \<Rightarrow> scan_exponent True cs
      | c # rest \<Rightarrow>
          if c = CHR ''.''
          then (if \<not> starts_digit rest then json_fail rest (''expected a digit after '' @ [CHR 0x27, CHR ''.'', CHR 0x27])
                else scan_exponent False (dropWhile json_digit rest))
          else scan_exponent True cs)"

definition scan_number :: "bytes \<Rightarrow> bool json_read" where
  "scan_number start =
     (let cs = (case json_eat (CHR ''-'') start of None \<Rightarrow> start | Some rest \<Rightarrow> rest) in
      case cs of
        [] \<Rightarrow> json_fail start ''expected a number''
      | c # rest \<Rightarrow>
          if c = CHR ''0'' then scan_fraction rest
          else if json_digit c then scan_fraction (dropWhile json_digit cs)
          else json_fail cs ''expected a number'')"

fun decimal_value :: "nat \<Rightarrow> bytes \<Rightarrow> nat" where
  "decimal_value acc [] = acc"
| "decimal_value acc (c # cs) = decimal_value (10 * acc + (of_char c - 48)) cs"

text \<open>\<^verbatim>\<open>std::from_chars\<close> of an integer literal into 64 bits: \<^term>\<open>None\<close> is out of range.\<close>

definition chars_i64 :: "bytes \<Rightarrow> int option" where
  "chars_i64 lit =
     (let v = (case json_eat (CHR ''-'') lit of None \<Rightarrow> int (decimal_value 0 lit) | Some ds \<Rightarrow> - int (decimal_value 0 ds)) in
      if - (2 ^ 63) \<le> v \<and> v < 2 ^ 63 then Some v else None)"

definition number_value :: "json_library \<Rightarrow> bool \<Rightarrow> bytes \<Rightarrow> u64 option" where
  "number_value L integral lit =
     (if integral
      then (case chars_i64 lit of Some i \<Rightarrow> Some (f64_of_int i) | None \<Rightarrow> jl_parse_float L lit)
      else jl_parse_float L lit)"

definition read_number :: "json_library \<Rightarrow> bytes \<Rightarrow> json json_read" where
  "read_number L start =
     (case scan_number start of
        Inl e \<Rightarrow> Inl e
      | Inr (integral, rest) \<Rightarrow>
          (case number_value L integral (take (length start - length rest) start) of
             None \<Rightarrow> json_fail start ''number is out of range''
           | Some v \<Rightarrow> Inr (JNumber v, rest)))"

text \<open>The recursive descent.  The members and elements read so far are the \<^verbatim>\<open>JsonValue\<close> under construction.\<close>

fun read_value :: "json_library \<Rightarrow> nat \<Rightarrow> nat \<Rightarrow> bytes \<Rightarrow> json json_read option"
  and read_members :: "json_library \<Rightarrow> nat \<Rightarrow> nat \<Rightarrow> json \<Rightarrow> bytes \<Rightarrow> json json_read option"
  and read_elements :: "json_library \<Rightarrow> nat \<Rightarrow> nat \<Rightarrow> json \<Rightarrow> bytes \<Rightarrow> json json_read option" where
  "read_value L 0 depth cs = None"
| "read_value L (Suc fuel) depth cs =
     (if unat MAX_NESTING < depth then Some (json_fail cs ''JSON nesting is too deep'')
      else case cs of
        [] \<Rightarrow> Some (json_fail cs ''expected a JSON value'')
      | c # rest \<Rightarrow>
          if c = CHR 0x7B
          then (case json_eat (CHR 0x7D) (skip_ws rest) of
                  Some rest' \<Rightarrow> Some (Inr (JObject [], rest'))
                | None \<Rightarrow> read_members L fuel depth (JObject []) (skip_ws rest))
          else if c = CHR 0x5B
          then (case json_eat (CHR 0x5D) (skip_ws rest) of
                  Some rest' \<Rightarrow> Some (Inr (JArray [], rest'))
                | None \<Rightarrow> read_elements L fuel depth (JArray []) (skip_ws rest))
          else if c = CHR 0x22
          then Some (case read_json_string cs of Inl e \<Rightarrow> Inl e | Inr (s, rest') \<Rightarrow> Inr (JString s, rest'))
          else if c = CHR ''t'' then Some (consume_word ''true'' (JBool True) cs)
          else if c = CHR ''f'' then Some (consume_word ''false'' (JBool False) cs)
          else if c = CHR ''n'' then Some (consume_word ''null'' JNull cs)
          else Some (read_number L cs))"
| "read_members L 0 depth object cs = None"
| "read_members L (Suc fuel) depth object cs =
     (case read_json_string (skip_ws cs) of
        Inl e \<Rightarrow> Some (Inl e)
      | Inr (key, cs1) \<Rightarrow>
          (case json_eat (CHR '':'') (skip_ws cs1) of
             None \<Rightarrow> Some (json_fail (skip_ws cs1) (''expected '' @ [CHR 0x27, CHR '':'', CHR 0x27] @ '' after an object key''))
           | Some cs2 \<Rightarrow>
               (case read_value L fuel (depth + 1) (skip_ws cs2) of
                  None \<Rightarrow> None
                | Some (Inl e) \<Rightarrow> Some (Inl e)
                | Some (Inr (member, cs3)) \<Rightarrow>
                    (case json_eat (CHR '','') (skip_ws cs3) of
                       Some cs4 \<Rightarrow> read_members L fuel depth (json_set object key member) cs4
                     | None \<Rightarrow>
                         (case json_eat (CHR 0x7D) (skip_ws cs3) of
                            Some cs4 \<Rightarrow> Some (Inr (json_set object key member, cs4))
                          | None \<Rightarrow> Some (json_fail (skip_ws cs3) (''expected '' @ [CHR 0x27, CHR '','', CHR 0x27] @ '' or ''
                              @ [CHR 0x27, CHR 0x7D, CHR 0x27] @ '' in an object'')))))))"
| "read_elements L 0 depth arr cs = None"
| "read_elements L (Suc fuel) depth arr cs =
     (case read_value L fuel (depth + 1) (skip_ws cs) of
        None \<Rightarrow> None
      | Some (Inl e) \<Rightarrow> Some (Inl e)
      | Some (Inr (element, cs1)) \<Rightarrow>
          (case json_eat (CHR '','') (skip_ws cs1) of
             Some cs2 \<Rightarrow> read_elements L fuel depth (json_push arr element) cs2
           | None \<Rightarrow>
               (case json_eat (CHR 0x5D) (skip_ws cs1) of
                  Some cs2 \<Rightarrow> Some (Inr (json_push arr element, cs2))
                | None \<Rightarrow> Some (json_fail (skip_ws cs1) (''expected '' @ [CHR 0x27, CHR '','', CHR 0x27] @ '' or ''
                    @ [CHR 0x27, CHR 0x5D, CHR 0x27] @ '' in an array'')))))"

record json_error =
  je_offset :: nat
  je_message :: string

definition error_at :: "bytes \<Rightarrow> json_fault \<Rightarrow> json_error" where
  "error_at input e = \<lparr>je_offset = length input - length (jf_left e), je_message = jf_message e\<rparr>"

definition parse_json :: "json_library \<Rightarrow> bytes \<Rightarrow> (json_error, json) result option" where
  "parse_json L input =
     (case read_value L (2 * length input + 2) 0 (skip_ws input) of
        None \<Rightarrow> None
      | Some (Inl e) \<Rightarrow> Some (Inl (error_at input e))
      | Some (Inr (v, rest)) \<Rightarrow>
          if skip_ws rest \<noteq> []
          then Some (Inl (error_at input \<lparr>jf_left = skip_ws rest, jf_message = ''unexpected content after the JSON value''\<rparr>))
          else Some (Inr v))"

subsection \<open>The writer\<close>

definition json_escape_char :: "json_library \<Rightarrow> char \<Rightarrow> bytes" where
  "json_escape_char L c =
     (if c = CHR 0x22 then [CHR 0x5C, CHR 0x22]
      else if c = CHR 0x5C then [CHR 0x5C, CHR 0x5C]
      else if c = CHR 0x0A then [CHR 0x5C, CHR ''n'']
      else if c = CHR 0x0D then [CHR 0x5C, CHR ''r'']
      else if c = CHR 0x09 then [CHR 0x5C, CHR ''t'']
      else if c = CHR 0x08 then [CHR 0x5C, CHR ''b'']
      else if c = CHR 0x0C then [CHR 0x5C, CHR ''f'']
      else if (of_char c :: u8) < 0x20 then jl_escape4 L (of_char c)
      else [c])"

definition append_json_string :: "json_library \<Rightarrow> bytes \<Rightarrow> bytes \<Rightarrow> bytes" where
  "append_json_string L out s = out @ [CHR 0x22] @ concat (map (json_escape_char L) s) @ [CHR 0x22]"

definition append_number :: "json_library \<Rightarrow> bytes \<Rightarrow> u64 \<Rightarrow> bytes" where
  "append_number L out v =
     (if \<not> f64_finite v then out @ ''null''
      else case small_integer v of
        Some i \<Rightarrow> out @ jl_show_int L i
      | None \<Rightarrow> out @ jl_show_float L v)"

fun append_value :: "json_library \<Rightarrow> bytes \<Rightarrow> json \<Rightarrow> bytes"
  and append_elements :: "json_library \<Rightarrow> bool \<Rightarrow> bytes \<Rightarrow> json list \<Rightarrow> bytes"
  and append_members :: "json_library \<Rightarrow> bool \<Rightarrow> bytes \<Rightarrow> (bytes \<times> json) list \<Rightarrow> bytes" where
  "append_value L out JNull = out @ ''null''"
| "append_value L out (JBool b) = out @ (if b then ''true'' else ''false'')"
| "append_value L out (JNumber n) = append_number L out n"
| "append_value L out (JString s) = append_json_string L out s"
| "append_value L out (JArray es) = append_elements L True (out @ [CHR 0x5B]) es @ [CHR 0x5D]"
| "append_value L out (JObject ms) = append_members L True (out @ [CHR 0x7B]) ms @ [CHR 0x7D]"
| "append_elements L first out [] = out"
| "append_elements L first out (e # es) =
     append_elements L False (append_value L (if \<not> first then out @ '','' else out) e) es"
| "append_members L first out [] = out"
| "append_members L first out (m # ms) =
     append_members L False
       (append_value L (append_json_string L (if first then out else out @ '','') (fst m) @ '':'') (snd m)) ms"

definition to_json :: "json_library \<Rightarrow> json \<Rightarrow> bytes" where
  "to_json L v = append_value L [] v"

end
