(* ===== verification/Text_Json_Numbers.thy ===== *)
theory Text_Json_Numbers
  imports Text_Json
begin

text \<open>
  Numbers in JSON text: a double with an integral value below \<open>2 ^ 53\<close> is written in decimal, and the decimal reads as
  that double.
\<close>

subsection \<open>The fields of a double\<close>

definition pack_f64 :: "bool \<Rightarrow> nat \<Rightarrow> nat \<Rightarrow> u64" where
  "pack_f64 neg e f = (if neg then F64_SIGN else 0) OR push_bit 52 (of_nat e) OR of_nat f"

lemma bit_F64_SIGN [simp]: "bit F64_SIGN n \<longleftrightarrow> n = 63"
  by (auto simp: F64_SIGN_def bit_push_bit_iff bit_1_iff simp del: push_bit_of_1)

lemma F64_SIGN_nonzero [simp]: "F64_SIGN \<noteq> 0"
  by (metis bit_0_eq bit_F64_SIGN bot_apply bot_bool_def)

lemma nat_bits_below: "(m :: nat) < 2 ^ b \<Longrightarrow> bit m n \<Longrightarrow> n < b"
  by (metis bit_take_bit_iff take_bit_nat_eq_self)

lemma pack_fields:
  assumes "e < 2 ^ 11" "f < 2 ^ 52"
  shows "f64_exponent (pack_f64 neg e f) = e" "unat (pack_f64 neg e f AND mask 52) = f" "f64_negative (pack_f64 neg e f) = neg"
proof -
  note b = nat_bits_below [OF assms(1)] nat_bits_below [OF assms(2)]
  have "drop_bit 52 (pack_f64 neg e f) AND mask 11 = (of_nat e :: u64)"
    by (rule bit_word_eqI) (auto simp: pack_f64_def bit_simps dest: b)
  moreover have "(0x7FF :: u64) = mask 11" by (simp add: mask_eq_exp_minus_1)
  ultimately have "drop_bit 52 (pack_f64 neg e f) AND 0x7FF = (of_nat e :: u64)" by simp
  then show "f64_exponent (pack_f64 neg e f) = e" using assms(1) by (simp add: f64_exponent_def unat_of_nat)
  have "pack_f64 neg e f AND mask 52 = (of_nat f :: u64)"
    by (rule bit_word_eqI) (auto simp: pack_f64_def bit_simps dest: b)
  then show "unat (pack_f64 neg e f AND mask 52) = f" using assms(2) by (simp add: unat_of_nat)
  show "f64_negative (pack_f64 neg e f) = neg"
    by (auto simp: f64_negative_def pack_f64_def bit_simps dest: b)
qed

lemma pack_back: "pack_f64 (f64_negative v) (f64_exponent v) (unat (v AND mask 52)) = v"
proof (rule bit_word_eqI)
  fix n assume n: "n < LENGTH(64)"
  have m: "(0x7FF :: u64) = mask 11" by (simp add: mask_eq_exp_minus_1)
  have "(of_nat (unat (drop_bit 52 v AND 0x7FF)) :: u64) = drop_bit 52 v AND mask 11" by (simp add: m)
  then have "pack_f64 (f64_negative v) (f64_exponent v) (unat (v AND mask 52))
      = (if bit v 63 then F64_SIGN else 0) OR push_bit 52 (drop_bit 52 v AND mask 11) OR (v AND mask 52)"
    by (simp add: pack_f64_def f64_exponent_def f64_negative_def)
  moreover have "n = 63 \<or> n < 63" using n by auto
  ultimately show "bit (pack_f64 (f64_negative v) (f64_exponent v) (unat (v AND mask 52))) n = bit v n"
    by (auto simp: bit_simps)
qed

lemma field_bounds: "f64_exponent v < 2 ^ 11" "unat (v AND mask 52) < 2 ^ 52"
proof -
  have "drop_bit 52 v AND 0x7FF \<le> 0x7FF" by (rule word_and_le1)
  then show "f64_exponent v < 2 ^ 11" by (simp add: f64_exponent_def word_le_nat_alt)
  have "v AND mask 52 \<le> mask 52" by (rule word_and_le1)
  then show "unat (v AND mask 52) < 2 ^ 52" by (simp add: word_le_nat_alt mask_eq_exp_minus_1)
qed

subsection \<open>Integral doubles\<close>

lemma bit_len_exact: "2 ^ k \<le> n \<Longrightarrow> n < 2 ^ Suc k \<Longrightarrow> bit_len n = Suc k"
proof (induction k arbitrary: n)
  case 0
  then have "n = 1" by simp
  then show ?case by (simp add: bit_len.simps [of "Suc 0"] bit_len.simps [of 0])
next
  case (Suc k)
  then have "bit_len (n div 2) = Suc k" by simp
  then show ?case using Suc.prems by (simp add: bit_len.simps [of n])
qed

lemma bit_len_bounds: "0 < n \<Longrightarrow> \<exists>k. 2 ^ k \<le> n \<and> n < 2 ^ Suc k \<and> bit_len n = Suc k"
proof -
  assume n: "0 < n"
  obtain k where "2 ^ k \<le> n" "n < 2 ^ Suc k" using ex_power_ivl1 [of 2 n] n by fastforce
  then show ?thesis using bit_len_exact by blast
qed

text \<open>The double of a small integer, by its fields.\<close>

lemma f64_of_small_int:
  assumes "i \<noteq> 0" "2 ^ k \<le> nat \<bar>i\<bar>" "nat \<bar>i\<bar> < 2 ^ Suc k" "k \<le> 52"
  shows "f64_of_int i = pack_f64 (i < 0) (1023 + k) (nat \<bar>i\<bar> * 2 ^ (52 - k) - 2 ^ 52)"
    and "2 ^ 52 \<le> nat \<bar>i\<bar> * 2 ^ (52 - k)" and "nat \<bar>i\<bar> * 2 ^ (52 - k) < 2 ^ 53"
proof -
  let ?n = "nat \<bar>i\<bar>" and ?m = "nat \<bar>i\<bar> * 2 ^ (52 - k)"
  have p: "(2 :: nat) ^ k * 2 ^ (52 - k) = 2 ^ 52" using assms(4) by (simp flip: power_add)
  have "2 ^ k * 2 ^ (52 - k) \<le> ?m" using assms(2) by (rule mult_le_mono1)
  then show lo: "2 ^ 52 \<le> ?m" by (simp only: p)
  have "?m < 2 ^ Suc k * 2 ^ (52 - k)" using assms(3) by (intro mult_strict_right_mono) simp_all
  also have "\<dots> = 2 * (2 ^ k * 2 ^ (52 - k))" by simp
  also have "\<dots> = 2 ^ 53" by (simp only: p) simp
  finally show hi: "?m < 2 ^ 53" .
  have len: "bit_len ?n = Suc k" by (rule bit_len_exact [OF assms(2,3)])
  have "53 - Suc k = 52 - k" "Suc k - 53 = 0" using assms(4) by simp_all
  with len hi lo assms(1) show "f64_of_int i = pack_f64 (i < 0) (1023 + k) (?m - 2 ^ 52)"
    by (simp add: f64_of_int_def Let_def pack_f64_def)
qed

lemma small_integer_of_int:
  assumes "\<bar>i\<bar> < 2 ^ 53"
  shows "small_integer (f64_of_int i) = Some i" "f64_finite (f64_of_int i)" "f64_of_int i \<noteq> F64_SIGN"
proof -
  have "small_integer (f64_of_int i) = Some i \<and> f64_finite (f64_of_int i) \<and> f64_of_int i \<noteq> F64_SIGN"
  proof (cases "i = 0")
    case True
    then show ?thesis
      by (simp add: f64_of_int_def small_integer_def f64_significand_def f64_exponent_def f64_finite_def Let_def)
  next
    case False
    let ?n = "nat \<bar>i\<bar>"
    obtain k where k: "2 ^ k \<le> ?n" "?n < 2 ^ Suc k" using bit_len_bounds [of ?n] False by auto
    have "?n < 2 ^ 53" using assms by simp
    then have "(2 :: nat) ^ k < 2 ^ 53" using k(1) by linarith
    then have "k < 53" by (rule power_less_imp_less_exp [rotated]) simp
    then have k52: "k \<le> 52" by simp
    let ?m = "?n * 2 ^ (52 - k)"
    note f = f64_of_small_int [OF False k k52]
    have e1: "1023 + k < 2 ^ 11" using k52 by simp
    have "(2 :: nat) ^ 53 = 2 ^ 52 + 2 ^ 52" by simp
    then have e2: "?m - 2 ^ 52 < 2 ^ 52" using f(2,3) by linarith
    note e = e1 e2
    note p = pack_fields [OF e, of "i < 0", folded f(1)]
    have sig: "f64_significand (f64_of_int i) = ?m" using p f(2) by (simp add: f64_significand_def)
    have "1075 - (1023 + k) = 52 - k" using k52 by simp
    moreover have "0 < ?m" using False by simp
    ultimately have "small_integer (f64_of_int i) = Some i"
      using p sig k52 by (auto simp: small_integer_def Let_def)
    moreover have "f64_finite (f64_of_int i)" using p(1) k52 by (simp add: f64_finite_def)
    moreover have "f64_exponent F64_SIGN = 0" using pack_fields(1) [of 0 0 True] by (simp add: pack_f64_def)
    then have "f64_of_int i \<noteq> F64_SIGN" using p(1) by auto
    ultimately show ?thesis by blast
  qed
  then show "small_integer (f64_of_int i) = Some i" "f64_finite (f64_of_int i)" "f64_of_int i \<noteq> F64_SIGN" by blast+
qed

lemma int_of_small_integer:
  assumes "small_integer v = Some i" "v \<noteq> F64_SIGN"
  shows "f64_of_int i = v" "\<bar>i\<bar> < 2 ^ 53"
proof -
  let ?e = "f64_exponent v" and ?m = "f64_significand v" and ?f = "unat (v AND mask 52)"
  have "f64_of_int i = v \<and> \<bar>i\<bar> < 2 ^ 53"
  proof (cases "?m = 0")
    case True
    then have "?e = 0" "?f = 0" by (auto simp: f64_significand_def split: if_splits)
    then have "v = pack_f64 (f64_negative v) 0 0" using pack_back [of v] by simp
    then have "v = 0" using assms(2) by (cases "f64_negative v") (auto simp: pack_f64_def)
    moreover have "i = 0" using assms(1) True by (simp add: small_integer_def Let_def)
    ultimately show ?thesis by (simp add: f64_of_int_def)
  next
    case False
    let ?k = "1075 - ?e" and ?n = "?m div 2 ^ (1075 - ?e)"
    have e: "1023 \<le> ?e" "?e \<le> 1075" "?m mod 2 ^ ?k = 0" and i: "i = (if f64_negative v then - int ?n else int ?n)"
      using assms(1) False by (auto simp: small_integer_def Let_def split: if_splits)
    have m: "?m = ?f + 2 ^ 52" using e(1) by (simp add: f64_significand_def)
    have n: "?n * 2 ^ ?k = ?m" using e(3) by (simp add: mult.commute mod_0_imp_dvd)
    let ?j = "52 - ?k"
    have kj: "?k \<le> 52" "?j + ?k = 52" using e(1) by simp_all
    have lo: "2 ^ ?j \<le> ?n"
    proof (rule ccontr)
      assume "\<not> 2 ^ ?j \<le> ?n"
      then have "?n * 2 ^ ?k < 2 ^ ?j * 2 ^ ?k" by (intro mult_strict_right_mono) simp_all
      also have "\<dots> = 2 ^ 52" using kj(2) by (simp flip: power_add)
      finally show False using n m by linarith
    qed
    have hi: "?n < 2 ^ Suc ?j"
    proof (rule ccontr)
      assume "\<not> ?n < 2 ^ Suc ?j"
      then have "2 ^ Suc ?j * 2 ^ ?k \<le> ?n * 2 ^ ?k" by (intro mult_le_mono1) simp
      moreover have "(2 :: nat) ^ Suc ?j * 2 ^ ?k = 2 ^ (Suc ?j + ?k)" by (simp only: power_add)
      moreover have "Suc ?j + ?k = 53" using kj(2) by simp
      ultimately have "(2 :: nat) ^ 53 \<le> ?m" using n by (simp only:)
      then show False using m field_bounds(2) [of v] by simp
    qed
    have "0 < ?n" using lo by (rule less_le_trans [rotated]) simp
    then have abs: "nat \<bar>i\<bar> = ?n" "i \<noteq> 0" "i < 0 \<longleftrightarrow> f64_negative v" using i by auto
    have "f64_of_int i = pack_f64 (i < 0) (1023 + ?j) (nat \<bar>i\<bar> * 2 ^ (52 - ?j) - 2 ^ 52)"
      by (rule f64_of_small_int) (use abs lo hi in simp_all)
    moreover have "52 - ?j = ?k" "1023 + ?j = ?e" using e by simp_all
    ultimately have "f64_of_int i = pack_f64 (f64_negative v) ?e ?f" using n m abs by simp
    moreover have "?n < 2 ^ 53"
    proof -
      have "(2 :: nat) ^ Suc ?j \<le> 2 ^ 53" by (rule power_increasing) simp_all
      then show ?thesis using hi by linarith
    qed
    ultimately show ?thesis using pack_back [of v] abs(1) by simp
  qed
  then show "f64_of_int i = v" "\<bar>i\<bar> < 2 ^ 53" by blast+
qed

end
