(* ===== verification/Text_Json_Reader.thy ===== *)
theory Text_Json_Reader
  imports Text_Json_Numbers
begin

text \<open>
  JSON text: the reader always returns, what it accepts is shallow and has distinct keys; the writer appends
  a text of its own.
\<close>

subsection \<open>Objects as maps\<close>

lemma set_member_map: "map_of (set_member ms key v) = (map_of ms)(key \<mapsto> v)"
  by (induction ms key v rule: set_member.induct) auto

lemma set_member_keys: "fst ` set (set_member ms key v) = insert key (fst ` set ms)"
  by (induction ms key v rule: set_member.induct) auto

lemma set_member_distinct: "distinct (map fst ms) \<Longrightarrow> distinct (map fst (set_member ms key v))"
proof (induction ms key v rule: set_member.induct)
  case (2 k old ms key v)
  then show ?case using set_member_keys [of ms key v] by auto
qed simp

lemma set_member_new: "key \<notin> fst ` set ms \<Longrightarrow> set_member ms key v = ms @ [(key, v)]"
  by (induction ms key v rule: set_member.induct) auto

lemma set_member_values: "m \<in> set (set_member ms key v) \<Longrightarrow> snd m = v \<or> snd m \<in> snd ` set ms"
  by (induction ms key v rule: set_member.induct) (auto split: if_splits)

lemma find_member: "map_option snd (List.find (\<lambda>m. fst m = key) ms) = map_of ms key"
  by (induction ms) auto

fun json_members :: "json \<Rightarrow> (bytes \<times> json) list" where
  "json_members (JObject ms) = ms"
| "json_members _ = []"

interpretation json_object: key_map "JObject []" "\<lambda>v key. Some (json_find v key)" "\<lambda>v key m. Some (json_set v key m)"
  "\<lambda>v. map_of (json_members v)" "\<lambda>v. json_kind_of v = JkObject \<and> distinct (map fst (json_members v))"
  by unfold_locales
    (auto simp: json_kind_of_def json_find_def json_set_def find_member set_member_map set_member_distinct split: json.splits)

subsection \<open>The reader consumes its text\<close>

lemma json_eat_Some: "json_eat c cs = Some ds \<longleftrightarrow> cs = c # ds"
  by (auto simp: json_eat_def split: list.splits)

lemma json_eat_Cons [simp]: "json_eat c (d # ds) = (if d = c then Some ds else None)"
  by (simp add: json_eat_def)

lemma json_eat_Nil [simp]: "json_eat c [] = None"
  by (simp add: json_eat_def)

lemma json_fail_Inr [simp]: "json_fail cs m \<noteq> Inr x"
  by (simp add: json_fail_def)

lemma skip_ws_le: "length (skip_ws cs) \<le> length cs"
  by (simp add: skip_ws_def length_dropWhile_le)

lemma skip_ws_bound: "length (skip_ws cs) = n \<Longrightarrow> n \<le> length cs"
  using skip_ws_le by blast

lemma eat_skip_shorter: "json_eat c (skip_ws cs) = Some ds \<Longrightarrow> length ds < length cs"
  using skip_ws_le [of cs] by (auto simp: json_eat_Some)

lemma read_chars_shorter: "read_chars out cs = Inr (s, rest) \<Longrightarrow> length rest < length cs"
proof (induction out cs rule: read_chars.induct)
  case (1 out cs)
  then show ?case
    by (subst (asm) read_chars.simps) (fastforce dest: read_escape_shorter split: list.splits if_splits sum.splits)
qed

lemma read_json_string_shorter: "read_json_string cs = Inr (s, rest) \<Longrightarrow> length rest < length cs"
  by (auto simp: read_json_string_def json_eat_Some dest: read_chars_shorter split: option.splits)

lemma scan_exponent_le: "scan_exponent b cs = Inr (x, rest) \<Longrightarrow> length rest \<le> length cs"
  using length_dropWhile_le
  by (fastforce simp: scan_exponent_def Let_def intro: le_trans [OF length_dropWhile_le] split: list.splits if_splits)

lemma scan_fraction_le: "scan_fraction cs = Inr (x, rest) \<Longrightarrow> length rest \<le> length cs"
  by (fastforce simp: scan_fraction_def dest: scan_exponent_le intro: le_trans [OF _ length_dropWhile_le] le_trans [OF _ le_SucI]
      split: list.splits if_splits)

lemma scan_number_shorter: "scan_number cs = Inr (x, rest) \<Longrightarrow> length rest < length cs"
proof -
  assume scan: "scan_number cs = Inr (x, rest)"
  define ds where "ds = (case json_eat (CHR ''-'') cs of None \<Rightarrow> cs | Some r \<Rightarrow> r)"
  have le: "length ds \<le> length cs" by (auto simp: ds_def json_eat_Some split: option.splits)
  from scan obtain d es where ds: "ds = d # es" by (auto simp: scan_number_def ds_def [symmetric] split: list.splits)
  then have "length rest \<le> length es" using scan
    by (auto simp: scan_number_def ds_def [symmetric] Let_def split: if_splits
        dest!: scan_fraction_le intro: le_trans [OF _ length_dropWhile_le])
  then show ?thesis using le ds by simp
qed

lemma read_number_shorter: "read_number L cs = Inr (v, rest) \<Longrightarrow> length rest < length cs"
  by (auto simp: read_number_def dest: scan_number_shorter split: sum.splits option.splits)

lemma consume_word_shorter: "consume_word w v cs = Inr (v', rest) \<Longrightarrow> w \<noteq> [] \<Longrightarrow> length rest < length cs"
  by (cases cs) (auto simp: consume_word_def split: if_splits)

lemma consume_word_value: "consume_word w v cs = Inr (v', rest) \<Longrightarrow> v' = v"
  by (simp add: consume_word_def split: if_splits)

text \<open>What a step of the descent that accepts has read.\<close>

definition json_leaf :: "json \<Rightarrow> bool" where
  "json_leaf v \<longleftrightarrow> (case v of JArray _ \<Rightarrow> False | JObject _ \<Rightarrow> False | _ \<Rightarrow> True)"

lemma read_value_accepts:
  assumes "read_value L (Suc f) d cs = Some (Inr (v, rest))"
  obtains (empty_object) es where "d \<le> 256" "cs = CHR 0x7B # es" "skip_ws es = CHR 0x7D # rest" "v = JObject []"
  | (object) es where "d \<le> 256" "cs = CHR 0x7B # es" "read_members L f d (JObject []) (skip_ws es) = Some (Inr (v, rest))"
  | (empty_array) es where "d \<le> 256" "cs = CHR 0x5B # es" "skip_ws es = CHR 0x5D # rest" "v = JArray []"
  | (array) es where "d \<le> 256" "cs = CHR 0x5B # es" "read_elements L f d (JArray []) (skip_ws es) = Some (Inr (v, rest))"
  | (leaf) "d \<le> 256" "json_leaf v" "length rest < length cs"
proof -
  obtain c es where cs: "cs = c # es" using assms by (cases cs) (auto split: if_splits)
  have d: "d \<le> 256" using assms by (auto simp: MAX_NESTING_def split: if_splits)
  consider "c = CHR 0x7B" | "c = CHR 0x5B" | "c = CHR 0x22" | "c = CHR ''t''" | "c = CHR ''f''" | "c = CHR ''n''"
    | "c \<notin> {CHR 0x7B, CHR 0x5B, CHR 0x22, CHR ''t'', CHR ''f'', CHR ''n''}" by blast
  then show ?thesis
  proof cases
    case 1
    then show ?thesis using assms d empty_object object unfolding cs
      by (auto simp: json_eat_Some split: if_splits option.splits)
  next
    case 2
    then show ?thesis using assms d empty_array array unfolding cs
      by (auto simp: json_eat_Some split: if_splits option.splits)
  next
    case 3
    then have "json_leaf v" "length rest < length cs" using assms unfolding cs
      by (auto simp: json_leaf_def dest!: read_json_string_shorter split: if_splits sum.splits)
    then show ?thesis by (rule leaf [OF d])
  next
    case 4
    then have "consume_word ''true'' (JBool True) cs = Inr (v, rest)" using assms unfolding cs by (simp split: if_splits)
    then show ?thesis by (intro leaf [OF d] consume_word_shorter) (auto simp: json_leaf_def dest: consume_word_value)
  next
    case 5
    then have "consume_word ''false'' (JBool False) cs = Inr (v, rest)" using assms unfolding cs by (simp split: if_splits)
    then show ?thesis by (intro leaf [OF d] consume_word_shorter) (auto simp: json_leaf_def dest: consume_word_value)
  next
    case 6
    then have "consume_word ''null'' JNull cs = Inr (v, rest)" using assms unfolding cs by (simp split: if_splits)
    then show ?thesis by (intro leaf [OF d] consume_word_shorter) (auto simp: json_leaf_def dest: consume_word_value)
  next
    case 7
    then have "read_number L cs = Inr (v, rest)" using assms unfolding cs by (simp split: if_splits)
    then show ?thesis using leaf [OF d] read_number_shorter
      by (auto simp: json_leaf_def read_number_def split: sum.splits option.splits)
  qed
qed

lemma read_members_accepts:
  assumes "read_members L (Suc f) d ob cs = Some (Inr (v, rest))"
  obtains key cs1 cs2 m cs3 where "read_json_string (skip_ws cs) = Inr (key, cs1)" "skip_ws cs1 = CHR '':'' # cs2"
    "read_value L f (Suc d) (skip_ws cs2) = Some (Inr (m, cs3))"
    "(\<exists>cs4. skip_ws cs3 = CHR '','' # cs4 \<and> read_members L f d (json_set ob key m) cs4 = Some (Inr (v, rest)))
      \<or> skip_ws cs3 = CHR 0x7D # rest \<and> v = json_set ob key m"
  using assms by (auto simp: json_eat_Some split: sum.splits option.splits)

lemma read_elements_accepts:
  assumes "read_elements L (Suc f) d ob cs = Some (Inr (v, rest))"
  obtains m cs3 where "read_value L f (Suc d) (skip_ws cs) = Some (Inr (m, cs3))"
    "(\<exists>cs4. skip_ws cs3 = CHR '','' # cs4 \<and> read_elements L f d (json_push ob m) cs4 = Some (Inr (v, rest)))
      \<or> skip_ws cs3 = CHR 0x5D # rest \<and> v = json_push ob m"
  using assms by (auto simp: json_eat_Some split: sum.splits option.splits)

subsection \<open>Accepted values\<close>

text \<open>A value at a nesting depth: no deeper than \<^verbatim>\<open>MAX_NESTING\<close>, and no object with a key twice.\<close>

fun json_wf :: "nat \<Rightarrow> json \<Rightarrow> bool" where
  "json_wf d (JArray es) \<longleftrightarrow> d \<le> unat MAX_NESTING \<and> (\<forall>e \<in> set es. json_wf (Suc d) e)"
| "json_wf d (JObject ms) \<longleftrightarrow> d \<le> unat MAX_NESTING \<and> distinct (map fst ms) \<and> (\<forall>m \<in> set ms. json_wf (Suc d) (snd m))"
| "json_wf d v \<longleftrightarrow> d \<le> unat MAX_NESTING"

lemma json_wf_leaf: "json_leaf v \<Longrightarrow> json_wf d v \<longleftrightarrow> d \<le> 256"
  by (cases v) (simp_all add: json_leaf_def MAX_NESTING_def)

lemma json_wf_set:
  assumes "json_wf d (JObject ms)" "json_wf (Suc d) v"
  shows "json_wf d (JObject (set_member ms key v))"
  using assms set_member_distinct [of ms key v] by (auto dest!: set_member_values)

lemma accepts_wf:
  "read_value L f d cs = Some (Inr (v, rest)) \<Longrightarrow> length rest < length cs \<and> json_wf d v"
  "read_members L f d ob cs = Some (Inr (v, rest)) \<Longrightarrow> length rest < length cs
     \<and> (json_kind_of ob = JkObject \<longrightarrow> json_wf d ob \<longrightarrow> json_kind_of v = JkObject \<and> json_wf d v)"
  "read_elements L f d ob cs = Some (Inr (v, rest)) \<Longrightarrow> length rest < length cs
     \<and> (json_kind_of ob = JkArray \<longrightarrow> json_wf d ob \<longrightarrow> json_kind_of v = JkArray \<and> json_wf d v)"
proof (induction f arbitrary: d ob cs v rest)
  case (Suc f)
  note shrink = skip_ws_le skip_ws_bound
  {
    case 1
    then show ?case
    proof (cases rule: read_value_accepts)
      case (empty_object es)
      then show ?thesis using skip_ws_le [of es] by (simp add: MAX_NESTING_def)
    next
      case (object es)
      then show ?thesis using Suc.IH(2) [OF object(3)] skip_ws_le [of es] by (simp add: MAX_NESTING_def json_kind_of_def)
    next
      case (empty_array es)
      then show ?thesis using skip_ws_le [of es] by (simp add: MAX_NESTING_def)
    next
      case (array es)
      then show ?thesis using Suc.IH(3) [OF array(3)] skip_ws_le [of es] by (simp add: MAX_NESTING_def json_kind_of_def)
    qed (simp add: json_wf_leaf)
  next
    case 2
    then show ?case
    proof (cases rule: read_members_accepts)
      case (1 key cs1 cs2 m cs3)
      note m = Suc.IH(1) [OF 1(3)]
      have len: "length (skip_ws cs3) < length cs"
        using read_json_string_shorter [OF 1(1)] 1(2) m skip_ws_le [of cs] skip_ws_le [of cs1] skip_ws_le [of cs2] skip_ws_le [of cs3]
        by simp
      have ob: "json_kind_of (json_set ob key m) = JkObject \<and> json_wf d (json_set ob key m)"
        if "json_kind_of ob = JkObject" "json_wf d ob"
        using that m json_wf_set [of d _ m key] by (cases ob) (auto simp: json_kind_of_def json_set_def)
      from 1(4) show ?thesis using len ob by (auto dest!: Suc.IH(2))
    qed
  next
    case 3
    then show ?case
    proof (cases rule: read_elements_accepts)
      case (1 m cs3)
      note m = Suc.IH(1) [OF 1(1)]
      have len: "length (skip_ws cs3) < length cs"
        using m skip_ws_le [of cs] skip_ws_le [of cs3] by simp
      have ob: "json_kind_of (json_push ob m) = JkArray \<and> json_wf d (json_push ob m)"
        if "json_kind_of ob = JkArray" "json_wf d ob"
        using that m by (cases ob) (auto simp: json_kind_of_def json_push_def)
      from 1(2) show ?thesis using len ob by (auto dest!: Suc.IH(3))
    qed
  }
qed simp_all

lemmas value_shorter = accepts_wf(1) [THEN conjunct1]

subsection \<open>The fuel is enough\<close>

lemma read_total:
  "2 * length cs < f \<Longrightarrow> read_value L f d cs \<noteq> None"
  "2 * length cs + 1 < f \<Longrightarrow> read_members L f d ob cs \<noteq> None"
  "2 * length cs + 1 < f \<Longrightarrow> read_elements L f d ob cs \<noteq> None"
proof (induction f arbitrary: d ob cs)
  case (Suc f)
  {
    case 1
    show ?case
    proof (cases cs)
      case (Cons c es)
      have "2 * length (skip_ws es) + 1 < f" using 1 Cons skip_ws_le [of es] by simp
      then obtain r1 r2 where "read_members L f d (JObject []) (skip_ws es) = Some r1"
        "read_elements L f d (JArray []) (skip_ws es) = Some r2" using Suc.IH(2,3) by blast
      then show ?thesis using Cons by (simp split: option.split)
    qed simp
  next
    case 2
    show ?case
    proof
      assume "read_members L (Suc f) d ob cs = None"
      then obtain key cs1 cs2 where k: "read_json_string (skip_ws cs) = Inr (key, cs1)" "skip_ws cs1 = CHR '':'' # cs2"
        and c: "read_value L f (Suc d) (skip_ws cs2) = None
          \<or> (\<exists>m cs3 cs4. read_value L f (Suc d) (skip_ws cs2) = Some (Inr (m, cs3)) \<and> skip_ws cs3 = CHR '','' # cs4
              \<and> read_members L f d (json_set ob key m) cs4 = None)"
        by (auto simp: json_eat_Some split: sum.splits option.splits)
      have len: "length (skip_ws cs2) < length cs"
        using read_json_string_shorter [OF k(1)] k(2) skip_ws_le [of cs] skip_ws_le [of cs1] skip_ws_le [of cs2] by simp
      then have "read_value L f (Suc d) (skip_ws cs2) \<noteq> None" using Suc.IH(1) 2 by simp
      with c obtain m cs3 cs4 where m: "read_value L f (Suc d) (skip_ws cs2) = Some (Inr (m, cs3))" "skip_ws cs3 = CHR '','' # cs4"
        "read_members L f d (json_set ob key m) cs4 = None" by blast
      have "length cs4 < length cs" using value_shorter [OF m(1)] m(2) len skip_ws_le [of cs3] by simp
      then have "2 * length cs4 + 1 < f" using 2 by simp
      then show False using Suc.IH(2) m(3) by blast
    qed
  next
    case 3
    show ?case
    proof
      assume "read_elements L (Suc f) d ob cs = None"
      then have c: "read_value L f (Suc d) (skip_ws cs) = None
          \<or> (\<exists>m cs3 cs4. read_value L f (Suc d) (skip_ws cs) = Some (Inr (m, cs3)) \<and> skip_ws cs3 = CHR '','' # cs4
              \<and> read_elements L f d (json_push ob m) cs4 = None)"
        by (auto simp: json_eat_Some split: sum.splits option.splits)
      have "read_value L f (Suc d) (skip_ws cs) \<noteq> None" using Suc.IH(1) 3 skip_ws_le [of cs] by simp
      with c obtain m cs3 cs4 where m: "read_value L f (Suc d) (skip_ws cs) = Some (Inr (m, cs3))" "skip_ws cs3 = CHR '','' # cs4"
        "read_elements L f d (json_push ob m) cs4 = None" by blast
      have "length cs4 < length cs" using value_shorter [OF m(1)] m(2) skip_ws_le [of cs3] skip_ws_le [of cs] by simp
      then have "2 * length cs4 + 1 < f" using 3 by simp
      then show False using Suc.IH(3) m(3) by blast
    qed
  }
qed simp_all

subsection \<open>Text written\<close>

text \<open>The decimal digits of a number, and the parts of the formatting library the writer relies on.\<close>

fun decimal_digits :: "nat \<Rightarrow> bytes" where
  "decimal_digits n = (if n < 10 then [char_of (48 + n)] else decimal_digits (n div 10) @ [char_of (48 + n mod 10)])"

declare decimal_digits.simps [simp del]

definition decimal_int :: "int \<Rightarrow> bytes" where
  "decimal_int i = (if i < 0 then CHR ''-'' # decimal_digits (nat (- i)) else decimal_digits (nat i))"

text \<open>\<^verbatim>\<open>append_json_number\<close> of an integer, which \<^verbatim>\<open>std::to_string\<close> shows in decimal.\<close>

definition append_json_number :: "bytes \<Rightarrow> int \<Rightarrow> bytes" where
  "append_json_number out i = out @ decimal_int i"

definition hex_char :: "nat \<Rightarrow> char" where
  "hex_char d = char_of (if d < 10 then 48 + d else 87 + d)"

definition json_formatting :: "json_library \<Rightarrow> bool" where
  "json_formatting L \<longleftrightarrow> (\<forall>i. - (2 ^ 63) \<le> i \<and> i < 2 ^ 63 \<longrightarrow> jl_show_int L i = decimal_int i)
     \<and> (\<forall>n < 32. jl_escape4 L n = CHR 0x5C # ''u00'' @ [hex_char (n div 16), hex_char (n mod 16)])"

lemma append_out:
  fixes out :: bytes
  shows "\<forall>o'. append_value L o' v = o' @ append_value L [] v"
  "\<forall>o'. append_elements L first o' es = o' @ append_elements L first [] es"
  "\<forall>o'. append_members L first o' ms = o' @ append_members L first [] ms"
proof (induction L out v and L first out es and L first out ms
    rule: append_value_append_elements_append_members.induct)
  case (5 L out es)
  have "append_value L o' (JArray es) = o' @ append_value L [] (JArray es)" for o'
    using 5 [rule_format, of "o' @ [CHR 0x5B]"] 5 [rule_format, of "[CHR 0x5B]"] by simp
  then show ?case by blast
next
  case (6 L out ms)
  have "append_value L o' (JObject ms) = o' @ append_value L [] (JObject ms)" for o'
    using 6 [rule_format, of "o' @ [CHR 0x7B]"] 6 [rule_format, of "[CHR 0x7B]"] by simp
  then show ?case by blast
next
  case (8 L first out e es)
  let ?c = "if first then [] else '','' :: bytes"
  have "append_elements L first o' (e # es) = o' @ ?c @ append_value L [] e @ append_elements L False [] es" for o'
    using 8(1) [rule_format, of "o' @ ?c"] 8(2) [rule_format, of "o' @ ?c @ append_value L [] e"]
    by (cases first) simp_all
  then show ?case by simp
next
  case (10 L first out m ms)
  let ?c = "if first then [] else '','' :: bytes" and ?k = "append_json_string L [] (fst m) @ '':''"
  have "append_members L first o' (m # ms) = o' @ ?c @ ?k @ append_value L [] (snd m) @ append_members L False [] ms" for o'
    using 10(1) [rule_format, of "o' @ ?c @ ?k"] 10(2) [rule_format, of "o' @ ?c @ ?k @ append_value L [] (snd m)"]
    by (cases first) (simp_all add: append_json_string_def)
  then show ?case by simp
qed (simp_all add: append_number_def append_json_string_def split: option.splits)

text \<open>What the writer adds for a string, the elements of an array and the members of an object.\<close>

lemma to_json_simps:
  "to_json L (JArray es) = CHR 0x5B # append_elements L True [] es @ [CHR 0x5D]"
  "to_json L (JObject ms) = CHR 0x7B # append_members L True [] ms @ [CHR 0x7D]"
  "append_elements L first [] [] = []"
  "append_elements L first [] (e # es) = (if first then [] else '','') @ to_json L e @ append_elements L False [] es"
  "append_members L first [] [] = []"
  "append_members L first [] (m # ms) = (if first then [] else '','')
      @ append_json_string L [] (fst m) @ '':'' @ to_json L (snd m) @ append_members L False [] ms"
proof -
  show "to_json L (JArray es) = CHR 0x5B # append_elements L True [] es @ [CHR 0x5D]"
    using append_out(2) [of L True es, rule_format, of "[CHR 0x5B]"] by (simp add: to_json_def)
  show "to_json L (JObject ms) = CHR 0x7B # append_members L True [] ms @ [CHR 0x7D]"
    using append_out(3) [of L True ms, rule_format, of "[CHR 0x7B]"] by (simp add: to_json_def)
  show "append_elements L first [] (e # es) = (if first then [] else '','') @ to_json L e @ append_elements L False [] es"
    using append_out(1) [of L e, rule_format, of "'',''"] append_out(2) [of L False es, rule_format, of "'','' @ append_value L [] e"]
      append_out(2) [of L False es, rule_format, of "append_value L [] e"]
    by (simp add: to_json_def del: append_value.simps)
  have str: "append_json_string L o' s = o' @ append_json_string L [] s" for o' s
    by (simp add: append_json_string_def)
  let ?m = "append_json_string L [] (fst m) @ '':'' @ append_value L [] (snd m)"
  have "append_value L (append_json_string L o' (fst m) @ '':'') (snd m) = o' @ ?m" for o'
    using append_out(1) [of L "snd m", rule_format, of "append_json_string L o' (fst m) @ '':''"] str [of o' "fst m"] by simp
  then show "append_members L first [] (m # ms) = (if first then [] else '','')
      @ append_json_string L [] (fst m) @ '':'' @ to_json L (snd m) @ append_members L False [] ms"
    using append_out(3) [of L False ms, rule_format, of "'','' @ ?m"] append_out(3) [of L False ms, rule_format, of ?m]
    by (simp add: to_json_def del: append_value.simps)
qed simp_all

end
