(* ===== verification/Text_Json_Roundtrip.thy ===== *)
theory Text_Json_Roundtrip
  imports Text_Json_Reader Le_Bytes
begin

text \<open>
  JSON text that was written is read back to the value written.
\<close>

subsection \<open>Strings\<close>

lemma hex_digit_char: "d < 16 \<Longrightarrow> hex_digit (hex_char d) = Some (of_nat d)"
  by (cases "d < 10") (auto simp: hex_digit_def hex_char_def Let_def of_nat_diff simp flip: of_nat_add)

lemma hex_pair_value: "push_bit 4 (of_nat (n div 16)) OR of_nat (n mod 16) = (of_nat n :: u32)"
proof -
  have d: "n div 16 = drop_bit 4 n" and m: "n mod 16 = take_bit 4 n" by (simp_all add: drop_bit_eq_div take_bit_eq_mod)
  show ?thesis unfolding d m by (rule bit_word_eqI) (auto simp: bit_simps)
qed

lemma json_utf8_control: "n < 32 \<Longrightarrow> json_utf8 (of_nat n) = [char_of n]"
  by (simp add: json_utf8_def word_le_nat_alt unat_of_nat unsigned_ucast_eq take_bit_eq_mod)

lemma control_escapes:
  assumes "n < 32"
  shows "read_escape (CHR ''u'' # CHR ''0'' # CHR ''0'' # hex_char (n div 16) # hex_char (n mod 16) # rest)
     = Inr ([char_of n], rest)"
proof -
  have z: "hex_digit (CHR ''0'') = Some 0" by (simp add: hex_digit_def)
  have four: "hex_digits 4 v cs = hex_digits (Suc (Suc (Suc (Suc 0)))) v cs" for v cs by (simp add: eval_nat_numeral)
  have "n div 16 < 16" using assms by simp
  then have "read_hex4 (CHR ''0'' # CHR ''0'' # hex_char (n div 16) # hex_char (n mod 16) # rest) = Inr (of_nat n, rest)"
    by (simp add: read_hex4_def four z hex_digit_char hex_pair_value)
  moreover have "\<not> 0xD800 \<le> (of_nat n :: u32)" "\<not> 0xDC00 \<le> (of_nat n :: u32)"
    using assms by (simp_all add: word_le_nat_alt unat_of_nat)
  ultimately show ?thesis using assms by (simp add: read_escape_def read_unicode_escape_def json_utf8_control)
qed

lemma read_chars_escape:
  "read_escape rest = Inr (enc, rest') \<Longrightarrow> read_chars out (CHR 0x5C # rest) = read_chars (out @ enc) rest'"
  by (subst read_chars.simps) simp

lemma read_chars_plain:
  "c \<noteq> CHR 0x22 \<Longrightarrow> c \<noteq> CHR 0x5C \<Longrightarrow> \<not> (of_char c :: u8) < 0x20 \<Longrightarrow> read_chars out (c # rest) = read_chars (out @ [c]) rest"
  by (subst read_chars.simps) simp

lemma read_chars_end: "read_chars out (CHR 0x22 # rest) = Inr (out, rest)"
  by (subst read_chars.simps) simp

lemma control_byte: "(of_char c :: u8) < 0x20 \<longleftrightarrow> (of_char c :: nat) < 32"
  by (simp add: word_less_nat_alt unat_of_char)

lemma read_escape_char:
  assumes "json_formatting L"
  shows "read_chars out (json_escape_char L c @ rest) = read_chars (out @ [c]) rest"
proof (cases "c \<in> {CHR 0x22, CHR 0x5C, CHR 0x0A, CHR 0x0D, CHR 0x09, CHR 0x08, CHR 0x0C}")
  case True
  then obtain e where "json_escape_char L c = [CHR 0x5C, e]" "read_escape (e # rest) = Inr ([c], rest)"
    by (auto simp: json_escape_char_def read_escape_def)
  then show ?thesis by (simp add: read_chars_escape)
next
  case False
  show ?thesis
  proof (cases "(of_char c :: nat) < 32")
    case True
    let ?n = "of_char c :: nat"
    have "jl_escape4 L ?n = CHR 0x5C # ''u00'' @ [hex_char (?n div 16), hex_char (?n mod 16)]"
      using assms True by (simp add: json_formatting_def)
    moreover have "json_escape_char L c = jl_escape4 L ?n" using False True by (simp add: json_escape_char_def control_byte)
    moreover have "read_escape (CHR ''u'' # CHR ''0'' # CHR ''0'' # hex_char (?n div 16) # hex_char (?n mod 16) # rest) = Inr ([c], rest)"
      using control_escapes [OF True] by simp
    ultimately show ?thesis by (simp add: read_chars_escape)
  next
    case noctl: False
    then have "json_escape_char L c = [c]" using False by (simp add: json_escape_char_def control_byte)
    then show ?thesis using False noctl by (simp add: read_chars_plain control_byte)
  qed
qed

lemma read_escaped:
  assumes "json_formatting L"
  shows "read_chars out (concat (map (json_escape_char L) s) @ CHR 0x22 # rest) = Inr (out @ s, rest)"
  by (induction s arbitrary: out) (simp_all add: read_escape_char [OF assms] read_chars_end)

lemma read_written_string:
  assumes "json_formatting L"
  shows "read_json_string (append_json_string L [] s @ rest) = Inr (s, rest)"
  by (simp add: read_json_string_def append_json_string_def read_escaped [OF assms])

subsection \<open>Numbers\<close>

text \<open>Text after a number that cannot be read as more of it.\<close>

definition number_stops :: "bytes \<Rightarrow> bool" where
  "number_stops rest \<longleftrightarrow> (case rest of [] \<Rightarrow> True | c # _ \<Rightarrow> \<not> json_digit c \<and> c \<noteq> CHR ''.'' \<and> c \<noteq> CHR ''e'' \<and> c \<noteq> CHR ''E'')"

lemma dropWhile_stops: "dropWhile json_digit cs = ds \<Longrightarrow> number_stops rest \<Longrightarrow> dropWhile json_digit (cs @ rest) = ds @ rest"
  by (induction cs) (auto simp: number_stops_def split: list.splits)

lemma starts_digit_append: "starts_digit cs \<Longrightarrow> starts_digit (cs @ rest)"
  by (simp add: starts_digit_def split: list.splits)

lemma scan_exponent_append:
  assumes "scan_exponent b cs = Inr (x, ds)" "number_stops rest"
  shows "scan_exponent b (cs @ rest) = Inr (x, ds @ rest)"
proof (cases cs)
  case Nil
  then show ?thesis using assms by (auto simp: scan_exponent_def number_stops_def split: list.splits)
next
  case (Cons c es)
  show ?thesis
  proof (cases "c = CHR ''e'' \<or> c = CHR ''E''")
    case True
    then show ?thesis using assms Cons
      by (cases es) (auto simp: scan_exponent_def Let_def starts_digit_def dropWhile_stops split: list.splits if_splits)
  next
    case False
    then show ?thesis using assms(1) unfolding Cons by (auto simp: scan_exponent_def)
  qed
qed

lemma scan_fraction_append:
  assumes "scan_fraction cs = Inr (x, ds)" "number_stops rest"
  shows "scan_fraction (cs @ rest) = Inr (x, ds @ rest)"
proof (cases cs)
  case Nil
  have "scan_fraction rest = scan_exponent True rest"
    using assms(2) by (cases rest) (simp_all add: scan_fraction_def number_stops_def)
  then show ?thesis using assms Nil scan_exponent_append [of True "[]" x ds rest] by (simp add: scan_fraction_def)
next
  case (Cons c es)
  have e: "scan_exponent b (t @ rest) = Inr (x, ds @ rest)" if "scan_exponent b t = Inr (x, ds)" for b t
    using scan_exponent_append [OF that assms(2)] .
  show ?thesis using assms(1) e [of True "c # es"] e [of False "dropWhile json_digit es"] unfolding Cons
    by (auto simp: scan_fraction_def starts_digit_append dropWhile_stops [OF refl assms(2)] split: if_splits)
qed

definition scan_unsigned :: "bytes \<Rightarrow> bytes \<Rightarrow> bool json_read" where
  "scan_unsigned start cs =
     (case cs of
        [] \<Rightarrow> json_fail start ''expected a number''
      | c # rest \<Rightarrow>
          if c = CHR ''0'' then scan_fraction rest
          else if json_digit c then scan_fraction (dropWhile json_digit cs)
          else json_fail cs ''expected a number'')"

lemma scan_number_sign:
  "scan_number (CHR ''-'' # cs) = scan_unsigned (CHR ''-'' # cs) cs"
  "c \<noteq> CHR ''-'' \<Longrightarrow> scan_number (c # cs) = scan_unsigned (c # cs) (c # cs)"
  by (simp_all add: scan_number_def scan_unsigned_def)

lemma scan_unsigned_append:
  assumes "scan_unsigned start cs = Inr (x, ds)" "number_stops rest"
  shows "scan_unsigned start' (cs @ rest) = Inr (x, ds @ rest)"
proof -
  obtain c es where cs: "cs = c # es" using assms(1) by (cases cs) (auto simp: scan_unsigned_def)
  consider "c = CHR ''0''" | "c \<noteq> CHR ''0''" "json_digit c"
    using assms(1) by (auto simp: scan_unsigned_def cs split: if_splits)
  then show ?thesis
  proof cases
    case 1
    then show ?thesis using assms by (simp add: scan_unsigned_def cs scan_fraction_append)
  next
    case 2
    then have "scan_fraction (dropWhile json_digit cs) = Inr (x, ds)" using assms(1) by (simp add: scan_unsigned_def cs)
    from scan_fraction_append [OF this assms(2)] show ?thesis
      using 2 dropWhile_stops [OF refl assms(2), of cs] by (simp add: scan_unsigned_def cs)
  qed
qed

lemma scan_number_append:
  assumes "scan_number cs = Inr (x, ds)" "number_stops rest"
  shows "scan_number (cs @ rest) = Inr (x, ds @ rest)"
proof -
  obtain c es where cs: "cs = c # es" using assms(1) by (cases cs) (auto simp: scan_number_def)
  show ?thesis
  proof (cases "c = CHR ''-''")
    case True
    then show ?thesis using scan_unsigned_append [OF _ assms(2)] assms(1) by (simp add: cs scan_number_sign)
  next
    case False
    then show ?thesis using scan_unsigned_append [OF _ assms(2), of _ cs] assms(1) by (simp add: cs scan_number_sign)
  qed
qed

lemma digit_char:
  assumes "d < 10"
  shows "(of_char (char_of (48 + d) :: char) :: nat) = 48 + d" "json_digit (char_of (48 + d))" "char_of (48 + d) = CHR ''0'' \<longleftrightarrow> d = 0"
proof -
  show v: "(of_char (char_of (48 + d) :: char) :: nat) = 48 + d" using assms by simp
  then show "json_digit (char_of (48 + d))" using assms by (simp add: json_digit_def)
  show "char_of (48 + d) = CHR ''0'' \<longleftrightarrow> d = 0"
  proof
    assume "char_of (48 + d) = CHR ''0''"
    then have "(of_char (char_of (48 + d) :: char) :: nat) = of_char (CHR ''0'')" by (simp only:)
    then show "d = 0" using v by simp
  next
    assume "d = 0"
    moreover have "char_of (of_char (CHR ''0'') :: nat) = CHR ''0''" by (rule char_of_char)
    ultimately show "char_of (48 + d) = CHR ''0''" by simp
  qed
qed

lemma decimal_value_append: "decimal_value acc (xs @ ys) = decimal_value (decimal_value acc xs) ys"
  by (induction acc xs rule: decimal_value.induct) simp_all

lemma decimal_digits_read: "decimal_value 0 (decimal_digits n) = n"
proof (induction n rule: decimal_digits.induct)
  case (1 n)
  then show ?case
    by (subst decimal_digits.simps) (auto simp: decimal_value_append digit_char(1))
qed

lemma decimal_digits_shape:
  "\<exists>c cs. decimal_digits n = c # cs \<and> (\<forall>x \<in> set (decimal_digits n). json_digit x) \<and> (c = CHR ''0'' \<longrightarrow> n = 0 \<and> cs = [])"
proof (induction n rule: decimal_digits.induct)
  case (1 n)
  show ?case
  proof (cases "n < 10")
    case True
    then show ?thesis by (subst decimal_digits.simps, subst decimal_digits.simps) (simp add: digit_char)
  next
    case False
    from 1 [OF False] obtain c cs where c: "decimal_digits (n div 10) = c # cs"
      "\<forall>x \<in> set (decimal_digits (n div 10)). json_digit x" "c = CHR ''0'' \<longrightarrow> n div 10 = 0 \<and> cs = []" by blast
    have n: "decimal_digits n = c # cs @ [char_of (48 + n mod 10)]" using False c(1) by (subst decimal_digits.simps) simp
    show ?thesis unfolding n using c False by (auto simp: digit_char(2))
  qed
qed

lemma scan_decimal: "scan_unsigned start (decimal_digits n) = Inr (True, [])"
proof -
  obtain c cs where c: "decimal_digits n = c # cs" "\<forall>x \<in> set (decimal_digits n). json_digit x" "c = CHR ''0'' \<longrightarrow> cs = []"
    using decimal_digits_shape [of n] by blast
  then have d: "dropWhile json_digit cs = []" by simp
  show ?thesis using c by (auto simp: d scan_unsigned_def scan_fraction_def scan_exponent_def)
qed

lemma scan_decimal_int:
  "scan_number (decimal_int i) = Inr (True, [])"
  "- (2 ^ 63) \<le> i \<Longrightarrow> i < 2 ^ 63 \<Longrightarrow> chars_i64 (decimal_int i) = Some i"
proof -
  obtain c cs where c: "decimal_digits (nat i) = c # cs" "json_digit c"
    using decimal_digits_shape [of "nat i"] by auto
  then have m: "c \<noteq> CHR ''-''" by (auto simp: json_digit_def)
  show "scan_number (decimal_int i) = Inr (True, [])"
    using c(1) m scan_decimal [of "CHR ''-'' # decimal_digits (nat (- i))" "nat (- i)"] scan_decimal [of "c # cs" "nat i"]
    by (simp add: decimal_int_def scan_number_sign)
  assume r: "- (2 ^ 63) \<le> i" "i < 2 ^ 63"
  show "chars_i64 (decimal_int i) = Some i"
  proof (cases "i < 0")
    case True
    then show ?thesis using r by (simp add: chars_i64_def decimal_int_def decimal_digits_read)
  next
    case False
    have "decimal_value 0 (c # cs) = nat i" using decimal_digits_read [of "nat i"] c(1) by (simp del: decimal_value.simps)
    then show ?thesis using r False m by (simp add: chars_i64_def decimal_int_def c(1) del: decimal_value.simps)
  qed
qed

text \<open>
  What \<^verbatim>\<open>fmt\<close> documents of the shortest text of a double, and \<^verbatim>\<open>std::from_chars\<close> of such a text.  The text is a
  decimal integer, or an optional sign, an integer part without leading zeros and a fraction, an exponent (\<^verbatim>\<open>e\<close>, a
  sign, digits) or both; and \<^verbatim>\<open>from_chars\<close> of it is the double it was made from, the nearest one when it is an integer.
\<close>

definition digits_only :: "bytes \<Rightarrow> bool" where
  "digits_only ds \<longleftrightarrow> ds \<noteq> [] \<and> set ds \<subseteq> set ''0123456789''"

definition fraction_text :: "bytes option \<Rightarrow> bytes" where
  "fraction_text f = (case f of None \<Rightarrow> [] | Some ds \<Rightarrow> CHR ''.'' # ds)"

definition exponent_text :: "(bool \<times> bytes) option \<Rightarrow> bytes" where
  "exponent_text e = (case e of None \<Rightarrow> [] | Some (neg, ds) \<Rightarrow> CHR ''e'' # (if neg then CHR ''-'' else CHR ''+'') # ds)"

definition float_text :: "bool \<Rightarrow> nat \<Rightarrow> bytes option \<Rightarrow> (bool \<times> bytes) option \<Rightarrow> bytes" where
  "float_text neg n f e = (if neg then ''-'' else []) @ decimal_digits n @ fraction_text f @ exponent_text e"

definition float_text_form :: "bytes \<Rightarrow> bool" where
  "float_text_form s \<longleftrightarrow> (\<exists>neg n f e. s = float_text neg n f e \<and> \<not> (f = None \<and> e = None)
     \<and> (case f of None \<Rightarrow> True | Some ds \<Rightarrow> digits_only ds)
     \<and> (case e of None \<Rightarrow> True | Some (_, ds) \<Rightarrow> digits_only ds))"

definition shortest_text :: "json_library \<Rightarrow> u64 \<Rightarrow> bool" where
  "shortest_text L v \<longleftrightarrow> jl_parse_float L (jl_show_float L v) = Some v
     \<and> (float_text_form (jl_show_float L v)
        \<or> (\<exists>i. - (2 ^ 63) \<le> i \<and> i < 2 ^ 63 \<and> jl_show_float L v = decimal_int i
              \<and> jl_parse_float L (decimal_int i) = Some (f64_of_int i)))"

text \<open>
  A number that can be read back: not \<^verbatim>\<open>NaN\<close> or infinite (those are written as \<^verbatim>\<open>null\<close>), not negative zero (written
  \<^verbatim>\<open>0\<close>), and, where it is no small integer, with the text \<^verbatim>\<open>fmt\<close> documents.
\<close>

definition number_written :: "json_library \<Rightarrow> u64 \<Rightarrow> bool" where
  "number_written L v \<longleftrightarrow> f64_finite v \<and>
     (case small_integer v of Some _ \<Rightarrow> v \<noteq> F64_SIGN | None \<Rightarrow> shortest_text L v)"

lemma json_digit_chars: "c \<in> set ''0123456789'' \<Longrightarrow> json_digit c"
  by (auto simp: json_digit_def)

lemma digits_only_starts: "digits_only ds \<Longrightarrow> starts_digit (ds @ rest)"
  by (cases ds) (auto simp: digits_only_def starts_digit_def json_digit_def)

lemma digits_only_all: "digits_only ds \<Longrightarrow> c \<in> set ds \<Longrightarrow> json_digit c"
  unfolding digits_only_def using json_digit_chars by blast

lemma digits_only_drop:
  "digits_only ds \<Longrightarrow> number_stops rest \<or> rest = CHR ''e'' # t \<Longrightarrow> dropWhile json_digit (ds @ rest) = rest"
  using digits_only_all [of ds]
  by (subst dropWhile_append2) (auto simp: number_stops_def json_digit_def split: list.splits)

lemma scan_exponent_text:
  assumes "case e of None \<Rightarrow> True | Some (_, ds) \<Rightarrow> digits_only ds"
  shows "scan_exponent b (exponent_text e) = Inr (b \<and> e = None, [])"
proof (cases e)
  case None
  then show ?thesis by (simp add: exponent_text_def scan_exponent_def)
next
  case (Some p)
  then obtain neg ds where e: "e = Some (neg, ds)" "digits_only ds" using assms by (cases p) auto
  then show ?thesis using digits_only_starts [OF e(2), of "[]"] digits_only_drop [OF e(2), of "[]"]
    by (simp add: exponent_text_def scan_exponent_def number_stops_def)
qed

lemma exponent_text_starts: "exponent_text e = [] \<and> e = None \<or> (\<exists>t. exponent_text e = CHR ''e'' # t)"
  by (auto simp: exponent_text_def split: option.splits)

lemma scan_fraction_text:
  assumes "case f of None \<Rightarrow> True | Some ds \<Rightarrow> digits_only ds" "case e of None \<Rightarrow> True | Some (_, ds) \<Rightarrow> digits_only ds"
  shows "scan_fraction (fraction_text f @ exponent_text e) = Inr (f = None \<and> e = None, [])"
proof (cases f)
  case None
  have "scan_fraction (exponent_text e) = scan_exponent True (exponent_text e)"
    using exponent_text_starts [of e] by (auto simp: scan_fraction_def)
  then show ?thesis using scan_exponent_text [OF assms(2)] None by (simp add: fraction_text_def)
next
  case (Some ds)
  then have d: "digits_only ds" using assms(1) by simp
  have "number_stops (exponent_text e) \<or> (\<exists>t. exponent_text e = CHR ''e'' # t)"
    using exponent_text_starts [of e] by (auto simp: number_stops_def)
  then have "dropWhile json_digit (ds @ exponent_text e) = exponent_text e" using digits_only_drop [OF d] by blast
  then show ?thesis using Some scan_exponent_text [OF assms(2), of False] digits_only_starts [OF d]
    by (simp add: fraction_text_def scan_fraction_def)
qed

lemma scan_float_text:
  assumes "case f of None \<Rightarrow> True | Some ds \<Rightarrow> digits_only ds" "case e of None \<Rightarrow> True | Some (_, ds) \<Rightarrow> digits_only ds"
  shows "scan_number (float_text neg n f e) = Inr (f = None \<and> e = None, [])"
proof -
  let ?t = "fraction_text f @ exponent_text e"
  obtain c cs where c: "decimal_digits n = c # cs" "\<forall>x \<in> set (decimal_digits n). json_digit x" "c = CHR ''0'' \<longrightarrow> cs = []"
    using decimal_digits_shape [of n] by blast
  have m: "c \<noteq> CHR ''-''" using c(1,2) by (auto simp: json_digit_def)
  have "dropWhile json_digit ?t = ?t"
    using exponent_text_starts [of e] by (auto simp: fraction_text_def json_digit_def split: option.splits)
  then have "dropWhile json_digit (c # cs @ ?t) = ?t" using c(1,2) dropWhile_append2 [of "c # cs" json_digit ?t] by simp
  then have u: "scan_unsigned start (c # cs @ ?t) = Inr (f = None \<and> e = None, [])" for start
    using c scan_fraction_text [OF assms] by (auto simp: scan_unsigned_def)
  show ?thesis using u m by (cases neg) (simp_all add: float_text_def c(1) scan_number_sign)
qed

lemma written_number_scans:
  assumes "json_formatting L" "number_written L v"
  obtains integral where "scan_number (append_number L [] v) = Inr (integral, [])"
    "number_value L integral (append_number L [] v) = Some v"
proof (cases "small_integer v")
  case None
  let ?s = "jl_show_float L v"
  have t: "append_number L [] v = ?s" and w: "shortest_text L v"
    using assms(2) None by (simp_all add: number_written_def append_number_def)
  then have p: "jl_parse_float L ?s = Some v" by (simp add: shortest_text_def)
  from w consider "float_text_form ?s"
    | i where "- (2 ^ 63) \<le> i" "i < 2 ^ 63" "?s = decimal_int i" "jl_parse_float L (decimal_int i) = Some (f64_of_int i)"
    by (auto simp: shortest_text_def)
  then show ?thesis
  proof cases
    case 1
    then have "scan_number ?s = Inr (False, [])" using scan_float_text by (auto simp: float_text_form_def)
    then show ?thesis using that [of False] p by (simp add: t number_value_def)
  next
    case 2
    then show ?thesis using that [of True] p scan_decimal_int [of i] by (simp add: t number_value_def)
  qed
next
  case (Some i)
  then have i: "f64_of_int i = v" "\<bar>i\<bar> < 2 ^ 53" using assms(2) int_of_small_integer by (auto simp: number_written_def)
  then have r: "- (2 ^ 63) \<le> i" "i < 2 ^ 63" by auto
  then have "append_number L [] v = decimal_int i"
    using assms Some by (simp add: append_number_def number_written_def json_formatting_def)
  then show ?thesis using that [of True] scan_decimal_int r i(1) by (simp add: number_value_def)
qed

lemma read_written_number:
  assumes "json_formatting L" "number_written L v" "number_stops rest"
  shows "read_number L (append_number L [] v @ rest) = Inr (JNumber v, rest)"
proof -
  from written_number_scans [OF assms(1,2)] obtain b where b: "scan_number (append_number L [] v) = Inr (b, [])"
    "number_value L b (append_number L [] v) = Some v" .
  show ?thesis using scan_number_append [OF b(1) assms(3)] b(2) by (simp add: read_number_def)
qed

lemma scan_number_start: "scan_number cs = Inr (b, ds) \<Longrightarrow> \<exists>c es. cs = c # es \<and> (c = CHR ''-'' \<or> json_digit c)"
  by (cases cs) (auto simp: scan_number_def Let_def json_digit_def split: if_splits)

subsection \<open>Values\<close>

declare append_elements.simps [simp del] append_members.simps [simp del]

fun json_numbers :: "json \<Rightarrow> u64 set" where
  "json_numbers (JNumber n) = {n}"
| "json_numbers (JArray es) = (\<Union>e \<in> set es. json_numbers e)"
| "json_numbers (JObject ms) = (\<Union>m \<in> set ms. json_numbers (snd m))"
| "json_numbers v = {}"

text \<open>A value whose text starts as a value and is read back, at a depth and before any text that stops a number.\<close>

definition json_reads_back :: "json_library \<Rightarrow> nat \<Rightarrow> json \<Rightarrow> bool" where
  "json_reads_back L d v \<longleftrightarrow> (\<exists>c cs. to_json L v = c # cs \<and> \<not> is_ws c \<and> c \<noteq> CHR 0x5D \<and> c \<noteq> CHR 0x7D)
     \<and> (\<forall>fuel rest. number_stops rest \<longrightarrow> 2 * length (to_json L v) \<le> fuel
          \<longrightarrow> read_value L fuel d (to_json L v @ rest) = Some (Inr (v, rest)))"

lemma skip_ws_start: "\<not> is_ws c \<Longrightarrow> skip_ws (c # cs) = c # cs"
  by (simp add: skip_ws_def)

lemma number_stops_punct [simp]: "number_stops (CHR '','' # cs)" "number_stops (CHR 0x5D # cs)" "number_stops (CHR 0x7D # cs)"
  "number_stops []"
  by (simp_all add: number_stops_def json_digit_def)

lemma is_ws_punct [simp]: "\<not> is_ws (CHR '','')" "\<not> is_ws (CHR 0x5D)" "\<not> is_ws (CHR 0x7D)" "\<not> is_ws (CHR '':'')"
  "\<not> is_ws (CHR 0x22)" "\<not> is_ws (CHR 0x5B)" "\<not> is_ws (CHR 0x7B)" "\<not> is_ws (CHR ''t'')" "\<not> is_ws (CHR ''f'')"
  "\<not> is_ws (CHR ''n'')" "\<not> is_ws (CHR ''-'')"
  by (simp_all add: is_ws_def)

lemma json_reads_back_start:
  assumes "json_reads_back L d v"
  obtains c cs where "to_json L v = c # cs" "skip_ws (to_json L v @ rest) = to_json L v @ rest" "\<not> is_ws c" "c \<noteq> CHR 0x5D"
  using assms by (auto simp: json_reads_back_def skip_ws_start)

lemma json_reads_back_elements:
  assumes "\<forall>e \<in> set es. json_reads_back L (Suc d) e" "es \<noteq> []" "2 * length (append_elements L True [] es) < fuel"
  shows "read_elements L fuel d (JArray acc) (append_elements L True [] es @ CHR 0x5D # rest) = Some (Inr (JArray (acc @ es), rest))"
  using assms
proof (induction es arbitrary: acc fuel)
  case (Cons e es)
  then obtain f where f: "fuel = Suc f" by (cases fuel) auto
  have rb: "json_reads_back L (Suc d) e" using Cons.prems(1) by simp
  obtain c cs where c: "to_json L e = c # cs" using json_reads_back_start [OF rb] by blast
  have ws: "skip_ws (to_json L e @ t) = to_json L e @ t" for t
    using json_reads_back_start [OF rb, of t] by blast
  have e: "read_value L f (Suc d) (to_json L e @ t) = Some (Inr (e, t))" if "number_stops t" for t
    using rb Cons.prems(3) that f by (simp add: json_reads_back_def to_json_simps)
  show ?case
  proof (cases "es = []")
    case True
    then show ?thesis using ws e by (simp add: f to_json_simps skip_ws_start json_push_def)
  next
    case False
    have tl: "append_elements L False [] es = CHR '','' # append_elements L True [] es"
      using False by (cases es) (simp_all add: to_json_simps)
    have len: "2 * length (append_elements L True [] es) < f" using Cons.prems(3) c f by (simp add: to_json_simps(4) tl)
    have ih: "read_elements L f d (JArray (acc @ [e])) (append_elements L True [] es @ CHR 0x5D # rest)
        = Some (Inr (JArray ((acc @ [e]) @ es), rest))"
      by (rule Cons.IH [OF _ False len]) (use Cons.prems(1) in simp)
    show ?thesis using e [of "CHR '','' # append_elements L True [] es @ CHR 0x5D # rest"] ih
      by (simp add: f to_json_simps(4) tl ws skip_ws_start json_push_def)
  qed
qed simp

lemma read_key:
  assumes "json_formatting L"
  shows "skip_ws (append_json_string L [] k @ rest) = append_json_string L [] k @ rest"
    and "read_json_string (append_json_string L [] k @ rest) = Inr (k, rest)"
  using read_written_string [OF assms] by (simp_all add: append_json_string_def skip_ws_start)

lemma json_reads_back_members:
  assumes "json_formatting L" "\<forall>m \<in> set ms. json_reads_back L (Suc d) (snd m)" "ms \<noteq> []" "distinct (map fst (acc @ ms))"
    "2 * length (append_members L True [] ms) < fuel"
  shows "read_members L fuel d (JObject acc) (append_members L True [] ms @ CHR 0x7D # rest) = Some (Inr (JObject (acc @ ms), rest))"
  using assms(2-)
proof (induction ms arbitrary: acc fuel)
  case (Cons m ms)
  then obtain f where f: "fuel = Suc f" by (cases fuel) auto
  obtain k v where m: "m = (k, v)" by (cases m)
  have v: "json_reads_back L (Suc d) v" using Cons.prems(1) m by simp
  note key = read_key [OF assms(1), of k]
  have ws: "skip_ws (to_json L v @ t) = to_json L v @ t" for t
    using json_reads_back_start [OF v, of t] by blast
  have e: "read_value L f (Suc d) (to_json L v @ t) = Some (Inr (v, t))" if "number_stops t" for t
    using v Cons.prems(4) that f m by (simp add: json_reads_back_def to_json_simps)
  have set: "json_set (JObject acc) k v = JObject (acc @ [m])"
    using Cons.prems(3) m by (simp add: json_set_def set_member_new)
  show ?case
  proof (cases "ms = []")
    case True
    then show ?thesis by (simp add: f m to_json_simps skip_ws_start key ws e set)
  next
    case False
    have tl: "append_members L False [] ms = CHR '','' # append_members L True [] ms"
      using False by (cases ms) (simp_all add: to_json_simps)
    have len: "2 * length (append_members L True [] ms) < f" using Cons.prems(4) f m by (simp add: to_json_simps(6) tl)
    have ih: "read_members L f d (JObject (acc @ [m])) (append_members L True [] ms @ CHR 0x7D # rest)
        = Some (Inr (JObject ((acc @ [m]) @ ms), rest))"
      by (rule Cons.IH [OF _ False _ len]) (use Cons.prems(1,3) in simp_all)
    show ?thesis using ih
      by (simp add: f m to_json_simps(6) tl key ws skip_ws_start e set)
  qed
qed simp

lemma json_reads_back_all:
  assumes "json_formatting L"
  shows "json_wf d v \<Longrightarrow> (\<forall>n \<in> json_numbers v. number_written L n) \<Longrightarrow> json_reads_back L d v"
proof (induction v arbitrary: d)
  case JNull
  have "read_value L fuel d (''null'' @ rest) = Some (Inr (JNull, rest))" if "8 \<le> fuel" for fuel rest
    using that JNull.prems(1) by (cases fuel) (simp_all add: MAX_NESTING_def consume_word_def)
  then show ?case by (simp add: json_reads_back_def to_json_def)
next
  case (JBool b)
  have "read_value L fuel d ((if b then ''true'' else ''false'') @ rest) = Some (Inr (JBool b, rest))" if "8 \<le> fuel" for fuel rest
    using that JBool.prems(1) by (cases fuel) (simp_all add: MAX_NESTING_def consume_word_def)
  then show ?case by (cases b) (simp_all add: json_reads_back_def to_json_def)
next
  case (JNumber n)
  then have w: "number_written L n" by simp
  then have t: "to_json L (JNumber n) = append_number L [] n" by (simp add: to_json_def)
  obtain c cs where c: "append_number L [] n = c # cs" "c = CHR ''-'' \<or> json_digit c"
    using written_number_scans [OF assms w] scan_number_start by metis
  then have cc: "\<not> is_ws c \<and> c \<notin> {CHR 0x5D, CHR 0x7D, CHR 0x7B, CHR 0x5B, CHR 0x22, CHR ''t'', CHR ''f'', CHR ''n''}"
    by (auto simp: is_ws_def json_digit_def)
  have "read_value L fuel d (append_number L [] n @ rest) = Some (Inr (JNumber n, rest))"
    if stops: "number_stops rest" and len: "2 * length (append_number L [] n) \<le> fuel" for fuel rest
  proof -
    obtain f where f: "fuel = Suc f" using len c(1) by (cases fuel) auto
    show ?thesis using read_written_number [OF assms w stops] cc JNumber.prems(1)
      by (auto simp: f c(1) MAX_NESTING_def)
  qed
  then show ?case using c cc by (auto simp: json_reads_back_def t)
next
  case (JString s)
  have "read_value L fuel d (append_json_string L [] s @ rest) = Some (Inr (JString s, rest))"
    if len: "2 * length (append_json_string L [] s) \<le> fuel" for fuel rest
  proof -
    obtain f where f: "fuel = Suc f" using len by (cases fuel) (auto simp: append_json_string_def)
    show ?thesis using read_written_string [OF assms, of s rest] JString.prems(1)
      by (auto simp: f MAX_NESTING_def append_json_string_def)
  qed
  then show ?case by (simp add: json_reads_back_def to_json_def) (simp add: append_json_string_def)
next
  case (JArray es)
  have es: "\<forall>e \<in> set es. json_reads_back L (Suc d) e" using JArray by auto
  have "read_value L fuel d (to_json L (JArray es) @ rest) = Some (Inr (JArray es, rest))"
    if len: "2 * length (to_json L (JArray es)) \<le> fuel" for fuel rest
  proof -
    obtain f where f: "fuel = Suc f" using len by (cases fuel) (auto simp: to_json_simps)
    show ?thesis
    proof (cases es)
      case Nil
      then show ?thesis using JArray.prems(1) by (simp add: f to_json_simps skip_ws_start)
    next
      case (Cons e es')
      then have "json_reads_back L (Suc d) e" using es by simp
      then obtain c0 cs0 where "to_json L e = c0 # cs0" "\<not> is_ws c0" "c0 \<noteq> CHR 0x5D" by (rule json_reads_back_start)
      then obtain c cs where c: "append_elements L True [] es = c # cs" "\<not> is_ws c" "c \<noteq> CHR 0x5D"
        using Cons by (simp add: to_json_simps)
      have "read_elements L f d (JArray []) (append_elements L True [] es @ CHR 0x5D # rest) = Some (Inr (JArray ([] @ es), rest))"
        by (rule json_reads_back_elements [OF es]) (use Cons len f in \<open>simp_all add: to_json_simps(1)\<close>)
      then show ?thesis using JArray.prems(1) c by (simp add: f to_json_simps(1) skip_ws_start)
    qed
  qed
  then show ?case by (simp add: json_reads_back_def) (simp add: to_json_simps)
next
  case (JObject ms)
  have ms: "\<forall>m \<in> set ms. json_reads_back L (Suc d) (snd m)" using JObject by (auto simp: snds.simps)
  have "read_value L fuel d (to_json L (JObject ms) @ rest) = Some (Inr (JObject ms, rest))"
    if len: "2 * length (to_json L (JObject ms)) \<le> fuel" for fuel rest
  proof -
    obtain f where f: "fuel = Suc f" using len by (cases fuel) (auto simp: to_json_simps)
    show ?thesis
    proof (cases ms)
      case Nil
      then show ?thesis using JObject.prems(1) by (simp add: f to_json_simps skip_ws_start)
    next
      case (Cons m ms')
      then obtain cs where c: "append_members L True [] ms = CHR 0x22 # cs" by (simp add: to_json_simps append_json_string_def)
      have "read_members L f d (JObject []) (append_members L True [] ms @ CHR 0x7D # rest) = Some (Inr (JObject ([] @ ms), rest))"
        by (rule json_reads_back_members [OF assms ms]) (use Cons len f JObject.prems(1) in \<open>simp_all add: to_json_simps(2)\<close>)
      then show ?thesis using JObject.prems(1) c by (simp add: f to_json_simps(2) skip_ws_start)
    qed
  qed
  then show ?case by (simp add: json_reads_back_def) (simp add: to_json_simps)
qed

lemma written_json_reads:
  assumes "json_formatting L" "json_wf 0 v" "\<forall>n \<in> json_numbers v. number_written L n"
  shows "parse_json L (to_json L v) = Some (Inr v)"
proof -
  have rb: "json_reads_back L 0 v" by (rule json_reads_back_all [OF assms])
  have "skip_ws (to_json L v @ []) = to_json L v @ []" using json_reads_back_start [OF rb] by blast
  moreover have "read_value L (2 * length (to_json L v) + 2) 0 (to_json L v @ []) = Some (Inr (v, []))"
    using rb unfolding json_reads_back_def by (metis le_add1 number_stops_punct(4))
  ultimately show ?thesis by (simp add: parse_json_def skip_ws_def del: read_value.simps)
qed

subsection \<open>Properties\<close>


definition sample_json_library :: json_library where
  "sample_json_library = \<lparr>jl_show_int = decimal_int,
     jl_show_float = \<lambda>v. if v = 0x3FF8000000000000 then ''1.5'' else ''1e+20'',
     jl_escape4 = \<lambda>n. CHR 0x5C # ''u00'' @ [hex_char (n div 16), hex_char (n mod 16)],
     jl_parse_float = \<lambda>s. if s = ''1.5'' then Some 0x3FF8000000000000
       else if s = ''1e+20'' then Some 0x4415AF1D78B58C40 else None\<rparr>"

definition sample_json :: json where
  "sample_json = JObject [(''id'', JNumber (f64_of_int 7)),
     (''params'', JArray [JString [CHR 0x01, CHR 0x22], JNumber 0x3FF8000000000000, JNumber 0x4415AF1D78B58C40, JObject [], JNull])]"

lemma sample_formatting: "json_formatting sample_json_library"
  by (simp add: json_formatting_def sample_json_library_def)

lemma decimal_digits_one: "decimal_digits 1 = ''1''"
proof -
  have "char_of (49 :: nat) = CHR ''1''" by code_simp
  then show ?thesis by (subst decimal_digits.simps) simp
qed

lemma sample_numbers:
  "number_written sample_json_library (f64_of_int 7)"
  "number_written sample_json_library 0x3FF8000000000000"
  "number_written sample_json_library 0x4415AF1D78B58C40"
proof -
  show "number_written sample_json_library (f64_of_int 7)"
    using small_integer_of_int [of 7] by (simp add: number_written_def)
  have e: "f64_exponent 0x3FF8000000000000 = 1023" by (simp add: f64_exponent_def)
  have m: "f64_significand 0x3FF8000000000000 = 0x18000000000000"
    by (simp add: f64_significand_def e mask_eq_exp_minus_1)
  have n: "small_integer 0x3FF8000000000000 = None" by (simp add: small_integer_def e m Let_def)
  have "float_text_form ''1.5''" unfolding float_text_form_def
    by (intro exI [of _ False] exI [of _ "1::nat"] exI [of _ "Some ''5''"] exI [of _ "None :: (bool \<times> bytes) option"])
      (simp add: float_text_def fraction_text_def exponent_text_def digits_only_def decimal_digits_one del: One_nat_def)
  then show "number_written sample_json_library 0x3FF8000000000000"
    by (simp add: number_written_def f64_finite_def e n shortest_text_def sample_json_library_def)
  have e: "f64_exponent 0x4415AF1D78B58C40 = 1089" by (simp add: f64_exponent_def)
  have m: "f64_significand 0x4415AF1D78B58C40 = 0x15AF1D78B58C40"
    by (simp add: f64_significand_def e mask_eq_exp_minus_1)
  have n: "small_integer 0x4415AF1D78B58C40 = None" by (simp add: small_integer_def e m Let_def)
  have "float_text_form ''1e+20''" unfolding float_text_form_def
    by (intro exI [of _ False] exI [of _ "1::nat"] exI [of _ "None :: bytes option"] exI [of _ "Some (False, ''20'')"])
      (simp add: float_text_def fraction_text_def exponent_text_def digits_only_def decimal_digits_one del: One_nat_def)
  then show "number_written sample_json_library 0x4415AF1D78B58C40"
    by (simp add: number_written_def f64_finite_def e n shortest_text_def sample_json_library_def)
qed


text \<open>
  C31. Every text gets an answer, and a text is accepted only as a value whose nesting is within \<^verbatim>\<open>MAX_NESTING\<close> and whose
  objects hold no key twice (a repeated key replaced the member read first).
\<close>
theorem json_parse_returns:
  "\<exists>r. parse_json L input = Some r \<and> (case r of Inl _ \<Rightarrow> True | Inr v \<Rightarrow> json_wf 0 v)"
proof -
  define fuel where "fuel = 2 * length input + 2"
  have "2 * length (skip_ws input) < fuel" using skip_ws_le [of input] by (simp add: fuel_def)
  then obtain r where r: "read_value L fuel 0 (skip_ws input) = Some r" using read_total(1) by blast
  then have p: "parse_json L input = (case r of Inl e \<Rightarrow> Some (Inl (error_at input e)) | Inr (v, rest) \<Rightarrow>
      if skip_ws rest \<noteq> []
      then Some (Inl (error_at input \<lparr>jf_left = skip_ws rest, jf_message = ''unexpected content after the JSON value''\<rparr>))
      else Some (Inr v))" unfolding parse_json_def fuel_def by simp
  show ?thesis
  proof (cases r)
    case (Inl e)
    then show ?thesis by (simp add: p error_at_def)
  next
    case (Inr vr)
    obtain v rest where vr: "vr = (v, rest)" by (cases vr)
    have "json_wf 0 v" using accepts_wf(1) [OF r [unfolded Inr vr]] by blast
    then show ?thesis by (simp add: p error_at_def Inr vr)
  qed
qed

text \<open>
  An integer id below \<open>2 ^ 53\<close> in size survives the \<^verbatim>\<open>f64\<close> of a JSON number: its decimal text is read, and what is
  read is written as the same text, digit for digit.
\<close>
lemma json_integer_ids:
  assumes "json_formatting L" "\<bar>i\<bar> < 2 ^ 53"
  shows "\<exists>v. parse_json L (decimal_int i) = Some (Inr v) \<and> to_json L v = decimal_int i \<and> number_or v 0 = f64_of_int i"
proof -
  let ?v = "JNumber (f64_of_int i)"
  have i: "- (2 ^ 63) \<le> i" "i < 2 ^ 63" using assms(2) by auto
  have "to_json L ?v = decimal_int i"
    using assms(1) i small_integer_of_int [OF assms(2)] by (simp add: to_json_def append_number_def json_formatting_def)
  moreover have "parse_json L (to_json L ?v) = Some (Inr ?v)"
    by (rule written_json_reads [OF assms(1)]) (use small_integer_of_int [OF assms(2)] in \<open>simp_all add: number_written_def MAX_NESTING_def\<close>)
  ultimately show ?thesis by (auto simp: number_or_def)
qed

end
